(* ===== verification/Prelude.thy ===== *)
theory Prelude
  imports Main "HOL-Library.Monad_Syntax" "HOL-Library.Word" "HOL-Library.Multiset"
begin

text \<open>
  Shared vocabulary of the development.

  \<^item> The C code runs in the option monad: \<^verbatim>\<open>None\<close> is a failed \<^verbatim>\<open>assert\<close>, a dereference of
    \<^verbatim>\<open>NULL\<close> or of memory that is not allocated, signed overflow, or a loop that never ends. A theorem
    that an operation returns \<^verbatim>\<open>Some\<close> therefore says that none of these happens.
  \<^item> Loops are \<open>while_c\<close>, a monadic \<^verbatim>\<open>while\<close> defined by
    \<^theory_text>\<open>partial_function (option)\<close>; \<open>while_c_total\<close> is its total-correctness rule with a
    ghost measure, \<open>while_c_diverges\<close> shows that a loop never returns.
  \<^item> Addresses are natural numbers and \<open>NULL\<close> is 0. The result of \<^verbatim>\<open>malloc\<close> is an argument of the
    operations that allocate (the address, and the indeterminate contents of the new memory).
\<close>

named_theorems heap_simps \<open>reads and writes of the explicit stores\<close>
named_theorems loop_intros \<open>total-correctness facts about the loops of the code\<close>

type_synonym addr = nat

abbreviation NULL :: addr where "NULL \<equiv> 0"

section \<open>The C monad\<close>

definition c_assert :: "bool \<Rightarrow> unit option" where
  "c_assert b = (if b then Some () else None)"

lemma c_assert_simps [simp]:
  "c_assert True = Some ()" "c_assert False = None"
  by (simp_all add: c_assert_def)

lemma bind_c_assert [simp]:
  "Option.bind (c_assert b) f = (if b then f () else None)"
  by (simp add: c_assert_def)

text \<open>Evaluation of \<^verbatim>\<open>do\<close> blocks from the front: the continuation waits for its argument.\<close>

lemma bind_weak_cong: "m = m' \<Longrightarrow> Option.bind m f = Option.bind m' f"
  by simp

partial_function (option) while_c ::
  "('s \<Rightarrow> bool option) \<Rightarrow> ('s \<Rightarrow> 's option) \<Rightarrow> 's \<Rightarrow> 's option" where
  "while_c b c s =
     Option.bind (b s) (\<lambda>t. if t then Option.bind (c s) (while_c b c) else Some s)"

declare while_c.simps [code]

lemma while_c_stop: "b s = Some False \<Longrightarrow> while_c b c s = Some s"
  by (subst while_c.simps) simp

lemma while_c_step:
  "b s = Some True \<Longrightarrow> c s = Some s' \<Longrightarrow> while_c b c s = while_c b c s'"
  by (subst while_c.simps) simp

lemma while_c_stuck: "b s = Some True \<Longrightarrow> c s = None \<Longrightarrow> while_c b c s = None"
  by (subst while_c.simps) simp

text \<open>Total correctness: a ghost measure \<open>n\<close> decreases in every round.\<close>

lemma while_c_total:
  assumes init: "I n s"
    and step: "\<And>n s. I n s \<Longrightarrow> (b s = Some False \<and> Q s) \<or>
      (b s = Some True \<and> (\<exists>s' m. c s = Some s' \<and> m < (n::nat) \<and> I m s'))"
  shows "\<exists>s'. while_c b c s = Some s' \<and> Q s'"
  using init
proof (induction n arbitrary: s rule: less_induct)
  case (less n)
  from step [OF less.prems] show ?case
  proof
    assume "b s = Some False \<and> Q s"
    then show ?thesis using while_c_stop [of b s c] by auto
  next
    assume "b s = Some True \<and> (\<exists>s' m. c s = Some s' \<and> m < n \<and> I m s')"
    then obtain s' m where "b s = Some True" "c s = Some s'" "m < n" "I m s'" by blast
    with less.IH [of m s'] show ?thesis using while_c_step [of b s c s'] by auto
  qed
qed

text \<open>Divergence: a set of states the loop never leaves.\<close>

lemma while_c_diverges:
  assumes "I s" and "\<And>s. I s \<Longrightarrow> b s = Some True \<and> (\<forall>s'. c s = Some s' \<longrightarrow> I s')"
  shows "while_c b c s = None"
proof (rule ccontr)
  assume "while_c b c s \<noteq> None"
  then obtain r where r: "while_c b c s = Some r" by auto
  have "b = b \<longrightarrow> c = c \<longrightarrow> I s \<longrightarrow> False"
  proof (rule while_c.raw_induct [where P = "\<lambda>b' c' s r. b' = b \<longrightarrow> c' = c \<longrightarrow> I s \<longrightarrow> False", OF _ r])
    fix w b' c' s r
    assume IH: "\<And>b' c' s r. w b' c' s = Some r \<Longrightarrow> b' = b \<longrightarrow> c' = c \<longrightarrow> I s \<longrightarrow> False"
      and eq: "Option.bind (b' s) (\<lambda>t. if t then Option.bind (c' s) (w b' c') else Some s) = Some r"
    show "b' = b \<longrightarrow> c' = c \<longrightarrow> I s \<longrightarrow> False"
      using eq IH assms(2) [of s] by (auto simp: bind_eq_Some_conv)
  qed
  then show False using assms(1) by simp
qed

text \<open>Partial correctness: what holds of the first state and is kept by every round holds when the loop has ended.\<close>

lemma while_c_partial:
  assumes r: "while_c b c s = Some r" and init: "I s"
    and step: "\<And>s s'. I s \<Longrightarrow> b s = Some True \<Longrightarrow> c s = Some s' \<Longrightarrow> I s'"
  shows "I r \<and> b r = Some False"
proof -
  have "b = b \<longrightarrow> c = c \<longrightarrow> I s \<longrightarrow> I r \<and> b r = Some False"
  proof (rule while_c.raw_induct [where P = "\<lambda>b' c' s r. b' = b \<longrightarrow> c' = c \<longrightarrow> I s \<longrightarrow> I r \<and> b r = Some False", OF _ r])
    fix w b' c' s r
    assume IH: "\<And>b' c' s r. w b' c' s = Some r \<Longrightarrow> b' = b \<longrightarrow> c' = c \<longrightarrow> I s \<longrightarrow> I r \<and> b r = Some False"
      and eq: "Option.bind (b' s) (\<lambda>t. if t then Option.bind (c' s) (w b' c') else Some s) = Some r"
    show "b' = b \<longrightarrow> c' = c \<longrightarrow> I s \<longrightarrow> I r \<and> b r = Some False"
    proof (intro impI)
      assume [simp]: "b' = b" "c' = c" and I: "I s"
      obtain t where t: "b s = Some t" using eq by (auto simp: bind_eq_Some_conv)
      show "I r \<and> b r = Some False"
      proof (cases t)
        case False
        then show ?thesis using eq t I by simp
      next
        case True
        then obtain s' where s': "c s = Some s'" "w b c s' = Some r" using eq t by (auto simp: bind_eq_Some_conv)
        then show ?thesis using IH [of b c s' r] step [OF I] t True by simp
      qed
    qed
  qed
  then show ?thesis using init by simp
qed

end
