(* ===== verification/Ctypes.thy ===== *)
theory Ctypes
  imports Prelude
begin

text \<open>
  The type system of \<^verbatim>\<open>ohstl/ctypes.c\<close>: the callbacks of a type and the wrappers that call them.

  An element is a value of an arbitrary HOL type \<open>'a\<close>; the callbacks of a type read and write whole
  elements, so \<^verbatim>\<open>copy(void*, const void*)\<close> is a function from the old contents of the
  destination and the source to the new contents of the destination.
\<close>

section \<open>The callbacks of a type\<close>

record 'a tfuncs =
  tf_copy :: "('a \<Rightarrow> 'a \<Rightarrow> 'a) option"
  tf_less :: "('a \<Rightarrow> 'a \<Rightarrow> bool) option"
  tf_init :: "('a \<Rightarrow> 'a) option"
  tf_destroy :: "('a \<Rightarrow> 'a) option"

definition type_copy :: "'a tfuncs \<Rightarrow> 'a \<Rightarrow> 'a \<Rightarrow> 'a" where
  "type_copy tp t1 t2 = (case tf_copy tp of Some f \<Rightarrow> f t1 t2 | None \<Rightarrow> t1)"

definition type_less :: "'a tfuncs \<Rightarrow> 'a \<Rightarrow> 'a \<Rightarrow> bool" where
  "type_less tp t1 t2 = (case tf_less tp of Some f \<Rightarrow> f t1 t2 | None \<Rightarrow> True)"

definition type_init :: "'a tfuncs \<Rightarrow> 'a \<Rightarrow> 'a" where
  "type_init tp t1 = (case tf_init tp of Some f \<Rightarrow> f t1 | None \<Rightarrow> t1)"

definition type_destroy :: "'a tfuncs \<Rightarrow> 'a \<Rightarrow> 'a" where
  "type_destroy tp t1 = (case tf_destroy tp of Some f \<Rightarrow> f t1 | None \<Rightarrow> t1)"

definition type_equal :: "'a tfuncs \<Rightarrow> 'a \<Rightarrow> 'a \<Rightarrow> bool" where
  "type_equal tp t1 t2 = (case tf_less tp of Some f \<Rightarrow> \<not> f t1 t2 \<and> \<not> f t2 t1 | None \<Rightarrow> True)"

definition type_greater :: "'a tfuncs \<Rightarrow> 'a \<Rightarrow> 'a \<Rightarrow> bool" where
  "type_greater tp t1 t2 = (case tf_less tp of Some f \<Rightarrow> f t2 t1 | None \<Rightarrow> True)"

text \<open>
  \<^verbatim>\<open>_get_varg_value_bytype\<close>: an element of a C type is passed by value, an element of a container or
  user type by a pointer, and a null pointer zeroes the destination (\<open>z\<close> is the element whose bytes are zero).
\<close>

datatype 'a varg = VValue 'a | VPointer "'a option"

fun get_varg_value :: "'a tfuncs \<Rightarrow> 'a \<Rightarrow> 'a varg \<Rightarrow> 'a \<Rightarrow> 'a" where
  "get_varg_value tp z (VValue x) retp = x"
| "get_varg_value tp z (VPointer (Some x)) retp = type_copy tp retp x"
| "get_varg_value tp z (VPointer None) retp = z"

fun varg_elem :: "'a \<Rightarrow> 'a varg \<Rightarrow> 'a" where
  "varg_elem z (VValue x) = x"
| "varg_elem z (VPointer (Some x)) = x"
| "varg_elem z (VPointer None) = z"

text \<open>What a container relies on: copying overwrites the destination with the source.\<close>

locale elem_type =
  fixes tp :: "'a tfuncs"
  assumes copies: "type_copy tp d s = s"
begin

lemma get_varg: "get_varg_value tp z arg d = varg_elem z arg"
  by (cases "(z, arg)" rule: varg_elem.cases) (auto simp: copies)

end

text \<open>What an ordered container relies on besides: \<open>less\<close> is a strict weak order.\<close>

locale weak_order =
  fixes less :: "'a \<Rightarrow> 'a \<Rightarrow> bool"
  assumes irrefl: "\<not> less x x"
    and trans: "less x y \<Longrightarrow> less y z \<Longrightarrow> less x z"
    and negtrans: "\<not> less x y \<Longrightarrow> \<not> less y z \<Longrightarrow> \<not> less x z"
begin

lemma asym: "less x y \<Longrightarrow> \<not> less y x"
  using irrefl trans by blast

end

end
