(* ===== verification/Rbtree.thy ===== *)
theory Rbtree
  imports Ctypes
begin

text \<open>
  The red-black tree of \<^verbatim>\<open>ohstl/rbtree.c\<close>, on an explicit store: \<open>rbheap\<close> maps the address of a
  node to its links and colour, a second map holds the elements (\<^verbatim>\<open>char data[0]\<close>). The guard
  embedded in \<^verbatim>\<open>_rbtree_t\<close> is the node at \<open>GUARD\<close>, and the root is its parent link, as in the
  code. Every operation is written pointer by pointer; reads and writes through \<open>NULL\<close> or through an
  address that is not allocated fail.
\<close>

section \<open>Nodes and their fields\<close>

datatype rbcolor = RBT_RED | RBT_BLK

record rblinks =
  rb_left :: addr
  rb_right :: addr
  rb_parent :: addr
  rb_color :: rbcolor

type_synonym rbheap = "addr \<rightharpoonup> rblinks"

definition GUARD :: addr where "GUARD = 1"

record 'a rbtree =
  rbt_nodes :: rbheap
  rbt_data :: "addr \<rightharpoonup> 'a"
  rbt_size :: nat
  rbt_is_multi :: bool
  rbt_less :: "'a \<Rightarrow> 'a \<Rightarrow> bool"
  rbt_type :: "'a tfuncs"

definition rb_get :: "rbheap \<Rightarrow> addr \<Rightarrow> rblinks option" where
  "rb_get h p = (if p = NULL then None else h p)"

definition rb_mod :: "rbheap \<Rightarrow> addr \<Rightarrow> (rblinks \<Rightarrow> rblinks) \<Rightarrow> rbheap option" where
  "rb_mod h p f = Option.bind (rb_get h p) (\<lambda>n. Some (h(p \<mapsto> f n)))"

definition left_of :: "rbheap \<Rightarrow> addr \<Rightarrow> addr option" where
  "left_of h p = map_option rb_left (rb_get h p)"

definition right_of :: "rbheap \<Rightarrow> addr \<Rightarrow> addr option" where
  "right_of h p = map_option rb_right (rb_get h p)"

definition parent_of :: "rbheap \<Rightarrow> addr \<Rightarrow> addr option" where
  "parent_of h p = map_option rb_parent (rb_get h p)"

definition set_left :: "rbheap \<Rightarrow> addr \<Rightarrow> addr \<Rightarrow> rbheap option" where
  "set_left h p v = rb_mod h p (rb_left_update (\<lambda>_. v))"

definition set_right :: "rbheap \<Rightarrow> addr \<Rightarrow> addr \<Rightarrow> rbheap option" where
  "set_right h p v = rb_mod h p (rb_right_update (\<lambda>_. v))"

definition set_parent :: "rbheap \<Rightarrow> addr \<Rightarrow> addr \<Rightarrow> rbheap option" where
  "set_parent h p v = rb_mod h p (rb_parent_update (\<lambda>_. v))"

definition rbt_root :: "rbheap \<Rightarrow> addr option" where
  "rbt_root h = parent_of h GUARD"

definition rbt_set_root :: "rbheap \<Rightarrow> addr \<Rightarrow> rbheap option" where
  "rbt_set_root h p = set_parent h GUARD p"

definition color_of :: "rbheap \<Rightarrow> addr \<Rightarrow> rbcolor option" where
  "color_of h p = map_option rb_color (rb_get h p)"

definition rbt_isblk :: "rbheap \<Rightarrow> addr \<Rightarrow> bool option" where
  "rbt_isblk h p = (if p = NULL then Some True
     else map_option (\<lambda>c. c = RBT_BLK) (color_of h p))"

definition rbt_isred :: "rbheap \<Rightarrow> addr \<Rightarrow> bool option" where
  "rbt_isred h p = map_option Not (rbt_isblk h p)"

definition rbt_setclr :: "rbheap \<Rightarrow> addr \<Rightarrow> rbcolor \<Rightarrow> rbheap option" where
  "rbt_setclr h p c = (if p = NULL then Some h else rb_mod h p (rb_color_update (\<lambda>_. c)))"

abbreviation rbt_setblk :: "rbheap \<Rightarrow> addr \<Rightarrow> rbheap option" where
  "rbt_setblk h p \<equiv> rbt_setclr h p RBT_BLK"

abbreviation rbt_setred :: "rbheap \<Rightarrow> addr \<Rightarrow> rbheap option" where
  "rbt_setred h p \<equiv> rbt_setclr h p RBT_RED"

lemmas field_defs = rb_get_def rb_mod_def left_of_def right_of_def parent_of_def
  set_left_def set_right_def set_parent_def rbt_root_def rbt_set_root_def color_of_def
  rbt_isblk_def rbt_isred_def rbt_setclr_def

section \<open>Initialisation and destruction\<close>

text \<open>
  \<open>guard_node p\<close> is the guard with root \<open>p\<close>. Its colour is never set nor read by the code.
  With \<open>comp_val\<close> the tree compares elements by the type's \<^verbatim>\<open>less\<close>, otherwise by the
  \<open>key_less\<close> of pairs, which the caller passes here.
\<close>

definition guard_node :: "addr \<Rightarrow> rblinks" where
  "guard_node p = \<lparr>rb_left = GUARD, rb_right = GUARD, rb_parent = p, rb_color = RBT_BLK\<rparr>"

definition rbt_init ::
  "'a tfuncs \<Rightarrow> ('a \<Rightarrow> 'a \<Rightarrow> bool) \<Rightarrow> bool \<Rightarrow> bool \<Rightarrow> rbheap \<Rightarrow> (addr \<rightharpoonup> 'a) \<Rightarrow> 'a rbtree option" where
  "rbt_init tp key_less comp_val is_multi h d = do {
     less \<leftarrow> (if comp_val then tf_less tp else Some key_less);
     Some \<lparr>rbt_nodes = h(GUARD \<mapsto> guard_node NULL), rbt_data = d, rbt_size = 0,
           rbt_is_multi = is_multi, rbt_less = less, rbt_type = tp\<rparr> }"

definition rbt_free_treenode :: "'a rbtree \<Rightarrow> addr \<Rightarrow> 'a rbtree option" where
  "rbt_free_treenode r p = do {
     n \<leftarrow> rb_get (rbt_nodes r) p;
     d \<leftarrow> rbt_data r p;
     Some (r\<lparr>rbt_nodes := (rbt_nodes r)(p := None), rbt_data := (rbt_data r)(p := None)\<rparr>) }"

partial_function (option) rbt_destroy_dfs :: "'a rbtree \<Rightarrow> addr \<Rightarrow> 'a rbtree option" where
  "rbt_destroy_dfs r node =
     (if node \<noteq> NULL then do {
        l \<leftarrow> left_of (rbt_nodes r) node;
        r \<leftarrow> rbt_destroy_dfs r l;
        rt \<leftarrow> right_of (rbt_nodes r) node;
        r \<leftarrow> rbt_destroy_dfs r rt;
        rbt_free_treenode r node }
      else Some r)"

definition rbt_destroy :: "'a rbtree \<Rightarrow> 'a rbtree option" where
  "rbt_destroy r = do { root \<leftarrow> rbt_root (rbt_nodes r); rbt_destroy_dfs r root }"

section \<open>Search\<close>

text \<open>
  The loop state is the current node, the parent recorded so far, and whether the element was found
  (the \<^verbatim>\<open>return node\<close> in the loop). The result is the node (\<open>NULL\<close> if absent) and \<^verbatim>\<open>*parent\<close>.
\<close>

definition rbt_find_step ::
  "'a rbtree \<Rightarrow> 'a \<Rightarrow> addr \<times> addr \<times> bool \<Rightarrow> (addr \<times> addr \<times> bool) option" where
  "rbt_find_step r val s = (case s of (node, parent, found) \<Rightarrow> do {
     d \<leftarrow> rbt_data r node;
     if rbt_less r val d then do { l \<leftarrow> left_of (rbt_nodes r) node; Some (l, node, False) }
     else if rbt_less r d val then do { rt \<leftarrow> right_of (rbt_nodes r) node; Some (rt, node, False) }
     else Some (node, parent, True) })"

definition rbt_find_val :: "'a rbtree \<Rightarrow> 'a \<Rightarrow> (addr \<times> addr) option" where
  "rbt_find_val r val = do {
     root \<leftarrow> rbt_root (rbt_nodes r);
     (node, parent, found) \<leftarrow> while_c (\<lambda>(node, parent, found). Some (node \<noteq> NULL \<and> \<not> found))
       (rbt_find_step r val) (root, NULL, False);
     Some (node, parent) }"

section \<open>Rotations\<close>

text \<open>\<open>rbt_replace_child\<close> is the code both rotations use to hang the new subtree root below the parent.\<close>

definition rbt_replace_child :: "rbheap \<Rightarrow> addr \<Rightarrow> addr \<Rightarrow> addr \<Rightarrow> rbheap option" where
  "rbt_replace_child h np node newnode =
     (if np = NULL then rbt_set_root h newnode
      else do {
        npl \<leftarrow> left_of h np;
        npr \<leftarrow> right_of h np;
        if node = npl then set_left h np newnode
        else if node = npr then set_right h np newnode
        else Some h })"

definition rbt_left_rotate :: "rbheap \<Rightarrow> addr \<Rightarrow> rbheap option" where
  "rbt_left_rotate h node = do {
     rnode \<leftarrow> right_of h node;
     c_assert (rnode \<noteq> NULL);
     rl \<leftarrow> left_of h rnode;
     h \<leftarrow> set_right h node rl;
     rl \<leftarrow> left_of h rnode;
     h \<leftarrow> (if rl \<noteq> NULL then set_parent h rl node else Some h);
     np \<leftarrow> parent_of h node;
     h \<leftarrow> set_parent h rnode np;
     h \<leftarrow> rbt_replace_child h np node rnode;
     h \<leftarrow> set_left h rnode node;
     set_parent h node rnode }"

definition rbt_right_rotate :: "rbheap \<Rightarrow> addr \<Rightarrow> rbheap option" where
  "rbt_right_rotate h node = do {
     lnode \<leftarrow> left_of h node;
     c_assert (lnode \<noteq> NULL);
     lr \<leftarrow> right_of h lnode;
     h \<leftarrow> set_left h node lr;
     lr \<leftarrow> right_of h lnode;
     h \<leftarrow> (if lr \<noteq> NULL then set_parent h lr node else Some h);
     np \<leftarrow> parent_of h node;
     h \<leftarrow> set_parent h lnode np;
     h \<leftarrow> rbt_replace_child h np node lnode;
     h \<leftarrow> set_right h lnode node;
     set_parent h node lnode }"

section \<open>Minimum, maximum, successor, predecessor\<close>

definition rbt_tree_minimum :: "rbheap \<Rightarrow> addr \<Rightarrow> addr option" where
  "rbt_tree_minimum h node = while_c (\<lambda>n. map_option (\<lambda>l. l \<noteq> NULL) (left_of h n)) (left_of h) node"

definition rbt_tree_maximum :: "rbheap \<Rightarrow> addr \<Rightarrow> addr option" where
  "rbt_tree_maximum h node = while_c (\<lambda>n. map_option (\<lambda>r. r \<noteq> NULL) (right_of h n)) (right_of h) node"

definition rbt_tree_successor :: "rbheap \<Rightarrow> addr \<Rightarrow> addr option" where
  "rbt_tree_successor h node = do {
     rt \<leftarrow> right_of h node;
     if rt \<noteq> NULL then rbt_tree_minimum h rt
     else do {
       node \<leftarrow> while_c (\<lambda>n. do {
           p \<leftarrow> parent_of h n;
           if p = NULL then Some False else map_option (\<lambda>pr. n = pr) (right_of h p) })
         (parent_of h) node;
       parent_of h node } }"

definition rbt_tree_predecessor :: "rbheap \<Rightarrow> addr \<Rightarrow> addr option" where
  "rbt_tree_predecessor h node = do {
     l \<leftarrow> left_of h node;
     if l \<noteq> NULL then rbt_tree_maximum h l
     else do {
       node \<leftarrow> while_c (\<lambda>n. do {
           p \<leftarrow> parent_of h n;
           if p = NULL then Some False else map_option (\<lambda>pl. n = pl) (left_of h p) })
         (parent_of h) node;
       parent_of h node } }"

section \<open>The self-check\<close>

text \<open>The result pairs the verdict with \<^verbatim>\<open>*maxbh\<close>.\<close>

partial_function (option) rbt_is_vaild_dfs ::
  "'a rbtree \<Rightarrow> addr \<Rightarrow> nat \<Rightarrow> nat \<Rightarrow> (bool \<times> nat) option" where
  "rbt_is_vaild_dfs r node bh maxbh =
     (if node = NULL then
        (let maxbh = (if maxbh = 0 then bh + 1 else maxbh) in Some (maxbh = bh + 1, maxbh))
      else do {
        l \<leftarrow> left_of (rbt_nodes r) node;
        rt \<leftarrow> right_of (rbt_nodes r) node;
        blk \<leftarrow> rbt_isblk (rbt_nodes r) node;
        lblk \<leftarrow> rbt_isblk (rbt_nodes r) l;
        rblk \<leftarrow> rbt_isblk (rbt_nodes r) rt;
        let bh = (if blk then bh + 1 else bh);
        if \<not> blk \<and> (\<not> lblk \<or> \<not> rblk) then Some (False, maxbh)
        else do {
          d \<leftarrow> rbt_data r node;
          lok \<leftarrow> (if l \<noteq> NULL then map_option (\<lambda>dl. rbt_less r dl d) (rbt_data r l) else Some True);
          if \<not> lok then Some (False, maxbh)
          else do {
            rok \<leftarrow> (if rt \<noteq> NULL then map_option (\<lambda>dr. rbt_less r d dr) (rbt_data r rt) else Some True);
            if \<not> rok then Some (False, maxbh)
            else do {
              (ok, maxbh) \<leftarrow> rbt_is_vaild_dfs r l bh maxbh;
              if \<not> ok then Some (False, maxbh)
              else rbt_is_vaild_dfs r rt bh maxbh } } } })"

definition rbt_is_vaild :: "'a rbtree \<Rightarrow> bool option" where
  "rbt_is_vaild r = do {
     root \<leftarrow> rbt_root (rbt_nodes r);
     red \<leftarrow> rbt_isred (rbt_nodes r) root;
     if red then Some False
     else map_option fst (rbt_is_vaild_dfs r root 0 0) }"

section \<open>Insertion\<close>

text \<open>
  \<open>p\<close> is what \<^verbatim>\<open>_RBT_ALLOC\<close> returned and \<open>m\<close> the contents of the new memory. The
  \<^verbatim>\<open>memset\<close> writes through \<open>p\<close> before the caller compares it with \<open>NULL\<close>.
\<close>

definition rbt_new_treenode :: "'a rbtree \<Rightarrow> 'a \<Rightarrow> addr \<Rightarrow> 'a \<Rightarrow> 'a rbtree option" where
  "rbt_new_treenode r valp p m = do {
     c_assert (p \<noteq> NULL);
     Some (r\<lparr>rbt_nodes := (rbt_nodes r)(p \<mapsto>
               \<lparr>rb_left = NULL, rb_right = NULL, rb_parent = NULL, rb_color = RBT_RED\<rparr>),
             rbt_data := (rbt_data r)(p \<mapsto>
               type_copy (rbt_type r) (type_init (rbt_type r) m) valp)\<rparr>) }"

definition rbt_insert_fixup_cond :: "rbheap \<times> addr \<Rightarrow> bool option" where
  "rbt_insert_fixup_cond s = (case s of (h, node) \<Rightarrow> do {
     parent \<leftarrow> parent_of h node;
     rbt_isred h parent })"

definition rbt_insert_fixup_step :: "rbheap \<times> addr \<Rightarrow> (rbheap \<times> addr) option" where
  "rbt_insert_fixup_step s = (case s of (h, node) \<Rightarrow> do {
     parent \<leftarrow> parent_of h node;
     gparent \<leftarrow> parent_of h parent;
     gl \<leftarrow> left_of h gparent;
     if parent = gl then do {
       uncle \<leftarrow> right_of h gparent;
       ured \<leftarrow> rbt_isred h uncle;
       if ured then do {
         h \<leftarrow> rbt_setblk h parent;
         h \<leftarrow> rbt_setblk h uncle;
         h \<leftarrow> rbt_setred h gparent;
         Some (h, gparent) }
       else do {
         pr \<leftarrow> right_of h parent;
         (h, node, parent) \<leftarrow> (if node = pr then do {
             h \<leftarrow> rbt_left_rotate h parent;
             np \<leftarrow> parent_of h parent;
             Some (h, parent, np) }
           else Some (h, node, parent));
         h \<leftarrow> rbt_setblk h parent;
         h \<leftarrow> rbt_setred h gparent;
         h \<leftarrow> rbt_right_rotate h gparent;
         Some (h, node) } }
     else do {
       uncle \<leftarrow> left_of h gparent;
       ured \<leftarrow> rbt_isred h uncle;
       if ured then do {
         h \<leftarrow> rbt_setblk h parent;
         h \<leftarrow> rbt_setblk h uncle;
         h \<leftarrow> rbt_setred h gparent;
         Some (h, gparent) }
       else do {
         pl \<leftarrow> left_of h parent;
         (h, node, parent) \<leftarrow> (if node = pl then do {
             h \<leftarrow> rbt_right_rotate h parent;
             np \<leftarrow> parent_of h parent;
             Some (h, parent, np) }
           else Some (h, node, parent));
         h \<leftarrow> rbt_setblk h parent;
         h \<leftarrow> rbt_setred h gparent;
         h \<leftarrow> rbt_left_rotate h gparent;
         Some (h, node) } } })"

definition rbt_insert_node_fixup :: "rbheap \<Rightarrow> addr \<Rightarrow> rbheap option" where
  "rbt_insert_node_fixup h node = do {
     (h, node) \<leftarrow> while_c rbt_insert_fixup_cond rbt_insert_fixup_step (h, node);
     root \<leftarrow> rbt_root h;
     rbt_setblk h root }"

definition rbt_insert_val :: "'a rbtree \<Rightarrow> 'a \<Rightarrow> addr \<Rightarrow> 'a \<Rightarrow> ('a rbtree \<times> addr) option" where
  "rbt_insert_val r val p m = do {
     (node, parent) \<leftarrow> rbt_find_val r val;
     if node \<noteq> NULL then do {
       d \<leftarrow> rbt_data r node;
       Some (r\<lparr>rbt_data := (rbt_data r)(node \<mapsto> type_copy (rbt_type r) d val)\<rparr>, node) }
     else do {
       r \<leftarrow> rbt_new_treenode r val p m;
       if p = NULL then Some (r, NULL)
       else do {
         h \<leftarrow> (if parent = NULL then rbt_set_root (rbt_nodes r) p
              else do {
                pd \<leftarrow> rbt_data r parent;
                if rbt_less r val pd then set_left (rbt_nodes r) parent p
                else set_right (rbt_nodes r) parent p });
         h \<leftarrow> set_parent h p parent;
         let r = r\<lparr>rbt_size := rbt_size r + 1\<rparr>;
         h \<leftarrow> rbt_insert_node_fixup h p;
         let r = r\<lparr>rbt_nodes := h\<rparr>;
         ok \<leftarrow> rbt_is_vaild r;
         c_assert ok;
         Some (r, p) } } }"

section \<open>Erasure\<close>

definition rbt_erase_fixup_cond :: "rbheap \<times> addr \<times> addr \<Rightarrow> bool option" where
  "rbt_erase_fixup_cond s = (case s of (h, node, parent) \<Rightarrow> do {
     root \<leftarrow> rbt_root h;
     if node \<noteq> root then rbt_isblk h node else Some False })"

definition rbt_erase_fixup_step :: "rbheap \<times> addr \<times> addr \<Rightarrow> (rbheap \<times> addr \<times> addr) option" where
  "rbt_erase_fixup_step s = (case s of (h, node, parent) \<Rightarrow> do {
     pl \<leftarrow> left_of h parent;
     if node = pl then do {
       brother \<leftarrow> right_of h parent;
       bred \<leftarrow> rbt_isred h brother;
       (h, brother) \<leftarrow> (if bred then do {
           h \<leftarrow> rbt_setblk h brother;
           h \<leftarrow> rbt_setred h parent;
           h \<leftarrow> rbt_left_rotate h parent;
           b \<leftarrow> right_of h parent;
           Some (h, b) }
         else Some (h, brother));
       bl \<leftarrow> left_of h brother;
       br \<leftarrow> right_of h brother;
       blb \<leftarrow> rbt_isblk h bl;
       brb \<leftarrow> rbt_isblk h br;
       if blb \<and> brb then do {
         h \<leftarrow> rbt_setred h brother;
         np \<leftarrow> parent_of h parent;
         Some (h, parent, np) }
       else do {
         (h, brother) \<leftarrow> (if brb then do {
             h \<leftarrow> rbt_setblk h bl;
             h \<leftarrow> rbt_setred h brother;
             h \<leftarrow> rbt_right_rotate h brother;
             b \<leftarrow> right_of h parent;
             Some (h, b) }
           else Some (h, brother));
         pc \<leftarrow> color_of h parent;
         h \<leftarrow> rbt_setclr h brother pc;
         h \<leftarrow> rbt_setblk h parent;
         br \<leftarrow> right_of h brother;
         h \<leftarrow> rbt_setblk h br;
         h \<leftarrow> rbt_left_rotate h parent;
         root \<leftarrow> rbt_root h;
         Some (h, root, parent) } }
     else do {
       brother \<leftarrow> left_of h parent;
       bred \<leftarrow> rbt_isred h brother;
       (h, brother) \<leftarrow> (if bred then do {
           h \<leftarrow> rbt_setblk h brother;
           h \<leftarrow> rbt_setred h parent;
           h \<leftarrow> rbt_right_rotate h parent;
           b \<leftarrow> left_of h parent;
           Some (h, b) }
         else Some (h, brother));
       bl \<leftarrow> left_of h brother;
       br \<leftarrow> right_of h brother;
       blb \<leftarrow> rbt_isblk h bl;
       brb \<leftarrow> rbt_isblk h br;
       if blb \<and> brb then do {
         h \<leftarrow> rbt_setred h brother;
         np \<leftarrow> parent_of h parent;
         Some (h, parent, np) }
       else do {
         (h, brother) \<leftarrow> (if blb then do {
             h \<leftarrow> rbt_setblk h br;
             h \<leftarrow> rbt_setred h brother;
             h \<leftarrow> rbt_left_rotate h brother;
             b \<leftarrow> left_of h parent;
             Some (h, b) }
           else Some (h, brother));
         pc \<leftarrow> color_of h parent;
         h \<leftarrow> rbt_setclr h brother pc;
         h \<leftarrow> rbt_setblk h parent;
         bl \<leftarrow> left_of h brother;
         h \<leftarrow> rbt_setblk h bl;
         h \<leftarrow> rbt_right_rotate h parent;
         root \<leftarrow> rbt_root h;
         Some (h, root, parent) } } })"

definition rbt_erase_node_fixup :: "rbheap \<Rightarrow> addr \<Rightarrow> addr \<Rightarrow> rbheap option" where
  "rbt_erase_node_fixup h node parent = do {
     (h, node, parent) \<leftarrow> while_c rbt_erase_fixup_cond rbt_erase_fixup_step (h, node, parent);
     rbt_setblk h node }"

definition rbt_unlink :: "rbheap \<Rightarrow> addr \<Rightarrow> addr \<Rightarrow> rbheap option" where
  "rbt_unlink h delnode delchild = do {
     dp \<leftarrow> parent_of h delnode;
     h \<leftarrow> (if delchild \<noteq> NULL then set_parent h delchild dp else Some h);
     if dp = NULL then rbt_set_root h delchild
     else do {
       dpl \<leftarrow> left_of h dp;
       if delnode = dpl then set_left h dp delchild else set_right h dp delchild } }"

definition rbt_erase_node :: "'a rbtree \<Rightarrow> addr \<Rightarrow> 'a rbtree option" where
  "rbt_erase_node r node = do {
     c_assert (node \<noteq> NULL);
     c_assert (node \<noteq> GUARD);
     l \<leftarrow> left_of (rbt_nodes r) node;
     rt \<leftarrow> right_of (rbt_nodes r) node;
     delnode \<leftarrow> (if l = NULL \<or> rt = NULL then Some node
                 else rbt_tree_successor (rbt_nodes r) node);
     dl \<leftarrow> left_of (rbt_nodes r) delnode;
     dr \<leftarrow> right_of (rbt_nodes r) delnode;
     let delchild = (if dl \<noteq> NULL then dl else dr);
     h \<leftarrow> rbt_unlink (rbt_nodes r) delnode delchild;
     r \<leftarrow> (if delnode \<noteq> node then do {
          d \<leftarrow> rbt_data r node;
          dd \<leftarrow> rbt_data r delnode;
          Some (r\<lparr>rbt_data := (rbt_data r)(node \<mapsto> type_copy (rbt_type r) d dd)\<rparr>) }
        else Some r);
     blk \<leftarrow> rbt_isblk h delnode;
     dp \<leftarrow> parent_of h delnode;
     h \<leftarrow> (if blk then rbt_erase_node_fixup h delchild dp else Some h);
     r \<leftarrow> rbt_free_treenode (r\<lparr>rbt_nodes := h\<rparr>) delnode;
     let r = r\<lparr>rbt_size := rbt_size r - 1\<rparr>;
     ok \<leftarrow> rbt_is_vaild r;
     c_assert ok;
     Some r }"

definition rbt_erase_val :: "'a rbtree \<Rightarrow> 'a \<Rightarrow> 'a rbtree option" where
  "rbt_erase_val r val = do {
     (node, parent) \<leftarrow> rbt_find_val r val;
     if node = NULL then Some r else rbt_erase_node r node }"

section \<open>Iterators\<close>

definition rbt_begin_node :: "'a rbtree \<Rightarrow> addr option" where
  "rbt_begin_node r = (if rbt_size r = 0 then Some GUARD
     else do { root \<leftarrow> rbt_root (rbt_nodes r); rbt_tree_minimum (rbt_nodes r) root })"

definition rbt_iter_next :: "'a rbtree \<Rightarrow> addr \<Rightarrow> addr option" where
  "rbt_iter_next r pos = do {
     node \<leftarrow> rbt_tree_successor (rbt_nodes r) pos;
     Some (if node \<noteq> NULL then node else GUARD) }"

definition rbt_iter_pre :: "'a rbtree \<Rightarrow> addr \<Rightarrow> addr option" where
  "rbt_iter_pre r pos = do {
     node \<leftarrow> rbt_tree_predecessor (rbt_nodes r) pos;
     Some (if node \<noteq> NULL then node else GUARD) }"

definition rbt_iter_get_value :: "'a rbtree \<Rightarrow> addr \<Rightarrow> 'a \<Rightarrow> 'a option" where
  "rbt_iter_get_value r pos elm = do { d \<leftarrow> rbt_data r pos; Some (type_copy (rbt_type r) elm d) }"

definition rbt_iter_set_value :: "'a rbtree \<Rightarrow> addr \<Rightarrow> 'a \<Rightarrow> 'a rbtree option" where
  "rbt_iter_set_value r pos elm = do {
     d \<leftarrow> rbt_data r pos;
     Some (r\<lparr>rbt_data := (rbt_data r)(pos \<mapsto> type_copy (rbt_type r) d elm)\<rparr>) }"

end
