(* ===== verification/RbtreeShape.thy ===== *)
theory RbtreeShape
  imports Rbtree
begin

text \<open>
  The shape of a red-black tree in the store: address trees, one-hole contexts for the walk along
  parent links, and what reads, recolourings and rotations do to a focused subtree.
\<close>

section \<open>Trees and contexts in the store\<close>

datatype atree = Lf | Nd atree addr rbcolor atree

fun ptr :: "atree \<Rightarrow> addr" where
  "ptr Lf = NULL"
| "ptr (Nd l a c r) = a"

fun addrs :: "atree \<Rightarrow> addr list" where
  "addrs Lf = []"
| "addrs (Nd l a c r) = addrs l @ a # addrs r"

fun tree_at :: "rbheap \<Rightarrow> addr \<Rightarrow> atree \<Rightarrow> bool" where
  "tree_at h q Lf \<longleftrightarrow> True"
| "tree_at h q (Nd l a c r) \<longleftrightarrow> a \<noteq> NULL \<and>
     h a = Some \<lparr>rb_left = ptr l, rb_right = ptr r, rb_parent = q, rb_color = c\<rparr> \<and>
     tree_at h a l \<and> tree_at h a r"

datatype frame = FL addr rbcolor atree | FR atree addr rbcolor

fun top :: "frame list \<Rightarrow> addr" where
  "top [] = NULL"
| "top (FL a c r # k) = a"
| "top (FR l a c # k) = a"

fun ctx_at :: "rbheap \<Rightarrow> addr \<Rightarrow> frame list \<Rightarrow> bool" where
  "ctx_at h p [] \<longleftrightarrow> h GUARD = Some (guard_node p)"
| "ctx_at h p (FL a c r # k) \<longleftrightarrow> a \<noteq> NULL \<and>
     h a = Some \<lparr>rb_left = p, rb_right = ptr r, rb_parent = top k, rb_color = c\<rparr> \<and>
     tree_at h a r \<and> ctx_at h a k"
| "ctx_at h p (FR l a c # k) \<longleftrightarrow> a \<noteq> NULL \<and>
     h a = Some \<lparr>rb_left = ptr l, rb_right = p, rb_parent = top k, rb_color = c\<rparr> \<and>
     tree_at h a l \<and> ctx_at h a k"

fun plug :: "atree \<Rightarrow> frame list \<Rightarrow> atree" where
  "plug t [] = t"
| "plug t (FL a c r # k) = plug (Nd t a c r) k"
| "plug t (FR l a c # k) = plug (Nd l a c t) k"

text \<open>The addresses before and after the hole, in order.\<close>

fun kleft :: "frame list \<Rightarrow> addr list" where
  "kleft [] = []"
| "kleft (FL a c r # k) = kleft k"
| "kleft (FR l a c # k) = kleft k @ addrs l @ [a]"

fun kright :: "frame list \<Rightarrow> addr list" where
  "kright [] = []"
| "kright (FL a c r # k) = a # addrs r @ kright k"
| "kright (FR l a c # k) = kright k"

lemma addrs_plug [simp]: "addrs (plug t k) = kleft k @ addrs t @ kright k"
  by (induction t k rule: plug.induct) auto

definition zip_at :: "rbheap \<Rightarrow> atree \<Rightarrow> frame list \<Rightarrow> bool" where
  "zip_at h t k \<longleftrightarrow> tree_at h (top k) t \<and> ctx_at h (ptr t) k \<and>
     distinct (kleft k @ addrs t @ kright k) \<and> GUARD \<notin> set (kleft k @ addrs t @ kright k)"

lemma zip_up:
  "zip_at h t (FL a c r # k) \<longleftrightarrow> zip_at h (Nd t a c r) k"
  "zip_at h t (FR l a c # k) \<longleftrightarrow> zip_at h (Nd l a c t) k"
  by (auto simp: zip_at_def)

lemma zip_plug: "zip_at h (plug t k) [] \<longleftrightarrow> zip_at h t k"
  by (induction t k rule: plug.induct) (auto simp: zip_up)

lemma GUARD_nz [simp]: "GUARD \<noteq> NULL" "NULL \<noteq> GUARD"
  by (simp_all add: GUARD_def)

lemma ptr_in_addrs [simp]: "ptr t \<in> set (addrs t) \<longleftrightarrow> t \<noteq> Lf"
  by (cases t) auto

lemma tree_at_nz: "tree_at h q t \<Longrightarrow> NULL \<notin> set (addrs t)"
  by (induction t arbitrary: q) auto

lemma ctx_at_nz: "ctx_at h p k \<Longrightarrow> NULL \<notin> set (kleft k) \<and> NULL \<notin> set (kright k)"
  by (induction h p k rule: ctx_at.induct) (auto dest: tree_at_nz)

lemma zip_nz: "zip_at h t k \<Longrightarrow> NULL \<notin> set (addrs (plug t k))"
  by (auto simp: zip_at_def dest: tree_at_nz ctx_at_nz)

lemma ptr_plug: "k \<noteq> [] \<Longrightarrow> ptr (plug t k) \<in> set (kleft k) \<union> set (kright k)"
proof (induction t k rule: plug.induct)
  case (2 t a c r k)
  then show ?case by (cases "k = []") auto
next
  case (3 t l a c k)
  then show ?case by (cases "k = []") auto
qed simp

section \<open>Frame rules\<close>

lemma tree_at_frame [simp]: "a \<notin> set (addrs t) \<Longrightarrow> tree_at (h(a := n)) q t = tree_at h q t"
  by (induction t arbitrary: q) auto

lemma ctx_at_frame [simp]:
  "a \<notin> set (kleft k) \<Longrightarrow> a \<notin> set (kright k) \<Longrightarrow> GUARD \<noteq> a \<Longrightarrow>
   ctx_at (h(a := n)) p k = ctx_at h p k"
  by (induction h p k rule: ctx_at.induct) auto

lemma zip_at_frame:
  "a \<notin> set (addrs (plug t k)) \<Longrightarrow> GUARD \<noteq> a \<Longrightarrow> zip_at (h(a := n)) t k = zip_at h t k"
  by (auto simp: zip_at_def)

section \<open>Reads at the focus\<close>

lemma zip_reads:
  assumes "zip_at h (Nd l a c r) k"
  shows "left_of h a = Some (ptr l)" "right_of h a = Some (ptr r)" "parent_of h a = Some (top k)"
    "color_of h a = Some c" "rbt_isblk h a = Some (c = RBT_BLK)" "rbt_isred h a = Some (c = RBT_RED)"
    "a \<noteq> NULL" "a \<noteq> GUARD" "rb_get h a = Some \<lparr>rb_left = ptr l, rb_right = ptr r, rb_parent = top k, rb_color = c\<rparr>"
  using assms by (cases c; auto simp: zip_at_def field_defs)+

lemma zip_root: "zip_at h t k \<Longrightarrow> rbt_root h = Some (ptr (plug t k))"
  by (drule zip_plug [THEN iffD2]) (simp add: zip_at_def field_defs guard_node_def)

lemma zip_at_focus_root:
  assumes "zip_at h t k"
  shows "ptr t = ptr (plug t k) \<longleftrightarrow> k = []"
proof (cases "k = []")
  case False
  then have "ptr (plug t k) \<in> set (kleft k) \<union> set (kright k)" by (rule ptr_plug)
  with assms zip_nz [OF assms] have "ptr t \<noteq> ptr (plug t k)"
    by (cases t) (auto simp: zip_at_def)
  with False show ?thesis by simp
qed simp

text \<open>The colour of a subtree's root, read at its address.\<close>

fun col :: "atree \<Rightarrow> rbcolor" where
  "col Lf = RBT_BLK"
| "col (Nd l a c r) = c"

lemma isblk_tree: "tree_at h q t \<Longrightarrow> rbt_isblk h (ptr t) = Some (col t = RBT_BLK)"
  by (cases t) (auto simp: field_defs)

lemma isred_tree: "tree_at h q t \<Longrightarrow> rbt_isred h (ptr t) = Some (col t = RBT_RED)"
  by (cases "col t") (auto simp: rbt_isred_def isblk_tree)

lemma zip_at_focus: "zip_at h t k \<Longrightarrow> tree_at h (top k) t"
  by (simp add: zip_at_def)

lemma zip_children:
  assumes "zip_at h (Nd l a c r) k"
  shows "rbt_isblk h (ptr l) = Some (col l = RBT_BLK)" "rbt_isblk h (ptr r) = Some (col r = RBT_BLK)"
    "rbt_isred h (ptr l) = Some (col l = RBT_RED)" "rbt_isred h (ptr r) = Some (col r = RBT_RED)"
    "ptr l = ptr r \<longleftrightarrow> l = Lf \<and> r = Lf"
  using assms
  by (auto simp: zip_at_def isblk_tree isred_tree)
     (cases l; cases r; auto)+

section \<open>Writes keep the set of allocated nodes\<close>

lemma rb_mod_dom: "rb_mod h p f = Some h' \<Longrightarrow> dom h' = dom h"
  by (auto simp: rb_mod_def rb_get_def bind_eq_Some_conv split: if_splits)

lemma setters_dom:
  "set_left h p v = Some h' \<Longrightarrow> dom h' = dom h"
  "set_right h p v = Some h' \<Longrightarrow> dom h' = dom h"
  "set_parent h p v = Some h' \<Longrightarrow> dom h' = dom h"
  "rbt_set_root h p = Some h' \<Longrightarrow> dom h' = dom h"
  "rbt_setclr h p c = Some h' \<Longrightarrow> dom h' = dom h"
  by (simp_all add: set_left_def set_right_def set_parent_def rbt_set_root_def rbt_setclr_def
      rb_mod_dom split: if_splits)

lemma replace_child_dom: "rbt_replace_child h q p p' = Some h' \<Longrightarrow> dom h' = dom h"
  by (auto simp: rbt_replace_child_def bind_eq_Some_conv dest: setters_dom split: if_splits del: equalityI)

section \<open>Writes at the focus\<close>

lemma setclr_zip:
  assumes "zip_at h (Nd l a c r) k"
  shows "\<exists>h'. rbt_setclr h a d = Some h' \<and> zip_at h' (Nd l a d r) k \<and> dom h' = dom h"
  using assms by (auto simp: zip_at_def field_defs)

lemma replace_child_ctx:
  assumes "ctx_at h p k" "distinct (p # kleft k @ kright k)" "GUARD \<notin> set (kleft k @ kright k)" "p \<noteq> NULL"
  shows "\<exists>h'. rbt_replace_child h (top k) p p' = Some h' \<and> ctx_at h' p' k \<and>
     (\<forall>q. q \<notin> set (kleft k) \<union> set (kright k) \<union> {GUARD} \<longrightarrow> h' q = h q)"
proof (cases k rule: top.cases)
  case 1
  with assms show ?thesis by (simp add: rbt_replace_child_def field_defs guard_node_def)
next
  case (2 a c r k')
  with assms show ?thesis by (simp add: rbt_replace_child_def field_defs)
next
  case (3 l a c k')
  with assms have "p \<noteq> ptr l" by (cases l) auto
  with 3 assms show ?thesis by (simp add: rbt_replace_child_def field_defs)
qed

lemma reparent_tree:
  assumes "tree_at h q t" "distinct (addrs t)"
  shows "\<exists>h'. (if ptr t \<noteq> NULL then set_parent h (ptr t) q' else Some h) = Some h' \<and>
    tree_at h' q' t \<and> (\<forall>p. p \<notin> set (addrs t) \<longrightarrow> h' p = h p)"
  using assms by (cases t) (simp_all add: field_defs)

lemma tree_at_cong: "(\<And>a. a \<in> set (addrs t) \<Longrightarrow> h' a = h a) \<Longrightarrow> tree_at h' q t = tree_at h q t"
  by (induction t arbitrary: q) auto

lemma ctx_at_cong:
  "(\<And>a. a \<in> set (kleft k) \<union> set (kright k) \<union> {GUARD} \<Longrightarrow> h' a = h a) \<Longrightarrow> ctx_at h' p k = ctx_at h p k"
proof (induction h p k rule: ctx_at.induct)
  case (2 h p a c r k)
  have "ctx_at h' a k = ctx_at h a k" by (rule 2) (use 2 in auto)
  moreover have "tree_at h' a r = tree_at h a r" by (rule tree_at_cong) (use 2 in auto)
  moreover have "h' a = h a" by (rule 2) auto
  ultimately show ?case by simp
next
  case (3 h p l a c k)
  have "ctx_at h' a k = ctx_at h a k" by (rule 3) (use 3 in auto)
  moreover have "tree_at h' a l = tree_at h a l" by (rule tree_at_cong) (use 3 in auto)
  moreover have "h' a = h a" by (rule 3) auto
  ultimately show ?case by simp
qed simp

lemma top_in_ctx: "k \<noteq> [] \<Longrightarrow> top k \<in> set (kleft k) \<union> set (kright k)"
  by (cases k rule: top.cases) auto

lemma zip_focusI:
  assumes "tree_at h' (top k) t'" "ctx_at h' (ptr t') k" "zip_at h t k" "addrs t' = addrs t"
  shows "zip_at h' t' k"
  using assms by (simp add: zip_at_def)

lemma left_rotate_zip:
  assumes z: "zip_at h (Nd a x cx (Nd b y cy c)) k"
  shows "\<exists>h'. rbt_left_rotate h x = Some h' \<and> zip_at h' (Nd (Nd a x cx b) y cy c) k \<and>
    dom h' = dom h"
proof -
  let ?K = "set (kleft k) \<union> set (kright k) \<union> {GUARD}"
  have hx: "h x = Some \<lparr>rb_left = ptr a, rb_right = y, rb_parent = top k, rb_color = cx\<rparr>"
    and hy: "h y = Some \<lparr>rb_left = ptr b, rb_right = ptr c, rb_parent = x, rb_color = cy\<rparr>"
    and nz: "x \<noteq> NULL" "y \<noteq> NULL" and t: "tree_at h x a" "tree_at h y b" "tree_at h y c" and k: "ctx_at h x k"
    using z by (auto simp: zip_at_def)
  have d: "x \<noteq> y" "x \<notin> ?K" "y \<notin> ?K" "distinct (addrs b)" "x \<notin> set (addrs b)" "y \<notin> set (addrs b)"
    "distinct (x # kleft k @ kright k)" "GUARD \<notin> set (kleft k @ kright k)"
    using z by (auto simp: zip_at_def)
  have sep: "p \<notin> ?K" "p \<noteq> x" "p \<noteq> y" if "p \<in> set (addrs a) \<union> set (addrs b) \<union> set (addrs c)" for p
    using z that by (auto simp: zip_at_def)
  have sepb: "p \<notin> set (addrs b)" if "p \<in> set (addrs a) \<union> set (addrs c) \<union> ?K" for p
    using z that by (auto simp: zip_at_def)
  define h1 where "h1 = h(x \<mapsto> \<lparr>rb_left = ptr a, rb_right = ptr b, rb_parent = top k, rb_color = cx\<rparr>)"
  have "tree_at h1 y b" using t(2) d(5) by (simp add: h1_def)
  then obtain h2 where h2: "(if ptr b \<noteq> NULL then set_parent h1 (ptr b) x else Some h1) = Some h2"
    "tree_at h2 x b" "\<And>p. p \<notin> set (addrs b) \<Longrightarrow> h2 p = h1 p"
    using reparent_tree d(4) by blast
  have h2xy: "h2 x = h1 x" "h2 y = h y" using h2(3) d by (simp_all add: h1_def)
  define h3 where "h3 = h2(y \<mapsto> \<lparr>rb_left = ptr b, rb_right = ptr c, rb_parent = top k, rb_color = cy\<rparr>)"
  have off: "h3 p = h p" if "p \<in> set (addrs a) \<union> set (addrs c) \<union> ?K" for p
  proof -
    from that sep d have "p \<noteq> x" "p \<noteq> y" by blast+
    with sepb [OF that] show ?thesis by (simp add: h3_def h2(3) h1_def)
  qed
  have "ctx_at h3 x k = ctx_at h x k" by (rule ctx_at_cong) (rule off, blast)
  with k obtain h4 where h4: "rbt_replace_child h3 (top k) x y = Some h4" "ctx_at h4 y k"
    "\<And>p. p \<notin> ?K \<Longrightarrow> h4 p = h3 p"
    using replace_child_ctx [of h3 x k y] d(7,8) nz(1) by auto
  define h5 where "h5 = h4(y \<mapsto> \<lparr>rb_left = x, rb_right = ptr c, rb_parent = top k, rb_color = cy\<rparr>)"
  define h6 where "h6 = h5(x \<mapsto> \<lparr>rb_left = ptr a, rb_right = ptr b, rb_parent = y, rb_color = cx\<rparr>)"
  have e: "right_of h x = Some y" "left_of h y = Some (ptr b)" "set_right h x (ptr b) = Some h1"
    "left_of h1 y = Some (ptr b)" "parent_of h2 x = Some (top k)" "set_parent h2 y (top k) = Some h3"
    using hx hy nz d(1) h2xy by (simp_all add: field_defs h1_def h3_def)
  have "h4 y = h3 y" "h4 x = h3 x" using h4(3) d by simp_all
  then have f: "set_left h4 y x = Some h5" "set_parent h5 x y = Some h6"
    using nz d(1) h2xy by (simp_all add: field_defs h6_def h5_def h3_def h1_def)
  have "rbt_left_rotate h x = Some h6"
    using nz e f h2(1) h4(1) by (cases "ptr b = NULL") (simp_all add: rbt_left_rotate_def cong: bind_weak_cong)
  moreover have "dom h6 = dom h"
    using e(3,6) f h4(1) h2(1) by (auto dest!: setters_dom replace_child_dom split: if_splits del: equalityI)
  moreover have "zip_at h6 (Nd (Nd a x cx b) y cy c) k"
  proof (rule zip_focusI [OF _ _ z])
    have "ctx_at h6 y k = ctx_at h4 y k" by (rule ctx_at_cong) (use d in \<open>auto simp: h6_def h5_def\<close>)
    with h4(2) show "ctx_at h6 (ptr (Nd (Nd a x cx b) y cy c)) k" by simp
    have off6: "h6 p = h3 p" if "p \<in> set (addrs a) \<union> set (addrs b) \<union> set (addrs c)" for p
      using sep [OF that] h4(3) by (simp add: h6_def h5_def)
    have "tree_at h6 x a = tree_at h x a" "tree_at h6 y c = tree_at h y c"
      by (rule tree_at_cong, simp add: off off6)+
    moreover have "h3 p = h2 p" if "p \<in> set (addrs b)" for p
      using sep that by (simp add: h3_def)
    then have "tree_at h6 x b = tree_at h2 x b" by (intro tree_at_cong) (simp add: off6)
    ultimately show "tree_at h6 (top k) (Nd (Nd a x cx b) y cy c)"
      using t h2(2) nz d(1) by (simp add: h6_def h5_def)
  qed simp
  ultimately show ?thesis by blast
qed


lemma right_rotate_zip:
  assumes z: "zip_at h (Nd (Nd c y cy b) x cx a) k"
  shows "\<exists>h'. rbt_right_rotate h x = Some h' \<and> zip_at h' (Nd c y cy (Nd b x cx a)) k \<and>
    dom h' = dom h"
proof -
  let ?K = "set (kleft k) \<union> set (kright k) \<union> {GUARD}"
  have hx: "h x = Some \<lparr>rb_left = y, rb_right = ptr a, rb_parent = top k, rb_color = cx\<rparr>"
    and hy: "h y = Some \<lparr>rb_left = ptr c, rb_right = ptr b, rb_parent = x, rb_color = cy\<rparr>"
    and nz: "x \<noteq> NULL" "y \<noteq> NULL" and t: "tree_at h x a" "tree_at h y b" "tree_at h y c" and k: "ctx_at h x k"
    using z by (auto simp: zip_at_def)
  have d: "x \<noteq> y" "x \<notin> ?K" "y \<notin> ?K" "distinct (addrs b)" "x \<notin> set (addrs b)" "y \<notin> set (addrs b)"
    "distinct (x # kleft k @ kright k)" "GUARD \<notin> set (kleft k @ kright k)"
    using z by (auto simp: zip_at_def)
  have sep: "p \<notin> ?K" "p \<noteq> x" "p \<noteq> y" if "p \<in> set (addrs a) \<union> set (addrs b) \<union> set (addrs c)" for p
    using z that by (auto simp: zip_at_def)
  have sepb: "p \<notin> set (addrs b)" if "p \<in> set (addrs a) \<union> set (addrs c) \<union> ?K" for p
    using z that by (auto simp: zip_at_def)
  define h1 where "h1 = h(x \<mapsto> \<lparr>rb_left = ptr b, rb_right = ptr a, rb_parent = top k, rb_color = cx\<rparr>)"
  have "tree_at h1 y b" using t(2) d(5) by (simp add: h1_def)
  then obtain h2 where h2: "(if ptr b \<noteq> NULL then set_parent h1 (ptr b) x else Some h1) = Some h2"
    "tree_at h2 x b" "\<And>p. p \<notin> set (addrs b) \<Longrightarrow> h2 p = h1 p"
    using reparent_tree d(4) by blast
  have h2xy: "h2 x = h1 x" "h2 y = h y" using h2(3) d by (simp_all add: h1_def)
  define h3 where "h3 = h2(y \<mapsto> \<lparr>rb_left = ptr c, rb_right = ptr b, rb_parent = top k, rb_color = cy\<rparr>)"
  have off: "h3 p = h p" if "p \<in> set (addrs a) \<union> set (addrs c) \<union> ?K" for p
  proof -
    from that sep d have "p \<noteq> x" "p \<noteq> y" by blast+
    with sepb [OF that] show ?thesis by (simp add: h3_def h2(3) h1_def)
  qed
  have "ctx_at h3 x k = ctx_at h x k" by (rule ctx_at_cong) (rule off, blast)
  with k obtain h4 where h4: "rbt_replace_child h3 (top k) x y = Some h4" "ctx_at h4 y k"
    "\<And>p. p \<notin> ?K \<Longrightarrow> h4 p = h3 p"
    using replace_child_ctx [of h3 x k y] d(7,8) nz(1) by auto
  define h5 where "h5 = h4(y \<mapsto> \<lparr>rb_left = ptr c, rb_right = x, rb_parent = top k, rb_color = cy\<rparr>)"
  define h6 where "h6 = h5(x \<mapsto> \<lparr>rb_left = ptr b, rb_right = ptr a, rb_parent = y, rb_color = cx\<rparr>)"
  have e: "left_of h x = Some y" "right_of h y = Some (ptr b)" "set_left h x (ptr b) = Some h1"
    "right_of h1 y = Some (ptr b)" "parent_of h2 x = Some (top k)" "set_parent h2 y (top k) = Some h3"
    using hx hy nz d(1) h2xy by (simp_all add: field_defs h1_def h3_def)
  have "h4 y = h3 y" "h4 x = h3 x" using h4(3) d by simp_all
  then have f: "set_right h4 y x = Some h5" "set_parent h5 x y = Some h6"
    using nz d(1) h2xy by (simp_all add: field_defs h6_def h5_def h3_def h1_def)
  have "rbt_right_rotate h x = Some h6"
    using nz e f h2(1) h4(1) by (cases "ptr b = NULL") (simp_all add: rbt_right_rotate_def cong: bind_weak_cong)
  moreover have "dom h6 = dom h"
    using e(3,6) f h4(1) h2(1) by (auto dest!: setters_dom replace_child_dom split: if_splits del: equalityI)
  moreover have "zip_at h6 (Nd c y cy (Nd b x cx a)) k"
  proof (rule zip_focusI [OF _ _ z])
    have "ctx_at h6 y k = ctx_at h4 y k" by (rule ctx_at_cong) (use d in \<open>auto simp: h6_def h5_def\<close>)
    with h4(2) show "ctx_at h6 (ptr (Nd c y cy (Nd b x cx a))) k" by simp
    have off6: "h6 p = h3 p" if "p \<in> set (addrs a) \<union> set (addrs b) \<union> set (addrs c)" for p
      using sep [OF that] h4(3) by (simp add: h6_def h5_def)
    have "tree_at h6 x a = tree_at h x a" "tree_at h6 y c = tree_at h y c"
      by (rule tree_at_cong, simp add: off off6)+
    moreover have "h3 p = h2 p" if "p \<in> set (addrs b)" for p
      using sep that by (simp add: h3_def)
    then have "tree_at h6 x b = tree_at h2 x b" by (intro tree_at_cong) (simp add: off6)
    ultimately show "tree_at h6 (top k) (Nd c y cy (Nd b x cx a))"
      using t h2(2) nz d(1) by (simp add: h6_def h5_def)
  qed simp
  ultimately show ?thesis by blast
qed

end
