(* ===== verification/RbtreeInsert.thy ===== *)
theory RbtreeInsert
  imports RbtreeShape
begin

text \<open>
  The red-black invariants of an address tree, the invariants of a context around a hole, and the
  total correctness of \<^verbatim>\<open>_rbt_insert_node_fixup\<close>.
\<close>

section \<open>Colour and height invariants\<close>

fun bh :: "atree \<Rightarrow> nat" where
  "bh Lf = 0"
| "bh (Nd l a c r) = bh l + (if c = RBT_BLK then 1 else 0)"

fun invc :: "atree \<Rightarrow> bool" where
  "invc Lf = True"
| "invc (Nd l a c r) = ((c = RBT_RED \<longrightarrow> col l = RBT_BLK \<and> col r = RBT_BLK) \<and> invc l \<and> invc r)"

fun invh :: "atree \<Rightarrow> bool" where
  "invh Lf = True"
| "invh (Nd l a c r) = (bh l = bh r \<and> invh l \<and> invh r)"

definition rb :: "atree \<Rightarrow> bool" where
  "rb t = (invc t \<and> invh t \<and> col t = RBT_BLK)"

text \<open>\<open>kinv n c k\<close>: filling the hole of \<open>k\<close> with a good tree of black height \<open>n\<close> and root colour \<open>c\<close> gives a good tree.\<close>

fun kinv :: "nat \<Rightarrow> rbcolor \<Rightarrow> frame list \<Rightarrow> bool" where
  "kinv n c [] = True"
| "kinv n c (FL a d r # k) = (invc r \<and> invh r \<and> bh r = n \<and> (d = RBT_RED \<longrightarrow> c = RBT_BLK \<and> col r = RBT_BLK) \<and>
     kinv (if d = RBT_BLK then Suc n else n) d k)"
| "kinv n c (FR l a d # k) = (invc l \<and> invh l \<and> bh l = n \<and> (d = RBT_RED \<longrightarrow> c = RBT_BLK \<and> col l = RBT_BLK) \<and>
     kinv (if d = RBT_BLK then Suc n else n) d k)"

fun kcol :: "rbcolor \<Rightarrow> frame list \<Rightarrow> rbcolor" where
  "kcol c [] = c"
| "kcol c (FL a d r # k) = kcol d k"
| "kcol c (FR l a d # k) = kcol d k"

lemma plug_inv: "invc (plug t k) \<and> invh (plug t k) \<longleftrightarrow> invc t \<and> invh t \<and> kinv (bh t) (col t) k"
  by (induction t k rule: plug.induct) auto

lemma col_plug [simp]: "col (plug t k) = kcol (col t) k"
  by (induction t k rule: plug.induct) auto

lemma kcol_nonempty: "k \<noteq> [] \<Longrightarrow> kcol c k = kcol d k"
  by (cases k rule: top.cases) auto

lemma kinv_blk: "kinv n c k \<Longrightarrow> kinv n RBT_BLK k"
  by (cases k rule: top.cases) auto

lemma not_blk [simp]: "c \<noteq> RBT_BLK \<longleftrightarrow> c = RBT_RED" "c \<noteq> RBT_RED \<longleftrightarrow> c = RBT_BLK"
  by (cases c; simp)+

lemma col_red_Nd: "col t = RBT_RED \<longleftrightarrow> (\<exists>l a r. t = Nd l a RBT_RED r)"
  by (cases t) auto

section \<open>One round of the insertion fixup\<close>

lemma zip_downL: "zip_at h (Nd l a c r) k \<Longrightarrow> zip_at h l (FL a c r # k)"
  and zip_downR: "zip_at h (Nd l a c r) k \<Longrightarrow> zip_at h r (FR l a c # k)"
  by (simp_all add: zip_up)

lemma zip_two:
  assumes "zip_at h (Nd l a c r) k"
  shows "ptr l = NULL \<longleftrightarrow> l = Lf" "ptr r = NULL \<longleftrightarrow> r = Lf" "ptr l = ptr r \<longleftrightarrow> l = Lf \<and> r = Lf"
  using zip_nz [OF assms] zip_children(5) [OF assms] by (cases l; cases r; auto)+

lemma insert_red_uncle_L:
  assumes z: "zip_at h (Nd (Nd x p cp y) g cg (Nd ul u cu ur)) k" and cu: "cu = RBT_RED"
    and n: "parent_of h n = Some p"
  shows "\<exists>h'. rbt_insert_fixup_step (h, n) = Some (h', g) \<and> dom h' = dom h \<and>
    zip_at h' (Nd (Nd x p RBT_BLK y) g RBT_RED (Nd ul u RBT_BLK ur)) k"
proof -
  obtain h1 where h1: "rbt_setclr h p RBT_BLK = Some h1"
    "zip_at h1 (Nd x p RBT_BLK y) (FL g cg (Nd ul u cu ur) # k)" "dom h1 = dom h"
    using setclr_zip [OF zip_downL [OF z]] by blast
  obtain h2 where h2: "rbt_setclr h1 u RBT_BLK = Some h2"
    "zip_at h2 (Nd ul u RBT_BLK ur) (FR (Nd x p RBT_BLK y) g cg # k)" "dom h2 = dom h"
    using setclr_zip [OF zip_downR [OF h1(2) [unfolded zip_up]]] h1(3) by metis
  obtain h3 where h3: "rbt_setclr h2 g RBT_RED = Some h3"
    "zip_at h3 (Nd (Nd x p RBT_BLK y) g RBT_RED (Nd ul u RBT_BLK ur)) k" "dom h3 = dom h"
    using setclr_zip [OF h2(2) [unfolded zip_up]] h2(3) by metis
  have "rbt_insert_fixup_step (h, n) = Some (h3, g)"
    using zip_reads [OF z] zip_reads [OF zip_downL [OF z]] zip_reads [OF zip_downR [OF z]]
    by (simp add: rbt_insert_fixup_step_def n h1(1) h2(1) h3(1) cu cong: bind_weak_cong)
  with h3 show ?thesis by simp
qed

lemma insert_outer_L:
  assumes z: "zip_at h (Nd (Nd x p cp y) g cg u) k" and u: "col u = RBT_BLK" and x: "x \<noteq> Lf"
  shows "\<exists>h'. rbt_insert_fixup_step (h, ptr x) = Some (h', ptr x) \<and> dom h' = dom h \<and>
    zip_at h' (Nd x p RBT_BLK (Nd y g RBT_RED u)) k"
proof -
  obtain h1 where h1: "rbt_setclr h p RBT_BLK = Some h1"
    "zip_at h1 (Nd x p RBT_BLK y) (FL g cg u # k)" "dom h1 = dom h"
    using setclr_zip [OF zip_downL [OF z]] by blast
  obtain h2 where h2: "rbt_setclr h1 g RBT_RED = Some h2"
    "zip_at h2 (Nd (Nd x p RBT_BLK y) g RBT_RED u) k" "dom h2 = dom h"
    using setclr_zip [OF h1(2) [unfolded zip_up]] h1(3) by metis
  obtain h3 where h3: "rbt_right_rotate h2 g = Some h3"
    "zip_at h3 (Nd x p RBT_BLK (Nd y g RBT_RED u)) k" "dom h3 = dom h"
    using right_rotate_zip [OF h2(2)] h2(3) by metis
  obtain xl xa xc xr where xx: "x = Nd xl xa xc xr" using x by (cases x) auto
  have "parent_of h xa = Some p"
    using zip_reads(3) [OF zip_downL [OF zip_downL [OF z], unfolded xx]] by simp
  then have "rbt_insert_fixup_step (h, ptr x) = Some (h3, ptr x)"
    using zip_reads [OF z] zip_reads [OF zip_downL [OF z]] zip_children [OF z] u
      zip_two(3) [OF zip_downL [OF z]] xx
    by (simp add: rbt_insert_fixup_step_def h1(1) h2(1) h3(1) cong: bind_weak_cong)
  with h3 show ?thesis by simp
qed

lemma insert_inner_L:
  assumes z: "zip_at h (Nd (Nd x p cp (Nd y1 n cn y2)) g cg u) k" and u: "col u = RBT_BLK"
  shows "\<exists>h'. rbt_insert_fixup_step (h, n) = Some (h', p) \<and> dom h' = dom h \<and>
    zip_at h' (Nd (Nd x p cp y1) n RBT_BLK (Nd y2 g RBT_RED u)) k"
proof -
  obtain h0 where h0: "rbt_left_rotate h p = Some h0"
    "zip_at h0 (Nd (Nd x p cp y1) n cn y2) (FL g cg u # k)" "dom h0 = dom h"
    using left_rotate_zip [OF zip_downL [OF z]] by blast
  have np: "parent_of h0 p = Some n"
    using zip_reads(3) [OF zip_downL [OF h0(2)]] by simp
  obtain h1 where h1: "rbt_setclr h0 n RBT_BLK = Some h1"
    "zip_at h1 (Nd (Nd x p cp y1) n RBT_BLK y2) (FL g cg u # k)" "dom h1 = dom h"
    using setclr_zip [OF h0(2)] h0(3) by metis
  obtain h2 where h2: "rbt_setclr h1 g RBT_RED = Some h2"
    "zip_at h2 (Nd (Nd (Nd x p cp y1) n RBT_BLK y2) g RBT_RED u) k" "dom h2 = dom h"
    using setclr_zip [OF h1(2) [unfolded zip_up]] h1(3) by metis
  obtain h3 where h3: "rbt_right_rotate h2 g = Some h3"
    "zip_at h3 (Nd (Nd x p cp y1) n RBT_BLK (Nd y2 g RBT_RED u)) k" "dom h3 = dom h"
    using right_rotate_zip [OF h2(2)] h2(3) by metis
  have "rbt_insert_fixup_step (h, n) = Some (h3, p)"
    using zip_reads [OF z] zip_reads [OF zip_downL [OF z]] zip_children [OF z] u
      zip_reads [OF zip_downR [OF zip_downL [OF z]]]
    by (simp add: rbt_insert_fixup_step_def h0(1) np h1(1) h2(1) h3(1) cong: bind_weak_cong)
  with h3 show ?thesis by simp
qed

lemma insert_red_uncle_R:
  assumes z: "zip_at h (Nd (Nd ur u cu ul) g cg (Nd y p cp x)) k" and cu: "cu = RBT_RED"
    and n: "parent_of h n = Some p"
  shows "\<exists>h'. rbt_insert_fixup_step (h, n) = Some (h', g) \<and> dom h' = dom h \<and>
    zip_at h' (Nd (Nd ur u RBT_BLK ul) g RBT_RED (Nd y p RBT_BLK x)) k"
proof -
  obtain h1 where h1: "rbt_setclr h p RBT_BLK = Some h1"
    "zip_at h1 (Nd y p RBT_BLK x) (FR (Nd ur u cu ul) g cg # k)" "dom h1 = dom h"
    using setclr_zip [OF zip_downR [OF z]] by blast
  obtain h2 where h2: "rbt_setclr h1 u RBT_BLK = Some h2"
    "zip_at h2 (Nd ur u RBT_BLK ul) (FL g cg (Nd y p RBT_BLK x) # k)" "dom h2 = dom h"
    using setclr_zip [OF zip_downL [OF h1(2) [unfolded zip_up]]] h1(3) by metis
  obtain h3 where h3: "rbt_setclr h2 g RBT_RED = Some h3"
    "zip_at h3 (Nd (Nd ur u RBT_BLK ul) g RBT_RED (Nd y p RBT_BLK x)) k" "dom h3 = dom h"
    using setclr_zip [OF h2(2) [unfolded zip_up]] h2(3) by metis
  have "rbt_insert_fixup_step (h, n) = Some (h3, g)"
    using zip_two(3) [OF z] zip_reads [OF z] zip_reads [OF zip_downR [OF z]] zip_reads [OF zip_downL [OF z]]
    by (simp add: rbt_insert_fixup_step_def n h1(1) h2(1) h3(1) cu cong: bind_weak_cong)
  with h3 show ?thesis by simp
qed

lemma insert_outer_R:
  assumes z: "zip_at h (Nd u g cg (Nd y p cp x)) k" and u: "col u = RBT_BLK" and x: "x \<noteq> Lf"
  shows "\<exists>h'. rbt_insert_fixup_step (h, ptr x) = Some (h', ptr x) \<and> dom h' = dom h \<and>
    zip_at h' (Nd (Nd u g RBT_RED y) p RBT_BLK x) k"
proof -
  obtain h1 where h1: "rbt_setclr h p RBT_BLK = Some h1"
    "zip_at h1 (Nd y p RBT_BLK x) (FR u g cg # k)" "dom h1 = dom h"
    using setclr_zip [OF zip_downR [OF z]] by blast
  obtain h2 where h2: "rbt_setclr h1 g RBT_RED = Some h2"
    "zip_at h2 (Nd u g RBT_RED (Nd y p RBT_BLK x)) k" "dom h2 = dom h"
    using setclr_zip [OF h1(2) [unfolded zip_up]] h1(3) by metis
  obtain h3 where h3: "rbt_left_rotate h2 g = Some h3"
    "zip_at h3 (Nd (Nd u g RBT_RED y) p RBT_BLK x) k" "dom h3 = dom h"
    using left_rotate_zip [OF h2(2)] h2(3) by metis
  obtain xl xa xc xr where xx: "x = Nd xr xa xc xl" using x by (cases x) auto
  have "parent_of h xa = Some p"
    using zip_reads(3) [OF zip_downR [OF zip_downR [OF z], unfolded xx]] by simp
  then have "rbt_insert_fixup_step (h, ptr x) = Some (h3, ptr x)"
    using zip_two(3) [OF z] zip_reads [OF z] zip_reads [OF zip_downR [OF z]] zip_children [OF z] u
      zip_two(3) [OF zip_downR [OF z]] xx
    by (simp add: rbt_insert_fixup_step_def h1(1) h2(1) h3(1) cong: bind_weak_cong)
  with h3 show ?thesis by simp
qed

lemma insert_inner_R:
  assumes z: "zip_at h (Nd u g cg (Nd (Nd y2 n cn y1) p cp x)) k" and u: "col u = RBT_BLK"
  shows "\<exists>h'. rbt_insert_fixup_step (h, n) = Some (h', p) \<and> dom h' = dom h \<and>
    zip_at h' (Nd (Nd u g RBT_RED y2) n RBT_BLK (Nd y1 p cp x)) k"
proof -
  obtain h0 where h0: "rbt_right_rotate h p = Some h0"
    "zip_at h0 (Nd y2 n cn (Nd y1 p cp x)) (FR u g cg # k)" "dom h0 = dom h"
    using right_rotate_zip [OF zip_downR [OF z]] by blast
  have np: "parent_of h0 p = Some n"
    using zip_reads(3) [OF zip_downR [OF h0(2)]] by simp
  obtain h1 where h1: "rbt_setclr h0 n RBT_BLK = Some h1"
    "zip_at h1 (Nd y2 n RBT_BLK (Nd y1 p cp x)) (FR u g cg # k)" "dom h1 = dom h"
    using setclr_zip [OF h0(2)] h0(3) by metis
  obtain h2 where h2: "rbt_setclr h1 g RBT_RED = Some h2"
    "zip_at h2 (Nd u g RBT_RED (Nd y2 n RBT_BLK (Nd y1 p cp x))) k" "dom h2 = dom h"
    using setclr_zip [OF h1(2) [unfolded zip_up]] h1(3) by metis
  obtain h3 where h3: "rbt_left_rotate h2 g = Some h3"
    "zip_at h3 (Nd (Nd u g RBT_RED y2) n RBT_BLK (Nd y1 p cp x)) k" "dom h3 = dom h"
    using left_rotate_zip [OF h2(2)] h2(3) by metis
  have "rbt_insert_fixup_step (h, n) = Some (h3, p)"
    using zip_two(3) [OF z] zip_reads [OF z] zip_reads [OF zip_downR [OF z]] zip_children [OF z] u
      zip_reads [OF zip_downL [OF zip_downR [OF z]]]
    by (simp add: rbt_insert_fixup_step_def h0(1) np h1(1) h2(1) h3(1) cong: bind_weak_cong)
  with h3 show ?thesis by simp
qed

section \<open>The insertion fixup terminates and restores the invariants\<close>

definition ins_inv :: "addr list \<Rightarrow> addr set \<Rightarrow> nat \<Rightarrow> rbheap \<times> addr \<Rightarrow> bool" where
  "ins_inv X D n s \<longleftrightarrow> (\<exists>t k. zip_at (fst s) t k \<and> snd s = ptr t \<and> col t = RBT_RED \<and> invc t \<and> invh t \<and>
     kinv (bh t) RBT_BLK k \<and> kcol RBT_BLK k = RBT_BLK \<and> addrs (plug t k) = X \<and> dom (fst s) = D \<and>
     n = length k)"

definition ins_done :: "addr list \<Rightarrow> addr set \<Rightarrow> rbheap \<times> addr \<Rightarrow> bool" where
  "ins_done X D s \<longleftrightarrow> (\<exists>l a c r. zip_at (fst s) (Nd l a c r) [] \<and> invc l \<and> invc r \<and>
     invh (Nd l a c r) \<and> addrs (Nd l a c r) = X \<and> dom (fst s) = D)"

lemma ins_invI:
  assumes "zip_at h t k" "col t = RBT_RED" "invc t" "invh t" "kinv (bh t) RBT_BLK k"
    "kcol RBT_BLK k = RBT_BLK" "addrs (plug t k) = X" "dom h = D"
  shows "ins_inv X D (length k) (h, ptr t)"
  using assms by (auto simp: ins_inv_def)

lemma ins_cond:
  assumes "zip_at h t k" "t \<noteq> Lf"
  shows "rbt_insert_fixup_cond (h, ptr t) = Some (kcol RBT_BLK (take 1 k) = RBT_RED)"
proof -
  obtain l a c r where t: "t = Nd l a c r" using assms(2) by (cases t) auto
  show ?thesis
  proof (cases k rule: top.cases)
    case 1
    with zip_reads(3) assms t show ?thesis
      by (simp add: rbt_insert_fixup_cond_def rbt_isred_def rbt_isblk_def)
  next
    case (2 b d s k')
    then show ?thesis using zip_reads(3) [OF assms(1) [unfolded t]] zip_reads(6) [OF assms(1) [unfolded 2 zip_up]] t
      by (simp add: rbt_insert_fixup_cond_def)
  next
    case (3 s b d k')
    then show ?thesis using zip_reads(3) [OF assms(1) [unfolded t]] zip_reads(6) [OF assms(1) [unfolded 3 zip_up]] t
      by (simp add: rbt_insert_fixup_cond_def)
  qed
qed

lemma ins_stop:
  assumes z: "zip_at h t k" and "col t = RBT_RED" "invc t" "invh t" "kinv (bh t) RBT_BLK k"
    "kcol RBT_BLK (take 1 k) = RBT_BLK" "addrs (plug t k) = X" "dom h = D"
  shows "ins_done X D (h, n)"
proof (cases "k = []")
  case True
  with assms show ?thesis by (cases t) (auto simp: ins_done_def)
next
  case False
  with assms(5,6) have "kinv (bh t) RBT_RED k" by (cases k rule: top.cases) auto
  with assms have "invc (plug t k) \<and> invh (plug t k)" by (simp add: plug_inv)
  moreover have "plug t k \<noteq> Lf" using False by (metis addrs.simps(1) ptr_plug addrs_plug Un_iff append_is_Nil_conv empty_iff list.set(1))
  moreover have "zip_at h (plug t k) []" using z zip_plug by blast
  ultimately show ?thesis
    using assms(7,8) unfolding ins_done_def by (cases "plug t k") (auto simp flip: addrs_plug)
qed

text \<open>A round moves the focus up by two frames (red uncle) or stops one frame higher (rotations).\<close>

lemma ins_round_L:
  assumes z: "zip_at h (Nd (Nd x p RBT_RED y) g RBT_BLK u) k"
    and good: "invc x" "invc y" "invh x" "invh y" "invc u" "invh u" "bh x = bh y" "bh u = bh x"
      "kinv (Suc (bh x)) RBT_BLK k" "kcol RBT_BLK k = RBT_BLK"
    and t: "(t = x \<and> col y = RBT_BLK) \<or> (t = y \<and> col x = RBT_BLK)" "col t = RBT_RED"
    and X: "addrs (plug (Nd (Nd x p RBT_RED y) g RBT_BLK u) k) = X" "dom h = D"
  shows "\<exists>s' m. rbt_insert_fixup_step (h, ptr t) = Some s' \<and> m < length k + 2 \<and> ins_inv X D m s'"
proof (cases "col u")
  case RBT_RED
  then obtain ul ua ur where u: "u = Nd ul ua RBT_RED ur" by (auto simp: col_red_Nd)
  obtain tl ta tr where tt: "t = Nd tl ta RBT_RED tr" using t(2) by (auto simp: col_red_Nd)
  have "zip_at h t (FL p RBT_RED y # FL g RBT_BLK u # k) \<or> zip_at h t (FR x p RBT_RED # FL g RBT_BLK u # k)"
    using z t(1) by (auto simp: zip_up)
  then have "parent_of h (ptr t) = Some p" by (auto simp: tt dest: zip_reads(3))
  with insert_red_uncle_L [OF z [unfolded u] refl]
  obtain h' where "rbt_insert_fixup_step (h, ptr t) = Some (h', g)" "dom h' = dom h"
    "zip_at h' (Nd (Nd x p RBT_BLK y) g RBT_RED (Nd ul ua RBT_BLK ur)) k" by blast
  moreover from this have "ins_inv X D (length k) (h', ptr (Nd (Nd x p RBT_BLK y) g RBT_RED (Nd ul ua RBT_BLK ur)))"
    using good X by (intro ins_invI) (auto simp: u)
  ultimately show ?thesis by (intro exI [of _ "(h', g)"] exI [of _ "length k"]) simp
next
  case RBT_BLK
  show ?thesis
  proof (cases "t = x \<and> col y = RBT_BLK")
    case True
    moreover have "x \<noteq> Lf" using t(2) True by auto
    ultimately obtain h' where h': "rbt_insert_fixup_step (h, ptr t) = Some (h', ptr t)" "dom h' = dom h"
      "zip_at h' (Nd x p RBT_BLK (Nd y g RBT_RED u)) k" using insert_outer_L [OF z RBT_BLK] by auto
    from h' good X True t(2) RBT_BLK have "ins_inv X D (length (FL p RBT_BLK (Nd y g RBT_RED u) # k)) (h', ptr t)"
      by (intro ins_invI) (auto simp: zip_up kinv_blk)
    with h' show ?thesis by fastforce
  next
    case False
    with t obtain y1 n y2 where y: "y = Nd y1 n RBT_RED y2" and x: "col x = RBT_BLK" and ty: "t = y" by (auto simp: col_red_Nd)
    from insert_inner_L [OF z [unfolded y] RBT_BLK] obtain h' where h': "rbt_insert_fixup_step (h, n) = Some (h', p)"
      "dom h' = dom h" "zip_at h' (Nd (Nd x p RBT_RED y1) n RBT_BLK (Nd y2 g RBT_RED u)) k" by blast
    from h' good X RBT_BLK x have "ins_inv X D (length (FL n RBT_BLK (Nd y2 g RBT_RED u) # k)) (h', ptr (Nd x p RBT_RED y1))"
      by (intro ins_invI) (auto simp: zip_up y kinv_blk)
    with h' ty y show ?thesis by fastforce
  qed
qed

lemma ins_round_R:
  assumes z: "zip_at h (Nd u g RBT_BLK (Nd y p RBT_RED x)) k"
    and good: "invc x" "invc y" "invh x" "invh y" "invc u" "invh u" "bh x = bh y" "bh u = bh x"
      "kinv (Suc (bh x)) RBT_BLK k" "kcol RBT_BLK k = RBT_BLK"
    and t: "(t = x \<and> col y = RBT_BLK) \<or> (t = y \<and> col x = RBT_BLK)" "col t = RBT_RED"
    and X: "addrs (plug (Nd u g RBT_BLK (Nd y p RBT_RED x)) k) = X" "dom h = D"
  shows "\<exists>s' m. rbt_insert_fixup_step (h, ptr t) = Some s' \<and> m < length k + 2 \<and> ins_inv X D m s'"
proof (cases "col u")
  case RBT_RED
  then obtain ul ua ur where u: "u = Nd ur ua RBT_RED ul" by (auto simp: col_red_Nd)
  obtain tl ta tr where tt: "t = Nd tr ta RBT_RED tl" using t(2) by (auto simp: col_red_Nd)
  have "zip_at h t (FR y p RBT_RED # FR u g RBT_BLK # k) \<or> zip_at h t (FL p RBT_RED x # FR u g RBT_BLK # k)"
    using z t(1) by (auto simp: zip_up)
  then have "parent_of h (ptr t) = Some p" by (auto simp: tt dest: zip_reads(3))
  with insert_red_uncle_R [OF z [unfolded u] refl]
  obtain h' where "rbt_insert_fixup_step (h, ptr t) = Some (h', g)" "dom h' = dom h"
    "zip_at h' (Nd (Nd ur ua RBT_BLK ul) g RBT_RED (Nd y p RBT_BLK x)) k" by blast
  moreover from this have "ins_inv X D (length k) (h', ptr (Nd (Nd ur ua RBT_BLK ul) g RBT_RED (Nd y p RBT_BLK x)))"
    using good X by (intro ins_invI) (auto simp: u)
  ultimately show ?thesis by (intro exI [of _ "(h', g)"] exI [of _ "length k"]) simp
next
  case RBT_BLK
  show ?thesis
  proof (cases "t = x \<and> col y = RBT_BLK")
    case True
    moreover have "x \<noteq> Lf" using t(2) True by auto
    ultimately obtain h' where h': "rbt_insert_fixup_step (h, ptr t) = Some (h', ptr t)" "dom h' = dom h"
      "zip_at h' (Nd (Nd u g RBT_RED y) p RBT_BLK x) k" using insert_outer_R [OF z RBT_BLK] by auto
    from h' good X True t(2) RBT_BLK have "ins_inv X D (length (FR (Nd u g RBT_RED y) p RBT_BLK # k)) (h', ptr t)"
      by (intro ins_invI) (auto simp: zip_up kinv_blk)
    with h' show ?thesis by fastforce
  next
    case False
    with t obtain y1 n y2 where y: "y = Nd y2 n RBT_RED y1" and x: "col x = RBT_BLK" and ty: "t = y" by (auto simp: col_red_Nd)
    from insert_inner_R [OF z [unfolded y] RBT_BLK] obtain h' where h': "rbt_insert_fixup_step (h, n) = Some (h', p)"
      "dom h' = dom h" "zip_at h' (Nd (Nd u g RBT_RED y2) n RBT_BLK (Nd y1 p RBT_RED x)) k" by blast
    from h' good X RBT_BLK x have "ins_inv X D (length (FR (Nd u g RBT_RED y2) n RBT_BLK # k)) (h', ptr (Nd y1 p RBT_RED x))"
      by (intro ins_invI) (auto simp: zip_up y kinv_blk)
    with h' ty y show ?thesis by fastforce
  qed
qed


lemma ins_step:
  assumes "ins_inv X D n s"
  shows "(rbt_insert_fixup_cond s = Some False \<and> ins_done X D s) \<or>
    (rbt_insert_fixup_cond s = Some True \<and>
      (\<exists>s' m. rbt_insert_fixup_step s = Some s' \<and> m < n \<and> ins_inv X D m s'))"
proof -
  from assms obtain h t k where s: "s = (h, ptr t)" and z: "zip_at h t k" and
    t: "col t = RBT_RED" "invc t" "invh t" "kinv (bh t) RBT_BLK k" "kcol RBT_BLK k = RBT_BLK" and
    X: "addrs (plug t k) = X" "dom h = D" and n: "n = length k"
    unfolding ins_inv_def by (metis prod.collapse)
  have "t \<noteq> Lf" using t(1) by auto
  note cond = ins_cond [OF z this]
  show ?thesis
  proof (cases "kcol RBT_BLK (take 1 k)")
    case RBT_BLK
    then show ?thesis using cond ins_stop [OF z t(1-4) RBT_BLK X] s by simp
  next
    case RBT_RED
    have "\<exists>s' m. rbt_insert_fixup_step (h, ptr t) = Some s' \<and> m < n \<and> ins_inv X D m s'"
    proof (cases k rule: top.cases)
      case (2 p c y k1)
      with RBT_RED t(5) show ?thesis
      proof (cases k1 rule: top.cases)
        case (2 g d u k2)
        then show ?thesis using z t X RBT_RED \<open>k = _\<close> n ins_round_L [of h t p y g u k2 t X D]
          by (cases d) (auto simp: zip_up)
      next
        case (3 u g d k2)
        then show ?thesis using z t X RBT_RED \<open>k = _\<close> n ins_round_R [of h u g t p y k2 t X D]
          by (cases d) (auto simp: zip_up)
      qed simp
    next
      case (3 y p c k1)
      with RBT_RED t(5) show ?thesis
      proof (cases k1 rule: top.cases)
        case (2 g d u k2)
        then show ?thesis using z t X RBT_RED \<open>k = _\<close> n ins_round_L [of h y p t g u k2 t X D]
          by (cases d) (auto simp: zip_up)
      next
        case (3 u g d k2)
        then show ?thesis using z t X RBT_RED \<open>k = _\<close> n ins_round_R [of h u g y p t k2 t X D]
          by (cases d) (auto simp: zip_up)
      qed simp
    qed (use RBT_RED in simp)
    with cond s RBT_RED show ?thesis by simp
  qed
qed

lemma insert_fixup_ok:
  assumes z: "zip_at h t k" and t: "col t = RBT_RED" "invc t" "invh t" "kinv (bh t) RBT_BLK k" "kcol RBT_BLK k = RBT_BLK"
  shows "\<exists>h' T. rbt_insert_node_fixup h (ptr t) = Some h' \<and> zip_at h' T [] \<and> rb T \<and>
    addrs T = addrs (plug t k) \<and> dom h' = dom h"
proof -
  from while_c_total [of "ins_inv (addrs (plug t k)) (dom h)", OF ins_invI [OF z t refl refl] ins_step]
  obtain h1 n where w: "while_c rbt_insert_fixup_cond rbt_insert_fixup_step (h, ptr t) = Some (h1, n)"
    and d: "ins_done (addrs (plug t k)) (dom h) (h1, n)" by fastforce
  from d obtain l a c r where T: "zip_at h1 (Nd l a c r) []" "invc l" "invc r" "invh (Nd l a c r)"
    "addrs (Nd l a c r) = addrs (plug t k)" "dom h1 = dom h" by (auto simp: ins_done_def)
  from setclr_zip [OF T(1)] obtain h' where
    h': "rbt_setclr h1 a RBT_BLK = Some h'" "zip_at h' (Nd l a RBT_BLK r) []" "dom h' = dom h1" by blast
  have "rbt_insert_node_fixup h (ptr t) = Some h'"
    using w zip_root [OF T(1)] h'(1) by (simp add: rbt_insert_node_fixup_def)
  moreover have "rb (Nd l a RBT_BLK r)" using T by (simp add: rb_def)
  ultimately show ?thesis using h' T by fastforce
qed

end
