(* ===== verification/RbtreeSearch.thy ===== *)
theory RbtreeSearch
  imports RbtreeInsert
begin

text \<open>
  What a well-formed tree represents, the self-check \<^verbatim>\<open>_rbt_is_vaild\<close>, the search loop of
  \<^verbatim>\<open>_rbt_find_val\<close> and insertion \<^verbatim>\<open>_rbt_insert_val\<close>.
\<close>

section \<open>Representation\<close>

definition elems :: "(addr \<rightharpoonup> 'a) \<Rightarrow> addr list \<Rightarrow> 'a list" where
  "elems d xs = map (\<lambda>a. the (d a)) xs"

lemma elems_simps [simp]:
  "elems d [] = []" "elems d (a # xs) = the (d a) # elems d xs" "elems d (xs @ ys) = elems d xs @ elems d ys"
  by (simp_all add: elems_def)

definition rbt_rep :: "'a rbtree \<Rightarrow> atree \<Rightarrow> bool" where
  "rbt_rep r t \<longleftrightarrow> zip_at (rbt_nodes r) t [] \<and> dom (rbt_nodes r) = insert GUARD (set (addrs t)) \<and>
     dom (rbt_data r) = set (addrs t) \<and> rbt_size r = length (addrs t) \<and> rb t"

definition rbt_abs :: "'a rbtree \<Rightarrow> 'a list \<Rightarrow> bool" where
  "rbt_abs r xs \<longleftrightarrow> (\<exists>t. rbt_rep r t \<and> elems (rbt_data r) (addrs t) = xs \<and> sorted_wrt (rbt_less r) xs)"

section \<open>The self-check\<close>

fun local_order :: "('a \<Rightarrow> 'a \<Rightarrow> bool) \<Rightarrow> (addr \<rightharpoonup> 'a) \<Rightarrow> atree \<Rightarrow> bool" where
  "local_order lt d Lf = True"
| "local_order lt d (Nd l a c r) =
     ((l \<noteq> Lf \<longrightarrow> lt (the (d (ptr l))) (the (d a))) \<and> (r \<noteq> Lf \<longrightarrow> lt (the (d a)) (the (d (ptr r)))) \<and>
      local_order lt d l \<and> local_order lt d r)"

lemma is_vaild_dfs:
  assumes "tree_at (rbt_nodes r) q t" "set (addrs t) \<subseteq> dom (rbt_data r)"
  shows "\<exists>ok m'. rbt_is_vaild_dfs r (ptr t) b m = Some (ok, m') \<and>
     (ok \<longleftrightarrow> invc t \<and> invh t \<and> local_order (rbt_less r) (rbt_data r) t \<and> (m = 0 \<or> m = b + bh t + 1)) \<and>
     (ok \<longrightarrow> m' = b + bh t + 1)"
  using assms
proof (induction t arbitrary: q b m)
  case Lf
  then show ?case by (subst rbt_is_vaild_dfs.simps) (auto simp: Let_def)
next
  case (Nd l a c rt)
  define b' where "b' = (if c = RBT_BLK then b + 1 else b)"
  from Nd.prems have t: "tree_at (rbt_nodes r) a l" "tree_at (rbt_nodes r) a rt" "a \<noteq> NULL"
    "rbt_nodes r a = Some \<lparr>rb_left = ptr l, rb_right = ptr rt, rb_parent = q, rb_color = c\<rparr>" by auto
  from Nd.IH(1) [OF t(1), of b' m] Nd.prems obtain ok1 m1 where
    1: "rbt_is_vaild_dfs r (ptr l) b' m = Some (ok1, m1)"
     "ok1 \<longleftrightarrow> invc l \<and> invh l \<and> local_order (rbt_less r) (rbt_data r) l \<and> (m = 0 \<or> m = b' + bh l + 1)"
     "ok1 \<longrightarrow> m1 = b' + bh l + 1" by auto
  from Nd.IH(2) [OF t(2), of b' m1] Nd.prems obtain ok2 m2 where
    2: "rbt_is_vaild_dfs r (ptr rt) b' m1 = Some (ok2, m2)"
     "ok2 \<longleftrightarrow> invc rt \<and> invh rt \<and> local_order (rbt_less r) (rbt_data r) rt \<and> (m1 = 0 \<or> m1 = b' + bh rt + 1)"
     "ok2 \<longrightarrow> m2 = b' + bh rt + 1" by auto
  have reads: "left_of (rbt_nodes r) a = Some (ptr l)" "right_of (rbt_nodes r) a = Some (ptr rt)"
    "rbt_isblk (rbt_nodes r) a = Some (c = RBT_BLK)" "rbt_isblk (rbt_nodes r) (ptr l) = Some (col l = RBT_BLK)"
    "rbt_isblk (rbt_nodes r) (ptr rt) = Some (col rt = RBT_BLK)"
    using t isblk_tree by (auto simp: field_defs)
  have pn: "ptr l \<noteq> NULL \<longleftrightarrow> l \<noteq> Lf" "ptr rt \<noteq> NULL \<longleftrightarrow> rt \<noteq> Lf"
    using t by (cases l; cases rt; simp)+
  have sub: "set (addrs l) \<subseteq> dom (rbt_data r)" "set (addrs rt) \<subseteq> dom (rbt_data r)"
    using Nd.prems(2) by auto
  obtain x where x: "rbt_data r a = Some x" using Nd.prems(2) by auto
  define okl where "okl \<longleftrightarrow> (l \<noteq> Lf \<longrightarrow> rbt_less r (the (rbt_data r (ptr l))) x)"
  define okr where "okr \<longleftrightarrow> (rt \<noteq> Lf \<longrightarrow> rbt_less r x (the (rbt_data r (ptr rt))))"
  have "ptr l \<in> dom (rbt_data r)" if "l \<noteq> Lf" using that sub(1) ptr_in_addrs [of l] by blast
  then have l: "(if ptr l \<noteq> NULL then map_option (\<lambda>dl. rbt_less r dl x) (rbt_data r (ptr l)) else Some True) = Some okl"
    unfolding okl_def pn by (cases "l = Lf") auto
  have "ptr rt \<in> dom (rbt_data r)" if "rt \<noteq> Lf" using that sub(2) ptr_in_addrs [of rt] by blast
  then have r: "(if ptr rt \<noteq> NULL then map_option (\<lambda>dr. rbt_less r x dr) (rbt_data r (ptr rt)) else Some True) = Some okr"
    unfolding okr_def pn by (cases "rt = Lf") auto
  define red where "red \<longleftrightarrow> c = RBT_RED \<and> (col l = RBT_RED \<or> col rt = RBT_RED)"
  have eq: "rbt_is_vaild_dfs r a b m =
     (if red \<or> \<not> okl \<or> \<not> okr then Some (False, m) else if \<not> ok1 then Some (False, m1) else Some (ok2, m2))"
    apply (subst rbt_is_vaild_dfs.simps)
    apply (simp only: reads x l r Option.bind.simps Let_def t(3) if_False b'_def [symmetric])
    using 1(1) 2(1) by (cases "col l"; cases "col rt"; simp add: red_def)
  have lo: "local_order (rbt_less r) (rbt_data r) (Nd l a c rt) \<longleftrightarrow> okl \<and> okr \<and>
    local_order (rbt_less r) (rbt_data r) l \<and> local_order (rbt_less r) (rbt_data r) rt"
    and ic: "invc (Nd l a c rt) \<longleftrightarrow> \<not> red \<and> invc l \<and> invc rt"
    and bhb: "b + bh (Nd l a c rt) = b' + bh l"
    by (auto simp: okl_def okr_def x red_def b'_def)
  show ?case unfolding ptr.simps eq lo ic bhb using 1(2,3) 2(2,3) by auto
qed


lemma is_vaild_rep:
  assumes "zip_at (rbt_nodes r) t []" "set (addrs t) \<subseteq> dom (rbt_data r)"
  shows "rbt_is_vaild r = Some (rb t \<and> local_order (rbt_less r) (rbt_data r) t)"
proof -
  note z = zip_root [OF assms(1)] isred_tree [OF zip_at_focus [OF assms(1)]]
  from is_vaild_dfs [OF zip_at_focus [OF assms(1)] assms(2), of 0 0] z show ?thesis
    by (cases "col t") (auto simp: rbt_is_vaild_def rb_def)
qed

lemma sorted_local_order:
  assumes "sorted_wrt lt (elems d (addrs t))"
  shows "local_order lt d t"
  using assms
proof (induction t)
  case (Nd l a c r)
  have "the (d (ptr l)) \<in> set (elems d (addrs l))" if "l \<noteq> Lf"
    using that ptr_in_addrs [of l] by (auto simp: elems_def)
  moreover have "the (d (ptr r)) \<in> set (elems d (addrs r))" if "r \<noteq> Lf"
    using that ptr_in_addrs [of r] by (auto simp: elems_def)
  ultimately show ?case using Nd by (auto simp: sorted_wrt_append)
qed simp

section \<open>Search\<close>

context weak_order
begin

lemma equiv_below: "\<not> less x v \<Longrightarrow> \<not> less v x \<Longrightarrow> less v y \<Longrightarrow> less x y"
  and equiv_above: "\<not> less x v \<Longrightarrow> \<not> less v x \<Longrightarrow> less y v \<Longrightarrow> less y x"
  using negtrans by blast+

definition search_inv :: "'a rbtree \<Rightarrow> 'a \<Rightarrow> atree \<Rightarrow> nat \<Rightarrow> addr \<times> addr \<times> bool \<Rightarrow> bool" where
  "search_inv r v t n s \<longleftrightarrow> (\<exists>u k. plug u k = t \<and> (\<forall>b \<in> set (kleft k). less (the (rbt_data r b)) v) \<and>
     (\<forall>b \<in> set (kright k). less v (the (rbt_data r b))) \<and> fst s = ptr u \<and>
     (if snd (snd s) then n = 0 \<and> u \<noteq> Lf \<and> \<not> less v (the (rbt_data r (ptr u))) \<and> \<not> less (the (rbt_data r (ptr u))) v
      else n = Suc (length (addrs u)) \<and> fst (snd s) = top k))"

lemma search_step:
  assumes r: "rbt_less r = less" "zip_at (rbt_nodes r) t []" "set (addrs t) \<subseteq> dom (rbt_data r)"
      "sorted_wrt less (elems (rbt_data r) (addrs t))"
    and I: "search_inv r v t n s"
  shows "(case s of (node, parent, found) \<Rightarrow> Some (node \<noteq> NULL \<and> \<not> found)) = Some False \<and>
        ((\<exists>m. search_inv r v t m s) \<and> (snd (snd s) \<or> fst s = NULL)) \<or>
      (case s of (node, parent, found) \<Rightarrow> Some (node \<noteq> NULL \<and> \<not> found)) = Some True \<and>
        (\<exists>s' m. rbt_find_step r v s = Some s' \<and> m < n \<and> search_inv r v t m s')"
proof -
  obtain node parent found where s: "s = (node, parent, found)" by (cases s)
  from I [unfolded s search_inv_def] obtain u k where uk: "plug u k = t"
    "\<forall>b \<in> set (kleft k). less (the (rbt_data r b)) v" "\<forall>b \<in> set (kright k). less v (the (rbt_data r b))"
    "node = ptr u" "\<not> found \<Longrightarrow> n = Suc (length (addrs u)) \<and> parent = top k" by (auto split: if_splits)
  have z: "zip_at (rbt_nodes r) u k" using r(2) zip_plug uk(1) by blast
  show ?thesis
  proof (cases "found \<or> u = Lf")
    case True
    then show ?thesis using I s uk by auto
  next
    case False
    then obtain a b c d where u: "u = Nd a b c d" by (cases u) auto
    have n: "n = Suc (length (addrs u))" "parent = top k" "\<not> found" using uk(5) False by auto
    have b: "node = b" "b \<noteq> NULL" "left_of (rbt_nodes r) b = Some (ptr a)" "right_of (rbt_nodes r) b = Some (ptr d)"
      using zip_reads [OF z [unfolded u]] uk(4) u by auto
    obtain x where x: "rbt_data r b = Some x" using r(3) uk(1) [symmetric] u by auto
    have srt: "\<forall>e\<in>set (addrs a). less (the (rbt_data r e)) x" "\<forall>e\<in>set (addrs d). less x (the (rbt_data r e))"
      using r(4) uk(1) [symmetric] u x by (auto simp: sorted_wrt_append elems_def)
    consider (lt) "less v x" | (gt) "\<not> less v x" "less x v" | (eq) "\<not> less v x" "\<not> less x v" by blast
    then have "\<exists>s' m. rbt_find_step r v s = Some s' \<and> m < n \<and> search_inv r v t m s'"
    proof cases
      case lt
      have "search_inv r v t (Suc (length (addrs a))) (ptr a, b, False)"
        unfolding search_inv_def using uk(1-3) u lt x srt trans
        by (intro exI [of _ a] exI [of _ "FL b c d # k"]) auto
      moreover have "rbt_find_step r v s = Some (ptr a, b, False)"
        using lt s b x r(1) by (simp add: rbt_find_step_def)
      ultimately show ?thesis using n u
        by (intro exI [of _ "(ptr a, b, False)"] exI [of _ "Suc (length (addrs a))"] conjI) simp_all
    next
      case gt
      have "search_inv r v t (Suc (length (addrs d))) (ptr d, b, False)"
        unfolding search_inv_def using uk(1-3) u gt x srt trans
        by (intro exI [of _ d] exI [of _ "FR a b c # k"]) auto
      moreover have "rbt_find_step r v s = Some (ptr d, b, False)"
        using gt s b x r(1) by (simp add: rbt_find_step_def)
      ultimately show ?thesis using n u
        by (intro exI [of _ "(ptr d, b, False)"] exI [of _ "Suc (length (addrs d))"] conjI) simp_all
    next
      case eq
      have "search_inv r v t 0 (b, parent, True)"
        unfolding search_inv_def using uk(1-3) u eq x by (intro exI [of _ u] exI [of _ k]) auto
      moreover have "rbt_find_step r v s = Some (b, parent, True)"
        using eq s b x r(1) by (simp add: rbt_find_step_def)
      ultimately show ?thesis using n u
        by (intro exI [of _ "(b, parent, True)"] exI [of _ "0"] conjI) simp_all
    qed
    then show ?thesis using s b n by simp
  qed
qed

text \<open>The search stops at the node of an equivalent element, or at the hole where one would be.\<close>

lemma find_val_zip:
  assumes r: "rbt_less r = less" "zip_at (rbt_nodes r) t []" "set (addrs t) \<subseteq> dom (rbt_data r)"
      "sorted_wrt less (elems (rbt_data r) (addrs t))"
  shows "\<exists>u k q. rbt_find_val r v = Some (ptr u, q) \<and> plug u k = t \<and> (u = Lf \<longrightarrow> q = top k) \<and>
     (\<forall>b \<in> set (kleft k). less (the (rbt_data r b)) v) \<and> (\<forall>b \<in> set (kright k). less v (the (rbt_data r b))) \<and>
     (u \<noteq> Lf \<longrightarrow> \<not> less v (the (rbt_data r (ptr u))) \<and> \<not> less (the (rbt_data r (ptr u))) v)"
proof -
  have "search_inv r v t (Suc (length (addrs t))) (ptr t, NULL, False)"
    unfolding search_inv_def by (intro exI [of _ t] exI [of _ "[]"]) simp
  from while_c_total [of "search_inv r v t", OF this search_step [OF r]]
  obtain node q found m where w: "while_c (\<lambda>(node, parent, found). Some (node \<noteq> NULL \<and> \<not> found))
      (rbt_find_step r v) (ptr t, NULL, False) = Some (node, q, found)"
    "search_inv r v t m (node, q, found)" "found \<or> node = NULL" by fastforce
  have "rbt_find_val r v = Some (node, q)"
    using w(1) zip_root [OF r(2)] by (simp add: rbt_find_val_def)
  moreover obtain u k where u: "plug u k = t" "\<forall>b \<in> set (kleft k). less (the (rbt_data r b)) v"
     "\<forall>b \<in> set (kright k). less v (the (rbt_data r b))" "node = ptr u"
     "if found then u \<noteq> Lf \<and> \<not> less v (the (rbt_data r (ptr u))) \<and> \<not> less (the (rbt_data r (ptr u))) v
      else q = top k"
    using w(2) unfolding search_inv_def by (auto split: if_splits)
  moreover have "u = Lf" if "\<not> found"
  proof -
    have "zip_at (rbt_nodes r) u k" using r(2) u(1) zip_plug by blast
    then show ?thesis using w(3) that u(4) zip_nz by (cases u) fastforce+
  qed
  ultimately show ?thesis by (intro exI [of _ u] exI [of _ k] exI [of _ q]) (auto split: if_splits)
qed

end

section \<open>Insertion\<close>

text \<open>Insertion into a sorted list: an equivalent element is overwritten.\<close>

fun ins_list :: "('a \<Rightarrow> 'a \<Rightarrow> bool) \<Rightarrow> 'a \<Rightarrow> 'a list \<Rightarrow> 'a list" where
  "ins_list lt v [] = [v]"
| "ins_list lt v (x # xs) = (if lt v x then v # x # xs else if lt x v then x # ins_list lt v xs else v # xs)"

lemma elems_upd [simp]: "a \<notin> set ys \<Longrightarrow> elems (d(a \<mapsto> x)) ys = elems d ys"
  by (auto simp: elems_def)

lemma elems_ball: "(\<forall>x \<in> set (elems d ys). P x) \<longleftrightarrow> (\<forall>b \<in> set ys. P (the (d b)))"
  by (auto simp: elems_def)

lemma rb_hole:
  assumes "rb (plug Lf k)"
  shows "kinv 0 RBT_BLK k" "kcol RBT_BLK k = RBT_BLK"
  using assms plug_inv [of Lf k] by (auto simp: rb_def)

text \<open>Hanging a new red leaf into a hole.\<close>

definition new_links :: "addr \<Rightarrow> rblinks" where
  "new_links q = \<lparr>rb_left = NULL, rb_right = NULL, rb_parent = q, rb_color = RBT_RED\<rparr>"

lemma link_leaf:
  assumes z: "zip_at h Lf k" and p: "p \<noteq> NULL" "p \<notin> dom h" and D: "dom h = insert GUARD (set (addrs (plug Lf k)))"
    and side: "k \<noteq> [] \<Longrightarrow> isleft = (\<exists>a c r k'. k = FL a c r # k')"
  shows "\<exists>h1 h2. (if top k = NULL then rbt_set_root (h(p \<mapsto> new_links NULL)) p
         else if isleft then set_left (h(p \<mapsto> new_links NULL)) (top k) p
         else set_right (h(p \<mapsto> new_links NULL)) (top k) p) = Some h1 \<and>
     set_parent h1 p (top k) = Some h2 \<and> zip_at h2 (Nd Lf p RBT_RED Lf) k \<and> dom h2 = insert p (dom h)"
proof -
  have fresh: "p \<noteq> GUARD" "p \<notin> set (kleft k)" "p \<notin> set (kright k)" using p(2) D by auto
  show ?thesis
  proof (cases k rule: top.cases)
    case 1
    with z p fresh D show ?thesis
      by (simp add: zip_at_def field_defs new_links_def guard_node_def insert_commute)
  next
    case (2 a c r k')
    with z p fresh D side show ?thesis
      by (simp add: zip_at_def field_defs new_links_def insert_commute)
  next
    case (3 l a c k')
    with z p fresh D side show ?thesis
      by (simp add: zip_at_def field_defs new_links_def insert_commute)
  qed
qed


lemma rep_update:
  assumes "rbt_rep r t" "a \<in> set (addrs t)"
  shows "rbt_rep (r\<lparr>rbt_data := (rbt_data r)(a \<mapsto> x)\<rparr>) t"
  using assms by (auto simp: rbt_rep_def)

lemma ins_list_at:
  assumes "\<forall>x\<in>set xs. lt x v" "\<forall>x\<in>set xs. \<not> lt v x"
  shows "ins_list lt v (xs @ ys) = xs @ ins_list lt v ys"
  using assms by (induction xs) auto

lemma ins_list_front: "\<forall>y\<in>set ys. lt v y \<Longrightarrow> ins_list lt v ys = v # ys"
  by (cases ys) auto

context weak_order
begin

lemma ins_list_parts:
  assumes "\<forall>x\<in>set xs. less x v" "\<forall>y\<in>set ys. less v y"
  shows "ins_list less v (xs @ ys) = xs @ v # ys"
    and "\<not> less v x \<Longrightarrow> \<not> less x v \<Longrightarrow> ins_list less v (xs @ x # ys) = xs @ v # ys"
  using assms asym by (simp_all add: ins_list_at ins_list_front)

lemma sorted_mid:
  assumes "sorted_wrt less (xs @ ys)" "\<forall>x\<in>set xs. less x v" "\<forall>y\<in>set ys. less v y"
  shows "sorted_wrt less (xs @ v # ys)"
  using assms by (auto simp: sorted_wrt_append)

lemma insert_found:
  assumes rep: "rbt_rep r (plug (Nd a b c d) k)" and f: "rbt_find_val r v = Some (b, q)"
    and copy: "\<And>d s. type_copy (rbt_type r) d s = s"
  shows "rbt_insert_val r v p m = Some (r\<lparr>rbt_data := (rbt_data r)(b \<mapsto> v)\<rparr>, b)"
proof -
  have "zip_at (rbt_nodes r) (Nd a b c d) k" using rep zip_plug by (simp add: rbt_rep_def)
  then have "b \<noteq> NULL" by (rule zip_reads)
  moreover obtain x where "rbt_data r b = Some x" using rep by (auto simp: rbt_rep_def dom_def)
  ultimately show ?thesis using f by (simp add: rbt_insert_val_def copy)
qed

lemma insert_absent:
  assumes rep: "rbt_rep r (plug Lf k)" and f: "rbt_find_val r v = Some (NULL, top k)"
    and copy: "\<And>d s. type_copy (rbt_type r) d s = s" and p: "p \<noteq> NULL" "p \<notin> dom (rbt_nodes r)"
    and less: "rbt_less r = less"
    and lo: "\<forall>b \<in> set (kleft k). less (the (rbt_data r b)) v" and hi: "\<forall>b \<in> set (kright k). less v (the (rbt_data r b))"
    and srt: "sorted_wrt less (elems (rbt_data r) (addrs (plug Lf k)))"
  shows "\<exists>h t. rbt_insert_val r v p m =
      Some (r\<lparr>rbt_data := (rbt_data r)(p \<mapsto> v), rbt_size := rbt_size r + 1, rbt_nodes := h\<rparr>, p) \<and>
    rbt_rep (r\<lparr>rbt_data := (rbt_data r)(p \<mapsto> v), rbt_size := rbt_size r + 1, rbt_nodes := h\<rparr>) t \<and>
    addrs t = kleft k @ p # kright k"
proof -
  note R = rep [unfolded rbt_rep_def]
  have z: "zip_at (rbt_nodes r) Lf k" using R zip_plug by blast
  have fresh: "p \<notin> set (kleft k)" "p \<notin> set (kright k)" "p \<noteq> GUARD" using p R by auto
  define isleft where "isleft = (\<exists>a c rt k'. k = FL a c rt # k')"
  obtain h1 h2 where h: "(if top k = NULL then rbt_set_root ((rbt_nodes r)(p \<mapsto> new_links NULL)) p
         else if isleft then set_left ((rbt_nodes r)(p \<mapsto> new_links NULL)) (top k) p
         else set_right ((rbt_nodes r)(p \<mapsto> new_links NULL)) (top k) p) = Some h1"
    "set_parent h1 p (top k) = Some h2" "zip_at h2 (Nd Lf p RBT_RED Lf) k" "dom h2 = insert p (dom (rbt_nodes r))"
    using link_leaf [OF z p] R isleft_def by metis
  obtain h T where T: "rbt_insert_node_fixup h2 p = Some h" "zip_at h T []" "rb T"
      "addrs T = addrs (plug (Nd Lf p RBT_RED Lf) k)" "dom h = dom h2"
    using insert_fixup_ok [OF h(3)] rb_hole [of k] R by auto
  let ?r = "r\<lparr>rbt_data := (rbt_data r)(p \<mapsto> v), rbt_size := rbt_size r + 1, rbt_nodes := h\<rparr>"
  have rep': "rbt_rep ?r T" using T R h(4) by (auto simp: rbt_rep_def)
  have "sorted_wrt less (elems ((rbt_data r)(p \<mapsto> v)) (addrs T))"
    using srt lo hi fresh T(4) sorted_mid [of "elems (rbt_data r) (kleft k)" "elems (rbt_data r) (kright k)" v]
    by (simp add: elems_ball)
  then have valid: "rbt_is_vaild ?r = Some True"
    using is_vaild_rep [of ?r T] rep' less sorted_local_order by (auto simp: rbt_rep_def)
  define r1 where "r1 = r\<lparr>rbt_nodes := (rbt_nodes r)(p \<mapsto> new_links NULL), rbt_data := (rbt_data r)(p \<mapsto> v)\<rparr>"
  have r1: "rbt_new_treenode r v p m = Some r1" "rbt_nodes r1 = (rbt_nodes r)(p \<mapsto> new_links NULL)"
    "rbt_less r1 = less" "r1\<lparr>rbt_size := rbt_size r1 + 1, rbt_nodes := h\<rparr> = ?r"
    using p copy less by (simp_all add: rbt_new_treenode_def r1_def new_links_def)
  have pd: "\<exists>x. rbt_data r1 (top k) = Some x \<and> less v x = isleft" if "top k \<noteq> NULL"
  proof -
    have "top k \<in> set (kleft k) \<union> set (kright k)" using that top_in_ctx [of k] by (cases "k = []") auto
    then have "top k \<in> dom (rbt_data r)" "top k \<noteq> p" using R fresh by auto
    then show ?thesis using that lo hi asym by (cases k rule: top.cases) (auto simp: isleft_def less r1_def)
  qed
  have "rbt_insert_val r v p m = Some (?r, p)"
  proof (cases "top k = NULL")
    case True
    with valid show ?thesis using h T(1) p f r1
      by (simp add: rbt_insert_val_def Let_def cong: bind_weak_cong)
  next
    case False
    with pd obtain x where "rbt_data r1 (top k) = Some x" "less v x = isleft" by blast
    with False valid show ?thesis using h T(1) p f r1
      by (cases isleft) (simp_all add: rbt_insert_val_def Let_def cong: bind_weak_cong)
  qed
  with rep' T(4) show ?thesis by auto
qed


theorem insert_val_abs:
  assumes abs: "rbt_abs r xs" and less: "rbt_less r = less"
    and copy: "\<And>d s. type_copy (rbt_type r) d s = s" and p: "p \<noteq> NULL" "p \<notin> dom (rbt_nodes r)"
  shows "\<exists>r' node. rbt_insert_val r v p m = Some (r', node) \<and> rbt_abs r' (ins_list less v xs) \<and>
     rbt_data r' node = Some v \<and> rbt_less r' = less \<and> rbt_type r' = rbt_type r"
proof -
  obtain t where t: "rbt_rep r t" "elems (rbt_data r) (addrs t) = xs" "sorted_wrt less xs"
    using abs less by (auto simp: rbt_abs_def)
  have "\<exists>u k q. rbt_find_val r v = Some (ptr u, q) \<and> plug u k = t \<and> (u = Lf \<longrightarrow> q = top k) \<and>
     (\<forall>b \<in> set (kleft k). less (the (rbt_data r b)) v) \<and> (\<forall>b \<in> set (kright k). less v (the (rbt_data r b))) \<and>
     (u \<noteq> Lf \<longrightarrow> \<not> less v (the (rbt_data r (ptr u))) \<and> \<not> less (the (rbt_data r (ptr u))) v)"
    using t less by (intro find_val_zip) (auto simp: rbt_rep_def)
  then obtain u k q where f: "rbt_find_val r v = Some (ptr u, q)" "plug u k = t" "u = Lf \<longrightarrow> q = top k"
     "\<forall>b \<in> set (kleft k). less (the (rbt_data r b)) v" "\<forall>b \<in> set (kright k). less v (the (rbt_data r b))"
     "u \<noteq> Lf \<longrightarrow> \<not> less v (the (rbt_data r (ptr u))) \<and> \<not> less (the (rbt_data r (ptr u))) v" by blast
  show ?thesis
  proof (cases u)
    case Lf
    with f(1-3) t(1,2) obtain h t' where ins: "rbt_insert_val r v p m =
      Some (r\<lparr>rbt_data := (rbt_data r)(p \<mapsto> v), rbt_size := rbt_size r + 1, rbt_nodes := h\<rparr>, p)"
      "rbt_rep (r\<lparr>rbt_data := (rbt_data r)(p \<mapsto> v), rbt_size := rbt_size r + 1, rbt_nodes := h\<rparr>) t'"
      "addrs t' = kleft k @ p # kright k"
      using insert_absent [of r k v p m] f(4,5) t(3) copy p less by auto
    have "p \<notin> set (kleft k)" "p \<notin> set (kright k)" using p(2) t(1) f(2) Lf by (auto simp: rbt_rep_def)
    moreover have "ins_list less v xs = elems (rbt_data r) (kleft k) @ v # elems (rbt_data r) (kright k)"
      using t(2) f(2,4,5) Lf ins_list_parts(1) by (auto simp: elems_ball)
    moreover have "sorted_wrt less (elems (rbt_data r) (kleft k) @ v # elems (rbt_data r) (kright k))"
      using t(2,3) f(2,4,5) Lf by (intro sorted_mid) (auto simp: elems_ball)
    ultimately show ?thesis using less ins by (simp add: rbt_abs_def) (rule exI [of _ t'], simp)
  next
    case (Nd a b c d)
    let ?r = "r\<lparr>rbt_data := (rbt_data r)(b \<mapsto> v)\<rparr>"
    have i: "rbt_insert_val r v p m = Some (?r, b)"
      using t(1) f(1,2) copy Nd by (intro insert_found [of r a b c d k]) auto
    have rep: "rbt_rep ?r t" by (rule rep_update) (use t f(2) Nd in auto)
    have d: "b \<notin> set (kleft k)" "b \<notin> set (kright k)" "b \<notin> set (addrs a)" "b \<notin> set (addrs d)"
      using t(1) f(2) Nd by (auto simp: rbt_rep_def zip_at_def)
    let ?l = "elems (rbt_data r) (kleft k @ addrs a)" and ?g = "elems (rbt_data r) (addrs d @ kright k)"
    have xs: "xs = ?l @ the (rbt_data r b) # ?g" using t(2) f(2) Nd by auto
    have eq: "\<not> less v (the (rbt_data r b))" "\<not> less (the (rbt_data r b)) v" using f(6) Nd by auto
    have lo: "\<forall>x\<in>set ?l. less x v" "\<forall>x\<in>set ?g. less v x"
      using t(3) eq xs equiv_below [OF eq] equiv_above [OF eq] by (auto simp: sorted_wrt_append)
    have "ins_list less v xs = ?l @ v # ?g" unfolding xs by (rule ins_list_parts(2)) (use lo eq in auto)
    moreover have "elems (rbt_data ?r) (addrs t) = ?l @ v # ?g" using f(2) Nd d by auto
    moreover have "sorted_wrt less (?l @ v # ?g)"
      by (rule sorted_mid) (use t(3) xs lo in \<open>auto simp: sorted_wrt_append\<close>)
    ultimately show ?thesis using i rep less by (auto simp: rbt_abs_def)
  qed
qed

end
end
