(* ===== verification/RbtreeIter.thy ===== *)
theory RbtreeIter
  imports RbtreeShape
begin

text \<open>
  \<^verbatim>\<open>_rbt_tree_minimum\<close>, \<^verbatim>\<open>_rbt_tree_maximum\<close>, \<^verbatim>\<open>_rbt_tree_successor\<close> and
  \<^verbatim>\<open>_rbt_tree_predecessor\<close> of \<^verbatim>\<open>ohstl/rbtree.c\<close>: they terminate and move along the in-order
  sequence of the addresses.
\<close>

section \<open>Contexts compose\<close>

lemma plug_append [simp]: "plug t (k1 @ k2) = plug (plug t k1) k2"
  by (induction t k1 rule: plug.induct) auto

lemma kleft_append [simp]: "kleft (k1 @ k2) = kleft k2 @ kleft k1"
  and kright_append [simp]: "kright (k1 @ k2) = kright k1 @ kright k2"
  by (induction k1 rule: kleft.induct) auto

lemma top_append: "top (k1 @ k2) = (if k1 = [] then top k2 else top k1)"
  by (cases k1 rule: top.cases) auto

section \<open>Minimum and maximum\<close>

lemma zip_ptr_nz: "zip_at h t k \<Longrightarrow> ptr t \<noteq> NULL \<longleftrightarrow> t \<noteq> Lf"
  by (cases t) (auto simp: zip_at_def)

lemma minimum_zip:
  assumes "zip_at h t k" "t \<noteq> Lf"
  shows "\<exists>m c r k'. rbt_tree_minimum h (ptr t) = Some m \<and> plug (Nd Lf m c r) k' = t \<and> kleft k' = []"
  using assms
proof (induction t arbitrary: k)
  case (Nd l a c r)
  note z = Nd.prems(1)
  show ?case
  proof (cases "l = Lf")
    case True
    with zip_reads(1) [OF z] have "rbt_tree_minimum h a = Some a"
      by (simp add: rbt_tree_minimum_def while_c_stop)
    with True show ?thesis by (intro exI [of _ a] exI [of _ c] exI [of _ r] exI [of _ "[]"]) simp
  next
    case False
    have zl: "zip_at h l (FL a c r # k)" using z by (simp add: zip_up)
    from Nd.IH(1) [OF zl False] obtain m d s k' where
      m: "rbt_tree_minimum h (ptr l) = Some m" "plug (Nd Lf m d s) k' = l" "kleft k' = []" by blast
    have "rbt_tree_minimum h a = rbt_tree_minimum h (ptr l)"
      using zip_reads(1) [OF z] zip_ptr_nz [OF zl] False by (simp add: rbt_tree_minimum_def while_c_step)
    with m show ?thesis
      by (intro exI [of _ m] exI [of _ d] exI [of _ s] exI [of _ "k' @ [FL a c r]"]) simp
  qed
qed simp

lemma maximum_zip:
  assumes "zip_at h t k" "t \<noteq> Lf"
  shows "\<exists>m c l k'. rbt_tree_maximum h (ptr t) = Some m \<and> plug (Nd l m c Lf) k' = t \<and> kright k' = []"
  using assms
proof (induction t arbitrary: k)
  case (Nd l a c r)
  note z = Nd.prems(1)
  show ?case
  proof (cases "r = Lf")
    case True
    with zip_reads(2) [OF z] have "rbt_tree_maximum h a = Some a"
      by (simp add: rbt_tree_maximum_def while_c_stop)
    with True show ?thesis by (intro exI [of _ a] exI [of _ c] exI [of _ l] exI [of _ "[]"]) simp
  next
    case False
    have zr: "zip_at h r (FR l a c # k)" using z by (simp add: zip_up)
    from Nd.IH(2) [OF zr False] obtain m d s k' where
      m: "rbt_tree_maximum h (ptr r) = Some m" "plug (Nd s m d Lf) k' = r" "kright k' = []" by blast
    have "rbt_tree_maximum h a = rbt_tree_maximum h (ptr r)"
      using zip_reads(2) [OF z] zip_ptr_nz [OF zr] False by (simp add: rbt_tree_maximum_def while_c_step)
    with m show ?thesis
      by (intro exI [of _ m] exI [of _ d] exI [of _ s] exI [of _ "k' @ [FR l a c]"]) simp
  qed
qed simp

lemma minimum_hd: "zip_at h t k \<Longrightarrow> t \<noteq> Lf \<Longrightarrow> rbt_tree_minimum h (ptr t) = Some (hd (addrs t))"
  using minimum_zip [of h t k] by auto

lemma maximum_last: "zip_at h t k \<Longrightarrow> t \<noteq> Lf \<Longrightarrow> rbt_tree_maximum h (ptr t) = Some (last (addrs t))"
  using maximum_zip [of h t k] by auto

section \<open>Successor and predecessor are the neighbours in the in-order sequence\<close>

lemma climb_right:
  assumes "zip_at h t k" "t \<noteq> Lf"
  shows "\<exists>n. while_c (\<lambda>n. do {
           p \<leftarrow> parent_of h n;
           if p = NULL then Some False else map_option (\<lambda>pr. n = pr) (right_of h p) })
         (parent_of h) (ptr t) = Some n \<and> parent_of h n = Some (hd (kright k @ [NULL]))"
  using assms
proof (induction k arbitrary: t)
  case Nil
  then obtain l a c r where t: "t = Nd l a c r" by (cases t) auto
  with zip_reads(3) Nil show ?case by (auto simp: while_c_stop)
next
  case (Cons f k)
  then obtain l a c r where t: "t = Nd l a c r" by (cases t) auto
  note p = zip_reads(3) [OF Cons.prems(1) [unfolded t]]
  show ?case
  proof (cases f)
    case (FL b d s)
    then have z: "zip_at h (Nd t b d s) k" using Cons.prems by (simp add: zip_up)
    then have "a \<noteq> ptr s" using t by (cases s) (auto simp: zip_at_def)
    then show ?thesis using p t FL zip_reads [OF z]
      by (intro exI [of _ a]) (simp add: while_c_stop)
  next
    case (FR s b d)
    then have z: "zip_at h (Nd s b d t) k" using Cons.prems by (simp add: zip_up)
    from Cons.IH [OF z] show ?thesis using p t FR zip_reads [OF z] by (simp add: while_c_step)
  qed
qed

lemma climb_left:
  assumes "zip_at h t k" "t \<noteq> Lf"
  shows "\<exists>n. while_c (\<lambda>n. do {
           p \<leftarrow> parent_of h n;
           if p = NULL then Some False else map_option (\<lambda>pl. n = pl) (left_of h p) })
         (parent_of h) (ptr t) = Some n \<and> parent_of h n = Some (last (NULL # kleft k))"
  using assms
proof (induction k arbitrary: t)
  case Nil
  then obtain l a c r where t: "t = Nd l a c r" by (cases t) auto
  with zip_reads(3) Nil show ?case by (auto simp: while_c_stop)
next
  case (Cons f k)
  then obtain l a c r where t: "t = Nd l a c r" by (cases t) auto
  note p = zip_reads(3) [OF Cons.prems(1) [unfolded t]]
  show ?case
  proof (cases f)
    case (FR s b d)
    then have z: "zip_at h (Nd s b d t) k" using Cons.prems by (simp add: zip_up)
    then have "a \<noteq> ptr s" using t by (cases s) (auto simp: zip_at_def)
    then show ?thesis using p t FR zip_reads [OF z]
      by (intro exI [of _ a]) (simp add: while_c_stop)
  next
    case (FL b d s)
    then have z: "zip_at h (Nd t b d s) k" using Cons.prems by (simp add: zip_up)
    from Cons.IH [OF z] show ?thesis using p t FL zip_reads [OF z] by (simp add: while_c_step)
  qed
qed

lemma successor_zip:
  assumes "zip_at h (Nd l a c r) k"
  shows "rbt_tree_successor h a = Some (hd (addrs r @ kright k @ [NULL]))"
proof (cases "r = Lf")
  case True
  with climb_right [OF assms] zip_reads(2) [OF assms] show ?thesis
    by (auto simp: rbt_tree_successor_def)
next
  case False
  then have zr: "zip_at h r (FR l a c # k)" using assms by (simp add: zip_up)
  from minimum_hd [OF zr False] zip_reads(2) [OF assms] zip_ptr_nz [OF zr] False show ?thesis
    by (cases r) (auto simp: rbt_tree_successor_def hd_append)
qed

lemma predecessor_zip:
  assumes "zip_at h (Nd l a c r) k"
  shows "rbt_tree_predecessor h a = Some (last (NULL # kleft k @ addrs l))"
proof (cases "l = Lf")
  case True
  with climb_left [OF assms] zip_reads(1) [OF assms] show ?thesis
    by (auto simp: rbt_tree_predecessor_def)
next
  case False
  then have zl: "zip_at h l (FL a c r # k)" using assms by (simp add: zip_up)
  from maximum_last [OF zl False] zip_reads(1) [OF assms] zip_ptr_nz [OF zl] False show ?thesis
    by (cases l) (auto simp: rbt_tree_predecessor_def last_append)
qed

text \<open>Every node of a tree can be focused.\<close>

lemma focus: "a \<in> set (addrs t) \<Longrightarrow> \<exists>l c r k. plug (Nd l a c r) k = t"
proof (induction t)
  case (Nd l b c r)
  consider "a = b" | "a \<in> set (addrs l)" | "a \<in> set (addrs r)" using Nd.prems by auto
  then show ?case
  proof cases
    case 1
    then show ?thesis by (intro exI [of _ l] exI [of _ c] exI [of _ r] exI [of _ "[]"]) simp
  next
    case 2
    then obtain l' c' r' k where "plug (Nd l' a c' r') k = l" using Nd.IH(1) by blast
    then show ?thesis by (intro exI [of _ l'] exI [of _ c'] exI [of _ r'] exI [of _ "k @ [FL b c r]"]) simp
  next
    case 3
    then obtain l' c' r' k where "plug (Nd l' a c' r') k = r" using Nd.IH(2) by blast
    then show ?thesis by (intro exI [of _ l'] exI [of _ c'] exI [of _ r'] exI [of _ "k @ [FR l b c]"]) simp
  qed
qed simp

end
