(* ===== verification/RbtreeErase.thy ===== *)
theory RbtreeErase
  imports RbtreeSearch RbtreeIter
begin

text \<open>
  Erasure: one round of \<^verbatim>\<open>_rbt_erase_node_fixup\<close> on a focused tree, its total correctness, and
  \<^verbatim>\<open>_rbt_erase_node\<close> and \<^verbatim>\<open>_rbt_erase_val\<close> as removal from the sorted sequence.
\<close>

section \<open>One round of the erasure fixup\<close>

text \<open>The parts of a round: making the brother black, the test of the nephews, the last rotation.\<close>

definition erase_red_left :: "rbheap \<Rightarrow> addr \<Rightarrow> addr \<Rightarrow> (rbheap \<times> addr) option" where
  "erase_red_left h parent brother = do {
     h \<leftarrow> rbt_setblk h brother;
     h \<leftarrow> rbt_setred h parent;
     h \<leftarrow> rbt_left_rotate h parent;
     b \<leftarrow> right_of h parent;
     Some (h, b) }"

definition erase_tail_left :: "rbheap \<Rightarrow> addr \<Rightarrow> addr \<Rightarrow> (rbheap \<times> addr \<times> addr) option" where
  "erase_tail_left h parent brother = do {
     pc \<leftarrow> color_of h parent;
     h \<leftarrow> rbt_setclr h brother pc;
     h \<leftarrow> rbt_setblk h parent;
     br \<leftarrow> right_of h brother;
     h \<leftarrow> rbt_setblk h br;
     h \<leftarrow> rbt_left_rotate h parent;
     root \<leftarrow> rbt_root h;
     Some (h, root, parent) }"

definition erase_rest_left :: "rbheap \<Rightarrow> addr \<Rightarrow> addr \<Rightarrow> (rbheap \<times> addr \<times> addr) option" where
  "erase_rest_left h parent brother = do {
     bl \<leftarrow> left_of h brother;
     br \<leftarrow> right_of h brother;
     blb \<leftarrow> rbt_isblk h bl;
     brb \<leftarrow> rbt_isblk h br;
     if blb \<and> brb then do {
       h \<leftarrow> rbt_setred h brother;
       np \<leftarrow> parent_of h parent;
       Some (h, parent, np) }
     else do {
       (h, brother) \<leftarrow> (if brb then do {
           h \<leftarrow> rbt_setblk h bl;
           h \<leftarrow> rbt_setred h brother;
           h \<leftarrow> rbt_right_rotate h brother;
           b \<leftarrow> right_of h parent;
           Some (h, b) }
         else Some (h, brother));
       erase_tail_left h parent brother } }"

lemma erase_step_left:
  assumes "left_of h parent = Some node"
  shows "rbt_erase_fixup_step (h, node, parent) = do {
     brother \<leftarrow> right_of h parent;
     bred \<leftarrow> rbt_isred h brother;
     (h, brother) \<leftarrow> (if bred then erase_red_left h parent brother else Some (h, brother));
     erase_rest_left h parent brother }"
  unfolding erase_red_left_def erase_rest_left_def erase_tail_left_def
  by (simp add: rbt_erase_fixup_step_def assms)

lemma erase_red_L:
  assumes z: "zip_at h (Nd t p cp (Nd bl b cb br)) k"
  shows "\<exists>h'. erase_red_left h p b = Some (h', ptr bl) \<and> dom h' = dom h \<and>
    zip_at h' (Nd (Nd t p RBT_RED bl) b RBT_BLK br) k"
proof -
  obtain h1 where h1: "rbt_setclr h b RBT_BLK = Some h1"
    "zip_at h1 (Nd bl b RBT_BLK br) (FR t p cp # k)" "dom h1 = dom h"
    using setclr_zip [OF zip_downR [OF z]] by blast
  obtain h2 where h2: "rbt_setclr h1 p RBT_RED = Some h2"
    "zip_at h2 (Nd t p RBT_RED (Nd bl b RBT_BLK br)) k" "dom h2 = dom h"
    using setclr_zip [OF h1(2) [unfolded zip_up]] h1(3) by metis
  obtain h3 where h3: "rbt_left_rotate h2 p = Some h3"
    "zip_at h3 (Nd (Nd t p RBT_RED bl) b RBT_BLK br) k" "dom h3 = dom h"
    using left_rotate_zip [OF h2(2)] h2(3) by metis
  from zip_reads(2) [OF zip_downL [OF h3(2)]] show ?thesis
    using h1(1) h2(1) h3 by (simp add: erase_red_left_def cong: bind_weak_cong)
qed

lemma erase_tail_L:
  assumes z: "zip_at h (Nd t p cp (Nd u l cl (Nd x r cr y))) k"
  shows "\<exists>h'. erase_tail_left h p l = Some (h', ptr (plug (Nd (Nd t p RBT_BLK u) l cp (Nd x r RBT_BLK y)) k), p) \<and>
    dom h' = dom h \<and> zip_at h' (Nd (Nd t p RBT_BLK u) l cp (Nd x r RBT_BLK y)) k"
proof -
  obtain h1 where h1: "rbt_setclr h l cp = Some h1"
    "zip_at h1 (Nd u l cp (Nd x r cr y)) (FR t p cp # k)" "dom h1 = dom h"
    using setclr_zip [OF zip_downR [OF z]] by blast
  obtain h2 where h2: "rbt_setclr h1 p RBT_BLK = Some h2"
    "zip_at h2 (Nd t p RBT_BLK (Nd u l cp (Nd x r cr y))) k" "dom h2 = dom h"
    using setclr_zip [OF h1(2) [unfolded zip_up]] h1(3) by metis
  obtain h3 where h3: "rbt_setclr h2 r RBT_BLK = Some h3"
    "zip_at h3 (Nd x r RBT_BLK y) (FR u l cp # FR t p RBT_BLK # k)" "dom h3 = dom h"
    using setclr_zip [OF zip_downR [OF zip_downR [OF h2(2)]]] h2(3) by metis
  obtain h4 where h4: "rbt_left_rotate h3 p = Some h4"
    "zip_at h4 (Nd (Nd t p RBT_BLK u) l cp (Nd x r RBT_BLK y)) k" "dom h4 = dom h"
    using left_rotate_zip [OF h3(2) [unfolded zip_up]] h3(3) by metis
  from zip_reads(4) [OF z] zip_reads(2) [OF zip_downR [OF h2(2)]] zip_root [OF h4(2)] show ?thesis
    using h1(1) h2(1) h3(1) h4 by (simp add: erase_tail_left_def cong: bind_weak_cong del: addrs_plug)
qed

lemma erase_up_L:
  assumes z: "zip_at h (Nd t p cp (Nd bl b cb br)) k" and c: "col bl = RBT_BLK" "col br = RBT_BLK"
  shows "\<exists>h'. erase_rest_left h p b = Some (h', p, top k) \<and> dom h' = dom h \<and>
    zip_at h' (Nd t p cp (Nd bl b RBT_RED br)) k"
proof -
  obtain h1 where h1: "rbt_setclr h b RBT_RED = Some h1"
    "zip_at h1 (Nd bl b RBT_RED br) (FR t p cp # k)" "dom h1 = dom h"
    using setclr_zip [OF zip_downR [OF z]] by blast
  from h1 zip_reads(3) [OF h1(2) [unfolded zip_up]] zip_reads [OF zip_downR [OF z]] zip_children [OF zip_downR [OF z]] c
  show ?thesis by (simp add: erase_rest_left_def zip_up cong: bind_weak_cong)
qed

lemma erase_outer_L:
  assumes z: "zip_at h (Nd t p cp (Nd bl b cb (Nd x r RBT_RED y))) k"
  shows "\<exists>h'. erase_rest_left h p b = Some (h', ptr (plug (Nd (Nd t p RBT_BLK bl) b cp (Nd x r RBT_BLK y)) k), p) \<and>
    dom h' = dom h \<and> zip_at h' (Nd (Nd t p RBT_BLK bl) b cp (Nd x r RBT_BLK y)) k"
  using erase_tail_L [OF z] zip_reads [OF zip_downR [OF z]] zip_children [OF zip_downR [OF z]]
  by (simp add: erase_rest_left_def cong: bind_weak_cong)

lemma erase_inner_L:
  assumes z: "zip_at h (Nd t p cp (Nd (Nd x l cl y) b cb br)) k" and c: "cl = RBT_RED" "col br = RBT_BLK"
  shows "\<exists>h'. erase_rest_left h p b = Some (h', ptr (plug (Nd (Nd t p RBT_BLK x) l cp (Nd y b RBT_BLK br)) k), p) \<and>
    dom h' = dom h \<and> zip_at h' (Nd (Nd t p RBT_BLK x) l cp (Nd y b RBT_BLK br)) k"
proof -
  obtain h1 where h1: "rbt_setclr h l RBT_BLK = Some h1"
    "zip_at h1 (Nd x l RBT_BLK y) (FL b cb br # FR t p cp # k)" "dom h1 = dom h"
    using setclr_zip [OF zip_downL [OF zip_downR [OF z]]] by blast
  obtain h2 where h2: "rbt_setclr h1 b RBT_RED = Some h2"
    "zip_at h2 (Nd (Nd x l RBT_BLK y) b RBT_RED br) (FR t p cp # k)" "dom h2 = dom h"
    using setclr_zip [OF h1(2) [unfolded zip_up(1)]] h1(3) by metis
  obtain h3 where h3: "rbt_right_rotate h2 b = Some h3"
    "zip_at h3 (Nd x l RBT_BLK (Nd y b RBT_RED br)) (FR t p cp # k)" "dom h3 = dom h"
    using right_rotate_zip [OF h2(2)] h2(3) by metis
  from erase_tail_L [OF h3(2) [unfolded zip_up]] obtain h' where
    h': "erase_tail_left h3 p l = Some (h', ptr (plug (Nd (Nd t p RBT_BLK x) l cp (Nd y b RBT_BLK br)) k), p)"
    "dom h' = dom h" "zip_at h' (Nd (Nd t p RBT_BLK x) l cp (Nd y b RBT_BLK br)) k" using h3(3) by metis
  have "erase_rest_left h p b = Some (h', ptr (plug (Nd (Nd t p RBT_BLK x) l cp (Nd y b RBT_BLK br)) k), p)"
    using zip_reads [OF zip_downR [OF z]] zip_children [OF zip_downR [OF z]] c h1(1) h2(1) h3(1) h'(1)
      zip_reads(2) [OF h3(2) [unfolded zip_up]]
    by (simp add: erase_rest_left_def cong: bind_weak_cong)
  with h' show ?thesis by blast
qed

definition erase_red_right :: "rbheap \<Rightarrow> addr \<Rightarrow> addr \<Rightarrow> (rbheap \<times> addr) option" where
  "erase_red_right h parent brother = do {
     h \<leftarrow> rbt_setblk h brother;
     h \<leftarrow> rbt_setred h parent;
     h \<leftarrow> rbt_right_rotate h parent;
     b \<leftarrow> left_of h parent;
     Some (h, b) }"

definition erase_tail_right :: "rbheap \<Rightarrow> addr \<Rightarrow> addr \<Rightarrow> (rbheap \<times> addr \<times> addr) option" where
  "erase_tail_right h parent brother = do {
     pc \<leftarrow> color_of h parent;
     h \<leftarrow> rbt_setclr h brother pc;
     h \<leftarrow> rbt_setblk h parent;
     br \<leftarrow> left_of h brother;
     h \<leftarrow> rbt_setblk h br;
     h \<leftarrow> rbt_right_rotate h parent;
     root \<leftarrow> rbt_root h;
     Some (h, root, parent) }"

definition erase_rest_right :: "rbheap \<Rightarrow> addr \<Rightarrow> addr \<Rightarrow> (rbheap \<times> addr \<times> addr) option" where
  "erase_rest_right h parent brother = do {
     bl \<leftarrow> left_of h brother;
     br \<leftarrow> right_of h brother;
     blb \<leftarrow> rbt_isblk h bl;
     brb \<leftarrow> rbt_isblk h br;
     if blb \<and> brb then do {
       h \<leftarrow> rbt_setred h brother;
       np \<leftarrow> parent_of h parent;
       Some (h, parent, np) }
     else do {
       (h, brother) \<leftarrow> (if blb then do {
           h \<leftarrow> rbt_setblk h br;
           h \<leftarrow> rbt_setred h brother;
           h \<leftarrow> rbt_left_rotate h brother;
           b \<leftarrow> left_of h parent;
           Some (h, b) }
         else Some (h, brother));
       erase_tail_right h parent brother } }"

lemma erase_step_right:
  assumes "left_of h parent = Some pl" "node \<noteq> pl"
  shows "rbt_erase_fixup_step (h, node, parent) = do {
     brother \<leftarrow> left_of h parent;
     bred \<leftarrow> rbt_isred h brother;
     (h, brother) \<leftarrow> (if bred then erase_red_right h parent brother else Some (h, brother));
     erase_rest_right h parent brother }"
  unfolding erase_red_right_def erase_rest_right_def erase_tail_right_def
  using assms by (simp add: rbt_erase_fixup_step_def)

lemma erase_red_R:
  assumes z: "zip_at h (Nd (Nd br b cb bl) p cp t) k"
  shows "\<exists>h'. erase_red_right h p b = Some (h', ptr bl) \<and> dom h' = dom h \<and>
    zip_at h' (Nd br b RBT_BLK (Nd bl p RBT_RED t)) k"
proof -
  obtain h1 where h1: "rbt_setclr h b RBT_BLK = Some h1"
    "zip_at h1 (Nd br b RBT_BLK bl) (FL p cp t # k)" "dom h1 = dom h"
    using setclr_zip [OF zip_downL [OF z]] by blast
  obtain h2 where h2: "rbt_setclr h1 p RBT_RED = Some h2"
    "zip_at h2 (Nd (Nd br b RBT_BLK bl) p RBT_RED t) k" "dom h2 = dom h"
    using setclr_zip [OF h1(2) [unfolded zip_up]] h1(3) by metis
  obtain h3 where h3: "rbt_right_rotate h2 p = Some h3"
    "zip_at h3 (Nd br b RBT_BLK (Nd bl p RBT_RED t)) k" "dom h3 = dom h"
    using right_rotate_zip [OF h2(2)] h2(3) by metis
  from zip_reads(1) [OF zip_downR [OF h3(2)]] show ?thesis
    using h1(1) h2(1) h3 by (simp add: erase_red_right_def cong: bind_weak_cong)
qed

lemma erase_tail_R:
  assumes z: "zip_at h (Nd (Nd (Nd y r cr x) l cl u) p cp t) k"
  shows "\<exists>h'. erase_tail_right h p l = Some (h', ptr (plug (Nd (Nd y r RBT_BLK x) l cp (Nd u p RBT_BLK t)) k), p) \<and>
    dom h' = dom h \<and> zip_at h' (Nd (Nd y r RBT_BLK x) l cp (Nd u p RBT_BLK t)) k"
proof -
  obtain h1 where h1: "rbt_setclr h l cp = Some h1"
    "zip_at h1 (Nd (Nd y r cr x) l cp u) (FL p cp t # k)" "dom h1 = dom h"
    using setclr_zip [OF zip_downL [OF z]] by blast
  obtain h2 where h2: "rbt_setclr h1 p RBT_BLK = Some h2"
    "zip_at h2 (Nd (Nd (Nd y r cr x) l cp u) p RBT_BLK t) k" "dom h2 = dom h"
    using setclr_zip [OF h1(2) [unfolded zip_up]] h1(3) by metis
  obtain h3 where h3: "rbt_setclr h2 r RBT_BLK = Some h3"
    "zip_at h3 (Nd y r RBT_BLK x) (FL l cp u # FL p RBT_BLK t # k)" "dom h3 = dom h"
    using setclr_zip [OF zip_downL [OF zip_downL [OF h2(2)]]] h2(3) by metis
  obtain h4 where h4: "rbt_right_rotate h3 p = Some h4"
    "zip_at h4 (Nd (Nd y r RBT_BLK x) l cp (Nd u p RBT_BLK t)) k" "dom h4 = dom h"
    using right_rotate_zip [OF h3(2) [unfolded zip_up]] h3(3) by metis
  from zip_reads(4) [OF z] zip_reads(1) [OF zip_downL [OF h2(2)]] zip_root [OF h4(2)] show ?thesis
    using h1(1) h2(1) h3(1) h4 by (simp add: erase_tail_right_def cong: bind_weak_cong del: addrs_plug)
qed

lemma erase_up_R:
  assumes z: "zip_at h (Nd (Nd br b cb bl) p cp t) k" and c: "col bl = RBT_BLK" "col br = RBT_BLK"
  shows "\<exists>h'. erase_rest_right h p b = Some (h', p, top k) \<and> dom h' = dom h \<and>
    zip_at h' (Nd (Nd br b RBT_RED bl) p cp t) k"
proof -
  obtain h1 where h1: "rbt_setclr h b RBT_RED = Some h1"
    "zip_at h1 (Nd br b RBT_RED bl) (FL p cp t # k)" "dom h1 = dom h"
    using setclr_zip [OF zip_downL [OF z]] by blast
  from h1 zip_reads(3) [OF h1(2) [unfolded zip_up]] zip_reads [OF zip_downL [OF z]] zip_children [OF zip_downL [OF z]] c
  show ?thesis by (simp add: erase_rest_right_def zip_up cong: bind_weak_cong)
qed

lemma erase_outer_R:
  assumes z: "zip_at h (Nd (Nd (Nd y r RBT_RED x) b cb bl) p cp t) k"
  shows "\<exists>h'. erase_rest_right h p b = Some (h', ptr (plug (Nd (Nd y r RBT_BLK x) b cp (Nd bl p RBT_BLK t)) k), p) \<and>
    dom h' = dom h \<and> zip_at h' (Nd (Nd y r RBT_BLK x) b cp (Nd bl p RBT_BLK t)) k"
  using erase_tail_R [OF z] zip_reads [OF zip_downL [OF z]] zip_children [OF zip_downL [OF z]]
  by (simp add: erase_rest_right_def cong: bind_weak_cong)

lemma erase_inner_R:
  assumes z: "zip_at h (Nd (Nd br b cb (Nd y l cl x)) p cp t) k" and c: "cl = RBT_RED" "col br = RBT_BLK"
  shows "\<exists>h'. erase_rest_right h p b = Some (h', ptr (plug (Nd (Nd br b RBT_BLK y) l cp (Nd x p RBT_BLK t)) k), p) \<and>
    dom h' = dom h \<and> zip_at h' (Nd (Nd br b RBT_BLK y) l cp (Nd x p RBT_BLK t)) k"
proof -
  obtain h1 where h1: "rbt_setclr h l RBT_BLK = Some h1"
    "zip_at h1 (Nd y l RBT_BLK x) (FR br b cb # FL p cp t # k)" "dom h1 = dom h"
    using setclr_zip [OF zip_downR [OF zip_downL [OF z]]] by blast
  obtain h2 where h2: "rbt_setclr h1 b RBT_RED = Some h2"
    "zip_at h2 (Nd br b RBT_RED (Nd y l RBT_BLK x)) (FL p cp t # k)" "dom h2 = dom h"
    using setclr_zip [OF h1(2) [unfolded zip_up(2)]] h1(3) by metis
  obtain h3 where h3: "rbt_left_rotate h2 b = Some h3"
    "zip_at h3 (Nd (Nd br b RBT_RED y) l RBT_BLK x) (FL p cp t # k)" "dom h3 = dom h"
    using left_rotate_zip [OF h2(2)] h2(3) by metis
  from erase_tail_R [OF h3(2) [unfolded zip_up]] obtain h' where
    h': "erase_tail_right h3 p l = Some (h', ptr (plug (Nd (Nd br b RBT_BLK y) l cp (Nd x p RBT_BLK t)) k), p)"
    "dom h' = dom h" "zip_at h' (Nd (Nd br b RBT_BLK y) l cp (Nd x p RBT_BLK t)) k" using h3(3) by metis
  have "erase_rest_right h p b = Some (h', ptr (plug (Nd (Nd br b RBT_BLK y) l cp (Nd x p RBT_BLK t)) k), p)"
    using zip_reads [OF zip_downL [OF z]] zip_children [OF zip_downL [OF z]] c h1(1) h2(1) h3(1) h'(1)
      zip_reads(1) [OF h3(2) [unfolded zip_up]]
    by (simp add: erase_rest_right_def cong: bind_weak_cong)
  with h' show ?thesis by blast
qed

section \<open>The erasure fixup terminates and restores the invariants\<close>

fun blacken :: "atree \<Rightarrow> atree" where
  "blacken Lf = Lf"
| "blacken (Nd l a c r) = Nd l a RBT_BLK r"

lemma blacken_blk: "col t = RBT_BLK \<Longrightarrow> blacken t = t"
  by (cases t) auto

lemma blacken_inv: "invc t \<Longrightarrow> invc (blacken t)"
  by (cases t) auto

definition del_inv :: "addr list \<Rightarrow> addr set \<Rightarrow> nat \<Rightarrow> rbheap \<times> addr \<times> addr \<Rightarrow> bool" where
  "del_inv X D n s \<longleftrightarrow> (\<exists>t k. zip_at (fst s) t k \<and> fst (snd s) = ptr t \<and> (k \<noteq> [] \<longrightarrow> snd (snd s) = top k) \<and>
     invc (blacken t) \<and> invh t \<and> kinv (Suc (bh t)) RBT_BLK k \<and> kcol RBT_BLK k = RBT_BLK \<and>
     addrs (plug t k) = X \<and> dom (fst s) = D \<and> n = 2 * length k + (if col t = RBT_BLK then 1 else 0))"

lemma del_invI:
  assumes "zip_at h t k" "invc (blacken t)" "invh t" "kinv (Suc (bh t)) RBT_BLK k" "kcol RBT_BLK k = RBT_BLK"
    "addrs (plug t k) = X" "dom h = D" "k \<noteq> [] \<longrightarrow> q = top k"
  shows "del_inv X D (2 * length k + (if col t = RBT_BLK then 1 else 0)) (h, ptr t, q)"
  unfolding del_inv_def by (rule exI [of _ t], rule exI [of _ k]) (use assms in simp)

lemma del_inv_root:
  assumes "zip_at h T k" "invc T" "invh T" "kinv (bh T) (col T) k" "kcol (col T) k = RBT_BLK"
    "addrs (plug T k) = X" "dom h = D"
  shows "del_inv X D 1 (h, ptr (plug T k), q)"
proof -
  have "zip_at h (plug T k) []" using assms(1) zip_plug by blast
  moreover have "invc (plug T k) \<and> invh (plug T k)" using assms by (simp add: plug_inv)
  ultimately have "del_inv X D (2 * length ([] :: frame list) + (if col (plug T k) = RBT_BLK then 1 else 0)) (h, ptr (plug T k), q)"
    using assms by (intro del_invI) (auto intro: blacken_inv)
  then show ?thesis using assms by simp
qed

lemma erase_rest_round_L:
  assumes z: "zip_at h (Nd t p cp (Nd bl b RBT_BLK br)) k"
    and good: "invc t" "invh t" "invc bl" "invh bl" "invc br" "invh br" "bh bl = bh t" "bh br = bh t"
      "kinv (if cp = RBT_BLK then Suc (Suc (bh t)) else Suc (bh t)) cp k" "kcol cp k = RBT_BLK"
      "col t = RBT_BLK"
    and X: "addrs (plug (Nd t p cp (Nd bl b RBT_BLK br)) k) = X" "dom h = D"
  shows "\<exists>s' m. erase_rest_left h p b = Some s' \<and>
    (m \<le> 1 \<or> m \<le> 2 * length k + (if cp = RBT_BLK then 1 else 0)) \<and> del_inv X D m s'"
proof -
  consider "col bl = RBT_BLK" "col br = RBT_BLK" | "col br = RBT_RED" | "col bl = RBT_RED" "col br = RBT_BLK"
    by (cases "col bl"; cases "col br") auto
  then show ?thesis
  proof cases
    case 1
    then obtain h' where h': "erase_rest_left h p b = Some (h', p, top k)" "dom h' = dom h"
      "zip_at h' (Nd t p cp (Nd bl b RBT_RED br)) k" using erase_up_L [OF z] by blast
    have "kcol RBT_BLK k = RBT_BLK" using good(10) kcol_nonempty [of k cp RBT_BLK] by (cases "k = []") auto
    then have "del_inv X D (2 * length k + (if col (Nd t p cp (Nd bl b RBT_RED br)) = RBT_BLK then 1 else 0))
      (h', ptr (Nd t p cp (Nd bl b RBT_RED br)), top k)"
      using h' good X 1 by (intro del_invI) (auto intro: kinv_blk split: if_splits)
    with h'(1) show ?thesis
      by (intro exI [of _ "(h', p, top k)"] exI [of _ "2 * length k + (if cp = RBT_BLK then 1 else 0)"]) simp
  next
    case 2
    then obtain x r y where br: "br = Nd x r RBT_RED y" by (auto simp: col_red_Nd)
    let ?T = "Nd (Nd t p RBT_BLK bl) b cp (Nd x r RBT_BLK y)"
    from erase_outer_L [OF z [unfolded br]] obtain h' where h': "erase_rest_left h p b = Some (h', ptr (plug ?T k), p)"
      "dom h' = dom h" "zip_at h' ?T k" by blast
    have "del_inv X D 1 (h', ptr (plug ?T k), p)"
      using h' good X br by (intro del_inv_root) (auto split: if_splits)
    with h'(1) show ?thesis by (intro exI [of _ "(h', ptr (plug ?T k), p)"] exI [of _ 1]) simp
  next
    case 3
    then obtain x l y where bl: "bl = Nd x l RBT_RED y" by (auto simp: col_red_Nd)
    let ?T = "Nd (Nd t p RBT_BLK x) l cp (Nd y b RBT_BLK br)"
    from erase_inner_L [OF z [unfolded bl] refl 3(2)] obtain h' where
      h': "erase_rest_left h p b = Some (h', ptr (plug ?T k), p)" "dom h' = dom h" "zip_at h' ?T k" by blast
    have "del_inv X D 1 (h', ptr (plug ?T k), p)"
      using h' good X bl by (intro del_inv_root) (auto split: if_splits)
    with h'(1) show ?thesis by (intro exI [of _ "(h', ptr (plug ?T k), p)"] exI [of _ 1]) simp
  qed
qed

lemma round_weaken:
  assumes "\<exists>s m. x = Some s \<and> (m \<le> (a::nat) \<or> m \<le> b) \<and> P m s" "a < c" "b < c"
  shows "\<exists>s m. x = Some s \<and> m < c \<and> P m s"
  using assms le_less_trans by blast

lemma erase_round_L:
  assumes z: "zip_at h t (FL p cp w # k)" and t: "col t = RBT_BLK" "invc t" "invh t"
    and K: "kinv (Suc (bh t)) RBT_BLK (FL p cp w # k)" "kcol cp k = RBT_BLK"
    and X: "addrs (plug t (FL p cp w # k)) = X" "dom h = D"
  shows "\<exists>s' m. rbt_erase_fixup_step (h, ptr t, p) = Some s' \<and> m < 2 * length k + 3 \<and> del_inv X D m s'"
proof -
  obtain bl b cb br where w: "w = Nd bl b cb br" using K by (cases w) auto
  note z' = z [unfolded zip_up w]
  note reads = zip_reads(1,2) [OF z'] zip_reads(6) [OF zip_downR [OF z']]
  show ?thesis
  proof (cases cb)
    case RBT_BLK
    then have "rbt_erase_fixup_step (h, ptr t, p) = erase_rest_left h p b"
      using reads by (simp add: erase_step_left)
    moreover have "\<exists>s' m. erase_rest_left h p b = Some s' \<and>
      (m \<le> 1 \<or> m \<le> 2 * length k + (if cp = RBT_BLK then 1 else 0)) \<and> del_inv X D m s'"
      using z' t K X w RBT_BLK by (intro erase_rest_round_L [of h t p cp bl b br]) (auto split: if_splits)
    ultimately show ?thesis by (simp only:) (rule round_weaken, assumption, auto)
  next
    case RBT_RED
    then have cp: "cp = RBT_BLK" and bl: "col bl = RBT_BLK" using K w by (cases cp; auto)+
    from K w RBT_RED have "bh bl = Suc (bh t)" by auto
    with bl obtain x c y where bl': "bl = Nd x c RBT_BLK y" by (cases bl) auto
    from erase_red_L [OF z'] obtain h1 where h1: "erase_red_left h p b = Some (h1, c)" "dom h1 = dom h"
      "zip_at h1 (Nd (Nd t p RBT_RED (Nd x c RBT_BLK y)) b RBT_BLK br) k" using bl' by auto
    have "rbt_erase_fixup_step (h, ptr t, p) = erase_rest_left h1 p c"
      using RBT_RED reads h1(1) by (simp add: erase_step_left)
    moreover have "\<exists>s' m. erase_rest_left h1 p c = Some s' \<and>
      (m \<le> 1 \<or> m \<le> 2 * length (FL b RBT_BLK br # k) + (if RBT_RED = RBT_BLK then 1 else 0)) \<and> del_inv X D m s'"
      using h1 t K X w RBT_RED bl' cp by (intro erase_rest_round_L [of h1 t p RBT_RED x c y]) (auto simp: zip_up)
    ultimately show ?thesis by (simp only:) (rule round_weaken, assumption, auto)
  qed
qed

lemma erase_rest_round_R:
  assumes z: "zip_at h (Nd (Nd br b RBT_BLK bl) p cp t) k"
    and good: "invc t" "invh t" "invc bl" "invh bl" "invc br" "invh br" "bh bl = bh t" "bh br = bh t"
      "kinv (if cp = RBT_BLK then Suc (Suc (bh t)) else Suc (bh t)) cp k" "kcol cp k = RBT_BLK"
      "col t = RBT_BLK"
    and X: "addrs (plug (Nd (Nd br b RBT_BLK bl) p cp t) k) = X" "dom h = D"
  shows "\<exists>s' m. erase_rest_right h p b = Some s' \<and>
    (m \<le> 1 \<or> m \<le> 2 * length k + (if cp = RBT_BLK then 1 else 0)) \<and> del_inv X D m s'"
proof -
  consider "col bl = RBT_BLK" "col br = RBT_BLK" | "col br = RBT_RED" | "col bl = RBT_RED" "col br = RBT_BLK"
    by (cases "col bl"; cases "col br") auto
  then show ?thesis
  proof cases
    case 1
    then obtain h' where h': "erase_rest_right h p b = Some (h', p, top k)" "dom h' = dom h"
      "zip_at h' (Nd (Nd br b RBT_RED bl) p cp t) k" using erase_up_R [OF z] by blast
    have "kcol RBT_BLK k = RBT_BLK" using good(10) kcol_nonempty [of k cp RBT_BLK] by (cases "k = []") auto
    then have "del_inv X D (2 * length k + (if col (Nd (Nd br b RBT_RED bl) p cp t) = RBT_BLK then 1 else 0))
      (h', ptr (Nd (Nd br b RBT_RED bl) p cp t), top k)"
      using h' good X 1 by (intro del_invI) (auto intro: kinv_blk split: if_splits)
    with h'(1) show ?thesis
      by (intro exI [of _ "(h', p, top k)"] exI [of _ "2 * length k + (if cp = RBT_BLK then 1 else 0)"]) simp
  next
    case 2
    then obtain x r y where br: "br = Nd y r RBT_RED x" by (auto simp: col_red_Nd)
    let ?T = "Nd (Nd y r RBT_BLK x) b cp (Nd bl p RBT_BLK t)"
    from erase_outer_R [OF z [unfolded br]] obtain h' where h': "erase_rest_right h p b = Some (h', ptr (plug ?T k), p)"
      "dom h' = dom h" "zip_at h' ?T k" by blast
    have "del_inv X D 1 (h', ptr (plug ?T k), p)"
      using h' good X br by (intro del_inv_root) (auto split: if_splits)
    with h'(1) show ?thesis by (intro exI [of _ "(h', ptr (plug ?T k), p)"] exI [of _ 1]) simp
  next
    case 3
    then obtain x l y where bl: "bl = Nd y l RBT_RED x" by (auto simp: col_red_Nd)
    let ?T = "Nd (Nd br b RBT_BLK y) l cp (Nd x p RBT_BLK t)"
    from erase_inner_R [OF z [unfolded bl] refl 3(2)] obtain h' where
      h': "erase_rest_right h p b = Some (h', ptr (plug ?T k), p)" "dom h' = dom h" "zip_at h' ?T k" by blast
    have "del_inv X D 1 (h', ptr (plug ?T k), p)"
      using h' good X bl by (intro del_inv_root) (auto split: if_splits)
    with h'(1) show ?thesis by (intro exI [of _ "(h', ptr (plug ?T k), p)"] exI [of _ 1]) simp
  qed
qed

lemma erase_round_R:
  assumes z: "zip_at h t (FR w p cp # k)" and t: "col t = RBT_BLK" "invc t" "invh t"
    and K: "kinv (Suc (bh t)) RBT_BLK (FR w p cp # k)" "kcol cp k = RBT_BLK"
    and X: "addrs (plug t (FR w p cp # k)) = X" "dom h = D"
  shows "\<exists>s' m. rbt_erase_fixup_step (h, ptr t, p) = Some s' \<and> m < 2 * length k + 3 \<and> del_inv X D m s'"
proof -
  obtain bl b cb br where w: "w = Nd br b cb bl" using K by (cases w) auto
  note z' = z [unfolded zip_up w]
  note reads = zip_two(3) [OF z'] zip_reads(1,2) [OF z'] zip_reads(6) [OF zip_downL [OF z']]
  show ?thesis
  proof (cases cb)
    case RBT_BLK
    then have "rbt_erase_fixup_step (h, ptr t, p) = erase_rest_right h p b"
      using reads by (simp add: erase_step_right)
    moreover have "\<exists>s' m. erase_rest_right h p b = Some s' \<and>
      (m \<le> 1 \<or> m \<le> 2 * length k + (if cp = RBT_BLK then 1 else 0)) \<and> del_inv X D m s'"
      using z' t K X w RBT_BLK by (intro erase_rest_round_R [of h br b bl p cp t]) (auto split: if_splits)
    ultimately show ?thesis by (simp only:) (rule round_weaken, assumption, auto)
  next
    case RBT_RED
    then have cp: "cp = RBT_BLK" and bl: "col bl = RBT_BLK" using K w by (cases cp; auto)+
    from K w RBT_RED have "bh bl = Suc (bh t)" by auto
    with bl obtain x c y where bl': "bl = Nd y c RBT_BLK x" by (cases bl) auto
    from erase_red_R [OF z'] obtain h1 where h1: "erase_red_right h p b = Some (h1, c)" "dom h1 = dom h"
      "zip_at h1 (Nd br b RBT_BLK (Nd (Nd y c RBT_BLK x) p RBT_RED t)) k" using bl' by auto
    have "rbt_erase_fixup_step (h, ptr t, p) = erase_rest_right h1 p c"
      using RBT_RED reads h1(1) by (simp add: erase_step_right)
    moreover have "\<exists>s' m. erase_rest_right h1 p c = Some s' \<and>
      (m \<le> 1 \<or> m \<le> 2 * length (FR br b RBT_BLK # k) + (if RBT_RED = RBT_BLK then 1 else 0)) \<and> del_inv X D m s'"
      using h1 t K X w RBT_RED bl' cp by (intro erase_rest_round_R [of h1 y c x p RBT_RED t]) (auto simp: zip_up)
    ultimately show ?thesis by (simp only:) (rule round_weaken, assumption, auto)
  qed
qed


lemma del_step:
  assumes "del_inv X D n s"
  shows "(rbt_erase_fixup_cond s = Some False \<and>
       (\<exists>t k. zip_at (fst s) t k \<and> fst (snd s) = ptr t \<and> rb (plug (blacken t) k) \<and>
          addrs (plug t k) = X \<and> dom (fst s) = D)) \<or>
    (rbt_erase_fixup_cond s = Some True \<and>
      (\<exists>s' m. rbt_erase_fixup_step s = Some s' \<and> m < n \<and> del_inv X D m s'))"
proof -
  from assms obtain h q t k where s: "s = (h, ptr t, q)" and z: "zip_at h t k" and
    t: "invc (blacken t)" "invh t" "kinv (Suc (bh t)) RBT_BLK k" "kcol RBT_BLK k = RBT_BLK" "k \<noteq> [] \<longrightarrow> q = top k" and
    X: "addrs (plug t k) = X" "dom h = D" and n: "n = 2 * length k + (if col t = RBT_BLK then 1 else 0)"
    unfolding del_inv_def by (metis prod.collapse)
  have cond: "rbt_erase_fixup_cond s = Some (k \<noteq> [] \<and> col t = RBT_BLK)"
    using s zip_root [OF z] zip_at_focus_root [OF z] isblk_tree [OF zip_at_focus [OF z]]
    by (auto simp: rbt_erase_fixup_cond_def)
  show ?thesis
  proof (cases "k = [] \<or> col t = RBT_RED")
    case True
    have "rb (plug (blacken t) k)"
      using t True plug_inv [of "blacken t" k] by (cases t) (auto simp: rb_def)
    with True cond show ?thesis using s z X by (auto simp del: addrs_plug)
  next
    case False
    then have "col t = RBT_BLK" "invc t" using t(1) blacken_blk by auto
    with False have "\<exists>s' m. rbt_erase_fixup_step (h, ptr t, q) = Some s' \<and> m < n \<and> del_inv X D m s'"
    proof (cases k rule: top.cases)
      case (2 p c w k')
      with erase_round_L [of h t p c w k' X D] z t n X \<open>col t = RBT_BLK\<close> \<open>invc t\<close> show ?thesis
        by (simp add: numeral_3_eq_3 del: addrs_plug plug.simps)
    next
      case (3 w p c k')
      with erase_round_R [of h t w p c k' X D] z t n X \<open>col t = RBT_BLK\<close> \<open>invc t\<close> show ?thesis
        by (simp add: numeral_3_eq_3 del: addrs_plug plug.simps)
    qed (use False in simp)
    with False cond s show ?thesis by simp
  qed
qed

lemma erase_fixup_ok:
  assumes z: "zip_at h t k" and t: "invc t" "invh t" "kinv (Suc (bh t)) RBT_BLK k" "kcol RBT_BLK k = RBT_BLK"
  shows "\<exists>h' T. rbt_erase_node_fixup h (ptr t) (top k) = Some h' \<and> zip_at h' T [] \<and> rb T \<and>
    addrs T = addrs (plug t k) \<and> dom h' = dom h"
proof -
  from while_c_total [of "del_inv (addrs (plug t k)) (dom h)", OF del_invI [OF z blacken_inv [OF t(1)] t(2-4) refl refl] del_step]
  obtain h1 n q u l where w: "while_c rbt_erase_fixup_cond rbt_erase_fixup_step (h, ptr t, top k) = Some (h1, ptr u, q)"
    and u: "zip_at h1 u l" "rb (plug (blacken u) l)" "addrs (plug u l) = addrs (plug t k)" "dom h1 = dom h" by fastforce
  have "\<exists>h'. rbt_setclr h1 (ptr u) RBT_BLK = Some h' \<and> zip_at h' (blacken u) l \<and> dom h' = dom h1"
    using u(1) setclr_zip [of h1] by (cases u) (auto simp: rbt_setclr_def)
  then obtain h' where h': "rbt_setclr h1 (ptr u) RBT_BLK = Some h'" "zip_at h' (blacken u) l" "dom h' = dom h1" by blast
  have "addrs (plug (blacken u) l) = addrs (plug u l)" by (cases u) auto
  with h' u w zip_plug show ?thesis
    by (intro exI [of _ h'] exI [of _ "plug (blacken u) l"]) (simp add: rbt_erase_node_fixup_def)
qed

section \<open>Unlinking a node with at most one child\<close>

lemma unlink_ctx:
  assumes "ctx_at h p k" "distinct (p # kleft k @ kright k)" "GUARD \<notin> set (kleft k @ kright k)" "p \<noteq> NULL"
  shows "\<exists>h'. (if top k = NULL then rbt_set_root h p'
       else do { dpl \<leftarrow> left_of h (top k);
                 if p = dpl then set_left h (top k) p' else set_right h (top k) p' }) = Some h' \<and> ctx_at h' p' k \<and>
     (\<forall>q. q \<notin> set (kleft k) \<union> set (kright k) \<union> {GUARD} \<longrightarrow> h' q = h q) \<and> dom h' = dom h"
proof (cases k rule: top.cases)
  case 1
  with assms show ?thesis by (auto simp: field_defs guard_node_def)
next
  case (2 a c r k')
  with assms show ?thesis by (auto simp: field_defs)
next
  case (3 l a c k')
  with assms have "p \<noteq> ptr l" by (cases l) auto
  with 3 assms show ?thesis by (auto simp: field_defs)
qed

lemma unlink_zip:
  assumes z: "zip_at h (Nd l a c r) k" and one: "l = Lf \<or> r = Lf" and u: "u = (if l = Lf then r else l)"
  shows "\<exists>h'. rbt_unlink h a (ptr u) = Some h' \<and> zip_at h' u k \<and> dom h' = dom h \<and>
    parent_of h' a = Some (top k) \<and> rbt_isblk h' a = Some (c = RBT_BLK)"
proof -
  let ?K = "set (kleft k) \<union> set (kright k) \<union> {GUARD}"
  have ha: "h a = Some \<lparr>rb_left = ptr l, rb_right = ptr r, rb_parent = top k, rb_color = c\<rparr>" "a \<noteq> NULL"
    and t: "tree_at h a u" and k: "ctx_at h a k"
    using z u by (auto simp: zip_at_def)
  have d: "distinct (addrs u)" "a \<notin> set (addrs u)" "a \<notin> ?K" "set (addrs u) \<inter> ?K = {}"
    "distinct (a # kleft k @ kright k)" "GUARD \<notin> set (kleft k @ kright k)"
    using z u by (auto simp: zip_at_def)
  obtain h1 where h1: "(if ptr u \<noteq> NULL then set_parent h (ptr u) (top k) else Some h) = Some h1"
    "tree_at h1 (top k) u" "\<And>p. p \<notin> set (addrs u) \<Longrightarrow> h1 p = h p"
    using reparent_tree [OF t d(1)] by blast
  have "dom h1 = dom h" using h1(1) by (auto dest!: setters_dom split: if_splits del: equalityI)
  have "ctx_at h1 a k = ctx_at h a k" by (rule ctx_at_cong) (use h1(3) d in blast)
  with k unlink_ctx [of h1 a k "ptr u"] d ha(2) obtain h2 where
    h2: "(if top k = NULL then rbt_set_root h1 (ptr u)
       else do { dpl \<leftarrow> left_of h1 (top k);
                 if a = dpl then set_left h1 (top k) (ptr u) else set_right h1 (top k) (ptr u) }) = Some h2"
    "ctx_at h2 (ptr u) k" "\<And>q. q \<notin> ?K \<Longrightarrow> h2 q = h1 q" "dom h2 = dom h1" by auto
  have "tree_at h2 (top k) u = tree_at h1 (top k) u" by (rule tree_at_cong) (use h2(3) d(4) in blast)
  then have "zip_at h2 u k" using h1(2) h2(2) z u by (auto simp: zip_at_def)
  moreover have "h2 a = h a" using h2(3) h1(3) d by simp
  then have "parent_of h2 a = Some (top k)" "rbt_isblk h2 a = Some (c = RBT_BLK)"
    using ha by (simp_all add: field_defs)
  moreover have "rbt_unlink h a (ptr u) = Some h2"
    using h1(1) h2(1) ha by (simp add: rbt_unlink_def parent_of_def rb_get_def)
  ultimately show ?thesis using \<open>dom h1 = dom h\<close> h2(4) by auto
qed

text \<open>Removing a node and repairing the colours.\<close>

lemma remove_zip:
  assumes z: "zip_at h (Nd l a c r) k" and one: "l = Lf \<or> r = Lf" and u: "u = (if l = Lf then r else l)"
    and rb: "rb (plug (Nd l a c r) k)"
  shows "\<exists>h1 h' T. rbt_unlink h a (ptr u) = Some h1 \<and> rbt_isblk h1 a = Some (c = RBT_BLK) \<and>
    parent_of h1 a = Some (top k) \<and>
    (if c = RBT_BLK then rbt_erase_node_fixup h1 (ptr u) (top k) else Some h1) = Some h' \<and>
    zip_at h' T [] \<and> rb T \<and> addrs T = kleft k @ addrs u @ kright k \<and> dom h' = dom h"
proof -
  from unlink_zip [OF z one u] obtain h1 where h1: "rbt_unlink h a (ptr u) = Some h1" "zip_at h1 u k"
    "dom h1 = dom h" "parent_of h1 a = Some (top k)" "rbt_isblk h1 a = Some (c = RBT_BLK)" by blast
  have I: "invc (Nd l a c r)" "invh (Nd l a c r)" "kinv (bh (Nd l a c r)) c k" "kcol c k = RBT_BLK"
    using rb plug_inv [of "Nd l a c r" k] by (auto simp: rb_def)
  have ku: "invc u" "invh u" "bh u = bh l" using I u one by auto
  have blk: "kcol RBT_BLK k = RBT_BLK" using I(4) kcol_nonempty [of k c RBT_BLK] by (cases "k = []") auto
  have "\<exists>h' T. (if c = RBT_BLK then rbt_erase_node_fixup h1 (ptr u) (top k) else Some h1) = Some h' \<and>
     zip_at h' T [] \<and> rb T \<and> addrs T = addrs (plug u k) \<and> dom h' = dom h1"
  proof (cases c)
    case RBT_BLK
    then have "kinv (Suc (bh u)) RBT_BLK k" using I(3) ku by simp
    with erase_fixup_ok [OF h1(2) ku(1,2) _ blk] RBT_BLK show ?thesis by simp
  next
    case RBT_RED
    then have "col u = RBT_BLK" "kinv (bh u) (col u) k" using I(1,3) ku u one kinv_blk by (auto split: if_splits)
    then have "rb (plug u k)" using ku blk plug_inv [of u k] by (simp add: rb_def)
    moreover have "zip_at h1 (plug u k) []" using h1(2) zip_plug by blast
    ultimately show ?thesis using RBT_RED by auto
  qed
  then show ?thesis using h1 by auto
qed

section \<open>Erasing a node\<close>

text \<open>Removal of the elements equivalent to \<open>v\<close>.\<close>

definition del_list :: "('a \<Rightarrow> 'a \<Rightarrow> bool) \<Rightarrow> 'a \<Rightarrow> 'a list \<Rightarrow> 'a list" where
  "del_list lt v xs = filter (\<lambda>x. lt v x \<or> lt x v) xs"

lemma elems_clr [simp]: "a \<notin> set ys \<Longrightarrow> elems (d(a := None)) ys = elems d ys"
  by (auto simp: elems_def)

definition erased :: "'a rbtree \<Rightarrow> (addr \<rightharpoonup> 'a) \<Rightarrow> rbheap \<Rightarrow> addr \<Rightarrow> 'a rbtree" where
  "erased r d h n = r\<lparr>rbt_nodes := h(n := None), rbt_data := d(n := None), rbt_size := rbt_size r - 1\<rparr>"

lemma erased_sel [simp]:
  "rbt_less (erased r d h n) = rbt_less r" "rbt_type (erased r d h n) = rbt_type r"
  "rbt_data (erased r d h n) = d(n := None)"
  by (simp_all add: erased_def)

lemma erase_finish:
  assumes rep: "rbt_rep r t" and d: "dom d = dom (rbt_data r)" and T: "zip_at h T []" "rb T" "dom h = dom (rbt_nodes r)"
    and A: "set (addrs t) = insert n (set (addrs T))" "n \<notin> set (addrs T)" "length (addrs t) = Suc (length (addrs T))"
    and srt: "sorted_wrt (rbt_less r) (elems d (addrs T))"
  shows "rbt_free_treenode (r\<lparr>rbt_data := d, rbt_nodes := h\<rparr>) n =
       Some (r\<lparr>rbt_nodes := h(n := None), rbt_data := d(n := None)\<rparr>)"
    "rbt_rep (erased r d h n) T" "rbt_is_vaild (erased r d h n) = Some True"
proof -
  note R = rep [unfolded rbt_rep_def]
  have n: "n \<noteq> GUARD" "n \<noteq> NULL"
    using R A(1) zip_nz [of "rbt_nodes r" t "[]"] by (auto simp: zip_at_def)
  have hn: "n \<in> dom h" "n \<in> dom d" using R A T(3) d by auto
  then show "rbt_free_treenode (r\<lparr>rbt_data := d, rbt_nodes := h\<rparr>) n =
       Some (r\<lparr>rbt_nodes := h(n := None), rbt_data := d(n := None)\<rparr>)"
    using n by (auto simp: rbt_free_treenode_def rb_get_def)
  have z: "zip_at (h(n := None)) T []"
    using T(1) n A(2) tree_at_cong [of T "h(n := None)" h] by (auto simp: zip_at_def)
  then show rep': "rbt_rep (erased r d h n) T"
    using R A T d n by (auto simp: rbt_rep_def erased_def)
  have "local_order (rbt_less r) (d(n := None)) T"
    using srt A(2) by (intro sorted_local_order) simp
  then show "rbt_is_vaild (erased r d h n) = Some True"
    using is_vaild_rep [of "erased r d h n" T] rep' by (auto simp: rbt_rep_def)
qed

context weak_order
begin

lemma erase_node_rep:
  assumes rep: "rbt_rep r (plug (Nd l a c rt) k)" and less: "rbt_less r = less"
    and copy: "\<And>d s. type_copy (rbt_type r) d s = s"
    and srt: "sorted_wrt less (elems (rbt_data r) (addrs (plug (Nd l a c rt) k)))"
  shows "\<exists>r' t. rbt_erase_node r a = Some r' \<and> rbt_rep r' t \<and> rbt_less r' = less \<and> rbt_type r' = rbt_type r \<and>
    elems (rbt_data r') (addrs t) = elems (rbt_data r) (kleft k @ addrs l @ addrs rt @ kright k)"
proof -
  note R = rep [unfolded rbt_rep_def]
  let ?h = "rbt_nodes r" and ?d = "rbt_data r"
  have z: "zip_at ?h (Nd l a c rt) k" using R zip_plug by blast
  note reads = zip_reads [OF z]
  note zl = zip_downL [OF z] and zr = zip_downR [OF z]
  have dist: "distinct (kleft k @ addrs l @ a # addrs rt @ kright k)" using z by (simp add: zip_at_def)
  show ?thesis
  proof (cases "l = Lf \<or> rt = Lf")
    case True
    let ?u = "if l = Lf then rt else l"
    from remove_zip [OF z True refl] R obtain h1 h' T where
      T: "rbt_unlink ?h a (ptr ?u) = Some h1" "rbt_isblk h1 a = Some (c = RBT_BLK)" "parent_of h1 a = Some (top k)"
      "(if c = RBT_BLK then rbt_erase_node_fixup h1 (ptr ?u) (top k) else Some h1) = Some h'"
      "zip_at h' T []" "rb T" "addrs T = kleft k @ addrs ?u @ kright k" "dom h' = dom ?h" by blast
    have u: "addrs ?u = addrs l @ addrs rt" using True by auto
    have fin: "rbt_free_treenode (r\<lparr>rbt_data := ?d, rbt_nodes := h'\<rparr>) a =
       Some (r\<lparr>rbt_nodes := h'(a := None), rbt_data := ?d(a := None)\<rparr>)"
      "rbt_rep (erased r ?d h' a) T" "rbt_is_vaild (erased r ?d h' a) = Some True"
      by (rule erase_finish [OF rep refl T(5,6,8)];
          use dist T(7) u srt less in \<open>auto simp: sorted_wrt_append\<close>)+
    have ptrs: "ptr l = NULL \<or> ptr rt = NULL" "(if ptr l \<noteq> NULL then ptr l else ptr rt) = ptr ?u"
      using True zip_ptr_nz [OF zl] by auto
    have "rbt_erase_node r a = Some (erased r ?d h' a)"
      using reads ptrs T(1-4) fin
      by (simp add: rbt_erase_node_def Let_def erased_def cong: bind_weak_cong)
    then show ?thesis using fin(2) less T(7) u dist
      by (intro exI [of _ "erased r ?d h' a"] exI [of _ T]) auto
  next
    case False
    then obtain m cm rm k' where m: "rbt_tree_minimum ?h (ptr rt) = Some m" "plug (Nd Lf m cm rm) k' = rt" "kleft k' = []"
      using minimum_zip [OF zr] by blast
    let ?K = "k' @ FR l a c # k"
    have zm: "zip_at ?h (Nd Lf m cm rm) ?K" using zr m(2) zip_plug by (metis plug_append)
    note mreads = zip_reads [OF zm]
    have "plug (Nd Lf m cm rm) ?K = plug (Nd l a c rt) k" using m(2) by simp
    with R have "rb (plug (Nd Lf m cm rm) ?K)" by simp
    from remove_zip [OF zm _ _ this, of rm] obtain h1 h' T where
      T: "rbt_unlink ?h m (ptr rm) = Some h1" "rbt_isblk h1 m = Some (cm = RBT_BLK)" "parent_of h1 m = Some (top ?K)"
      "(if cm = RBT_BLK then rbt_erase_node_fixup h1 (ptr rm) (top ?K) else Some h1) = Some h'"
      "zip_at h' T []" "rb T" "addrs T = kleft ?K @ addrs rm @ kright ?K" "dom h' = dom ?h" by auto
    have rt: "addrs rt = m # addrs rm @ kright k'" using m(2,3) by (metis addrs_plug addrs.simps append.simps)
    have am: "a \<noteq> m" using dist rt by auto
    obtain x where x: "?d m = Some x" using R rt by (auto simp: dom_def)
    obtain y where y: "?d a = Some y" using R by (auto simp: dom_def)
    let ?d' = "?d(a \<mapsto> x)"
    have el: "elems ?d' (addrs T) = elems ?d (kleft k @ addrs l @ addrs rt @ kright k)"
      using T(7) m(3) rt dist x by simp
    have fin: "rbt_free_treenode (r\<lparr>rbt_data := ?d', rbt_nodes := h'\<rparr>) m =
       Some (r\<lparr>rbt_nodes := h'(m := None), rbt_data := ?d'(m := None)\<rparr>)"
      "rbt_rep (erased r ?d' h' m) T" "rbt_is_vaild (erased r ?d' h' m) = Some True"
      by (rule erase_finish [OF rep _ T(5,6,8)];
          use dist T(7) m(3) rt srt less el R in \<open>auto simp: sorted_wrt_append\<close>)+
    have ptrs: "ptr l \<noteq> NULL" "ptr rt \<noteq> NULL" using False zip_ptr_nz [OF zl] zip_ptr_nz [OF zr] by auto
    have succ: "rbt_tree_successor ?h a = Some m" using m(1) ptrs reads by (simp add: rbt_tree_successor_def)
    have "rbt_erase_node r a = Some (erased r ?d' h' m)"
      using reads mreads ptrs succ T(1-4) fin am x y copy
      by (simp add: rbt_erase_node_def Let_def erased_def cong: bind_weak_cong)
    moreover have "elems (?d'(m := None)) (addrs T) = elems ?d' (addrs T)"
      using T(7) m(3) rt dist by (intro elems_clr) auto
    ultimately show ?thesis using fin(2) less el
      by (intro exI [of _ "erased r ?d' h' m"] exI [of _ T]) auto
  qed
qed


theorem erase_val_abs:
  assumes abs: "rbt_abs r xs" and less: "rbt_less r = less" and copy: "\<And>d s. type_copy (rbt_type r) d s = s"
  shows "\<exists>r'. rbt_erase_val r v = Some r' \<and> rbt_abs r' (del_list less v xs) \<and>
     rbt_less r' = less \<and> rbt_type r' = rbt_type r"
proof -
  obtain t where t: "rbt_rep r t" "elems (rbt_data r) (addrs t) = xs" "sorted_wrt less xs"
    using abs less by (auto simp: rbt_abs_def)
  have "\<exists>u k q. rbt_find_val r v = Some (ptr u, q) \<and> plug u k = t \<and> (u = Lf \<longrightarrow> q = top k) \<and>
     (\<forall>b \<in> set (kleft k). less (the (rbt_data r b)) v) \<and> (\<forall>b \<in> set (kright k). less v (the (rbt_data r b))) \<and>
     (u \<noteq> Lf \<longrightarrow> \<not> less v (the (rbt_data r (ptr u))) \<and> \<not> less (the (rbt_data r (ptr u))) v)"
    using t less by (intro find_val_zip) (auto simp: rbt_rep_def)
  then obtain u k q where f: "rbt_find_val r v = Some (ptr u, q)" "plug u k = t"
     "\<forall>b \<in> set (kleft k). less (the (rbt_data r b)) v" "\<forall>b \<in> set (kright k). less v (the (rbt_data r b))"
     "u \<noteq> Lf \<longrightarrow> \<not> less v (the (rbt_data r (ptr u))) \<and> \<not> less (the (rbt_data r (ptr u))) v" by blast
  let ?e = "elems (rbt_data r)"
  have keep: "filter (\<lambda>x. less v x \<or> less x v) (?e (kleft k)) = ?e (kleft k)"
     "filter (\<lambda>x. less v x \<or> less x v) (?e (kright k)) = ?e (kright k)"
    using f(3,4) by (auto simp: filter_id_conv elems_ball)
  show ?thesis
  proof (cases u)
    case Lf
    then have "rbt_erase_val r v = Some r" using f(1) by (simp add: rbt_erase_val_def)
    moreover have "del_list less v xs = xs"
      using t(2) f(2) Lf keep by (auto simp: del_list_def)
    ultimately show ?thesis using abs less by simp
  next
    case (Nd a b c d)
    have "b \<noteq> NULL" using t(1) f(2) Nd zip_nz [of "rbt_nodes r" t "[]"] by (auto simp: rbt_rep_def)
    then have e: "rbt_erase_val r v = rbt_erase_node r b" using f(1) Nd by (simp add: rbt_erase_val_def)
    obtain r' t' where r': "rbt_erase_node r b = Some r'" "rbt_rep r' t'" "rbt_less r' = less" "rbt_type r' = rbt_type r"
      "elems (rbt_data r') (addrs t') = ?e (kleft k @ addrs a @ addrs d @ kright k)"
      using erase_node_rep [of r a b c d k] t less f(2) Nd copy by auto
    have xs: "xs = ?e (kleft k) @ ?e (addrs a) @ the (rbt_data r b) # ?e (addrs d) @ ?e (kright k)"
      using t(2) f(2) Nd by auto
    have eq: "\<not> less v (the (rbt_data r b))" "\<not> less (the (rbt_data r b)) v" using f(5) Nd by auto
    have "\<forall>x\<in>set (?e (addrs a)). less x v" "\<forall>x\<in>set (?e (addrs d)). less v x"
      using t(3) eq xs equiv_below [OF eq] equiv_above [OF eq] by (auto simp: sorted_wrt_append)
    then have "filter (\<lambda>x. less v x \<or> less x v) (?e (addrs a)) = ?e (addrs a)"
      "filter (\<lambda>x. less v x \<or> less x v) (?e (addrs d)) = ?e (addrs d)" by (auto simp: filter_id_conv)
    then have "del_list less v xs = ?e (kleft k @ addrs a @ addrs d @ kright k)"
      using eq keep by (simp add: del_list_def xs)
    moreover have "sorted_wrt less (del_list less v xs)"
      using t(3) by (simp add: del_list_def sorted_wrt_filter)
    ultimately show ?thesis using e r' by (auto simp: rbt_abs_def)
  qed
qed

end

section \<open>Destruction frees every node\<close>

lemma free_treenode:
  assumes "a \<in> dom (rbt_nodes r)" "a \<in> dom (rbt_data r)" "a \<noteq> NULL"
  shows "rbt_free_treenode r a =
    Some (r\<lparr>rbt_nodes := (rbt_nodes r) |` (- {a}), rbt_data := (rbt_data r) |` (- {a})\<rparr>)"
  using assms by (auto simp: rbt_free_treenode_def rb_get_def restrict_complement_singleton_eq fun_upd_def[symmetric])

lemma destroy_dfs:
  assumes "tree_at (rbt_nodes r) q t" "distinct (addrs t)" "set (addrs t) \<subseteq> dom (rbt_data r)"
  shows "rbt_destroy_dfs r (ptr t) =
    Some (r\<lparr>rbt_nodes := (rbt_nodes r) |` (- set (addrs t)), rbt_data := (rbt_data r) |` (- set (addrs t))\<rparr>)"
  using assms
proof (induction t arbitrary: r q)
  case Lf
  then show ?case by (subst rbt_destroy_dfs.simps) (simp add: restrict_map_def)
next
  case (Nd l a c rt)
  let ?cut = "\<lambda>r A. r\<lparr>rbt_nodes := (rbt_nodes r) |` (- A), rbt_data := (rbt_data r) |` (- A)\<rparr>"
  let ?r1 = "?cut r (set (addrs l))" and ?r2 = "?cut r (set (addrs l) \<union> set (addrs rt))"
  have 1: "rbt_destroy_dfs r (ptr l) = Some ?r1" by (rule Nd.IH(1)) (use Nd.prems in auto)
  have "tree_at (rbt_nodes ?r1) a rt = tree_at (rbt_nodes r) a rt"
    by (rule tree_at_cong) (use Nd.prems in \<open>auto simp: restrict_map_def\<close>)
  then have "rbt_destroy_dfs ?r1 (ptr rt) = Some (?cut ?r1 (set (addrs rt)))"
    using Nd.prems by (intro Nd.IH(2)) auto
  then have 2: "rbt_destroy_dfs ?r1 (ptr rt) = Some ?r2"
    by (simp add: Int_commute)
  have 3: "rbt_free_treenode ?r2 a = Some (?cut ?r2 {a})"
    by (rule free_treenode) (use Nd.prems in auto)
  have "- insert a (set (addrs l) \<union> set (addrs rt)) = - (set (addrs l) \<union> set (addrs rt)) \<inter> - {a}" by auto
  then have eq: "?cut ?r2 {a} = ?cut r (set (addrs (Nd l a c rt)))" by simp
  have "left_of (rbt_nodes r) a = Some (ptr l)" "right_of (rbt_nodes ?r1) a = Some (ptr rt)" "a \<noteq> NULL"
    using Nd.prems by (auto simp: field_defs)
  with 1 2 3 [unfolded eq] show ?case by (subst ptr.simps, subst rbt_destroy_dfs.simps) (simp cong: bind_weak_cong)
qed

theorem destroy_rep:
  assumes "rbt_rep r t"
  shows "\<exists>r'. rbt_destroy r = Some r' \<and> dom (rbt_nodes r') = {GUARD} \<and> rbt_data r' = Map.empty"
proof -
  note R = assms [unfolded rbt_rep_def]
  have "rbt_destroy_dfs r (ptr t) =
    Some (r\<lparr>rbt_nodes := (rbt_nodes r) |` (- set (addrs t)), rbt_data := (rbt_data r) |` (- set (addrs t))\<rparr>)"
    using R by (intro destroy_dfs) (auto simp: zip_at_def)
  moreover have "rbt_data r |` (- set (addrs t)) = Map.empty"
    using R by (auto simp: restrict_map_def fun_eq_iff)
  moreover have "GUARD \<notin> set (addrs t)" using R by (auto simp: zip_at_def)
  ultimately show ?thesis using R zip_root [of "rbt_nodes r" t "[]"] by (auto simp: rbt_destroy_def)
qed

section \<open>Iteration\<close>

lemma begin_rep:
  assumes "rbt_rep r t"
  shows "rbt_begin_node r = Some (hd (addrs t @ [GUARD]))"
proof (cases t)
  case Lf
  with assms show ?thesis by (simp add: rbt_rep_def rbt_begin_node_def)
next
  case (Nd l a c rt)
  then show ?thesis using assms zip_root [of "rbt_nodes r" t "[]"] minimum_hd [of "rbt_nodes r" t "[]"]
    by (auto simp: rbt_rep_def rbt_begin_node_def hd_append)
qed

lemma iter_next_rep:
  assumes "rbt_rep r t" "addrs t = xs @ a # ys"
  shows "rbt_iter_next r a = Some (hd (ys @ [GUARD]))"
proof -
  obtain l c rt k where t: "plug (Nd l a c rt) k = t" using focus [of a t] assms(2) by auto
  then have z: "zip_at (rbt_nodes r) (Nd l a c rt) k" using assms(1) zip_plug by (auto simp: rbt_rep_def)
  have "addrs t = (kleft k @ addrs l) @ a # (addrs rt @ kright k)" using t [symmetric] by simp
  moreover have "distinct (addrs t)" using assms(1) by (simp add: rbt_rep_def zip_at_def)
  ultimately have ys: "ys = addrs rt @ kright k"
    using assms(2) by (metis append_Cons_eq_iff distinct.simps(2) distinct_append not_distinct_conv_prefix)
  have "rbt_tree_successor (rbt_nodes r) a = Some (hd (ys @ [NULL]))"
    using successor_zip [OF z] by (simp add: ys)
  moreover have "NULL \<notin> set ys" using zip_nz [OF z] ys by auto
  ultimately show ?thesis by (cases ys) (auto simp: rbt_iter_next_def)
qed

lemma iter_pre_rep:
  assumes "rbt_rep r t" "addrs t = xs @ a # ys"
  shows "rbt_iter_pre r a = Some (last (GUARD # xs))"
proof -
  obtain l c rt k where t: "plug (Nd l a c rt) k = t" using focus [of a t] assms(2) by auto
  then have z: "zip_at (rbt_nodes r) (Nd l a c rt) k" using assms(1) zip_plug by (auto simp: rbt_rep_def)
  have "addrs t = (kleft k @ addrs l) @ a # (addrs rt @ kright k)" using t [symmetric] by simp
  moreover have "distinct (addrs t)" using assms(1) by (simp add: rbt_rep_def zip_at_def)
  ultimately have xs: "xs = kleft k @ addrs l"
    using assms(2) by (metis append_Cons_eq_iff distinct.simps(2) distinct_append not_distinct_conv_prefix)
  have "rbt_tree_predecessor (rbt_nodes r) a = Some (last (NULL # xs))"
    using predecessor_zip [OF z] by (simp add: xs)
  moreover have "NULL \<notin> set xs" using zip_nz [OF z] xs by auto
  ultimately show ?thesis by (cases xs rule: rev_cases) (auto simp: rbt_iter_pre_def)
qed

text \<open>
  Stepping past the end never returns: the guard is its own left and right link, so the descent to
  the minimum or maximum of its subtree does not stop.
\<close>

lemma guard_minimum:
  assumes "h GUARD = Some (guard_node p)"
  shows "rbt_tree_minimum h GUARD = None" "rbt_tree_maximum h GUARD = None"
proof -
  have g: "left_of h GUARD = Some GUARD" "right_of h GUARD = Some GUARD" "0 < GUARD"
    using assms by (simp_all add: field_defs guard_node_def GUARD_def)
  show "rbt_tree_minimum h GUARD = None" unfolding rbt_tree_minimum_def
    by (rule while_c_diverges [where I = "\<lambda>n. n = GUARD"]) (use g in auto)
  show "rbt_tree_maximum h GUARD = None" unfolding rbt_tree_maximum_def
    by (rule while_c_diverges [where I = "\<lambda>n. n = GUARD"]) (use g in auto)
qed

lemma iter_end_diverges:
  assumes "rbt_rep r t"
  shows "rbt_iter_next r GUARD = None" "rbt_iter_pre r GUARD = None"
proof -
  have g: "rbt_nodes r GUARD = Some (guard_node (ptr t))" using assms by (simp add: rbt_rep_def zip_at_def)
  then have "left_of (rbt_nodes r) GUARD = Some GUARD" "right_of (rbt_nodes r) GUARD = Some GUARD"
    by (simp_all add: field_defs guard_node_def GUARD_def)
  with guard_minimum [of "rbt_nodes r", OF g] show "rbt_iter_next r GUARD = None" "rbt_iter_pre r GUARD = None"
    by (simp_all add: rbt_iter_next_def rbt_iter_pre_def rbt_tree_successor_def rbt_tree_predecessor_def)
qed

end
