(* ===== verification/Cbuiltin.thy ===== *)
theory Cbuiltin
  imports Ctypes
begin

text \<open>
  The C integer types of \<^verbatim>\<open>ctypes.c\<close> at their width: initialisation, copying, the comparison by
  subtraction, and reading a value from a variable argument list.
\<close>

section \<open>The callbacks the macros generate\<close>

definition cb_init :: "'a::len word \<Rightarrow> 'a word" where
  "cb_init t1 = 0"

definition cb_destroy :: "'a::len word \<Rightarrow> 'a word" where
  "cb_destroy t1 = 0"

definition cb_copy :: "'a::len word \<Rightarrow> 'a word \<Rightarrow> 'a word" where
  "cb_copy t1 t2 = t2"

text \<open>
  \<^verbatim>\<open>*(type*)t1 - *(type*)t2 < 0\<close>. Operands narrower than \<^verbatim>\<open>int\<close> are promoted, so the difference is
  exact. At 32 and 64 bits the signed difference may overflow (\<open>None\<close>), and the unsigned one wraps.
\<close>

definition less_promoted_signed :: "'a::len word \<Rightarrow> 'a word \<Rightarrow> bool" where
  "less_promoted_signed t1 t2 = (sint t1 - sint t2 < 0)"

definition less_promoted_unsigned :: "'a::len word \<Rightarrow> 'a word \<Rightarrow> bool" where
  "less_promoted_unsigned t1 t2 = (uint t1 - uint t2 < 0)"

definition less_wide_signed :: "'a::len word \<Rightarrow> 'a word \<Rightarrow> bool option" where
  "less_wide_signed t1 t2 = (let d = sint t1 - sint t2 in
     if - (2 ^ (LENGTH('a) - 1)) \<le> d \<and> d < 2 ^ (LENGTH('a) - 1) then Some (d < 0) else None)"

definition less_wide_unsigned :: "'a::len word \<Rightarrow> 'a word \<Rightarrow> bool" where
  "less_wide_unsigned t1 t2 = (uint (t1 - t2) < 0)"

section \<open>The type records of the types whose comparison is total\<close>

definition int8_type :: "8 word tfuncs" where
  "int8_type = \<lparr>tf_copy = Some cb_copy, tf_less = Some less_promoted_signed, tf_init = Some cb_init, tf_destroy = None\<rparr>"

definition uint8_type :: "8 word tfuncs" where
  "uint8_type = \<lparr>tf_copy = Some cb_copy, tf_less = Some less_promoted_unsigned, tf_init = Some cb_init, tf_destroy = None\<rparr>"

definition int16_type :: "16 word tfuncs" where
  "int16_type = \<lparr>tf_copy = Some cb_copy, tf_less = Some less_promoted_signed, tf_init = Some cb_init, tf_destroy = None\<rparr>"

definition uint16_type :: "16 word tfuncs" where
  "uint16_type = \<lparr>tf_copy = Some cb_copy, tf_less = Some less_promoted_unsigned, tf_init = Some cb_init, tf_destroy = None\<rparr>"

definition uint32_type :: "32 word tfuncs" where
  "uint32_type = \<lparr>tf_copy = Some cb_copy, tf_less = Some less_wide_unsigned, tf_init = Some cb_init, tf_destroy = None\<rparr>"

definition uint64_type :: "64 word tfuncs" where
  "uint64_type = \<lparr>tf_copy = Some cb_copy, tf_less = Some less_wide_unsigned, tf_init = Some cb_init, tf_destroy = None\<rparr>"

lemmas cb_type_defs = int8_type_def uint8_type_def int16_type_def uint16_type_def uint32_type_def uint64_type_def

section \<open>Values from a variable argument list\<close>

text \<open>The argument has the promoted type, the destination its own width.\<close>

definition varg_int8 :: "32 word \<Rightarrow> 8 word" where "varg_int8 arg = ucast arg"
definition varg_int16 :: "32 word \<Rightarrow> 16 word" where "varg_int16 arg = ucast arg"
definition varg_int32 :: "32 word \<Rightarrow> 32 word" where "varg_int32 arg = arg"
definition varg_int64 :: "64 word \<Rightarrow> 64 word" where "varg_int64 arg = arg"
definition varg_uint8 :: "32 word \<Rightarrow> 8 word" where "varg_uint8 arg = ucast arg"
definition varg_uint16 :: "32 word \<Rightarrow> 16 word" where "varg_uint16 arg = ucast arg"
definition varg_uint32 :: "32 word \<Rightarrow> 32 word" where "varg_uint32 arg = arg"
definition varg_uint64 :: "64 word \<Rightarrow> 64 word" where "varg_uint64 arg = arg"

text \<open>Passing a value of the element type, promoted, and reading it back is the identity.\<close>

lemma varg_signed_roundtrip:
  "varg_int8 (scast (x :: 8 word)) = x" "varg_int16 (scast (y :: 16 word)) = y"
  unfolding varg_int8_def varg_int16_def by (rule bit_word_eqI; simp add: bit_simps)+

lemma varg_unsigned_roundtrip:
  "varg_uint8 (ucast (x :: 8 word)) = x" "varg_uint16 (ucast (y :: 16 word)) = y"
  unfolding varg_uint8_def varg_uint16_def by (rule bit_word_eqI; simp add: bit_simps)+

section \<open>Which comparisons are orders\<close>

lemma promoted_signed_iff: "less_promoted_signed a b \<longleftrightarrow> sint a < sint b"
  by (simp add: less_promoted_signed_def)

lemma promoted_unsigned_iff: "less_promoted_unsigned a b \<longleftrightarrow> uint a < uint b"
  by (simp add: less_promoted_unsigned_def)

lemma wide_unsigned_never: "\<not> less_wide_unsigned a b"
  by (simp add: less_wide_unsigned_def)

lemma wide_signed_ok:
  assumes "less_wide_signed a b = Some r"
  shows "r = (sint a < sint b)"
  using assms by (auto simp: less_wide_signed_def Let_def split: if_splits)

interpretation int8: elem_type int8_type by unfold_locales (simp add: int8_type_def type_copy_def cb_copy_def)
interpretation uint8: elem_type uint8_type by unfold_locales (simp add: uint8_type_def type_copy_def cb_copy_def)
interpretation int16: elem_type int16_type by unfold_locales (simp add: int16_type_def type_copy_def cb_copy_def)
interpretation uint16: elem_type uint16_type by unfold_locales (simp add: uint16_type_def type_copy_def cb_copy_def)
interpretation uint32: elem_type uint32_type by unfold_locales (simp add: uint32_type_def type_copy_def cb_copy_def)
interpretation uint64: elem_type uint64_type by unfold_locales (simp add: uint64_type_def type_copy_def cb_copy_def)

interpretation promoted_signed: weak_order less_promoted_signed
  by unfold_locales (auto simp: promoted_signed_iff)

interpretation promoted_unsigned: weak_order less_promoted_unsigned
  by unfold_locales (auto simp: promoted_unsigned_iff)

interpretation wide_unsigned: weak_order less_wide_unsigned
  by unfold_locales (auto simp: wide_unsigned_never)

end
