(* ===== verification/RbtreeSpec.thy ===== *)
theory RbtreeSpec
  imports RbtreeErase Cbuiltin
begin

text \<open>
  What \<^verbatim>\<open>ohstl/rbtree.c\<close> promises: its operations refine the operations on the sorted sequence of the
  elements, keep the red-black invariants, and never get stuck.
\<close>

section \<open>Initialisation\<close>

lemma rbt_init_abs:
  assumes "tf_less tp = Some lt"
  shows "\<exists>r. rbt_init tp kl True b Map.empty Map.empty = Some r \<and> rbt_abs r [] \<and> rbt_less r = lt \<and> rbt_type r = tp"
  using assms
  by (auto simp: rbt_init_def rbt_abs_def rbt_rep_def zip_at_def rb_def guard_node_def intro!: exI [of _ Lf])

text \<open>Small trees of 16-bit integers.\<close>

definition rb_empty16 :: "16 word rbtree" where
  "rb_empty16 = \<lparr>rbt_nodes = [GUARD \<mapsto> guard_node NULL], rbt_data = Map.empty, rbt_size = 0,
     rbt_is_multi = False, rbt_less = less_promoted_signed, rbt_type = int16_type\<rparr>"

definition rb_two16 :: "16 word rbtree" where
  "rb_two16 = \<lparr>rbt_nodes = [GUARD \<mapsto> guard_node 2,
       2 \<mapsto> \<lparr>rb_left = NULL, rb_right = 3, rb_parent = NULL, rb_color = RBT_BLK\<rparr>,
       3 \<mapsto> \<lparr>rb_left = NULL, rb_right = NULL, rb_parent = 2, rb_color = RBT_RED\<rparr>],
     rbt_data = [2 \<mapsto> 5, 3 \<mapsto> 9], rbt_size = 2,
     rbt_is_multi = False, rbt_less = less_promoted_signed, rbt_type = int16_type\<rparr>"

lemma rb_two16_rep: "rbt_rep rb_two16 (Nd Lf 2 RBT_BLK (Nd Lf 3 RBT_RED Lf))"
  by (auto simp: rbt_rep_def rb_two16_def zip_at_def rb_def guard_node_def GUARD_def)

lemma rb_two16_abs: "rbt_abs rb_two16 [5, 9]"
proof -
  have "elems (rbt_data rb_two16) (addrs (Nd Lf 2 RBT_BLK (Nd Lf 3 RBT_RED Lf))) = [5, 9]"
    by (simp add: rb_two16_def)
  moreover have "sorted_wrt (rbt_less rb_two16) [5, 9]"
    by (simp add: rb_two16_def promoted_signed_iff)
  ultimately show ?thesis using rb_two16_rep unfolding rbt_abs_def by blast
qed

lemma rb_two16_sel [simp]:
  "rbt_less rb_two16 = less_promoted_signed" "rbt_type rb_two16 = int16_type"
  "dom (rbt_nodes rb_two16) = {1, 2, 3}"
  by (auto simp: rb_two16_def GUARD_def)

lemma weak16 [simp]: "weak_order (less_promoted_signed :: 16 word \<Rightarrow> _)"
  by (rule promoted_signed.weak_order_axioms)

lemma elem16 [simp]: "elem_type int16_type"
  by (rule int16.elem_type_axioms)

section \<open>Insertion\<close>

text \<open>C2: on a well-formed tree with a fresh node from the allocator, \<^verbatim>\<open>_rbt_insert_val\<close> returns, never
  dereferences a bad link, passes its self-check, and its new contents are the insertion into the
  sorted sequence (an equivalent element is overwritten); the returned node holds the element.\<close>

theorem rbt_insert_refines:
  assumes "weak_order (rbt_less r)" "elem_type (rbt_type r)" "rbt_abs r xs" "p \<noteq> NULL" "p \<notin> dom (rbt_nodes r)"
  shows "\<exists>r' node. rbt_insert_val r v p m = Some (r', node) \<and> rbt_abs r' (ins_list (rbt_less r) v xs) \<and>
     rbt_data r' node = Some v \<and> rbt_less r' = rbt_less r \<and> rbt_type r' = rbt_type r"
  using weak_order.insert_val_abs [OF assms(1,3) refl elem_type.copies [OF assms(2)] assms(4,5)] .

theorem rbt_insert_refines_witness:
  "\<exists>r' node. rbt_insert_val rb_two16 7 4 0 = Some (r', node) \<and> rbt_abs r' [5, 7, 9]"
  using rbt_insert_refines [of rb_two16 "[5, 9]" 4 7 0] rb_two16_abs by (auto simp: promoted_signed_iff)

section \<open>Erasure\<close>

text \<open>C3: \<^verbatim>\<open>_rbt_erase_val\<close> returns on every well-formed tree, and its new contents are the old ones
  without the elements equivalent to the argument.\<close>

theorem rbt_erase_refines:
  assumes "weak_order (rbt_less r)" "elem_type (rbt_type r)" "rbt_abs r xs"
  shows "\<exists>r'. rbt_erase_val r v = Some r' \<and> rbt_abs r' (del_list (rbt_less r) v xs) \<and>
     rbt_less r' = rbt_less r \<and> rbt_type r' = rbt_type r"
  using weak_order.erase_val_abs [OF assms(1,3) refl elem_type.copies [OF assms(2)]] .

theorem rbt_erase_refines_witness:
  "\<exists>r'. rbt_erase_val rb_two16 5 = Some r' \<and> rbt_abs r' [9]"
  using rbt_erase_refines [of rb_two16 "[5, 9]" 5] rb_two16_abs by (auto simp: promoted_signed_iff del_list_def)

section \<open>Search\<close>

lemma find_val_spec:
  assumes wo: "weak_order (rbt_less r)" and abs: "rbt_abs r xs"
  shows "\<exists>n q. rbt_find_val r v = Some (n, q) \<and>
    (n = NULL \<longrightarrow> (\<forall>x\<in>set xs. rbt_less r x v \<or> rbt_less r v x)) \<and>
    (n \<noteq> NULL \<longrightarrow> (\<exists>x\<in>set xs. rbt_data r n = Some x \<and> \<not> rbt_less r x v \<and> \<not> rbt_less r v x))"
proof -
  obtain t where t: "rbt_rep r t" "elems (rbt_data r) (addrs t) = xs" "sorted_wrt (rbt_less r) xs"
    using abs by (auto simp: rbt_abs_def)
  note R = t(1) [unfolded rbt_rep_def]
  from weak_order.find_val_zip [OF wo, of r t v] t R obtain u k q where
    f: "rbt_find_val r v = Some (ptr u, q)" "plug u k = t"
     "\<forall>b \<in> set (kleft k). rbt_less r (the (rbt_data r b)) v" "\<forall>b \<in> set (kright k). rbt_less r v (the (rbt_data r b))"
     "u \<noteq> Lf \<longrightarrow> \<not> rbt_less r v (the (rbt_data r (ptr u))) \<and> \<not> rbt_less r (the (rbt_data r (ptr u))) v" by auto
  show ?thesis
  proof (cases u)
    case Lf
    have "\<forall>x\<in>set xs. rbt_less r x v \<or> rbt_less r v x"
      using f(3,4) t(2) Lf by (auto simp: f(2) [symmetric] elems_def)
    with f(1) Lf show ?thesis by simp
  next
    case (Nd a b c d)
    have b: "b \<in> set (addrs t)" using f(2) [symmetric] Nd by simp
    then have "b \<in> dom (rbt_data r)" "b \<noteq> NULL" using R zip_nz [of "rbt_nodes r" t "[]"] by auto
    moreover have "the (rbt_data r b) \<in> set xs" using b t(2) by (auto simp: elems_def)
    ultimately show ?thesis using f(1,5) Nd by auto
  qed
qed

text \<open>C24: \<^verbatim>\<open>_rbt_find_val\<close> terminates and finds a node exactly when the tree holds an equivalent
  element; the node then holds such an element.\<close>

theorem rbt_find_correct:
  assumes "weak_order (rbt_less r)" "rbt_abs r xs"
  shows "\<exists>n q. rbt_find_val r v = Some (n, q) \<and>
    (n \<noteq> NULL \<longleftrightarrow> (\<exists>x\<in>set xs. \<not> rbt_less r x v \<and> \<not> rbt_less r v x)) \<and>
    (n \<noteq> NULL \<longrightarrow> (\<exists>x\<in>set xs. rbt_data r n = Some x \<and> \<not> rbt_less r x v \<and> \<not> rbt_less r v x))"
  using find_val_spec [OF assms, of v] by blast

theorem rbt_find_correct_witness: "\<exists>n q. rbt_find_val rb_two16 9 = Some (n, q) \<and> n \<noteq> NULL"
  using rbt_find_correct [of rb_two16 "[5, 9]" 9] rb_two16_abs by (auto simp: promoted_signed_iff)

section \<open>The self-check\<close>

text \<open>C25: on any linked tree whose nodes all hold data, \<^verbatim>\<open>_rbt_is_vaild\<close> returns true exactly when no
  red node has a red child, all paths have the same black height, the root is black and every node is
  ordered against its children.\<close>

theorem rbt_is_vaild_correct:
  assumes "zip_at (rbt_nodes r) t []" "set (addrs t) \<subseteq> dom (rbt_data r)"
  shows "rbt_is_vaild r = Some (invc t \<and> invh t \<and> col t = RBT_BLK \<and> local_order (rbt_less r) (rbt_data r) t)"
  using is_vaild_rep [OF assms] by (simp add: rb_def)

theorem rbt_is_vaild_correct_witness: "rbt_is_vaild rb_two16 = Some True"
  using rbt_is_vaild_correct [of rb_two16 "Nd Lf 2 RBT_BLK (Nd Lf 3 RBT_RED Lf)"] rb_two16_rep
  by (simp add: rbt_rep_def rb_two16_def promoted_signed_iff)

section \<open>Destruction and iteration\<close>

text \<open>C26: \<^verbatim>\<open>_rbt_destroy\<close> visits and frees every node once: only the embedded guard stays allocated.\<close>

theorem rbt_destroy_frees_all:
  assumes "rbt_abs r xs"
  shows "\<exists>r'. rbt_destroy r = Some r' \<and> dom (rbt_nodes r') = {GUARD} \<and> rbt_data r' = Map.empty"
  using assms destroy_rep by (auto simp: rbt_abs_def)

theorem rbt_destroy_frees_all_witness: "\<exists>r'. rbt_destroy rb_two16 = Some r' \<and> rbt_data r' = Map.empty"
  using rbt_destroy_frees_all [OF rb_two16_abs] by auto

text \<open>From the node of the i-th element, \<^verbatim>\<open>_rbt_iter_next\<close> reaches the node of the next one, and the
  end iterator after the last.\<close>

theorem rbt_iter_next_correct:
  assumes "rbt_rep r t" "i < length (addrs t)"
  shows "rbt_iter_next r (addrs t ! i) = Some ((addrs t @ [GUARD]) ! Suc i)"
proof -
  have "addrs t = take i (addrs t) @ addrs t ! i # drop (Suc i) (addrs t)" by (rule id_take_nth_drop [OF assms(2)])
  from iter_next_rep [OF assms(1) this] show ?thesis
    using assms(2) by (cases "Suc i < length (addrs t)") (auto simp: hd_append hd_drop_conv_nth nth_append)
qed

theorem rbt_iter_next_correct_witness: "rbt_iter_next rb_two16 2 = Some 3"
  using rbt_iter_next_correct [OF rb_two16_rep, of 0] by simp

text \<open>The code's decrement of the end iterator (and the increment past the end) never returns.\<close>

theorem rbt_iter_end_diverges:
  assumes "rbt_abs r xs"
  shows "rbt_iter_pre r GUARD = None \<and> rbt_iter_next r GUARD = None"
  using assms iter_end_diverges by (auto simp: rbt_abs_def)

theorem rbt_iter_end_diverges_witness: "rbt_iter_pre rb_two16 GUARD = None"
  using rbt_iter_end_diverges [OF rb_two16_abs] by simp

end
