(* ===== verification/OrderedTree.thy ===== *)
theory OrderedTree
  imports RbtreeSpec
begin

text \<open>
  The contract between the ordered containers and the red-black tree they embed: the tree stores a
  sequence sorted by the comparison it was initialised with.
\<close>

section \<open>Sorted sequences\<close>

definition equiv_by :: "('a \<Rightarrow> 'a \<Rightarrow> bool) \<Rightarrow> 'a \<Rightarrow> 'a \<Rightarrow> bool" where
  "equiv_by lt x y \<longleftrightarrow> \<not> lt x y \<and> \<not> lt y x"

definition holds_equiv :: "('a \<Rightarrow> 'a \<Rightarrow> bool) \<Rightarrow> 'a list \<Rightarrow> 'a \<Rightarrow> bool" where
  "holds_equiv lt xs v \<longleftrightarrow> (\<exists>x\<in>set xs. equiv_by lt x v)"

lemma holds_equiv_simps [simp]:
  "\<not> holds_equiv lt [] v" "holds_equiv lt (x # xs) v \<longleftrightarrow> equiv_by lt x v \<or> holds_equiv lt xs v"
  by (auto simp: holds_equiv_def)

context weak_order
begin

lemma equiv_refl: "equiv_by less x x"
  by (simp add: equiv_by_def irrefl)

lemma equiv_sym: "equiv_by less x y \<Longrightarrow> equiv_by less y x"
  by (simp add: equiv_by_def)

lemma equiv_trans: "equiv_by less x y \<Longrightarrow> equiv_by less y z \<Longrightarrow> equiv_by less x z"
  unfolding equiv_by_def using negtrans by blast

lemma equiv_cong: "equiv_by less v x \<Longrightarrow> equiv_by less x w \<longleftrightarrow> equiv_by less v w"
  by (meson equiv_sym equiv_trans)

lemma holds_ins: "holds_equiv less (ins_list less v xs) w \<longleftrightarrow> equiv_by less v w \<or> holds_equiv less xs w"
proof (induction xs)
  case (Cons x xs)
  show ?case
  proof (cases "less v x \<or> less x v")
    case True
    with Cons show ?thesis by auto
  next
    case False
    then have "equiv_by less x w \<longleftrightarrow> equiv_by less v w" by (intro equiv_cong) (simp add: equiv_by_def)
    with False show ?thesis by simp
  qed
qed simp

lemma holds_del: "holds_equiv less (del_list less v xs) w \<longleftrightarrow> \<not> equiv_by less v w \<and> holds_equiv less xs w"
proof -
  have "less v x \<or> less x v \<longleftrightarrow> \<not> equiv_by less v w" if "equiv_by less x w" for x
  proof -
    have "less v x \<or> less x v \<longleftrightarrow> \<not> equiv_by less x v" by (auto simp: equiv_by_def)
    also have "equiv_by less x v \<longleftrightarrow> equiv_by less w v" using equiv_cong [OF equiv_sym [OF that]] .
    also have "equiv_by less w v \<longleftrightarrow> equiv_by less v w" by (auto simp: equiv_by_def)
    finally show ?thesis .
  qed
  then show ?thesis unfolding holds_equiv_def del_list_def by auto
qed

lemma length_ins:
  assumes "sorted_wrt less xs"
  shows "length (ins_list less v xs) = length xs + (if holds_equiv less xs v then 0 else 1)"
  using assms
proof (induction xs)
  case (Cons x xs)
  have n: "\<not> holds_equiv less xs v" if "less v x"
  proof -
    have "less v y" if "y \<in> set xs" for y using Cons.prems that \<open>less v x\<close> trans [of v x y] by simp
    then show ?thesis by (auto simp: holds_equiv_def equiv_by_def)
  qed
  consider "less v x" "\<not> less x v" | "\<not> less v x" "less x v" | "\<not> less v x" "\<not> less x v" using asym [of v x] by blast
  then show ?case by cases (use n Cons in \<open>simp_all add: equiv_by_def\<close>)
qed simp

text \<open>Over a total order the sequence is a set, and the operations are those of sets.\<close>

lemma set_ins:
  assumes "\<And>x y. equiv_by less x y \<Longrightarrow> x = y"
  shows "set (ins_list less v xs) = insert v (set xs)"
  by (induction xs) (use assms in \<open>auto simp: equiv_by_def\<close>)

lemma set_del:
  assumes "\<And>x y. equiv_by less x y \<Longrightarrow> x = y"
  shows "set (del_list less v xs) = set xs - {v}"
  using assms irrefl by (auto simp: del_list_def equiv_by_def)

lemma sorted_distinct: "sorted_wrt less xs \<Longrightarrow> distinct xs"
  by (induction xs) (auto simp: irrefl)

end

section \<open>The interface\<close>

locale ordered_tree = weak_order lt for lt :: "'a \<Rightarrow> 'a \<Rightarrow> bool" +
  fixes tabs :: "'t \<Rightarrow> 'a list \<Rightarrow> bool"
    and ins :: "'t \<Rightarrow> 'a \<Rightarrow> addr \<Rightarrow> 'a \<Rightarrow> ('t \<times> addr) option"
    and del :: "'t \<Rightarrow> 'a \<Rightarrow> 't option"
    and fnd :: "'t \<Rightarrow> 'a \<Rightarrow> addr option"
    and dat :: "'t \<Rightarrow> addr \<Rightarrow> 'a option"
    and room :: "'t \<Rightarrow> addr \<Rightarrow> bool"
  assumes tabs_sorted: "tabs t xs \<Longrightarrow> sorted_wrt lt xs"
    and ins_ok: "tabs t xs \<Longrightarrow> room t p \<Longrightarrow>
      \<exists>t' a. ins t v p m = Some (t', a) \<and> tabs t' (ins_list lt v xs) \<and> a \<noteq> NULL \<and> dat t' a = Some v"
    and del_ok: "tabs t xs \<Longrightarrow> \<exists>t'. del t v = Some t' \<and> tabs t' (del_list lt v xs)"
    and fnd_ok: "tabs t xs \<Longrightarrow> \<exists>a. fnd t v = Some a \<and> (a = NULL \<longrightarrow> \<not> holds_equiv lt xs v) \<and>
      (a \<noteq> NULL \<longrightarrow> (\<exists>x\<in>set xs. dat t a = Some x \<and> equiv_by lt x v))"
begin

lemma fnd_iff:
  assumes "tabs t xs" "fnd t v = Some a"
  shows "a \<noteq> NULL \<longleftrightarrow> holds_equiv lt xs v"
  using fnd_ok [OF assms(1), of v] assms(2) by (auto simp: holds_equiv_def)

lemma ins_then_fnd:
  assumes "tabs t xs" "room t p" "ins t v p m = Some (t', a)"
  shows "\<exists>b. fnd t' w = Some b \<and> (b \<noteq> NULL \<longleftrightarrow> equiv_by lt v w \<or> holds_equiv lt xs w)"
proof -
  have t': "tabs t' (ins_list lt v xs)" using ins_ok [OF assms(1,2), of v m] assms(3) by simp
  from fnd_ok [OF this, of w] obtain b where "fnd t' w = Some b" by blast
  with fnd_iff [OF t' this] holds_ins [of v xs w] show ?thesis by auto
qed

lemma del_then_fnd:
  assumes "tabs t xs" "del t v = Some t'"
  shows "\<exists>b. fnd t' w = Some b \<and> (b \<noteq> NULL \<longleftrightarrow> \<not> equiv_by lt v w \<and> holds_equiv lt xs w)"
proof -
  have t': "tabs t' (del_list lt v xs)" using del_ok [OF assms(1), of v] assms(2) by simp
  from fnd_ok [OF this, of w] obtain b where "fnd t' w = Some b" by blast
  with fnd_iff [OF t' this] holds_del [of v xs w] show ?thesis by auto
qed

text \<open>Over a total order the node found holds the element itself.\<close>

lemma fnd_total:
  assumes tot: "\<And>x y. equiv_by lt x y \<Longrightarrow> x = y" and "tabs t xs"
  shows "\<exists>a. fnd t v = Some a \<and> (a \<noteq> NULL \<longleftrightarrow> v \<in> set xs) \<and> (a \<noteq> NULL \<longrightarrow> dat t a = Some v)"
proof -
  obtain a where a: "fnd t v = Some a" "a = NULL \<Longrightarrow> \<not> holds_equiv lt xs v"
      "a \<noteq> NULL \<Longrightarrow> \<exists>x\<in>set xs. dat t a = Some x \<and> equiv_by lt x v" using fnd_ok [OF assms(2), of v] by blast
  have "v \<in> set xs \<Longrightarrow> holds_equiv lt xs v" using equiv_refl [of v] by (auto simp: holds_equiv_def)
  then show ?thesis using a tot by (cases "a = NULL") (auto dest: tot)
qed

end

section \<open>The red-black tree keeps the contract\<close>

definition rbt_tabs :: "('a \<Rightarrow> 'a \<Rightarrow> bool) \<Rightarrow> 'a tfuncs \<Rightarrow> 'a rbtree \<Rightarrow> 'a list \<Rightarrow> bool" where
  "rbt_tabs lt tp r xs \<longleftrightarrow> rbt_abs r xs \<and> rbt_less r = lt \<and> rbt_type r = tp"

definition rbt_room :: "'a rbtree \<Rightarrow> addr \<Rightarrow> bool" where
  "rbt_room r p \<longleftrightarrow> p \<noteq> NULL \<and> p \<notin> dom (rbt_nodes r)"

definition rbt_lookup :: "'a rbtree \<Rightarrow> 'a \<Rightarrow> addr option" where
  "rbt_lookup r v = map_option fst (rbt_find_val r v)"

lemma tabs_size: "rbt_tabs lt tp r xs \<Longrightarrow> rbt_size r = length xs"
  by (auto simp: rbt_tabs_def rbt_abs_def rbt_rep_def elems_def)

lemma rbt_lookup_find: "rbt_lookup r v = Some a \<Longrightarrow> \<exists>q. rbt_find_val r v = Some (a, q)"
  by (auto simp: rbt_lookup_def)

lemma tabs_clear:
  assumes "rbt_tabs lt tp r xs" "(if cv then tf_less tp else Some kl) = Some lt"
  shows "\<exists>r0 r'. rbt_destroy r = Some r0 \<and> rbt_init tp kl cv b (rbt_nodes r0) (rbt_data r0) = Some r' \<and> rbt_tabs lt tp r' []"
proof -
  obtain t where "rbt_rep r t" using assms(1) by (auto simp: rbt_tabs_def rbt_abs_def)
  from destroy_rep [OF this] obtain r0 where
    r0: "rbt_destroy r = Some r0" "dom (rbt_nodes r0) = {GUARD}" "rbt_data r0 = Map.empty" by blast
  then show ?thesis using assms(2)
    by (auto simp: rbt_init_def rbt_tabs_def rbt_abs_def rbt_rep_def zip_at_def rb_def guard_node_def intro!: exI [of _ Lf])
qed

lemma tabs_init:
  assumes "(if cv then tf_less tp else Some kl) = Some lt"
  shows "\<exists>r. rbt_init tp kl cv b Map.empty Map.empty = Some r \<and> rbt_tabs lt tp r []"
  using assms by (auto simp: rbt_init_def rbt_tabs_def rbt_abs_def rbt_rep_def zip_at_def rb_def guard_node_def intro!: exI [of _ Lf])

lemma data_not_null: "rbt_abs r xs \<Longrightarrow> rbt_data r a = Some v \<Longrightarrow> a \<noteq> NULL"
  using zip_nz [of "rbt_nodes r" _ "[]"] by (fastforce simp: rbt_abs_def rbt_rep_def)

locale rb_elems = weak_order lt + elem_type tp for lt :: "'a \<Rightarrow> 'a \<Rightarrow> bool" and tp :: "'a tfuncs"

sublocale rb_elems \<subseteq> rbt: ordered_tree lt "rbt_tabs lt tp" rbt_insert_val rbt_erase_val rbt_lookup rbt_data rbt_room
proof
  fix t xs v p m
  assume T: "rbt_tabs lt tp t xs"
  note abs = T [unfolded rbt_tabs_def]
  show "sorted_wrt lt xs" using abs by (auto simp: rbt_abs_def)
  show "\<exists>t'. rbt_erase_val t v = Some t' \<and> rbt_tabs lt tp t' (del_list lt v xs)"
    using erase_val_abs [of t xs v] abs copies by (auto simp: rbt_tabs_def)
  have wo: "weak_order (rbt_less t)" using abs weak_order_axioms by simp
  from find_val_spec [OF wo, of xs v] abs obtain n q where "rbt_find_val t v = Some (n, q)"
    "n = NULL \<longrightarrow> (\<forall>x\<in>set xs. lt x v \<or> lt v x)"
    "n \<noteq> NULL \<longrightarrow> (\<exists>x\<in>set xs. rbt_data t n = Some x \<and> \<not> lt x v \<and> \<not> lt v x)" by auto
  then show "\<exists>a. rbt_lookup t v = Some a \<and> (a = NULL \<longrightarrow> \<not> holds_equiv lt xs v) \<and>
      (a \<noteq> NULL \<longrightarrow> (\<exists>x\<in>set xs. rbt_data t a = Some x \<and> equiv_by lt x v))"
    by (auto simp: rbt_lookup_def holds_equiv_def equiv_by_def)
  assume R: "rbt_room t p"
  obtain t' a where "rbt_insert_val t v p m = Some (t', a)" "rbt_tabs lt tp t' (ins_list lt v xs)" "rbt_data t' a = Some v"
    using insert_val_abs [of t xs p v m] abs copies R by (auto simp: rbt_tabs_def rbt_room_def)
  moreover from this have "a \<noteq> NULL" using data_not_null [of t'] unfolding rbt_tabs_def by blast
  ultimately show "\<exists>t' a. rbt_insert_val t v p m = Some (t', a) \<and> rbt_tabs lt tp t' (ins_list lt v xs) \<and> a \<noteq> NULL \<and> rbt_data t' a = Some v"
    by blast
qed

context rb_elems
begin

lemma tree: "ordered_tree lt (rbt_tabs lt tp) rbt_insert_val rbt_erase_val rbt_lookup rbt_data rbt_room"
  by (rule rbt.ordered_tree_axioms)

end

text \<open>Erasing the node at an address removes its element, whatever is equivalent to it.\<close>

lemma erase_node_abs:
  assumes rb: "rb_elems lt tp" and T: "rbt_tabs lt tp r xs" and a: "rbt_data r a = Some v"
  shows "\<exists>r' ys zs. rbt_erase_node r a = Some r' \<and> xs = ys @ v # zs \<and> rbt_tabs lt tp r' (ys @ zs)"
proof -
  obtain t where t: "rbt_rep r t" "elems (rbt_data r) (addrs t) = xs" "sorted_wrt lt xs"
    and R: "rbt_less r = lt" "rbt_type r = tp" using T by (auto simp: rbt_tabs_def rbt_abs_def)
  have "a \<in> set (addrs t)" using t(1) a by (auto simp: rbt_rep_def)
  then obtain l c rt k where k: "plug (Nd l a c rt) k = t" using focus by metis
  have wo: "weak_order lt" and copies: "\<And>d s. type_copy tp d s = s"
    using rb elem_type.copies unfolding rb_elems_def by auto
  let ?e = "elems (rbt_data r)"
  obtain r' t' where r': "rbt_erase_node r a = Some r'" "rbt_rep r' t'" "rbt_less r' = lt" "rbt_type r' = tp"
      "elems (rbt_data r') (addrs t') = ?e (kleft k @ addrs l @ addrs rt @ kright k)"
    using weak_order.erase_node_rep [OF wo, of r l a c rt k] t R k copies by auto
  let ?ys = "?e (kleft k @ addrs l)" and ?zs = "?e (addrs rt @ kright k)"
  have xs: "xs = ?ys @ v # ?zs" using t(2) a by (simp add: k [symmetric] elems_def)
  have "elems (rbt_data r') (addrs t') = ?ys @ ?zs" using r'(5) by (simp add: elems_def)
  moreover have "sorted_wrt lt (?ys @ ?zs)" using t(3) unfolding xs by (simp add: sorted_wrt_append)
  ultimately have "rbt_tabs lt tp r' (?ys @ ?zs)" using r' by (auto simp: rbt_tabs_def rbt_abs_def)
  with r'(1) xs show ?thesis by blast
qed

interpretation int16_tree: rb_elems less_promoted_signed int16_type by unfold_locales
interpretation uint16_tree: rb_elems less_promoted_unsigned uint16_type by unfold_locales
interpretation uint32_tree: rb_elems less_wide_unsigned uint32_type by unfold_locales

lemma promoted_total:
  "equiv_by less_promoted_signed x y \<Longrightarrow> x = y" "equiv_by less_promoted_unsigned x y \<Longrightarrow> x = y"
proof -
  assume "equiv_by less_promoted_signed x y"
  then have "sint x = sint y" by (simp add: equiv_by_def promoted_signed_iff)
  then show "x = y" by (rule signed_word_eqI)
next
  assume "equiv_by less_promoted_unsigned x y"
  then have "uint x = uint y" by (simp add: equiv_by_def promoted_unsigned_iff)
  then show "x = y" by (simp add: word_uint_eq_iff)
qed

section \<open>Types with a total order\<close>

definition total_type :: "'a tfuncs \<Rightarrow> bool" where
  "total_type tp \<longleftrightarrow> rb_elems (type_less tp) tp \<and> tf_less tp = Some (type_less tp) \<and>
     (\<forall>x y. equiv_by (type_less tp) x y \<longrightarrow> x = y)"

lemma int16_total: "total_type int16_type"
proof -
  have "type_less int16_type = less_promoted_signed" by (simp add: int16_type_def type_less_def fun_eq_iff)
  then show ?thesis using int16_tree.rb_elems_axioms promoted_total(1) by (auto simp: total_type_def int16_type_def)
qed

end
