(* ===== verification/Citerator.thy ===== *)
theory Citerator
  imports Ctypes
begin

text \<open>
  The iterator layer of \<^verbatim>\<open>ohstl/citerator.c\<close>: an iterator is a position and a container, and every
  function checks the iterator and calls through the container's table of functions. A missing entry of
  the table fails the assertion that guards the call.
\<close>

section \<open>Iterators and their function tables\<close>

record ('c, 'p, 'a) iterator_if =
  if_next :: "('c \<Rightarrow> 'p \<Rightarrow> 'p option) option"
  if_pre :: "('c \<Rightarrow> 'p \<Rightarrow> 'p option) option"
  if_next_n :: "('c \<Rightarrow> 'p \<Rightarrow> int \<Rightarrow> 'p option) option"
  if_pre_n :: "('c \<Rightarrow> 'p \<Rightarrow> int \<Rightarrow> 'p option) option"
  if_equal :: "('c \<Rightarrow> 'p \<Rightarrow> 'p \<Rightarrow> bool option) option"
  if_distance :: "('c \<Rightarrow> 'p \<Rightarrow> 'p \<Rightarrow> int option) option"
  if_get_pointer :: "('c \<Rightarrow> 'p \<Rightarrow> 'p option) option"
  if_get_value :: "('c \<Rightarrow> 'p \<Rightarrow> 'a \<Rightarrow> 'a option) option"
  if_set_value :: "('c \<Rightarrow> 'p \<Rightarrow> 'a \<Rightarrow> 'c option) option"
  if_is_vaild :: "(nat \<Rightarrow> 'c \<Rightarrow> 'p \<Rightarrow> bool) option"

text \<open>The containers live in a store by their address; \<open>cb_type_id\<close> is the type at the root of their type tree.\<close>

record ('c, 'p, 'a) container_base =
  cb_type_id :: nat
  cb_iter_if :: "('c, 'p, 'a) iterator_if option"
  cb_self :: 'c

record 'p iterator =
  it_pos :: 'p
  it_container :: addr

type_synonym ('c, 'p, 'a) containers = "addr \<rightharpoonup> ('c, 'p, 'a) container_base"

definition TYPEID_FNBUILTIN_START :: nat where "TYPEID_FNBUILTIN_START = 11"
definition TYPEID_FNBUILTIN_END :: nat where "TYPEID_FNBUILTIN_END = 17"

definition container_of :: "('c, 'p, 'a) containers \<Rightarrow> 'p iterator \<Rightarrow> ('c, 'p, 'a) container_base option" where
  "container_of cs it = (if it_container it = NULL then None else cs (it_container it))"

section \<open>Validity\<close>

definition iter_is_vaild :: "('c, 'p, 'a) containers \<Rightarrow> 'p iterator \<Rightarrow> bool option" where
  "iter_is_vaild cs it = (if it_container it = NULL then Some False
     else do {
       cb \<leftarrow> container_of cs it;
       case cb_iter_if cb of
         None \<Rightarrow> Some False
       | Some tab \<Rightarrow>
           if cb_type_id cb < TYPEID_FNBUILTIN_START \<or> cb_type_id cb > TYPEID_FNBUILTIN_END then Some False
           else (case if_is_vaild tab of
               None \<Rightarrow> Some True
             | Some f \<Rightarrow> Some (f (cb_type_id cb) (cb_self cb) (it_pos it))) })"

definition iter_is_same :: "('c, 'p, 'a) containers \<Rightarrow> 'p iterator \<Rightarrow> 'p iterator \<Rightarrow> bool option" where
  "iter_is_same cs it0 it1 = do {
     v0 \<leftarrow> iter_is_vaild cs it0;
     c_assert v0;
     v1 \<leftarrow> iter_is_vaild cs it1;
     c_assert v1;
     Some (it_container it0 = it_container it1) }"

definition iter_is_contained :: "('c, 'p, 'a) containers \<Rightarrow> 'p iterator \<Rightarrow> addr \<Rightarrow> bool option" where
  "iter_is_contained cs it ptr = do {
     v \<leftarrow> iter_is_vaild cs it;
     c_assert v;
     Some (it_container it = ptr) }"

section \<open>The public functions\<close>

text \<open>The check every function starts with, and the entry of the table it calls.\<close>

definition iter_entry ::
  "('c, 'p, 'a) containers \<Rightarrow> 'p iterator \<Rightarrow> (('c, 'p, 'a) iterator_if \<Rightarrow> 'f option) \<Rightarrow> ('c \<times> 'f) option" where
  "iter_entry cs it sel = do {
     v \<leftarrow> iter_is_vaild cs it;
     c_assert v;
     cb \<leftarrow> container_of cs it;
     tab \<leftarrow> cb_iter_if cb;
     f \<leftarrow> sel tab;
     Some (cb_self cb, f) }"

definition iter_next :: "('c, 'p, 'a) containers \<Rightarrow> 'p iterator \<Rightarrow> 'p iterator option" where
  "iter_next cs it = do {
     (c, f) \<leftarrow> iter_entry cs it if_next;
     p \<leftarrow> f c (it_pos it);
     Some (it\<lparr>it_pos := p\<rparr>) }"

definition iter_pre :: "('c, 'p, 'a) containers \<Rightarrow> 'p iterator \<Rightarrow> 'p iterator option" where
  "iter_pre cs it = do {
     (c, f) \<leftarrow> iter_entry cs it if_pre;
     p \<leftarrow> f c (it_pos it);
     Some (it\<lparr>it_pos := p\<rparr>) }"

definition iter_next_n :: "('c, 'p, 'a) containers \<Rightarrow> 'p iterator \<Rightarrow> int \<Rightarrow> 'p iterator option" where
  "iter_next_n cs it step = do {
     (c, f) \<leftarrow> iter_entry cs it if_next_n;
     p \<leftarrow> f c (it_pos it) step;
     Some (it\<lparr>it_pos := p\<rparr>) }"

definition iter_pre_n :: "('c, 'p, 'a) containers \<Rightarrow> 'p iterator \<Rightarrow> int \<Rightarrow> 'p iterator option" where
  "iter_pre_n cs it step = do {
     (c, f) \<leftarrow> iter_entry cs it if_pre_n;
     p \<leftarrow> f c (it_pos it) step;
     Some (it\<lparr>it_pos := p\<rparr>) }"

text \<open>Negating the smallest \<^verbatim>\<open>int\<close> overflows. The loop state is the iterator and the remaining step.\<close>

definition iter_advance_step :: "('c, 'p, 'a) containers \<Rightarrow> bool \<Rightarrow> 'p iterator \<times> int \<Rightarrow> ('p iterator \<times> int) option" where
  "iter_advance_step cs flag s = (case s of (it, step) \<Rightarrow> do {
     it \<leftarrow> (if flag then iter_next cs it else iter_pre cs it);
     Some (it, step - 1) })"

definition iter_advance :: "('c, 'p, 'a) containers \<Rightarrow> 'p iterator \<Rightarrow> int \<Rightarrow> 'p iterator option" where
  "iter_advance cs it step = do {
     v \<leftarrow> iter_is_vaild cs it;
     c_assert v;
     let flag = step > 0;
     step \<leftarrow> (if \<not> flag then (if step = - (2 ^ 31) then None else Some (- step)) else Some step);
     (it, step) \<leftarrow> while_c (\<lambda>(it, step). Some (step > 0)) (iter_advance_step cs flag) (it, step);
     Some it }"

definition iter_distance :: "('c, 'p, 'a) containers \<Rightarrow> 'p iterator \<Rightarrow> 'p iterator \<Rightarrow> int option" where
  "iter_distance cs it0 it1 = do {
     v0 \<leftarrow> iter_is_vaild cs it0;
     c_assert v0;
     v1 \<leftarrow> iter_is_vaild cs it1;
     c_assert v1;
     same \<leftarrow> iter_is_same cs it0 it1;
     c_assert same;
     (c, f) \<leftarrow> iter_entry cs it0 if_distance;
     f c (it_pos it0) (it_pos it1) }"

definition iter_equal :: "('c, 'p, 'a) containers \<Rightarrow> 'p iterator \<Rightarrow> 'p iterator \<Rightarrow> bool option" where
  "iter_equal cs it0 it1 = do {
     v0 \<leftarrow> iter_is_vaild cs it0;
     c_assert v0;
     v1 \<leftarrow> iter_is_vaild cs it1;
     c_assert v1;
     same \<leftarrow> iter_is_same cs it0 it1;
     c_assert same;
     (c, f) \<leftarrow> iter_entry cs it0 if_equal;
     f c (it_pos it0) (it_pos it1) }"

definition iter_get_pointer :: "('c, 'p, 'a) containers \<Rightarrow> 'p iterator \<Rightarrow> 'p option" where
  "iter_get_pointer cs it = do {
     (c, f) \<leftarrow> iter_entry cs it if_get_pointer;
     f c (it_pos it) }"

text \<open>\<open>elm\<close> is the old contents of the destination, \<open>None\<close> for a null pointer.\<close>

definition iter_get_value :: "('c, 'p, 'a) containers \<Rightarrow> 'p iterator \<Rightarrow> 'a option \<Rightarrow> 'a option" where
  "iter_get_value cs it elm = do {
     elm \<leftarrow> elm;
     (c, f) \<leftarrow> iter_entry cs it if_get_value;
     f c (it_pos it) elm }"

definition iter_set_value :: "('c, 'p, 'a) containers \<Rightarrow> 'p iterator \<Rightarrow> 'a option \<Rightarrow> ('c, 'p, 'a) containers option" where
  "iter_set_value cs it elm = do {
     elm \<leftarrow> elm;
     (c, f) \<leftarrow> iter_entry cs it if_set_value;
     c \<leftarrow> f c (it_pos it) elm;
     cb \<leftarrow> container_of cs it;
     Some (cs(it_container it \<mapsto> cb\<lparr>cb_self := c\<rparr>)) }"

section \<open>The contract of a sequence container\<close>

text \<open>
  \<open>at c i\<close> is the position of the i-th element and \<open>at c (len c)\<close> the end. What \<open>iter_advance\<close> relies on:
  valid positions, and single steps between them; only some containers can step back from the end.
\<close>

locale sequence_container =
  fixes tab :: "('c, 'p, 'a) iterator_if" and ok :: "'c \<Rightarrow> bool" and at :: "'c \<Rightarrow> nat \<Rightarrow> 'p" and len :: "'c \<Rightarrow> nat"
    and types :: "nat set"
  assumes types: "types \<subseteq> {TYPEID_FNBUILTIN_START..TYPEID_FNBUILTIN_END}"
    and valid_at: "ok c \<Longrightarrow> i \<le> len c \<Longrightarrow> t \<in> types \<Longrightarrow> (case if_is_vaild tab of None \<Rightarrow> True | Some f \<Rightarrow> f t c (at c i))"
    and next_at: "\<exists>f. if_next tab = Some f \<and> (\<forall>c i. ok c \<and> i < len c \<longrightarrow> f c (at c i) = Some (at c (Suc i)))"
    and pre_at: "\<exists>f. if_pre tab = Some f \<and> (\<forall>c i. ok c \<and> Suc i < len c \<longrightarrow> f c (at c (Suc i)) = Some (at c i))"
begin

text \<open>A store in which the container of the iterator is \<open>c\<close>, with this table.\<close>

definition holds :: "('c, 'p, 'a) containers \<Rightarrow> addr \<Rightarrow> 'c \<Rightarrow> bool" where
  "holds cs a c \<longleftrightarrow> a \<noteq> NULL \<and> ok c \<and> (\<exists>t. cs a = Some \<lparr>cb_type_id = t, cb_iter_if = Some tab, cb_self = c\<rparr> \<and> t \<in> types)"

abbreviation iter_at :: "addr \<Rightarrow> 'c \<Rightarrow> nat \<Rightarrow> 'p iterator" where
  "iter_at a c i \<equiv> \<lparr>it_pos = at c i, it_container = a\<rparr>"

lemma valid_holds: "holds cs a c \<Longrightarrow> i \<le> len c \<Longrightarrow> iter_is_vaild cs (iter_at a c i) = Some True"
  using valid_at [of c i] types by (fastforce simp: holds_def iter_is_vaild_def container_of_def split: option.splits)

lemma entry_holds: "holds cs a c \<Longrightarrow> i \<le> len c \<Longrightarrow> sel tab = Some f \<Longrightarrow> iter_entry cs (iter_at a c i) sel = Some (c, f)"
  using valid_holds [of cs a c i] by (auto simp: iter_entry_def holds_def container_of_def)

lemma iter_next_holds: "holds cs a c \<Longrightarrow> i < len c \<Longrightarrow> iter_next cs (iter_at a c i) = Some (iter_at a c (Suc i))"
proof -
  assume h: "holds cs a c" and i: "i < len c"
  from next_at obtain f where f: "if_next tab = Some f" "\<forall>c i. ok c \<and> i < len c \<longrightarrow> f c (at c i) = Some (at c (Suc i))" by blast
  have "iter_entry cs (iter_at a c i) if_next = Some (c, f)" using entry_holds [OF h, of i] i f(1) by simp
  moreover have "ok c" using h by (simp add: holds_def)
  ultimately show ?thesis using f(2) i by (simp add: iter_next_def)
qed

lemma iter_pre_holds: "holds cs a c \<Longrightarrow> Suc i < len c \<Longrightarrow> iter_pre cs (iter_at a c (Suc i)) = Some (iter_at a c i)"
proof -
  assume h: "holds cs a c" and i: "Suc i < len c"
  from pre_at obtain f where f: "if_pre tab = Some f" "\<forall>c i. ok c \<and> Suc i < len c \<longrightarrow> f c (at c (Suc i)) = Some (at c i)" by blast
  have "iter_entry cs (iter_at a c (Suc i)) if_pre = Some (c, f)" using entry_holds [OF h, of "Suc i"] i f(1) by simp
  moreover have "ok c" using h by (simp add: holds_def)
  ultimately show ?thesis using f(2) i by (simp add: iter_pre_def)
qed

lemma forward:
  assumes h: "holds cs a c" and i: "i + k \<le> len c"
  shows "while_c (\<lambda>(it, step). Some (step > 0)) (iter_advance_step cs True) (iter_at a c i, int k) = Some (iter_at a c (i + k), 0)"
  using i
proof (induction k arbitrary: i)
  case 0
  then show ?case by (simp add: while_c_stop)
next
  case (Suc k)
  then have "iter_advance_step cs True (iter_at a c i, int (Suc k)) = Some (iter_at a c (Suc i), int k)"
    using iter_next_holds [OF h, of i] by (simp add: iter_advance_step_def)
  then show ?case using Suc.IH [of "Suc i"] Suc.prems by (simp add: while_c_step)
qed

lemma backward:
  assumes h: "holds cs a c" and i: "k \<le> i" "i < len c \<or> k = 0"
  shows "while_c (\<lambda>(it, step). Some (step > 0)) (iter_advance_step cs False) (iter_at a c i, int k) = Some (iter_at a c (i - k), 0)"
  using i
proof (induction k arbitrary: i)
  case 0
  then show ?case by (simp add: while_c_stop)
next
  case (Suc k)
  then obtain j where j: "i = Suc j" by (cases i) auto
  then have "iter_advance_step cs False (iter_at a c i, int (Suc k)) = Some (iter_at a c j, int k)"
    using iter_pre_holds [OF h, of j] Suc.prems by (simp add: iter_advance_step_def)
  then show ?case using Suc.IH [of j] Suc.prems j by (simp add: while_c_step)
qed

lemma advance_forward:
  assumes h: "holds cs a c" and k: "i + k \<le> len c"
  shows "iter_advance cs (iter_at a c i) (int k) = Some (iter_at a c (i + k))"
  using forward [OF h, of i k] k backward [OF h, of 0 i] valid_holds [OF h, of i] by (cases "k = 0") (auto simp: iter_advance_def)

lemma advance_backward:
  assumes h: "holds cs a c" and k: "k \<le> i" "i < len c" "k < 2 ^ 31"
  shows "iter_advance cs (iter_at a c i) (- int k) = Some (iter_at a c (i - k))"
proof -
  have "- int k \<noteq> - (2 ^ 31)" using k(3) by simp
  then show ?thesis using backward [OF h, of k i] k valid_holds [OF h, of i] by (simp add: iter_advance_def)
qed

end

text \<open>Containers that can also step back from the end.\<close>

locale bidirectional_container = sequence_container +
  assumes pre_end: "if_pre tab = Some f \<Longrightarrow> ok c \<Longrightarrow> len c = Suc i \<Longrightarrow> f c (at c (Suc i)) = Some (at c i)"
begin

lemma iter_pre_any: "holds cs a c \<Longrightarrow> i < len c \<Longrightarrow> iter_pre cs (iter_at a c (Suc i)) = Some (iter_at a c i)"
proof -
  assume h: "holds cs a c" and i: "i < len c"
  show ?thesis
  proof (cases "Suc i < len c")
    case True
    then show ?thesis by (rule iter_pre_holds [OF h])
  next
    case False
    from pre_at obtain f where f: "if_pre tab = Some f" by blast
    have "iter_entry cs (iter_at a c (Suc i)) if_pre = Some (c, f)" using entry_holds [OF h, of "Suc i"] i f by simp
    moreover have "f c (at c (Suc i)) = Some (at c i)" using pre_end [OF f] h i False by (simp add: holds_def)
    ultimately show ?thesis by (simp add: iter_pre_def)
  qed
qed

lemma advance_from_end:
  assumes h: "holds cs a c" and k: "k \<le> len c" "k < 2 ^ 31"
  shows "iter_advance cs (iter_at a c (len c)) (- int k) = Some (iter_at a c (len c - k))"
proof (cases k)
  case 0
  then show ?thesis using advance_forward [OF h, of "len c" 0] by simp
next
  case (Suc j)
  then obtain n where n: "len c = Suc n" using k by (cases "len c") auto
  have "iter_advance_step cs False (iter_at a c (len c), int k) = Some (iter_at a c n, int j)"
    using iter_pre_any [OF h, of n] n Suc by (simp add: iter_advance_step_def)
  then have "while_c (\<lambda>(it, step). Some (step > 0)) (iter_advance_step cs False) (iter_at a c (len c), int k) = Some (iter_at a c (n - j), 0)"
    using backward [OF h, of j n] k n Suc by (simp add: while_c_step del: of_nat_Suc)
  moreover have "- int k \<noteq> - (2 ^ 31)" using k(2) by simp
  ultimately show ?thesis using k n Suc valid_holds [OF h, of "len c"] by (simp add: iter_advance_def add.commute)
qed

end

end
