(* ===== verification/Cvector.thy ===== *)
theory Cvector
  imports Ctypes
begin

text \<open>
  The dynamic array of \<^verbatim>\<open>ohstl/cvector.c\<close>. The block at \<open>vec_data\<close> is a list of element slots, as
  many as the capacity; pointers into it are byte addresses, and an access through a pointer that is
  not the start of a slot of the block fails. The result of \<^verbatim>\<open>realloc\<close> is an argument of the operations that
  may grow the vector: the new address \<open>q\<close> (\<open>NULL\<close> on failure) and the contents \<open>g\<close> of the new slots.
\<close>

section \<open>State\<close>

record 'a vec =
  vec_size :: nat
  vec_capacity :: int
  vec_data :: addr
  vec_slots :: "'a list"
  vec_type :: "'a tfuncs"
  vec_type_size :: nat
  vec_zero :: 'a

definition VECT_INIT_CAPACITY :: int where "VECT_INIT_CAPACITY = 32"

definition vec_begin :: "'a vec \<Rightarrow> addr" where
  "vec_begin v = vec_data v"

definition vec_offset :: "'a vec \<Rightarrow> nat \<Rightarrow> addr" where
  "vec_offset v i = vec_data v + i * vec_type_size v"

definition vec_end :: "'a vec \<Rightarrow> addr" where
  "vec_end v = vec_offset v (vec_size v)"

text \<open>The slot a pointer designates.\<close>

definition slot_of :: "'a vec \<Rightarrow> addr \<Rightarrow> nat option" where
  "slot_of v p = (if vec_data v \<noteq> NULL \<and> vec_data v \<le> p \<and> vec_type_size v dvd (p - vec_data v)
     then Some ((p - vec_data v) div vec_type_size v) else None)"

definition slot_get :: "'a vec \<Rightarrow> addr \<Rightarrow> 'a option" where
  "slot_get v p = do {
     i \<leftarrow> slot_of v p;
     if i < length (vec_slots v) then Some (vec_slots v ! i) else None }"

definition slot_set :: "'a vec \<Rightarrow> addr \<Rightarrow> 'a \<Rightarrow> 'a vec option" where
  "slot_set v p x = do {
     i \<leftarrow> slot_of v p;
     if i < length (vec_slots v) then Some (v\<lparr>vec_slots := (vec_slots v)[i := x]\<rparr>) else None }"

text \<open>\<^verbatim>\<open>memmove(dst, src, n * typesize)\<close> inside the block.\<close>

definition slots_move :: "'a vec \<Rightarrow> addr \<Rightarrow> addr \<Rightarrow> nat \<Rightarrow> 'a vec option" where
  "slots_move v dst src n = do {
     i \<leftarrow> slot_of v dst;
     j \<leftarrow> slot_of v src;
     if i + n \<le> length (vec_slots v) \<and> j + n \<le> length (vec_slots v)
     then Some (v\<lparr>vec_slots := take i (vec_slots v) @ take n (drop j (vec_slots v)) @ drop (i + n) (vec_slots v)\<rparr>)
     else None }"

section \<open>Creation, growth and destruction\<close>

text \<open>\<open>p\<close> is the address returned for the data block; the result is the return code \<open>0\<close> or \<open>-1\<close>.\<close>

definition vector_init :: "'a tfuncs \<Rightarrow> nat \<Rightarrow> 'a \<Rightarrow> addr \<Rightarrow> (nat \<Rightarrow> 'a) \<Rightarrow> 'a vec \<times> int" where
  "vector_init tp ts z p g =
     (\<lparr>vec_size = 0, vec_capacity = VECT_INIT_CAPACITY, vec_data = p,
       vec_slots = (if p = NULL then [] else map g [0..<nat VECT_INIT_CAPACITY]),
       vec_type = tp, vec_type_size = ts, vec_zero = z\<rparr>, if p \<noteq> NULL then 0 else - 1)"

text \<open>\<^verbatim>\<open>capacity\<close> is an \<^verbatim>\<open>int\<close>: doubling it past \<^verbatim>\<open>INT_MAX\<close> overflows.\<close>

definition double_capacity :: "int \<Rightarrow> int option" where
  "double_capacity c = (if c * 2 < 2 ^ 31 then Some (c * 2) else None)"

definition grow_capacity :: "int \<Rightarrow> nat \<Rightarrow> int option" where
  "grow_capacity c newcap = while_c (\<lambda>c. Some (c < int newcap)) double_capacity c"

definition vector_reserve :: "'a vec \<Rightarrow> nat \<Rightarrow> addr \<Rightarrow> (nat \<Rightarrow> 'a) \<Rightarrow> 'a vec option" where
  "vector_reserve v newcap q g = (if int newcap \<le> vec_capacity v then Some v else do {
     c \<leftarrow> grow_capacity (vec_capacity v) newcap;
     Some (v\<lparr>vec_capacity := c, vec_data := q,
       vec_slots := (if q = NULL then [] else vec_slots v @ map g [length (vec_slots v)..<nat c])\<rparr>) })"

section \<open>Insertion and erasure at a pointer\<close>

definition vector_insert_varg ::
  "'a vec \<Rightarrow> addr \<Rightarrow> 'a varg \<Rightarrow> addr \<Rightarrow> (nat \<Rightarrow> 'a) \<Rightarrow> 'a vec option" where
  "vector_insert_varg v insptr arg q g = do {
     c_assert (insptr \<noteq> NULL);
     c_assert (vec_begin v \<le> insptr);
     c_assert (insptr \<le> vec_end v);
     let dist = insptr - vec_begin v;
     v \<leftarrow> vector_reserve v (vec_size v + 1) q g;
     let insptr = vec_begin v + dist;
     v \<leftarrow> (if insptr \<noteq> vec_end v
          then slots_move v (insptr + vec_type_size v) insptr ((vec_end v - insptr) div vec_type_size v)
          else Some v);
     let v = v\<lparr>vec_size := vec_size v + 1\<rparr>;
     d \<leftarrow> slot_get v insptr;
     slot_set v insptr (get_varg_value (vec_type v) (vec_zero v) arg (type_init (vec_type v) d)) }"

definition vector_erase_ptr :: "'a vec \<Rightarrow> addr \<Rightarrow> 'a vec option" where
  "vector_erase_ptr v eraptr = do {
     c_assert (eraptr \<noteq> NULL);
     d \<leftarrow> slot_get v eraptr;
     v \<leftarrow> slot_set v eraptr (type_destroy (vec_type v) d);
     c_assert (vec_size v \<noteq> 0);
     let v = v\<lparr>vec_size := vec_size v - 1\<rparr>;
     if eraptr \<noteq> vec_end v
     then slots_move v eraptr (eraptr + vec_type_size v) ((vec_end v - eraptr) div vec_type_size v)
     else Some v }"

section \<open>Operations at a position\<close>

definition vector_at :: "'a vec \<Rightarrow> int \<Rightarrow> addr option" where
  "vector_at v pos = do {
     c_assert (0 \<le> pos \<and> pos \<le> int (vec_size v));
     Some (vec_offset v (nat pos)) }"

definition vector_front :: "'a vec \<Rightarrow> addr option" where
  "vector_front v = do { c_assert (vec_size v \<noteq> 0); vector_at v 0 }"

definition vector_back :: "'a vec \<Rightarrow> addr option" where
  "vector_back v = do { c_assert (vec_size v \<noteq> 0); vector_at v (int (vec_size v - 1)) }"

definition vector_push_back :: "'a vec \<Rightarrow> 'a varg \<Rightarrow> addr \<Rightarrow> (nat \<Rightarrow> 'a) \<Rightarrow> 'a vec option" where
  "vector_push_back v arg q g = vector_insert_varg v (vec_offset v (vec_size v)) arg q g"

text \<open>On an empty vector \<^verbatim>\<open>size - 1\<close> wraps and the pointer leaves the block.\<close>

definition vector_pop_back :: "'a vec \<Rightarrow> 'a vec option" where
  "vector_pop_back v = (if vec_size v = 0 then None
     else vector_erase_ptr v (vec_offset v (vec_size v - 1)))"

definition vector_update :: "'a vec \<Rightarrow> int \<Rightarrow> 'a varg \<Rightarrow> 'a vec option" where
  "vector_update v pos arg = do {
     c_assert (0 \<le> pos \<and> pos < int (vec_size v));
     d \<leftarrow> slot_get v (vec_offset v (nat pos));
     slot_set v (vec_offset v (nat pos)) (get_varg_value (vec_type v) (vec_zero v) arg d) }"

definition vector_insert_pos :: "'a vec \<Rightarrow> int \<Rightarrow> 'a varg \<Rightarrow> addr \<Rightarrow> (nat \<Rightarrow> 'a) \<Rightarrow> 'a vec option" where
  "vector_insert_pos v pos arg q g = do {
     c_assert (0 \<le> pos \<and> pos \<le> int (vec_size v));
     vector_insert_varg v (vec_offset v (nat pos)) arg q g }"

definition vector_erase_pos :: "'a vec \<Rightarrow> int \<Rightarrow> 'a vec option" where
  "vector_erase_pos v pos = do {
     c_assert (0 \<le> pos \<and> pos < int (vec_size v));
     vector_erase_ptr v (vec_offset v (nat pos)) }"

definition vector_clear :: "'a vec \<Rightarrow> 'a vec option" where
  "vector_clear v = while_c (\<lambda>v. Some (vec_size v \<noteq> 0)) vector_pop_back v"

text \<open>\<open>vec_data = NULL\<close> stands for the freed block.\<close>

definition vector_destroy :: "'a vec \<Rightarrow> 'a vec option" where
  "vector_destroy v = do {
     v \<leftarrow> vector_clear v;
     Some (if vec_data v \<noteq> NULL then v\<lparr>vec_data := NULL, vec_slots := []\<rparr> else v) }"

section \<open>Iterators\<close>

text \<open>An iterator of the vector is the pointer it holds.\<close>

definition vector_iter_is_vaild :: "'a vec \<Rightarrow> int \<Rightarrow> bool" where
  "vector_iter_is_vaild v p = (\<not> p < int (vec_begin v) \<and> \<not> p > int (vec_end v))"

definition vector_begin :: "'a vec \<Rightarrow> int" where "vector_begin v = int (vec_begin v)"

definition vector_end :: "'a vec \<Rightarrow> int" where "vector_end v = int (vec_end v)"

definition vector_insert :: "'a vec \<Rightarrow> int \<Rightarrow> 'a varg \<Rightarrow> addr \<Rightarrow> (nat \<Rightarrow> 'a) \<Rightarrow> ('a vec \<times> int) option" where
  "vector_insert v iter arg q g = do {
     c_assert (vector_iter_is_vaild v iter);
     let dist = iter - int (vec_begin v);
     v \<leftarrow> vector_insert_varg v (nat iter) arg q g;
     Some (v, int (vec_begin v) + dist) }"

definition vector_iter_equal :: "'a vec \<Rightarrow> int \<Rightarrow> int \<Rightarrow> bool option" where
  "vector_iter_equal v iter0 iter1 = do {
     c_assert (vector_iter_is_vaild v iter0);
     c_assert (vector_iter_is_vaild v iter1);
     Some (iter0 = iter1) }"

definition vector_erase :: "'a vec \<Rightarrow> int \<Rightarrow> ('a vec \<times> int) option" where
  "vector_erase v iter = do {
     c_assert (vector_iter_is_vaild v iter);
     e \<leftarrow> vector_iter_equal v iter (vector_end v);
     c_assert (\<not> e);
     v \<leftarrow> vector_erase_ptr v (nat iter);
     Some (v, iter) }"

definition vector_iter_next_n :: "'a vec \<Rightarrow> int \<Rightarrow> int \<Rightarrow> int option" where
  "vector_iter_next_n v iter step = do {
     c_assert (vector_iter_is_vaild v iter);
     let iter = iter + step * int (vec_type_size v);
     c_assert (vector_iter_is_vaild v iter);
     Some iter }"

definition vector_iter_pre_n :: "'a vec \<Rightarrow> int \<Rightarrow> int \<Rightarrow> int option" where
  "vector_iter_pre_n v iter step = do {
     c_assert (vector_iter_is_vaild v iter);
     vector_iter_next_n v iter (- step) }"

definition vector_iter_next :: "'a vec \<Rightarrow> int \<Rightarrow> int option" where
  "vector_iter_next v iter = do {
     c_assert (vector_iter_is_vaild v iter);
     vector_iter_next_n v iter 1 }"

definition vector_iter_pre :: "'a vec \<Rightarrow> int \<Rightarrow> int option" where
  "vector_iter_pre v iter = do {
     c_assert (vector_iter_is_vaild v iter);
     vector_iter_next_n v iter (- 1) }"

text \<open>The difference is a \<^verbatim>\<open>size_t\<close>, so a negative one wraps; the quotient is converted to \<^verbatim>\<open>int\<close>.\<close>

definition vector_iter_distance :: "'a vec \<Rightarrow> int \<Rightarrow> int \<Rightarrow> int option" where
  "vector_iter_distance v iter0 iter1 = do {
     c_assert (vector_iter_is_vaild v iter0);
     c_assert (vector_iter_is_vaild v iter1);
     let dist = (iter1 - iter0) mod 2 ^ 64;
     c_assert (vec_type_size v \<noteq> 0 \<and> dist mod int (vec_type_size v) = 0);
     Some (signed_take_bit 31 (dist div int (vec_type_size v))) }"

definition vector_iter_get_pointer :: "'a vec \<Rightarrow> int \<Rightarrow> int option" where
  "vector_iter_get_pointer v iter = do { c_assert (vector_iter_is_vaild v iter); Some iter }"

definition vector_iter_get_value :: "'a vec \<Rightarrow> int \<Rightarrow> 'a \<Rightarrow> 'a option" where
  "vector_iter_get_value v iter elm = do {
     c_assert (vector_iter_is_vaild v iter);
     e \<leftarrow> vector_iter_equal v iter (vector_end v);
     c_assert (\<not> e);
     d \<leftarrow> slot_get v (nat iter);
     Some (type_copy (vec_type v) elm d) }"

definition vector_iter_set_value :: "'a vec \<Rightarrow> int \<Rightarrow> 'a \<Rightarrow> 'a vec option" where
  "vector_iter_set_value v iter elm = do {
     c_assert (vector_iter_is_vaild v iter);
     e \<leftarrow> vector_iter_equal v iter (vector_end v);
     c_assert (\<not> e);
     d \<leftarrow> slot_get v (nat iter);
     slot_set v (nat iter) (type_copy (vec_type v) d elm) }"

section \<open>Operations for the heap\<close>

text \<open>Each reservation may move the block; \<open>q\<close> and \<open>g\<close> belong to the first one that grows it.\<close>

definition vector_reserve3 :: "'a vec \<Rightarrow> nat \<Rightarrow> nat \<Rightarrow> addr \<Rightarrow> (nat \<Rightarrow> 'a) \<Rightarrow> 'a vec option" where
  "vector_reserve3 v p1 p2 q g = do {
     v \<leftarrow> vector_reserve v (vec_size v + 1) q g;
     v \<leftarrow> vector_reserve v (p1 + 1) q g;
     vector_reserve v (p2 + 1) q g }"

definition vector_swap_elem :: "'a vec \<Rightarrow> nat \<Rightarrow> nat \<Rightarrow> addr \<Rightarrow> (nat \<Rightarrow> 'a) \<Rightarrow> 'a vec option" where
  "vector_swap_elem v p1 p2 q g = do {
     v \<leftarrow> vector_reserve3 v p1 p2 q g;
     let vecsize = vec_size v;
     v \<leftarrow> slots_move v (vec_offset v vecsize) (vec_offset v p1) 1;
     v \<leftarrow> slots_move v (vec_offset v p1) (vec_offset v p2) 1;
     slots_move v (vec_offset v p2) (vec_offset v vecsize) 1 }"

definition vector_copy_elem :: "'a vec \<Rightarrow> nat \<Rightarrow> nat \<Rightarrow> addr \<Rightarrow> (nat \<Rightarrow> 'a) \<Rightarrow> 'a vec option" where
  "vector_copy_elem v p1 p2 q g = do {
     v \<leftarrow> vector_reserve3 v p1 p2 q g;
     slots_move v (vec_offset v p1) (vec_offset v p2) 1 }"

end
