(* ===== verification/CvectorSpec.thy ===== *)
theory CvectorSpec
  imports Cvector Cbuiltin
begin

text \<open>
  The vector refines the list of its elements: representation, growth, and every operation at a
  position or through an iterator.
\<close>

section \<open>Representation\<close>

definition vec_ok :: "'a vec \<Rightarrow> bool" where
  "vec_ok v \<longleftrightarrow> vec_data v \<noteq> NULL \<and> 0 < vec_type_size v \<and> 0 < vec_capacity v \<and>
     length (vec_slots v) = nat (vec_capacity v) \<and> vec_size v \<le> length (vec_slots v)"

definition vec_list :: "'a vec \<Rightarrow> 'a list" where
  "vec_list v = take (vec_size v) (vec_slots v)"

definition vec_rep :: "'a vec \<Rightarrow> 'a list \<Rightarrow> bool" where
  "vec_rep v xs \<longleftrightarrow> vec_ok v \<and> vec_list v = xs"

lemma vec_rep_length: "vec_rep v xs \<Longrightarrow> vec_size v = length xs"
  by (auto simp: vec_rep_def vec_ok_def vec_list_def)

lemma offset_nz: "vec_ok v \<Longrightarrow> vec_offset v i \<noteq> NULL"
  by (simp add: vec_ok_def vec_offset_def)

lemma slot_of_offset: "vec_ok v \<Longrightarrow> slot_of v (vec_offset v i) = Some i"
  by (simp add: vec_ok_def slot_of_def vec_offset_def)

lemma slot_get_offset:
  "vec_ok v \<Longrightarrow> i < length (vec_slots v) \<Longrightarrow> slot_get v (vec_offset v i) = Some (vec_slots v ! i)"
  by (simp add: slot_get_def slot_of_offset)

lemma slot_set_offset:
  "vec_ok v \<Longrightarrow> i < length (vec_slots v) \<Longrightarrow>
   slot_set v (vec_offset v i) x = Some (v\<lparr>vec_slots := (vec_slots v)[i := x]\<rparr>)"
  by (simp add: slot_set_def slot_of_offset)

lemma slots_move_offset:
  "vec_ok v \<Longrightarrow> i + n \<le> length (vec_slots v) \<Longrightarrow> j + n \<le> length (vec_slots v) \<Longrightarrow>
   slots_move v (vec_offset v i) (vec_offset v j) n =
     Some (v\<lparr>vec_slots := take i (vec_slots v) @ take n (drop j (vec_slots v)) @ drop (i + n) (vec_slots v)\<rparr>)"
  by (simp add: slots_move_def slot_of_offset)

section \<open>Growth\<close>

lemma grow_capacity_ok:
  assumes "0 < c" "newcap \<le> 2 ^ 30"
  shows "\<exists>c'. grow_capacity c newcap = Some c' \<and> int newcap \<le> c' \<and> c \<le> c' \<and> (c' = c \<or> c' < 2 * int newcap)"
  unfolding grow_capacity_def
proof (rule while_c_total [where I = "\<lambda>n c'. c \<le> c' \<and> (c' = c \<or> c' < 2 * int newcap) \<and> n = nat (int newcap - c')"])
  show "c \<le> c \<and> (c = c \<or> c < 2 * int newcap) \<and> nat (int newcap - c) = nat (int newcap - c)" by simp
next
  fix n c' assume I: "c \<le> c' \<and> (c' = c \<or> c' < 2 * int newcap) \<and> n = nat (int newcap - c')"
  show "(Some (c' < int newcap) = Some False \<and> int newcap \<le> c' \<and> c \<le> c' \<and> (c' = c \<or> c' < 2 * int newcap)) \<or>
    (Some (c' < int newcap) = Some True \<and> (\<exists>s' m. double_capacity c' = Some s' \<and> m < n \<and>
       c \<le> s' \<and> (s' = c \<or> s' < 2 * int newcap) \<and> m = nat (int newcap - s')))"
  proof (cases "c' < int newcap")
    case True
    then have "double_capacity c' = Some (c' * 2)" using assms(2) by (auto simp: double_capacity_def)
    then show ?thesis using True I assms(1) by (auto simp: nat_less_iff)
  next
    case False
    then show ?thesis using I by auto
  qed
qed

lemma reserve_ok:
  assumes v: "vec_ok v" and n: "newcap \<le> 2 ^ 30" and q: "q \<noteq> NULL"
  shows "\<exists>v'. vector_reserve v newcap q g = Some v' \<and> vec_ok v' \<and> newcap \<le> length (vec_slots v') \<and>
    vec_size v' = vec_size v \<and> vec_list v' = vec_list v \<and> vec_type v' = vec_type v \<and>
    vec_type_size v' = vec_type_size v \<and> vec_zero v' = vec_zero v \<and>
    length (vec_slots v) \<le> length (vec_slots v') \<and> take (length (vec_slots v)) (vec_slots v') = vec_slots v"
proof (cases "int newcap \<le> vec_capacity v")
  case True
  then show ?thesis using v by (auto simp: vector_reserve_def vec_ok_def)
next
  case False
  obtain c' where c: "grow_capacity (vec_capacity v) newcap = Some c'" "int newcap \<le> c'" "vec_capacity v \<le> c'"
    using grow_capacity_ok [of "vec_capacity v" newcap] v n by (auto simp: vec_ok_def)
  show ?thesis
    using False c v q by (auto simp: vector_reserve_def vec_ok_def vec_list_def)
qed

text \<open>The room needed by a vector of the given length is far below the overflow of \<^verbatim>\<open>capacity\<close>.\<close>

abbreviation vec_max :: nat where "vec_max \<equiv> 2 ^ 30"

lemma vec_ok_update: "vec_ok v \<Longrightarrow> vec_ok (v\<lparr>vec_slots := (vec_slots v)[i := x]\<rparr>)"
  by (simp add: vec_ok_def)

section \<open>Insertion\<close>

lemma offset_diff:
  assumes "vec_ok v" "i \<le> vec_size v"
  shows "(vec_end v - vec_offset v i) div vec_type_size v = vec_size v - i"
proof -
  have "vec_end v - vec_offset v i = (vec_size v - i) * vec_type_size v"
    by (simp add: vec_end_def vec_offset_def diff_mult_distrib)
  then show ?thesis using assms by (simp add: vec_ok_def)
qed

lemma offset_eq: "vec_ok v \<Longrightarrow> vec_offset v i = vec_offset v j \<longleftrightarrow> i = j"
  by (simp add: vec_ok_def vec_offset_def)

lemma offset_Suc: "vec_offset v i + vec_type_size v = vec_offset v (Suc i)"
  by (simp add: vec_offset_def)

lemma insert_shift:
  assumes v: "vec_ok v" and i: "i \<le> vec_size v" and cap: "vec_size v < length (vec_slots v)"
  shows "(if vec_offset v i \<noteq> vec_end v
          then slots_move v (vec_offset v i + vec_type_size v) (vec_offset v i) ((vec_end v - vec_offset v i) div vec_type_size v)
          else Some v) =
     Some (v\<lparr>vec_slots := take (Suc i) (vec_slots v) @ drop i (vec_list v) @ drop (Suc (vec_size v)) (vec_slots v)\<rparr>)"
proof (cases "i = vec_size v")
  case True
  then show ?thesis using cap by (simp add: vec_end_def vec_list_def)
next
  case False
  then have "vec_offset v i \<noteq> vec_end v" using v by (simp add: vec_end_def offset_eq)
  moreover have "drop i (vec_list v) = take (vec_size v - i) (drop i (vec_slots v))"
    by (simp add: vec_list_def drop_take)
  ultimately show ?thesis
    using v i cap by (simp add: offset_diff offset_Suc slots_move_offset)
qed

lemma insert_varg_rep:
  assumes v: "vec_rep v xs" and i: "i \<le> length xs" and tp: "elem_type (vec_type v)"
    and q: "q \<noteq> NULL" and len: "length xs < vec_max"
  shows "\<exists>v'. vector_insert_varg v (vec_offset v i) arg q g = Some v' \<and>
    vec_rep v' (take i xs @ varg_elem (vec_zero v) arg # drop i xs) \<and> vec_type v' = vec_type v \<and>
    vec_type_size v' = vec_type_size v \<and> vec_zero v' = vec_zero v"
proof -
  have ok: "vec_ok v" and sz: "vec_size v = length xs" using v vec_rep_length by (auto simp: vec_rep_def)
  obtain w where w: "vector_reserve v (vec_size v + 1) q g = Some w" "vec_ok w" "vec_size v + 1 \<le> length (vec_slots w)"
    "vec_size w = vec_size v" "vec_list w = xs" "vec_type w = vec_type v" "vec_type_size w = vec_type_size v"
    "vec_zero w = vec_zero v"
    using reserve_ok [OF ok _ q, of "vec_size v + 1" g] sz len v by (auto simp: vec_rep_def)
  have ptr: "vec_begin w + (vec_offset v i - vec_begin v) = vec_offset w i"
    using w by (simp add: vec_begin_def vec_offset_def)
  let ?s = "take (Suc i) (vec_slots w) @ drop i xs @ drop (Suc (vec_size w)) (vec_slots w)"
  let ?w = "w\<lparr>vec_slots := ?s, vec_size := vec_size w + 1\<rparr>"
  have il: "i < length (vec_slots w)" and len_s: "length ?s = length (vec_slots w)"
    using w i sz by auto
  then have okw: "vec_ok ?w" using w by (simp add: vec_ok_def)
  have off: "vec_offset w i = vec_offset ?w i" by (simp add: vec_offset_def)
  have x: "get_varg_value (vec_type w) (vec_zero w) arg d = varg_elem (vec_zero v) arg" for d
    using elem_type.get_varg [OF tp] w by simp
  let ?r = "?w\<lparr>vec_slots := ?s[i := varg_elem (vec_zero v) arg]\<rparr>"
  have b: "vec_begin v \<le> vec_offset v i" "vec_offset v i \<le> vec_end v"
    using i sz by (simp_all add: vec_begin_def vec_end_def vec_offset_def)
  have shift: "(if vec_offset w i \<noteq> vec_end w
      then slots_move w (vec_offset w i + vec_type_size w) (vec_offset w i) ((vec_end w - vec_offset w i) div vec_type_size w)
      else Some w) = Some (w\<lparr>vec_slots := ?s\<rparr>)"
    using insert_shift [OF w(2), of i] i sz w(3,4,5) by simp
  have up: "w\<lparr>vec_slots := ?s\<rparr>\<lparr>vec_size := vec_size (w\<lparr>vec_slots := ?s\<rparr>) + 1\<rparr> = ?w" by simp
  have get: "slot_get ?w (vec_offset w i) = Some (?s ! i)"
    and set: "slot_set ?w (vec_offset w i) y = Some (?w\<lparr>vec_slots := ?s[i := y]\<rparr>)" for y
    using slot_get_offset [OF okw, of i] slot_set_offset [OF okw, of i] il len_s unfolding off by simp_all
  have "vector_insert_varg v (vec_offset v i) arg q g = Some ?r"
    unfolding vector_insert_varg_def Let_def bind_c_assert w(1) Option.bind.simps ptr shift up get set
    using b offset_nz [OF ok, of i] x by simp
  moreover have "vec_list ?r = take i xs @ varg_elem (vec_zero v) arg # drop i xs"
  proof -
    have s: "xs = take (length xs) (vec_slots w)" using w(4,5) sz by (simp add: vec_list_def)
    then have ti: "take i (vec_slots w) = take i xs" using i by (metis min.absorb1 take_take)
    have "?s[i := varg_elem (vec_zero v) arg] = take i (vec_slots w) @ varg_elem (vec_zero v) arg # drop i xs @ drop (Suc (vec_size w)) (vec_slots w)"
      using il by (simp add: list_update_append upd_conv_take_nth_drop take_Suc_conv_app_nth)
    then show ?thesis using i w(4) sz il ti by (simp add: vec_list_def Suc_diff_le)
  qed
  moreover have "vec_ok ?r" using vec_ok_update [OF okw, of i "varg_elem (vec_zero v) arg"] by simp
  ultimately show ?thesis using w by (simp add: vec_rep_def)
qed


section \<open>Erasure\<close>

lemma erase_ptr_rep:
  assumes v: "vec_rep v xs" and i: "i < length xs"
  shows "\<exists>v'. vector_erase_ptr v (vec_offset v i) = Some v' \<and>
    vec_rep v' (take i xs @ drop (Suc i) xs) \<and> vec_type v' = vec_type v \<and>
    vec_type_size v' = vec_type_size v \<and> vec_zero v' = vec_zero v \<and> vec_data v' = vec_data v \<and>
    vec_capacity v' = vec_capacity v"
proof -
  have ok: "vec_ok v" and sz: "vec_size v = length xs" and xs: "xs = take (vec_size v) (vec_slots v)"
    using v vec_rep_length by (auto simp: vec_rep_def vec_list_def)
  have il: "i < length (vec_slots v)" and le: "length xs \<le> length (vec_slots v)" using i sz ok by (auto simp: vec_ok_def)
  let ?d = "type_destroy (vec_type v) (vec_slots v ! i)"
  define w where "w = v\<lparr>vec_slots := (vec_slots v)[i := ?d], vec_size := vec_size v - 1\<rparr>"
  have okw: "vec_ok w" using ok by (auto simp: w_def vec_ok_def)
  have off: "vec_offset v j = vec_offset w j" for j by (simp add: w_def vec_offset_def)
  let ?s = "take i xs @ drop (Suc i) xs @ drop (vec_size v - 1) (vec_slots w)"
  have tv: "take i xs = take i (vec_slots v)" using i sz by (subst xs) simp
  then have ti: "take i (vec_slots w) = take i xs" by (simp add: w_def)
  have "(if vec_offset w i \<noteq> vec_end w
     then slots_move w (vec_offset w i) (vec_offset w i + vec_type_size w) ((vec_end w - vec_offset w i) div vec_type_size w)
     else Some w) = Some (w\<lparr>vec_slots := ?s\<rparr>)"
  proof (cases "i = vec_size w")
    case True
    then have "Suc i = length xs" using sz i by (simp add: w_def)
    moreover have "vec_size v - 1 = i" using True by (simp add: w_def)
    ultimately have "?s = take i (vec_slots w) @ drop i (vec_slots w)" using ti by simp
    then have "?s = vec_slots w" by simp
    then show ?thesis using True by (simp add: vec_end_def)
  next
    case False
    then have ne: "vec_offset w i \<noteq> vec_end w" using okw by (simp add: vec_end_def offset_eq)
    have iw: "i \<le> vec_size w" using i sz by (simp add: w_def)
    have "take (vec_size w - i) (drop (Suc i) (vec_slots w)) = drop (Suc i) xs"
      using i sz il by (subst xs) (simp add: w_def drop_take)
    moreover have "i + (vec_size w - i) = vec_size v - 1" using iw by (simp add: w_def)
    moreover have "slots_move w (vec_offset w i) (vec_offset w (Suc i)) (vec_size w - i) =
      Some (w\<lparr>vec_slots := take i (vec_slots w) @ take (vec_size w - i) (drop (Suc i) (vec_slots w)) @
        drop (i + (vec_size w - i)) (vec_slots w)\<rparr>)"
      by (rule slots_move_offset [OF okw]) (use il le sz i in \<open>auto simp: w_def\<close>)
    ultimately show ?thesis using ne offset_diff [OF okw iw] ti by (simp add: offset_Suc)
  qed
  note shift = this
  have up: "v\<lparr>vec_slots := (vec_slots v)[i := ?d]\<rparr>\<lparr>vec_size := vec_size (v\<lparr>vec_slots := (vec_slots v)[i := ?d]\<rparr>) - 1\<rparr> = w"
    by (simp add: w_def)
  have "vector_erase_ptr v (vec_offset v i) = Some (w\<lparr>vec_slots := ?s\<rparr>)"
    unfolding vector_erase_ptr_def Let_def bind_c_assert slot_get_offset [OF ok il] slot_set_offset [OF ok il]
      Option.bind.simps up
    unfolding off [of i] shift using offset_nz [OF okw, of i] i sz by auto
  moreover have "vec_rep (w\<lparr>vec_slots := ?s\<rparr>) (take i xs @ drop (Suc i) xs)"
    using okw i sz il le by (auto simp: vec_rep_def vec_ok_def vec_list_def w_def)
  ultimately show ?thesis by (simp add: w_def)
qed


section \<open>Operations at a position\<close>

lemma update_rep:
  assumes v: "vec_rep v xs" and i: "i < length xs" and tp: "elem_type (vec_type v)"
  shows "\<exists>v'. vector_update v (int i) arg = Some v' \<and> vec_rep v' (xs[i := varg_elem (vec_zero v) arg]) \<and>
    vec_data v' = vec_data v"
proof -
  have ok: "vec_ok v" and sz: "vec_size v = length xs" and xs: "xs = take (vec_size v) (vec_slots v)"
    using v vec_rep_length by (auto simp: vec_rep_def vec_list_def)
  have il: "i < length (vec_slots v)" using i sz ok by (auto simp: vec_ok_def)
  let ?x = "varg_elem (vec_zero v) arg"
  have "vector_update v (int i) arg = Some (v\<lparr>vec_slots := (vec_slots v)[i := ?x]\<rparr>)"
    using i sz slot_get_offset [OF ok il] slot_set_offset [OF ok il] elem_type.get_varg [OF tp]
    by (simp add: vector_update_def cong: bind_weak_cong)
  moreover have "vec_list (v\<lparr>vec_slots := (vec_slots v)[i := ?x]\<rparr>) = xs[i := ?x]"
    by (subst xs) (simp add: vec_list_def take_update_swap)
  ultimately show ?thesis using vec_ok_update [OF ok] by (simp add: vec_rep_def)
qed

lemma pop_back_rep:
  assumes "vec_rep v xs" "xs \<noteq> []"
  shows "\<exists>v'. vector_pop_back v = Some v' \<and> vec_rep v' (butlast xs) \<and> vec_type v' = vec_type v \<and>
    vec_type_size v' = vec_type_size v \<and> vec_data v' = vec_data v"
  using erase_ptr_rep [OF assms(1), of "length xs - 1"] assms vec_rep_length [OF assms(1)]
  by (auto simp: vector_pop_back_def butlast_conv_take)

lemma clear_rep:
  assumes "vec_rep v xs"
  shows "\<exists>v'. vector_clear v = Some v' \<and> vec_rep v' [] \<and> vec_data v' = vec_data v"
proof -
  have "\<exists>v'. vector_clear v = Some v' \<and> (vec_rep v' [] \<and> vec_data v' = vec_data v)"
    unfolding vector_clear_def
  proof (rule while_c_total [where I = "\<lambda>n w. \<exists>ys. vec_rep w ys \<and> n = length ys \<and> vec_data w = vec_data v"])
    show "\<exists>ys. vec_rep v ys \<and> length xs = length ys \<and> vec_data v = vec_data v" using assms by blast
  next
    fix n w assume "\<exists>ys. vec_rep w ys \<and> n = length ys \<and> vec_data w = vec_data v"
    then obtain ys where ys: "vec_rep w ys" "n = length ys" "vec_data w = vec_data v" by blast
    show "(Some (vec_size w \<noteq> 0) = Some False \<and> vec_rep w [] \<and> vec_data w = vec_data v) \<or>
      (Some (vec_size w \<noteq> 0) = Some True \<and> (\<exists>s' m. vector_pop_back w = Some s' \<and> m < n \<and>
        (\<exists>ys. vec_rep s' ys \<and> m = length ys \<and> vec_data s' = vec_data v)))"
    proof (cases "ys = []")
      case True
      with ys vec_rep_length [OF ys(1)] show ?thesis by auto
    next
      case False
      with ys vec_rep_length [OF ys(1)] pop_back_rep [OF ys(1) False] show ?thesis
        by (auto intro!: exI [of _ "length (butlast ys)"] exI [of _ "butlast ys"])
    qed
  qed
  then show ?thesis by blast
qed

section \<open>Iterators\<close>

lemma int_less_2_64: "n < 2 ^ 64 \<Longrightarrow> int n < 2 ^ 64"
  by simp

text \<open>The iterator at position \<open>i\<close>.\<close>

definition iter_at :: "'a vec \<Rightarrow> nat \<Rightarrow> int" where
  "iter_at v i = int (vec_offset v i)"

lemma iter_begin_end: "vector_begin v = iter_at v 0" "vector_end v = iter_at v (vec_size v)"
  by (simp_all add: vector_begin_def vector_end_def iter_at_def vec_begin_def vec_end_def vec_offset_def)

lemma iter_at_valid: "i \<le> vec_size v \<Longrightarrow> vector_iter_is_vaild v (iter_at v i)"
  by (simp add: vector_iter_is_vaild_def iter_at_def vec_begin_def vec_end_def vec_offset_def not_less mult_right_mono)

lemma iter_next_n_at:
  assumes "i \<le> vec_size v" "0 < vec_type_size v"
  shows "vector_iter_next_n v (iter_at v i) step =
    (if 0 \<le> int i + step \<and> int i + step \<le> int (vec_size v) then Some (iter_at v (nat (int i + step))) else None)"
proof -
  have e: "iter_at v i + step * int (vec_type_size v) = int (vec_data v) + (int i + step) * int (vec_type_size v)"
    by (simp add: iter_at_def vec_offset_def algebra_simps)
  have "vector_iter_is_vaild v (int (vec_data v) + (int i + step) * int (vec_type_size v)) \<longleftrightarrow>
     0 \<le> (int i + step) * int (vec_type_size v) \<and> (int i + step) * int (vec_type_size v) \<le> int (vec_size v) * int (vec_type_size v)"
    by (auto simp: vector_iter_is_vaild_def vec_begin_def vec_end_def vec_offset_def)
  also have "\<dots> \<longleftrightarrow> 0 \<le> int i + step \<and> int i + step \<le> int (vec_size v)"
    using assms(2) by (simp add: zero_le_mult_iff)
  finally have valid: "vector_iter_is_vaild v (int (vec_data v) + (int i + step) * int (vec_type_size v)) \<longleftrightarrow> \<dots>" .
  have "0 \<le> int i + step \<Longrightarrow> iter_at v (nat (int i + step)) = int (vec_data v) + (int i + step) * int (vec_type_size v)"
    by (simp add: iter_at_def vec_offset_def)
  then show ?thesis
    using iter_at_valid [OF assms(1)] valid by (auto simp: vector_iter_next_n_def e Let_def)
qed

lemma iter_distance_at:
  assumes "i \<le> j" "j \<le> vec_size v" "0 < vec_type_size v" "vec_size v < 2 ^ 31" "vec_size v * vec_type_size v < 2 ^ 64"
  shows "vector_iter_distance v (iter_at v i) (iter_at v j) = Some (int j - int i)"
proof -
  have e: "iter_at v j - iter_at v i = (int j - int i) * int (vec_type_size v)"
    by (simp add: iter_at_def vec_offset_def algebra_simps)
  have "(j - i) * vec_type_size v < 2 ^ 64"
    using assms(2,5) by (meson diff_le_self le_less_trans le_trans mult_le_mono1)
  then have "int ((j - i) * vec_type_size v) < 2 ^ 64" by (rule int_less_2_64)
  then have m: "((int j - int i) * int (vec_type_size v)) mod 2 ^ 64 = (int j - int i) * int (vec_type_size v)"
    using assms(1) by (intro mod_pos_pos_trivial) (auto simp: of_nat_diff)
  have "signed_take_bit 31 (int j - int i) = int j - int i"
    using assms by (intro signed_take_bit_int_eq_self) auto
  then show ?thesis
    using assms m iter_at_valid [of i v] iter_at_valid [of j v] by (simp add: vector_iter_distance_def e Let_def)
qed

text \<open>
  Backwards the difference wraps; unless the element size divides \<^verbatim>\<open>2 ^ 64\<close> the assertion fails.
\<close>

lemma iter_distance_back:
  assumes "i < j" "j \<le> vec_size v" "\<not> int (vec_type_size v) dvd 2 ^ 64" "vec_size v * vec_type_size v < 2 ^ 64"
  shows "vector_iter_distance v (iter_at v j) (iter_at v i) = None"
proof -
  let ?t = "int (vec_type_size v)" and ?d = "int j - int i"
  show ?thesis
  proof (cases "vec_type_size v = 0")
    case True
    then show ?thesis by (simp add: vector_iter_distance_def Let_def)
  next
    case False
    then have t: "0 < ?t" by simp
  have e: "iter_at v i - iter_at v j = - (?d * ?t)"
    by (simp add: iter_at_def vec_offset_def algebra_simps)
  have "\<not> ?t dvd (- (?d * ?t)) mod 2 ^ 64"
  proof
    assume a: "?t dvd (- (?d * ?t)) mod 2 ^ 64"
    have "(j - i) * vec_type_size v < 2 ^ 64"
      using assms(2,4) by (meson diff_le_self le_less_trans le_trans mult_le_mono1)
    then have "int ((j - i) * vec_type_size v) < 2 ^ 64" by (rule int_less_2_64)
    then have b: "?d * ?t < 2 ^ 64" using assms(1) by (simp add: of_nat_diff)
    have "0 < ?d * ?t" using assms(1) t by simp
    moreover have "(- x) mod 2 ^ 64 = 2 ^ 64 - x" if "0 < x" "x < 2 ^ 64" for x :: int
      using that by (simp add: zmod_zminus1_eq_if)
    ultimately have "(- (?d * ?t)) mod 2 ^ 64 = 2 ^ 64 - ?d * ?t" using b by blast
    with a have "?t dvd 2 ^ 64 - ?d * ?t" by (simp only:)
    then have "?t dvd (2 ^ 64 - ?d * ?t) + ?d * ?t" by (rule dvd_add) (rule dvd_triv_right)
    then have "?t dvd 2 ^ 64" by (simp only: diff_add_cancel)
    with assms(3) show False by (rule notE)
  qed
  then have n: "(vec_type_size v \<noteq> 0 \<and> (- (?d * ?t)) mod 2 ^ 64 mod ?t = 0) = False"
    by (simp only: dvd_eq_mod_eq_0 simp_thms)
  show ?thesis unfolding vector_iter_distance_def Let_def bind_c_assert e n by simp
  qed
qed


section \<open>Properties\<close>

text \<open>A vector of three 16-bit integers in a block of four slots.\<close>

definition vec3 :: "16 word vec" where
  "vec3 = \<lparr>vec_size = 3, vec_capacity = 4, vec_data = 1000, vec_slots = [10, 20, 30, 99],
     vec_type = int16_type, vec_type_size = 2, vec_zero = 0\<rparr>"

lemma vec3_rep: "vec_rep vec3 [10, 20, 30]"
  by (simp add: vec3_def vec_rep_def vec_ok_def vec_list_def)

lemma vec3_sel [simp]:
  "vec_type vec3 = int16_type" "vec_zero vec3 = 0" "vec_type_size vec3 = 2" "vec_size vec3 = 3" "vec_capacity vec3 = 4"
  by (simp_all add: vec3_def)



text \<open>\<^verbatim>\<open>vector_erase_pos\<close> removes exactly the element at the position and does not reallocate.\<close>

theorem vector_erase_pos_refines:
  assumes "vec_rep v xs" "i < length xs"
  shows "\<exists>v'. vector_erase_pos v (int i) = Some v' \<and> vec_rep v' (take i xs @ drop (Suc i) xs) \<and>
    vec_data v' = vec_data v \<and> vec_capacity v' = vec_capacity v"
  using erase_ptr_rep [OF assms] assms(2) vec_rep_length [OF assms(1)]
  by (auto simp: vector_erase_pos_def)

theorem vector_erase_pos_refines_witness:
  "\<exists>v'. vector_erase_pos vec3 1 = Some v' \<and> vec_rep v' [10, 30]"
  using vector_erase_pos_refines [OF vec3_rep, of 1] by auto

text \<open>The growth loop of \<^verbatim>\<open>vector_reserve\<close> terminates without overflow for up to \<^verbatim>\<open>2^30\<close> elements,
  reaches the requested capacity, and less than doubles it beyond the request.\<close>

theorem vector_grow_capacity_bounds:
  assumes "0 < c" "newcap \<le> vec_max"
  shows "\<exists>c'. grow_capacity c newcap = Some c' \<and> int newcap \<le> c' \<and> c \<le> c' \<and> (c' = c \<or> c' < 2 * int newcap)"
  using grow_capacity_ok [OF assms] .

theorem vector_grow_capacity_bounds_witness: "\<exists>c'. grow_capacity 32 100 = Some c' \<and> 100 \<le> c' \<and> c' < 200"
  using vector_grow_capacity_bounds [of 32 100] by auto

text \<open>Iterator arithmetic moves by whole elements and is accepted exactly inside the vector.\<close>

theorem vector_iter_next_n_correct:
  assumes "vec_rep v xs" "i \<le> length xs"
  shows "vector_iter_next_n v (iter_at v i) step =
    (if 0 \<le> int i + step \<and> int i + step \<le> int (length xs) then Some (iter_at v (nat (int i + step))) else None)"
  using iter_next_n_at [of i v step] assms vec_rep_length [OF assms(1)] by (auto simp: vec_rep_def vec_ok_def)

theorem vector_iter_next_n_correct_witness:
  "vector_iter_next_n vec3 (iter_at vec3 0) 2 = Some (iter_at vec3 2)"
  using vector_iter_next_n_correct [OF vec3_rep, of 0 2] by simp

text \<open>The distance from an iterator back to an earlier one fails its own assertion whenever the
  element size does not divide \<^verbatim>\<open>2^64\<close>.\<close>

theorem vector_iter_distance_back_fails:
  assumes "i < j" "j \<le> vec_size v" "\<not> int (vec_type_size v) dvd 2 ^ 64" "vec_size v * vec_type_size v < 2 ^ 64"
  shows "vector_iter_distance v (iter_at v j) (iter_at v i) = None"
  using iter_distance_back [OF assms] .

theorem vector_iter_distance_back_fails_witness:
  "vector_iter_distance (vec3\<lparr>vec_type_size := 12\<rparr>) (iter_at (vec3\<lparr>vec_type_size := 12\<rparr>) 2) (iter_at (vec3\<lparr>vec_type_size := 12\<rparr>) 0) = None"
proof -
  have "\<not> (12::int) dvd 2 ^ 64" by (simp add: dvd_eq_mod_eq_0)
  then show ?thesis using vector_iter_distance_back_fails [of 0 2 "vec3\<lparr>vec_type_size := 12\<rparr>"] by simp
qed

end
