(* ===== verification/Clist.thy ===== *)
theory Clist
  imports Ctypes
begin

text \<open>
  The doubly linked list of \<^verbatim>\<open>ohstl/clist.c\<close> on an explicit store: a circle of nodes through the guard
  node that \<^verbatim>\<open>_list_init\<close> allocates. Reads and writes through \<open>NULL\<close> or through an address that is not
  allocated fail. The address returned by the allocator and the contents of new memory are arguments.
\<close>

section \<open>State\<close>

record listnode =
  ln_pre :: addr
  ln_next :: addr

type_synonym listheap = "addr \<rightharpoonup> listnode"

record 'a clist =
  cl_nodes :: listheap
  cl_data :: "addr \<rightharpoonup> 'a"
  cl_size :: nat
  cl_guard :: addr
  cl_type :: "'a tfuncs"
  cl_zero :: 'a

definition ln_get :: "listheap \<Rightarrow> addr \<Rightarrow> listnode option" where
  "ln_get h p = (if p = NULL then None else h p)"

definition pre_of :: "listheap \<Rightarrow> addr \<Rightarrow> addr option" where
  "pre_of h p = map_option ln_pre (ln_get h p)"

definition next_of :: "listheap \<Rightarrow> addr \<Rightarrow> addr option" where
  "next_of h p = map_option ln_next (ln_get h p)"

definition set_pre :: "listheap \<Rightarrow> addr \<Rightarrow> addr \<Rightarrow> listheap option" where
  "set_pre h p v = do { n \<leftarrow> ln_get h p; Some (h(p \<mapsto> n\<lparr>ln_pre := v\<rparr>)) }"

definition set_next :: "listheap \<Rightarrow> addr \<Rightarrow> addr \<Rightarrow> listheap option" where
  "set_next h p v = do { n \<leftarrow> ln_get h p; Some (h(p \<mapsto> n\<lparr>ln_next := v\<rparr>)) }"

definition listnode_data :: "'a clist \<Rightarrow> addr \<Rightarrow> 'a option" where
  "listnode_data l p = (if p = NULL then None else cl_data l p)"

section \<open>Creation and destruction\<close>

text \<open>\<open>g\<close> is the address returned for the guard; without memory \<^verbatim>\<open>_list_init\<close> frees the list itself.\<close>

definition list_init :: "'a tfuncs \<Rightarrow> 'a \<Rightarrow> addr \<Rightarrow> 'a clist option" where
  "list_init tp z g = (if g = NULL then None else do {
     h \<leftarrow> set_pre [g \<mapsto> \<lparr>ln_pre = NULL, ln_next = NULL\<rparr>] g g;
     h \<leftarrow> set_next h g g;
     Some \<lparr>cl_nodes = h, cl_data = Map.empty, cl_size = 0, cl_guard = g, cl_type = tp, cl_zero = z\<rparr> })"

section \<open>Linking and unlinking nodes\<close>

text \<open>\<open>p\<close> is the new node, \<open>m\<close> the contents of its memory; without memory the list is unchanged.\<close>

definition list_append_node_varg :: "'a clist \<Rightarrow> addr \<Rightarrow> 'a varg \<Rightarrow> addr \<Rightarrow> 'a \<Rightarrow> 'a clist option" where
  "list_append_node_varg l prenode arg p m = do {
     c_assert (prenode \<noteq> NULL);
     if p = NULL then Some l
     else do {
       let h = (cl_nodes l)(p \<mapsto> \<lparr>ln_pre = NULL, ln_next = NULL\<rparr>);
       h \<leftarrow> set_pre h p prenode;
       nx \<leftarrow> next_of h prenode;
       h \<leftarrow> set_next h p nx;
       nx \<leftarrow> next_of h p;
       h \<leftarrow> set_pre h nx p;
       pr \<leftarrow> pre_of h p;
       h \<leftarrow> set_next h pr p;
       let d = get_varg_value (cl_type l) (cl_zero l) arg (type_init (cl_type l) m);
       Some (l\<lparr>cl_nodes := h, cl_data := (cl_data l)(p \<mapsto> d), cl_size := cl_size l + 1\<rparr>) } }"

definition list_erase_node :: "'a clist \<Rightarrow> addr \<Rightarrow> 'a clist option" where
  "list_erase_node l node = do {
     c_assert (node \<noteq> cl_guard l);
     pr \<leftarrow> pre_of (cl_nodes l) node;
     nx \<leftarrow> next_of (cl_nodes l) node;
     h \<leftarrow> set_next (cl_nodes l) pr nx;
     nx \<leftarrow> next_of h node;
     pr \<leftarrow> pre_of h node;
     h \<leftarrow> set_pre h nx pr;
     d \<leftarrow> listnode_data l node;
     Some (l\<lparr>cl_nodes := h(node := None), cl_data := (cl_data l)(node := None), cl_size := cl_size l - 1\<rparr>) }"

section \<open>The public operations\<close>

definition list_front :: "'a clist \<Rightarrow> addr option" where
  "list_front l = (if cl_size l = 0 then Some NULL else next_of (cl_nodes l) (cl_guard l))"

definition list_back :: "'a clist \<Rightarrow> addr option" where
  "list_back l = (if cl_size l = 0 then Some NULL else pre_of (cl_nodes l) (cl_guard l))"

definition list_push_back :: "'a clist \<Rightarrow> 'a varg \<Rightarrow> addr \<Rightarrow> 'a \<Rightarrow> 'a clist option" where
  "list_push_back l arg p m = do {
     pr \<leftarrow> pre_of (cl_nodes l) (cl_guard l);
     list_append_node_varg l pr arg p m }"

definition list_push_front :: "'a clist \<Rightarrow> 'a varg \<Rightarrow> addr \<Rightarrow> 'a \<Rightarrow> 'a clist option" where
  "list_push_front l arg p m = list_append_node_varg l (cl_guard l) arg p m"

definition list_pop_back :: "'a clist \<Rightarrow> 'a clist option" where
  "list_pop_back l = do { pr \<leftarrow> pre_of (cl_nodes l) (cl_guard l); list_erase_node l pr }"

definition list_pop_front :: "'a clist \<Rightarrow> 'a clist option" where
  "list_pop_front l = do { nx \<leftarrow> next_of (cl_nodes l) (cl_guard l); list_erase_node l nx }"

definition list_clear :: "'a clist \<Rightarrow> 'a clist option" where
  "list_clear l = while_c (\<lambda>l. Some (cl_size l \<noteq> 0)) list_pop_front l"

definition list_destroy :: "'a clist \<Rightarrow> 'a clist option" where
  "list_destroy l = do {
     l \<leftarrow> list_clear l;
     n \<leftarrow> ln_get (cl_nodes l) (cl_guard l);
     Some (l\<lparr>cl_nodes := (cl_nodes l)(cl_guard l := None)\<rparr>) }"

section \<open>Iterators\<close>

text \<open>An iterator of the list is the address of a node; every iterator counts as valid.\<close>

definition list_iter_is_vaild :: "'a clist \<Rightarrow> addr \<Rightarrow> bool" where
  "list_iter_is_vaild l p = True"

definition list_begin :: "'a clist \<Rightarrow> addr option" where
  "list_begin l = next_of (cl_nodes l) (cl_guard l)"

definition list_end :: "'a clist \<Rightarrow> addr" where
  "list_end l = cl_guard l"

definition list_insert_iter :: "'a clist \<Rightarrow> addr \<Rightarrow> 'a varg \<Rightarrow> addr \<Rightarrow> 'a \<Rightarrow> ('a clist \<times> addr) option" where
  "list_insert_iter l iter arg p m = do {
     c_assert (list_iter_is_vaild l iter);
     pr \<leftarrow> pre_of (cl_nodes l) iter;
     l \<leftarrow> list_append_node_varg l pr arg p m;
     pr \<leftarrow> pre_of (cl_nodes l) iter;
     Some (l, pr) }"

definition list_erase :: "'a clist \<Rightarrow> addr \<Rightarrow> ('a clist \<times> addr) option" where
  "list_erase l iter = do {
     c_assert (list_iter_is_vaild l iter);
     nx \<leftarrow> next_of (cl_nodes l) iter;
     l \<leftarrow> list_erase_node l iter;
     Some (l, nx) }"

definition list_iter_equal :: "'a clist \<Rightarrow> addr \<Rightarrow> addr \<Rightarrow> bool option" where
  "list_iter_equal l iter0 iter1 = do {
     c_assert (list_iter_is_vaild l iter0);
     c_assert (list_iter_is_vaild l iter1);
     Some (iter0 = iter1) }"

definition list_iter_next :: "'a clist \<Rightarrow> addr \<Rightarrow> addr option" where
  "list_iter_next l iter = do {
     c_assert (list_iter_is_vaild l iter);
     e \<leftarrow> list_iter_equal l iter (list_end l);
     c_assert (\<not> e);
     next_of (cl_nodes l) iter }"

definition list_iter_pre :: "'a clist \<Rightarrow> addr \<Rightarrow> addr option" where
  "list_iter_pre l iter = do {
     c_assert (list_iter_is_vaild l iter);
     b \<leftarrow> list_begin l;
     e \<leftarrow> list_iter_equal l iter b;
     c_assert (\<not> e);
     pre_of (cl_nodes l) iter }"

text \<open>
  \<^verbatim>\<open>step > list_size(lst) - step\<close> compares \<^verbatim>\<open>size_t\<close> values, and the assignment to \<^verbatim>\<open>step\<close> converts the
  \<^verbatim>\<open>size_t\<close> difference back to \<^verbatim>\<open>int\<close>.
\<close>

definition list_iter_shortcut :: "int \<Rightarrow> nat \<Rightarrow> bool" where
  "list_iter_shortcut step sz = ((of_nat sz :: 64 word) - of_int step < of_int step)"

definition list_iter_shorten :: "int \<Rightarrow> nat \<Rightarrow> int" where
  "list_iter_shorten step sz = signed_take_bit 31 (uint ((of_int step :: 64 word) - of_nat sz))"

definition list_iter_next_n :: "'a clist \<Rightarrow> addr \<Rightarrow> int \<Rightarrow> addr option" where
  "list_iter_next_n l iter step = do {
     c_assert (list_iter_is_vaild l iter);
     b \<leftarrow> list_begin l;
     e \<leftarrow> list_iter_equal l iter b;
     let step = (if e \<and> list_iter_shortcut step (cl_size l) then list_iter_shorten step (cl_size l) else step);
     (node, step) \<leftarrow> (if step > 0 then
         while_c (\<lambda>(node, step). Some (step \<noteq> 0 \<and> node \<noteq> cl_guard l))
           (\<lambda>(node, step). do { nx \<leftarrow> next_of (cl_nodes l) node; Some (nx, step - 1) }) (iter, step)
       else if step < 0 then
         while_c (\<lambda>(node, step). if step \<noteq> 0
             then do { b \<leftarrow> next_of (cl_nodes l) (cl_guard l); Some (node \<noteq> b) } else Some False)
           (\<lambda>(node, step). do { pr \<leftarrow> pre_of (cl_nodes l) node; Some (pr, step + 1) }) (iter, step)
       else Some (iter, step));
     c_assert (step = 0);
     Some node }"

definition list_iter_pre_n :: "'a clist \<Rightarrow> addr \<Rightarrow> int \<Rightarrow> addr option" where
  "list_iter_pre_n l iter step = list_iter_next_n l iter (- step)"

text \<open>One direction of the search in \<^verbatim>\<open>_list_iter_distance\<close>.\<close>

definition list_iter_walk :: "'a clist \<Rightarrow> addr \<Rightarrow> addr \<Rightarrow> (addr \<times> int) option" where
  "list_iter_walk l iter target = while_c
     (\<lambda>(iteru, dist). do {
        e \<leftarrow> list_iter_equal l iteru (list_end l);
        if e then Some False else map_option Not (list_iter_equal l target iteru) })
     (\<lambda>(iteru, dist). do { nx \<leftarrow> list_iter_next l iteru; Some (nx, dist + 1) }) (iter, 0)"

definition list_iter_distance :: "'a clist \<Rightarrow> addr \<Rightarrow> addr \<Rightarrow> int option" where
  "list_iter_distance l iter0 iter1 = do {
     c_assert (list_iter_is_vaild l iter0);
     (iteru, dist) \<leftarrow> list_iter_walk l iter0 iter1;
     e \<leftarrow> list_iter_equal l iteru iter1;
     if e then Some dist
     else do {
       (iteru, dist) \<leftarrow> list_iter_walk l iter1 iter0;
       e \<leftarrow> list_iter_equal l iteru iter0;
       c_assert e;
       Some (- dist) } }"

definition list_iter_get_pointer :: "'a clist \<Rightarrow> addr \<Rightarrow> addr option" where
  "list_iter_get_pointer l iter = do { c_assert (list_iter_is_vaild l iter); Some iter }"

definition list_iter_get_value :: "'a clist \<Rightarrow> addr \<Rightarrow> 'a \<Rightarrow> 'a option" where
  "list_iter_get_value l iter elm = do {
     c_assert (list_iter_is_vaild l iter);
     e \<leftarrow> list_iter_equal l iter (list_end l);
     c_assert (\<not> e);
     d \<leftarrow> listnode_data l iter;
     Some (type_copy (cl_type l) elm d) }"

definition list_iter_set_value :: "'a clist \<Rightarrow> addr \<Rightarrow> 'a \<Rightarrow> 'a clist option" where
  "list_iter_set_value l iter elm = do {
     c_assert (list_iter_is_vaild l iter);
     e \<leftarrow> list_iter_equal l iter (list_end l);
     c_assert (\<not> e);
     d \<leftarrow> listnode_data l iter;
     Some (l\<lparr>cl_data := (cl_data l)(iter \<mapsto> type_copy (cl_type l) d elm)\<rparr>) }"

end
