(* ===== verification/ClistSpec.thy ===== *)
theory ClistSpec
  imports Clist Cbuiltin
begin

text \<open>
  The circle of nodes represents a list of addresses; every operation of \<^verbatim>\<open>clist.c\<close> is the list operation
  of its name on it.
\<close>

section \<open>Chains\<close>

text \<open>\<open>dseg h p ns q\<close>: from \<open>p\<close> through the nodes \<open>ns\<close> to \<open>q\<close>, linked in both directions.\<close>

fun dseg :: "listheap \<Rightarrow> addr \<Rightarrow> addr list \<Rightarrow> addr \<Rightarrow> bool" where
  "dseg h p [] q \<longleftrightarrow> next_of h p = Some q \<and> pre_of h q = Some p"
| "dseg h p (x # xs) q \<longleftrightarrow> next_of h p = Some x \<and> pre_of h x = Some p \<and> dseg h x xs q"

lemma dseg_append: "dseg h p (xs @ y # ys) q \<longleftrightarrow> dseg h p xs y \<and> dseg h y ys q"
  by (induction xs arbitrary: p) auto

lemma dseg_first: "dseg h p xs q \<Longrightarrow> next_of h p = Some (hd (xs @ [q]))"
  by (cases xs) auto

lemma dseg_last: "dseg h p xs q \<Longrightarrow> pre_of h q = Some (last (p # xs))"
  by (induction xs arbitrary: p) auto

lemma dseg_frame:
  "dseg h p xs q \<Longrightarrow> (\<And>x. x \<in> set (p # xs) \<Longrightarrow> next_of h' x = next_of h x) \<Longrightarrow>
    (\<And>x. x \<in> set (xs @ [q]) \<Longrightarrow> pre_of h' x = pre_of h x) \<Longrightarrow> dseg h' p xs q"
  by (induction xs arbitrary: p) auto

definition clist_rep :: "'a clist \<Rightarrow> addr list \<Rightarrow> bool" where
  "clist_rep l ns \<longleftrightarrow> distinct (cl_guard l # ns) \<and> NULL \<notin> set (cl_guard l # ns) \<and>
     dseg (cl_nodes l) (cl_guard l) ns (cl_guard l) \<and> dom (cl_nodes l) = set (cl_guard l # ns) \<and>
     dom (cl_data l) = set ns \<and> cl_size l = length ns"

definition clist_vals :: "'a clist \<Rightarrow> addr list \<Rightarrow> 'a list" where
  "clist_vals l ns = map (\<lambda>n. the (cl_data l n)) ns"

text \<open>The node before and after each position of the circle.\<close>

lemma rep_split:
  "clist_rep l (xs @ y # ys) \<Longrightarrow> pre_of (cl_nodes l) y = Some (last (cl_guard l # xs)) \<and>
     next_of (cl_nodes l) y = Some (hd (ys @ [cl_guard l]))"
  unfolding clist_rep_def dseg_append using dseg_first dseg_last by blast

lemma rep_guard:
  "clist_rep l ns \<Longrightarrow> pre_of (cl_nodes l) (cl_guard l) = Some (last (cl_guard l # ns)) \<and>
     next_of (cl_nodes l) (cl_guard l) = Some (hd (ns @ [cl_guard l]))"
  unfolding clist_rep_def using dseg_first dseg_last by blast

section \<open>Linking a node\<close>

text \<open>The new links, between the node \<open>a\<close> and its successor \<open>b\<close> (possibly the same node).\<close>

definition linked :: "listheap \<Rightarrow> addr \<Rightarrow> addr \<Rightarrow> addr \<Rightarrow> listheap \<Rightarrow> bool" where
  "linked h a b p h' \<longleftrightarrow> dom h' = insert p (dom h) \<and>
     (\<forall>x. next_of h' x = (if x = a then Some p else if x = p then Some b else next_of h x)) \<and>
     (\<forall>x. pre_of h' x = (if x = b then Some p else if x = p then Some a else pre_of h x))"

lemma append_links:
  assumes a: "a \<noteq> NULL" "h a = Some na" "ln_next na = b" and b: "b \<noteq> NULL" "h b = Some nb"
    and p: "p \<noteq> NULL" "h p = None"
  shows "\<exists>h1 h2 h3 h4. set_pre (h(p \<mapsto> \<lparr>ln_pre = NULL, ln_next = NULL\<rparr>)) p a = Some h1 \<and> next_of h1 a = Some b \<and>
    set_next h1 p b = Some h2 \<and> next_of h2 p = Some b \<and> set_pre h2 b p = Some h3 \<and> pre_of h3 p = Some a \<and>
    set_next h3 a p = Some h4 \<and> linked h a b p h4"
proof -
  let ?h2 = "h(p \<mapsto> \<lparr>ln_pre = a, ln_next = b\<rparr>)" and ?h3 = "h(p \<mapsto> \<lparr>ln_pre = a, ln_next = b\<rparr>, b \<mapsto> nb\<lparr>ln_pre := p\<rparr>)"
  have ne: "a \<noteq> p" "b \<noteq> p" using assms by auto
  note D = set_pre_def set_next_def next_of_def pre_of_def ln_get_def
  have 1: "set_pre (h(p \<mapsto> \<lparr>ln_pre = NULL, ln_next = NULL\<rparr>)) p a = Some (h(p \<mapsto> \<lparr>ln_pre = a, ln_next = NULL\<rparr>))"
    "next_of (h(p \<mapsto> \<lparr>ln_pre = a, ln_next = NULL\<rparr>)) a = Some b" "set_next (h(p \<mapsto> \<lparr>ln_pre = a, ln_next = NULL\<rparr>)) p b = Some ?h2"
    "next_of ?h2 p = Some b" "set_pre ?h2 b p = Some ?h3" "pre_of ?h3 p = Some a"
    using assms ne by (simp_all add: D)
  have "\<exists>h4. set_next ?h3 a p = Some h4 \<and> linked h a b p h4"
  proof (cases "a = b")
    case True
    then have "set_next ?h3 a p = Some (?h3(a \<mapsto> nb\<lparr>ln_pre := p, ln_next := p\<rparr>))" using assms ne by (simp add: D)
    moreover have "linked h a b p (?h3(a \<mapsto> nb\<lparr>ln_pre := p, ln_next := p\<rparr>))"
      using assms ne True by (auto simp: D linked_def)
    ultimately show ?thesis by blast
  next
    case False
    then have "set_next ?h3 a p = Some (?h3(a \<mapsto> na\<lparr>ln_next := p\<rparr>))" using assms ne by (simp add: D)
    moreover have "linked h a b p (?h3(a \<mapsto> na\<lparr>ln_next := p\<rparr>))"
      using assms ne False by (auto simp: D linked_def)
    ultimately show ?thesis by blast
  qed
  with 1 show ?thesis by blast
qed

lemma dseg_linked_snoc:
  "dseg h p xs b \<Longrightarrow> linked h (last (p # xs)) b n h' \<Longrightarrow> distinct (p # xs) \<Longrightarrow> b \<notin> set xs \<Longrightarrow>
    n \<notin> set (p # xs) \<Longrightarrow> n \<noteq> b \<Longrightarrow> dseg h' p (xs @ [n]) b"
proof (induction xs arbitrary: p)
  case Nil
  then show ?case by (simp add: linked_def)
next
  case (Cons x xs)
  then have "p \<noteq> last (x # xs)" by (metis distinct.simps(2) last_in_set list.discI)
  with Cons show ?case by (simp add: linked_def)
qed

lemma linked_rest:
  assumes "linked h a b n h'" "dseg h b ys q" "n \<notin> set (b # ys @ [q])" "a \<notin> set (b # ys)" "b \<notin> set (ys @ [q])"
  shows "dseg h' b ys q"
  by (rule dseg_frame [OF assms(2)]) (use assms(1,3-5) in \<open>auto simp: linked_def\<close>)

lemma append_rep:
  assumes R: "clist_rep l (xs @ ys)" and p: "p \<noteq> NULL" "p \<notin> dom (cl_nodes l)"
  shows "\<exists>l'. list_append_node_varg l (last (cl_guard l # xs)) arg p m = Some l' \<and> clist_rep l' (xs @ p # ys) \<and>
    cl_guard l' = cl_guard l \<and> cl_type l' = cl_type l \<and> cl_zero l' = cl_zero l \<and>
    cl_data l' = (cl_data l)(p \<mapsto> get_varg_value (cl_type l) (cl_zero l) arg (type_init (cl_type l) m))"
proof -
  let ?g = "cl_guard l" and ?h = "cl_nodes l"
  let ?a = "last (?g # xs)" and ?b = "hd (ys @ [?g])"
  have D: "distinct (?g # xs @ ys)" "NULL \<notin> set (?g # xs @ ys)" "dseg ?h ?g (xs @ ys) ?g" "dom ?h = set (?g # xs @ ys)"
    using R by (auto simp: clist_rep_def)
  have in_a: "?a \<in> set (?g # xs @ ys)" by (cases xs) auto
  have in_b: "?b \<in> set (?g # xs @ ys)" by (cases ys) auto
  have pos: "?a \<noteq> NULL" "?b \<noteq> NULL" using D(2) in_a in_b by metis+
  obtain na nb where n: "?h ?a = Some na" "?h ?b = Some nb" using D(4) in_a in_b by (metis domD)
  have next_a: "next_of ?h ?a = Some ?b"
  proof (cases xs rule: rev_cases)
    case Nil
    then show ?thesis using rep_guard [OF R] by simp
  next
    case (snoc zs z)
    then show ?thesis using rep_split [of l zs z ys] R by simp
  qed
  then have "ln_next na = ?b" using n pos by (simp add: next_of_def ln_get_def)
  from append_links [OF pos(1) n(1) this pos(2) n(2) p(1)] p(2) obtain h1 h2 h3 h4 where
    h: "set_pre (?h(p \<mapsto> \<lparr>ln_pre = NULL, ln_next = NULL\<rparr>)) p ?a = Some h1" "next_of h1 ?a = Some ?b"
      "set_next h1 p ?b = Some h2" "next_of h2 p = Some ?b" "set_pre h2 ?b p = Some h3" "pre_of h3 p = Some ?a"
      "set_next h3 ?a p = Some h4" and L: "linked ?h ?a ?b p h4" by blast
  have pn: "p \<notin> set (?g # xs @ ys)" using p D(4) by simp
  have "dseg h4 ?g (xs @ p # ys) ?g"
  proof (cases ys)
    case Nil
    then show ?thesis using dseg_linked_snoc [of ?h ?g xs ?g p h4] D L pn by simp
  next
    case (Cons y ys')
    then have "dseg ?h ?g xs y" "dseg ?h y ys' ?g" using D(3) by (simp_all add: dseg_append)
    then have "dseg h4 ?g (xs @ [p]) y" using dseg_linked_snoc [of ?h ?g xs y p h4] D L pn Cons by auto
    moreover have "?a \<notin> set (y # ys')" using D(1) Cons by (cases xs rule: rev_cases) auto
    then have "dseg h4 y ys' ?g"
      using linked_rest [of ?h ?a y p h4 ys' ?g] \<open>dseg ?h y ys' ?g\<close> L pn D(1) Cons by simp
    ultimately show ?thesis using Cons dseg_append [of h4 ?g "xs @ [p]" y ys' ?g] by simp
  qed
  moreover have "dom h4 = set (?g # xs @ p # ys)" using L D(4) by (auto simp: linked_def)
  ultimately show ?thesis using R p pn h pos
    by (auto simp: list_append_node_varg_def clist_rep_def Let_def)
qed

section \<open>Unlinking a node\<close>

definition unlinked :: "listheap \<Rightarrow> addr \<Rightarrow> addr \<Rightarrow> addr \<Rightarrow> listheap \<Rightarrow> bool" where
  "unlinked h a b n h' \<longleftrightarrow> dom h' = dom h - {n} \<and>
     (\<forall>x. x \<noteq> n \<longrightarrow> next_of h' x = (if x = a then Some b else next_of h x)) \<and>
     (\<forall>x. x \<noteq> n \<longrightarrow> pre_of h' x = (if x = b then Some a else pre_of h x))"

lemma dseg_unlinked:
  "dseg h p xs n \<Longrightarrow> unlinked h (last (p # xs)) b n h' \<Longrightarrow> distinct (p # xs) \<Longrightarrow> b \<notin> set xs \<Longrightarrow>
    n \<notin> set (p # xs) \<Longrightarrow> n \<noteq> b \<Longrightarrow> dseg h' p xs b"
proof (induction xs arbitrary: p)
  case Nil
  then show ?case by (simp add: unlinked_def)
next
  case (Cons x xs)
  then have "p \<noteq> last (x # xs)" by (metis distinct.simps(2) last_in_set list.discI)
  with Cons show ?case by (simp add: unlinked_def)
qed

lemma unlinked_rest:
  assumes "unlinked h a b n h'" "dseg h b ys q" "n \<notin> set (b # ys @ [q])" "a \<notin> set (b # ys)" "b \<notin> set (ys @ [q])"
  shows "dseg h' b ys q"
proof (rule dseg_frame [OF assms(2)])
  fix x assume "x \<in> set (b # ys)"
  with assms(3,4) have "x \<noteq> n" "x \<noteq> a" by auto
  with assms(1) show "next_of h' x = next_of h x" unfolding unlinked_def by metis
next
  fix x assume "x \<in> set (ys @ [q])"
  with assms(3,5) have "x \<noteq> n" "x \<noteq> b" by auto
  with assms(1) show "pre_of h' x = pre_of h x" unfolding unlinked_def by metis
qed

lemma erase_links:
  assumes n: "pre_of h n = Some a" "next_of h n = Some b" and d: "a \<in> dom h" "b \<in> dom h" "a \<noteq> n" "b \<noteq> n" "a \<noteq> NULL" "b \<noteq> NULL"
  shows "\<exists>h1 h2. set_next h a b = Some h1 \<and> next_of h1 n = Some b \<and> pre_of h1 n = Some a \<and> set_pre h1 b a = Some h2 \<and>
    unlinked h a b n (h2(n := None))"
proof -
  note D = set_pre_def set_next_def next_of_def pre_of_def ln_get_def
  from d obtain na nb where ab: "h a = Some na" "h b = Some nb" by blast
  let ?h1 = "h(a \<mapsto> na\<lparr>ln_next := b\<rparr>)"
  have 1: "set_next h a b = Some ?h1" "next_of ?h1 n = Some b" "pre_of ?h1 n = Some a"
    using n d ab by (auto simp: D split: if_splits)
  have "\<exists>h2. set_pre ?h1 b a = Some h2 \<and> unlinked h a b n (h2(n := None))"
  proof (cases "a = b")
    case True
    then have "set_pre ?h1 b a = Some (?h1(b \<mapsto> na\<lparr>ln_next := b, ln_pre := a\<rparr>))" using d ab by (simp add: D)
    moreover have "unlinked h a b n (?h1(b \<mapsto> na\<lparr>ln_next := b, ln_pre := a\<rparr>, n := None))"
      using d ab True by (auto simp: D unlinked_def)
    ultimately show ?thesis by blast
  next
    case False
    then have "set_pre ?h1 b a = Some (?h1(b \<mapsto> nb\<lparr>ln_pre := a\<rparr>))" using d ab by (simp add: D)
    moreover have "unlinked h a b n (?h1(b \<mapsto> nb\<lparr>ln_pre := a\<rparr>, n := None))"
      using d ab False by (auto simp: D unlinked_def)
    ultimately show ?thesis by blast
  qed
  with 1 show ?thesis by blast
qed

lemma erase_rep:
  assumes R: "clist_rep l (xs @ n # ys)"
  shows "\<exists>l'. list_erase_node l n = Some l' \<and> clist_rep l' (xs @ ys) \<and>
    cl_guard l' = cl_guard l \<and> cl_type l' = cl_type l \<and> cl_zero l' = cl_zero l \<and> cl_data l' = (cl_data l)(n := None)"
proof -
  let ?g = "cl_guard l" and ?h = "cl_nodes l"
  let ?a = "last (?g # xs)" and ?b = "hd (ys @ [?g])"
  have D: "distinct (?g # xs @ n # ys)" "NULL \<notin> set (?g # xs @ n # ys)" "dseg ?h ?g (xs @ n # ys) ?g"
    "dom ?h = set (?g # xs @ n # ys)" "n \<in> dom (cl_data l)" using R by (auto simp: clist_rep_def)
  have in_ab: "?a \<in> set (?g # xs)" "?b \<in> set (?g # ys)" by (cases xs; auto) (cases ys; auto)
  then have ab: "?a \<in> dom ?h" "?b \<in> dom ?h" "?a \<noteq> n" "?b \<noteq> n" "?a \<noteq> NULL" "?b \<noteq> NULL" using D by auto
  note P = rep_split [OF R]
  from erase_links [OF conjunct1 [OF P] conjunct2 [OF P] ab] obtain h1 h2 where
    h: "set_next ?h ?a ?b = Some h1" "next_of h1 n = Some ?b" "pre_of h1 n = Some ?a" "set_pre h1 ?b ?a = Some h2"
    and U: "unlinked ?h ?a ?b n (h2(n := None))" by blast
  have s: "dseg ?h ?g xs n" "dseg ?h n ys ?g" using D(3) by (simp_all add: dseg_append)
  have pre: "dseg (h2(n := None)) ?g xs ?b"
    by (rule dseg_unlinked [OF s(1) U]) (use D(1) in_ab ab in auto)
  have "dseg (h2(n := None)) ?g (xs @ ys) ?g"
  proof (cases ys)
    case Nil
    then show ?thesis using pre by simp
  next
    case (Cons y ys')
    have "?a \<notin> set ys" using D(1) in_ab by auto
    moreover have "dseg ?h y ys' ?g" using s(2) Cons by simp
    ultimately have "dseg (h2(n := None)) y ys' ?g"
      using unlinked_rest [of ?h ?a y n "h2(n := None)" ys' ?g] U D(1) Cons by simp
    then show ?thesis using pre Cons by (simp add: dseg_append)
  qed
  moreover have "dom (h2(n := None)) = set (?g # xs @ ys)" using U D by (auto simp: unlinked_def)
  moreover obtain d where "listnode_data l n = Some d" using D by (auto simp: listnode_data_def)
  ultimately show ?thesis using R h P D
    by (auto simp: list_erase_node_def clist_rep_def simp del: fun_upd_apply)
qed

section \<open>Positions of the circle\<close>

abbreviation node_at :: "'a clist \<Rightarrow> addr list \<Rightarrow> nat \<Rightarrow> addr" where
  "node_at l ns i \<equiv> (ns @ [cl_guard l]) ! i"

lemma take_last: "i \<le> length ns \<Longrightarrow> last (g # take i ns) = (g # ns) ! i"
  by (cases i) (auto simp: last_conv_nth)

lemma drop_hd: "i \<le> length ns \<Longrightarrow> hd (drop i ns @ [g]) = (ns @ [g]) ! i"
  by (cases "i < length ns") (auto simp: hd_append hd_drop_conv_nth nth_append)

lemma pre_at: "clist_rep l ns \<Longrightarrow> i \<le> length ns \<Longrightarrow> pre_of (cl_nodes l) (node_at l ns i) = Some ((cl_guard l # ns) ! i)"
proof (cases "i = length ns")
  case True
  assume "clist_rep l ns"
  then show ?thesis using rep_guard [of l ns] take_last [of i ns "cl_guard l"] True by simp
next
  case False
  assume R: "clist_rep l ns" and i: "i \<le> length ns"
  then have "clist_rep l (take i ns @ ns ! i # drop (Suc i) ns)" using False by (simp flip: id_take_nth_drop)
  from rep_split [OF this] show ?thesis using take_last [OF i, of "cl_guard l"] i False by (simp add: nth_append)
qed

lemma next_at: "clist_rep l ns \<Longrightarrow> i \<le> length ns \<Longrightarrow> next_of (cl_nodes l) ((cl_guard l # ns) ! i) = Some (node_at l ns i)"
proof (cases i)
  case 0
  assume "clist_rep l ns"
  then show ?thesis using rep_guard [of l ns] 0 drop_hd [of 0 ns "cl_guard l"] by simp
next
  case (Suc j)
  assume R: "clist_rep l ns" and i: "i \<le> length ns"
  then have "clist_rep l (take j ns @ ns ! j # drop i ns)" using Suc by (simp flip: id_take_nth_drop)
  from rep_split [OF this] show ?thesis using drop_hd [OF i, of "cl_guard l"] Suc by simp
qed

lemma next_at_Suc: "clist_rep l ns \<Longrightarrow> i < length ns \<Longrightarrow> next_of (cl_nodes l) (node_at l ns i) = Some (node_at l ns (Suc i))"
  using next_at [of l ns "Suc i"] by (simp add: nth_append)

lemma node_at_inj:
  assumes "clist_rep l ns" "i \<le> length ns" "j \<le> length ns"
  shows "node_at l ns i = node_at l ns j \<longleftrightarrow> i = j"
proof -
  have "distinct (ns @ [cl_guard l])" using assms(1) by (auto simp: clist_rep_def)
  from nth_eq_iff_index_eq [OF this, of i j] assms(2,3) show ?thesis by simp
qed

lemma vals_append [simp]: "clist_vals l (xs @ ys) = clist_vals l xs @ clist_vals l ys"
  by (simp add: clist_vals_def)

lemma vals_length [simp]: "length (clist_vals l ns) = length ns"
  by (simp add: clist_vals_def)

lemma vals_upd: "p \<notin> set ns \<Longrightarrow> cl_data l' = (cl_data l)(p := d) \<Longrightarrow> clist_vals l' ns = clist_vals l ns"
  by (auto simp: clist_vals_def)

lemma vals_take: "clist_vals l (take i ns) = take i (clist_vals l ns)" "clist_vals l (drop i ns) = drop i (clist_vals l ns)"
  by (simp_all add: clist_vals_def take_map drop_map)

section \<open>The operations\<close>

definition fresh_node :: "'a clist \<Rightarrow> addr \<Rightarrow> bool" where
  "fresh_node l p \<longleftrightarrow> p \<noteq> NULL \<and> p \<notin> dom (cl_nodes l)"

text \<open>\<open>same_kind\<close>: what no operation changes.\<close>

definition same_kind :: "'a clist \<Rightarrow> 'a clist \<Rightarrow> bool" where
  "same_kind l l' \<longleftrightarrow> cl_guard l' = cl_guard l \<and> cl_type l' = cl_type l \<and> cl_zero l' = cl_zero l"

definition clist_abs :: "'a clist \<Rightarrow> 'a list \<Rightarrow> bool" where
  "clist_abs l vs \<longleftrightarrow> (\<exists>ns. clist_rep l ns \<and> clist_vals l ns = vs)"

lemma append_at:
  assumes T: "elem_type (cl_type l)" and R: "clist_rep l ns" and i: "i \<le> length ns" and p: "fresh_node l p"
  shows "\<exists>l'. list_append_node_varg l ((cl_guard l # ns) ! i) arg p m = Some l' \<and> clist_rep l' (take i ns @ p # drop i ns) \<and>
    clist_vals l' (take i ns @ p # drop i ns) = take i (clist_vals l ns) @ varg_elem (cl_zero l) arg # drop i (clist_vals l ns) \<and>
    same_kind l l'"
proof -
  have "clist_rep l (take i ns @ drop i ns)" using R by simp
  from append_rep [OF this, of p arg m] p take_last [OF i, of "cl_guard l"] obtain l' where
    l': "list_append_node_varg l ((cl_guard l # ns) ! i) arg p m = Some l'" "clist_rep l' (take i ns @ p # drop i ns)"
      "cl_guard l' = cl_guard l" "cl_type l' = cl_type l" "cl_zero l' = cl_zero l"
      "cl_data l' = (cl_data l)(p \<mapsto> get_varg_value (cl_type l) (cl_zero l) arg (type_init (cl_type l) m))"
    by (auto simp: fresh_node_def)
  have pn: "p \<notin> set ns" using p R by (auto simp: fresh_node_def clist_rep_def)
  have "clist_vals l' [p] = [varg_elem (cl_zero l) arg]"
    using l'(6) elem_type.get_varg [OF T] by (simp add: clist_vals_def)
  moreover have "clist_vals l' (take i ns) = clist_vals l (take i ns)" "clist_vals l' (drop i ns) = clist_vals l (drop i ns)"
    using vals_upd [OF _ l'(6)] pn by (auto dest: in_set_takeD in_set_dropD)
  ultimately have "clist_vals l' (take i ns @ [p] @ drop i ns) =
    take i (clist_vals l ns) @ [varg_elem (cl_zero l) arg] @ drop i (clist_vals l ns)"
    by (simp only: vals_append vals_take)
  then show ?thesis using l' by (simp add: same_kind_def)
qed

lemma erase_at:
  assumes R: "clist_rep l ns" and i: "i < length ns"
  shows "\<exists>l'. list_erase_node l (ns ! i) = Some l' \<and> clist_rep l' (take i ns @ drop (Suc i) ns) \<and>
    clist_vals l' (take i ns @ drop (Suc i) ns) = take i (clist_vals l ns) @ drop (Suc i) (clist_vals l ns) \<and> same_kind l l'"
proof -
  have "clist_rep l (take i ns @ ns ! i # drop (Suc i) ns)" using R i by (simp flip: id_take_nth_drop)
  from erase_rep [OF this] obtain l' where
    l': "list_erase_node l (ns ! i) = Some l'" "clist_rep l' (take i ns @ drop (Suc i) ns)" "same_kind l l'"
      "cl_data l' = (cl_data l)(ns ! i := None)" by (auto simp: same_kind_def)
  have "distinct (take i ns @ ns ! i # drop (Suc i) ns)" using R i by (simp add: clist_rep_def flip: id_take_nth_drop)
  then have "ns ! i \<notin> set (take i ns @ drop (Suc i) ns)" by simp
  from vals_upd [OF this l'(4)] l' show ?thesis by (simp add: vals_take)
qed

lemma guard_links:
  assumes "clist_rep l ns"
  shows "pre_of (cl_nodes l) (cl_guard l) = Some ((cl_guard l # ns) ! length ns)"
    "next_of (cl_nodes l) (cl_guard l) = Some (node_at l ns 0)"
  using pre_at [OF assms, of "length ns"] next_at [OF assms, of 0] by simp_all

lemma push_back_abs:
  "elem_type (cl_type l) \<Longrightarrow> clist_abs l vs \<Longrightarrow> fresh_node l p \<Longrightarrow>
    \<exists>l'. list_push_back l arg p m = Some l' \<and> clist_abs l' (vs @ [varg_elem (cl_zero l) arg]) \<and> same_kind l l'"
  unfolding clist_abs_def list_push_back_def using append_at [of l _ "length _" p arg m] guard_links
  by fastforce

lemma push_front_abs:
  "elem_type (cl_type l) \<Longrightarrow> clist_abs l vs \<Longrightarrow> fresh_node l p \<Longrightarrow>
    \<exists>l'. list_push_front l arg p m = Some l' \<and> clist_abs l' (varg_elem (cl_zero l) arg # vs) \<and> same_kind l l'"
  unfolding clist_abs_def list_push_front_def using append_at [of l _ 0 p arg m] by fastforce

lemma pop_front_abs:
  assumes "clist_abs l (v # vs)"
  shows "\<exists>l'. list_pop_front l = Some l' \<and> clist_abs l' vs \<and> same_kind l l'"
proof -
  from assms obtain n ns where R: "clist_rep l (n # ns)" "clist_vals l ns = vs"
    unfolding clist_abs_def clist_vals_def by (metis map_eq_Cons_D)
  from erase_at [OF R(1), of 0] obtain l' where "list_erase_node l n = Some l'" "clist_rep l' ns"
    "clist_vals l' ns = clist_vals l ns" "same_kind l l'" by (auto simp: clist_vals_def)
  then show ?thesis using R(2) guard_links(2) [OF R(1)] unfolding list_pop_front_def clist_abs_def by auto
qed

lemma pop_back_abs:
  assumes "clist_abs l (vs @ [v])"
  shows "\<exists>l'. list_pop_back l = Some l' \<and> clist_abs l' vs \<and> same_kind l l'"
proof -
  from assms obtain ns n where R: "clist_rep l (ns @ [n])" "clist_vals l (ns @ [n]) = vs @ [v]"
    unfolding clist_abs_def by (metis vals_length length_append_singleton length_Suc_conv_rev)
  from erase_at [OF R(1), of "length ns"] guard_links [OF R(1)] R(2) obtain l' where
    "list_pop_back l = Some l'" "clist_rep l' ns" "clist_vals l' ns = clist_vals l ns" "same_kind l l'"
    by (auto simp: list_pop_back_def vals_take)
  then show ?thesis using R(2) by (auto simp: clist_abs_def)
qed

lemma clist_abs_size: "clist_abs l vs \<Longrightarrow> cl_size l = length vs"
  by (auto simp: clist_abs_def clist_rep_def)

lemma clear_abs:
  assumes "clist_abs l vs"
  shows "\<exists>l'. list_clear l = Some l' \<and> clist_abs l' [] \<and> same_kind l l'"
proof -
  have "\<exists>l'. list_clear l = Some l' \<and> (clist_abs l' [] \<and> same_kind l l')"
    unfolding list_clear_def
  proof (rule while_c_total [where I = "\<lambda>n l1. same_kind l l1 \<and> (\<exists>vs. clist_abs l1 vs \<and> length vs = n)"])
    show "same_kind l l \<and> (\<exists>vs'. clist_abs l vs' \<and> length vs' = length vs)" using assms by (auto simp: same_kind_def)
  next
    fix n l1 assume "same_kind l l1 \<and> (\<exists>vs. clist_abs l1 vs \<and> length vs = n)"
    then obtain vs where I: "same_kind l l1" "clist_abs l1 vs" "length vs = n" by blast
    show "(Some (cl_size l1 \<noteq> 0) = Some False \<and> clist_abs l1 [] \<and> same_kind l l1) \<or>
      (Some (cl_size l1 \<noteq> 0) = Some True \<and> (\<exists>l2 m. list_pop_front l1 = Some l2 \<and> m < n \<and>
        same_kind l l2 \<and> (\<exists>vs. clist_abs l2 vs \<and> length vs = m)))"
    proof (cases vs)
      case Nil
      then show ?thesis using I clist_abs_size [OF I(2)] by simp
    next
      case (Cons v ws)
      with I(2) have "clist_abs l1 (v # ws)" by simp
      from pop_front_abs [OF this] obtain l2 where l2: "list_pop_front l1 = Some l2" "clist_abs l2 ws" "same_kind l1 l2" by blast
      have "same_kind l l2" using l2(3) I(1) by (simp add: same_kind_def)
      moreover have "length ws < n" "cl_size l1 \<noteq> 0" using I(3) Cons clist_abs_size [OF I(2)] by simp_all
      ultimately show ?thesis using l2(1,2) by blast
    qed
  qed
  then show ?thesis by simp
qed

text \<open>The circle of a cleared list is the guard alone.\<close>

lemma destroy_abs:
  assumes "clist_abs l vs"
  shows "\<exists>l'. list_destroy l = Some l' \<and> cl_nodes l' = Map.empty \<and> cl_data l' = Map.empty"
proof -
  from clear_abs [OF assms] obtain l1 where l1: "list_clear l = Some l1" "clist_rep l1 []"
    by (auto simp: clist_abs_def clist_vals_def)
  then have d: "dom (cl_nodes l1) = {cl_guard l1}" "dom (cl_data l1) = {}" "cl_guard l1 \<noteq> NULL"
    by (auto simp: clist_rep_def)
  then obtain n where "ln_get (cl_nodes l1) (cl_guard l1) = Some n" by (auto simp: ln_get_def)
  moreover have "(cl_nodes l1)(cl_guard l1 := None) = Map.empty"
  proof
    fix x show "((cl_nodes l1)(cl_guard l1 := None)) x = None" using d(1) by (cases "x = cl_guard l1") auto
  qed
  ultimately show ?thesis using l1(1) d(2) by (simp add: list_destroy_def)
qed

section \<open>Iteration\<close>

lemma iter_next_at: "clist_rep l ns \<Longrightarrow> i < length ns \<Longrightarrow> list_iter_next l (node_at l ns i) = Some (node_at l ns (Suc i))"
  using next_at_Suc [of l ns i] node_at_inj [of l ns i "length ns"]
  by (simp add: list_iter_next_def list_iter_equal_def list_end_def list_iter_is_vaild_def)

lemma iter_pre_at: "clist_rep l ns \<Longrightarrow> i < length ns \<Longrightarrow> list_iter_pre l (node_at l ns (Suc i)) = Some (node_at l ns i)"
  using pre_at [of l ns "Suc i"] node_at_inj [of l ns "Suc i" 0] guard_links(2) [of l ns]
  by (simp add: list_iter_pre_def list_iter_equal_def list_begin_def list_iter_is_vaild_def nth_append)

lemma forward_loop:
  assumes R: "clist_rep l ns" and i: "i + k \<le> length ns"
  shows "while_c (\<lambda>(node, step). Some (step \<noteq> 0 \<and> node \<noteq> cl_guard l))
      (\<lambda>(node, step). Option.bind (next_of (cl_nodes l) node) (\<lambda>nx. Some (nx, step - 1))) (node_at l ns i, int k) =
    Some (node_at l ns (i + k), 0)"
  using i
proof (induction k arbitrary: i)
  case 0
  then show ?case by (simp add: while_c_stop)
next
  case (Suc k)
  then have "node_at l ns i \<noteq> cl_guard l" using node_at_inj [OF R, of i "length ns"] by simp
  with Suc.prems next_at_Suc [OF R, of i] show ?case
    by (subst while_c_step [where s' = "(node_at l ns (Suc i), int k)"]) (auto simp: Suc.IH)
qed

lemma backward_loop:
  assumes R: "clist_rep l ns" and i: "i \<le> length ns" "k \<le> i"
  shows "while_c (\<lambda>(node, step). if step \<noteq> 0 then Option.bind (next_of (cl_nodes l) (cl_guard l)) (\<lambda>b. Some (node \<noteq> b)) else Some False)
      (\<lambda>(node, step). Option.bind (pre_of (cl_nodes l) node) (\<lambda>pr. Some (pr, step + 1))) (node_at l ns i, - int k) =
    Some (node_at l ns (i - k), 0)"
  using i
proof (induction k arbitrary: i)
  case 0
  then show ?case by (simp add: while_c_stop)
next
  case (Suc k)
  then obtain j where j: "i = Suc j" by (cases i) auto
  then have "node_at l ns i \<noteq> node_at l ns 0" using node_at_inj [OF R, of i 0] Suc.prems by simp
  moreover have "pre_of (cl_nodes l) (node_at l ns i) = Some (node_at l ns j)"
    using Suc.prems pre_at [OF R, of i] j by (simp add: nth_append)
  moreover have "j - k = i - Suc k" "j \<le> length ns" "k \<le> j" using j Suc.prems by auto
  ultimately show ?case using guard_links(2) [OF R] Suc.IH [of j]
    by (subst while_c_step [where s' = "(node_at l ns j, - int k)"]) auto
qed

text \<open>The arithmetic of the shortcut, for lists and steps below \<open>2 ^ 31\<close>.\<close>

lemma shortcut_nat:
  assumes "k < 2 ^ 31" "n < 2 ^ 31"
  shows "list_iter_shortcut (int k) n \<longleftrightarrow> k \<le> n \<and> n < 2 * k"
  using assms by (auto simp: list_iter_shortcut_def word_less_nat_alt unat_sub_if' unat_of_nat)

lemma shorten_nat:
  assumes "k \<le> n" "n < 2 ^ 31"
  shows "list_iter_shorten (int k) n = int k - int n"
proof -
  have "(of_int (int k) :: 64 word) - of_nat n = word_of_int (int k - int n)" by simp
  then have "list_iter_shorten (int k) n = signed_take_bit 31 (take_bit 64 (int k - int n))"
    unfolding list_iter_shorten_def by (simp only: uint_word_of_int_eq) simp
  also have "\<dots> = signed_take_bit 31 (int k - int n)" by (simp add: signed_take_bit_take_bit)
  also have "\<dots> = int k - int n" using assms by (intro signed_take_bit_int_eq_self) auto
  finally show ?thesis .
qed

lemma next_n_at:
  assumes R: "clist_rep l ns" and i: "i \<le> length ns" "0 \<le> int i + step" "int i + step \<le> int (length ns)"
    and s: "i = 0 \<Longrightarrow> \<not> list_iter_shortcut step (length ns)"
  shows "list_iter_next_n l (node_at l ns i) step = Some (node_at l ns (nat (int i + step)))"
proof -
  have b: "list_begin l = Some (node_at l ns 0)" using guard_links(2) [OF R] by (simp add: list_begin_def)
  have e: "list_iter_equal l (node_at l ns i) (node_at l ns 0) = Some (i = 0)"
    using node_at_inj [OF R i(1), of 0] by (simp add: list_iter_equal_def list_iter_is_vaild_def)
  have sz: "cl_size l = length ns" using R by (simp add: clist_rep_def)
  have st: "(if i = 0 \<and> list_iter_shortcut step (cl_size l) then list_iter_shorten step (cl_size l) else step) = step"
    using s sz by auto
  have v: "list_iter_is_vaild l (node_at l ns i) = True" by (simp add: list_iter_is_vaild_def)
  note U = list_iter_next_n_def Let_def v b e st c_assert_simps Option.bind.simps
  consider "step = 0" | k where "step = int k" "0 < k" | k where "step = - int k" "0 < k"
    by (cases step rule: int_cases3) auto
  then show ?thesis
  proof cases
    case 1
    then show ?thesis unfolding U by simp
  next
    case 2
    then show ?thesis unfolding U using forward_loop [OF R, of i k] i by (simp add: nat_int_add)
  next
    case 3
    then have "nat (int i + step) = i - k" by simp
    then show ?thesis unfolding U using backward_loop [OF R i(1), of k] i 3 by simp
  qed
qed

text \<open>From the first node, a step of more than half the size takes the shortcut backwards, where the loop stops at once.\<close>

lemma next_n_begin:
  assumes R: "clist_rep l ns" and k: "0 < k" "k \<le> length ns" "length ns < 2 * k" "length ns < 2 ^ 31"
  shows "list_iter_next_n l (node_at l ns 0) (int k) = (if k = length ns then Some (node_at l ns 0) else None)"
proof -
  have b: "list_begin l = Some (node_at l ns 0)" "next_of (cl_nodes l) (cl_guard l) = Some (node_at l ns 0)"
    using guard_links(2) [OF R] by (simp_all add: list_begin_def)
  have e: "list_iter_equal l (node_at l ns 0) (node_at l ns 0) = Some True"
    by (simp add: list_iter_equal_def list_iter_is_vaild_def)
  have sz: "cl_size l = length ns" using R by (simp add: clist_rep_def)
  have st: "(if True \<and> list_iter_shortcut (int k) (cl_size l) then list_iter_shorten (int k) (cl_size l) else int k) = int k - int (length ns)"
    using shortcut_nat [of k "length ns"] shorten_nat [of k "length ns"] k sz by simp
  have v: "list_iter_is_vaild l (node_at l ns 0) = True" by (simp add: list_iter_is_vaild_def)
  have stop: "while_c (\<lambda>(node, step). if step \<noteq> 0 then Option.bind (next_of (cl_nodes l) (cl_guard l)) (\<lambda>b. Some (node \<noteq> b)) else Some False)
      (\<lambda>(node, step). Option.bind (pre_of (cl_nodes l) node) (\<lambda>pr. Some (pr, step + 1))) (node_at l ns 0, x) =
    Some (node_at l ns 0, x)" for x :: int
    by (rule while_c_stop) (simp add: b)
  show ?thesis unfolding list_iter_next_n_def Let_def v b(1) e st c_assert_simps Option.bind.simps
    using k stop by (simp add: list_iter_is_vaild_def)
qed

lemma walk_at:
  assumes R: "clist_rep l ns" and ij: "i \<le> length ns" "j \<le> length ns"
  shows "list_iter_walk l (node_at l ns i) (node_at l ns j) =
    (if i \<le> j then Some (node_at l ns j, int j - int i) else Some (cl_guard l, int (length ns) - int i))"
proof -
  define e where "e = (if i \<le> j then j else length ns)"
  let ?b = "\<lambda>(iteru, dist). Option.bind (list_iter_equal l iteru (list_end l))
     (\<lambda>e. if e then Some False else map_option Not (list_iter_equal l (node_at l ns j) iteru))"
  let ?c = "\<lambda>(iteru, dist). Option.bind (list_iter_next l iteru) (\<lambda>nx. Some (nx, dist + 1))"
  have eqs: "list_iter_equal l (node_at l ns m) (list_end l) = Some (m = length ns)"
    "list_iter_equal l (node_at l ns j) (node_at l ns m) = Some (j = m)" if "m \<le> length ns" for m
    using node_at_inj [OF R that, of "length ns"] node_at_inj [OF R ij(2) that]
    by (simp_all add: list_iter_equal_def list_iter_is_vaild_def list_end_def)
  have "while_c ?b ?c (node_at l ns m, d) = Some (node_at l ns e, d + int k)"
    if "m + k = e" "i \<le> m" for m k and d :: int
    using that
  proof (induction k arbitrary: m d)
    case 0
    then have m: "m = e" by simp
    have "?b (node_at l ns e, d) = Some False" using eqs [of e] ij by (auto simp: e_def)
    from while_c_stop [of ?b "(node_at l ns e, d)" ?c, OF this] show ?case unfolding m by simp
  next
    case (Suc k)
    then have m: "m < length ns" "m \<noteq> j" using ij by (auto simp: e_def split: if_splits)
    then have "?b (node_at l ns m, d) = Some True" using eqs [of m] by simp
    moreover have "?c (node_at l ns m, d) = Some (node_at l ns (Suc m), d + 1)" using iter_next_at [OF R m(1)] by simp
    ultimately show ?case using Suc.IH [of "Suc m" "d + 1"] Suc.prems
      by (subst while_c_step [where s' = "(node_at l ns (Suc m), d + 1)"]) auto
  qed
  from this [of i "e - i" 0] show ?thesis using ij by (auto simp: list_iter_walk_def e_def)
qed

lemma distance_at:
  assumes R: "clist_rep l ns" and ij: "i \<le> length ns" "j \<le> length ns"
  shows "list_iter_distance l (node_at l ns i) (node_at l ns j) = Some (int j - int i)"
proof -
  have v: "list_iter_is_vaild l p" for p by (simp add: list_iter_is_vaild_def)
  have eq: "list_iter_equal l p q = Some (p = q)" for p q by (simp add: list_iter_equal_def v)
  show ?thesis
  proof (cases "i \<le> j")
    case True
    then show ?thesis using walk_at [OF R ij] by (simp add: list_iter_distance_def v eq)
  next
    case False
    then have "node_at l ns j \<noteq> cl_guard l" using node_at_inj [OF R ij(2), of "length ns"] ij by simp
    then show ?thesis using walk_at [OF R ij] walk_at [OF R ij(2,1)] False by (simp add: list_iter_distance_def v eq)
  qed
qed

section \<open>Properties\<close>

text \<open>C18: \<^verbatim>\<open>list_insert\<close> before the i-th node (or the end) makes the new node the i-th, holding a copy of the
  argument; the rest of the circle is relinked in both directions.\<close>

theorem list_insert_refines:
  assumes "elem_type (cl_type l)" "clist_rep l ns" "i \<le> length ns" "fresh_node l p"
  shows "\<exists>l'. list_insert_iter l (node_at l ns i) arg p m = Some (l', p) \<and> clist_rep l' (take i ns @ p # drop i ns) \<and>
    clist_vals l' (take i ns @ p # drop i ns) = take i (clist_vals l ns) @ varg_elem (cl_zero l) arg # drop i (clist_vals l ns)"
proof -
  from append_at [OF assms] obtain l' where
    l': "list_append_node_varg l ((cl_guard l # ns) ! i) arg p m = Some l'" "clist_rep l' (take i ns @ p # drop i ns)" "same_kind l l'"
      "clist_vals l' (take i ns @ p # drop i ns) = take i (clist_vals l ns) @ varg_elem (cl_zero l) arg # drop i (clist_vals l ns)" by blast
  have "node_at l' (take i ns @ p # drop i ns) (Suc i) = node_at l ns i"
    using assms(3) l'(3) by (auto simp: nth_append same_kind_def)
  then have "pre_of (cl_nodes l') (node_at l ns i) = Some p"
    using pre_at [OF l'(2), of "Suc i"] assms(3) by (simp add: nth_append)
  then show ?thesis using l' pre_at [OF assms(2,3)]
    by (simp add: list_insert_iter_def list_iter_is_vaild_def)
qed

text \<open>\<^verbatim>\<open>list_erase\<close> at the i-th node frees it, relinks its neighbours and returns the node after it.\<close>

theorem list_erase_refines:
  assumes "clist_rep l ns" "i < length ns"
  shows "\<exists>l'. list_erase l (node_at l ns i) = Some (l', node_at l ns (Suc i)) \<and> clist_rep l' (take i ns @ drop (Suc i) ns) \<and>
    clist_vals l' (take i ns @ drop (Suc i) ns) = take i (clist_vals l ns) @ drop (Suc i) (clist_vals l ns)"
  using erase_at [OF assms] next_at_Suc [OF assms] assms(2)
  by (auto simp: list_erase_def list_iter_is_vaild_def nth_append)

text \<open>\<^verbatim>\<open>list_destroy\<close> ends and frees every node and the guard.\<close>

theorem list_destroy_frees_all:
  assumes "clist_rep l ns"
  shows "\<exists>l'. list_destroy l = Some l' \<and> cl_nodes l' = Map.empty \<and> cl_data l' = Map.empty"
  using destroy_abs assms by (auto simp: clist_abs_def)

text \<open>\<^verbatim>\<open>_list_iter_next_n\<close> moves by the given number of nodes, forwards or backwards, wherever the result lies
  on the list, except for steps of more than half the list from its first node.\<close>

theorem list_iter_next_n_correct:
  assumes "clist_rep l ns" "length ns < 2 ^ 31" "i \<le> length ns" "0 \<le> int i + step" "int i + step \<le> int (length ns)"
    "i = 0 \<Longrightarrow> 2 * step \<le> int (length ns)"
  shows "list_iter_next_n l (node_at l ns i) step = Some (node_at l ns (nat (int i + step)))"
proof (rule next_n_at [OF assms(1,3,4,5)])
  assume "i = 0"
  then have "step = int (nat step)" "2 * nat step \<le> length ns" using assms(4,6) by simp_all
  then show "\<not> list_iter_shortcut step (length ns)" using shortcut_nat [of "nat step" "length ns"] assms(2) by simp
qed

text \<open>From the first node, a step \<open>k\<close> with \<open>size < 2 * k\<close> takes the code's backward shortcut, which does not
  move: it fails its assertion, or returns the first node where the end was due.\<close>

theorem list_iter_next_n_begin_fails:
  assumes "clist_rep l ns" "length ns < 2 ^ 31" "0 < k" "k \<le> length ns" "length ns < 2 * k"
  shows "list_iter_next_n l (node_at l ns 0) (int k) = (if k = length ns then list_begin l else None) \<and>
    list_begin l \<noteq> Some (list_end l)"
  using next_n_begin [OF assms(1,3,4,5,2)] guard_links(2) [OF assms(1)] node_at_inj [OF assms(1), of 0 "length ns"] assms(3,4)
  by (auto simp: list_begin_def list_end_def)

text \<open>\<^verbatim>\<open>_list_iter_distance\<close> is the signed number of steps, whichever iterator comes first.\<close>

theorem list_iter_distance_correct:
  assumes "clist_rep l ns" "i \<le> length ns" "j \<le> length ns"
  shows "list_iter_distance l (node_at l ns i) (node_at l ns j) = Some (int j - int i)"
  by (rule distance_at [OF assms])

subsection \<open>Witnesses\<close>

text \<open>A list of two 16-bit integers.\<close>

definition list_two16 :: "16 word clist" where
  "list_two16 = \<lparr>cl_nodes = [1 \<mapsto> \<lparr>ln_pre = 3, ln_next = 2\<rparr>, 2 \<mapsto> \<lparr>ln_pre = 1, ln_next = 3\<rparr>, 3 \<mapsto> \<lparr>ln_pre = 2, ln_next = 1\<rparr>],
     cl_data = [2 \<mapsto> 7, 3 \<mapsto> 9], cl_size = 2, cl_guard = 1, cl_type = int16_type, cl_zero = 0\<rparr>"

lemma list_two16_rep: "clist_rep list_two16 [2, 3]"
  by (auto simp: clist_rep_def list_two16_def next_of_def pre_of_def ln_get_def)

lemma list_two16_sel: "clist_vals list_two16 [2, 3] = [7, 9]" "elem_type (cl_type list_two16)" "cl_guard list_two16 = 1"
  "fresh_node list_two16 4" "cl_zero list_two16 = 0"
  using int16.elem_type_axioms by (simp_all add: list_two16_def clist_vals_def fresh_node_def)

lemma list_insert_refines_witness:
  "\<exists>l'. list_insert_iter list_two16 3 (VValue 8) 4 0 = Some (l', 4) \<and> clist_vals l' [2, 4, 3] = [7, 8, 9]"
  using list_insert_refines [OF list_two16_sel(2) list_two16_rep _ list_two16_sel(4), of 1 "VValue 8" 0]
  by (auto simp: list_two16_sel(1))

lemma list_erase_refines_witness: "\<exists>l'. list_erase list_two16 2 = Some (l', 3) \<and> clist_vals l' [3] = [9]"
  using list_erase_refines [OF list_two16_rep, of 0] by (auto simp: list_two16_sel(1))

lemma list_destroy_frees_all_witness: "\<exists>l'. list_destroy list_two16 = Some l' \<and> cl_nodes l' = Map.empty"
  using list_destroy_frees_all [OF list_two16_rep] by blast

lemma list_iter_next_n_correct_witness: "list_iter_next_n list_two16 3 (- 1) = Some 2"
  using list_iter_next_n_correct [OF list_two16_rep, of 1 "- 1"] by simp

lemma list_iter_next_n_begin_fails_witness: "list_iter_next_n list_two16 2 2 = Some 2"
  using list_iter_next_n_begin_fails [OF list_two16_rep, of 2] guard_links(2) [OF list_two16_rep]
  by (simp add: list_begin_def)

lemma list_iter_distance_correct_witness: "list_iter_distance list_two16 1 2 = Some (- 2)"
  using list_iter_distance_correct [OF list_two16_rep, of 2 0] by (simp add: list_two16_sel(3))

end
