(* ===== verification/CiteratorSpec.thy ===== *)
theory CiteratorSpec
  imports Citerator CvectorSpec ClistSpec RbtreeSpec
begin

text \<open>
  The iterator tables of the vector, the list and the red-black tree, and their contracts: moving an
  iterator with \<^verbatim>\<open>iter_advance\<close> reaches the element that many positions on, for each of them.
\<close>

section \<open>The tables\<close>

definition default_vector_iter_if :: "('a vec, int, 'a) iterator_if" where
  "default_vector_iter_if = \<lparr>
     if_next = Some vector_iter_next, if_pre = Some vector_iter_pre,
     if_next_n = Some vector_iter_next_n, if_pre_n = Some vector_iter_pre_n,
     if_equal = Some vector_iter_equal, if_distance = Some vector_iter_distance,
     if_get_pointer = Some vector_iter_get_pointer,
     if_get_value = Some vector_iter_get_value, if_set_value = Some vector_iter_set_value,
     if_is_vaild = Some (\<lambda>t. vector_iter_is_vaild)\<rparr>"

definition default_list_iter_if :: "('a clist, addr, 'a) iterator_if" where
  "default_list_iter_if = \<lparr>
     if_next = Some list_iter_next, if_pre = Some list_iter_pre,
     if_next_n = Some list_iter_next_n, if_pre_n = Some list_iter_pre_n,
     if_equal = Some list_iter_equal, if_distance = Some list_iter_distance,
     if_get_pointer = Some list_iter_get_pointer,
     if_get_value = Some list_iter_get_value, if_set_value = Some list_iter_set_value,
     if_is_vaild = Some (\<lambda>t. list_iter_is_vaild)\<rparr>"

text \<open>The type identifiers, in the order of the enumeration.\<close>

definition TYPEID_VECTOR :: nat where "TYPEID_VECTOR = 11"
definition TYPEID_LIST :: nat where "TYPEID_LIST = 12"
definition TYPEID_SET :: nat where "TYPEID_SET = 14"
definition TYPEID_MAP :: nat where "TYPEID_MAP = 15"

definition rbt_iter_is_vaild :: "nat \<Rightarrow> 'a rbtree \<Rightarrow> addr \<Rightarrow> bool" where
  "rbt_iter_is_vaild t r p = (t = TYPEID_SET \<or> t = TYPEID_MAP)"

definition rbt_iter_equal :: "'a rbtree \<Rightarrow> addr \<Rightarrow> addr \<Rightarrow> bool option" where
  "rbt_iter_equal r iter0 iter1 = Some (iter0 = iter1)"

text \<open>
  \<^verbatim>\<open>_rbt_iter_distance\<close> ends without a \<^verbatim>\<open>return\<close>: using its result is undefined. The n-step functions
  call \<^verbatim>\<open>iter_advance\<close>, which calls back through the single steps of the table; the container is stored
  at the address 1 and has type \<open>t\<close>.
\<close>

definition rbt_iter_distance :: "'a rbtree \<Rightarrow> addr \<Rightarrow> addr \<Rightarrow> int option" where
  "rbt_iter_distance r iter0 iter1 = None"

definition rbt_iter_get_pointer :: "'a rbtree \<Rightarrow> addr \<Rightarrow> addr option" where
  "rbt_iter_get_pointer r p = Some p"

definition rbt_single_steps :: "('a rbtree, addr, 'a) iterator_if" where
  "rbt_single_steps = \<lparr>
     if_next = Some rbt_iter_next, if_pre = Some rbt_iter_pre, if_next_n = None, if_pre_n = None,
     if_equal = Some rbt_iter_equal, if_distance = Some rbt_iter_distance,
     if_get_pointer = Some rbt_iter_get_pointer,
     if_get_value = Some rbt_iter_get_value, if_set_value = Some rbt_iter_set_value,
     if_is_vaild = Some rbt_iter_is_vaild\<rparr>"

definition rbt_iter_next_n :: "nat \<Rightarrow> 'a rbtree \<Rightarrow> addr \<Rightarrow> int \<Rightarrow> addr option" where
  "rbt_iter_next_n t r p step = do {
     c_assert (rbt_iter_is_vaild t r p);
     it \<leftarrow> iter_advance [1 \<mapsto> \<lparr>cb_type_id = t, cb_iter_if = Some rbt_single_steps, cb_self = r\<rparr>]
       \<lparr>it_pos = p, it_container = 1\<rparr> step;
     c_assert (rbt_iter_is_vaild t r (it_pos it));
     Some (it_pos it) }"

definition rbt_iter_pre_n :: "nat \<Rightarrow> 'a rbtree \<Rightarrow> addr \<Rightarrow> int \<Rightarrow> addr option" where
  "rbt_iter_pre_n t r p step = do {
     c_assert (rbt_iter_is_vaild t r p);
     rbt_iter_next_n t r p (- step) }"

definition default_rbt_iter_if :: "nat \<Rightarrow> ('a rbtree, addr, 'a) iterator_if" where
  "default_rbt_iter_if t = rbt_single_steps\<lparr>
     if_next_n := Some (rbt_iter_next_n t), if_pre_n := Some (rbt_iter_pre_n t)\<rparr>"

section \<open>The contracts\<close>

lemma vector_next_step: "i < vec_size v \<Longrightarrow> 0 < vec_type_size v \<Longrightarrow> vector_iter_next v (iter_at v i) = Some (iter_at v (Suc i))"
  using iter_next_n_at [of i v 1] iter_at_valid [of i v] by (simp add: vector_iter_next_def nat_add_distrib)

lemma vector_pre_step: "i < vec_size v \<Longrightarrow> 0 < vec_type_size v \<Longrightarrow> vector_iter_pre v (iter_at v (Suc i)) = Some (iter_at v i)"
  using iter_next_n_at [of "Suc i" v "- 1"] iter_at_valid [of "Suc i" v] by (simp add: vector_iter_pre_def)

interpretation vec: bidirectional_container default_vector_iter_if "\<lambda>v. 0 < vec_type_size v" iter_at vec_size "{TYPEID_VECTOR}"
  by unfold_locales
    (auto simp: default_vector_iter_if_def TYPEID_VECTOR_def TYPEID_FNBUILTIN_START_def TYPEID_FNBUILTIN_END_def
      iter_at_valid vector_next_step vector_pre_step)

interpretation lst: bidirectional_container default_list_iter_if "\<lambda>l. clist_rep l ns" "\<lambda>l. node_at l ns" "\<lambda>l. length ns" "{TYPEID_LIST}"
  for ns
  by unfold_locales
    (auto simp: default_list_iter_if_def TYPEID_LIST_def TYPEID_FNBUILTIN_START_def TYPEID_FNBUILTIN_END_def
      list_iter_is_vaild_def iter_next_at iter_pre_at)

lemma rbt_next_step: "rbt_rep r t \<Longrightarrow> i < length (addrs t) \<Longrightarrow> rbt_iter_next r ((addrs t @ [GUARD]) ! i) = Some ((addrs t @ [GUARD]) ! Suc i)"
  using iter_next_rep [OF _ id_take_nth_drop [of i "addrs t"], of r]
  by (cases "Suc i < length (addrs t)") (auto simp: hd_append hd_drop_conv_nth nth_append)

lemma rbt_pre_step: "rbt_rep r t \<Longrightarrow> Suc i < length (addrs t) \<Longrightarrow> rbt_iter_pre r ((addrs t @ [GUARD]) ! Suc i) = Some ((addrs t @ [GUARD]) ! i)"
  using iter_pre_rep [OF _ id_take_nth_drop [of "Suc i" "addrs t"], of r]
  by (auto simp: nth_append take_Suc_conv_app_nth)

interpretation rbt: sequence_container "default_rbt_iter_if tid" "\<lambda>r. rbt_rep r t" "\<lambda>r i. (addrs t @ [GUARD]) ! i" "\<lambda>r. length (addrs t)"
    "{TYPEID_SET, TYPEID_MAP}"
  for tid t
  by unfold_locales
    (auto simp: default_rbt_iter_if_def rbt_single_steps_def TYPEID_SET_def TYPEID_MAP_def TYPEID_FNBUILTIN_START_def
      TYPEID_FNBUILTIN_END_def rbt_iter_is_vaild_def rbt_next_step rbt_pre_step)

interpretation rbt1: sequence_container rbt_single_steps "\<lambda>r. rbt_rep r t" "\<lambda>r i. (addrs t @ [GUARD]) ! i" "\<lambda>r. length (addrs t)"
    "{TYPEID_SET, TYPEID_MAP}"
  for t
  by unfold_locales
    (auto simp: rbt_single_steps_def TYPEID_SET_def TYPEID_MAP_def TYPEID_FNBUILTIN_START_def
      TYPEID_FNBUILTIN_END_def rbt_iter_is_vaild_def rbt_next_step rbt_pre_step)

section \<open>Properties\<close>

text \<open>\<^verbatim>\<open>_rbt_iter_next_n\<close> on a set or a map walks the number of elements it is given, forwards to the end and
  backwards from any element.\<close>

theorem rbt_iter_next_n_correct:
  assumes "rbt_rep r t" "tid \<in> {TYPEID_SET, TYPEID_MAP}" "i \<le> length (addrs t)" "0 \<le> int i + step" "int i + step \<le> int (length (addrs t))"
    "step < 0 \<Longrightarrow> i < length (addrs t) \<and> - (2 ^ 31) < step"
  shows "rbt_iter_next_n tid r ((addrs t @ [GUARD]) ! i) step = Some ((addrs t @ [GUARD]) ! nat (int i + step))"
proof -
  let ?cs = "[1 \<mapsto> \<lparr>cb_type_id = tid, cb_iter_if = Some rbt_single_steps, cb_self = r\<rparr>]"
  have h: "rbt1.holds t ?cs 1 r" unfolding rbt1.holds_def using assms(1,2) by simp
  have "iter_advance ?cs \<lparr>it_pos = (addrs t @ [GUARD]) ! i, it_container = 1\<rparr> step =
    Some \<lparr>it_pos = (addrs t @ [GUARD]) ! nat (int i + step), it_container = 1\<rparr>"
  proof (cases "0 \<le> step")
    case True
    then show ?thesis using rbt1.advance_forward [OF h, of i "nat step"] assms(5) by (simp add: nat_add_distrib)
  next
    case False
    then have "nat (int i + step) = i - nat (- step)" by simp
    moreover have "nat (- step) \<le> i" "i < length (addrs t)" "nat (- step) < 2 ^ 31"
      using False assms(4,6) by (auto simp: nat_le_iff nat_less_iff)
    note rbt1.advance_backward [OF h this]
    moreover have "- int (nat (- step)) = step" using False by simp
    ultimately show ?thesis by simp
  qed
  then show ?thesis using assms(2) by (simp add: rbt_iter_next_n_def rbt_iter_is_vaild_def)
qed

lemma rbt_iter_next_n_correct_witness: "rbt_iter_next_n TYPEID_SET rb_two16 2 2 = Some GUARD"
  using rbt_iter_next_n_correct [OF rb_two16_rep, of TYPEID_SET 0 2] by simp

text \<open>Through the iterator table of a vector or a list, \<^verbatim>\<open>iter_advance\<close> from the end moves back by the number of elements
  it is given.\<close>

theorem iter_advance_from_end:
  assumes "a \<noteq> NULL" "clist_rep l ns" "k \<le> length ns" "k < 2 ^ 31" "0 < vec_type_size v" "j \<le> vec_size v" "j < 2 ^ 31"
  shows "iter_advance [a \<mapsto> \<lparr>cb_type_id = TYPEID_LIST, cb_iter_if = Some default_list_iter_if, cb_self = l\<rparr>]
       \<lparr>it_pos = list_end l, it_container = a\<rparr> (- int k) = Some \<lparr>it_pos = node_at l ns (length ns - k), it_container = a\<rparr> \<and>
    iter_advance [a \<mapsto> \<lparr>cb_type_id = TYPEID_VECTOR, cb_iter_if = Some default_vector_iter_if, cb_self = v\<rparr>]
       \<lparr>it_pos = vector_end v, it_container = a\<rparr> (- int j) = Some \<lparr>it_pos = iter_at v (vec_size v - j), it_container = a\<rparr>"
proof -
  have l: "lst.holds ns [a \<mapsto> \<lparr>cb_type_id = TYPEID_LIST, cb_iter_if = Some default_list_iter_if, cb_self = l\<rparr>] a l"
    unfolding lst.holds_def using assms(1,2) by simp
  have v: "vec.holds [a \<mapsto> \<lparr>cb_type_id = TYPEID_VECTOR, cb_iter_if = Some default_vector_iter_if, cb_self = v\<rparr>] a v"
    unfolding vec.holds_def using assms(1,5) by simp
  show ?thesis using lst.advance_from_end [OF l assms(3,4)] vec.advance_from_end [OF v assms(6,7)]
    by (simp add: list_end_def iter_begin_end)
qed

lemma iter_advance_from_end_witness:
  "iter_advance [1 \<mapsto> \<lparr>cb_type_id = TYPEID_LIST, cb_iter_if = Some default_list_iter_if, cb_self = list_two16\<rparr>]
     \<lparr>it_pos = list_end list_two16, it_container = 1\<rparr> (- 2) = Some \<lparr>it_pos = 2, it_container = 1\<rparr>"
  using iter_advance_from_end [OF _ list_two16_rep, of 1 2 vec3 0] by simp

end
