(* ===== verification/Cset.thy ===== *)
theory Cset
  imports OrderedTree CiteratorSpec
begin

text \<open>
  The set of \<^verbatim>\<open>ohstl/cset.c\<close>: a red-black tree compared by value, and one element of scratch memory in
  which an argument is assembled before it is looked up. The memory is \<open>None\<close> when its allocation failed
  or when the set was destroyed. An iterator into the set is the address it holds.
\<close>

record 'a cset =
  set_rbt :: "'a rbtree"
  set_type :: "'a tfuncs"
  set_zero :: 'a
  set_tmpmem :: "'a option"

definition set_size :: "'a cset \<Rightarrow> nat" where
  "set_size st = rbt_size (set_rbt st)"

definition set_empty :: "'a cset \<Rightarrow> bool" where
  "set_empty st = (set_size st = 0)"

text \<open>\<open>tmp\<close> is the contents of the scratch memory, or \<open>None\<close> for a null pointer, which \<^verbatim>\<open>_type_init\<close> refuses.\<close>

definition set_init :: "'a tfuncs \<Rightarrow> 'a \<Rightarrow> rbheap \<Rightarrow> (addr \<rightharpoonup> 'a) \<Rightarrow> 'a option \<Rightarrow> 'a cset option" where
  "set_init tp z h d tmp = do {
     r \<leftarrow> rbt_init tp (\<lambda>_ _. False) True False h d;
     tmp \<leftarrow> tmp;
     Some \<lparr>set_rbt = r, set_type = tp, set_zero = z, set_tmpmem = Some (type_init tp tmp)\<rparr> }"

definition set_clear :: "'a cset \<Rightarrow> 'a cset option" where
  "set_clear st = do {
     r \<leftarrow> rbt_destroy (set_rbt st);
     r \<leftarrow> rbt_init (set_type st) (\<lambda>_ _. False) True False (rbt_nodes r) (rbt_data r);
     Some (st\<lparr>set_rbt := r\<rparr>) }"

definition set_destroy_aux :: "'a cset \<Rightarrow> 'a cset option" where
  "set_destroy_aux st = do {
     r \<leftarrow> rbt_destroy (set_rbt st);
     t \<leftarrow> set_tmpmem st;
     Some (st\<lparr>set_rbt := r, set_tmpmem := None\<rparr>) }"

text \<open>Reading the argument into the scratch memory, as every operation on a value begins.\<close>

definition set_read_varg :: "'a cset \<Rightarrow> 'a varg \<Rightarrow> ('a cset \<times> 'a) option" where
  "set_read_varg st arg = do {
     t \<leftarrow> set_tmpmem st;
     let t = get_varg_value (set_type st) (set_zero st) arg t;
     Some (st\<lparr>set_tmpmem := Some t\<rparr>, t) }"

definition set_end :: "'a cset \<Rightarrow> addr" where
  "set_end st = GUARD"

definition set_begin :: "'a cset \<Rightarrow> addr option" where
  "set_begin st = (if set_size st = 0 then Some (set_end st) else rbt_begin_node (set_rbt st))"

definition set_count :: "'a cset \<Rightarrow> 'a varg \<Rightarrow> ('a cset \<times> int) option" where
  "set_count st arg = do {
     (st, t) \<leftarrow> set_read_varg st arg;
     (node, parent) \<leftarrow> rbt_find_val (set_rbt st) t;
     Some (st, if node \<noteq> NULL then 1 else 0) }"

definition set_erase_val :: "'a cset \<Rightarrow> 'a varg \<Rightarrow> 'a cset option" where
  "set_erase_val st arg = do {
     (st, t) \<leftarrow> set_read_varg st arg;
     r \<leftarrow> rbt_erase_val (set_rbt st) t;
     Some (st\<lparr>set_rbt := r\<rparr>) }"

definition set_erase :: "'a cset \<Rightarrow> addr \<Rightarrow> 'a cset option" where
  "set_erase st iter = do {
     c_assert (rbt_iter_is_vaild TYPEID_SET (set_rbt st) iter);
     eq \<leftarrow> rbt_iter_equal (set_rbt st) iter (set_end st);
     c_assert (\<not> eq);
     r \<leftarrow> rbt_erase_node (set_rbt st) iter;
     Some (st\<lparr>set_rbt := r\<rparr>) }"

definition set_find :: "'a cset \<Rightarrow> 'a varg \<Rightarrow> ('a cset \<times> addr) option" where
  "set_find st arg = do {
     (st, t) \<leftarrow> set_read_varg st arg;
     (node, parent) \<leftarrow> rbt_find_val (set_rbt st) t;
     if node = NULL then Some (st, set_end st) else Some (st, node) }"

definition set_insert :: "'a cset \<Rightarrow> 'a varg \<Rightarrow> addr \<Rightarrow> 'a \<Rightarrow> ('a cset \<times> addr) option" where
  "set_insert st arg p m = do {
     (st, t) \<leftarrow> set_read_varg st arg;
     (r, node) \<leftarrow> rbt_insert_val (set_rbt st) t p m;
     let st = st\<lparr>set_rbt := r\<rparr>;
     if node = NULL then Some (st, set_end st) else Some (st, node) }"

end
