(* ===== verification/CsetSpec.thy ===== *)
theory CsetSpec
  imports Cset
begin

text \<open>
  What \<^verbatim>\<open>ohstl/cset.c\<close> promises: over a type whose comparison is total, a set is a mathematical set; over the
  unsigned types of 32 and 64 bits, whose comparison is never true, it holds at most one element.
\<close>

section \<open>The abstraction\<close>

definition set_rep :: "'a tfuncs \<Rightarrow> 'a cset \<Rightarrow> 'a set \<Rightarrow> bool" where
  "set_rep tp s A \<longleftrightarrow> (\<exists>xs. rbt_tabs (type_less tp) tp (set_rbt s) xs \<and> set xs = A) \<and> set_type s = tp \<and> set_tmpmem s \<noteq> None"

text \<open>The operations that change a set, with what the allocator gives them.\<close>

datatype 'a set_op = SInsert "'a varg" addr 'a | SEraseVal "'a varg" | SErase addr | SClear

fun set_exec :: "'a set_op \<Rightarrow> 'a cset \<Rightarrow> 'a cset option" where
  "set_exec (SInsert arg p m) s = map_option fst (set_insert s arg p m)"
| "set_exec (SEraseVal arg) s = set_erase_val s arg"
| "set_exec (SErase it) s = set_erase s it"
| "set_exec SClear s = set_clear s"

fun set_op_ok :: "'a set_op \<Rightarrow> 'a cset \<Rightarrow> bool" where
  "set_op_ok (SInsert arg p m) s = rbt_room (set_rbt s) p"
| "set_op_ok (SErase it) s = (rbt_data (set_rbt s) it \<noteq> None)"
| "set_op_ok op s = True"

fun set_spec :: "'a set_op \<Rightarrow> 'a cset \<Rightarrow> 'a set \<Rightarrow> 'a set" where
  "set_spec (SInsert arg p m) s A = insert (varg_elem (set_zero s) arg) A"
| "set_spec (SEraseVal arg) s A = A - {varg_elem (set_zero s) arg}"
| "set_spec (SErase it) s A = A - {the (rbt_data (set_rbt s) it)}"
| "set_spec SClear s A = {}"

lemma set_read_varg_ok:
  assumes "elem_type (set_type s)" "set_tmpmem s \<noteq> None"
  shows "set_read_varg s arg = Some (s\<lparr>set_tmpmem := Some (varg_elem (set_zero s) arg)\<rparr>, varg_elem (set_zero s) arg)"
  using assms elem_type.get_varg [OF assms(1)] by (auto simp: set_read_varg_def Let_def)

lemma set_init_rep:
  assumes "total_type tp"
  shows "\<exists>s. set_init tp z Map.empty Map.empty (Some m) = Some s \<and> set_rep tp s {} \<and> set_zero s = z"
proof -
  obtain r where "rbt_init tp (\<lambda>_ _. False) True False Map.empty Map.empty = Some r" "rbt_tabs (type_less tp) tp r []"
    using tabs_init [of True tp "\<lambda>_ _. False" "type_less tp" False] assms by (auto simp: total_type_def)
  then show ?thesis by (simp add: set_init_def set_rep_def)
qed

section \<open>Properties\<close>

text \<open>C9: every operation that changes a set returns on every well-formed set, and its effect on the members is
  that of the operation on mathematical sets: insertion, removal of a value, removal at an iterator,
  clearing.\<close>

theorem set_ops_refine:
  assumes "total_type tp" "set_rep tp s A" "set_op_ok op s"
  shows "\<exists>s'. set_exec op s = Some s' \<and> set_rep tp s' (set_spec op s A) \<and> set_zero s' = set_zero s"
proof -
  obtain xs where T: "rbt_tabs (type_less tp) tp (set_rbt s) xs" "set xs = A" and s: "set_type s = tp" "set_tmpmem s \<noteq> None"
    using assms(2) by (auto simp: set_rep_def)
  have rb: "rb_elems (type_less tp) tp" and lt: "tf_less tp = Some (type_less tp)"
    and tot: "\<And>x y. equiv_by (type_less tp) x y \<Longrightarrow> x = y"
    using assms(1) by (auto simp: total_type_def)
  note wo = rb_elems.axioms(1) [OF rb] and el = rb_elems.axioms(2) [OF rb]
  note read = set_read_varg_ok [OF el [folded s(1)] s(2)]
  note srt = ordered_tree.tabs_sorted [OF rb_elems.tree [OF rb] T(1)]
  show ?thesis
  proof (cases op)
    case (SInsert arg p m)
    let ?v = "varg_elem (set_zero s) arg"
    obtain r a where "rbt_insert_val (set_rbt s) ?v p m = Some (r, a)" "rbt_tabs (type_less tp) tp r (ins_list (type_less tp) ?v xs)" "a \<noteq> NULL"
      using ordered_tree.ins_ok [OF rb_elems.tree [OF rb] T(1), of p ?v m] assms(3) SInsert by auto
    then show ?thesis using SInsert s T(2) weak_order.set_ins [OF wo tot, of ?v xs] by (auto simp: set_insert_def read set_rep_def)
  next
    case (SEraseVal arg)
    let ?v = "varg_elem (set_zero s) arg"
    obtain r where "rbt_erase_val (set_rbt s) ?v = Some r" "rbt_tabs (type_less tp) tp r (del_list (type_less tp) ?v xs)"
      using ordered_tree.del_ok [OF rb_elems.tree [OF rb] T(1), of ?v] by auto
    then show ?thesis using SEraseVal s T(2) weak_order.set_del [OF wo tot, of ?v xs] by (auto simp: set_erase_val_def read set_rep_def)
  next
    case (SErase it)
    then obtain v where v: "rbt_data (set_rbt s) it = Some v" using assms(3) by auto
    obtain r ys zs where e: "rbt_erase_node (set_rbt s) it = Some r" "xs = ys @ v # zs" "rbt_tabs (type_less tp) tp r (ys @ zs)"
      using erase_node_abs [OF rb T(1) v] by blast
    have "it \<noteq> GUARD" using T(1) v by (auto simp: rbt_tabs_def rbt_abs_def rbt_rep_def zip_at_def)
    moreover have "set (ys @ zs) = A - {v}" using weak_order.sorted_distinct [OF wo srt] T(2) e(2) by auto
    ultimately show ?thesis using SErase e s v
      by (auto simp: set_erase_def set_rep_def set_end_def rbt_iter_equal_def rbt_iter_is_vaild_def)
  next
    case SClear
    obtain r0 r where "rbt_destroy (set_rbt s) = Some r0" "rbt_tabs (type_less tp) tp r []"
       "rbt_init tp (\<lambda>_ _. False) True False (rbt_nodes r0) (rbt_data r0) = Some r"
      using tabs_clear [OF T(1), of True "\<lambda>_ _. False" False] lt by auto
    then show ?thesis using SClear s by (simp add: set_clear_def set_rep_def)
  qed
qed

definition set_two16 :: "16 word cset" where
  "set_two16 = \<lparr>set_rbt = rb_two16, set_type = int16_type, set_zero = 0, set_tmpmem = Some 0\<rparr>"

lemma set_two16_rep: "set_rep int16_type set_two16 {5, 9}"
proof -
  have "type_less int16_type = less_promoted_signed" by (simp add: int16_type_def type_less_def fun_eq_iff)
  then show ?thesis using rb_two16_abs by (auto simp: set_rep_def set_two16_def rbt_tabs_def intro!: exI [of _ "[5, 9]"])
qed

lemma set_ops_refine_witness: "\<exists>s'. set_exec (SInsert (VValue 7) 4 0) set_two16 = Some s' \<and> set_rep int16_type s' {7, 5, 9}"
  using set_ops_refine [OF int16_total set_two16_rep, of "SInsert (VValue 7) 4 0"]
  by (auto simp: set_two16_def rbt_room_def)

text \<open>\<^verbatim>\<open>set_count\<close> and \<^verbatim>\<open>set_find\<close> decide membership, the iterator found holds the value, \<^verbatim>\<open>set_size\<close> is the
  number of members, and none of them changes the members.\<close>

theorem set_lookup_correct:
  assumes "total_type tp" "set_rep tp s A"
  shows "\<exists>s' it. set_count s arg = Some (s', if varg_elem (set_zero s) arg \<in> A then 1 else 0) \<and>
     set_find s arg = Some (s', it) \<and> set_rep tp s' A \<and> set_size s = card A \<and>
     (if varg_elem (set_zero s) arg \<in> A then rbt_data (set_rbt s') it = Some (varg_elem (set_zero s) arg) else it = set_end s')"
proof -
  let ?v = "varg_elem (set_zero s) arg"
  obtain xs where T: "rbt_tabs (type_less tp) tp (set_rbt s) xs" "set xs = A" and s: "set_type s = tp" "set_tmpmem s \<noteq> None"
    using assms(2) by (auto simp: set_rep_def)
  have rb: "rb_elems (type_less tp) tp" and tot: "\<And>x y. equiv_by (type_less tp) x y \<Longrightarrow> x = y"
    using assms(1) by (auto simp: total_type_def)
  note read = set_read_varg_ok [OF rb_elems.axioms(2) [OF rb, folded s(1)] s(2)]
  obtain a where a: "rbt_lookup (set_rbt s) ?v = Some a" "a \<noteq> NULL \<longleftrightarrow> ?v \<in> set xs" "a \<noteq> NULL \<longrightarrow> rbt_data (set_rbt s) a = Some ?v"
    using ordered_tree.fnd_total [OF rb_elems.tree [OF rb] tot T(1), of ?v] by blast
  obtain q where f: "rbt_find_val (set_rbt s) ?v = Some (a, q)" using rbt_lookup_find [OF a(1)] by blast
  have "set_size s = card A"
    using tabs_size [OF T(1)] distinct_card [OF weak_order.sorted_distinct [OF rb_elems.axioms(1) [OF rb] ordered_tree.tabs_sorted [OF rb_elems.tree [OF rb] T(1)]]] T(2)
    by (simp add: set_size_def)
  moreover have "set_rep tp (s\<lparr>set_tmpmem := Some ?v\<rparr>) A" using T s by (auto simp: set_rep_def)
  ultimately show ?thesis using a(2,3) T(2) by (cases "a = NULL") (auto simp: set_count_def set_find_def read f)
qed

lemma set_lookup_correct_witness: "\<exists>s'. set_count set_two16 (VValue 9) = Some (s', 1) \<and> set_size set_two16 = 2"
  using set_lookup_correct [OF int16_total set_two16_rep, of "VValue 9"] by (auto simp: set_two16_def)

text \<open>A set of \<^verbatim>\<open>uint32_t\<close> never grows beyond one element: any insertion replaces it, and afterwards every value
  is reported as a member.\<close>

theorem set_uint32_one_element:
  assumes "rbt_tabs less_wide_unsigned uint32_type (set_rbt s) xs" "set_type s = uint32_type" "set_tmpmem s \<noteq> None" "rbt_room (set_rbt s) p"
  shows "\<exists>s' it. set_insert s (VValue v) p m = Some (s', it) \<and> set_size s' = 1 \<and> (\<exists>s''. set_count s' (VValue w) = Some (s'', 1))"
proof -
  have read: "set_read_varg t arg = Some (t\<lparr>set_tmpmem := Some (varg_elem (set_zero t) arg)\<rparr>, varg_elem (set_zero t) arg)"
    if "set_type t = uint32_type" "set_tmpmem t \<noteq> None" for t :: "32 word cset" and arg
    using set_read_varg_ok [of t] that uint32.elem_type_axioms by simp
  obtain r a where i: "rbt_insert_val (set_rbt s) v p m = Some (r, a)" "a \<noteq> NULL"
      "rbt_tabs less_wide_unsigned uint32_type r (ins_list less_wide_unsigned v xs)"
    using uint32_tree.rbt.ins_ok [OF assms(1,4), of v m] by blast
  let ?s = "s\<lparr>set_tmpmem := Some v, set_rbt := r\<rparr>" and ?ys = "ins_list less_wide_unsigned v xs"
  have ys: "length ?ys = 1"
  proof -
    have "length ys \<le> 1" if "sorted_wrt less_wide_unsigned ys" for ys :: "32 word list"
      using that by (cases ys rule: remdups_adj.cases) (auto simp: wide_unsigned_never)
    moreover have "?ys \<noteq> []" by (cases xs) auto
    ultimately show ?thesis using uint32_tree.rbt.tabs_sorted [OF i(3)] by (cases ?ys) fastforce+
  qed
  have "set_insert s (VValue v) p m = Some (?s, a)" using i(1,2) assms(2,3) by (simp add: set_insert_def read)
  moreover have "set_size ?s = 1" using tabs_size [OF i(3)] ys by (simp add: set_size_def)
  moreover obtain b where b: "rbt_lookup r w = Some b" using uint32_tree.rbt.fnd_ok [OF i(3), of w] by blast
  then have "b \<noteq> NULL" using uint32_tree.rbt.fnd_iff [OF i(3) b] ys by (cases ?ys) (auto simp: equiv_by_def wide_unsigned_never)
  then have "\<exists>s''. set_count ?s (VValue w) = Some (s'', 1)"
    using rbt_lookup_find [OF b] assms(2) by (auto simp: set_count_def read)
  ultimately show ?thesis by blast
qed

definition set_uint32 :: "32 word cset" where
  "set_uint32 = \<lparr>set_rbt = \<lparr>rbt_nodes = [GUARD \<mapsto> guard_node NULL], rbt_data = Map.empty, rbt_size = 0,
     rbt_is_multi = False, rbt_less = less_wide_unsigned, rbt_type = uint32_type\<rparr>, set_type = uint32_type, set_zero = 0, set_tmpmem = Some 0\<rparr>"

lemma set_uint32_one_element_witness:
  "\<exists>s' it. set_insert set_uint32 (VValue 3) 2 0 = Some (s', it) \<and> (\<exists>s''. set_count s' (VValue 4) = Some (s'', 1))"
proof -
  have "rbt_tabs less_wide_unsigned uint32_type (set_rbt set_uint32) []"
    by (auto simp: set_uint32_def rbt_tabs_def rbt_abs_def rbt_rep_def zip_at_def rb_def guard_node_def intro!: exI [of _ Lf])
  from set_uint32_one_element [OF this, of 2 3 0 4] show ?thesis by (auto simp: set_uint32_def rbt_room_def GUARD_def)
qed

end
