(* ===== verification/Cpair.thy ===== *)
theory Cpair
  imports Ctypes
begin

text \<open>
  The pairs of \<^verbatim>\<open>ohstl/cpair.c\<close>. A pair owns the two objects it points to: it allocates them, nothing else points
  to them, so they are components of its state, \<open>None\<close> for a null pointer. The two types are references
  compared by identity (\<open>pr_tids\<close>) together with their callbacks.
\<close>

record ('k, 'v) pair =
  pr_tids :: "nat \<times> nat"
  pr_ltype :: "'k tfuncs"
  pr_rtype :: "'v tfuncs"
  pr_lptr :: "'k option"
  pr_rptr :: "'v option"

text \<open>\<open>l\<close> and \<open>r\<close> are the contents of the new memory, \<open>None\<close> when the allocation fails; \<^verbatim>\<open>_type_init\<close> then fails its assertion.\<close>

definition pair_init_aux :: "nat \<times> nat \<Rightarrow> 'k tfuncs \<Rightarrow> 'v tfuncs \<Rightarrow> 'k option \<Rightarrow> 'v option \<Rightarrow> ('k, 'v) pair option" where
  "pair_init_aux tids lt rt l r = do {
     l \<leftarrow> l;
     let l = type_init lt l;
     r \<leftarrow> r;
     let r = type_init rt r;
     Some \<lparr>pr_tids = tids, pr_ltype = lt, pr_rtype = rt, pr_lptr = Some l, pr_rptr = Some r\<rparr> }"

definition pair_destroy_aux :: "('k, 'v) pair \<Rightarrow> ('k, 'v) pair" where
  "pair_destroy_aux p = p\<lparr>pr_lptr := None, pr_rptr := None\<rparr>"

definition pair_assign :: "('k, 'v) pair \<Rightarrow> ('k, 'v) pair \<Rightarrow> ('k, 'v) pair option" where
  "pair_assign p1 p2 = do {
     c_assert (fst (pr_tids p1) = fst (pr_tids p2));
     c_assert (snd (pr_tids p1) = snd (pr_tids p2));
     l1 \<leftarrow> pr_lptr p1;
     l2 \<leftarrow> pr_lptr p2;
     let p1 = p1\<lparr>pr_lptr := Some (type_copy (pr_ltype p1) l1 l2)\<rparr>;
     r1 \<leftarrow> pr_rptr p1;
     r2 \<leftarrow> pr_rptr p2;
     Some (p1\<lparr>pr_rptr := Some (type_copy (pr_rtype p1) r1 r2)\<rparr>) }"

definition pair_less :: "('k, 'v) pair \<Rightarrow> ('k, 'v) pair \<Rightarrow> bool option" where
  "pair_less p1 p2 = do {
     c_assert (fst (pr_tids p1) = fst (pr_tids p2));
     c_assert (snd (pr_tids p1) = snd (pr_tids p2));
     l1 \<leftarrow> pr_lptr p1;
     l2 \<leftarrow> pr_lptr p2;
     if type_less (pr_ltype p1) l1 l2 then Some True
     else if type_equal (pr_ltype p1) l1 l2 then do {
       r1 \<leftarrow> pr_rptr p1;
       r2 \<leftarrow> pr_rptr p2;
       Some (type_less (pr_rtype p1) r1 r2) }
     else Some False }"

definition pair_key_less :: "('k, 'v) pair \<Rightarrow> ('k, 'v) pair \<Rightarrow> bool option" where
  "pair_key_less p1 p2 = do {
     c_assert (fst (pr_tids p1) = fst (pr_tids p2));
     c_assert (snd (pr_tids p1) = snd (pr_tids p2));
     l1 \<leftarrow> pr_lptr p1;
     l2 \<leftarrow> pr_lptr p2;
     Some (type_less (pr_ltype p1) l1 l2) }"

text \<open>The argument is read at the type of the component: \<open>Inl\<close> for the left one, \<open>Inr\<close> for the right one.\<close>

definition pair_make_elem :: "'k \<Rightarrow> 'v \<Rightarrow> ('k, 'v) pair \<Rightarrow> int \<Rightarrow> 'k varg + 'v varg \<Rightarrow> ('k, 'v) pair option" where
  "pair_make_elem zk zv p index arg = do {
     c_assert (index < 2);
     case arg of
       Inl a \<Rightarrow> (if index = 0 then do { l \<leftarrow> pr_lptr p; Some (p\<lparr>pr_lptr := Some (get_varg_value (pr_ltype p) zk a l)\<rparr>) } else None)
     | Inr a \<Rightarrow> (if index = 1 then do { r \<leftarrow> pr_rptr p; Some (p\<lparr>pr_rptr := Some (get_varg_value (pr_rtype p) zv a r)\<rparr>) } else None) }"

text \<open>\<^verbatim>\<open>_pair_get_value\<close> copies a component to \<open>elm\<close>.\<close>

definition pair_get_value :: "('k, 'v) pair \<Rightarrow> int \<Rightarrow> 'k + 'v \<Rightarrow> ('k + 'v) option" where
  "pair_get_value p index elm = do {
     c_assert (index < 2);
     case elm of
       Inl e \<Rightarrow> (if index = 0 then do { l \<leftarrow> pr_lptr p; Some (Inl (type_copy (pr_ltype p) e l)) } else None)
     | Inr e \<Rightarrow> (if index = 1 then do { r \<leftarrow> pr_rptr p; Some (Inr (type_copy (pr_rtype p) e r)) } else None) }"

definition pair_get :: "('k, 'v) pair \<Rightarrow> int \<Rightarrow> ('k + 'v) option" where
  "pair_get p index = do {
     c_assert (index < 2);
     if index = 0 then map_option Inl (pr_lptr p) else if index = 1 then map_option Inr (pr_rptr p) else None }"

section \<open>Pairs as elements of containers\<close>

text \<open>The callbacks of \<^verbatim>\<open>pair_t\<close> on the contents of two pairs of the same types.\<close>

definition pair_t_copy :: "'k tfuncs \<Rightarrow> 'v tfuncs \<Rightarrow> 'k \<times> 'v \<Rightarrow> 'k \<times> 'v \<Rightarrow> 'k \<times> 'v" where
  "pair_t_copy lt rt p1 p2 = (type_copy lt (fst p1) (fst p2), type_copy rt (snd p1) (snd p2))"

definition pair_t_less :: "'k tfuncs \<Rightarrow> 'v tfuncs \<Rightarrow> 'k \<times> 'v \<Rightarrow> 'k \<times> 'v \<Rightarrow> bool" where
  "pair_t_less lt rt p1 p2 \<longleftrightarrow> type_less lt (fst p1) (fst p2) \<or>
     (type_equal lt (fst p1) (fst p2) \<and> type_less rt (snd p1) (snd p2))"

definition pair_t_init :: "'k tfuncs \<Rightarrow> 'v tfuncs \<Rightarrow> 'k \<times> 'v \<Rightarrow> 'k \<times> 'v" where
  "pair_t_init lt rt p = (type_init lt (fst p), type_init rt (snd p))"

definition pair_t_destroy :: "'k \<times> 'v \<Rightarrow> 'k \<times> 'v" where
  "pair_t_destroy p = p"

definition rbt_key_less :: "'k tfuncs \<Rightarrow> 'k \<times> 'v \<Rightarrow> 'k \<times> 'v \<Rightarrow> bool" where
  "rbt_key_less lt p1 p2 = type_less lt (fst p1) (fst p2)"

definition pair_t :: "'k tfuncs \<Rightarrow> 'v tfuncs \<Rightarrow> ('k \<times> 'v) tfuncs" where
  "pair_t lt rt = \<lparr>tf_copy = Some (pair_t_copy lt rt), tf_less = Some (pair_t_less lt rt), tf_init = Some (pair_t_init lt rt), tf_destroy = Some pair_t_destroy\<rparr>"

text \<open>The contents of a pair that has both components.\<close>

definition pair_val :: "('k, 'v) pair \<Rightarrow> ('k \<times> 'v) option" where
  "pair_val p = (case (pr_lptr p, pr_rptr p) of (Some l, Some r) \<Rightarrow> Some (l, r) | _ \<Rightarrow> None)"

lemma pair_t_fields:
  "type_copy (pair_t lt rt) = pair_t_copy lt rt" "type_less (pair_t lt rt) = pair_t_less lt rt" "type_init (pair_t lt rt) = pair_t_init lt rt"
  by (simp_all add: pair_t_def type_copy_def type_less_def type_init_def fun_eq_iff)

lemma pair_t_elem:
  assumes "elem_type lt" "elem_type rt"
  shows "elem_type (pair_t lt rt)"
proof
  show "type_copy (pair_t lt rt) d s = s" for d s
    by (simp add: pair_t_fields pair_t_copy_def elem_type.copies [OF assms(1)] elem_type.copies [OF assms(2)])
qed

lemma key_order: "weak_order (type_less lt) \<Longrightarrow> weak_order (rbt_key_less lt)"
  unfolding weak_order_def rbt_key_less_def by blast

lemma pair_t_order:
  assumes L: "weak_order (type_less lt)" and R: "weak_order (type_less rt)"
  shows "weak_order (pair_t_less lt rt)"
proof -
  obtain f where f: "tf_less lt = Some f"
    using weak_order.irrefl [OF L, of undefined] by (cases "tf_less lt") (auto simp: type_less_def)
  have E: "type_equal lt x y \<longleftrightarrow> \<not> type_less lt x y \<and> \<not> type_less lt y x" for x y
    by (simp add: type_equal_def type_less_def f)
  have eq: "pair_t_less lt rt = (\<lambda>p1 p2. type_less lt (fst p1) (fst p2) \<or>
      (\<not> type_less lt (fst p2) (fst p1) \<and> type_less rt (snd p1) (snd p2)))"
    by (auto simp: pair_t_less_def E fun_eq_iff)
  note l = weak_order.irrefl [OF L] weak_order.asym [OF L] weak_order.trans [OF L] weak_order.negtrans [OF L]
    and r = weak_order.irrefl [OF R] weak_order.asym [OF R] weak_order.trans [OF R] weak_order.negtrans [OF R]
  show ?thesis unfolding eq
  proof
    fix x y z :: "'a \<times> 'b"
    show "\<not> (type_less lt (fst x) (fst x) \<or> \<not> type_less lt (fst x) (fst x) \<and> type_less rt (snd x) (snd x))" using l(1) r(1) by blast
  next
    fix x y z :: "'a \<times> 'b"
    assume 1: "type_less lt (fst x) (fst y) \<or> \<not> type_less lt (fst y) (fst x) \<and> type_less rt (snd x) (snd y)"
      and 2: "type_less lt (fst y) (fst z) \<or> \<not> type_less lt (fst z) (fst y) \<and> type_less rt (snd y) (snd z)"
    show "type_less lt (fst x) (fst z) \<or> \<not> type_less lt (fst z) (fst x) \<and> type_less rt (snd x) (snd z)"
      using 1 2 l(2-4) r(3) by metis
  next
    fix x y z :: "'a \<times> 'b"
    assume 1: "\<not> (type_less lt (fst x) (fst y) \<or> \<not> type_less lt (fst y) (fst x) \<and> type_less rt (snd x) (snd y))"
      and 2: "\<not> (type_less lt (fst y) (fst z) \<or> \<not> type_less lt (fst z) (fst y) \<and> type_less rt (snd y) (snd z))"
    show "\<not> (type_less lt (fst x) (fst z) \<or> \<not> type_less lt (fst z) (fst x) \<and> type_less rt (snd x) (snd z))"
      using 1 2 l(2-4) r(4) by metis
  qed
qed

text \<open>The pointer operations are the operations on contents.\<close>

lemma pair_val_Some: "pair_val p = Some v \<longleftrightarrow> pr_lptr p = Some (fst v) \<and> pr_rptr p = Some (snd v)"
  by (cases v) (auto simp: pair_val_def split: option.splits)

lemma pair_assign_val:
  assumes "pair_val p1 = Some v1" "pair_val p2 = Some v2" "pr_tids p1 = pr_tids p2"
  shows "\<exists>p. pair_assign p1 p2 = Some p \<and> pair_val p = Some (pair_t_copy (pr_ltype p1) (pr_rtype p1) v1 v2) \<and> pr_tids p = pr_tids p1"
  using assms by (simp add: pair_assign_def pair_val_Some pair_t_copy_def)

lemma pair_less_val:
  assumes "pair_val p1 = Some v1" "pair_val p2 = Some v2" "pr_tids p1 = pr_tids p2"
  shows "pair_less p1 p2 = Some (pair_t_less (pr_ltype p1) (pr_rtype p1) v1 v2)"
    "pair_key_less p1 p2 = Some (rbt_key_less (pr_ltype p1) v1 v2)"
  using assms by (simp_all add: pair_less_def pair_key_less_def pair_val_Some pair_t_less_def rbt_key_less_def)

end
