(* ===== verification/Cmap.thy ===== *)
theory Cmap
  imports OrderedTree CiteratorSpec Cpair
begin

text \<open>
  The map of \<^verbatim>\<open>ohstl/cmap.c\<close>: a red-black tree of pairs compared by their left components, and an embedded
  pair in which a key, or a key and a value, is assembled. The tree stores the contents of the pairs;
  storing a pair of other types fails the assertions of \<^verbatim>\<open>pair_assign\<close>.
\<close>

record ('k, 'v) cmap =
  map_rbt :: "('k \<times> 'v) rbtree"
  map_ltype :: "'k tfuncs"
  map_rtype :: "'v tfuncs"
  map_lzero :: 'k
  map_rzero :: 'v
  map_tmpmem :: "('k, 'v) pair"

definition map_ptype :: "('k, 'v) cmap \<Rightarrow> ('k \<times> 'v) tfuncs" where
  "map_ptype mp = pair_t (map_ltype mp) (map_rtype mp)"

definition map_size :: "('k, 'v) cmap \<Rightarrow> nat" where
  "map_size mp = rbt_size (map_rbt mp)"

definition map_empty :: "('k, 'v) cmap \<Rightarrow> bool" where
  "map_empty mp = (map_size mp = 0)"

text \<open>\<open>l\<close> and \<open>r\<close> are the new memory of the embedded pair's components.\<close>

definition map_init ::
  "nat \<times> nat \<Rightarrow> 'k tfuncs \<Rightarrow> 'v tfuncs \<Rightarrow> 'k \<Rightarrow> 'v \<Rightarrow> rbheap \<Rightarrow> (addr \<rightharpoonup> 'k \<times> 'v) \<Rightarrow> 'k option \<Rightarrow> 'v option \<Rightarrow> ('k, 'v) cmap option" where
  "map_init tids lt rt zl zr h d l r = do {
     t \<leftarrow> rbt_init (pair_t lt rt) (rbt_key_less lt) False False h d;
     tmp \<leftarrow> pair_init_aux tids lt rt l r;
     Some \<lparr>map_rbt = t, map_ltype = lt, map_rtype = rt, map_lzero = zl, map_rzero = zr, map_tmpmem = tmp\<rparr> }"

definition map_clear :: "('k, 'v) cmap \<Rightarrow> ('k, 'v) cmap option" where
  "map_clear mp = do {
     t \<leftarrow> rbt_destroy (map_rbt mp);
     t \<leftarrow> rbt_init (map_ptype mp) (rbt_key_less (map_ltype mp)) False False (rbt_nodes t) (rbt_data t);
     Some (mp\<lparr>map_rbt := t\<rparr>) }"

definition map_destroy_aux :: "('k, 'v) cmap \<Rightarrow> ('k, 'v) cmap option" where
  "map_destroy_aux mp = do {
     t \<leftarrow> rbt_destroy (map_rbt mp);
     Some (mp\<lparr>map_rbt := t, map_tmpmem := pair_destroy_aux (map_tmpmem mp)\<rparr>) }"

definition map_make_key :: "('k, 'v) cmap \<Rightarrow> 'k varg \<Rightarrow> ('k, 'v) cmap option" where
  "map_make_key mp arg = do {
     l \<leftarrow> pr_lptr (map_tmpmem mp);
     Some (mp\<lparr>map_tmpmem := (map_tmpmem mp)\<lparr>pr_lptr := Some (get_varg_value (map_ltype mp) (map_lzero mp) arg l)\<rparr>\<rparr>) }"

definition map_make_value :: "('k, 'v) cmap \<Rightarrow> 'v varg \<Rightarrow> ('k, 'v) cmap option" where
  "map_make_value mp arg = do {
     r \<leftarrow> pr_rptr (map_tmpmem mp);
     Some (mp\<lparr>map_tmpmem := (map_tmpmem mp)\<lparr>pr_rptr := Some (get_varg_value (map_rtype mp) (map_rzero mp) arg r)\<rparr>\<rparr>) }"

text \<open>
  The lookup every operation on a key begins with: the key is read into the left component of the
  embedded pair, whose right component keeps what it held.
\<close>

definition map_find_key :: "('k, 'v) cmap \<Rightarrow> 'k varg \<Rightarrow> (('k, 'v) cmap \<times> addr) option" where
  "map_find_key mp arg = do {
     mp \<leftarrow> map_make_key mp arg;
     t \<leftarrow> pair_val (map_tmpmem mp);
     (node, parent) \<leftarrow> rbt_find_val (map_rbt mp) t;
     Some (mp, node) }"

definition map_end :: "('k, 'v) cmap \<Rightarrow> addr" where
  "map_end mp = GUARD"

definition map_begin :: "('k, 'v) cmap \<Rightarrow> addr option" where
  "map_begin mp = (if map_size mp = 0 then Some (map_end mp) else rbt_begin_node (map_rbt mp))"

definition map_count :: "('k, 'v) cmap \<Rightarrow> 'k varg \<Rightarrow> (('k, 'v) cmap \<times> int) option" where
  "map_count mp arg = do {
     (mp, node) \<leftarrow> map_find_key mp arg;
     Some (mp, if node \<noteq> NULL then 1 else 0) }"

definition map_find :: "('k, 'v) cmap \<Rightarrow> 'k varg \<Rightarrow> (('k, 'v) cmap \<times> addr) option" where
  "map_find mp arg = do {
     (mp, node) \<leftarrow> map_find_key mp arg;
     if node = NULL then Some (mp, map_end mp) else Some (mp, node) }"

text \<open>\<^verbatim>\<open>map_at\<close> returns a null pointer or a pointer to the value in the node: here what it points to.\<close>

definition map_at :: "('k, 'v) cmap \<Rightarrow> 'k varg \<Rightarrow> (('k, 'v) cmap \<times> 'v option) option" where
  "map_at mp arg = do {
     (mp, node) \<leftarrow> map_find_key mp arg;
     if node = NULL then Some (mp, None)
     else do { d \<leftarrow> rbt_data (map_rbt mp) node; Some (mp, Some (snd d)) } }"

definition map_at_val :: "('k, 'v) cmap \<Rightarrow> 'v \<Rightarrow> 'k varg \<Rightarrow> (('k, 'v) cmap \<times> int \<times> 'v) option" where
  "map_at_val mp val arg = do {
     (mp, node) \<leftarrow> map_find_key mp arg;
     if node = NULL then Some (mp, - 1, val)
     else do {
       d \<leftarrow> rbt_data (map_rbt mp) node;
       Some (mp, 0, type_copy (map_rtype mp) val (snd d)) } }"

definition map_erase :: "('k, 'v) cmap \<Rightarrow> addr \<Rightarrow> ('k, 'v) cmap option" where
  "map_erase mp iter = do {
     c_assert (rbt_iter_is_vaild TYPEID_MAP (map_rbt mp) iter);
     eq \<leftarrow> rbt_iter_equal (map_rbt mp) iter (map_end mp);
     if eq then Some mp
     else do {
       t \<leftarrow> rbt_erase_node (map_rbt mp) iter;
       Some (mp\<lparr>map_rbt := t\<rparr>) } }"

definition map_erase_val :: "('k, 'v) cmap \<Rightarrow> 'k varg \<Rightarrow> ('k, 'v) cmap option" where
  "map_erase_val mp arg = do {
     mp \<leftarrow> map_make_key mp arg;
     t \<leftarrow> pair_val (map_tmpmem mp);
     r \<leftarrow> rbt_erase_val (map_rbt mp) t;
     Some (mp\<lparr>map_rbt := r\<rparr>) }"

definition map_insert :: "('k, 'v) cmap \<Rightarrow> ('k, 'v) pair \<Rightarrow> addr \<Rightarrow> 'k \<times> 'v \<Rightarrow> (('k, 'v) cmap \<times> addr) option" where
  "map_insert mp pr p m = do {
     c_assert (pr_tids pr = pr_tids (map_tmpmem mp));
     v \<leftarrow> pair_val pr;
     (r, node) \<leftarrow> rbt_insert_val (map_rbt mp) v p m;
     let mp = mp\<lparr>map_rbt := r\<rparr>;
     if node = NULL then Some (mp, map_end mp) else Some (mp, node) }"

definition map_put :: "('k, 'v) cmap \<Rightarrow> 'k varg \<Rightarrow> 'v varg \<Rightarrow> addr \<Rightarrow> 'k \<times> 'v \<Rightarrow> (('k, 'v) cmap \<times> addr) option" where
  "map_put mp elm1 elm2 p m = do {
     mp \<leftarrow> map_make_key mp elm1;
     mp \<leftarrow> map_make_value mp elm2;
     map_insert mp (map_tmpmem mp) p m }"

end
