(* ===== verification/CmapSpec.thy ===== *)
theory CmapSpec
  imports Cmap
begin

text \<open>
  What \<^verbatim>\<open>ohstl/cmap.c\<close> promises: over keys whose comparison is total, a map is a partial function.
\<close>

section \<open>Association sequences sorted by key\<close>

abbreviation (input) key_tabs :: "'k tfuncs \<Rightarrow> 'v tfuncs \<Rightarrow> ('k \<times> 'v) rbtree \<Rightarrow> ('k \<times> 'v) list \<Rightarrow> bool" where
  "key_tabs lt rt \<equiv> rbt_tabs (rbt_key_less lt) (pair_t lt rt)"

definition map_types :: "'k tfuncs \<Rightarrow> 'v tfuncs \<Rightarrow> bool" where
  "map_types lt rt \<longleftrightarrow> total_type lt \<and> elem_type rt"

lemma map_types_tree:
  assumes "map_types lt rt"
  shows "rb_elems (rbt_key_less lt) (pair_t lt rt)"
  using assms pair_t_elem [of lt rt] key_order [of lt] by (auto simp: map_types_def total_type_def rb_elems_def)

lemma key_equiv: "equiv_by (rbt_key_less lt) x y \<longleftrightarrow> equiv_by (type_less lt) (fst x) (fst y)"
  by (simp add: equiv_by_def rbt_key_less_def)

lemma map_of_ins:
  assumes "\<And>x y. equiv_by (type_less lt) x y \<Longrightarrow> x = y" "weak_order (type_less lt)"
  shows "map_of (ins_list (rbt_key_less lt) (k, v) xs) = (map_of xs)(k \<mapsto> v)"
proof (induction xs)
  case (Cons x xs)
  obtain k' v' where x: "x = (k', v')" by fastforce
  consider "type_less lt k k'" | "\<not> type_less lt k k'" "type_less lt k' k" | "\<not> type_less lt k k'" "\<not> type_less lt k' k" by blast
  then show ?case
  proof cases
    case 2
    then have "k' \<noteq> k" using weak_order.irrefl [OF assms(2)] by auto
    then show ?thesis using 2 Cons x by (auto simp: rbt_key_less_def)
  next
    case 3
    then have "k' = k" using assms(1) by (simp add: equiv_by_def)
    then show ?thesis using 3 x by (auto simp: rbt_key_less_def)
  qed (auto simp: x rbt_key_less_def)
qed simp

lemma map_of_del:
  assumes "\<And>x y. equiv_by (type_less lt) x y \<Longrightarrow> x = y" "weak_order (type_less lt)"
  shows "map_of (del_list (rbt_key_less lt) (k, v) xs) = (map_of xs)(k := None)"
proof -
  have ne: "type_less lt k k' \<or> type_less lt k' k \<longleftrightarrow> k' \<noteq> k" for k'
    using assms(1) [of k k'] weak_order.irrefl [OF assms(2)] by (auto simp: equiv_by_def)
  have "del_list (rbt_key_less lt) (k, v) xs = filter (\<lambda>(k', _). k' \<noteq> k) xs"
    unfolding del_list_def rbt_key_less_def fst_conv ne by (simp add: case_prod_unfold)
  moreover have "map_of (filter (\<lambda>(k', _). k' \<noteq> k) xs) a = ((map_of xs)(k := None)) a" for a
    by (induction xs) auto
  ultimately show ?thesis by (simp add: fun_eq_iff)
qed

lemma keys_distinct:
  assumes "weak_order (type_less lt)" "sorted_wrt (rbt_key_less lt) xs"
  shows "distinct (map fst xs)"
proof -
  have "\<not> type_less lt x x" for x using weak_order.irrefl [OF assms(1)] .
  with assms(2) show ?thesis by (induction xs) (auto simp: rbt_key_less_def)
qed

lemma map_of_cut:
  assumes "distinct (map fst (ys @ (k, v) # zs))"
  shows "map_of (ys @ zs) = (map_of (ys @ (k, v) # zs))(k := None)"
proof -
  have "map_of zs k = None" "map_of ys k = None" using assms by (auto simp: map_of_eq_None_iff)
  then show ?thesis by (auto simp: fun_eq_iff map_add_def split: option.splits)
qed

section \<open>The abstraction\<close>

definition map_rep :: "'k tfuncs \<Rightarrow> 'v tfuncs \<Rightarrow> ('k, 'v) cmap \<Rightarrow> ('k \<rightharpoonup> 'v) \<Rightarrow> bool" where
  "map_rep lt rt mp M \<longleftrightarrow> (\<exists>xs. key_tabs lt rt (map_rbt mp) xs \<and> map_of xs = M) \<and> map_ltype mp = lt \<and> map_rtype mp = rt \<and>
     pr_lptr (map_tmpmem mp) \<noteq> None \<and> pr_rptr (map_tmpmem mp) \<noteq> None"

datatype ('k, 'v) map_op = MPut "'k varg" "'v varg" addr "'k \<times> 'v" | MInsert "('k, 'v) pair" addr "'k \<times> 'v"
  | MEraseVal "'k varg" | MErase addr | MClear

fun map_exec :: "('k, 'v) map_op \<Rightarrow> ('k, 'v) cmap \<Rightarrow> ('k, 'v) cmap option" where
  "map_exec (MPut k v p m) mp = map_option fst (map_put mp k v p m)"
| "map_exec (MInsert pr p m) mp = map_option fst (map_insert mp pr p m)"
| "map_exec (MEraseVal k) mp = map_erase_val mp k"
| "map_exec (MErase it) mp = map_erase mp it"
| "map_exec MClear mp = map_clear mp"

fun map_op_ok :: "('k, 'v) map_op \<Rightarrow> ('k, 'v) cmap \<Rightarrow> bool" where
  "map_op_ok (MPut k v p m) mp = rbt_room (map_rbt mp) p"
| "map_op_ok (MInsert pr p m) mp = (rbt_room (map_rbt mp) p \<and> pr_tids pr = pr_tids (map_tmpmem mp) \<and> pair_val pr \<noteq> None)"
| "map_op_ok (MErase it) mp = (it = map_end mp \<or> rbt_data (map_rbt mp) it \<noteq> None)"
| "map_op_ok op mp = True"

fun map_spec :: "('k, 'v) map_op \<Rightarrow> ('k, 'v) cmap \<Rightarrow> ('k \<rightharpoonup> 'v) \<Rightarrow> 'k \<rightharpoonup> 'v" where
  "map_spec (MPut k v p m) mp M = M(varg_elem (map_lzero mp) k \<mapsto> varg_elem (map_rzero mp) v)"
| "map_spec (MInsert pr p m) mp M = M(fst (the (pair_val pr)) \<mapsto> snd (the (pair_val pr)))"
| "map_spec (MEraseVal k) mp M = M(varg_elem (map_lzero mp) k := None)"
| "map_spec (MErase it) mp M = (if it = map_end mp then M else M(fst (the (rbt_data (map_rbt mp) it)) := None))"
| "map_spec MClear mp M = Map.empty"

definition with_key :: "('k, 'v) cmap \<Rightarrow> 'k \<Rightarrow> ('k, 'v) cmap" where
  "with_key mp k = mp\<lparr>map_tmpmem := (map_tmpmem mp)\<lparr>pr_lptr := Some k\<rparr>\<rparr>"

definition with_value :: "('k, 'v) cmap \<Rightarrow> 'v \<Rightarrow> ('k, 'v) cmap" where
  "with_value mp v = mp\<lparr>map_tmpmem := (map_tmpmem mp)\<lparr>pr_rptr := Some v\<rparr>\<rparr>"

lemma with_sel [simp]:
  "map_rbt (with_key mp k) = map_rbt mp" "map_rbt (with_value mp v) = map_rbt mp"
  "map_ltype (with_key mp k) = map_ltype mp" "map_ltype (with_value mp v) = map_ltype mp"
  "map_rtype (with_key mp k) = map_rtype mp" "map_rtype (with_value mp v) = map_rtype mp"
  "map_lzero (with_key mp k) = map_lzero mp" "map_lzero (with_value mp v) = map_lzero mp"
  "map_rzero (with_key mp k) = map_rzero mp" "map_rzero (with_value mp v) = map_rzero mp"
  "map_tmpmem (with_key mp k) = (map_tmpmem mp)\<lparr>pr_lptr := Some k\<rparr>"
  "map_tmpmem (with_value mp v) = (map_tmpmem mp)\<lparr>pr_rptr := Some v\<rparr>"
  by (simp_all add: with_key_def with_value_def)

lemma make_key_ok:
  assumes "elem_type (map_ltype mp)" "pr_lptr (map_tmpmem mp) \<noteq> None"
  shows "map_make_key mp arg = Some (with_key mp (varg_elem (map_lzero mp) arg))"
  using assms elem_type.get_varg [OF assms(1)] by (auto simp: map_make_key_def with_key_def)

lemma make_value_ok:
  assumes "elem_type (map_rtype mp)" "pr_rptr (map_tmpmem mp) \<noteq> None"
  shows "map_make_value mp arg = Some (with_value mp (varg_elem (map_rzero mp) arg))"
  using assms elem_type.get_varg [OF assms(1)] by (auto simp: map_make_value_def with_value_def)

lemma map_rep_with:
  "map_rep lt rt mp M \<Longrightarrow> map_rep lt rt (with_key mp k) M" "map_rep lt rt mp M \<Longrightarrow> map_rep lt rt (with_value mp v) M"
  by (auto simp: map_rep_def)

lemma map_insert_ok:
  assumes types: "map_types lt rt" and rep: "map_rep lt rt mp M" and p: "rbt_room (map_rbt mp) p"
    and pr: "pr_tids pr = pr_tids (map_tmpmem mp)" "pair_val pr = Some (k, v)"
  shows "\<exists>mp' it. map_insert mp pr p m = Some (mp', it) \<and> map_rep lt rt mp' (M(k \<mapsto> v)) \<and>
    map_lzero mp' = map_lzero mp \<and> map_rzero mp' = map_rzero mp \<and> rbt_data (map_rbt mp') it = Some (k, v)"
proof -
  note tree = rb_elems.tree [OF map_types_tree [OF types]]
  have tot: "\<And>x y. equiv_by (type_less lt) x y \<Longrightarrow> x = y" and wo: "weak_order (type_less lt)"
    using types by (auto simp: map_types_def total_type_def rb_elems_def)
  obtain xs where T: "key_tabs lt rt (map_rbt mp) xs" "map_of xs = M" using rep by (auto simp: map_rep_def)
  obtain r a where "rbt_insert_val (map_rbt mp) (k, v) p m = Some (r, a)" "a \<noteq> NULL" "rbt_data r a = Some (k, v)"
      "key_tabs lt rt r (ins_list (rbt_key_less lt) (k, v) xs)"
    using ordered_tree.ins_ok [OF tree T(1) p, of "(k, v)" m] by blast
  moreover from this(4) have "map_rep lt rt (mp\<lparr>map_rbt := r\<rparr>) (M(k \<mapsto> v))"
    using map_of_ins [OF tot wo, of k v xs] T(2) rep by (auto simp: map_rep_def)
  ultimately show ?thesis using pr by (simp add: map_insert_def)
qed

lemma map_key_ok:
  assumes "map_types lt rt" "map_rep lt rt mp M"
  shows "map_make_key mp arg = Some (with_key mp (varg_elem (map_lzero mp) arg))"
  using make_key_ok [of mp arg] assms by (auto simp: map_types_def map_rep_def total_type_def rb_elems_def)

lemma map_put_ok:
  assumes types: "map_types lt rt" and rep: "map_rep lt rt mp M" and p: "rbt_room (map_rbt mp) p"
  shows "\<exists>mp' it. map_put mp k v p m = Some (mp', it) \<and>
    map_rep lt rt mp' (M(varg_elem (map_lzero mp) k \<mapsto> varg_elem (map_rzero mp) v))"
proof -
  let ?k = "varg_elem (map_lzero mp) k" and ?v = "varg_elem (map_rzero mp) v"
  let ?mp = "with_value (with_key mp ?k) ?v"
  have "map_make_value (with_key mp ?k) v = Some ?mp"
    using make_value_ok [of "with_key mp ?k" v] types rep by (auto simp: map_types_def map_rep_def)
  moreover obtain mp' it where "map_insert ?mp (map_tmpmem ?mp) p m = Some (mp', it)" "map_rep lt rt mp' (M(?k \<mapsto> ?v))"
    using map_insert_ok [OF types map_rep_with(2) [OF map_rep_with(1) [OF rep]], of ?k ?v p "map_tmpmem ?mp" ?k ?v m] p
    by (auto simp: pair_val_def)
  ultimately show ?thesis by (simp add: map_put_def map_key_ok [OF types rep])
qed

lemma map_erase_val_ok:
  assumes types: "map_types lt rt" and rep: "map_rep lt rt mp M"
  shows "\<exists>mp'. map_erase_val mp k = Some mp' \<and> map_rep lt rt mp' (M(varg_elem (map_lzero mp) k := None))"
proof -
  let ?k = "varg_elem (map_lzero mp) k"
  note tree = rb_elems.tree [OF map_types_tree [OF types]]
  have tot: "\<And>x y. equiv_by (type_less lt) x y \<Longrightarrow> x = y" and wo: "weak_order (type_less lt)"
    using types by (auto simp: map_types_def total_type_def rb_elems_def)
  obtain xs b where T: "key_tabs lt rt (map_rbt mp) xs" "map_of xs = M" and b: "pr_rptr (map_tmpmem mp) = Some b"
    using rep by (auto simp: map_rep_def)
  obtain r where "rbt_erase_val (map_rbt mp) (?k, b) = Some r" "key_tabs lt rt r (del_list (rbt_key_less lt) (?k, b) xs)"
    using ordered_tree.del_ok [OF tree T(1), of "(?k, b)"] by blast
  then show ?thesis using rep T(2) b map_of_del [OF tot wo, of ?k b xs]
    by (auto simp: map_erase_val_def map_key_ok [OF types rep] map_rep_def pair_val_def)
qed

lemma map_erase_ok:
  assumes types: "map_types lt rt" and rep: "map_rep lt rt mp M" and d: "rbt_data (map_rbt mp) it = Some (k, v)"
  shows "it \<noteq> map_end mp" "\<exists>mp'. map_erase mp it = Some mp' \<and> map_rep lt rt mp' (M(k := None))"
proof -
  note rb = map_types_tree [OF types]
  have wo: "weak_order (type_less lt)" using types by (auto simp: map_types_def total_type_def rb_elems_def)
  obtain xs where T: "key_tabs lt rt (map_rbt mp) xs" "map_of xs = M" using rep by (auto simp: map_rep_def)
  obtain r ys zs where e: "rbt_erase_node (map_rbt mp) it = Some r" "xs = ys @ (k, v) # zs" "key_tabs lt rt r (ys @ zs)"
    using erase_node_abs [OF rb T(1) d] by blast
  have "distinct (map fst xs)"
    using keys_distinct [OF wo ordered_tree.tabs_sorted [OF rb_elems.tree [OF rb] T(1)]] .
  then have "map_of (ys @ zs) = M(k := None)" using map_of_cut [of ys k v zs] e(2) T(2) by simp
  moreover show ne: "it \<noteq> map_end mp"
    using T(1) d by (auto simp: map_end_def rbt_tabs_def rbt_abs_def rbt_rep_def zip_at_def)
  ultimately show "\<exists>mp'. map_erase mp it = Some mp' \<and> map_rep lt rt mp' (M(k := None))" using e rep
    by (auto simp: map_erase_def map_rep_def rbt_iter_equal_def rbt_iter_is_vaild_def)
qed

lemma map_clear_ok:
  assumes "map_rep lt rt mp M"
  shows "\<exists>mp'. map_clear mp = Some mp' \<and> map_rep lt rt mp' Map.empty"
proof -
  obtain xs where T: "key_tabs lt rt (map_rbt mp) xs" using assms by (auto simp: map_rep_def)
  obtain r0 r where "rbt_destroy (map_rbt mp) = Some r0" "key_tabs lt rt r []"
     "rbt_init (pair_t lt rt) (rbt_key_less lt) False False (rbt_nodes r0) (rbt_data r0) = Some r"
    using tabs_clear [OF T, of False "rbt_key_less lt" False] by auto
  then show ?thesis using assms by (simp add: map_clear_def map_rep_def map_ptype_def)
qed

text \<open>The lookup finds no node for an absent key, and otherwise the node of the key.\<close>

lemma map_find_key_ok:
  assumes types: "map_types lt rt" and rep: "map_rep lt rt mp M"
  shows "\<exists>a. map_find_key mp arg = Some (with_key mp (varg_elem (map_lzero mp) arg), a) \<and>
    (case M (varg_elem (map_lzero mp) arg) of None \<Rightarrow> a = NULL
     | Some v \<Rightarrow> a \<noteq> NULL \<and> a \<noteq> GUARD \<and> rbt_data (map_rbt mp) a = Some (varg_elem (map_lzero mp) arg, v))"
proof -
  let ?k = "varg_elem (map_lzero mp) arg"
  note tree = rb_elems.tree [OF map_types_tree [OF types]]
  have tot: "\<And>x y. equiv_by (type_less lt) x y \<Longrightarrow> x = y" and wo: "weak_order (type_less lt)"
    using types by (auto simp: map_types_def total_type_def rb_elems_def)
  obtain xs b where T: "key_tabs lt rt (map_rbt mp) xs" "map_of xs = M" and b: "pr_rptr (map_tmpmem mp) = Some b"
    using rep by (auto simp: map_rep_def)
  obtain a where a: "rbt_lookup (map_rbt mp) (?k, b) = Some a" "a = NULL \<longrightarrow> \<not> holds_equiv (rbt_key_less lt) xs (?k, b)"
      "a \<noteq> NULL \<longrightarrow> (\<exists>x\<in>set xs. rbt_data (map_rbt mp) a = Some x \<and> equiv_by (rbt_key_less lt) x (?k, b))"
    using ordered_tree.fnd_ok [OF tree T(1), of "(?k, b)"] by blast
  obtain q where "rbt_find_val (map_rbt mp) (?k, b) = Some (a, q)" using rbt_lookup_find [OF a(1)] by blast
  then have fk: "map_find_key mp arg = Some (with_key mp ?k, a)"
    using b by (simp add: map_find_key_def map_key_ok [OF types rep] pair_val_def)
  show ?thesis
  proof (cases "a = NULL")
    case True
    have "equiv_by (rbt_key_less lt) (?k, v) (?k, b)" for v
      using weak_order.irrefl [OF wo] by (simp add: equiv_by_def rbt_key_less_def)
    then have "M ?k = None" using a(2) True T(2) map_of_SomeD [of xs ?k]
      by (cases "M ?k") (auto simp: holds_equiv_def)
    with fk True show ?thesis by simp
  next
    case False
    then obtain x where x: "x \<in> set xs" "rbt_data (map_rbt mp) a = Some x" "equiv_by (rbt_key_less lt) x (?k, b)" using a(3) by blast
    obtain k v where xk: "x = (k, v)" by (cases x)
    have "k = ?k" using x(3) tot [of k ?k] by (simp add: xk key_equiv)
    moreover have "M k = Some v"
      using keys_distinct [OF wo ordered_tree.tabs_sorted [OF tree T(1)]] T(2) x(1) xk by (auto intro: map_of_is_SomeI)
    moreover have "a \<noteq> GUARD" using T(1) x(2) by (auto simp: rbt_tabs_def rbt_abs_def rbt_rep_def zip_at_def)
    ultimately show ?thesis using fk False x(2) xk by simp
  qed
qed

lemma map_init_rep:
  assumes "map_types lt rt"
  shows "\<exists>mp. map_init tids lt rt zl zr Map.empty Map.empty (Some l) (Some r) = Some mp \<and> map_rep lt rt mp Map.empty"
proof -
  obtain t where "rbt_init (pair_t lt rt) (rbt_key_less lt) False False Map.empty Map.empty = Some t" "key_tabs lt rt t []"
    using tabs_init [of False "pair_t lt rt" "rbt_key_less lt" "rbt_key_less lt" False] by auto
  then show ?thesis by (simp add: map_init_def map_rep_def pair_init_aux_def)
qed

section \<open>Properties\<close>

text \<open>C8: every operation that changes a map returns on every well-formed map, and its effect is that of the operation
  on partial functions: putting a key and a value, inserting a pair, removing a key, removing at an
  iterator (nothing at the end), clearing.\<close>

theorem map_ops_refine:
  assumes types: "map_types lt rt" and rep: "map_rep lt rt mp M" and ok: "map_op_ok op mp"
  shows "\<exists>mp'. map_exec op mp = Some mp' \<and> map_rep lt rt mp' (map_spec op mp M)"
proof (cases op)
  case (MPut k v p m)
  then show ?thesis using map_put_ok [OF types rep, of p k v m] ok by auto
next
  case (MInsert pr p m)
  then obtain k v where "pair_val pr = Some (k, v)" using ok by auto
  with MInsert show ?thesis using map_insert_ok [OF types rep, of p pr k v m] ok by auto
next
  case (MEraseVal k)
  then show ?thesis using map_erase_val_ok [OF types rep, of k] by simp
next
  case (MErase it)
  show ?thesis
  proof (cases "it = map_end mp")
    case True
    then show ?thesis using MErase rep by (simp add: map_erase_def rbt_iter_equal_def rbt_iter_is_vaild_def)
  next
    case False
    then obtain k v where "rbt_data (map_rbt mp) it = Some (k, v)" using ok MErase by auto
    with MErase show ?thesis using map_erase_ok [OF types rep, of it k v] by simp
  qed
next
  case MClear
  then show ?thesis using map_clear_ok [OF rep] by simp
qed

definition map_empty16 :: "(16 word, 16 word) cmap" where
  "map_empty16 = \<lparr>map_rbt = \<lparr>rbt_nodes = [GUARD \<mapsto> guard_node NULL], rbt_data = Map.empty, rbt_size = 0,
     rbt_is_multi = False, rbt_less = rbt_key_less int16_type, rbt_type = pair_t int16_type int16_type\<rparr>,
     map_ltype = int16_type, map_rtype = int16_type, map_lzero = 0, map_rzero = 0,
     map_tmpmem = \<lparr>pr_tids = (1, 1), pr_ltype = int16_type, pr_rtype = int16_type, pr_lptr = Some 0, pr_rptr = Some 0\<rparr>\<rparr>"

lemma map_empty16_rep: "map_types int16_type int16_type" "map_rep int16_type int16_type map_empty16 Map.empty"
  using int16_total int16.elem_type_axioms
  by (auto simp: map_types_def map_rep_def map_empty16_def rbt_tabs_def rbt_abs_def rbt_rep_def zip_at_def rb_def
      guard_node_def intro!: exI [of _ Lf])

lemma map_ops_refine_witness:
  "\<exists>mp'. map_exec (MPut (VValue 3) (VValue 8) 2 (0, 0)) map_empty16 = Some mp' \<and> map_rep int16_type int16_type mp' [3 \<mapsto> 8]"
  using map_ops_refine [OF map_empty16_rep, of "MPut (VValue 3) (VValue 8) 2 (0, 0)"]
  by (simp add: map_empty16_def rbt_room_def GUARD_def)

text \<open>\<^verbatim>\<open>map_count\<close>, \<^verbatim>\<open>map_at\<close>, \<^verbatim>\<open>map_at_val\<close> and \<^verbatim>\<open>map_find\<close> look a key up in that partial function, report an absent
  key as 0, a null pointer, -1 with the target untouched, and the end iterator, and leave the map unchanged.\<close>

theorem map_lookup_correct:
  assumes types: "map_types lt rt" and rep: "map_rep lt rt mp M"
  shows "\<exists>mp' it. map_rep lt rt mp' M \<and>
     map_count mp arg = Some (mp', case M (varg_elem (map_lzero mp) arg) of None \<Rightarrow> 0 | Some _ \<Rightarrow> 1) \<and>
     map_at mp arg = Some (mp', M (varg_elem (map_lzero mp) arg)) \<and>
     map_at_val mp d arg = Some (mp', case M (varg_elem (map_lzero mp) arg) of None \<Rightarrow> (- 1, d) | Some v \<Rightarrow> (0, v)) \<and>
     map_find mp arg = Some (mp', it) \<and> (it = map_end mp' \<longleftrightarrow> M (varg_elem (map_lzero mp) arg) = None)"
proof -
  let ?k = "varg_elem (map_lzero mp) arg"
  obtain a where a: "map_find_key mp arg = Some (with_key mp ?k, a)" "case M ?k of None \<Rightarrow> a = NULL
      | Some v \<Rightarrow> a \<noteq> NULL \<and> a \<noteq> GUARD \<and> rbt_data (map_rbt mp) a = Some (?k, v)"
    using map_find_key_ok [OF types rep, of arg] by blast
  have "type_copy (map_rtype mp) d v = v" for v
    using types rep elem_type.copies by (auto simp: map_types_def map_rep_def)
  then show ?thesis using a map_rep_with(1) [OF rep, of ?k]
    by (cases "M ?k") (auto simp: map_count_def map_at_def map_at_val_def map_find_def map_end_def)
qed

lemma map_lookup_correct_witness: "\<exists>mp'. map_at map_empty16 (VValue 3) = Some (mp', None)"
  using map_lookup_correct [OF map_empty16_rep, of "VValue 3" 0] by (auto simp: map_empty16_def)

end
