(* ===== verification/HeapArray.thy ===== *)
theory HeapArray
  imports Ctypes
begin

text \<open>
  The index structure of an array heap and the two repair loops on it, for any first index and parent
  function: \<^verbatim>\<open>cheap.c\<close> counts from 0, the macros of \<^verbatim>\<open>container.h\<close> from 1. The loops move a hole; \<open>zs\<close>
  below is the array with the moving element put into the hole.
\<close>

locale heap_index =
  fixes root :: nat and par :: "nat \<Rightarrow> nat"
  assumes par_less: "root < i \<Longrightarrow> par i < i"
    and par_root: "root < i \<Longrightarrow> root \<le> par i"
begin

definition is_heap :: "('a \<Rightarrow> 'a \<Rightarrow> bool) \<Rightarrow> 'a list \<Rightarrow> bool" where
  "is_heap lt zs \<longleftrightarrow> (\<forall>i. root < i \<and> i < length zs \<longrightarrow> \<not> lt (zs ! i) (zs ! par i))"

definition up_inv :: "('a \<Rightarrow> 'a \<Rightarrow> bool) \<Rightarrow> 'a list \<Rightarrow> nat \<Rightarrow> bool" where
  "up_inv lt zs pos \<longleftrightarrow> root \<le> pos \<and> pos < length zs \<and>
     (\<forall>i. root < i \<and> i < length zs \<and> i \<noteq> pos \<longrightarrow> \<not> lt (zs ! i) (zs ! par i)) \<and>
     (\<forall>i. root < i \<and> i < length zs \<and> par i = pos \<and> root < pos \<longrightarrow> \<not> lt (zs ! i) (zs ! par pos))"

definition down_inv :: "('a \<Rightarrow> 'a \<Rightarrow> bool) \<Rightarrow> 'a list \<Rightarrow> nat \<Rightarrow> bool" where
  "down_inv lt zs pos \<longleftrightarrow> root \<le> pos \<and> pos < length zs \<and>
     (\<forall>i. root < i \<and> i < length zs \<and> par i \<noteq> pos \<longrightarrow> \<not> lt (zs ! i) (zs ! par i)) \<and>
     (\<forall>i. root < i \<and> i < length zs \<and> par i = pos \<and> root < pos \<longrightarrow> \<not> lt (zs ! i) (zs ! par pos))"

abbreviation swap_at :: "'a list \<Rightarrow> nat \<Rightarrow> nat \<Rightarrow> 'a list" where
  "swap_at zs i j \<equiv> zs[i := zs ! j, j := zs ! i]"

lemma up_done:
  assumes "up_inv lt zs pos" "pos = root \<or> \<not> lt (zs ! pos) (zs ! par pos)"
  shows "is_heap lt zs"
  using assms by (auto simp: up_inv_def is_heap_def)

lemma up_step:
  assumes wo: "weak_order lt" and I: "up_inv lt zs pos" and pos: "root < pos" "lt (zs ! pos) (zs ! par pos)"
  shows "up_inv lt (swap_at zs pos (par pos)) (par pos)"
proof -
  let ?p = "par pos" and ?z = "swap_at zs pos (par pos)"
  note neg = weak_order.negtrans [OF wo] and tr = weak_order.trans [OF wo] and as = weak_order.asym [OF wo]
  have p: "?p < pos" "root \<le> ?p" "pos < length zs" "?p < length zs"
    using I pos par_less [OF pos(1)] par_root [OF pos(1)] by (auto simp: up_inv_def)
  have z: "?z ! i = (if i = ?p then zs ! pos else if i = pos then zs ! ?p else zs ! i)" if "i < length zs" for i
    using that p by (auto simp: nth_list_update)
  have H: "\<not> lt (zs ! i) (zs ! par i)" if "root < i" "i < length zs" "i \<noteq> pos" for i
    using I that by (auto simp: up_inv_def)
  have G: "\<not> lt (zs ! i) (zs ! ?p)" if "root < i" "i < length zs" "par i = pos" for i
    using I that pos by (auto simp: up_inv_def)
  have "\<not> lt (?z ! i) (?z ! par i)" if i: "root < i" "i < length zs" "i \<noteq> ?p" for i
  proof -
    have pi: "par i < length zs" using par_less [OF i(1)] i(2) by simp
    consider "i = pos" | "i \<noteq> pos" "par i = pos" | "i \<noteq> pos" "par i = ?p" | "i \<noteq> pos" "par i \<noteq> pos" "par i \<noteq> ?p" by blast
    then show ?thesis
    proof cases
      case 1
      then show ?thesis using z [OF i(2)] z [OF pi] p as [OF pos(2)] by simp
    next
      case 2
      then show ?thesis using z [OF i(2)] z [OF pi] i G p by simp
    next
      case 3
      then have "\<not> lt (zs ! i) (zs ! ?p)" using H [of i] i by simp
      then have "\<not> lt (zs ! i) (zs ! pos)" using tr pos(2) by blast
      then show ?thesis using 3 z [OF i(2)] z [OF pi] i by simp
    next
      case 4
      then show ?thesis using z [OF i(2)] z [OF pi] i H by simp
    qed
  qed
  moreover have "\<not> lt (?z ! i) (?z ! par ?p)" if i: "root < i" "i < length zs" "par i = ?p" "root < ?p" for i
  proof -
    have pp: "par ?p < ?p" using par_less [OF i(4)] .
    then have zp: "?z ! par ?p = zs ! par ?p" using z [of "par ?p"] p by simp
    have Hp: "\<not> lt (zs ! ?p) (zs ! par ?p)" using H [of ?p] i(4) p by simp
    show ?thesis
    proof (cases "i = pos")
      case True
      then show ?thesis using z [OF i(2)] zp Hp p by simp
    next
      case False
      moreover have "i \<noteq> ?p" using par_less [OF i(1)] i(3) by simp
      moreover have "\<not> lt (zs ! i) (zs ! par ?p)" using neg [OF _ Hp] H [of i] i False by simp
      ultimately show ?thesis using z [OF i(2)] zp by simp
    qed
  qed
  ultimately show ?thesis using p by (auto simp: up_inv_def)
qed

lemma down_done:
  assumes wo: "weak_order lt" and I: "down_inv lt zs pos"
    and c: "\<And>i. root < i \<Longrightarrow> i < length zs \<Longrightarrow> par i = pos \<Longrightarrow> \<not> lt (zs ! i) (zs ! pos)"
  shows "is_heap lt zs"
  using I c by (auto simp: down_inv_def is_heap_def)

lemma down_step:
  assumes wo: "weak_order lt" and I: "down_inv lt zs pos"
    and c: "root < c" "c < length zs" "par c = pos" "\<not> lt (zs ! pos) (zs ! c)"
      "\<And>i. root < i \<Longrightarrow> i < length zs \<Longrightarrow> par i = pos \<Longrightarrow> \<not> lt (zs ! i) (zs ! c)"
  shows "down_inv lt (swap_at zs pos c) c"
proof -
  let ?z = "swap_at zs pos c"
  have p: "pos < c" "root \<le> pos" "pos < length zs" using I c par_less [of c] by (auto simp: down_inv_def)
  have z: "?z ! i = (if i = c then zs ! pos else if i = pos then zs ! c else zs ! i)" if "i < length zs" for i
    using that p c by (auto simp: nth_list_update)
  have H: "\<not> lt (zs ! i) (zs ! par i)" if "root < i" "i < length zs" "par i \<noteq> pos" for i
    using I that by (auto simp: down_inv_def)
  have G: "\<not> lt (zs ! i) (zs ! par pos)" if "root < i" "i < length zs" "par i = pos" "root < pos" for i
    using I that by (auto simp: down_inv_def)
  have "\<not> lt (?z ! i) (?z ! par i)" if i: "root < i" "i < length zs" "par i \<noteq> c" for i
  proof -
    have pi: "par i < length zs" "par i < i" using par_less [OF i(1)] i(2) by simp_all
    consider "i = c" | "i \<noteq> c" "par i = pos" | "i \<noteq> c" "par i \<noteq> pos" "i = pos" | "i \<noteq> c" "par i \<noteq> pos" "i \<noteq> pos" by blast
    then show ?thesis
    proof cases
      case 1
      then show ?thesis using z [OF i(2)] z [OF pi(1)] p c by simp
    next
      case 2
      then show ?thesis using z [OF i(2)] z [OF pi(1)] pi p c(5) [OF i(1,2)] i by simp
    next
      case 3
      then show ?thesis using z [OF i(2)] z [OF pi(1)] i G [of c] c by simp
    next
      case 4
      then show ?thesis using z [OF i(2)] z [OF pi(1)] i H by simp
    qed
  qed
  moreover have "\<not> lt (?z ! i) (?z ! par c)" if i: "root < i" "i < length zs" "par i = c" for i
    using z [OF i(2)] z [OF p(3)] p c i H [of i] par_less [OF i(1)] by simp
  ultimately show ?thesis using p c by (auto simp: down_inv_def)
qed

lemma root_min:
  assumes wo: "weak_order lt" and h: "is_heap lt zs" and i: "root \<le> i" "i < length zs"
  shows "\<not> lt (zs ! i) (zs ! root)"
  using i
proof (induction i rule: less_induct)
  case (less i)
  show ?case
  proof (cases "i = root")
    case True
    then show ?thesis using weak_order.irrefl [OF wo] by simp
  next
    case False
    then have r: "root < i" using less.prems by simp
    have "\<not> lt (zs ! par i) (zs ! root)"
      using less.IH [OF par_less [OF r]] par_root [OF r] par_less [OF r] less.prems by simp
    moreover have "\<not> lt (zs ! i) (zs ! par i)" using h r less.prems by (simp add: is_heap_def)
    ultimately show ?thesis using weak_order.negtrans [OF wo] by blast
  qed
qed

lemma heap_butlast: "is_heap lt zs \<Longrightarrow> is_heap lt (butlast zs)"
  unfolding is_heap_def
proof (intro allI impI)
  fix i assume h: "\<forall>i. root < i \<and> i < length zs \<longrightarrow> \<not> lt (zs ! i) (zs ! par i)" and i: "root < i \<and> i < length (butlast zs)"
  then have "par i < length (butlast zs)" using par_less [of i] by simp
  then have "butlast zs ! i = zs ! i" "butlast zs ! par i = zs ! par i" using i nth_butlast by blast+
  moreover have "i < length zs" using i by auto
  ultimately show "\<not> lt (butlast zs ! i) (butlast zs ! par i)" using h i by simp
qed

text \<open>Where the loops start.\<close>

lemma up_start: "is_heap lt (butlast zs) \<Longrightarrow> root < length zs \<Longrightarrow> up_inv lt zs (length zs - 1)"
proof -
  assume h: "is_heap lt (butlast zs)" and r: "root < length zs"
  have "\<not> lt (zs ! i) (zs ! par i)" if "root < i" "i < length zs" "i \<noteq> length zs - 1" for i
  proof -
    have "i < length (butlast zs)" "par i < length (butlast zs)" using that par_less [OF that(1)] by auto
    with h that(1) show ?thesis unfolding is_heap_def by (metis nth_butlast)
  qed
  moreover have "par i \<noteq> length zs - 1" if "root < i" "i < length zs" for i
    using that par_less [OF that(1)] by simp
  ultimately show ?thesis using r by (auto simp: up_inv_def)
qed

lemma down_start: "is_heap lt zs \<Longrightarrow> root < length zs \<Longrightarrow> down_inv lt (zs[root := x]) root"
  using par_less by (auto simp: is_heap_def down_inv_def nth_list_update)

text \<open>Replacing one element leaves an array that one of the two loops repairs.\<close>

lemma replace_up:
  assumes wo: "weak_order lt" and h: "is_heap lt zs" and p: "root < pos" "pos < length zs" and lt: "lt y (zs ! par pos)"
  shows "up_inv lt (zs[pos := y]) pos"
proof -
  let ?z = "zs[pos := y]"
  note neg = weak_order.negtrans [OF wo] and tr = weak_order.trans [OF wo] and as = weak_order.asym [OF wo]
  have H: "\<not> lt (zs ! i) (zs ! par i)" if "root < i" "i < length zs" for i using h that by (simp add: is_heap_def)
  have pp: "par pos \<noteq> pos" using par_less [OF p(1)] by simp
  have K: "\<not> lt (zs ! i) (zs ! par pos)" if "root < i" "i < length zs" "par i = pos" for i
    using neg [OF _ H [OF p], of "zs ! i"] H [OF that(1,2)] that(3) by simp
  have Ky: "\<not> lt (zs ! i) y" if "root < i" "i < length zs" "par i = pos" for i
    using K [OF that] tr [OF _ lt] by blast
  have "\<not> lt (?z ! i) (?z ! par i)" if "root < i" "i < length zs" "i \<noteq> pos" for i
    using that H [of i] Ky [of i] p by (cases "par i = pos") auto
  moreover have "\<not> lt (?z ! i) (?z ! par pos)" if "root < i" "i < length zs" "par i = pos" for i
    using that K [of i] pp par_less [of i] by auto
  ultimately show ?thesis using p by (auto simp: up_inv_def)
qed

lemma replace_down:
  assumes wo: "weak_order lt" and h: "is_heap lt zs" and p: "root \<le> pos" "pos < length zs"
    and lt: "root < pos \<Longrightarrow> \<not> lt y (zs ! par pos)"
  shows "down_inv lt (zs[pos := y]) pos"
proof -
  let ?z = "zs[pos := y]"
  have H: "\<not> lt (zs ! i) (zs ! par i)" if "root < i" "i < length zs" for i using h that by (simp add: is_heap_def)
  have "\<not> lt (?z ! i) (?z ! par i)" if "root < i" "i < length zs" "par i \<noteq> pos" for i
    using that H [of i] lt p by (cases "i = pos") auto
  moreover have "\<not> lt (?z ! i) (?z ! par pos)" if "root < i" "i < length zs" "par i = pos" "root < pos" for i
  proof -
    have "par pos \<noteq> pos" "i \<noteq> pos" using par_less [OF that(4)] par_less [OF that(1)] that(3) by auto
    moreover have "\<not> lt (zs ! i) (zs ! par pos)"
      using weak_order.negtrans [OF wo _ H [OF that(4) p(2)], of "zs ! i"] H [OF that(1,2)] that(3) by simp
    ultimately show ?thesis by simp
  qed
  ultimately show ?thesis using p by (auto simp: down_inv_def)
qed

lemma heap_take: "is_heap lt zs \<Longrightarrow> is_heap lt (take n zs)"
  unfolding is_heap_def
proof (intro allI impI)
  fix i assume h: "\<forall>i. root < i \<and> i < length zs \<longrightarrow> \<not> lt (zs ! i) (zs ! par i)" and i: "root < i \<and> i < length (take n zs)"
  then show "\<not> lt (take n zs ! i) (take n zs ! par i)" using par_less [of i] by simp
qed

end

end
