(* ===== verification/Cheap.thy ===== *)
theory Cheap
  imports Cvector HeapArray
begin

text \<open>
  The priority queue of \<^verbatim>\<open>ohstl/cheap.c\<close>: a binary heap in a vector. The slot after the last element is
  the scratch space of the repair loops.
\<close>

record 'a heap =
  heap_vec :: "'a vec"
  heap_lessf :: "'a \<Rightarrow> 'a \<Rightarrow> bool"

text \<open>\<open>Inl\<close> is the return code of a failed initialisation. For \<open>heap_new\<close>, \<open>hp\<close> is the memory of the
  heap structure, and the result \<open>None\<close> is the null pointer.\<close>

definition heap_init ::
  "'a tfuncs \<Rightarrow> nat \<Rightarrow> 'a \<Rightarrow> ('a \<Rightarrow> 'a \<Rightarrow> bool) option \<Rightarrow> addr \<Rightarrow> (nat \<Rightarrow> 'a) \<Rightarrow> int + 'a heap" where
  "heap_init tp ts z lessfunc p g =
     (case (case lessfunc of Some f \<Rightarrow> Some f | None \<Rightarrow> tf_less tp) of
        None \<Rightarrow> Inl (- 1)
      | Some lt \<Rightarrow> (let (v, rc) = vector_init tp ts z p g in
          if rc < 0 then Inl (- 1) else Inr \<lparr>heap_vec = v, heap_lessf = lt\<rparr>))"

definition heap_new ::
  "addr \<Rightarrow> 'a tfuncs \<Rightarrow> nat \<Rightarrow> 'a \<Rightarrow> ('a \<Rightarrow> 'a \<Rightarrow> bool) option \<Rightarrow> addr \<Rightarrow> (nat \<Rightarrow> 'a) \<Rightarrow> 'a heap option" where
  "heap_new hp tp ts z lessfunc p g = (if hp = NULL then None
     else case heap_init tp ts z lessfunc p g of Inl _ \<Rightarrow> None | Inr h \<Rightarrow> Some h)"

definition heap_size :: "'a heap \<Rightarrow> nat" where
  "heap_size h = vec_size (heap_vec h)"

definition heap_empty :: "'a heap \<Rightarrow> bool" where
  "heap_empty h = (heap_size h = 0)"

definition HEAP_PARENT :: "nat \<Rightarrow> nat" where "HEAP_PARENT pos = (pos - 1) div 2"
definition HEAP_LCHILD :: "nat \<Rightarrow> nat" where "HEAP_LCHILD pos = 2 * pos + 1"

definition heap_top :: "'a heap \<Rightarrow> addr option" where
  "heap_top h = do { c_assert (\<not> heap_empty h); vector_front (heap_vec h) }"

definition heap_top_val :: "'a heap \<Rightarrow> 'a \<Rightarrow> 'a option" where
  "heap_top_val h elm = do {
     p \<leftarrow> heap_top h;
     d \<leftarrow> slot_get (heap_vec h) p;
     Some (type_copy (vec_type (heap_vec h)) elm d) }"

text \<open>\<^verbatim>\<open>heap->less(_HEAP_AT(heap, p1), _HEAP_AT(heap, p2))\<close>\<close>

definition heap_less_at :: "'a heap \<Rightarrow> nat \<Rightarrow> nat \<Rightarrow> bool option" where
  "heap_less_at h p1 p2 = do {
     a1 \<leftarrow> vector_at (heap_vec h) (int p1);
     a2 \<leftarrow> vector_at (heap_vec h) (int p2);
     x1 \<leftarrow> slot_get (heap_vec h) a1;
     x2 \<leftarrow> slot_get (heap_vec h) a2;
     Some (heap_lessf h x1 x2) }"

definition heap_copy :: "'a heap \<Rightarrow> nat \<Rightarrow> nat \<Rightarrow> addr \<Rightarrow> (nat \<Rightarrow> 'a) \<Rightarrow> 'a heap option" where
  "heap_copy h p1 p2 q g = do {
     c_assert (p1 \<le> heap_size h);
     c_assert (p2 \<le> heap_size h);
     v \<leftarrow> vector_copy_elem (heap_vec h) p1 p2 q g;
     Some (h\<lparr>heap_vec := v\<rparr>) }"

definition heap_swap :: "'a heap \<Rightarrow> nat \<Rightarrow> nat \<Rightarrow> addr \<Rightarrow> (nat \<Rightarrow> 'a) \<Rightarrow> 'a heap option" where
  "heap_swap h p1 p2 q g = do {
     c_assert (p1 \<le> heap_size h);
     c_assert (p2 \<le> heap_size h);
     v \<leftarrow> vector_swap_elem (heap_vec h) p1 p2 q g;
     Some (h\<lparr>heap_vec := v\<rparr>) }"

definition heap_fix_up :: "'a heap \<Rightarrow> nat \<Rightarrow> addr \<Rightarrow> (nat \<Rightarrow> 'a) \<Rightarrow> 'a heap option" where
  "heap_fix_up h pos q g = do {
     c_assert (pos < heap_size h);
     let lastpos = heap_size h;
     h \<leftarrow> heap_copy h lastpos pos q g;
     (h, pos) \<leftarrow> while_c
       (\<lambda>(h, pos). if 0 < pos then heap_less_at h lastpos (HEAP_PARENT pos) else Some False)
       (\<lambda>(h, pos). do { h \<leftarrow> heap_copy h pos (HEAP_PARENT pos) q g; Some (h, HEAP_PARENT pos) })
       (h, pos);
     heap_copy h pos lastpos q g }"

definition heap_min_child :: "'a heap \<Rightarrow> nat \<Rightarrow> nat option" where
  "heap_min_child h pos = do {
     let npos = HEAP_LCHILD pos;
     r \<leftarrow> (if npos + 1 < heap_size h then heap_less_at h (npos + 1) npos else Some False);
     Some (npos + (if r then 1 else 0)) }"

text \<open>The loop state carries whether the \<^verbatim>\<open>break\<close> was taken.\<close>

definition heap_fix_down_step ::
  "nat \<Rightarrow> addr \<Rightarrow> (nat \<Rightarrow> 'a) \<Rightarrow> 'a heap \<times> nat \<times> bool \<Rightarrow> ('a heap \<times> nat \<times> bool) option" where
  "heap_fix_down_step lastpos q g s = (case s of (h, pos, stop) \<Rightarrow> do {
     npos \<leftarrow> heap_min_child h pos;
     b \<leftarrow> heap_less_at h lastpos npos;
     if b then Some (h, pos, True)
     else do { h \<leftarrow> heap_copy h pos npos q g; Some (h, npos, False) } })"

definition heap_fix_down :: "'a heap \<Rightarrow> nat \<Rightarrow> addr \<Rightarrow> (nat \<Rightarrow> 'a) \<Rightarrow> 'a heap option" where
  "heap_fix_down h pos q g = do {
     c_assert (pos < heap_size h);
     let lastpos = heap_size h;
     h \<leftarrow> heap_copy h lastpos pos q g;
     (h, pos, stop) \<leftarrow> while_c
       (\<lambda>(h, pos, stop). Some (HEAP_LCHILD pos < heap_size h \<and> \<not> stop))
       (heap_fix_down_step lastpos q g) (h, pos, False);
     heap_copy h pos lastpos q g }"

text \<open>The insertion and the first copy of the repair may both reallocate.\<close>

definition heap_push ::
  "'a heap \<Rightarrow> 'a varg \<Rightarrow> addr \<Rightarrow> (nat \<Rightarrow> 'a) \<Rightarrow> addr \<Rightarrow> (nat \<Rightarrow> 'a) \<Rightarrow> 'a heap option" where
  "heap_push h arg q1 g1 q2 g2 = do {
     v \<leftarrow> vector_insert_varg (heap_vec h) (vec_end (heap_vec h)) arg q1 g1;
     let h = h\<lparr>heap_vec := v\<rparr>;
     heap_fix_up h (heap_size h - 1) q2 g2 }"

definition heap_pop :: "'a heap \<Rightarrow> addr \<Rightarrow> (nat \<Rightarrow> 'a) \<Rightarrow> 'a heap option" where
  "heap_pop h q g = do {
     c_assert (\<not> heap_empty h);
     h \<leftarrow> heap_swap h 0 (heap_size h - 1) q g;
     v \<leftarrow> vector_pop_back (heap_vec h);
     let h = h\<lparr>heap_vec := v\<rparr>;
     if \<not> heap_empty h then heap_fix_down h 0 q g else Some h }"

definition heap_destroy :: "'a heap \<Rightarrow> 'a heap option" where
  "heap_destroy h = do { v \<leftarrow> vector_destroy (heap_vec h); Some (h\<lparr>heap_vec := v\<rparr>) }"

end
