(* ===== verification/CheapSpec.thy ===== *)
theory CheapSpec
  imports Cheap CvectorSpec
begin

text \<open>
  The heap refines a multiset: the repair loops restore the heap order, push adds an element and pop
  removes a minimum.
\<close>

section \<open>Indices\<close>

interpretation h0: heap_index 0 HEAP_PARENT
  by unfold_locales (auto simp: HEAP_PARENT_def)

lemma heap_children:
  assumes "0 < i" "HEAP_PARENT i = pos"
  shows "i = HEAP_LCHILD pos \<or> i = HEAP_LCHILD pos + 1"
  using assms by (auto simp: HEAP_PARENT_def HEAP_LCHILD_def)

lemma parent_children:
  "HEAP_PARENT (HEAP_LCHILD pos) = pos" "HEAP_PARENT (Suc (HEAP_LCHILD pos)) = pos" "0 < HEAP_LCHILD pos"
  "pos < HEAP_LCHILD pos"
  by (auto simp: HEAP_PARENT_def HEAP_LCHILD_def)

section \<open>Slot operations\<close>

lemma move_one: "i < length s \<Longrightarrow> j < length s \<Longrightarrow> take i s @ take 1 (drop j s) @ drop (i + 1) s = s[i := s ! j]"
  by (simp add: upd_conv_take_nth_drop Cons_nth_drop_Suc [symmetric])

text \<open>A heap with room for the scratch slot, seen through its slots.\<close>

definition with_slots :: "'a heap \<Rightarrow> 'a list \<Rightarrow> 'a heap" where
  "with_slots h s = h\<lparr>heap_vec := (heap_vec h)\<lparr>vec_slots := s\<rparr>\<rparr>"

definition roomy :: "'a heap \<Rightarrow> bool" where
  "roomy h \<longleftrightarrow> vec_ok (heap_vec h) \<and> heap_size h < length (vec_slots (heap_vec h))"

lemma with_slots_sel [simp]:
  "heap_size (with_slots h s) = heap_size h" "heap_lessf (with_slots h s) = heap_lessf h"
  "vec_slots (heap_vec (with_slots h s)) = s" "vec_type (heap_vec (with_slots h s)) = vec_type (heap_vec h)"
  "vec_size (heap_vec (with_slots h s)) = vec_size (heap_vec h)"
  "with_slots (with_slots h s) s' = with_slots h s'" "with_slots h (vec_slots (heap_vec h)) = h"
  by (simp_all add: with_slots_def heap_size_def)

lemma roomy_with_slots: "roomy h \<Longrightarrow> length s = length (vec_slots (heap_vec h)) \<Longrightarrow> roomy (with_slots h s)"
  by (simp add: roomy_def with_slots_def vec_ok_def heap_size_def)

lemma reserve3_roomy:
  assumes "roomy h" "p1 \<le> heap_size h" "p2 \<le> heap_size h"
  shows "vector_reserve3 (heap_vec h) p1 p2 q g = Some (heap_vec h)"
proof -
  have "int (heap_size h + 1) \<le> vec_capacity (heap_vec h)" using assms(1) by (auto simp: roomy_def vec_ok_def)
  then show ?thesis using assms(2,3)
    by (simp add: vector_reserve3_def vector_reserve_def heap_size_def)
qed

lemma copy_roomy:
  assumes "roomy h" "p1 \<le> heap_size h" "p2 \<le> heap_size h"
  shows "heap_copy h p1 p2 q g =
    Some (with_slots h ((vec_slots (heap_vec h))[p1 := vec_slots (heap_vec h) ! p2]))"
proof -
  have ok: "vec_ok (heap_vec h)" "p1 < length (vec_slots (heap_vec h))" "p2 < length (vec_slots (heap_vec h))"
    using assms by (auto simp: roomy_def)
  then show ?thesis using assms reserve3_roomy [OF assms] slots_move_offset [OF ok(1), of p1 1 p2] move_one [OF ok(2,3)]
    by (simp add: heap_copy_def vector_copy_elem_def with_slots_def)
qed

lemma swap_roomy:
  assumes h: "roomy h" and p: "p1 < heap_size h" "p2 < heap_size h"
  shows "heap_swap h p1 p2 q g =
    Some (with_slots h ((vec_slots (heap_vec h))[heap_size h := vec_slots (heap_vec h) ! p1,
       p1 := vec_slots (heap_vec h) ! p2, p2 := vec_slots (heap_vec h) ! p1]))"
proof -
  let ?v = "heap_vec h" and ?n = "heap_size h"
  define s where "s = vec_slots ?v"
  have ok: "vec_ok ?v" and L: "?n < length s" using h by (auto simp: roomy_def s_def)
  have okU: "vec_ok (?v\<lparr>vec_slots := t\<rparr>)" if "length t = length s" for t using ok that by (simp add: vec_ok_def s_def)
  have off: "vec_offset (?v\<lparr>vec_slots := t\<rparr>) i = vec_offset ?v i" for t i by (simp add: vec_offset_def)
  have mv: "slots_move (?v\<lparr>vec_slots := t\<rparr>) (vec_offset ?v i) (vec_offset ?v j) 1 = Some (?v\<lparr>vec_slots := t[i := t ! j]\<rparr>)"
    if "length t = length s" "i < length s" "j < length s" for t i j
    using slots_move_offset [OF okU [OF that(1)], of i 1 j] that move_one [of i t j] by (simp add: off)
  have mv0: "slots_move ?v (vec_offset ?v ?n) (vec_offset ?v p1) 1 = Some (?v\<lparr>vec_slots := s[?n := s ! p1]\<rparr>)"
    using mv [of s ?n p1] L p by (simp add: s_def)
  have "vector_swap_elem ?v p1 p2 q g = Some (?v\<lparr>vec_slots := s[?n := s ! p1, p1 := s ! p2, p2 := s ! p1]\<rparr>)"
    using reserve3_roomy [OF h, of p1 p2 q g] p L mv0 mv [of "s[?n := s ! p1]" p1 p2]
      mv [of "s[?n := s ! p1, p1 := s ! p2]" p2 ?n]
    by (simp add: vector_swap_elem_def Let_def off heap_size_def [symmetric] del: One_nat_def)
  then show ?thesis using p by (simp add: heap_swap_def with_slots_def s_def)
qed

lemma less_at_roomy:
  assumes "roomy h" "i \<le> heap_size h" "j \<le> heap_size h"
  shows "heap_less_at h i j = Some (heap_lessf h (vec_slots (heap_vec h) ! i) (vec_slots (heap_vec h) ! j))"
  using assms slot_get_offset [of "heap_vec h" i] slot_get_offset [of "heap_vec h" j]
  by (simp add: heap_less_at_def vector_at_def roomy_def heap_size_def)


section \<open>The repair loops\<close>

text \<open>The elements with the moving one (kept in the scratch slot) put into the hole.\<close>

definition filled :: "nat \<Rightarrow> 'a list \<Rightarrow> nat \<Rightarrow> 'a list" where
  "filled n s pos = (take n s)[pos := s ! n]"

lemma filled_length: "n < length s \<Longrightarrow> length (filled n s pos) = n"
  by (simp add: filled_def)

lemma filled_nth: "n < length s \<Longrightarrow> i < n \<Longrightarrow> filled n s pos ! i = (if i = pos then s ! n else s ! i)"
  by (simp add: filled_def nth_list_update)

lemma filled_step:
  assumes "n < length s" "pos < n" "c < n" "c \<noteq> pos"
  shows "filled n (s[pos := s ! c]) c = h0.swap_at (filled n s pos) pos c"
  using assms by (auto simp: filled_def take_update_swap list_update_swap)

lemma filled_step_mset:
  assumes "n < length s" "pos < n" "c < n" "c \<noteq> pos"
  shows "mset (filled n (s[pos := s ! c]) c) = mset (filled n s pos)"
  using assms mset_swap [of c "filled n s pos" pos] by (simp add: filled_step filled_length)

lemma filled_final: "n < length s \<Longrightarrow> pos < n \<Longrightarrow> take n (s[pos := s ! n]) = filled n s pos"
  by (simp add: filled_def take_update_swap)

definition sift_state :: "('a list \<Rightarrow> nat \<Rightarrow> bool) \<Rightarrow> 'a heap \<Rightarrow> 'a multiset \<Rightarrow> 'a heap \<Rightarrow> nat \<Rightarrow> bool" where
  "sift_state I h M h' pos \<longleftrightarrow> (\<exists>s. h' = with_slots h s \<and> length s = length (vec_slots (heap_vec h)) \<and> pos < heap_size h \<and>
     I (filled (heap_size h) s pos) pos \<and> mset (filled (heap_size h) s pos) = M)"

lemma sift_move:
  assumes h: "roomy h" and c: "c < heap_size h" "c \<noteq> pos" and s: "length s = length (vec_slots (heap_vec h))"
    and pos: "pos < heap_size h" and M: "mset (filled (heap_size h) s pos) = M"
    and I: "I (h0.swap_at (filled (heap_size h) s pos) pos c) c"
  shows "\<exists>h'. heap_copy (with_slots h s) pos c q g = Some h' \<and> sift_state I h M h' c"
proof -
  have L: "heap_size h < length s" using h s by (simp add: roomy_def)
  have "heap_copy (with_slots h s) pos c q g = Some (with_slots h (s[pos := s ! c]))"
    using copy_roomy [OF roomy_with_slots [OF h s], of pos c q g] pos c by simp
  moreover have "sift_state I h M (with_slots h (s[pos := s ! c])) c"
    unfolding sift_state_def
    using filled_step [OF L pos c] filled_step_mset [OF L pos c] I M s c
    by (intro exI [of _ "s[pos := s ! c]"]) simp
  ultimately show ?thesis by blast
qed

lemma sift_finish:
  assumes h: "roomy h" and st: "sift_state I h M h' pos"
    and fin: "\<And>zs. I zs pos \<Longrightarrow> zs = filled (heap_size h) (vec_slots (heap_vec h')) pos \<Longrightarrow> h0.is_heap (heap_lessf h) zs"
  shows "\<exists>r. heap_copy h' pos (heap_size h) q g = Some r \<and> roomy r \<and> heap_size r = heap_size h \<and>
     heap_lessf r = heap_lessf h \<and> vec_type (heap_vec r) = vec_type (heap_vec h) \<and>
     h0.is_heap (heap_lessf h) (vec_list (heap_vec r)) \<and> mset (vec_list (heap_vec r)) = M"
proof -
  from st obtain s where s: "h' = with_slots h s" "length s = length (vec_slots (heap_vec h))" "pos < heap_size h"
    "I (filled (heap_size h) s pos) pos" "mset (filled (heap_size h) s pos) = M" by (auto simp: sift_state_def)
  let ?t = "s[pos := s ! heap_size h]"
  have L: "heap_size h < length s" using h s by (simp add: roomy_def)
  have "heap_copy h' pos (heap_size h) q g = Some (with_slots h ?t)"
    using copy_roomy [OF roomy_with_slots [OF h s(2)], of pos "heap_size h" q g] s by simp
  moreover have "vec_list (heap_vec (with_slots h ?t)) = filled (heap_size h) s pos"
    using filled_final [OF L s(3)] by (simp add: vec_list_def heap_size_def)
  moreover have "roomy (with_slots h ?t)" using roomy_with_slots [OF h, of ?t] s(2) by simp
  moreover have "h0.is_heap (heap_lessf h) (filled (heap_size h) s pos)"
    using fin [OF s(4)] s(1) by simp
  ultimately show ?thesis using s(5) by simp
qed

lemma fix_up_loop:
  assumes h: "roomy h" and wo: "weak_order (heap_lessf h)" and st: "sift_state (h0.up_inv (heap_lessf h)) h M h1 pos"
  shows "\<exists>h' pos'. while_c
       (\<lambda>(h', pos). if 0 < pos then heap_less_at h' (heap_size h) (HEAP_PARENT pos) else Some False)
       (\<lambda>(h', pos). do { h' \<leftarrow> heap_copy h' pos (HEAP_PARENT pos) q g; Some (h', HEAP_PARENT pos) })
       (h1, pos) = Some (h', pos') \<and> sift_state (h0.up_inv (heap_lessf h)) h M h' pos' \<and>
     (\<forall>zs. h0.up_inv (heap_lessf h) zs pos' \<and> zs = filled (heap_size h) (vec_slots (heap_vec h')) pos' \<longrightarrow>
        h0.is_heap (heap_lessf h) zs)"
    (is "\<exists>h' pos'. while_c ?b ?c _ = _ \<and> ?Q h' pos'")
proof -
  let ?lt = "heap_lessf h" and ?n = "heap_size h"
  have "\<exists>s'. while_c ?b ?c (h1, pos) = Some s' \<and> ?Q (fst s') (snd s')"
  proof (rule while_c_total [where I = "\<lambda>n s. sift_state (h0.up_inv ?lt) h M (fst s) (snd s) \<and> n = snd s"])
    show "sift_state (h0.up_inv ?lt) h M (fst (h1, pos)) (snd (h1, pos)) \<and> pos = snd (h1, pos)" using st by simp
  next
    fix n st assume "sift_state (h0.up_inv ?lt) h M (fst st) (snd st) \<and> n = snd st"
    then obtain h' p where st: "st = (h', p)" "n = p" and ss: "sift_state (h0.up_inv ?lt) h M h' p" by (cases st) auto
    then obtain s where s: "h' = with_slots h s" "length s = length (vec_slots (heap_vec h))" "p < ?n"
      "h0.up_inv ?lt (filled ?n s p) p" "mset (filled ?n s p) = M" by (auto simp: sift_state_def)
    have L: "?n < length s" using h s by (simp add: roomy_def)
    show "(?b st = Some False \<and> ?Q (fst st) (snd st)) \<or>
       (?b st = Some True \<and> (\<exists>s' m. ?c st = Some s' \<and> m < n \<and> sift_state (h0.up_inv ?lt) h M (fst s') (snd s') \<and> m = snd s'))"
    proof (cases "0 < p")
      case False
      then show ?thesis using st ss h0.up_done by auto
    next
      case True
      let ?p = "HEAP_PARENT p"
      have pp: "?p < p" "?p < ?n" using h0.par_less [OF True] s(3) by auto
      have b: "?b st = Some (?lt (s ! ?n) (s ! ?p))"
        using st True less_at_roomy [OF roomy_with_slots [OF h s(2)], of ?n ?p] pp s(1) by simp
      have fz: "filled ?n s p ! p = s ! ?n" "filled ?n s p ! ?p = s ! ?p"
        using filled_nth [OF L] pp s(3) by auto
      show ?thesis
      proof (cases "?lt (s ! ?n) (s ! ?p)")
        case True
        have "h0.up_inv ?lt (h0.swap_at (filled ?n s p) p ?p) ?p"
          using h0.up_step [OF wo s(4) \<open>0 < p\<close>] fz True by simp
        note up = this
        have "\<exists>h''. heap_copy (with_slots h s) p ?p q g = Some h'' \<and> sift_state (h0.up_inv ?lt) h M h'' ?p"
          by (rule sift_move [where I = "h0.up_inv ?lt", OF h pp(2) _ s(2,3,5) up]) (use pp(1) in simp)
        then obtain h'' where "heap_copy (with_slots h s) p ?p q g = Some h''" "sift_state (h0.up_inv ?lt) h M h'' ?p" by blast
        then show ?thesis using b True st s(1) pp(1) by auto
      next
        case False
        then have "h0.is_heap ?lt (filled ?n s p)" using h0.up_done [OF s(4)] fz by simp
        then show ?thesis using b st ss s(1) False by simp
      qed
    qed
  qed
  then show ?thesis by auto
qed


lemma min_child:
  assumes h: "roomy h" and wo: "weak_order (heap_lessf h)" and l: "HEAP_LCHILD p < heap_size h"
  shows "\<exists>c. heap_min_child h p = Some c \<and> c < heap_size h \<and> HEAP_PARENT c = p \<and> 0 < c \<and> p < c \<and>
    (\<forall>i. 0 < i \<and> i < heap_size h \<and> HEAP_PARENT i = p \<longrightarrow>
       \<not> heap_lessf h (vec_slots (heap_vec h) ! i) (vec_slots (heap_vec h) ! c))"
proof -
  let ?l = "HEAP_LCHILD p" and ?s = "vec_slots (heap_vec h)" and ?lt = "heap_lessf h"
  note pc = parent_children [of p] and irr = weak_order.irrefl [OF wo] and as = weak_order.asym [OF wo]
  have kids: "Q i" if "0 < i" "HEAP_PARENT i = p" "Q ?l" "Q (Suc ?l)" for i Q
    using heap_children [OF that(1,2)] that(3,4) by auto
  show ?thesis
  proof (cases "?l + 1 < heap_size h \<and> ?lt (?s ! (?l + 1)) (?s ! ?l)")
    case True
    then have "heap_min_child h p = Some (?l + 1)"
      using less_at_roomy [OF h, of "?l + 1" ?l] by (simp add: heap_min_child_def Let_def)
    moreover have "\<not> ?lt (?s ! i) (?s ! (?l + 1))" if "0 < i" "HEAP_PARENT i = p" for i
      by (rule kids [OF that]) (use True irr as in auto)
    ultimately show ?thesis using True pc by (intro exI [of _ "?l + 1"]) auto
  next
    case False
    then have "heap_min_child h p = Some ?l"
      using less_at_roomy [OF h, of "?l + 1" ?l] l by (auto simp: heap_min_child_def Let_def)
    moreover have "i < heap_size h \<longrightarrow> \<not> ?lt (?s ! i) (?s ! ?l)" if "0 < i" "HEAP_PARENT i = p" for i
      by (rule kids [OF that]) (use False irr in auto)
    ultimately show ?thesis using l pc by (intro exI [of _ ?l]) auto
  qed
qed

lemma fix_down_loop:
  assumes h: "roomy h" and wo: "weak_order (heap_lessf h)" and st: "sift_state (h0.down_inv (heap_lessf h)) h M h1 pos"
  shows "\<exists>h' pos' stop. while_c (\<lambda>(h', pos, stop). Some (HEAP_LCHILD pos < heap_size h' \<and> \<not> stop))
       (heap_fix_down_step (heap_size h) q g) (h1, pos, False) = Some (h', pos', stop) \<and>
     sift_state (h0.down_inv (heap_lessf h)) h M h' pos' \<and>
     (\<forall>zs. h0.down_inv (heap_lessf h) zs pos' \<and> zs = filled (heap_size h) (vec_slots (heap_vec h')) pos' \<longrightarrow>
        h0.is_heap (heap_lessf h) zs)"
    (is "\<exists>h' pos' stop. while_c ?b ?c _ = _ \<and> ?S h' pos' \<and> ?F h' pos'")
proof -
  let ?lt = "heap_lessf h" and ?n = "heap_size h"
  have "\<exists>s'. while_c ?b ?c (h1, pos, False) = Some s' \<and> (?S (fst s') (fst (snd s')) \<and> ?F (fst s') (fst (snd s')))"
  proof (rule while_c_total [where I = "\<lambda>n s. ?S (fst s) (fst (snd s)) \<and>
      (snd (snd s) \<longrightarrow> ?F (fst s) (fst (snd s))) \<and> n = (?n - fst (snd s)) + (if snd (snd s) then 0 else 1)"])
    show "?S (fst (h1, pos, False)) (fst (snd (h1, pos, False))) \<and>
      (snd (snd (h1, pos, False)) \<longrightarrow> ?F (fst (h1, pos, False)) (fst (snd (h1, pos, False)))) \<and>
      ?n - pos + 1 = (?n - fst (snd (h1, pos, False))) + (if snd (snd (h1, pos, False)) then 0 else 1)" using st by simp
  next
    fix m t assume I: "?S (fst t) (fst (snd t)) \<and> (snd (snd t) \<longrightarrow> ?F (fst t) (fst (snd t))) \<and>
      m = (?n - fst (snd t)) + (if snd (snd t) then 0 else 1)"
    then obtain h' p stop where t: "t = (h', p, stop)" "m = (?n - p) + (if stop then 0 else 1)"
      and ss: "?S h' p" and F: "stop \<longrightarrow> ?F h' p" by (cases t) auto
    then obtain s where s: "h' = with_slots h s" "length s = length (vec_slots (heap_vec h))" "p < ?n"
      "h0.down_inv ?lt (filled ?n s p) p" "mset (filled ?n s p) = M" by (auto simp: sift_state_def)
    have L: "?n < length s" using h s by (simp add: roomy_def)
    note roomy = roomy_with_slots [OF h s(2)]
    show "(?b t = Some False \<and> ?S (fst t) (fst (snd t)) \<and> ?F (fst t) (fst (snd t))) \<or>
       (?b t = Some True \<and> (\<exists>s' m'. ?c t = Some s' \<and> m' < m \<and> ?S (fst s') (fst (snd s')) \<and>
          (snd (snd s') \<longrightarrow> ?F (fst s') (fst (snd s'))) \<and> m' = (?n - fst (snd s')) + (if snd (snd s') then 0 else 1)))"
    proof (cases "HEAP_LCHILD p < ?n \<and> \<not> stop")
      case False
      have "?F h' p" if "\<not> stop"
      proof (intro allI impI)
        fix zs assume zs: "h0.down_inv ?lt zs p \<and> zs = filled ?n (vec_slots (heap_vec h')) p"
        show "h0.is_heap ?lt zs"
        proof (rule h0.down_done [OF wo])
          show "h0.down_inv ?lt zs p" using zs by blast
          fix i assume "0 < i" "i < length zs" "HEAP_PARENT i = p"
          then show "\<not> ?lt (zs ! i) (zs ! p)"
            using heap_children [of i p] False that zs filled_length [OF L] s(1) by auto
        qed
      qed
      with F False show ?thesis using t ss s(1) by auto
    next
      case True
      then obtain c where c: "heap_min_child h' p = Some c" "c < ?n" "HEAP_PARENT c = p" "0 < c" "p < c"
        "\<And>i. 0 < i \<Longrightarrow> i < ?n \<Longrightarrow> HEAP_PARENT i = p \<Longrightarrow> \<not> ?lt (s ! i) (s ! c)"
        using min_child [OF roomy, of p] wo s(1) by auto
      have less: "heap_less_at h' ?n c = Some (?lt (s ! ?n) (s ! c))"
        using less_at_roomy [OF roomy, of ?n c] c(2) s(1) by simp
      have fz: "filled ?n s p ! p = s ! ?n" "\<And>i. i < ?n \<Longrightarrow> i \<noteq> p \<Longrightarrow> filled ?n s p ! i = s ! i"
        using filled_nth [OF L] s(3) by auto
      have ch: "i \<noteq> p" if "0 < i" "HEAP_PARENT i = p" for i using h0.par_less [OF that(1)] that(2) by simp
      show ?thesis
      proof (cases "?lt (s ! ?n) (s ! c)")
        case True
        have "h0.is_heap ?lt (filled ?n s p)"
        proof (rule h0.down_done [OF wo s(4)])
          fix i assume i: "0 < i" "i < length (filled ?n s p)" "HEAP_PARENT i = p"
          then show "\<not> ?lt (filled ?n s p ! i) (filled ?n s p ! p)"
            using c(6) [of i] weak_order.trans [OF wo _ True] ch [of i] fz filled_length [OF L] by auto
        qed
        then have "?F h' p" using s(1) by simp
        moreover have "?c t = Some (h', p, True)" using c(1) less True t(1) by (simp add: heap_fix_down_step_def)
        ultimately show ?thesis using t ss \<open>HEAP_LCHILD p < ?n \<and> \<not> stop\<close> s(1) by simp
      next
        case False
        have "h0.down_inv ?lt (h0.swap_at (filled ?n s p) p c) c"
          by (rule h0.down_step [OF wo s(4)]) (use c fz filled_length [OF L] False ch s(3) in auto)
        note dn = this
        have "\<exists>h''. heap_copy (with_slots h s) p c q g = Some h'' \<and> sift_state (h0.down_inv ?lt) h M h'' c"
          by (rule sift_move [where I = "h0.down_inv ?lt", OF h c(2) _ s(2,3,5) dn]) (use c(5) in simp)
        then obtain h'' where h'': "heap_copy h' p c q g = Some h''" "sift_state (h0.down_inv ?lt) h M h'' c" using s(1) by blast
        then have "?c t = Some (h'', c, False)" using c(1) less False t(1) by (simp add: heap_fix_down_step_def)
        then show ?thesis using t h'' c(2,5) \<open>HEAP_LCHILD p < ?n \<and> \<not> stop\<close> s(1) by simp
      qed
    qed
  qed
  then show ?thesis by auto
qed


section \<open>Push and pop\<close>

definition heap_abs :: "'a heap \<Rightarrow> 'a multiset \<Rightarrow> bool" where
  "heap_abs h M \<longleftrightarrow> vec_ok (heap_vec h) \<and> h0.is_heap (heap_lessf h) (vec_list (heap_vec h)) \<and>
     mset (vec_list (heap_vec h)) = M"

lemma vec_list_length: "vec_ok v \<Longrightarrow> length (vec_list v) = vec_size v"
  by (simp add: vec_ok_def vec_list_def)

lemma vec_list_nonempty: "vec_ok v \<Longrightarrow> vec_list v \<noteq> [] \<Longrightarrow> 0 < vec_size v"
  by (auto simp: vec_ok_def vec_list_def)

text \<open>Reserving the scratch slot.\<close>

lemma reserve_room:
  assumes h: "vec_ok (heap_vec h)" "heap_size h < vec_max" and p: "p1 \<le> heap_size h" "p2 \<le> heap_size h" and q: "q \<noteq> NULL"
  shows "\<exists>h'. roomy h' \<and> heap_size h' = heap_size h \<and> heap_lessf h' = heap_lessf h \<and>
    vec_type (heap_vec h') = vec_type (heap_vec h) \<and> vec_list (heap_vec h') = vec_list (heap_vec h) \<and>
    heap_copy h p1 p2 q g = heap_copy h' p1 p2 q g \<and> heap_swap h p1 p2 q g = heap_swap h' p1 p2 q g"
proof -
  obtain w where w: "vector_reserve (heap_vec h) (heap_size h + 1) q g = Some w" "vec_ok w"
    "heap_size h + 1 \<le> length (vec_slots w)" "vec_size w = heap_size h" "vec_list w = vec_list (heap_vec h)"
    "vec_type w = vec_type (heap_vec h)"
    using reserve_ok [OF h(1) _ q, of "heap_size h + 1" g] h(2) by (auto simp: heap_size_def)
  let ?h = "h\<lparr>heap_vec := w\<rparr>"
  have r: "roomy ?h" using w by (simp add: roomy_def heap_size_def)
  have "int (p1 + 1) \<le> vec_capacity w" "int (p2 + 1) \<le> vec_capacity w" using w p by (auto simp: vec_ok_def)
  then have "vector_reserve3 (heap_vec h) p1 p2 q g = Some w"
    using w(1) by (simp add: vector_reserve3_def vector_reserve_def [of w] heap_size_def)
  moreover have "vector_reserve3 w p1 p2 q g = Some w"
    using reserve3_roomy [OF r, of p1 p2 q g] p w(4) by (simp add: heap_size_def)
  ultimately show ?thesis using w r p
    by (intro exI [of _ ?h])
       (simp add: heap_copy_def heap_swap_def vector_copy_elem_def vector_swap_elem_def heap_size_def)
qed

lemma first_copy:
  assumes h: "vec_ok (heap_vec h)" "heap_size h < vec_max" and p: "pos < heap_size h" and q: "q \<noteq> NULL"
    and I: "I (vec_list (heap_vec h)) pos"
  shows "\<exists>h1. heap_copy h (heap_size h) pos q g = Some h1 \<and> roomy h1 \<and> heap_size h1 = heap_size h \<and>
    heap_lessf h1 = heap_lessf h \<and> vec_type (heap_vec h1) = vec_type (heap_vec h) \<and>
    sift_state I h1 (mset (vec_list (heap_vec h))) h1 pos"
proof -
  from reserve_room [OF h, of "heap_size h" pos q g] p q obtain h' where h': "roomy h'" "heap_size h' = heap_size h"
    "heap_lessf h' = heap_lessf h" "vec_type (heap_vec h') = vec_type (heap_vec h)"
    "vec_list (heap_vec h') = vec_list (heap_vec h)" "heap_copy h (heap_size h) pos q g = heap_copy h' (heap_size h) pos q g" by auto
  let ?s = "vec_slots (heap_vec h')" and ?n = "heap_size h"
  let ?t = "?s[?n := ?s ! pos]"
  have L: "?n < length ?s" using h'(1,2) by (simp add: roomy_def)
  have copy: "heap_copy h ?n pos q g = Some (with_slots h' ?t)"
    using copy_roomy [OF h'(1), of ?n pos q g] h' p by simp
  have "vec_list (heap_vec h) = take ?n ?s" using h'(5,2) by (simp add: vec_list_def heap_size_def)
  then have "filled ?n ?t pos = vec_list (heap_vec h)" using L p by (simp add: filled_def list_update_same_conv)
  then have "sift_state I (with_slots h' ?t) (mset (vec_list (heap_vec h))) (with_slots h' ?t) pos"
    unfolding sift_state_def using I p h'(2) by (intro exI [of _ ?t]) simp
  moreover have "roomy (with_slots h' ?t)" using roomy_with_slots [OF h'(1)] by simp
  ultimately show ?thesis using copy h' by simp
qed

lemma fix_up_ok:
  assumes h: "vec_ok (heap_vec h)" "heap_size h < vec_max" and p: "pos < heap_size h" and q: "q \<noteq> NULL"
    and wo: "weak_order (heap_lessf h)" and I: "h0.up_inv (heap_lessf h) (vec_list (heap_vec h)) pos"
  shows "\<exists>r. heap_fix_up h pos q g = Some r \<and> heap_abs r (mset (vec_list (heap_vec h))) \<and>
    heap_lessf r = heap_lessf h \<and> vec_type (heap_vec r) = vec_type (heap_vec h) \<and> heap_size r = heap_size h"
proof -
  from first_copy [where I = "h0.up_inv (heap_lessf h)", OF h p q I, of g] obtain h1 where
    h1: "heap_copy h (heap_size h) pos q g = Some h1" "roomy h1" "heap_size h1 = heap_size h" "heap_lessf h1 = heap_lessf h"
    "vec_type (heap_vec h1) = vec_type (heap_vec h)"
    "sift_state (h0.up_inv (heap_lessf h1)) h1 (mset (vec_list (heap_vec h))) h1 pos" by auto
  from fix_up_loop [OF h1(2) _ h1(6), of q g] wo h1(4) obtain h2 pos2 where
    loop: "while_c
       (\<lambda>(h', pos). if 0 < pos then heap_less_at h' (heap_size h1) (HEAP_PARENT pos) else Some False)
       (\<lambda>(h', pos). do { h' \<leftarrow> heap_copy h' pos (HEAP_PARENT pos) q g; Some (h', HEAP_PARENT pos) })
       (h1, pos) = Some (h2, pos2)" and
    h2: "sift_state (h0.up_inv (heap_lessf h1)) h1 (mset (vec_list (heap_vec h))) h2 pos2"
      "\<forall>zs. h0.up_inv (heap_lessf h1) zs pos2 \<and> zs = filled (heap_size h1) (vec_slots (heap_vec h2)) pos2 \<longrightarrow>
        h0.is_heap (heap_lessf h1) zs" by auto
  from sift_finish [OF h1(2) h2(1), of q g] h2(2) obtain r where
    r: "heap_copy h2 pos2 (heap_size h1) q g = Some r" "roomy r" "heap_size r = heap_size h1"
     "heap_lessf r = heap_lessf h1" "vec_type (heap_vec r) = vec_type (heap_vec h1)"
     "h0.is_heap (heap_lessf h1) (vec_list (heap_vec r))" "mset (vec_list (heap_vec r)) = mset (vec_list (heap_vec h))" by auto
  have "heap_fix_up h pos q g = Some r"
    using p h1(1) loop [unfolded h1(3)] r(1) h1(3) by (simp add: heap_fix_up_def Let_def)
  then show ?thesis using r h1 by (simp add: heap_abs_def roomy_def)
qed

lemma fix_down_ok:
  assumes h: "vec_ok (heap_vec h)" "heap_size h < vec_max" and p: "pos < heap_size h" and q: "q \<noteq> NULL"
    and wo: "weak_order (heap_lessf h)" and I: "h0.down_inv (heap_lessf h) (vec_list (heap_vec h)) pos"
  shows "\<exists>r. heap_fix_down h pos q g = Some r \<and> heap_abs r (mset (vec_list (heap_vec h))) \<and>
    heap_lessf r = heap_lessf h \<and> vec_type (heap_vec r) = vec_type (heap_vec h) \<and> heap_size r = heap_size h"
proof -
  from first_copy [where I = "h0.down_inv (heap_lessf h)", OF h p q I, of g] obtain h1 where
    h1: "heap_copy h (heap_size h) pos q g = Some h1" "roomy h1" "heap_size h1 = heap_size h" "heap_lessf h1 = heap_lessf h"
    "vec_type (heap_vec h1) = vec_type (heap_vec h)"
    "sift_state (h0.down_inv (heap_lessf h1)) h1 (mset (vec_list (heap_vec h))) h1 pos" by auto
  from fix_down_loop [OF h1(2) _ h1(6), of q g] wo h1(4) obtain h2 pos2 stop where
    loop: "while_c (\<lambda>(h', pos, stop). Some (HEAP_LCHILD pos < heap_size h' \<and> \<not> stop))
       (heap_fix_down_step (heap_size h1) q g) (h1, pos, False) = Some (h2, pos2, stop)" and
    h2: "sift_state (h0.down_inv (heap_lessf h1)) h1 (mset (vec_list (heap_vec h))) h2 pos2"
      "\<forall>zs. h0.down_inv (heap_lessf h1) zs pos2 \<and> zs = filled (heap_size h1) (vec_slots (heap_vec h2)) pos2 \<longrightarrow>
        h0.is_heap (heap_lessf h1) zs" by auto
  from sift_finish [OF h1(2) h2(1), of q g] h2(2) obtain r where
    r: "heap_copy h2 pos2 (heap_size h1) q g = Some r" "roomy r" "heap_size r = heap_size h1"
     "heap_lessf r = heap_lessf h1" "vec_type (heap_vec r) = vec_type (heap_vec h1)"
     "h0.is_heap (heap_lessf h1) (vec_list (heap_vec r))" "mset (vec_list (heap_vec r)) = mset (vec_list (heap_vec h))" by auto
  have "heap_fix_down h pos q g = Some r"
    using p h1(1) loop [unfolded h1(3)] r(1) h1(3) by (simp add: heap_fix_down_def Let_def)
  then show ?thesis using r h1 by (simp add: heap_abs_def roomy_def)
qed


lemma push_abs:
  assumes a: "heap_abs h M" and wo: "weak_order (heap_lessf h)" and tp: "elem_type (vec_type (heap_vec h))"
    and len: "size M + 1 < vec_max" and q: "q1 \<noteq> NULL" "q2 \<noteq> NULL"
  shows "\<exists>r. heap_push h arg q1 g1 q2 g2 = Some r \<and> heap_abs r (add_mset (varg_elem (vec_zero (heap_vec h)) arg) M) \<and>
    heap_lessf r = heap_lessf h \<and> vec_type (heap_vec r) = vec_type (heap_vec h)"
proof -
  let ?v = "heap_vec h" let ?xs = "vec_list ?v" let ?x = "varg_elem (vec_zero ?v) arg"
  have ok: "vec_ok ?v" "h0.is_heap (heap_lessf h) ?xs" "mset ?xs = M" using a by (auto simp: heap_abs_def)
  have rep: "vec_rep ?v ?xs" using ok by (simp add: vec_rep_def)
  have n: "length ?xs = vec_size ?v" "size M = length ?xs" using vec_list_length [OF ok(1)] ok(3) by auto
  from insert_varg_rep [OF rep _ tp q(1), of "length ?xs" arg g1] len n obtain v' where
    v': "vector_insert_varg ?v (vec_end ?v) arg q1 g1 = Some v'" "vec_rep v' (?xs @ [?x])" "vec_type v' = vec_type ?v"
    by (auto simp: vec_end_def)
  let ?h = "h\<lparr>heap_vec := v'\<rparr>"
  have l': "vec_list v' = ?xs @ [?x]" "vec_ok v'" "vec_size v' = Suc (length ?xs)"
    using v'(2) vec_rep_length [OF v'(2)] by (auto simp: vec_rep_def)
  have "h0.up_inv (heap_lessf h) (?xs @ [?x]) (length ?xs)"
    using h0.up_start [of "heap_lessf h" "?xs @ [?x]"] ok(2) by simp
  then have "\<exists>r. heap_fix_up ?h (length ?xs) q2 g2 = Some r \<and> heap_abs r (mset (vec_list (heap_vec ?h))) \<and>
    heap_lessf r = heap_lessf ?h \<and> vec_type (heap_vec r) = vec_type (heap_vec ?h) \<and> heap_size r = heap_size ?h"
    using l' len n wo q(2) by (intro fix_up_ok) (auto simp: heap_size_def)
  then show ?thesis using v' l' ok(3) by (auto simp: heap_push_def heap_size_def)
qed

lemma heap_top_min:
  assumes a: "heap_abs h M" and M: "M \<noteq> {#}" and wo: "weak_order (heap_lessf h)"
  shows "\<exists>p x. heap_top h = Some p \<and> slot_get (heap_vec h) p = Some x \<and> x = hd (vec_list (heap_vec h)) \<and>
    x \<in># M \<and> (\<forall>y\<in>#M. \<not> heap_lessf h y x)"
proof -
  let ?v = "heap_vec h" and ?xs = "vec_list (heap_vec h)"
  have ok: "vec_ok ?v" "h0.is_heap (heap_lessf h) ?xs" "mset ?xs = M" using a by (auto simp: heap_abs_def)
  have n: "length ?xs = vec_size ?v" "?xs \<noteq> []" using vec_list_length [OF ok(1)] ok(3) M by auto
  note pos = vec_list_nonempty [OF ok(1) n(2)]
  have s0: "vec_slots ?v ! 0 = hd ?xs" using n ok(1) by (auto simp: vec_list_def vec_ok_def hd_conv_nth)
  have "heap_top h = Some (vec_offset ?v 0)"
    using n pos by (auto simp: heap_top_def heap_empty_def heap_size_def vector_front_def vector_at_def)
  moreover have "slot_get ?v (vec_offset ?v 0) = Some (hd ?xs)"
  proof -
    have "0 < length (vec_slots ?v)" using pos ok(1) unfolding vec_ok_def by linarith
    from slot_get_offset [OF ok(1) this] s0 show ?thesis by simp
  qed
  moreover have "hd ?xs \<in># M" using ok(3) n(2) by auto
  moreover have "\<not> heap_lessf h y (hd ?xs)" if "y \<in># M" for y
  proof -
    from that ok(3) obtain i where "i < length ?xs" "y = ?xs ! i" by (metis in_set_conv_nth set_mset_mset)
    with h0.root_min [OF wo ok(2), of i] n(2) show ?thesis by (simp add: hd_conv_nth)
  qed
  ultimately show ?thesis by blast
qed

lemma pop_abs:
  assumes a: "heap_abs h M" and M: "M \<noteq> {#}" and wo: "weak_order (heap_lessf h)" and len: "size M < vec_max" and q: "q \<noteq> NULL"
  shows "\<exists>r. heap_pop h q g = Some r \<and> heap_abs r (M - {# hd (vec_list (heap_vec h)) #}) \<and>
    heap_lessf r = heap_lessf h \<and> vec_type (heap_vec r) = vec_type (heap_vec h)"
proof -
  let ?v = "heap_vec h" let ?xs = "vec_list ?v" let ?lt = "heap_lessf h"
  have ok: "vec_ok ?v" "h0.is_heap ?lt ?xs" "mset ?xs = M" using a by (auto simp: heap_abs_def)
  have ne: "?xs \<noteq> []" using ok(3) M by auto
  have n: "length ?xs = heap_size h" "?xs \<noteq> []" "heap_size h < vec_max" "0 < heap_size h"
    using vec_list_length [OF ok(1)] vec_list_nonempty [OF ok(1) ne] ok(3) len ne by (auto simp: heap_size_def)
  let ?n = "heap_size h"
  from reserve_room [OF ok(1) n(3), of 0 "?n - 1" q g] q obtain h' where h': "roomy h'" "heap_size h' = ?n"
    "heap_lessf h' = ?lt" "vec_type (heap_vec h') = vec_type ?v" "vec_list (heap_vec h') = ?xs"
    "heap_swap h 0 (?n - 1) q g = heap_swap h' 0 (?n - 1) q g" by auto
  let ?s = "vec_slots (heap_vec h')"
  let ?t = "?s[?n := ?s ! 0, 0 := ?s ! (?n - 1), ?n - 1 := ?s ! 0]"
  have L: "?n < length ?s" using h'(1,2) by (simp add: roomy_def)
  have swap: "heap_swap h 0 (?n - 1) q g = Some (with_slots h' ?t)"
    using swap_roomy [OF h'(1), of 0 "?n - 1" q g] h' n(4) by simp
  have xs: "?xs = take ?n ?s" using h'(5,2) by (simp add: vec_list_def heap_size_def)
  have e: "?s ! 0 = hd ?xs" "?s ! (?n - 1) = last ?xs"
    using xs n L by (simp_all add: hd_conv_nth last_conv_nth)
  let ?ys = "?xs[0 := last ?xs, ?n - 1 := hd ?xs]"
  have lt: "vec_list (heap_vec (with_slots h' ?t)) = ?ys"
    unfolding e using xs n(4) h'(2) by (simp add: vec_list_def heap_size_def take_update_swap list_update_beyond)
  let ?h1 = "with_slots h' ?t"
  have r1: "roomy ?h1" using roomy_with_slots [OF h'(1)] by simp
  then have rep: "vec_rep (heap_vec ?h1) ?ys" using lt by (simp add: vec_rep_def roomy_def)
  have "?ys \<noteq> []" using n(2) by simp
  from pop_back_rep [OF rep this] obtain v2 where v2: "vector_pop_back (heap_vec ?h1) = Some v2"
    "vec_rep v2 (butlast ?ys)" "vec_type v2 = vec_type ?v" using h'(4) by auto
  let ?zs = "butlast ?ys" and ?h2 = "?h1\<lparr>heap_vec := v2\<rparr>"
  have z: "vec_ok v2" "vec_list v2 = ?zs" "vec_size v2 = ?n - 1" using v2(2) vec_rep_length [OF v2(2)] n(1) by (auto simp: vec_rep_def)
  have zs: "?zs = (butlast ?xs)[0 := last ?xs]"
    using n(1) n(4) by (simp add: butlast_conv_take take_update_swap list_update_beyond)
  have mz: "mset ?zs = M - {# hd ?xs #}"
  proof (cases ?xs)
    case (Cons x ws)
    show ?thesis
    proof (cases ws rule: rev_cases)
      case Nil
      then show ?thesis using zs ok(3) Cons by auto
    next
      case (snoc us u)
      then show ?thesis using zs ok(3) [symmetric] Cons by simp
    qed
  qed (use n(2) in simp)
  have empty: "heap_empty ?h2 \<longleftrightarrow> ?n - 1 = 0" using z(3) by (simp add: heap_empty_def heap_size_def)
  have pop: "heap_pop h q g = (if \<not> heap_empty ?h2 then heap_fix_down ?h2 0 q g else Some ?h2)"
    using swap v2(1) n(4) by (simp add: heap_pop_def heap_empty_def Let_def)
  show ?thesis
  proof (cases "?n - 1 = 0")
    case True
    then have "?zs = []" using n(1) by (simp add: butlast_conv_take)
    then have "heap_abs ?h2 (M - {# hd ?xs #})" using z mz by (simp add: heap_abs_def h0.is_heap_def)
    then show ?thesis using pop empty True v2(3) h'(3) by simp
  next
    case False
    have hb: "h0.is_heap ?lt (butlast ?xs)" using ok(2) by (rule h0.heap_butlast)
    have "h0.down_inv ?lt ?zs 0"
      unfolding zs by (rule h0.down_start [OF hb]) (use False n(1) in simp)
    then have "\<exists>r. heap_fix_down ?h2 0 q g = Some r \<and> heap_abs r (mset (vec_list (heap_vec ?h2))) \<and>
      heap_lessf r = heap_lessf ?h2 \<and> vec_type (heap_vec r) = vec_type (heap_vec ?h2) \<and> heap_size r = heap_size ?h2"
      using z False n(3) q wo h'(3) by (intro fix_down_ok) (auto simp: heap_size_def)
    then show ?thesis using pop empty False z mz v2(3) h'(3) by auto
  qed
qed

section \<open>The priority queue interface\<close>

text \<open>
  What a client of a bounded priority queue relies on, and what follows for it: emptying the queue
  yields the elements in order.
\<close>

locale priority_queue =
  fixes abs :: "'q \<Rightarrow> 'a multiset \<Rightarrow> bool" and lt :: "'a \<Rightarrow> 'a \<Rightarrow> bool" and limit :: nat
    and push :: "'q \<Rightarrow> 'a \<Rightarrow> 'q option" and top :: "'q \<Rightarrow> 'a option" and pop :: "'q \<Rightarrow> 'q option"
  assumes push: "abs q M \<Longrightarrow> size M < limit \<Longrightarrow> \<exists>q'. push q x = Some q' \<and> abs q' (add_mset x M)"
    and pop: "abs q M \<Longrightarrow> M \<noteq> {#} \<Longrightarrow> size M \<le> limit \<Longrightarrow>
      \<exists>x q'. top q = Some x \<and> x \<in># M \<and> (\<forall>y\<in>#M. \<not> lt y x) \<and> pop q = Some q' \<and> abs q' (M - {#x#})"
begin

fun push_all :: "'q \<Rightarrow> 'a list \<Rightarrow> 'q option" where
  "push_all q [] = Some q"
| "push_all q (x # xs) = Option.bind (push q x) (\<lambda>q. push_all q xs)"

fun drain :: "nat \<Rightarrow> 'q \<Rightarrow> ('a list \<times> 'q) option" where
  "drain 0 q = Some ([], q)"
| "drain (Suc n) q = Option.bind (top q) (\<lambda>x. Option.bind (pop q) (\<lambda>q.
     Option.bind (drain n q) (\<lambda>(xs, q). Some (x # xs, q))))"

lemma push_all_abs:
  "abs q M \<Longrightarrow> size M + length xs \<le> limit \<Longrightarrow> \<exists>q'. push_all q xs = Some q' \<and> abs q' (mset xs + M)"
proof (induction xs arbitrary: q M)
  case (Cons x xs)
  then obtain q' where "push q x = Some q'" "abs q' (add_mset x M)" using push [of q M x] by auto
  with Cons.IH [of q' "add_mset x M"] Cons.prems show ?case by simp
qed simp

lemma drain_sorted:
  "abs q M \<Longrightarrow> size M \<le> limit \<Longrightarrow>
   \<exists>xs q'. drain (size M) q = Some (xs, q') \<and> abs q' {#} \<and> mset xs = M \<and> sorted_wrt (\<lambda>x y. \<not> lt y x) xs"
proof (induction "size M" arbitrary: q M)
  case 0
  then show ?case by simp
next
  case (Suc n)
  then have "M \<noteq> {#}" by auto
  from pop [OF Suc.prems(1) this Suc.prems(2)] obtain x q' where
    x: "top q = Some x" "x \<in># M" "\<forall>y\<in>#M. \<not> lt y x" "pop q = Some q'" "abs q' (M - {#x#})" by blast
  have "n = size (M - {#x#})" using Suc.hyps(2) x(2) by (simp add: size_Diff_singleton)
  from Suc.hyps(1) [OF this x(5)] Suc.prems(2) this Suc.hyps(2) obtain xs q'' where
    d: "drain n q' = Some (xs, q'')" "abs q'' {#}" "mset xs = M - {#x#}" "sorted_wrt (\<lambda>x y. \<not> lt y x) xs" by auto
  have "\<not> lt y x" if "y \<in> set xs" for y using that d(3) x(3) by (metis in_diffD set_mset_mset)
  then show ?case using d x Suc.hyps(2) by (intro exI [of _ "x # xs"] exI [of _ q'']) (auto simp flip: Suc.hyps(2))
qed

end

text \<open>The heap of 16-bit integers in a block that the allocator grows in place.\<close>

definition heap16_abs :: "16 word heap \<Rightarrow> 16 word multiset \<Rightarrow> bool" where
  "heap16_abs h M \<longleftrightarrow> heap_abs h M \<and> heap_lessf h = less_promoted_signed \<and> vec_type (heap_vec h) = int16_type"

definition heap16_push :: "16 word heap \<Rightarrow> 16 word \<Rightarrow> 16 word heap option" where
  "heap16_push h x = heap_push h (VValue x) 4096 (\<lambda>_. 0) 4096 (\<lambda>_. 0)"

definition heap16_top :: "16 word heap \<Rightarrow> 16 word option" where
  "heap16_top h = heap_top_val h 0"

definition heap16_pop :: "16 word heap \<Rightarrow> 16 word heap option" where
  "heap16_pop h = heap_pop h 4096 (\<lambda>_. 0)"

interpretation pq16: priority_queue heap16_abs less_promoted_signed "2 ^ 29" heap16_push heap16_top heap16_pop
proof (unfold_locales, goal_cases)
  case (1 q M x)
  have "weak_order (heap_lessf q)" "elem_type (vec_type (heap_vec q))"
    using 1(1) promoted_signed.weak_order_axioms int16.elem_type_axioms by (auto simp: heap16_abs_def)
  from push_abs [OF _ this, of M 4096 4096 "VValue x" "\<lambda>_. 0" "\<lambda>_. 0"] 1 show ?case
    by (auto simp: heap16_abs_def heap16_push_def)
next
  case (2 q M)
  have wo: "weak_order (heap_lessf q)"
    using 2(1) promoted_signed.weak_order_axioms by (auto simp: heap16_abs_def)
  have a: "heap_abs q M" using 2(1) by (simp add: heap16_abs_def)
  from heap_top_min [OF a 2(2) wo] obtain p x where
    x: "heap_top q = Some p" "slot_get (heap_vec q) p = Some x" "x = hd (vec_list (heap_vec q))" "x \<in># M"
      "\<forall>y\<in>#M. \<not> heap_lessf q y x" by blast
  from pop_abs [OF a 2(2) wo, of 4096 "\<lambda>_. 0"] 2(3) obtain r where
    r: "heap_pop q 4096 (\<lambda>_. 0) = Some r" "heap_abs r (M - {#x#})" "heap_lessf r = heap_lessf q"
      "vec_type (heap_vec r) = vec_type (heap_vec q)" using x(3) by auto
  have "heap16_top q = Some x" using x(1,2) 2(1) int16.copies by (simp add: heap16_top_def heap_top_val_def heap16_abs_def)
  with x r 2(1) show ?case by (auto simp: heap16_abs_def heap16_pop_def)
qed

section \<open>Properties\<close>

text \<open>The empty heap and a heap of three 16-bit integers.\<close>

definition heap16_three :: "16 word heap" where
  "heap16_three = \<lparr>heap_vec = \<lparr>vec_size = 3, vec_capacity = 4, vec_data = 1000, vec_slots = [2, 7, 5, 0],
     vec_type = int16_type, vec_type_size = 2, vec_zero = 0\<rparr>, heap_lessf = less_promoted_signed\<rparr>"

lemma heap16_three_abs: "heap16_abs heap16_three {#2, 5, 7#}"
proof -
  have "h0.is_heap less_promoted_signed [2, 7, 5 :: 16 word]"
    by (auto simp: h0.is_heap_def promoted_signed_iff HEAP_PARENT_def less_Suc_eq numeral_eq_Suc)
  then show ?thesis
    by (simp add: heap16_abs_def heap_abs_def heap16_three_def vec_ok_def vec_list_def add_mset_commute)
qed



text \<open>\<^verbatim>\<open>heap_top\<close> points at a minimum, and \<^verbatim>\<open>heap_pop\<close> returns, removes exactly that occurrence and
  keeps the heap order.\<close>

theorem heap_pop_refines:
  assumes "heap_abs h M" "M \<noteq> {#}" "weak_order (heap_lessf h)" "size M < vec_max" "q \<noteq> NULL"
  shows "\<exists>p x r. heap_top h = Some p \<and> slot_get (heap_vec h) p = Some x \<and> x \<in># M \<and>
    (\<forall>y\<in>#M. \<not> heap_lessf h y x) \<and> heap_pop h q g = Some r \<and> heap_abs r (M - {#x#})"
  using heap_top_min [OF assms(1-3)] pop_abs [OF assms, of g] by metis

theorem heap_pop_refines_witness:
  "\<exists>r. heap_pop heap16_three 3000 (\<lambda>_. 9) = Some r \<and> (\<exists>x. heap_abs r ({#2, 5, 7#} - {#x#}))"
  using heap_pop_refines [of heap16_three "{#2, 5, 7#}" 3000 "\<lambda>_. 9"] heap16_three_abs
    promoted_signed.weak_order_axioms
  by (auto simp: heap16_abs_def)

text \<open>Pushing any sequence of at most \<^verbatim>\<open>2^29\<close> 16-bit integers and popping until the heap is empty
  yields them sorted.\<close>

theorem heap_sorts:
  assumes "heap16_abs h {#}" "length xs \<le> 2 ^ 29"
  shows "\<exists>h1 ys h2. pq16.push_all h xs = Some h1 \<and> pq16.drain (length xs) h1 = Some (ys, h2) \<and>
    mset ys = mset xs \<and> sorted_wrt (\<lambda>x y. sint x \<le> sint y) ys"
proof -
  obtain h1 where h1: "pq16.push_all h xs = Some h1" "heap16_abs h1 (mset xs)"
    using pq16.push_all_abs [OF assms(1), of xs] assms(2) by auto
  from pq16.drain_sorted [OF h1(2)] assms(2) h1(1) show ?thesis
    by (auto simp: promoted_signed_iff not_less)
qed

lemma heap16_empty_abs: "heap16_abs (heap16_three\<lparr>heap_vec := (heap_vec heap16_three)\<lparr>vec_size := 0\<rparr>\<rparr>) {#}"
  by (simp add: heap16_abs_def heap_abs_def heap16_three_def vec_ok_def vec_list_def h0.is_heap_def)

theorem heap_sorts_witness:
  "\<exists>h1 ys h2. pq16.push_all (heap16_three\<lparr>heap_vec := (heap_vec heap16_three)\<lparr>vec_size := 0\<rparr>\<rparr>) [7, 2, 5] = Some h1 \<and>
     pq16.drain 3 h1 = Some (ys, h2) \<and> mset ys = {#7, 2, 5#}"
proof -
  have l: "length [7, 2, 5 :: 16 word] = 3" by simp
  from heap_sorts [OF heap16_empty_abs, of "[7, 2, 5]", unfolded l] show ?thesis
    by (auto simp del: pq16.drain.simps pq16.push_all.simps)
qed

end
