(* ===== verification/Spheap.thy ===== *)
theory Spheap
  imports HeapArray
begin

text \<open>
  The heap macros of \<^verbatim>\<open>ohutil/container.h\<close>: an array of pointers counted from 1, whose elements know
  their own position (\<^verbatim>\<open>heap_pos\<close>). Indexing outside the array, or updating the position of something
  that is not an element, fails.
\<close>

record spheap =
  sp_arr :: "addr list"
  sp_pos :: "addr \<rightharpoonup> nat"

definition sp_at :: "spheap \<Rightarrow> nat \<Rightarrow> addr option" where
  "sp_at h i = (if i < length (sp_arr h) then Some (sp_arr h ! i) else None)"

definition sp_put :: "spheap \<Rightarrow> nat \<Rightarrow> addr \<Rightarrow> spheap option" where
  "sp_put h i x = (if i < length (sp_arr h) then Some (h\<lparr>sp_arr := (sp_arr h)[i := x]\<rparr>) else None)"

definition spheap_update_pos :: "spheap \<Rightarrow> nat \<Rightarrow> nat \<Rightarrow> spheap option" where
  "spheap_update_pos h pos npos = do {
     x \<leftarrow> sp_at h pos;
     old \<leftarrow> sp_pos h x;
     Some (h\<lparr>sp_pos := (sp_pos h)(x \<mapsto> npos)\<rparr>) }"

definition RSHIFT :: "nat \<Rightarrow> nat" where "RSHIFT x = x div 2"
definition LCHILD :: "nat \<Rightarrow> nat" where "LCHILD x = 2 * x"
definition RCHILD :: "nat \<Rightarrow> nat" where "RCHILD x = 2 * x + 1"

definition spheap_up_cond :: "(addr \<Rightarrow> addr \<Rightarrow> bool) \<Rightarrow> addr \<Rightarrow> spheap \<times> nat \<Rightarrow> bool option" where
  "spheap_up_cond cmp val s = (case s of (h, pos) \<Rightarrow>
     if pos > 1 then do { x \<leftarrow> sp_at h (RSHIFT pos); Some (cmp val x) } else Some False)"

definition spheap_up_step :: "spheap \<times> nat \<Rightarrow> (spheap \<times> nat) option" where
  "spheap_up_step s = (case s of (h, pos) \<Rightarrow> do {
     x \<leftarrow> sp_at h (RSHIFT pos);
     h \<leftarrow> sp_put h pos x;
     h \<leftarrow> spheap_update_pos h pos pos;
     Some (h, RSHIFT pos) })"

definition spheap_fix_up :: "(addr \<Rightarrow> addr \<Rightarrow> bool) \<Rightarrow> spheap \<Rightarrow> nat \<Rightarrow> spheap option" where
  "spheap_fix_up cmp h pos = do {
     val \<leftarrow> sp_at h pos;
     (h, pos) \<leftarrow> while_c (spheap_up_cond cmp val) spheap_up_step (h, pos);
     h \<leftarrow> sp_put h pos val;
     spheap_update_pos h pos pos }"

text \<open>The third component records the \<^verbatim>\<open>break\<close>.\<close>

definition spheap_min_child :: "(addr \<Rightarrow> addr \<Rightarrow> bool) \<Rightarrow> nat \<Rightarrow> spheap \<Rightarrow> nat \<Rightarrow> nat option" where
  "spheap_min_child cmp sz h pos = do {
     let npos = LCHILD pos;
     r \<leftarrow> (if RCHILD pos \<le> sz then do {
          x \<leftarrow> sp_at h (npos + 1);
          y \<leftarrow> sp_at h npos;
          Some (cmp x y) }
        else Some False);
     Some (npos + (if r then 1 else 0)) }"

definition spheap_down_step ::
  "(addr \<Rightarrow> addr \<Rightarrow> bool) \<Rightarrow> nat \<Rightarrow> addr \<Rightarrow> spheap \<times> nat \<times> bool \<Rightarrow> (spheap \<times> nat \<times> bool) option" where
  "spheap_down_step cmp sz val s = (case s of (h, pos, stop) \<Rightarrow> do {
     npos \<leftarrow> spheap_min_child cmp sz h pos;
     x \<leftarrow> sp_at h npos;
     if cmp val x then Some (h, pos, True)
     else do {
       h \<leftarrow> sp_put h pos x;
       h \<leftarrow> spheap_update_pos h pos pos;
       Some (h, npos, False) } })"

definition spheap_fix_down :: "(addr \<Rightarrow> addr \<Rightarrow> bool) \<Rightarrow> nat \<Rightarrow> spheap \<Rightarrow> nat \<Rightarrow> spheap option" where
  "spheap_fix_down cmp sz h pos = do {
     val \<leftarrow> sp_at h pos;
     (h, pos, stop) \<leftarrow> while_c (\<lambda>(h, pos, stop). Some (LCHILD pos \<le> sz \<and> \<not> stop))
       (spheap_down_step cmp sz val) (h, pos, False);
     h \<leftarrow> sp_put h pos val;
     spheap_update_pos h pos pos }"

text \<open>\<^verbatim>\<open>spheap_init\<close> repairs the positions from the size down to 1.\<close>

primrec spheap_init :: "(addr \<Rightarrow> addr \<Rightarrow> bool) \<Rightarrow> nat \<Rightarrow> nat \<Rightarrow> spheap \<Rightarrow> spheap option" where
  "spheap_init cmp sz 0 h = Some h"
| "spheap_init cmp sz (Suc ind) h = do {
     h \<leftarrow> spheap_fix_down cmp sz h (Suc ind);
     spheap_init cmp sz ind h }"

primrec spheap_sort :: "(addr \<Rightarrow> addr \<Rightarrow> bool) \<Rightarrow> nat \<Rightarrow> spheap \<Rightarrow> spheap option" where
  "spheap_sort cmp 0 h = Some h"
| "spheap_sort cmp (Suc n) h = do {
     tmp \<leftarrow> sp_at h 1;
     x \<leftarrow> sp_at h (Suc n);
     h \<leftarrow> sp_put h 1 x;
     h \<leftarrow> sp_put h (Suc n) tmp;
     h \<leftarrow> spheap_fix_down cmp n h 1;
     spheap_sort cmp n h }"

text \<open>The result pairs the heap with the new size.\<close>

definition spheap_delete :: "(addr \<Rightarrow> addr \<Rightarrow> bool) \<Rightarrow> spheap \<Rightarrow> nat \<Rightarrow> nat \<Rightarrow> (spheap \<times> nat) option" where
  "spheap_delete cmp h pos sz = do {
     h \<leftarrow> spheap_update_pos h pos 0;
     x \<leftarrow> sp_at h sz;
     h \<leftarrow> sp_put h pos x;
     let sz = sz - 1;
     if sz = pos - 1 then Some (h, sz)
     else do {
       y \<leftarrow> sp_at h pos;
       up \<leftarrow> (if pos > 1 then do { z \<leftarrow> sp_at h (RSHIFT pos); Some (cmp y z) } else Some False);
       h \<leftarrow> (if up then spheap_fix_up cmp h pos else spheap_fix_down cmp sz h pos);
       Some (h, sz) } }"

definition spheap_push :: "(addr \<Rightarrow> addr \<Rightarrow> bool) \<Rightarrow> spheap \<Rightarrow> nat \<Rightarrow> addr \<Rightarrow> (spheap \<times> nat) option" where
  "spheap_push cmp h sz elm = do {
     h \<leftarrow> sp_put h (sz + 1) elm;
     h \<leftarrow> spheap_fix_up cmp h (sz + 1);
     Some (h, sz + 1) }"

definition spheap_pop :: "(addr \<Rightarrow> addr \<Rightarrow> bool) \<Rightarrow> spheap \<Rightarrow> nat \<Rightarrow> (spheap \<times> nat) option" where
  "spheap_pop cmp h sz = spheap_delete cmp h 1 sz"

end
