(* ===== verification/SpheapSpec.thy ===== *)
theory SpheapSpec
  imports Spheap
begin

text \<open>
  The heap macros keep the heap order, the multiset of elements and the positions stored in the
  elements; deletion works at any position.
\<close>

section \<open>Indices\<close>

interpretation h1: heap_index 1 RSHIFT
  by unfold_locales (auto simp: RSHIFT_def)

lemma sp_children: "RSHIFT i = pos \<Longrightarrow> i = LCHILD pos \<or> i = RCHILD pos"
  by (auto simp: RSHIFT_def LCHILD_def RCHILD_def)

lemma sp_children_parent [simp]: "RSHIFT (LCHILD pos) = pos" "RSHIFT (RCHILD pos) = pos"
  by (auto simp: RSHIFT_def LCHILD_def RCHILD_def)

section \<open>Well-formed heaps\<close>

text \<open>The elements sit at the positions 1 to \<open>n\<close> and know them.\<close>

definition pos_ok :: "spheap \<Rightarrow> nat \<Rightarrow> bool" where
  "pos_ok h n \<longleftrightarrow> n < length (sp_arr h) \<and> (\<forall>i. 1 \<le> i \<and> i \<le> n \<longrightarrow> sp_pos h (sp_arr h ! i) = Some i)"

definition sp_elems :: "spheap \<Rightarrow> nat \<Rightarrow> addr list" where
  "sp_elems h n = take n (drop 1 (sp_arr h))"

definition sp_heap :: "(addr \<Rightarrow> addr \<Rightarrow> bool) \<Rightarrow> spheap \<Rightarrow> nat \<Rightarrow> bool" where
  "sp_heap lt h n \<longleftrightarrow> pos_ok h n \<and> h1.is_heap lt (take (Suc n) (sp_arr h))"

text \<open>
  During a repair the array has a hole at \<open>pos\<close>: every other position is right, and the moving
  element \<open>v\<close> is not among the others. \<open>fill\<close> is the array with the element in the hole.
\<close>

definition fill :: "spheap \<Rightarrow> nat \<Rightarrow> nat \<Rightarrow> addr \<Rightarrow> addr list" where
  "fill h n pos v = (take (Suc n) (sp_arr h))[pos := v]"

definition hole_at :: "spheap \<Rightarrow> nat \<Rightarrow> addr \<Rightarrow> nat \<Rightarrow> bool" where
  "hole_at h n v pos \<longleftrightarrow> 1 \<le> pos \<and> pos \<le> n \<and> n < length (sp_arr h) \<and> v \<in> dom (sp_pos h) \<and>
     (\<forall>i. 1 \<le> i \<and> i \<le> n \<and> i \<noteq> pos \<longrightarrow> sp_pos h (sp_arr h ! i) = Some i \<and> sp_arr h ! i \<noteq> v)"

text \<open>What stays the same: the rest of the array, the elements, and the positions of all others.\<close>

definition same_but :: "spheap \<Rightarrow> nat \<Rightarrow> addr multiset \<Rightarrow> spheap \<Rightarrow> bool" where
  "same_but h0 n M h \<longleftrightarrow> length (sp_arr h) = length (sp_arr h0) \<and> drop (Suc n) (sp_arr h) = drop (Suc n) (sp_arr h0) \<and>
     sp_arr h ! 0 = sp_arr h0 ! 0 \<and> dom (sp_pos h) = dom (sp_pos h0) \<and> (\<forall>x. x \<notin># M - {#sp_arr h0 ! 0#} \<longrightarrow> sp_pos h x = sp_pos h0 x)"

lemma same_but_refl [simp]: "same_but h n M h"
  by (simp add: same_but_def)

lemma same_but_trans: "same_but h0 n M h1 \<Longrightarrow> same_but h1 n M h2 \<Longrightarrow> same_but h0 n M h2"
  by (simp add: same_but_def)

lemma fill_length: "n < length (sp_arr h) \<Longrightarrow> length (fill h n pos v) = Suc n"
  by (simp add: fill_def)

lemma fill_nth: "n < length (sp_arr h) \<Longrightarrow> i \<le> n \<Longrightarrow> pos \<le> n \<Longrightarrow> fill h n pos v ! i = (if i = pos then v else sp_arr h ! i)"
  by (simp add: fill_def nth_list_update)

lemma fill_elem:
  assumes "n < length (sp_arr h)" "1 \<le> pos" "pos \<le> n" "1 \<le> c" "c \<le> n"
  shows "fill h n pos v ! c \<in># mset (fill h n pos v) - {#sp_arr h ! 0#}"
proof -
  have ne: "fill h n pos v \<noteq> []" using assms by (auto simp: fill_def)
  moreover have "hd (fill h n pos v) = sp_arr h ! 0"
    using assms fill_nth [of n h 0 pos v] by (simp add: hd_conv_nth [OF ne])
  ultimately obtain xs where f: "fill h n pos v = sp_arr h ! 0 # xs" by (metis list.collapse)
  then have "length xs = n" using fill_length [OF assms(1), of pos v] by simp
  then show ?thesis using assms(4,5) f by (cases c) auto
qed

lemma hole_elem: "hole_at h n v pos \<Longrightarrow> 1 \<le> c \<Longrightarrow> c \<le> n \<Longrightarrow> c \<noteq> pos \<Longrightarrow> sp_arr h ! c \<in># mset (fill h n pos v) - {#sp_arr h ! 0#}"
  using fill_elem [of n h pos c v] fill_nth [of n h c pos v] by (simp add: hole_at_def)

lemma hole_self: "hole_at h n v pos \<Longrightarrow> v \<in># mset (fill h n pos v) - {#sp_arr h ! 0#}"
  using fill_elem [of n h pos pos v] fill_nth [of n h pos pos v] by (simp add: hole_at_def)

text \<open>Moving the element at \<open>c\<close> into the hole.\<close>

definition hole_move :: "spheap \<Rightarrow> nat \<Rightarrow> nat \<Rightarrow> spheap option" where
  "hole_move h pos c = do {
     x \<leftarrow> sp_at h c;
     h \<leftarrow> sp_put h pos x;
     spheap_update_pos h pos pos }"

lemma hole_move_ok:
  assumes H: "hole_at h n v pos" and c: "1 \<le> c" "c \<le> n" "c \<noteq> pos"
  shows "\<exists>h'. hole_move h pos c = Some h' \<and> hole_at h' n v c \<and>
    fill h' n c v = h1.swap_at (fill h n pos v) pos c \<and> mset (fill h' n c v) = mset (fill h n pos v) \<and>
    same_but h n (mset (fill h n pos v)) h'"
proof -
  let ?x = "sp_arr h ! c"
  let ?h = "h\<lparr>sp_arr := (sp_arr h)[pos := ?x], sp_pos := (sp_pos h)(?x \<mapsto> pos)\<rparr>"
  have n: "n < length (sp_arr h)" "pos \<le> n" "1 \<le> pos" "sp_pos h ?x = Some c" "?x \<noteq> v" using H c by (auto simp: hole_at_def)
  have ne: "sp_arr h ! i \<noteq> ?x" if "1 \<le> i" "i \<le> n" "i \<noteq> pos" "i \<noteq> c" for i
  proof -
    have "sp_pos h (sp_arr h ! i) = Some i" using H that by (auto simp: hole_at_def)
    with n(4) that(4) show ?thesis by auto
  qed
  have "hole_move h pos c = Some ?h"
    using n c by (simp add: hole_move_def sp_at_def sp_put_def spheap_update_pos_def)
  moreover have "hole_at ?h n v c"
    using H c n ne by (auto simp: hole_at_def nth_list_update)
  moreover have f: "fill ?h n c v = h1.swap_at (fill h n pos v) pos c"
    using n c by (auto simp: fill_def take_update_swap list_update_swap)
  moreover have "mset (h1.swap_at (fill h n pos v) pos c) = mset (fill h n pos v)"
    using mset_swap [of c "fill h n pos v" pos] n c by (simp add: fill_length)
  moreover have "same_but h n (mset (fill h n pos v)) ?h"
    using n hole_elem [OF H c] by (auto simp: same_but_def)
  ultimately show ?thesis by metis
qed

text \<open>Putting the element into the hole.\<close>

lemma hole_finish:
  assumes H: "hole_at h n v pos"
  shows "\<exists>h'. Option.bind (sp_put h pos v) (\<lambda>h. spheap_update_pos h pos pos) = Some h' \<and> pos_ok h' n \<and>
    take (Suc n) (sp_arr h') = fill h n pos v \<and> same_but h n (mset (fill h n pos v)) h'"
proof -
  let ?h = "h\<lparr>sp_arr := (sp_arr h)[pos := v], sp_pos := (sp_pos h)(v \<mapsto> pos)\<rparr>"
  have n: "n < length (sp_arr h)" "pos \<le> n" "1 \<le> pos" "v \<in> dom (sp_pos h)" using H by (auto simp: hole_at_def)
  then have "Option.bind (sp_put h pos v) (\<lambda>h. spheap_update_pos h pos pos) = Some ?h"
    by (auto simp: sp_at_def sp_put_def spheap_update_pos_def)
  moreover have "pos_ok ?h n" using H n by (auto simp: hole_at_def pos_ok_def nth_list_update)
  moreover have "take (Suc n) (sp_arr ?h) = fill h n pos v" by (simp add: fill_def take_update_swap)
  moreover have "same_but h n (mset (fill h n pos v)) ?h" using n hole_self [OF H] by (auto simp: same_but_def)
  ultimately show ?thesis by blast
qed


section \<open>The repair loops\<close>

definition sift_inv ::
  "(addr list \<Rightarrow> nat \<Rightarrow> bool) \<Rightarrow> spheap \<Rightarrow> nat \<Rightarrow> addr multiset \<Rightarrow> addr \<Rightarrow> spheap \<Rightarrow> nat \<Rightarrow> bool" where
  "sift_inv I h0 n M v h pos \<longleftrightarrow> hole_at h n v pos \<and> I (fill h n pos v) pos \<and> mset (fill h n pos v) = M \<and> same_but h0 n M h"

lemma sift_start: "hole_at h n v pos \<Longrightarrow> I (fill h n pos v) pos \<Longrightarrow> sift_inv I h n (mset (fill h n pos v)) v h pos"
  by (simp add: sift_inv_def)

lemma sp_sift_move:
  assumes S: "sift_inv I h0 n M v h pos" and c: "1 \<le> c" "c \<le> n" "c \<noteq> pos"
    and I: "I (h1.swap_at (fill h n pos v) pos c) c"
  shows "\<exists>h'. hole_move h pos c = Some h' \<and> sift_inv I h0 n M v h' c"
proof -
  have H: "hole_at h n v pos" and M: "mset (fill h n pos v) = M" and F: "same_but h0 n M h" using S by (auto simp: sift_inv_def)
  from hole_move_ok [OF H c] obtain h' where "hole_move h pos c = Some h'" "hole_at h' n v c"
    "fill h' n c v = h1.swap_at (fill h n pos v) pos c" "mset (fill h' n c v) = M" "same_but h n M h'" unfolding M by blast
  with I same_but_trans [OF F] show ?thesis by (auto simp: sift_inv_def)
qed

lemma up_loop:
  assumes wo: "weak_order lt" and S: "sift_inv (h1.up_inv lt) h0 n M v h pos"
  shows "\<exists>h' pos'. while_c (spheap_up_cond lt v) spheap_up_step (h, pos) = Some (h', pos') \<and>
    sift_inv (h1.up_inv lt) h0 n M v h' pos' \<and> h1.is_heap lt (fill h' n pos' v)"
proof -
  have "\<exists>s. while_c (spheap_up_cond lt v) spheap_up_step (h, pos) = Some s \<and>
    (sift_inv (h1.up_inv lt) h0 n M v (fst s) (snd s) \<and> h1.is_heap lt (fill (fst s) n (snd s) v))"
  proof (rule while_c_total [where I = "\<lambda>m s. sift_inv (h1.up_inv lt) h0 n M v (fst s) (snd s) \<and> m = snd s"])
    show "sift_inv (h1.up_inv lt) h0 n M v (fst (h, pos)) (snd (h, pos)) \<and> pos = snd (h, pos)" using S by simp
  next
    fix m s assume "sift_inv (h1.up_inv lt) h0 n M v (fst s) (snd s) \<and> m = snd s"
    then obtain h p where s: "s = (h, p)" "m = p" and S: "sift_inv (h1.up_inv lt) h0 n M v h p" by (cases s) auto
    then have H: "hole_at h n v p" and U: "h1.up_inv lt (fill h n p v) p" by (auto simp: sift_inv_def)
    then have n: "1 \<le> p" "p \<le> n" "n < length (sp_arr h)" by (auto simp: hole_at_def)
    show "(spheap_up_cond lt v s = Some False \<and> sift_inv (h1.up_inv lt) h0 n M v (fst s) (snd s) \<and> h1.is_heap lt (fill (fst s) n (snd s) v)) \<or>
      (spheap_up_cond lt v s = Some True \<and> (\<exists>s' m'. spheap_up_step s = Some s' \<and> m' < m \<and>
         sift_inv (h1.up_inv lt) h0 n M v (fst s') (snd s') \<and> m' = snd s'))"
    proof (cases "p = 1")
      case True
      then show ?thesis using s S h1.up_done [OF U] by (simp add: spheap_up_cond_def)
    next
      case False
      then have p: "1 < p" "RSHIFT p < p" "1 \<le> RSHIFT p" using n h1.par_less [of p] h1.par_root [of p] by auto
      have cond: "spheap_up_cond lt v s = Some (lt v (sp_arr h ! RSHIFT p))"
        using p n s by (simp add: spheap_up_cond_def sp_at_def)
      have step: "spheap_up_step s = Option.bind (hole_move h p (RSHIFT p)) (\<lambda>h. Some (h, RSHIFT p))"
        by (simp add: spheap_up_step_def hole_move_def s)
      have f: "fill h n p v ! p = v" "fill h n p v ! RSHIFT p = sp_arr h ! RSHIFT p"
        using fill_nth [of n h _ p v] n p by auto
      show ?thesis
      proof (cases "lt v (sp_arr h ! RSHIFT p)")
        case True
        have "h1.up_inv lt (h1.swap_at (fill h n p v) p (RSHIFT p)) (RSHIFT p)"
          using h1.up_step [OF wo U p(1)] f True by simp
        from sp_sift_move [where I = "h1.up_inv lt", OF S _ _ _ this] p n obtain h' where
          "hole_move h p (RSHIFT p) = Some h'" "sift_inv (h1.up_inv lt) h0 n M v h' (RSHIFT p)" by auto
        with cond step True s p show ?thesis by auto
      next
        case False
        then have "h1.is_heap lt (fill h n p v)" using h1.up_done [OF U] f by simp
        with cond False s S show ?thesis by simp
      qed
    qed
  qed
  then show ?thesis by auto
qed

lemma sp_min_child:
  assumes wo: "weak_order lt" and p: "1 \<le> p" "LCHILD p \<le> n" "n < length (sp_arr h)"
  shows "\<exists>c. spheap_min_child lt n h p = Some c \<and> c \<le> n \<and> RSHIFT c = p \<and> p < c \<and>
    (\<forall>i. i \<le> n \<and> RSHIFT i = p \<longrightarrow> \<not> lt (sp_arr h ! i) (sp_arr h ! c))"
proof -
  let ?l = "LCHILD p" and ?s = "sp_arr h"
  note irr = weak_order.irrefl [OF wo] and as = weak_order.asym [OF wo]
  have l: "RCHILD p = Suc ?l" "p < ?l" using p by (simp_all add: LCHILD_def RCHILD_def)
  have kids: "Q i" if "RSHIFT i = p" "Q ?l" "Q (Suc ?l)" for i Q
    using sp_children [OF that(1)] that(2,3) l by auto
  show ?thesis
  proof (cases "Suc ?l \<le> n \<and> lt (?s ! (Suc ?l)) (?s ! ?l)")
    case True
    then have "spheap_min_child lt n h p = Some (Suc ?l)"
      using p l by (simp add: spheap_min_child_def sp_at_def)
    moreover have "\<not> lt (?s ! i) (?s ! (Suc ?l))" if "RSHIFT i = p" for i
      by (rule kids [OF that]) (use True irr as in auto)
    moreover have "RSHIFT (Suc ?l) = p" using l sp_children_parent(2) [of p] by simp
    ultimately show ?thesis using True l by (intro exI [of _ "Suc ?l"]) auto
  next
    case False
    then have "spheap_min_child lt n h p = Some ?l"
      using p l by (auto simp: spheap_min_child_def sp_at_def Let_def)
    moreover have "i \<le> n \<longrightarrow> \<not> lt (?s ! i) (?s ! ?l)" if "RSHIFT i = p" for i
      by (rule kids [OF that]) (use False irr in auto)
    ultimately show ?thesis using p l by (intro exI [of _ ?l]) auto
  qed
qed

lemma down_loop:
  assumes wo: "weak_order lt" and S: "sift_inv (h1.down_inv lt) h0 n M v h pos"
  shows "\<exists>h' pos' stop. while_c (\<lambda>(h, pos, stop). Some (LCHILD pos \<le> n \<and> \<not> stop)) (spheap_down_step lt n v) (h, pos, False) =
      Some (h', pos', stop) \<and>
    sift_inv (h1.down_inv lt) h0 n M v h' pos' \<and> h1.is_heap lt (fill h' n pos' v)"
proof -
  let ?S = "sift_inv (h1.down_inv lt) h0 n M v" and ?b = "\<lambda>(h, pos, stop). Some (LCHILD pos \<le> n \<and> \<not> stop)"
  let ?F = "\<lambda>h p. h1.is_heap lt (fill h n p v)"
  have "\<exists>s. while_c ?b (spheap_down_step lt n v) (h, pos, False) = Some s \<and>
    (?S (fst s) (fst (snd s)) \<and> ?F (fst s) (fst (snd s)))"
  proof (rule while_c_total [where I = "\<lambda>m s. ?S (fst s) (fst (snd s)) \<and> (snd (snd s) \<longrightarrow> ?F (fst s) (fst (snd s))) \<and>
      m = (n - fst (snd s)) + (if snd (snd s) then 0 else 1)"])
    show "?S (fst (h, pos, False)) (fst (snd (h, pos, False))) \<and>
      (snd (snd (h, pos, False)) \<longrightarrow> ?F (fst (h, pos, False)) (fst (snd (h, pos, False)))) \<and>
      n - pos + 1 = (n - fst (snd (h, pos, False))) + (if snd (snd (h, pos, False)) then 0 else 1)" using S by simp
  next
    fix m s assume I: "?S (fst s) (fst (snd s)) \<and> (snd (snd s) \<longrightarrow> ?F (fst s) (fst (snd s))) \<and>
      m = (n - fst (snd s)) + (if snd (snd s) then 0 else 1)"
    then obtain h p stop where s: "s = (h, p, stop)" "m = (n - p) + (if stop then 0 else 1)"
      and S: "?S h p" and F: "stop \<longrightarrow> ?F h p" by (cases s) auto
    then have H: "hole_at h n v p" and D: "h1.down_inv lt (fill h n p v) p" by (auto simp: sift_inv_def)
    then have n: "1 \<le> p" "p \<le> n" "n < length (sp_arr h)" by (auto simp: hole_at_def)
    note fl = fill_length [OF n(3), of p v] and fn = fill_nth [OF n(3) _ n(2), of _ v]
    show "(?b s = Some False \<and> ?S (fst s) (fst (snd s)) \<and> ?F (fst s) (fst (snd s))) \<or>
      (?b s = Some True \<and> (\<exists>s' m'. spheap_down_step lt n v s = Some s' \<and> m' < m \<and> ?S (fst s') (fst (snd s')) \<and>
        (snd (snd s') \<longrightarrow> ?F (fst s') (fst (snd s'))) \<and> m' = (n - fst (snd s')) + (if snd (snd s') then 0 else 1)))"
    proof (cases "LCHILD p \<le> n \<and> \<not> stop")
      case False
      have "?F h p" if "\<not> stop"
      proof (rule h1.down_done [OF wo D])
        fix i assume "1 < i" "i < length (fill h n p v)" "RSHIFT i = p"
        then show "\<not> lt (fill h n p v ! i) (fill h n p v ! p)"
          using sp_children [of i p] False that fl by (auto simp: LCHILD_def RCHILD_def)
      qed
      with F False show ?thesis using s S by auto
    next
      case True
      from sp_min_child [OF wo n(1) conjunct1 [OF True] n(3)] obtain c where
        c: "spheap_min_child lt n h p = Some c" "c \<le> n" "RSHIFT c = p" "p < c"
          "\<And>i. i \<le> n \<Longrightarrow> RSHIFT i = p \<Longrightarrow> \<not> lt (sp_arr h ! i) (sp_arr h ! c)" by blast
      have at: "sp_at h c = Some (sp_arr h ! c)" using c(2) n(3) by (simp add: sp_at_def)
      have ne: "i \<noteq> p" if "1 < i" "RSHIFT i = p" for i using h1.par_less [OF that(1)] that(2) by simp
      show ?thesis
      proof (cases "lt v (sp_arr h ! c)")
        case True
        have "?F h p"
        proof (rule h1.down_done [OF wo D])
          fix i assume i: "1 < i" "i < length (fill h n p v)" "RSHIFT i = p"
          then show "\<not> lt (fill h n p v ! i) (fill h n p v ! p)"
            using c(5) [of i] weak_order.trans [OF wo _ True] ne [of i] fn fl n by auto
        qed
        moreover have "spheap_down_step lt n v s = Some (h, p, True)"
          using c(1) at True s by (simp add: spheap_down_step_def)
        ultimately show ?thesis using s S \<open>LCHILD p \<le> n \<and> \<not> stop\<close> by simp
      next
        case False
        have "h1.down_inv lt (h1.swap_at (fill h n p v) p c) c"
          by (rule h1.down_step [OF wo D]) (use c fn fl False ne n in auto)
        from sp_sift_move [where I = "h1.down_inv lt", OF S _ _ _ this] c(2,4) obtain h' where
          h': "hole_move h p c = Some h'" "?S h' c" by auto
        then have "spheap_down_step lt n v s = Some (h', c, False)"
          using c(1) at False s by (auto simp: spheap_down_step_def hole_move_def bind_eq_Some_conv)
        then show ?thesis using s h' c(2,4) \<open>LCHILD p \<le> n \<and> \<not> stop\<close> by simp
      qed
    qed
  qed
  then show ?thesis by auto
qed

section \<open>The two repairs\<close>

text \<open>The result of a repair that starts with a hole at \<open>pos\<close>.\<close>

definition repaired :: "(addr \<Rightarrow> addr \<Rightarrow> bool) \<Rightarrow> nat \<Rightarrow> spheap \<Rightarrow> spheap \<Rightarrow> bool" where
  "repaired lt n h h' \<longleftrightarrow> sp_heap lt h' n \<and> mset (sp_elems h' n) = mset (sp_elems h n) \<and>
     length (sp_arr h') = length (sp_arr h) \<and> dom (sp_pos h') = dom (sp_pos h) \<and>
     (\<forall>x. x \<notin> set (sp_elems h n) \<longrightarrow> sp_pos h' x = sp_pos h x)"

lemma sp_elems_mset: "n < length (sp_arr h) \<Longrightarrow> mset (sp_elems h n) = mset (take (Suc n) (sp_arr h)) - {#sp_arr h ! 0#}"
  by (cases "sp_arr h") (auto simp: sp_elems_def)

lemma fill_id: "fill h n pos (sp_arr h ! pos) = take (Suc n) (sp_arr h)"
  by (metis fill_def list_update_id take_update_swap)

lemma finish_repair:
  assumes H: "hole_at h1 n v pos1" and heap: "h1.is_heap lt (fill h1 n pos1 v)"
    and M: "mset (fill h1 n pos1 v) = mset (take (Suc n) (sp_arr h))" and F: "same_but h n (mset (take (Suc n) (sp_arr h))) h1"
  shows "\<exists>h'. Option.bind (sp_put h1 pos1 v) (\<lambda>h. spheap_update_pos h pos1 pos1) = Some h' \<and> repaired lt n h h'"
proof -
  have n: "n < length (sp_arr h)" using H F by (simp add: hole_at_def same_but_def)
  from hole_finish [OF H] obtain h' where h': "Option.bind (sp_put h1 pos1 v) (\<lambda>h. spheap_update_pos h pos1 pos1) = Some h'"
    "pos_ok h' n" "take (Suc n) (sp_arr h') = fill h1 n pos1 v" "same_but h1 n (mset (fill h1 n pos1 v)) h'" by blast
  from same_but_trans [OF F] h'(4) M have S: "same_but h n (mset (take (Suc n) (sp_arr h))) h'" by simp
  then have "sp_arr h' ! 0 = sp_arr h ! 0" "length (sp_arr h') = length (sp_arr h)" by (simp_all add: same_but_def)
  then have "mset (sp_elems h' n) = mset (sp_elems h n)"
    using n h'(3) M by (simp add: sp_elems_mset)
  moreover have "sp_heap lt h' n" using h'(2,3) heap by (simp add: sp_heap_def)
  moreover have "x \<notin># mset (sp_elems h n) \<Longrightarrow> sp_pos h' x = sp_pos h x" for x
    using S sp_elems_mset [OF n] by (simp add: same_but_def)
  ultimately show ?thesis using h'(1) S by (simp add: repaired_def same_but_def)
qed

lemma fix_up_repairs:
  assumes wo: "weak_order lt" and H: "hole_at h n (sp_arr h ! pos) pos" and U: "h1.up_inv lt (take (Suc n) (sp_arr h)) pos"
  shows "\<exists>h'. spheap_fix_up lt h pos = Some h' \<and> repaired lt n h h'"
proof -
  let ?v = "sp_arr h ! pos"
  have at: "sp_at h pos = Some ?v" using H by (simp add: sp_at_def hole_at_def)
  from sift_start [where I = "h1.up_inv lt", OF H] U
  have S: "sift_inv (h1.up_inv lt) h n (mset (take (Suc n) (sp_arr h))) ?v h pos" by (simp add: fill_id)
  from up_loop [OF wo S] obtain h' pos' where L: "while_c (spheap_up_cond lt ?v) spheap_up_step (h, pos) = Some (h', pos')"
    "sift_inv (h1.up_inv lt) h n (mset (take (Suc n) (sp_arr h))) ?v h' pos'" "h1.is_heap lt (fill h' n pos' ?v)" by blast
  then show ?thesis using finish_repair [of h' n ?v pos' lt h] at by (simp add: spheap_fix_up_def sift_inv_def)
qed

lemma fix_down_repairs:
  assumes wo: "weak_order lt" and H: "hole_at h n (sp_arr h ! pos) pos" and U: "h1.down_inv lt (take (Suc n) (sp_arr h)) pos"
  shows "\<exists>h'. spheap_fix_down lt n h pos = Some h' \<and> repaired lt n h h'"
proof -
  let ?v = "sp_arr h ! pos"
  have at: "sp_at h pos = Some ?v" using H by (simp add: sp_at_def hole_at_def)
  from sift_start [where I = "h1.down_inv lt", OF H] U
  have S: "sift_inv (h1.down_inv lt) h n (mset (take (Suc n) (sp_arr h))) ?v h pos" by (simp add: fill_id)
  from down_loop [OF wo S] obtain h' pos' stop where
    L: "while_c (\<lambda>(h, pos, stop). Some (LCHILD pos \<le> n \<and> \<not> stop)) (spheap_down_step lt n ?v) (h, pos, False) = Some (h', pos', stop)"
    "sift_inv (h1.down_inv lt) h n (mset (take (Suc n) (sp_arr h))) ?v h' pos'" "h1.is_heap lt (fill h' n pos' ?v)" by blast
  then show ?thesis using finish_repair [of h' n ?v pos' lt h] at by (simp add: spheap_fix_down_def sift_inv_def)
qed

section \<open>Push, delete, pop\<close>

lemma take_Suc_elems: "n < length (sp_arr h) \<Longrightarrow> take (Suc n) (sp_arr h) = sp_arr h ! 0 # sp_elems h n"
  by (cases "sp_arr h") (auto simp: sp_elems_def)

lemma sp_elems_nth: "n < length (sp_arr h) \<Longrightarrow> i < n \<Longrightarrow> sp_elems h n ! i = sp_arr h ! Suc i"
  by (simp add: sp_elems_def)

lemma sp_elems_length: "n < length (sp_arr h) \<Longrightarrow> length (sp_elems h n) = n"
  by (simp add: sp_elems_def)

lemma in_sp_elems:
  assumes "n < length (sp_arr h)"
  shows "x \<in> set (sp_elems h n) \<longleftrightarrow> (\<exists>i. 1 \<le> i \<and> i \<le> n \<and> sp_arr h ! i = x)"
proof
  assume "x \<in> set (sp_elems h n)"
  then obtain i where "i < n" "sp_arr h ! Suc i = x"
    using assms by (auto simp: in_set_conv_nth sp_elems_length sp_elems_nth)
  then show "\<exists>i. 1 \<le> i \<and> i \<le> n \<and> sp_arr h ! i = x" by (intro exI [of _ "Suc i"]) simp
next
  assume "\<exists>i. 1 \<le> i \<and> i \<le> n \<and> sp_arr h ! i = x"
  then obtain i where i: "1 \<le> i" "i \<le> n" "sp_arr h ! i = x" by blast
  then have "sp_elems h n ! (i - 1) = x" "i - 1 < length (sp_elems h n)"
    using assms by (simp_all add: sp_elems_length sp_elems_nth)
  then show "x \<in> set (sp_elems h n)" by (metis nth_mem)
qed

lemma push_repairs:
  assumes wo: "weak_order lt" and h: "sp_heap lt h n" and n: "Suc n < length (sp_arr h)"
    and x: "x \<in> dom (sp_pos h)" "x \<notin> set (sp_elems h n)"
  shows "\<exists>h'. spheap_push lt h n x = Some (h', Suc n) \<and> sp_heap lt h' (Suc n) \<and>
    mset (sp_elems h' (Suc n)) = add_mset x (mset (sp_elems h n)) \<and> length (sp_arr h') = length (sp_arr h) \<and>
    dom (sp_pos h') = dom (sp_pos h) \<and> (\<forall>y. y \<notin> insert x (set (sp_elems h n)) \<longrightarrow> sp_pos h' y = sp_pos h y)"
proof -
  let ?h = "h\<lparr>sp_arr := (sp_arr h)[Suc n := x]\<rparr>"
  have len: "n < length (sp_arr h)" using n by simp
  have t: "take (Suc (Suc n)) (sp_arr ?h) = take (Suc n) (sp_arr h) @ [x]"
    using n by (simp add: take_Suc_conv_app_nth take_update_cancel)
  have e: "sp_elems ?h (Suc n) = sp_elems h n @ [x]"
    using n by (simp add: sp_elems_def drop_update_swap take_Suc_conv_app_nth)
  have "hole_at ?h (Suc n) (sp_arr ?h ! Suc n) (Suc n)"
    using h x n in_sp_elems [OF len, of x] by (auto simp: hole_at_def sp_heap_def pos_ok_def le_Suc_eq)
  moreover have "h1.up_inv lt (take (Suc (Suc n)) (sp_arr ?h)) (Suc n)"
    using h1.up_start [of lt "take (Suc (Suc n)) (sp_arr ?h)"] h n unfolding t by (simp add: sp_heap_def)
  ultimately obtain h' where "spheap_fix_up lt ?h (Suc n) = Some h'" "repaired lt (Suc n) ?h h'"
    using fix_up_repairs [OF wo] by blast
  with n e show ?thesis by (simp add: spheap_push_def sp_put_def repaired_def)
qed

lemma sp_elems_Suc: "Suc n < length (sp_arr h) \<Longrightarrow> sp_elems h (Suc n) = sp_elems h n @ [sp_arr h ! Suc n]"
  by (simp add: sp_elems_def take_Suc_conv_app_nth)

definition delete_post :: "(addr \<Rightarrow> addr \<Rightarrow> bool) \<Rightarrow> spheap \<Rightarrow> nat \<Rightarrow> addr \<Rightarrow> spheap \<Rightarrow> bool" where
  "delete_post lt h n x h' \<longleftrightarrow> sp_heap lt h' (n - 1) \<and> mset (sp_elems h' (n - 1)) = mset (sp_elems h n) - {#x#} \<and>
     sp_pos h' x = Some 0 \<and> length (sp_arr h') = length (sp_arr h) \<and> dom (sp_pos h') = dom (sp_pos h) \<and>
     (\<forall>y. y \<notin> set (sp_elems h n) \<longrightarrow> sp_pos h' y = sp_pos h y)"

lemma delete_last_repairs:
  assumes h: "sp_heap lt h (Suc m)"
  shows "delete_post lt h (Suc m) (sp_arr h ! Suc m) (h\<lparr>sp_pos := (sp_pos h)(sp_arr h ! Suc m \<mapsto> 0)\<rparr>)"
proof -
  let ?x = "sp_arr h ! Suc m" and ?h = "h\<lparr>sp_pos := (sp_pos h)(sp_arr h ! Suc m \<mapsto> 0)\<rparr>"
  have P: "Suc m < length (sp_arr h)" "\<And>i. 1 \<le> i \<Longrightarrow> i \<le> Suc m \<Longrightarrow> sp_pos h (sp_arr h ! i) = Some i"
    using h by (auto simp: sp_heap_def pos_ok_def)
  have ne: "sp_arr h ! i \<noteq> ?x" if "1 \<le> i" "i \<le> m" for i
    using P(2) [of i] P(2) [of "Suc m"] that by fastforce
  have "h1.is_heap lt (take (Suc m) (sp_arr h))"
    using h1.heap_take [of lt "take (Suc (Suc m)) (sp_arr h)" "Suc m"] h by (simp add: sp_heap_def min_def del: take_Suc)
  then have "sp_heap lt ?h m" using P ne by (auto simp: sp_heap_def pos_ok_def)
  moreover have "sp_elems ?h m = sp_elems h m" by (simp add: sp_elems_def)
  moreover have "?x \<in> set (sp_elems h (Suc m))" using sp_elems_Suc [OF P(1)] by simp
  ultimately show ?thesis using sp_elems_Suc [OF P(1)] P(2) [of "Suc m"] by (auto simp: delete_post_def)
qed

lemma delete_repairs:
  assumes wo: "weak_order lt" and h: "sp_heap lt h n" and p: "1 \<le> pos" "pos \<le> n"
  shows "\<exists>h'. spheap_delete lt h pos n = Some (h', n - 1) \<and> delete_post lt h n (sp_arr h ! pos) h'"
proof -
  from p obtain m where n: "n = Suc m" by (cases n) auto
  let ?x = "sp_arr h ! pos" and ?y = "sp_arr h ! n"
  have P: "n < length (sp_arr h)" "\<And>i. 1 \<le> i \<Longrightarrow> i \<le> n \<Longrightarrow> sp_pos h (sp_arr h ! i) = Some i"
    using h by (auto simp: sp_heap_def pos_ok_def)
  have inj: "sp_arr h ! i \<noteq> sp_arr h ! j" if "1 \<le> i" "i \<le> n" "1 \<le> j" "j \<le> n" "i \<noteq> j" for i j
    using P(2) [of i] P(2) [of j] that by fastforce
  let ?h = "h\<lparr>sp_arr := (sp_arr h)[pos := ?y], sp_pos := (sp_pos h)(?x \<mapsto> 0)\<rparr>"
  have up: "spheap_update_pos h pos 0 = Some (h\<lparr>sp_pos := (sp_pos h)(?x \<mapsto> 0)\<rparr>)"
    using P p by (simp add: spheap_update_pos_def sp_at_def)
  show ?thesis
  proof (cases "pos = n")
    case True
    then have "spheap_delete lt h pos n = Some (h\<lparr>sp_pos := (sp_pos h)(?x \<mapsto> 0)\<rparr>, m)"
      using P p n unfolding spheap_delete_def up by (simp add: sp_at_def sp_put_def)
    then show ?thesis using delete_last_repairs [of lt h m] h n True by simp
  next
    case False
    then have pm: "pos \<le> m" using p n by simp
    have t: "take (Suc m) (sp_arr ?h) = (take (Suc m) (sp_arr h))[pos := ?y]" by (simp add: take_update_swap)
    have H: "hole_at ?h m ?y pos" using P p pm n inj by (auto simp: hole_at_def nth_list_update)
    have y: "sp_arr ?h ! pos = ?y" using P p by simp
    have hm: "h1.is_heap lt (take (Suc m) (sp_arr h))"
      using h1.heap_take [of lt "take (Suc n) (sp_arr h)" "Suc m"] h n by (simp add: sp_heap_def min_def)
    have par: "take (Suc m) (sp_arr h) ! RSHIFT pos = sp_arr h ! RSHIFT pos" "RSHIFT pos < length (sp_arr h)" "1 < pos \<Longrightarrow> RSHIFT pos \<noteq> pos"
      using p pm P by (auto simp: RSHIFT_def)
    define upb where "upb = (1 < pos \<and> lt ?y (sp_arr h ! RSHIFT pos))"
    have cond: "(if pos > 1 then do { z \<leftarrow> sp_at ?h (RSHIFT pos); Some (lt ?y z) } else Some False) = Some upb"
      using par by (auto simp: sp_at_def upb_def nth_list_update)
    have "\<exists>h'. (if upb then spheap_fix_up lt ?h pos else spheap_fix_down lt m ?h pos) = Some h' \<and> repaired lt m ?h h'"
    proof (cases upb)
      case True
      then have "h1.up_inv lt (take (Suc m) (sp_arr ?h)) pos"
        unfolding t using h1.replace_up [OF wo hm, of pos ?y] par(1) p pm P by (simp add: upb_def)
      from fix_up_repairs [OF wo _ this] H y True show ?thesis by simp
    next
      case False
      then have "h1.down_inv lt (take (Suc m) (sp_arr ?h)) pos"
        unfolding t using h1.replace_down [OF wo hm, of pos ?y] par(1) p pm P by (simp add: upb_def)
      from fix_down_repairs [OF wo _ this] H y False show ?thesis by simp
    qed
    then obtain h' where h': "(if upb then spheap_fix_up lt ?h pos else spheap_fix_down lt m ?h pos) = Some h'"
      and R: "repaired lt m ?h h'" by blast
    have at: "sp_at (h\<lparr>sp_pos := (sp_pos h)(?x \<mapsto> 0)\<rparr>) n = Some ?y" "sp_put (h\<lparr>sp_pos := (sp_pos h)(?x \<mapsto> 0)\<rparr>) pos ?y = Some ?h"
      "sp_at ?h pos = Some ?y" using P(1) p by (simp_all add: sp_at_def sp_put_def)
    have nm: "n - 1 = m" "m \<noteq> pos - 1" using n pm p False by auto
    have "spheap_delete lt h pos n = Some (h', m)"
      unfolding spheap_delete_def up Option.bind.simps at Let_def nm if_not_P [OF nm(2)] cond h' by simp
    moreover have e: "mset (sp_elems ?h m) = mset (sp_elems h n) - {#?x#}"
    proof -
      have "sp_elems ?h m = (sp_elems h m)[pos - 1 := ?y]"
        using p by (cases pos) (auto simp: sp_elems_def drop_update_swap take_update_swap)
      moreover have "sp_elems h m ! (pos - 1) = ?x" "pos - 1 < length (sp_elems h m)"
        using p pm P n by (auto simp: sp_elems_length sp_elems_nth)
      moreover from this have "?x \<in># mset (sp_elems h m)" by (metis nth_mem set_mset_mset)
      ultimately show ?thesis using sp_elems_Suc [of m h] P(1) n by (simp add: mset_update diff_union_swap2)
    qed
    moreover have "?x \<in> set (sp_elems h n)" using in_sp_elems [OF P(1)] p by blast
    moreover have "?x \<notin> set (sp_elems ?h m)"
      using in_sp_elems [of m ?h ?x] P(1) n inj p pm by (auto simp: nth_list_update)
    moreover have "set (sp_elems ?h m) \<subseteq> set (sp_elems h n)" using e by (metis in_diffD set_mset_mset subsetI)
    ultimately show ?thesis using R nm P(2) [OF p] by (auto simp: delete_post_def repaired_def)
  qed
qed

section \<open>Properties\<close>

text \<open>\<^verbatim>\<open>spheap_push\<close> adds the element, keeps the heap order and leaves every element of the heap
  knowing its position.\<close>

theorem spheap_push_correct:
  assumes "weak_order lt" "sp_heap lt h n" "Suc n < length (sp_arr h)" "x \<in> dom (sp_pos h)" "x \<notin> set (sp_elems h n)"
  shows "\<exists>h'. spheap_push lt h n x = Some (h', Suc n) \<and> sp_heap lt h' (Suc n) \<and>
    mset (sp_elems h' (Suc n)) = add_mset x (mset (sp_elems h n)) \<and> length (sp_arr h') = length (sp_arr h) \<and>
    dom (sp_pos h') = dom (sp_pos h) \<and> (\<forall>y. y \<notin> insert x (set (sp_elems h n)) \<longrightarrow> sp_pos h' y = sp_pos h y)"
  by (rule push_repairs [OF assms])

text \<open>C14: \<^verbatim>\<open>spheap_delete\<close> at the stored position of an element removes exactly that element, marks it as
  out of the heap with position 0, and leaves a heap whose elements know their positions.\<close>

theorem spheap_delete_correct:
  assumes "weak_order lt" "sp_heap lt h n" "x \<in> set (sp_elems h n)"
  shows "\<exists>pos h'. sp_pos h x = Some pos \<and> spheap_delete lt h pos n = Some (h', n - 1) \<and> sp_heap lt h' (n - 1) \<and>
    mset (sp_elems h' (n - 1)) = mset (sp_elems h n) - {#x#} \<and> sp_pos h' x = Some 0 \<and>
    (\<forall>y. y \<notin> set (sp_elems h n) \<longrightarrow> sp_pos h' y = sp_pos h y)"
proof -
  have n: "n < length (sp_arr h)" using assms(2) by (simp add: sp_heap_def pos_ok_def)
  from assms(3) in_sp_elems [OF n] obtain pos where p: "1 \<le> pos" "pos \<le> n" "sp_arr h ! pos = x" by blast
  moreover have "sp_pos h x = Some pos" using assms(2) p by (auto simp: sp_heap_def pos_ok_def)
  ultimately show ?thesis using delete_repairs [OF assms(1,2) p(1,2)] by (auto simp: delete_post_def)
qed

text \<open>\<^verbatim>\<open>spheap_pop\<close> removes an element that no element of the heap precedes.\<close>

theorem spheap_pop_min:
  assumes "weak_order lt" "sp_heap lt h n" "0 < n"
  shows "\<exists>h' x. spheap_pop lt h n = Some (h', n - 1) \<and> sp_heap lt h' (n - 1) \<and> sp_at h 1 = Some x \<and>
    mset (sp_elems h n) = add_mset x (mset (sp_elems h' (n - 1))) \<and> sp_pos h' x = Some 0 \<and>
    (\<forall>y \<in> set (sp_elems h n). \<not> lt y x)"
proof -
  have n: "n < length (sp_arr h)" using assms(2) by (simp add: sp_heap_def pos_ok_def)
  have H: "h1.is_heap lt (take (Suc n) (sp_arr h))" using assms(2) by (simp add: sp_heap_def)
  have "\<not> lt y (sp_arr h ! 1)" if "y \<in> set (sp_elems h n)" for y
  proof -
    from that in_sp_elems [OF n] obtain i where "1 \<le> i" "i \<le> n" "sp_arr h ! i = y" by blast
    then show ?thesis using h1.root_min [OF assms(1) H, of i] n assms(3) by simp
  qed
  moreover have "sp_at h 1 = Some (sp_arr h ! 1)" using n assms(3) by (simp add: sp_at_def)
  moreover have "sp_arr h ! 1 \<in># mset (sp_elems h n)" using in_sp_elems [OF n] assms(3) by (auto intro!: exI [of _ 1])
  ultimately show ?thesis using delete_repairs [OF assms(1,2), of 1] assms(3) by (auto simp: delete_post_def spheap_pop_def)
qed

subsection \<open>Witnesses\<close>

text \<open>Three timers, ordered by their address.\<close>

definition heap3 :: spheap where
  "heap3 = \<lparr>sp_arr = [0, 3, 8, 5, 0], sp_pos = [3 \<mapsto> 1, 8 \<mapsto> 2, 5 \<mapsto> 3, 4 \<mapsto> 0]\<rparr>"

lemma less_weak: "weak_order ((<) :: nat \<Rightarrow> nat \<Rightarrow> bool)"
  by unfold_locales auto

lemma upto3: "(\<forall>i. (1::nat) \<le> i \<and> i \<le> 3 \<longrightarrow> Q i) \<longleftrightarrow> Q 1 \<and> Q 2 \<and> Q 3"
  by (auto simp: numeral_eq_Suc le_Suc_eq)

lemma upto3': "(\<forall>i. Suc 0 < i \<and> i < (4::nat) \<longrightarrow> Q i) \<longleftrightarrow> Q 2 \<and> Q 3"
  by (auto simp: numeral_eq_Suc less_Suc_eq)

lemma heap3_ok: "sp_heap (<) heap3 3"
proof -
  have "pos_ok heap3 3" unfolding pos_ok_def upto3 by (simp add: heap3_def)
  moreover have "h1.is_heap (<) (take (Suc 3) (sp_arr heap3))"
  proof -
    have t: "take (Suc 3) (sp_arr heap3) = [0, 3, 8, 5]" by (simp add: heap3_def)
    have l: "length [0, 3, 8, 5 :: nat] = 4" by simp
    show ?thesis unfolding h1.is_heap_def t l unfolding One_nat_def upto3' by (simp add: RSHIFT_def)
  qed
  ultimately show ?thesis by (simp add: sp_heap_def)
qed

lemma heap3_elems: "sp_elems heap3 3 = [3, 8, 5]" "length (sp_arr heap3) = 5" "4 \<in> dom (sp_pos heap3)"
  by (simp_all add: heap3_def sp_elems_def)

lemma spheap_push_correct_witness: "\<exists>h. spheap_push (<) heap3 3 4 = Some (h, 4) \<and> sp_heap (<) h 4"
  using spheap_push_correct [OF less_weak heap3_ok, of 4] by (auto simp: heap3_elems)

lemma spheap_delete_correct_witness: "\<exists>pos h. spheap_delete (<) heap3 pos 3 = Some (h, 2) \<and> sp_heap (<) h 2 \<and> sp_pos h 8 = Some 0"
  using spheap_delete_correct [OF less_weak heap3_ok, of 8] by (auto simp: heap3_elems)

lemma spheap_pop_min_witness: "\<exists>h x. spheap_pop (<) heap3 3 = Some (h, 2) \<and> sp_heap (<) h 2 \<and> sp_pos h x = Some 0"
  using spheap_pop_min [OF less_weak heap3_ok] by auto

end
