(* ===== verification/Cstring.thy ===== *)
theory Cstring
  imports Ctypes
begin

text \<open>
  The strings of \<^verbatim>\<open>ohstl/cstring.c\<close>: a length and a block of \<^verbatim>\<open>capacity\<close> bytes. A \<^verbatim>\<open>char\<close> is a signed
  byte. The block is a list, empty when \<^verbatim>\<open>data\<close> is \<^verbatim>\<open>NULL\<close>; accesses outside it fail. The operations on two
  strings work on a store of string objects, because both arguments may be the same object. The
  result of \<^verbatim>\<open>realloc\<close> is an argument: whether it succeeds, and the contents of the new bytes. Conversion to and
  from \<^verbatim>\<open>double\<close> is not modelled.
\<close>

type_synonym byte = "8 word"

record cstr =
  st_length :: nat
  st_capacity :: nat
  st_data :: "byte list"

type_synonym strings = "addr \<rightharpoonup> cstr"

definition STRING_NPOS :: int where "STRING_NPOS = - 1"
definition STR_INIT_CAPACITY :: nat where "STR_INIT_CAPACITY = 32"

section \<open>Bytes of a block\<close>

text \<open>\<^verbatim>\<open>memcpy\<close> of \<open>xs\<close> to the offset \<open>i\<close>, and the C string at the start of a block.\<close>

definition poke :: "byte list \<Rightarrow> nat \<Rightarrow> byte list \<Rightarrow> byte list option" where
  "poke d i xs = (if i + length xs \<le> length d then Some (take i d @ xs @ drop (i + length xs) d) else None)"

definition peek :: "byte list \<Rightarrow> nat \<Rightarrow> nat \<Rightarrow> byte list option" where
  "peek d i n = (if i + n \<le> length d then Some (take n (drop i d)) else None)"

definition c_string :: "byte list \<Rightarrow> byte list option" where
  "c_string d = (if 0 \<in> set d then Some (takeWhile (\<lambda>c. c \<noteq> 0) d) else None)"

section \<open>Creation and growth\<close>

text \<open>\<open>ok\<close> says whether the allocation succeeds; the result is the return code.\<close>

definition string_init :: "nat \<Rightarrow> bool \<Rightarrow> (nat \<Rightarrow> byte) \<Rightarrow> cstr \<times> int" where
  "string_init sz ok g =
     (let c = (if sz \<noteq> 0 then sz else STR_INIT_CAPACITY) in
      (\<lparr>st_length = 0, st_capacity = c, st_data = (if ok then map g [0..<c] else [])\<rparr>, if ok then 0 else - 1))"

definition string_reserve :: "cstr \<Rightarrow> nat \<Rightarrow> bool \<Rightarrow> (nat \<Rightarrow> byte) \<Rightarrow> cstr option" where
  "string_reserve s sz ok g = do {
     c \<leftarrow> while_c (\<lambda>c. Some (c < sz)) (\<lambda>c. Some (c * 2 mod 2 ^ 64)) (st_capacity s);
     Some (s\<lparr>st_capacity := c,
       st_data := (if ok then take c (st_data s) @ map g [length (st_data s)..<c] else [])\<rparr>) }"

definition string_clear :: "cstr \<Rightarrow> cstr" where
  "string_clear s = s\<lparr>st_length := 0\<rparr>"

section \<open>C strings\<close>

definition string_from_cstr :: "cstr \<Rightarrow> byte list \<Rightarrow> bool \<Rightarrow> (nat \<Rightarrow> byte) \<Rightarrow> cstr option" where
  "string_from_cstr s cs ok g = do {
     cs \<leftarrow> c_string cs;
     let len = length cs;
     s \<leftarrow> string_reserve s (len + 1) ok g;
     d \<leftarrow> poke (st_data s) 0 cs;
     let s = s\<lparr>st_length := len\<rparr>;
     d \<leftarrow> poke d len [0];
     Some (s\<lparr>st_data := d\<rparr>) }"

definition string_to_cstr :: "cstr \<Rightarrow> cstr option" where
  "string_to_cstr s = do { d \<leftarrow> poke (st_data s) (st_length s) [0]; Some (s\<lparr>st_data := d\<rparr>) }"

text \<open>\<open>cpsize > size - 1\<close> compares as \<^verbatim>\<open>size_t\<close>: a buffer of size 0 has no bound. The result is the buffer.\<close>

definition string_copy_cstr :: "cstr \<Rightarrow> byte list \<Rightarrow> nat \<Rightarrow> byte list option" where
  "string_copy_cstr s buf sz = do {
     let limit = nat ((int sz - 1) mod 2 ^ 64);
     let cpsize = (if st_length s > limit then limit else st_length s);
     xs \<leftarrow> peek (st_data s) 0 cpsize;
     buf \<leftarrow> poke buf 0 xs;
     poke buf cpsize [0] }"

definition string_append_cstr :: "cstr \<Rightarrow> byte list \<Rightarrow> bool \<Rightarrow> (nat \<Rightarrow> byte) \<Rightarrow> cstr option" where
  "string_append_cstr s cs ok g = do {
     cs \<leftarrow> c_string cs;
     let len = length cs;
     s \<leftarrow> string_reserve s (st_length s + len + 1) ok g;
     d \<leftarrow> poke (st_data s) (st_length s) cs;
     let s = s\<lparr>st_length := st_length s + len\<rparr>;
     d \<leftarrow> poke d (st_length s) [0];
     Some (s\<lparr>st_data := d\<rparr>) }"

section \<open>Operations on two strings\<close>

definition string_append :: "strings \<Rightarrow> addr \<Rightarrow> addr \<Rightarrow> bool \<Rightarrow> (nat \<Rightarrow> byte) \<Rightarrow> strings option" where
  "string_append st a0 a1 ok g = do {
     s0 \<leftarrow> st a0;
     s1 \<leftarrow> st a1;
     s0 \<leftarrow> string_reserve s0 (st_length s0 + st_length s1 + 1) ok g;
     let st = st(a0 \<mapsto> s0);
     s1 \<leftarrow> st a1;
     xs \<leftarrow> peek (st_data s1) 0 (st_length s1);
     d \<leftarrow> poke (st_data s0) (st_length s0) xs;
     let len = st_length s0 + st_length s1;
     d \<leftarrow> poke d len [0];
     Some (st(a0 \<mapsto> s0\<lparr>st_length := len, st_data := d\<rparr>)) }"

definition string_assign :: "strings \<Rightarrow> addr \<Rightarrow> addr \<Rightarrow> bool \<Rightarrow> (nat \<Rightarrow> byte) \<Rightarrow> strings option" where
  "string_assign st dest src ok g = (if dest = src then Some st
     else do {
       d \<leftarrow> st dest;
       string_append (st(dest \<mapsto> string_clear d)) dest src ok g })"

text \<open>\<open>pos < str->length\<close> compares an \<^verbatim>\<open>int\<close> with a \<^verbatim>\<open>size_t\<close>: a negative position is large.\<close>

definition pos_below :: "int \<Rightarrow> nat \<Rightarrow> bool" where
  "pos_below pos len \<longleftrightarrow> pos mod 2 ^ 64 < int len"

definition string_at :: "cstr \<Rightarrow> int \<Rightarrow> byte option" where
  "string_at s pos = do {
     c_assert (pos_below pos (st_length s));
     if 0 \<le> pos \<and> nat pos < length (st_data s) then Some (st_data s ! nat pos) else None }"

definition string_update :: "cstr \<Rightarrow> int \<Rightarrow> byte \<Rightarrow> cstr option" where
  "string_update s pos ch = do {
     c_assert (pos_below pos (st_length s));
     if 0 \<le> pos \<and> nat pos < length (st_data s) then Some (s\<lparr>st_data := (st_data s)[nat pos := ch]\<rparr>) else None }"

text \<open>The loops keep the index and, once the code returns, the result.\<close>

definition string_less_step :: "cstr \<Rightarrow> cstr \<Rightarrow> int \<times> bool option \<Rightarrow> (int \<times> bool option) option" where
  "string_less_step s0 s1 st = (case st of (i, res) \<Rightarrow> do {
     c0 \<leftarrow> string_at s0 i;
     c1 \<leftarrow> string_at s1 i;
     let delta = sint c0 - sint c1;
     if delta \<noteq> 0 then Some (i, Some (delta < 0)) else Some (i + 1, None) })"

definition string_less :: "cstr \<Rightarrow> cstr \<Rightarrow> bool option" where
  "string_less s0 s1 = do {
     let minlen = signed_take_bit 31 (int (min (st_length s0) (st_length s1)));
     (i, res) \<leftarrow> while_c (\<lambda>(i, res). Some (i < minlen \<and> res = None)) (string_less_step s0 s1) (0, None);
     case res of Some b \<Rightarrow> Some b | None \<Rightarrow> Some (st_length s1 > st_length s0) }"

definition string_equal_step :: "cstr \<Rightarrow> cstr \<Rightarrow> int \<times> bool \<Rightarrow> (int \<times> bool) option" where
  "string_equal_step s0 s1 st = (case st of (i, differ) \<Rightarrow> do {
     c0 \<leftarrow> string_at s0 i;
     c1 \<leftarrow> string_at s1 i;
     if c0 \<noteq> c1 then Some (i, True) else Some (i + 1, False) })"

definition string_equal :: "cstr \<Rightarrow> cstr \<Rightarrow> bool option" where
  "string_equal s0 s1 = (if st_length s0 \<noteq> st_length s1 then Some False
     else do {
       (i, differ) \<leftarrow> while_c (\<lambda>(i, differ). Some (pos_below i (st_length s0) \<and> \<not> differ)) (string_equal_step s0 s1) (0, False);
       Some (\<not> differ) })"

definition string_indexof_step :: "cstr \<Rightarrow> byte \<Rightarrow> int \<times> bool \<Rightarrow> (int \<times> bool) option" where
  "string_indexof_step s fnd st = (case st of (nowp, found) \<Rightarrow> do {
     c \<leftarrow> string_at s nowp;
     if c = fnd then Some (nowp, True) else Some (nowp + 1, False) })"

definition string_indexof :: "cstr \<Rightarrow> byte \<Rightarrow> int \<Rightarrow> int option" where
  "string_indexof s fnd pos = do {
     (nowp, found) \<leftarrow> while_c (\<lambda>(nowp, found). Some (pos_below nowp (st_length s) \<and> \<not> found)) (string_indexof_step s fnd) (pos, False);
     Some (if found then nowp else STRING_NPOS) }"

section \<open>Conversion of integers\<close>

text \<open>\<^verbatim>\<open>snprintf\<close> and \<^verbatim>\<open>sscanf\<close> with the decimal formats \<^verbatim>\<open>%d\<close> and \<^verbatim>\<open>PRId64\<close>.\<close>

definition digit :: "nat \<Rightarrow> byte" where "digit n = of_nat (48 + n)"

function print_nat :: "nat \<Rightarrow> byte list" where
  "print_nat n = (if n < 10 then [digit n] else print_nat (n div 10) @ [digit (n mod 10)])"
  by auto
termination by (relation "measure id") auto

definition print_dec :: "int \<Rightarrow> byte list" where
  "print_dec v = (if v < 0 then 45 # print_nat (nat (- v)) else print_nat (nat v))"

definition snprintf_dec :: "byte list \<Rightarrow> nat \<Rightarrow> int \<Rightarrow> byte list option" where
  "snprintf_dec d sz v = (if sz = 0 then Some d else poke d 0 (take (sz - 1) (print_dec v) @ [0]))"

definition is_digit :: "byte \<Rightarrow> bool" where "is_digit c \<longleftrightarrow> 48 \<le> c \<and> c \<le> 57"
definition is_space :: "byte \<Rightarrow> bool" where "is_space c \<longleftrightarrow> c = 32 \<or> (9 \<le> c \<and> c \<le> 13)"

fun scan_digits :: "nat \<Rightarrow> byte list \<Rightarrow> nat" where
  "scan_digits a [] = a"
| "scan_digits a (c # cs) = (if is_digit c then scan_digits (a * 10 + (unat c - 48)) cs else a)"

text \<open>The value \<^verbatim>\<open>sscanf\<close> stores, \<open>Some None\<close> when it stores nothing; out of range is undefined.\<close>

definition scan_dec :: "nat \<Rightarrow> byte list \<Rightarrow> int option option" where
  "scan_dec w cs =
     (let cs = dropWhile is_space cs;
          neg = (cs \<noteq> [] \<and> hd cs = 45);
          cs = (if cs \<noteq> [] \<and> (hd cs = 45 \<or> hd cs = 43) then tl cs else cs)
      in if cs \<noteq> [] \<and> is_digit (hd cs)
         then (let v = (if neg then - int (scan_digits 0 cs) else int (scan_digits 0 cs)) in
               if - (2 ^ (w - 1)) \<le> v \<and> v < 2 ^ (w - 1) then Some (Some v) else None)
         else Some None)"

definition string_from_dec :: "nat \<Rightarrow> cstr \<Rightarrow> int \<Rightarrow> bool \<Rightarrow> (nat \<Rightarrow> byte) \<Rightarrow> cstr option" where
  "string_from_dec sz s v ok g = do {
     s \<leftarrow> string_reserve s sz ok g;
     d \<leftarrow> snprintf_dec (st_data s) (st_capacity s) v;
     cs \<leftarrow> c_string d;
     Some (s\<lparr>st_data := d, st_length := length cs\<rparr>) }"

definition string_from_int :: "cstr \<Rightarrow> int \<Rightarrow> bool \<Rightarrow> (nat \<Rightarrow> byte) \<Rightarrow> cstr option" where
  "string_from_int s v ok g = string_from_dec 15 s v ok g"

definition string_from_int64 :: "cstr \<Rightarrow> int \<Rightarrow> bool \<Rightarrow> (nat \<Rightarrow> byte) \<Rightarrow> cstr option" where
  "string_from_int64 s v ok g = string_from_dec 25 s v ok g"

definition string_to_int :: "cstr \<Rightarrow> int option" where
  "string_to_int s = do {
     cs \<leftarrow> c_string (st_data s);
     r \<leftarrow> scan_dec 32 cs;
     Some (case r of Some v \<Rightarrow> v | None \<Rightarrow> 0) }"

definition string_to_int64 :: "cstr \<Rightarrow> int option" where
  "string_to_int64 s = do {
     cs \<leftarrow> c_string (st_data s);
     r \<leftarrow> scan_dec 64 cs;
     Some (case r of Some v \<Rightarrow> v | None \<Rightarrow> 0) }"

end
