(* ===== verification/CstringSpec.thy ===== *)
theory CstringSpec
  imports Cstring
begin

text \<open>
  A string object represents its bytes up to the length: every operation is the list operation of its
  name, comparison is the lexicographic order of signed bytes, and integers survive the round trip through
  a string.
\<close>

section \<open>Representation\<close>

definition str_ok :: "cstr \<Rightarrow> bool" where
  "str_ok s \<longleftrightarrow> st_length s < st_capacity s \<and> length (st_data s) = st_capacity s"

definition str_val :: "cstr \<Rightarrow> byte list" where
  "str_val s = take (st_length s) (st_data s)"

lemma val_length [simp]: "str_ok s \<Longrightarrow> length (str_val s) = st_length s"
  by (simp add: str_ok_def str_val_def)

lemma val_nth: "str_ok s \<Longrightarrow> i < st_length s \<Longrightarrow> str_val s ! i = st_data s ! i"
  by (simp add: str_ok_def str_val_def)

lemma poke_in: "i + length xs \<le> length d \<Longrightarrow> poke d i xs = Some (take i d @ xs @ drop (i + length xs) d)"
  by (simp add: poke_def)

lemma string_reserve_ok:
  assumes s: "str_ok s" and sz: "sz \<le> 2 ^ 63"
  shows "\<exists>s'. string_reserve s sz True g = Some s' \<and> sz \<le> st_capacity s' \<and> length (st_data s') = st_capacity s' \<and>
    str_ok s' \<and> st_length s' = st_length s \<and> str_val s' = str_val s"
proof -
  have "\<exists>c. while_c (\<lambda>c. Some (c < sz)) (\<lambda>c. Some (c * 2 mod 2 ^ 64)) (st_capacity s) = Some c \<and> (sz \<le> c \<and> st_capacity s \<le> c)"
  proof (rule while_c_total [where I = "\<lambda>n c. st_capacity s \<le> c \<and> 0 < c \<and> n = sz - c"])
    show "st_capacity s \<le> st_capacity s \<and> 0 < st_capacity s \<and> sz - st_capacity s = sz - st_capacity s" using s by (simp add: str_ok_def)
  next
    fix n c assume I: "st_capacity s \<le> c \<and> 0 < c \<and> n = sz - c"
    show "(Some (c < sz) = Some False \<and> sz \<le> c \<and> st_capacity s \<le> c) \<or>
      (Some (c < sz) = Some True \<and> (\<exists>s' m. Some (c * 2 mod 2 ^ 64) = Some s' \<and> m < n \<and> st_capacity s \<le> s' \<and> 0 < s' \<and> m = sz - s'))"
    proof (cases "c < sz")
      case True
      then have "c * 2 mod 2 ^ 64 = c * 2" using sz by simp
      then show ?thesis using True I by (auto intro!: exI [of _ "sz - c * 2"])
    qed (use I in simp)
  qed
  then obtain c where c: "while_c (\<lambda>c. Some (c < sz)) (\<lambda>c. Some (c * 2 mod 2 ^ 64)) (st_capacity s) = Some c"
    "sz \<le> c" "st_capacity s \<le> c" by blast
  let ?s = "s\<lparr>st_capacity := c, st_data := take c (st_data s) @ map g [length (st_data s)..<c]\<rparr>"
  have "string_reserve s sz True g = Some ?s" unfolding string_reserve_def c(1) by simp
  moreover have "str_ok ?s" "str_val ?s = str_val s" using s c by (auto simp: str_ok_def str_val_def)
  ultimately show ?thesis using c by (auto simp: str_ok_def)
qed

text \<open>Writing bytes behind the first \<open>n\<close> ones, and the final zero.\<close>

lemma poke_twice:
  assumes "n + length xs < length d"
  shows "\<exists>d'. Option.bind (poke d n xs) (\<lambda>d. poke d (n + length xs) [0]) = Some d' \<and> length d' = length d \<and>
    take (n + length xs) d' = take n d @ xs \<and> d' ! (n + length xs) = 0"
  using assms by (auto simp: poke_def nth_append min_def)

lemma append_cstr_ok:
  assumes s: "str_ok s" and cs: "c_string cs = Some xs" and n: "st_length s + length xs + 1 \<le> 2 ^ 63"
  shows "\<exists>s'. string_append_cstr s cs True g = Some s' \<and> str_ok s' \<and> str_val s' = str_val s @ xs"
proof -
  from string_reserve_ok [OF s n, of g] obtain s1 where
    s1: "string_reserve s (st_length s + length xs + 1) True g = Some s1" "st_length s + length xs + 1 \<le> st_capacity s1"
      "length (st_data s1) = st_capacity s1" "st_length s1 = st_length s" "str_val s1 = str_val s" by blast
  then have "st_length s + length xs < length (st_data s1)" by simp
  from poke_twice [OF this] obtain d where
    d: "Option.bind (poke (st_data s1) (st_length s) xs) (\<lambda>d. poke d (st_length s + length xs) [0]) = Some d"
      "length d = length (st_data s1)" "take (st_length s + length xs) d = take (st_length s) (st_data s1) @ xs" by blast
  then show ?thesis using s1 cs by (auto simp: string_append_cstr_def str_ok_def str_val_def Let_def bind_eq_Some_conv)
qed

lemma from_cstr_ok:
  assumes s: "str_ok s" and cs: "c_string cs = Some xs" and n: "length xs + 1 \<le> 2 ^ 63"
  shows "\<exists>s'. string_from_cstr s cs True g = Some s' \<and> str_ok s' \<and> str_val s' = xs \<and> c_string (st_data s') = Some xs"
proof -
  from string_reserve_ok [OF s n, of g] obtain s1 where
    s1: "string_reserve s (length xs + 1) True g = Some s1" "length xs + 1 \<le> st_capacity s1"
      "length (st_data s1) = st_capacity s1" by blast
  then have "0 + length xs < length (st_data s1)" by simp
  from poke_twice [OF this] obtain d where
    d: "Option.bind (poke (st_data s1) 0 xs) (\<lambda>d. poke d (length xs) [0]) = Some d"
      "length d = length (st_data s1)" "take (length xs) d = xs" "d ! length xs = 0" by auto
  have "length xs < length d" using s1 d by simp
  then have "d = xs @ 0 # drop (Suc (length xs)) d" using d(3,4) by (metis id_take_nth_drop)
  moreover have "0 \<notin> set xs" using cs by (auto simp: c_string_def split: if_splits dest: set_takeWhileD)
  ultimately have "c_string d = Some xs" unfolding c_string_def
    by (metis (mono_tags, lifting) in_set_conv_decomp takeWhile_tail takeWhile_eq_all_conv takeWhile_append append_Nil2)
  then show ?thesis using s1 cs d by (auto simp: string_from_cstr_def str_ok_def str_val_def Let_def bind_eq_Some_conv)
qed

lemma append_ok:
  assumes a: "st a0 = Some s0" "st a1 = Some s1" and ok: "str_ok s0" "str_ok s1" and n: "st_length s0 + st_length s1 + 1 \<le> 2 ^ 63"
  shows "\<exists>s'. string_append st a0 a1 True g = Some (st(a0 \<mapsto> s')) \<and> str_ok s' \<and> str_val s' = str_val s0 @ str_val s1"
proof -
  from string_reserve_ok [OF ok(1) n, of g] obtain r where
    r: "string_reserve s0 (st_length s0 + st_length s1 + 1) True g = Some r" "st_length s0 + st_length s1 + 1 \<le> st_capacity r"
      "length (st_data r) = st_capacity r" "st_length r = st_length s0" "str_val r = str_val s0" "str_ok r" by blast
  obtain s1' where s1': "(st(a0 \<mapsto> r)) a1 = Some s1'" "str_ok s1'" "st_length s1' = st_length s1" "str_val s1' = str_val s1"
    using a r(4-6) ok(2) by (cases "a0 = a1") auto
  have pk: "peek (st_data s1') 0 (st_length s1) = Some (str_val s1)"
    using s1' by (simp add: peek_def str_val_def str_ok_def)
  have l1: "length (str_val s1) = st_length s1" using ok(2) by simp
  have "st_length s0 + length (str_val s1) < length (st_data r)" using r l1 by simp
  from poke_twice [OF this] obtain d where
    d: "Option.bind (poke (st_data r) (st_length s0) (str_val s1)) (\<lambda>d. poke d (st_length s0 + st_length s1) [0]) = Some d"
      "length d = length (st_data r)" "take (st_length s0 + st_length s1) d = take (st_length s0) (st_data r) @ str_val s1"
    unfolding l1 by blast
  let ?s = "r\<lparr>st_length := st_length s0 + st_length s1, st_data := d\<rparr>"
  have "string_append st a0 a1 True g = Some (st(a0 \<mapsto> ?s))"
    using d(1) unfolding string_append_def a r(1) Option.bind.simps Let_def s1'(1,3) pk r(4)
    by (auto simp: bind_eq_Some_conv)
  moreover have "str_ok ?s" "str_val ?s = str_val s0 @ str_val s1"
    using d r by (auto simp: str_ok_def str_val_def)
  ultimately show ?thesis by blast
qed

lemma clear_ok: "str_ok s \<Longrightarrow> str_ok (string_clear s) \<and> str_val (string_clear s) = []"
  by (auto simp: str_ok_def string_clear_def str_val_def)

lemma assign_ok:
  assumes a: "st dest = Some d" "st src = Some s" and ok: "str_ok d" "str_ok s" and n: "st_length s + 1 \<le> 2 ^ 63"
  shows "\<exists>st' s'. string_assign st dest src True g = Some st' \<and> st' dest = Some s' \<and> str_ok s' \<and> str_val s' = str_val s \<and>
    (\<forall>a. a \<noteq> dest \<longrightarrow> st' a = st a)"
proof (cases "dest = src")
  case True
  then show ?thesis using a ok by (auto simp: string_assign_def)
next
  case False
  let ?st = "st(dest \<mapsto> string_clear d)"
  have "st_length (string_clear d) + st_length s + 1 \<le> 2 ^ 63" using n by (simp add: string_clear_def)
  from append_ok [of ?st dest "string_clear d" src s, OF _ _ _ ok(2) this, of g] False a clear_ok [OF ok(1)]
  obtain s' where "string_append ?st dest src True g = Some (?st(dest \<mapsto> s'))" "str_ok s'" "str_val s' = str_val s" by auto
  then show ?thesis using False a by (auto simp: string_assign_def)
qed

section \<open>Comparison\<close>

text \<open>The order the code compares with: lexicographic on signed bytes.\<close>

definition char_rel :: "(byte \<times> byte) set" where
  "char_rel = {(x, y). sint x < sint y}"

definition string_lt :: "byte list \<Rightarrow> byte list \<Rightarrow> bool" where
  "string_lt xs ys \<longleftrightarrow> (xs, ys) \<in> lexord char_rel"

lemma char_rel_iff: "(x, y) \<in> char_rel \<longleftrightarrow> sint x < sint y"
  by (simp add: char_rel_def)

interpretation string: weak_order string_lt
proof
  fix x y z :: "byte list"
  have irr: "irrefl char_rel" by (auto simp: irrefl_def char_rel_def)
  have tr: "trans char_rel" by (auto intro!: transI simp: char_rel_def)
  have tot: "total char_rel"
  proof (rule total_onI)
    fix a b :: byte assume "a \<noteq> b"
    then have "sint a \<noteq> sint b" using signed_word_eqI by blast
    then show "(a, b) \<in> char_rel \<or> (b, a) \<in> char_rel" by (auto simp: char_rel_def)
  qed
  show "\<not> string_lt x x" using lexord_irreflexive [of char_rel x] by (auto simp: string_lt_def char_rel_def)
  show "string_lt x y \<Longrightarrow> string_lt y z \<Longrightarrow> string_lt x z" unfolding string_lt_def using lexord_trans [OF _ _ tr] by blast
  show "\<not> string_lt x y \<Longrightarrow> \<not> string_lt y z \<Longrightarrow> \<not> string_lt x z"
    unfolding string_lt_def using lexord_linear [of char_rel] lexord_trans [OF _ _ tr] tot by (metis total_on_def UNIV_I)
qed

lemma at_ok: "str_ok s \<Longrightarrow> st_length s < 2 ^ 63 \<Longrightarrow> i < st_length s \<Longrightarrow> string_at s (int i) = Some (str_val s ! i)"
  by (simp add: string_at_def pos_below_def val_nth str_ok_def)

lemma first_difference:
  assumes t: "take j xs = take j ys" and j: "j < length xs" "j < length ys" and ne: "xs ! j \<noteq> ys ! j"
  shows "(xs, ys) \<in> lexord char_rel \<longleftrightarrow> sint (xs ! j) < sint (ys ! j)"
proof -
  have "xs = take j xs @ xs ! j # drop (Suc j) xs" "ys = take j xs @ ys ! j # drop (Suc j) ys"
    using id_take_nth_drop [OF j(1)] id_take_nth_drop [OF j(2)] t by simp_all
  then have "(xs, ys) \<in> lexord char_rel \<longleftrightarrow> (xs ! j # drop (Suc j) xs, ys ! j # drop (Suc j) ys) \<in> lexord char_rel"
    using lexord_same_pref_iff [of "take j xs" _ _ char_rel] by (metis char_rel_iff less_irrefl)
  then show ?thesis using ne by (simp add: char_rel_iff)
qed

lemma common_prefix:
  assumes "take (min (length xs) (length ys)) xs = take (min (length xs) (length ys)) ys"
  shows "(xs, ys) \<in> lexord char_rel \<longleftrightarrow> length xs < length ys"
proof (cases "length xs < length ys")
  case True
  then have "ys = xs @ drop (length xs) ys" using assms by (metis append_take_drop_id min.absorb3 order.refl take_all)
  moreover have "\<exists>b z. drop (length xs) ys = b # z" using True by (cases "drop (length xs) ys") auto
  ultimately show ?thesis using True by (metis lexord_append_rightI)
next
  case False
  then have "xs = ys @ drop (length ys) xs" using assms by (metis append_take_drop_id min.absorb2 not_less order.refl take_all)
  moreover have "\<not> (ys @ zs, ys) \<in> lexord char_rel" for zs
    using lexord_same_pref_iff [of ys zs "[]" char_rel] by (auto simp: char_rel_iff)
  ultimately show ?thesis using False by metis
qed

lemma string_less_ok:
  assumes s: "str_ok s0" "str_ok s1" and n: "st_length s0 < 2 ^ 31" "st_length s1 < 2 ^ 31"
  shows "string_less s0 s1 = Some (string_lt (str_val s0) (str_val s1))"
proof -
  let ?v0 = "str_val s0" and ?v1 = "str_val s1" and ?m = "min (st_length s0) (st_length s1)"
  define minlen where "minlen = signed_take_bit 31 (int ?m)"
  have m: "minlen = int ?m" unfolding minlen_def using n by (intro signed_take_bit_int_eq_self) auto
  have lt: "string_lt ?v0 ?v1 \<longleftrightarrow> (length ?v0 < length ?v1 \<and> take (length ?v0) ?v1 = ?v0) \<or>
      (\<exists>i < ?m. take i ?v0 = take i ?v1 \<and> sint (?v0 ! i) < sint (?v1 ! i))"
    unfolding string_lt_def lexord_take_index_conv using s by (simp add: char_rel_iff)
  have "\<exists>t. while_c (\<lambda>(i, res). Some (i < minlen \<and> res = None)) (string_less_step s0 s1) (0, None) = Some t \<and>
    (case snd t of Some b \<Rightarrow> b = string_lt ?v0 ?v1 | None \<Rightarrow> take ?m ?v0 = take ?m ?v1)"
  proof (rule while_c_total [where I = "\<lambda>k (i, res). \<exists>j \<le> ?m. i = int j \<and> take j ?v0 = take j ?v1 \<and>
      (case res of Some b \<Rightarrow> b = string_lt ?v0 ?v1 \<and> k = 0 | None \<Rightarrow> k = ?m - j + 1)"])
    show "case (0, None :: bool option) of (i, res) \<Rightarrow> \<exists>j \<le> ?m. i = int j \<and> take j ?v0 = take j ?v1 \<and>
      (case res of Some b \<Rightarrow> b = string_lt ?v0 ?v1 \<and> ?m + 1 = 0 | None \<Rightarrow> ?m + 1 = ?m - j + 1)" by auto
  next
    fix k t assume "case t of (i, res) \<Rightarrow> \<exists>j \<le> ?m. i = int j \<and> take j ?v0 = take j ?v1 \<and>
      (case res of Some b \<Rightarrow> b = string_lt ?v0 ?v1 \<and> k = 0 | None \<Rightarrow> k = ?m - j + 1)"
    then obtain j res where t: "t = (int j, res)" "j \<le> ?m" "take j ?v0 = take j ?v1"
      "case res of Some b \<Rightarrow> b = string_lt ?v0 ?v1 \<and> k = 0 | None \<Rightarrow> k = ?m - j + 1" by (cases t) auto
    show "((case t of (i, res) \<Rightarrow> Some (i < minlen \<and> res = None)) = Some False \<and>
        (case snd t of Some b \<Rightarrow> b = string_lt ?v0 ?v1 | None \<Rightarrow> take ?m ?v0 = take ?m ?v1)) \<or>
      ((case t of (i, res) \<Rightarrow> Some (i < minlen \<and> res = None)) = Some True \<and> (\<exists>t' m'. string_less_step s0 s1 t = Some t' \<and> m' < k \<and>
        (case t' of (i, res) \<Rightarrow> \<exists>j \<le> ?m. i = int j \<and> take j ?v0 = take j ?v1 \<and>
          (case res of Some b \<Rightarrow> b = string_lt ?v0 ?v1 \<and> m' = 0 | None \<Rightarrow> m' = ?m - j + 1))))"
    proof (cases "res = None \<and> j < ?m")
      case False
      then show ?thesis using t m by (auto split: option.splits)
    next
      case True
      then have at: "string_at s0 (int j) = Some (?v0 ! j)" "string_at s1 (int j) = Some (?v1 ! j)" and
        j: "j < length ?v0" "j < length ?v1"
        using at_ok [OF s(1)] at_ok [OF s(2)] n s by auto
      show ?thesis
      proof (cases "?v0 ! j = ?v1 ! j")
        case eq: True
        then have "string_less_step s0 s1 t = Some (int (Suc j), None)" using at t True by (simp add: string_less_step_def)
        moreover have "take (Suc j) ?v0 = take (Suc j) ?v1" using t(3) eq j by (simp add: take_Suc_conv_app_nth)
        ultimately show ?thesis using t True m
          by (intro disjI2 conjI exI [of _ "(int (Suc j), None)"] exI [of _ "?m - Suc j + 1"]) (auto intro!: exI [of _ "Suc j"])
      next
        case ne: False
        then have "sint (?v0 ! j) \<noteq> sint (?v1 ! j)" using signed_word_eqI by blast
        then have "string_less_step s0 s1 t = Some (int j, Some (sint (?v0 ! j) < sint (?v1 ! j)))"
          using at t True by (simp add: string_less_step_def)
        moreover have "string_lt ?v0 ?v1 \<longleftrightarrow> sint (?v0 ! j) < sint (?v1 ! j)"
          using first_difference [OF t(3) j ne] by (simp add: string_lt_def)
        ultimately show ?thesis using t True m
          by (intro disjI2 conjI exI [of _ "(int j, Some (sint (?v0 ! j) < sint (?v1 ! j)))"] exI [of _ "0::nat"]) auto
      qed
    qed
  qed
  then obtain i res where L: "while_c (\<lambda>(i, res). Some (i < minlen \<and> res = None)) (string_less_step s0 s1) (0, None) = Some (i, res)"
    "case res of Some b \<Rightarrow> b = string_lt ?v0 ?v1 | None \<Rightarrow> take ?m ?v0 = take ?m ?v1" by auto
  have "string_lt ?v0 ?v1 \<longleftrightarrow> st_length s0 < st_length s1" if "take ?m ?v0 = take ?m ?v1"
    using common_prefix [of ?v0 ?v1] that s by (simp add: string_lt_def)
  then show ?thesis unfolding string_less_def minlen_def [symmetric] Let_def L(1) using L(2) by (auto split: option.splits)
qed

lemma pos_below_nat: "n < 2 ^ 63 \<Longrightarrow> i \<le> n \<Longrightarrow> pos_below (int i) n \<longleftrightarrow> i < n"
  by (simp add: pos_below_def)

lemma string_equal_ok:
  assumes s: "str_ok s0" "str_ok s1" and n: "st_length s0 < 2 ^ 63"
  shows "string_equal s0 s1 = Some (str_val s0 = str_val s1)"
proof (cases "st_length s0 = st_length s1")
  case False
  then have "str_val s0 \<noteq> str_val s1" using val_length [OF s(1)] val_length [OF s(2)] by force
  with False show ?thesis by (simp add: string_equal_def)
next
  case len: True
  let ?v0 = "str_val s0" and ?v1 = "str_val s1" and ?n = "st_length s0"
  have "\<exists>t. while_c (\<lambda>(i, differ). Some (pos_below i ?n \<and> \<not> differ)) (string_equal_step s0 s1) (0, False) = Some t \<and>
    snd t = (?v0 \<noteq> ?v1)"
  proof (rule while_c_total [where I = "\<lambda>k (i, differ). \<exists>j \<le> ?n. i = int j \<and> take j ?v0 = take j ?v1 \<and>
      (if differ then ?v0 \<noteq> ?v1 \<and> k = 0 else k = ?n - j + 1)"])
    show "case (0, False) of (i, differ) \<Rightarrow> \<exists>j \<le> ?n. i = int j \<and> take j ?v0 = take j ?v1 \<and>
      (if differ then ?v0 \<noteq> ?v1 \<and> ?n + 1 = 0 else ?n + 1 = ?n - j + 1)" by auto
  next
    fix k t assume "case t of (i, differ) \<Rightarrow> \<exists>j \<le> ?n. i = int j \<and> take j ?v0 = take j ?v1 \<and>
      (if differ then ?v0 \<noteq> ?v1 \<and> k = 0 else k = ?n - j + 1)"
    then obtain j differ where t: "t = (int j, differ)" "j \<le> ?n" "take j ?v0 = take j ?v1"
      "if differ then ?v0 \<noteq> ?v1 \<and> k = 0 else k = ?n - j + 1" by (cases t) auto
    show "((case t of (i, differ) \<Rightarrow> Some (pos_below i ?n \<and> \<not> differ)) = Some False \<and> snd t = (?v0 \<noteq> ?v1)) \<or>
      ((case t of (i, differ) \<Rightarrow> Some (pos_below i ?n \<and> \<not> differ)) = Some True \<and> (\<exists>t' m'. string_equal_step s0 s1 t = Some t' \<and> m' < k \<and>
        (case t' of (i, differ) \<Rightarrow> \<exists>j \<le> ?n. i = int j \<and> take j ?v0 = take j ?v1 \<and>
          (if differ then ?v0 \<noteq> ?v1 \<and> m' = 0 else m' = ?n - j + 1))))"
    proof (cases "\<not> differ \<and> j < ?n")
      case False
      then have "snd t = (?v0 \<noteq> ?v1)" using t s len by (cases differ) auto
      then show ?thesis using False t pos_below_nat [OF n t(2)] by auto
    next
      case True
      then have at: "string_at s0 (int j) = Some (?v0 ! j)" "string_at s1 (int j) = Some (?v1 ! j)" and
        j: "j < length ?v0" "j < length ?v1"
        using at_ok [OF s(1)] at_ok [OF s(2)] n s len by auto
      have c: "(case t of (i, differ) \<Rightarrow> Some (pos_below i ?n \<and> \<not> differ)) = Some True"
        using True t pos_below_nat [OF n t(2)] by simp
      show ?thesis
      proof (cases "?v0 ! j = ?v1 ! j")
        case eq: True
        then have "string_equal_step s0 s1 t = Some (int (Suc j), False)" using at t True by (simp add: string_equal_step_def)
        moreover have "take (Suc j) ?v0 = take (Suc j) ?v1" using t(3) eq j by (simp add: take_Suc_conv_app_nth)
        ultimately show ?thesis using t True c
          by (intro disjI2 conjI exI [of _ "(int (Suc j), False)"] exI [of _ "?n - Suc j + 1"]) (auto intro!: exI [of _ "Suc j"])
      next
        case ne: False
        then have "string_equal_step s0 s1 t = Some (int j, True)" using at t True by (simp add: string_equal_step_def)
        then show ?thesis using t True c ne
          by (intro disjI2 conjI exI [of _ "(int j, True)"] exI [of _ "0::nat"]) auto
      qed
    qed
  qed
  then show ?thesis using len by (auto simp: string_equal_def)
qed

section \<open>Decimal integers\<close>

declare print_nat.simps [simp del]

lemma unat_digit: "n < 10 \<Longrightarrow> unat (digit n) = 48 + n"
  unfolding digit_def unat_of_nat by simp

lemma is_digit_digit: "n < 10 \<Longrightarrow> is_digit (digit n)"
  by (simp add: is_digit_def word_le_nat_alt unat_digit)

lemma scan_append: "(\<And>c. c \<in> set xs \<Longrightarrow> is_digit c) \<Longrightarrow> scan_digits a (xs @ ys) = scan_digits (scan_digits a xs) ys"
  by (induction xs arbitrary: a) auto

lemma print_nat_digits: "c \<in> set (print_nat n) \<Longrightarrow> is_digit c"
proof (induction n rule: print_nat.induct)
  case (1 n)
  then show ?case by (subst (asm) (2) print_nat.simps) (auto split: if_splits simp: is_digit_digit)
qed

lemma print_nat_ne: "print_nat n \<noteq> []"
  by (subst print_nat.simps) simp

lemma scan_print: "scan_digits 0 (print_nat n) = n"
proof (induction n rule: print_nat.induct)
  case (1 n)
  show ?case
  proof (cases "n < 10")
    case True
    then show ?thesis by (subst print_nat.simps) (simp add: is_digit_digit unat_digit)
  next
    case False
    then have "scan_digits 0 (print_nat n) = scan_digits (n div 10) [digit (n mod 10)]"
      by (subst print_nat.simps) (simp add: scan_append print_nat_digits 1 del: scan_digits.simps)
    then show ?thesis by (simp add: is_digit_digit unat_digit)
  qed
qed

lemma print_nat_length: "0 < k \<Longrightarrow> n < 10 ^ k \<Longrightarrow> length (print_nat n) \<le> k"
proof (induction k arbitrary: n)
  case (Suc k)
  show ?case
  proof (cases "n < 10")
    case True
    then show ?thesis by (subst print_nat.simps) simp
  next
    case False
    with Suc.prems have "0 < k" by (cases k) auto
    moreover have "n div 10 < 10 ^ k" using Suc.prems by (simp add: less_mult_imp_div_less mult.commute)
    ultimately show ?thesis using Suc.IH [of "n div 10"] False by (subst print_nat.simps) simp
  qed
qed simp

lemma digit_chars: "is_digit c \<Longrightarrow> c \<noteq> 0 \<and> c \<noteq> 45 \<and> c \<noteq> 43 \<and> \<not> is_space c"
  by (auto simp: is_digit_def is_space_def word_le_nat_alt)

lemma print_dec_length: "\<bar>v\<bar> < 10 ^ k \<Longrightarrow> 0 < k \<Longrightarrow> length (print_dec v) \<le> k + 1"
proof -
  assume v: "\<bar>v\<bar> < 10 ^ k" and k: "0 < k"
  have "nat \<bar>v\<bar> < 10 ^ k" using v by (simp add: nat_less_iff)
  then show ?thesis using print_nat_length [OF k, of "nat \<bar>v\<bar>"] by (auto simp: print_dec_def abs_if split: if_splits)
qed

lemma print_dec_nz: "0 \<notin> set (print_dec v)"
  using print_nat_digits digit_chars by (auto simp: print_dec_def)

lemma scan_print_dec:
  assumes "- (2 ^ (w - 1)) \<le> v" "v < 2 ^ (w - 1)"
  shows "scan_dec w (print_dec v) = Some (Some v)"
proof -
  obtain c cs where p: "print_nat (nat \<bar>v\<bar>) = c # cs" using print_nat_ne by (cases "print_nat (nat \<bar>v\<bar>)") auto
  then have c: "is_digit c" using print_nat_digits [of c "nat \<bar>v\<bar>"] by simp
  have s: "scan_digits 0 (c # cs) = nat \<bar>v\<bar>" using scan_print [of "nat \<bar>v\<bar>"] p by simp
  show ?thesis
  proof (cases "v < 0")
    case True
    then have "print_dec v = 45 # c # cs" using p by (simp add: print_dec_def)
    then show ?thesis using c s True assms by (simp add: scan_dec_def Let_def is_space_def del: scan_digits.simps)
  next
    case False
    then have "print_dec v = c # cs" using p by (simp add: print_dec_def)
    then show ?thesis using c s False assms digit_chars [OF c] by (simp add: scan_dec_def Let_def del: scan_digits.simps)
  qed
qed

lemma c_string_head: "0 \<notin> set xs \<Longrightarrow> c_string (xs @ 0 # ys) = Some xs"
  by (auto simp: c_string_def takeWhile_append)

lemma from_dec_ok:
  assumes s: "str_ok s" and l: "length (print_dec v) < sz" and sz: "sz \<le> 2 ^ 63"
  shows "\<exists>s'. string_from_dec sz s v True g = Some s' \<and> str_ok s' \<and> str_val s' = print_dec v \<and> c_string (st_data s') = Some (print_dec v)"
proof -
  let ?p = "print_dec v"
  from string_reserve_ok [OF s sz, of g] obtain s1 where
    s1: "string_reserve s sz True g = Some s1" "sz \<le> st_capacity s1" "length (st_data s1) = st_capacity s1" by blast
  define d where "d = ?p @ 0 # drop (Suc (length ?p)) (st_data s1)"
  have "take (st_capacity s1 - 1) ?p = ?p" using l s1(2) by simp
  then have "snprintf_dec (st_data s1) (st_capacity s1) v = Some d"
    using l s1 by (simp add: snprintf_dec_def poke_def d_def)
  moreover have "c_string d = Some ?p" unfolding d_def by (rule c_string_head [OF print_dec_nz])
  moreover have "length d = st_capacity s1" using l s1 by (simp add: d_def)
  moreover have "take (length ?p) d = ?p" by (simp add: d_def)
  ultimately show ?thesis using s1 l by (auto simp: string_from_dec_def str_ok_def str_val_def)
qed

section \<open>Properties\<close>

text \<open>C27: \<^verbatim>\<open>string_append\<close> appends the bytes of the second string, also when both are the same object and the
  block moves, and touches no other string.\<close>

theorem string_append_refines:
  assumes "st a0 = Some s0" "st a1 = Some s1" "str_ok s0" "str_ok s1" "st_length s0 + st_length s1 + 1 \<le> 2 ^ 63"
  shows "\<exists>s'. string_append st a0 a1 True g = Some (st(a0 \<mapsto> s')) \<and> str_ok s' \<and> str_val s' = str_val s0 @ str_val s1"
  by (rule append_ok [OF assms])

text \<open>\<^verbatim>\<open>string_less\<close> decides the lexicographic order of the signed bytes, which is a strict weak order whose
  equivalence is equality, and \<^verbatim>\<open>string_equal\<close> decides equality.\<close>

theorem string_compare_correct:
  assumes "str_ok s0" "str_ok s1" "st_length s0 < 2 ^ 31" "st_length s1 < 2 ^ 31"
  shows "string_less s0 s1 = Some ((map sint (str_val s0), map sint (str_val s1)) \<in> lexord {(x, y). x < y}) \<and>
    string_equal s0 s1 = Some (str_val s0 = str_val s1)"
proof -
  have "(map sint xs, map sint ys) \<in> lexord {(x, y). x < y} \<longleftrightarrow> string_lt xs ys" for xs ys :: "byte list"
  proof (induction xs arbitrary: ys)
    case (Cons x xs)
    then show ?case by (cases ys) (auto simp: string_lt_def char_rel_iff signed_word_eqI)
  qed (auto simp: string_lt_def neq_Nil_conv)
  then show ?thesis using string_less_ok [OF assms] string_equal_ok [OF assms(1,2)] assms(3) by simp
qed

text \<open>C19: an integer written into a string is read back, for every 32-bit and every 64-bit value.\<close>

theorem string_int_roundtrip:
  assumes "str_ok s" "- (2 ^ 31) \<le> v" "v < 2 ^ 31" "- (2 ^ 63) \<le> w" "w < 2 ^ 63"
  shows "Option.bind (string_from_int s v True g) string_to_int = Some v \<and>
    Option.bind (string_from_int64 s w True g) string_to_int64 = Some w"
proof -
  have "\<bar>v\<bar> < 10 ^ 10" "\<bar>w\<bar> < 10 ^ 19" using assms by auto
  then have l: "length (print_dec v) < 15" "length (print_dec w) < 25"
    using print_dec_length [of v 10] print_dec_length [of w 19] by simp_all
  from from_dec_ok [OF assms(1) l(1), of g] obtain s1 where
    "string_from_int s v True g = Some s1" "c_string (st_data s1) = Some (print_dec v)" by (auto simp: string_from_int_def)
  moreover from from_dec_ok [OF assms(1) l(2), of g] obtain s2 where
    "string_from_int64 s w True g = Some s2" "c_string (st_data s2) = Some (print_dec w)" by (auto simp: string_from_int64_def)
  ultimately show ?thesis using scan_print_dec [of 32 v] scan_print_dec [of 64 w] assms
    by (simp add: string_to_int_def string_to_int64_def)
qed

text \<open>A number read from a cleared string is the number written before: the conversion ignores the length.\<close>

theorem string_to_int_after_clear:
  assumes "str_ok s" "- (2 ^ 31) \<le> v" "v < 2 ^ 31"
  shows "\<exists>s'. string_from_int s v True g = Some s' \<and> str_val (string_clear s') = [] \<and> string_to_int (string_clear s') = Some v"
proof -
  have "\<bar>v\<bar> < 10 ^ 10" using assms by auto
  then have "length (print_dec v) < 15" using print_dec_length [of v 10] by simp
  from from_dec_ok [OF assms(1) this, of g] obtain s1 where
    "string_from_int s v True g = Some s1" "c_string (st_data s1) = Some (print_dec v)" by (auto simp: string_from_int_def)
  then show ?thesis using scan_print_dec [of 32 v] assms
    by (simp add: string_to_int_def string_clear_def str_val_def)
qed

subsection \<open>Witnesses\<close>

definition str_ab :: cstr where
  "str_ab = \<lparr>st_length = 2, st_capacity = 4, st_data = [97, 98, 0, 0]\<rparr>"

lemma str_ab_ok: "str_ok str_ab" "str_val str_ab = [97, 98]" "st_length str_ab = 2"
  by (simp_all add: str_ok_def str_ab_def str_val_def)

lemma string_append_refines_witness:
  "\<exists>s'. string_append [1 \<mapsto> str_ab] 1 1 True (\<lambda>_. 0) = Some [1 \<mapsto> s'] \<and> str_val s' = [97, 98, 97, 98]"
  using string_append_refines [of "[1 \<mapsto> str_ab]" 1 str_ab 1 str_ab "\<lambda>_. 0"] str_ab_ok by auto

lemma string_compare_correct_witness: "string_less str_ab str_ab = Some False \<and> string_equal str_ab str_ab = Some True"
  using string_compare_correct [of str_ab str_ab] str_ab_ok by simp

lemma string_int_roundtrip_witness:
  "Option.bind (string_from_int str_ab (- 12) True (\<lambda>_. 0)) string_to_int = Some (- 12)"
  using string_int_roundtrip [of str_ab "- 12" 0 "\<lambda>_. 0"] str_ab_ok by simp

lemma string_to_int_after_clear_witness:
  "\<exists>s'. string_from_int str_ab 7 True (\<lambda>_. 0) = Some s' \<and> string_to_int (string_clear s') = Some 7"
  using string_to_int_after_clear [of str_ab 7 "\<lambda>_. 0"] str_ab_ok by auto

end
