(* ===== verification/Typenode.thy ===== *)
theory Typenode
  imports Prelude "HOL-Library.Char_ord"
begin

text \<open>
  Type names and type trees of \<^verbatim>\<open>ohstl/ctypes.c\<close>: the tables of types, the registration of user types, and
  the parser that turns a declaration such as \<^verbatim>\<open>map_t<int, vector_t<int> >\<close> into a tree, cutting a copy
  of the string in place. Strings are lists of characters; reading or writing outside a buffer
  fails. The number \<open>m\<close> of allocations that still succeed is part of the parser's state.
\<close>

section \<open>Types\<close>

datatype typestyle = TYPE_INVAILD | TYPE_C | TYPE_FN | TYPE_USER

record ctype =
  ty_name :: string
  ty_id :: nat
  ty_size :: nat
  ty_style :: typestyle

text \<open>The mapping from the names of the language to the names of the library.\<close>

definition builtin_type_text_mapping :: "(string \<times> string) list" where
  "builtin_type_text_mapping = [
     (''char'', ''int8_t''), (''unsigned char'', ''uint8_t''), (''int8_t'', ''int8_t''), (''uint8_t'', ''uint8_t''),
     (''short'', ''int16_t''), (''unsigned short'', ''uint16_t''), (''int16_t'', ''int16_t''), (''uint16_t'', ''uint16_t''),
     (''int'', ''int32_t''), (''unsigned int'', ''uint32_t''), (''int32_t'', ''int32_t''), (''uint32_t'', ''uint32_t''),
     (''long long'', ''int64_t''), (''unsigned long long'', ''uint64_t''), (''int64_t'', ''int64_t''), (''uint64_t'', ''uint64_t''),
     (''float'', ''float''), (''double'', ''double''), (''pointer'', ''pointer''),
     (''vector_t'', ''vector_t''), (''list_t'', ''list_t''), (''heap_t'', ''heap_t''), (''set_t'', ''set_t''),
     (''map_t'', ''map_t''), (''pair_t'', ''pair_t''), (''string_t'', ''string_t'')]"

text \<open>\<open>szof\<close> is \<^verbatim>\<open>sizeof\<close> of the structures of the containers.\<close>

definition builtin_types :: "(string \<Rightarrow> nat) \<Rightarrow> ctype list" where
  "builtin_types szof =
     map (\<lambda>(n, i, s). \<lparr>ty_name = n, ty_id = i, ty_size = s, ty_style = TYPE_C\<rparr>)
       [(''int8_t'', 0, 1), (''uint8_t'', 4, 1), (''int16_t'', 1, 2), (''uint16_t'', 5, 2), (''int32_t'', 2, 4), (''uint32_t'', 6, 4),
        (''int64_t'', 3, 8), (''uint64_t'', 7, 8), (''float'', 8, 4), (''double'', 9, 8), (''pointer'', 10, 8)] @
     map (\<lambda>(n, i). \<lparr>ty_name = n, ty_id = i, ty_size = szof n, ty_style = TYPE_FN\<rparr>)
       [(''vector_t'', 11), (''list_t'', 12), (''heap_t'', 13), (''pair_t'', 16), (''set_t'', 14), (''map_t'', 15), (''string_t'', 17)]"

text \<open>The tables the functions read: the built-in types, and the list of user types.\<close>

record type_tables =
  tt_builtin :: "ctype list"
  tt_user :: "ctype list"

definition type_named :: "string \<Rightarrow> ctype list \<Rightarrow> ctype option" where
  "type_named name tys = List.find (\<lambda>t. ty_name t = name) tys"

section \<open>Looking a type up\<close>

definition TYPE_NAME_SIZE :: nat where "TYPE_NAME_SIZE = 255"

text \<open>
  The name a type string stands for. An empty string is read at the index \<open>-1\<close>, and a name that does not
  fit the buffer of 255 bytes overflows it.
\<close>

definition type_name_of :: "string \<Rightarrow> string option" where
  "type_name_of typestr = (if typestr = '''' then None
     else do {
       let name = (if last typestr = CHR ''*'' then ''pointer''
         else if CHR ''<'' \<in> set typestr then takeWhile (\<lambda>c. c \<noteq> CHR ''<'') typestr
         else case map_of builtin_type_text_mapping typestr of Some n \<Rightarrow> n | None \<Rightarrow> typestr);
       c_assert (length name < TYPE_NAME_SIZE);
       Some name })"

definition get_type_bystr :: "type_tables \<Rightarrow> string \<Rightarrow> ctype option option" where
  "get_type_bystr tt typestr = do {
     name \<leftarrow> type_name_of typestr;
     case type_named name (tt_builtin tt) of
       Some t \<Rightarrow> Some (Some t)
     | None \<Rightarrow> Some (type_named name (tt_user tt)) }"

section \<open>User types\<close>

text \<open>\<open>ok\<close>: whether the new entry can be allocated; the code does not check it.\<close>

definition type_regist :: "type_tables \<Rightarrow> string \<Rightarrow> nat \<Rightarrow> bool \<Rightarrow> type_tables option" where
  "type_regist tt name sz ok =
     (if type_named name (tt_user tt) \<noteq> None then Some tt
      else if type_named name (tt_builtin tt) \<noteq> None then Some tt
      else do {
        c_assert ok;
        Some (tt\<lparr>tt_user := \<lparr>ty_name = name, ty_id = 18, ty_size = sz, ty_style = TYPE_USER\<rparr> # tt_user tt\<rparr>) })"

fun remove_named :: "string \<Rightarrow> ctype list \<Rightarrow> ctype list" where
  "remove_named name [] = []"
| "remove_named name (t # ts) = (if ty_name t = name then ts else t # remove_named name ts)"

definition type_unregist :: "type_tables \<Rightarrow> string \<Rightarrow> type_tables" where
  "type_unregist tt name = tt\<lparr>tt_user := remove_named name (tt_user tt)\<rparr>"

section \<open>The parser\<close>

text \<open>The entries of \<^verbatim>\<open>conttype\<close> that are set are the list of the children.\<close>

datatype type_node = TypeNode (node_type: ctype) (node_children: "type_node list")

abbreviation NUL :: char where "NUL \<equiv> CHR 0x00"

definition rd :: "string \<Rightarrow> nat \<Rightarrow> char option" where
  "rd buf i = (if i < length buf then Some (buf ! i) else None)"

definition wr :: "string \<Rightarrow> nat \<Rightarrow> char \<Rightarrow> string option" where
  "wr buf i c = (if i < length buf then Some (buf[i := c]) else None)"

text \<open>The C string at a position.\<close>

definition c_str :: "string \<Rightarrow> nat \<Rightarrow> string option" where
  "c_str buf i = (if NUL \<in> set (drop i buf) then Some (takeWhile (\<lambda>c. c \<noteq> NUL) (drop i buf)) else None)"

definition find_part_cond :: "string \<Rightarrow> nat \<times> int \<Rightarrow> bool option" where
  "find_part_cond buf s = (case s of (strp, incomp) \<Rightarrow> do {
     c \<leftarrow> rd buf strp;
     Some (c \<noteq> NUL \<and> (incomp \<noteq> 0 \<or> c \<noteq> CHR '','')) })"

definition find_part_step :: "string \<Rightarrow> nat \<times> int \<Rightarrow> (nat \<times> int) option" where
  "find_part_step buf s = (case s of (strp, incomp) \<Rightarrow> do {
     c \<leftarrow> rd buf strp;
     let incomp = (if c = CHR ''<'' then incomp + 1 else incomp);
     let incomp = (if c = CHR ''>'' then incomp - 1 else incomp);
     Some (strp + 1, incomp) })"

definition get_type_node_find_part :: "string \<Rightarrow> nat \<Rightarrow> nat option" where
  "get_type_node_find_part buf strp = do {
     (strp, incomp) \<leftarrow> while_c (find_part_cond buf) (find_part_step buf) (strp, 0);
     Some strp }"

text \<open>
  One round of the loop and the rest of it: \<open>str\<close> is where the next part starts, \<open>index\<close> the slot of
  \<^verbatim>\<open>conttype\<close> to fill, \<open>next\<close> whether a comma was found before. The result is the buffer, the allocations
  left and the children found.
\<close>

partial_function (option) get_type_node_recur ::
  "type_tables \<Rightarrow> string \<Rightarrow> nat \<Rightarrow> nat \<Rightarrow> nat \<Rightarrow> bool \<Rightarrow> (string \<times> nat \<times> type_node list) option" where
  "get_type_node_recur tt buf m str index next = do {
     strp \<leftarrow> get_type_node_find_part buf str;
     c \<leftarrow> rd buf strp;
     if \<not> (c \<noteq> NUL \<or> next) then Some (buf, m, [])
     else do {
       let next = (c \<noteq> NUL);
       buf \<leftarrow> wr buf strp NUL;
       if m = 0 then Some (buf, m, [])
       else do {
         typestr \<leftarrow> c_str buf str;
         tp \<leftarrow> get_type_bystr tt typestr;
         tp \<leftarrow> tp;
         c_assert (index \<le> 1);
         (buf, m, kids) \<leftarrow> (if ty_style tp = TYPE_FN then do {
             c_assert (strp \<noteq> 0);
             buf \<leftarrow> wr buf (strp - 1) NUL;
             get_type_node_recur tt buf (m - 1) (str + length (ty_name tp) + 1) 0 True }
           else Some (buf, m - 1, []));
         if \<not> next then Some (buf, m, [TypeNode tp kids])
         else do {
           (buf, m, rest) \<leftarrow> get_type_node_recur tt buf m (strp + 1) (index + 1) next;
           Some (buf, m, TypeNode tp kids # rest) } } } }"

text \<open>
  \<open>ok\<close> says whether the copy of the string can be allocated: the result is not checked. The copy leaves
  the spaces out; \<open>g\<close> is what its unused bytes hold. A failed allocation of the root returns
  \<open>NULL\<close>, \<open>Some None\<close>.
\<close>

definition get_type_node :: "type_tables \<Rightarrow> ctype \<Rightarrow> string \<Rightarrow> bool \<Rightarrow> (nat \<Rightarrow> char) \<Rightarrow> nat \<Rightarrow> type_node option option" where
  "get_type_node tt tp str ok g m = do {
     c_assert (ty_style tp = TYPE_FN);
     c_assert ok;
     let rstr = filter (\<lambda>c. c \<noteq> CHR '' '') str @ NUL # map g [0..<length (filter (\<lambda>c. c = CHR '' '') str)];
     if m = 0 then Some None
     else do {
       (buf, m, kids) \<leftarrow> get_type_node_recur tt rstr (m - 1) 0 0 True;
       Some (Some (TypeNode tp kids)) } }"

text \<open>The number of nodes \<^verbatim>\<open>_free_type_node\<close> frees.\<close>

fun free_type_node :: "type_node option \<Rightarrow> nat" where
  "free_type_node None = 0"
| "free_type_node (Some (TypeNode tp kids)) = sum_list (map (\<lambda>k. free_type_node (Some k)) kids) + 1"

end
