(* ===== verification/TypenodeSpec.thy ===== *)
theory TypenodeSpec
  imports Typenode
begin

text \<open>
  The parser of type strings reads back every printed type expression, whatever spaces it contains; registered
  types are found until they are unregistered.
\<close>

section \<open>Type expressions\<close>

datatype texp = TE string "texp list"

fun te_show :: "texp \<Rightarrow> string" and te_list :: "texp list \<Rightarrow> string" where
  "te_show (TE n ts) = (if ts = [] then n else n @ CHR ''<'' # te_list ts @ [CHR ''>''])"
| "te_list [] = []"
| "te_list (t # ts) = te_show t @ (if ts = [] then [] else CHR '','' # te_list ts)"

fun te_count :: "texp \<Rightarrow> nat" where
  "te_count (TE n ts) = Suc (sum_list (map te_count ts))"

definition plain_name :: "string \<Rightarrow> bool" where
  "plain_name n \<longleftrightarrow> n \<noteq> [] \<and> length n < TYPE_NAME_SIZE \<and> set n \<inter> {NUL, CHR '','', CHR ''<'', CHR ''>'', CHR '' '', CHR ''*''} = {}"

text \<open>A leaf names a type that is not a container; a container of the library has one or two arguments.\<close>

fun te_ok :: "type_tables \<Rightarrow> texp \<Rightarrow> bool" where
  "te_ok tt (TE n ts) \<longleftrightarrow> plain_name n \<and>
     (if ts = [] then (\<exists>tp. get_type_bystr tt n = Some (Some tp) \<and> ty_style tp \<noteq> TYPE_FN)
      else length ts \<le> 2 \<and> (\<exists>tp. type_named n (tt_builtin tt) = Some tp \<and> ty_style tp = TYPE_FN)) \<and>
     (\<forall>t\<in>set ts. te_ok tt t)"

definition te_type :: "type_tables \<Rightarrow> string \<Rightarrow> ctype" where
  "te_type tt n = the (the (get_type_bystr tt n))"

fun te_node :: "type_tables \<Rightarrow> texp \<Rightarrow> type_node" where
  "te_node tt (TE n ts) = TypeNode (if ts = [] then te_type tt n else the (type_named n (tt_builtin tt))) (map (te_node tt) ts)"

section \<open>Finding the end of a part\<close>

text \<open>\<open>pass d w\<close>: the scan goes through \<open>w\<close> with \<open>d\<close> open brackets, and how many are open after it.\<close>

fun pass :: "int \<Rightarrow> string \<Rightarrow> int option" where
  "pass d [] = Some d"
| "pass d (c # cs) = (if c = NUL \<or> (d = 0 \<and> c = CHR '','') then None
     else pass (if c = CHR ''<'' then d + 1 else if c = CHR ''>'' then d - 1 else d) cs)"

lemma pass_append: "pass d (xs @ ys) = Option.bind (pass d xs) (\<lambda>e. pass e ys)"
  by (induction xs arbitrary: d) auto

lemma pass_plain: "set n \<inter> {NUL, CHR '','', CHR ''<'', CHR ''>''} = {} \<Longrightarrow> pass d n = Some d"
  by (induction n) auto

lemma pass_name: "plain_name n \<Longrightarrow> pass d n = Some d"
  by (rule pass_plain) (auto simp: plain_name_def)

lemma pass_show:
  "te_ok tt t \<Longrightarrow> 0 \<le> d \<Longrightarrow> pass d (te_show t) = Some d"
  "\<forall>t\<in>set ts. te_ok tt t \<Longrightarrow> 0 < d \<Longrightarrow> pass d (te_list ts) = Some d"
proof (induction t and ts arbitrary: d and d rule: te_show_te_list.induct)
  case (1 n ts)
  then show ?case by (auto simp: pass_append pass_name)
next
  case (3 t ts)
  then show ?case by (auto simp: pass_append)
qed simp

lemma rd_mid [simp]: "rd (pre @ c # post) (length pre) = Some c"
  by (simp add: rd_def)

lemma wr_mid: "i = length pre \<Longrightarrow> wr (pre @ c # post) i x = Some (pre @ x # post)"
  by (simp add: wr_def)

lemma find_part_pass:
  assumes "pass d w = Some e"
  shows "while_c (find_part_cond (pre @ w @ post)) (find_part_step (pre @ w @ post)) (length pre, d) =
    while_c (find_part_cond (pre @ w @ post)) (find_part_step (pre @ w @ post)) (length pre + length w, e)"
  using assms
proof (induction w arbitrary: pre d)
  case (Cons c w)
  let ?b = "pre @ (c # w) @ post" and ?d = "if c = CHR ''<'' then d + 1 else if c = CHR ''>'' then d - 1 else d"
  have "find_part_cond ?b (length pre, d) = Some True"
    using Cons.prems by (auto simp: find_part_cond_def split: if_splits)
  moreover have "find_part_step ?b (length pre, d) = Some (Suc (length pre), ?d)"
    by (simp add: find_part_step_def Let_def)
  ultimately have "while_c (find_part_cond ?b) (find_part_step ?b) (length pre, d) =
    while_c (find_part_cond ?b) (find_part_step ?b) (Suc (length pre), ?d)" by (rule while_c_step)
  moreover have "pass ?d w = Some e" using Cons.prems by (simp split: if_splits)
  ultimately show ?case using Cons.IH [of ?d "pre @ [c]"] by simp
qed simp

lemma find_part_ok:
  assumes "pass 0 w = Some 0" and c: "c = NUL \<or> c = CHR '',''"
  shows "get_type_node_find_part (pre @ w @ c # post) (length pre) = Some (length pre + length w)"
proof -
  let ?b = "pre @ w @ c # post"
  have "rd ?b (length pre + length w) = Some c" by (simp add: rd_def nth_append)
  then have "find_part_cond ?b (length pre + length w, 0) = Some False" using c by (auto simp: find_part_cond_def)
  from while_c_stop [of "find_part_cond ?b", OF this] find_part_pass [OF assms(1), of pre "c # post"]
  show ?thesis by (simp add: get_type_node_find_part_def)
qed

section \<open>Looking up a printed type\<close>

lemma show_ne: "te_ok tt t \<Longrightarrow> te_show t \<noteq> []"
  by (cases t) (auto simp: plain_name_def)

lemma show_nul: "te_ok tt t \<Longrightarrow> NUL \<notin> set (te_show t)" "\<forall>t\<in>set ts. te_ok tt t \<Longrightarrow> NUL \<notin> set (te_list ts)"
  by (induction t and ts rule: te_show_te_list.induct) (auto simp: plain_name_def)

lemma show_space: "te_ok tt t \<Longrightarrow> CHR '' '' \<notin> set (te_show t)" "\<forall>t\<in>set ts. te_ok tt t \<Longrightarrow> CHR '' '' \<notin> set (te_list ts)"
  by (induction t and ts rule: te_show_te_list.induct) (auto simp: plain_name_def)

lemma bystr_leaf: "te_ok tt (TE n []) \<Longrightarrow> get_type_bystr tt n = Some (Some (te_type tt n)) \<and> ty_style (te_type tt n) \<noteq> TYPE_FN"
  by (auto simp: te_type_def)

lemma bystr_cont:
  assumes "te_ok tt (TE n ts)" "ts \<noteq> []"
  shows "get_type_bystr tt (te_show (TE n ts)) = Some (type_named n (tt_builtin tt))"
proof -
  from assms obtain tp where n: "plain_name n" and tp: "type_named n (tt_builtin tt) = Some tp" by auto
  have "\<forall>c\<in>set n. c \<noteq> CHR ''<''" using n by (auto simp: plain_name_def)
  then have "takeWhile (\<lambda>c. c \<noteq> CHR ''<'') (te_show (TE n ts)) = n" using assms(2) by (simp add: takeWhile_append)
  moreover have "last (te_show (TE n ts)) = CHR ''>''" using assms(2) by simp
  moreover have "CHR ''<'' \<in> set (te_show (TE n ts))" "te_show (TE n ts) \<noteq> []" using assms(2) by simp_all
  ultimately have "type_name_of (te_show (TE n ts)) = Some n"
    using n by (simp add: type_name_of_def Let_def plain_name_def del: te_show.simps)
  then show ?thesis by (simp add: get_type_bystr_def tp)
qed

lemma named_name: "type_named n ts = Some tp \<Longrightarrow> ty_name tp = n"
  by (auto simp: type_named_def find_Some_iff)

section \<open>Parsing\<close>

lemma c_str_mid: "NUL \<notin> set w \<Longrightarrow> c_str (pre @ w @ NUL # post) (length pre) = Some w"
  by (simp add: c_str_def takeWhile_append)

text \<open>One part of the string: what the loop does up to the recursion into a container.\<close>

lemma recur_leaf:
  assumes ok: "te_ok tt (TE n [])" and m: "0 < m" and i: "index \<le> 1" and c: "c = NUL \<or> c = CHR '',''"
  shows "get_type_node_recur tt (pre @ n @ c # post) m (length pre) index True =
    (if c = NUL then Some (pre @ n @ NUL # post, m - 1, [te_node tt (TE n [])])
     else do { (buf, m, rest) \<leftarrow> get_type_node_recur tt (pre @ n @ NUL # post) (m - 1) (Suc (length pre + length n)) (Suc index) True;
               Some (buf, m, te_node tt (TE n []) # rest) })"
proof -
  have p: "plain_name n" using ok by simp
  note f = find_part_ok [OF pass_name [OF p] c, of pre post]
  have r: "rd (pre @ n @ c # post) (length pre + length n) = Some c" using rd_mid [of "pre @ n" c post] by simp
  have w: "wr (pre @ n @ c # post) (length pre + length n) NUL = Some (pre @ n @ NUL # post)"
    using wr_mid [of "length pre + length n" "pre @ n" c post NUL] by simp
  have s: "c_str (pre @ n @ NUL # post) (length pre) = Some n" using p by (intro c_str_mid) (auto simp: plain_name_def)
  note b = bystr_leaf [OF ok]
  show ?thesis
    by (subst get_type_node_recur.simps) (use b i m c in \<open>auto simp: f r w s Let_def\<close>)
qed

lemma recur_cont:
  assumes ok: "te_ok tt (TE n ts)" "ts \<noteq> []" and m: "0 < m" and i: "index \<le> 1" and c: "c = NUL \<or> c = CHR '',''"
  shows "get_type_node_recur tt (pre @ te_show (TE n ts) @ c # post) m (length pre) index True =
    do { (buf, m, kids) \<leftarrow> get_type_node_recur tt ((pre @ n @ [CHR ''<'']) @ te_list ts @ NUL # NUL # post) (m - 1) (length (pre @ n @ [CHR ''<''])) 0 True;
         if c = NUL then Some (buf, m, [TypeNode (the (type_named n (tt_builtin tt))) kids])
         else do { (buf, m, rest) \<leftarrow> get_type_node_recur tt buf m (Suc (length pre + length (te_show (TE n ts)))) (Suc index) True;
                   Some (buf, m, TypeNode (the (type_named n (tt_builtin tt))) kids # rest) } }"
proof -
  let ?w = "te_show (TE n ts)"
  obtain tp where tp: "type_named n (tt_builtin tt) = Some tp" "ty_style tp = TYPE_FN" using ok by auto
  note nm = named_name [OF tp(1)]
  note f = find_part_ok [OF pass_show(1) [OF ok(1) order.refl] c, of pre post]
  have r: "rd (pre @ ?w @ c # post) (length pre + length ?w) = Some c" using rd_mid [of "pre @ ?w" c post] by (simp del: te_show.simps)
  have w: "wr (pre @ ?w @ c # post) (length pre + length ?w) NUL = Some (pre @ ?w @ NUL # post)"
    using wr_mid [of "length pre + length ?w" "pre @ ?w" c post NUL] by (simp del: te_show.simps)
  have s: "c_str (pre @ ?w @ NUL # post) (length pre) = Some ?w" by (rule c_str_mid [OF show_nul(1) [OF ok(1)]])
  have w2: "wr (pre @ ?w @ NUL # post) (length pre + length ?w - Suc 0) NUL = Some ((pre @ n @ [CHR ''<'']) @ te_list ts @ NUL # NUL # post)"
    using wr_mid [of "length pre + length ?w - 1" "pre @ n @ CHR ''<'' # te_list ts" "CHR ''>''" "NUL # post" NUL] ok(2) by simp
  note b = bystr_cont [OF ok] and ne = show_ne [OF ok(1)]
  show ?thesis
    by (subst get_type_node_recur.simps)
      (use tp i m c in \<open>auto simp: f r w s b nm w2 ne Let_def simp del: te_show.simps\<close>)
qed

text \<open>A list of parts: the segment they occupied is cut up, everything around it is unchanged.\<close>

lemma te_count_pos: "0 < te_count t"
  by (cases t) simp

lemma recur_ok:
  assumes "\<forall>t\<in>set ts. te_ok tt t" "ts \<noteq> []" "index + length ts \<le> 2" "sum_list (map te_count ts) \<le> m"
  shows "\<exists>seg. length seg = length (te_list ts) \<and>
    get_type_node_recur tt (pre @ te_list ts @ NUL # post) m (length pre) index True =
      Some (pre @ seg @ NUL # post, m - sum_list (map te_count ts), map (te_node tt) ts)"
  using assms
proof (induction "sum_list (map te_count ts)" arbitrary: ts pre post m index rule: less_induct)
  case less
  from less.prems(2) obtain n us rest where ts: "ts = TE n us # rest" by (metis neq_Nil_conv texp.exhaust)
  let ?t = "TE n us"
  have ok: "te_ok tt ?t" "\<forall>t\<in>set rest. te_ok tt t" using less.prems(1) ts by auto
  have i: "index \<le> 1" using less.prems(3) ts by auto
  define c where "c = (if rest = [] then NUL else CHR '','')"
  define q where "q = (if rest = [] then post else te_list rest @ NUL # post)"
  have c: "c = NUL \<or> c = CHR '',''" by (simp add: c_def)
  have buf: "pre @ te_list ts @ NUL # post = pre @ te_show ?t @ c # q" by (simp add: ts c_def q_def del: te_show.simps)
  have m: "0 < m" "te_count ?t \<le> m" using less.prems(4) ts by auto
  have "\<exists>seg. length seg = length (te_show ?t) \<and> get_type_node_recur tt (pre @ te_show ?t @ c # q) m (length pre) index True =
    (if c = NUL then Some (pre @ seg @ NUL # q, m - te_count ?t, [te_node tt ?t])
     else do { (buf, m, rest) \<leftarrow> get_type_node_recur tt (pre @ seg @ NUL # q) (m - te_count ?t) (Suc (length pre + length (te_show ?t))) (Suc index) True;
               Some (buf, m, te_node tt ?t # rest) })"
  proof (cases "us = []")
    case True
    then show ?thesis using recur_leaf [of tt n m index c pre q] ok m i c by (intro exI [of _ n]) auto
  next
    case False
    have us: "\<forall>t\<in>set us. te_ok tt t" "0 + length us \<le> 2" "sum_list (map te_count us) \<le> m - 1"
      using ok(1) False m by auto
    have "sum_list (map te_count us) < sum_list (map te_count ts)" by (simp add: ts)
    from less.hyps [OF this us(1) False us(2,3), of "pre @ n @ [CHR ''<'']" "NUL # q"] obtain seg where
      seg: "length seg = length (te_list us)" "get_type_node_recur tt ((pre @ n @ [CHR ''<'']) @ te_list us @ NUL # NUL # q) (m - 1) (length (pre @ n @ [CHR ''<''])) 0 True =
        Some ((pre @ n @ [CHR ''<'']) @ seg @ NUL # NUL # q, m - 1 - sum_list (map te_count us), map (te_node tt) us)" by blast
    show ?thesis unfolding recur_cont [OF ok(1) False m(1) i c, of pre q] seg(2)
      by (intro exI [of _ "n @ CHR ''<'' # seg @ [NUL]"]) (use seg(1) False in \<open>auto intro!: bind_weak_cong\<close>)
  qed
  then obtain seg where seg: "length seg = length (te_show ?t)" "get_type_node_recur tt (pre @ te_show ?t @ c # q) m (length pre) index True =
    (if c = NUL then Some (pre @ seg @ NUL # q, m - te_count ?t, [te_node tt ?t])
     else do { (buf, m, rest) \<leftarrow> get_type_node_recur tt (pre @ seg @ NUL # q) (m - te_count ?t) (Suc (length pre + length (te_show ?t))) (Suc index) True;
               Some (buf, m, te_node tt ?t # rest) })" by blast
  show ?case
  proof (cases "rest = []")
    case True
    then show ?thesis unfolding buf seg(2)
      by (intro exI [of _ seg]) (use seg(1) in \<open>simp add: ts c_def q_def del: te_show.simps te_node.simps te_count.simps\<close>)
  next
    case False
    have r: "Suc index + length rest \<le> 2" "sum_list (map te_count rest) \<le> m - te_count ?t" "sum_list (map te_count rest) < sum_list (map te_count ts)"
      using less.prems(3,4) ts te_count_pos [of ?t] by auto
    have pos: "Suc (length pre + length (te_show ?t)) = length (pre @ seg @ [NUL])" using seg(1) by simp
    from less.hyps [OF r(3) ok(2) False r(1,2), of "pre @ seg @ [NUL]" post] obtain seg2 where
      seg2: "length seg2 = length (te_list rest)" "get_type_node_recur tt ((pre @ seg @ [NUL]) @ te_list rest @ NUL # post) (m - te_count ?t) (length (pre @ seg @ [NUL])) (Suc index) True =
        Some ((pre @ seg @ [NUL]) @ seg2 @ NUL # post, m - te_count ?t - sum_list (map te_count rest), map (te_node tt) rest)" by blast
    have e: "pre @ seg @ NUL # q = (pre @ seg @ [NUL]) @ te_list rest @ NUL # post" using False by (simp add: q_def)
    show ?thesis unfolding buf seg(2) e pos seg2(2)
      by (intro exI [of _ "seg @ NUL # seg2"]) (use seg(1) seg2(1) False in \<open>simp add: ts c_def del: te_show.simps te_node.simps te_count.simps\<close>)
  qed
qed

lemma get_type_node_ok:
  assumes "\<forall>t\<in>set ts. te_ok tt t" "ts \<noteq> []" "length ts \<le> 2" "sum_list (map te_count ts) < m" "ty_style tp = TYPE_FN"
    and str: "filter (\<lambda>c. c \<noteq> CHR '' '') str = te_list ts"
  shows "get_type_node tt tp str True g m = Some (Some (TypeNode tp (map (te_node tt) ts)))"
proof -
  have "0 + length ts \<le> 2" "sum_list (map te_count ts) \<le> m - 1" "0 < m" using assms(3,4) by auto
  from recur_ok [OF assms(1,2) this(1,2), of "[]" "map g [0..<length (filter (\<lambda>c. c = CHR '' '') str)]"] \<open>0 < m\<close> str assms(5)
  show ?thesis by (auto simp: get_type_node_def)
qed

section \<open>Properties\<close>

text \<open>C13: \<^verbatim>\<open>_get_type_node\<close> reads back every printed type expression, with spaces anywhere, as long as no container
  is used without arguments; it stays inside its copy of the string.\<close>

theorem type_parse_roundtrip:
  assumes "\<forall>t\<in>set ts. te_ok tt t" "ts \<noteq> []" "length ts \<le> 2" "sum_list (map te_count ts) < m" "ty_style tp = TYPE_FN"
    "filter (\<lambda>c. c \<noteq> CHR '' '') str = te_list ts"
  shows "get_type_node tt tp str True g m = Some (Some (TypeNode tp (map (te_node tt) ts)))"
  by (rule get_type_node_ok [OF assms])

text \<open>A string type at the end of a declaration, as in \<^verbatim>\<open>vector_new(string_t)\<close>, makes the parser read behind
  its copy of the string: it looks for the arguments the string type does not have.\<close>

theorem type_parse_string_overread:
  assumes "type_named ''string_t'' (tt_builtin tt) = Some st" "ty_style st = TYPE_FN" "ty_style tp = TYPE_FN" "1 < m"
  shows "get_type_node tt tp ''string_t'' True g m = None"
proof -
  let ?n = "''string_t''" and ?b = "''string_'' @ [NUL, NUL]"
  have p: "pass 0 ?n = Some 0" by simp
  have f: "get_type_node_find_part (?n @ [NUL]) 0 = Some 8"
    using find_part_ok [OF p, of NUL "[]" "[]"] by simp
  have b: "get_type_bystr tt ?n = Some (Some st)"
    using assms(1) by (simp add: get_type_bystr_def type_name_of_def builtin_type_text_mapping_def TYPE_NAME_SIZE_def)
  have w: "wr (?n @ [NUL]) 8 NUL = Some (?n @ [NUL])" "wr (?n @ [NUL]) 7 NUL = Some ?b" "c_str (?n @ [NUL]) 0 = Some ?n"
    "rd (?n @ [NUL]) 8 = Some NUL"
    by (simp_all add: wr_def c_str_def rd_def)
  have "while_c (find_part_cond ?b) (find_part_step ?b) (9, 0) = None"
    by (subst while_c.simps) (simp add: find_part_cond_def rd_def)
  then have over: "get_type_node_recur tt ?b k 9 0 True = None" for k
    by (subst get_type_node_recur.simps) (simp add: get_type_node_find_part_def)
  have n: "ty_name st = ?n" using named_name [OF assms(1)] .
  have l: "0 + length ?n + 1 = 9" "8 - 1 = (7::nat)" by simp_all
  have "get_type_node_recur tt (?n @ [NUL]) (m - 1) 0 0 True = None"
    by (subst get_type_node_recur.simps)
      (use assms(2,4) in \<open>simp only: f w b n l over Option.bind.simps Let_def bind_c_assert simp_thms if_True if_False zero_neq_numeral refl le0, simp add: over\<close>)
  then show ?thesis using assms(3,4) by (simp add: get_type_node_def)
qed

text \<open>The names of the language that contain a space are in the mapping, but a declaration loses its spaces before
  it is looked up, so \<^verbatim>\<open>vector_new(unsigned int)\<close> fails.\<close>

theorem type_parse_unsigned_fails:
  assumes "type_named ''unsignedint'' (tt_builtin tt) = None" "type_named ''unsignedint'' (tt_user tt) = None" "ty_style tp = TYPE_FN" "1 < m"
  shows "get_type_node tt tp ''unsigned int'' True g m = None \<and> type_name_of ''unsigned int'' = Some ''uint32_t''"
proof -
  let ?n = "''unsignedint''"
  have p: "pass 0 ?n = Some 0" by simp
  have f: "get_type_node_find_part (?n @ NUL # [g 0]) 0 = Some 11"
    using find_part_ok [OF p, of NUL "[]" "[g 0]"] by simp
  have b: "get_type_bystr tt ?n = Some None"
    using assms(1,2) by (simp add: get_type_bystr_def type_name_of_def builtin_type_text_mapping_def TYPE_NAME_SIZE_def)
  have w: "wr (?n @ NUL # [g 0]) 11 NUL = Some (?n @ NUL # [g 0])" "c_str (?n @ NUL # [g 0]) 0 = Some ?n"
    "rd (?n @ NUL # [g 0]) 11 = Some NUL"
    by (simp_all add: wr_def c_str_def rd_def)
  have "get_type_node_recur tt (?n @ NUL # [g 0]) (m - 1) 0 0 True = None"
    by (subst get_type_node_recur.simps) (use assms(4) in \<open>simp only: f w b Option.bind.simps Let_def, simp\<close>)
  then show ?thesis using assms(3,4) by (simp add: get_type_node_def type_name_of_def builtin_type_text_mapping_def TYPE_NAME_SIZE_def)
qed

text \<open>A registered type is found under its name, with its size, until it is unregistered, which restores the
  tables; registering a name twice changes nothing.\<close>

theorem type_regist_roundtrip:
  assumes "plain_name name" "name \<notin> fst ` set builtin_type_text_mapping" "type_named name (tt_builtin tt) = None" "type_named name (tt_user tt) = None"
  shows "\<exists>tt' t. type_regist tt name sz True = Some tt' \<and> get_type_bystr tt' name = Some (Some t) \<and>
    ty_name t = name \<and> ty_size t = sz \<and> ty_style t = TYPE_USER \<and>
    type_regist tt' name sz' ok = Some tt' \<and> type_unregist tt' name = tt \<and> get_type_bystr tt name = Some None"
proof -
  let ?t = "\<lparr>ty_name = name, ty_id = 18, ty_size = sz, ty_style = TYPE_USER\<rparr>"
  let ?tt = "tt\<lparr>tt_user := ?t # tt_user tt\<rparr>"
  have p: "CHR ''*'' \<notin> set name" "CHR ''<'' \<notin> set name" "name \<noteq> []" "length name < TYPE_NAME_SIZE"
    using assms(1) by (auto simp: plain_name_def)
  then have "last name \<noteq> CHR ''*''" by (metis last_in_set)
  moreover note p(2-4)
  moreover have "map_of builtin_type_text_mapping name = None" using assms(2) by (simp add: map_of_eq_None_iff)
  ultimately have n: "type_name_of name = Some name" by (simp add: type_name_of_def)
  have u: "type_named name (?t # tt_user tt) = Some ?t" by (simp add: type_named_def)
  have "type_regist tt name sz True = Some ?tt" using assms(3,4) by (simp add: type_regist_def)
  moreover have "get_type_bystr ?tt name = Some (Some ?t)" "get_type_bystr tt name = Some None"
    using n u assms(3,4) by (simp_all add: get_type_bystr_def)
  moreover have "type_regist ?tt name sz' ok = Some ?tt" using u by (simp add: type_regist_def)
  moreover have "type_unregist ?tt name = tt" by (simp add: type_unregist_def)
  ultimately show ?thesis by (intro exI [of _ ?tt] exI [of _ ?t]) simp
qed

subsection \<open>Witnesses\<close>

definition demo_tables :: type_tables where
  "demo_tables = \<lparr>tt_builtin = builtin_types (\<lambda>n. 40), tt_user = []\<rparr>"

lemma demo_named:
  "type_named ''vector_t'' (tt_builtin demo_tables) = Some \<lparr>ty_name = ''vector_t'', ty_id = 11, ty_size = 40, ty_style = TYPE_FN\<rparr>"
  "type_named ''string_t'' (tt_builtin demo_tables) = Some \<lparr>ty_name = ''string_t'', ty_id = 17, ty_size = 40, ty_style = TYPE_FN\<rparr>"
  "type_named ''int32_t'' (tt_builtin demo_tables) = Some \<lparr>ty_name = ''int32_t'', ty_id = 2, ty_size = 4, ty_style = TYPE_C\<rparr>"
  "type_named ''unsignedint'' (tt_builtin demo_tables) = None" "type_named ''point'' (tt_builtin demo_tables) = None"
  "tt_user demo_tables = []"
  by (simp_all add: demo_tables_def builtin_types_def type_named_def)

lemma demo_user: "type_named n (tt_user demo_tables) = None"
  by (simp add: demo_tables_def type_named_def)

lemma demo_int: "get_type_bystr demo_tables ''int'' = Some (Some \<lparr>ty_name = ''int32_t'', ty_id = 2, ty_size = 4, ty_style = TYPE_C\<rparr>)"
  by (simp add: get_type_bystr_def type_name_of_def builtin_type_text_mapping_def TYPE_NAME_SIZE_def demo_named)

lemma demo_te: "te_ok demo_tables (TE ''int'' [])" "te_ok demo_tables (TE ''vector_t'' [TE ''int'' []])"
  using demo_int demo_named by (simp_all add: plain_name_def TYPE_NAME_SIZE_def)

definition map_type :: ctype where
  "map_type = \<lparr>ty_name = ''map_t'', ty_id = 15, ty_size = 40, ty_style = TYPE_FN\<rparr>"

lemma type_parse_roundtrip_witness:
  "\<exists>nodes. get_type_node demo_tables map_type ''int, vector_t<int >'' True (\<lambda>_. NUL) 4 = Some (Some (TypeNode map_type nodes))"
  using type_parse_roundtrip [of "[TE ''int'' [], TE ''vector_t'' [TE ''int'' []]]" demo_tables 4 map_type "''int, vector_t<int >''" "\<lambda>_. NUL"] demo_te
  by (simp add: map_type_def)

lemma type_parse_string_overread_witness: "get_type_node demo_tables map_type ''string_t'' True (\<lambda>_. NUL) 9 = None"
  using type_parse_string_overread [OF demo_named(2)] by (simp add: map_type_def)

lemma type_parse_unsigned_fails_witness: "get_type_node demo_tables map_type ''unsigned int'' True (\<lambda>_. NUL) 9 = None"
  using type_parse_unsigned_fails [OF demo_named(4)] by (simp add: map_type_def demo_user)

lemma type_regist_roundtrip_witness:
  "\<exists>tt t. type_regist demo_tables ''point'' 16 True = Some tt \<and> get_type_bystr tt ''point'' = Some (Some t) \<and> ty_size t = 16"
proof -
  have "plain_name ''point''" "''point'' \<notin> fst ` set builtin_type_text_mapping"
    by (simp_all add: plain_name_def TYPE_NAME_SIZE_def builtin_type_text_mapping_def)
  from type_regist_roundtrip [OF this demo_named(5) demo_user] show ?thesis by blast
qed

end
