(* ===== verification/Buffer.thy ===== *)
theory Buffer
  imports Prelude
begin

text \<open>
  The byte buffers of \<^verbatim>\<open>ohev/buffer.c\<close>: a chain of units of equal size, on an explicit store of units. The
  positions \<^verbatim>\<open>rptr\<close> and \<^verbatim>\<open>wptr\<close> are offsets from the start of the unit's data. Copying outside a unit or
  outside the caller's memory fails, and so does a negative length, which \<^verbatim>\<open>memcpy\<close> takes as a huge one.
\<close>

type_synonym byte = "8 word"

section \<open>Memory\<close>

definition mem_read :: "byte list \<Rightarrow> nat \<Rightarrow> int \<Rightarrow> byte list option" where
  "mem_read m pos n = (if 0 \<le> n \<and> pos + nat n \<le> length m then Some (take (nat n) (drop pos m)) else None)"

definition mem_write :: "byte list \<Rightarrow> nat \<Rightarrow> byte list \<Rightarrow> byte list option" where
  "mem_write m pos bs = (if pos + length bs \<le> length m then Some (take pos m @ bs @ drop (pos + length bs) m) else None)"

section \<open>Units\<close>

record bunit =
  bu_next :: addr
  bu_rptr :: nat
  bu_wptr :: nat
  bu_size :: int
  bu_data :: "byte list"

definition bufunit_empty :: "bunit \<Rightarrow> bool" where
  "bufunit_empty u = (bu_rptr u = bu_wptr u)"

definition bufunit_clear :: "bunit \<Rightarrow> bunit" where
  "bufunit_clear u = u\<lparr>bu_rptr := 0, bu_wptr := 0\<rparr>"

definition bufunit_left :: "bunit \<Rightarrow> int" where
  "bufunit_left u = bu_size u - int (bu_wptr u)"

definition bufunit_used :: "bunit \<Rightarrow> int" where
  "bufunit_used u = int (bu_wptr u) - int (bu_rptr u)"

text \<open>\<open>dst\<close> is the memory of the caller, \<open>None\<close> for a null pointer, and \<open>off\<close> the place in it to write to.\<close>

definition bufunit_read :: "bunit \<Rightarrow> int \<Rightarrow> byte list option \<Rightarrow> nat \<Rightarrow> int \<Rightarrow> (bunit \<times> int \<times> byte list option) option" where
  "bufunit_read u readsz dst off dstsz = do {
     let readsz = min readsz dstsz;
     let readsz = min readsz (bufunit_used u);
     dst \<leftarrow> (case dst of
         None \<Rightarrow> Some None
       | Some d \<Rightarrow> do {
           bs \<leftarrow> mem_read (bu_data u) (bu_rptr u) readsz;
           d \<leftarrow> mem_write d off bs;
           Some (Some d) });
     c_assert (0 \<le> int (bu_rptr u) + readsz);
     Some (u\<lparr>bu_rptr := nat (int (bu_rptr u) + readsz)\<rparr>, readsz, dst) }"

definition bufunit_peek :: "bunit \<Rightarrow> int \<Rightarrow> byte list \<Rightarrow> nat \<Rightarrow> int \<Rightarrow> (int \<times> byte list) option" where
  "bufunit_peek u readsz dst off dstsz = do {
     let readsz = min readsz dstsz;
     let readsz = min readsz (bufunit_used u);
     bs \<leftarrow> mem_read (bu_data u) (bu_rptr u) readsz;
     dst \<leftarrow> mem_write dst off bs;
     Some (readsz, dst) }"

definition bufunit_write :: "bunit \<Rightarrow> byte list \<Rightarrow> nat \<Rightarrow> int \<Rightarrow> (bunit \<times> int) option" where
  "bufunit_write u src off dstsz = do {
     let wrtsz = min dstsz (bufunit_left u);
     bs \<leftarrow> mem_read src off wrtsz;
     d \<leftarrow> mem_write (bu_data u) (bu_wptr u) bs;
     Some (u\<lparr>bu_data := d, bu_wptr := bu_wptr u + nat wrtsz\<rparr>, wrtsz) }"

section \<open>Buffers\<close>

text \<open>
  \<open>ob_units\<close> is the store of the units the buffer holds. The allocator (the system's or the pool's) is a
  function \<open>al\<close> of the store that gives the address of a new unit, and \<open>g\<close> is the contents of new memory.
\<close>

record ohbuffer =
  ob_units :: "addr \<rightharpoonup> bunit"
  ob_unit_size :: int
  ob_unit_cnt :: int
  ob_head :: addr
  ob_tail :: addr

type_synonym allocator = "(addr \<rightharpoonup> bunit) \<Rightarrow> addr"

definition buf_unit :: "ohbuffer \<Rightarrow> addr \<Rightarrow> bunit option" where
  "buf_unit b p = (if p = NULL then None else ob_units b p)"

definition buf_set_unit :: "ohbuffer \<Rightarrow> addr \<Rightarrow> bunit \<Rightarrow> ohbuffer" where
  "buf_set_unit b p u = b\<lparr>ob_units := (ob_units b)(p \<mapsto> u)\<rparr>"

definition buf_init :: "int \<Rightarrow> ohbuffer" where
  "buf_init sz = \<lparr>ob_units = Map.empty, ob_unit_size = sz, ob_unit_cnt = 0, ob_head = NULL, ob_tail = NULL\<rparr>"

definition buf_get_unit :: "allocator \<Rightarrow> (nat \<Rightarrow> byte) \<Rightarrow> ohbuffer \<Rightarrow> ohbuffer \<times> addr" where
  "buf_get_unit al g b = (let p = al (ob_units b) in
     if p \<noteq> NULL then
       (let u = \<lparr>bu_next = NULL, bu_rptr = 0, bu_wptr = 0, bu_size = ob_unit_size b, bu_data = map g [0..<nat (ob_unit_size b)]\<rparr>
        in (buf_set_unit b p (bufunit_clear u)\<lparr>ob_unit_cnt := ob_unit_cnt b + 1\<rparr>, p))
     else (b, p))"

definition buf_remove_unit :: "ohbuffer \<Rightarrow> addr \<Rightarrow> ohbuffer option" where
  "buf_remove_unit b p = do {
     u \<leftarrow> buf_unit b p;
     Some (b\<lparr>ob_units := (ob_units b)(p := None), ob_unit_cnt := ob_unit_cnt b - 1\<rparr>) }"

definition buf_destroy :: "ohbuffer \<Rightarrow> ohbuffer option" where
  "buf_destroy b = do {
     (b, p) \<leftarrow> while_c (\<lambda>(b, p). Some (p \<noteq> NULL))
       (\<lambda>(b, p). do { u \<leftarrow> buf_unit b p; b \<leftarrow> buf_remove_unit b p; Some (b, bu_next u) }) (b, ob_head b);
     Some b }"

text \<open>A unit that was read to its end is cleared, and removed unless it is the last; the result is the next unit.\<close>

definition buf_drop_empty :: "ohbuffer \<Rightarrow> addr \<Rightarrow> (ohbuffer \<times> addr) option" where
  "buf_drop_empty b bufu = do {
     u \<leftarrow> buf_unit b bufu;
     if bufunit_empty u then do {
       let b = buf_set_unit b bufu (bufunit_clear u);
       if bu_next u \<noteq> NULL then do {
         let b = b\<lparr>ob_head := bu_next u\<rparr>;
         b \<leftarrow> buf_remove_unit b bufu;
         Some (b, bu_next u) }
       else Some (b, bu_next u) }
     else Some (b, bufu) }"

definition buf_read_step :: "int \<Rightarrow> int \<Rightarrow> ohbuffer \<times> addr \<times> int \<times> byte list option \<Rightarrow> (ohbuffer \<times> addr \<times> int \<times> byte list option) option" where
  "buf_read_step readsz dstsz s = (case s of (b, bufu, leftsz, dst) \<Rightarrow> do {
     u \<leftarrow> buf_unit b bufu;
     (u, n, dst) \<leftarrow> bufunit_read u leftsz dst (nat (readsz - leftsz)) (dstsz - readsz + leftsz);
     let leftsz = leftsz - n;
     (b, bufu) \<leftarrow> buf_drop_empty (buf_set_unit b bufu u) bufu;
     Some (b, bufu, leftsz, dst) })"

definition buf_read :: "ohbuffer \<Rightarrow> int \<Rightarrow> byte list option \<Rightarrow> int \<Rightarrow> (ohbuffer \<times> int \<times> byte list option) option" where
  "buf_read b readsz dst dstsz = do {
     let readsz = min readsz dstsz;
     (b, bufu, leftsz, dst) \<leftarrow> while_c (\<lambda>(b, bufu, leftsz, dst). Some (bufu \<noteq> NULL \<and> leftsz \<noteq> 0))
       (buf_read_step readsz dstsz) (b, ob_head b, readsz, dst);
     Some (b, readsz - leftsz, dst) }"

definition buf_readall :: "ohbuffer \<Rightarrow> byte list option \<Rightarrow> int \<Rightarrow> (ohbuffer \<times> int \<times> byte list option) option" where
  "buf_readall b dst dstsz = buf_read b dstsz dst dstsz"

definition buf_peek_step :: "ohbuffer \<Rightarrow> int \<Rightarrow> int \<Rightarrow> addr \<times> int \<times> byte list \<Rightarrow> (addr \<times> int \<times> byte list) option" where
  "buf_peek_step b readsz dstsz s = (case s of (bufu, leftsz, dst) \<Rightarrow> do {
     u \<leftarrow> buf_unit b bufu;
     (n, dst) \<leftarrow> bufunit_peek u leftsz dst (nat (readsz - leftsz)) (dstsz - readsz + leftsz);
     Some (bu_next u, leftsz - n, dst) })"

definition buf_peek :: "ohbuffer \<Rightarrow> int \<Rightarrow> byte list \<Rightarrow> int \<Rightarrow> (int \<times> byte list) option" where
  "buf_peek b readsz dst dstsz = do {
     let readsz = min readsz dstsz;
     (bufu, leftsz, dst) \<leftarrow> while_c (\<lambda>(bufu, leftsz, dst). Some (bufu \<noteq> NULL \<and> leftsz \<noteq> 0))
       (buf_peek_step b readsz dstsz) (ob_head b, readsz, dst);
     Some (readsz - leftsz, dst) }"

text \<open>The two places that make room at the tail: an empty buffer gets its first unit, a full tail a successor.\<close>

definition buf_first_unit :: "allocator \<Rightarrow> (nat \<Rightarrow> byte) \<Rightarrow> ohbuffer \<Rightarrow> ohbuffer" where
  "buf_first_unit al g b = (if ob_head b = NULL
     then (let (b, p) = buf_get_unit al g b in b\<lparr>ob_head := p, ob_tail := p\<rparr>) else b)"

definition buf_grow_tail :: "allocator \<Rightarrow> (nat \<Rightarrow> byte) \<Rightarrow> ohbuffer \<Rightarrow> ohbuffer option" where
  "buf_grow_tail al g b = do {
     t \<leftarrow> buf_unit b (ob_tail b);
     if bufunit_left t = 0 then do {
       let (b, p) = buf_get_unit al g b;
       t \<leftarrow> buf_unit b (ob_tail b);
       let b = buf_set_unit b (ob_tail b) (t\<lparr>bu_next := p\<rparr>);
       Some (b\<lparr>ob_tail := p\<rparr>) }
     else Some b }"

definition buf_write_step :: "allocator \<Rightarrow> (nat \<Rightarrow> byte) \<Rightarrow> byte list \<Rightarrow> int \<Rightarrow> ohbuffer \<times> int \<Rightarrow> (ohbuffer \<times> int) option" where
  "buf_write_step al g src srcsz s = (case s of (b, wrtsz) \<Rightarrow> do {
     b \<leftarrow> buf_grow_tail al g b;
     t \<leftarrow> buf_unit b (ob_tail b);
     (t, n) \<leftarrow> bufunit_write t src (nat wrtsz) (srcsz - wrtsz);
     Some (buf_set_unit b (ob_tail b) t, wrtsz + n) })"

definition buf_write :: "allocator \<Rightarrow> (nat \<Rightarrow> byte) \<Rightarrow> ohbuffer \<Rightarrow> byte list \<Rightarrow> int \<Rightarrow> (ohbuffer \<times> int) option" where
  "buf_write al g b src srcsz = while_c (\<lambda>(b, wrtsz). Some (wrtsz < srcsz)) (buf_write_step al g src srcsz) (buf_first_unit al g b, 0)"

definition buf_used :: "ohbuffer \<Rightarrow> int option" where
  "buf_used b = do {
     h \<leftarrow> (if ob_head b \<noteq> NULL then map_option bufunit_used (buf_unit b (ob_head b)) else Some 0);
     if ob_unit_cnt b > 1 then do {
       t \<leftarrow> buf_unit b (ob_tail b);
       Some (h + bufunit_used t + (ob_unit_cnt b - 2) * ob_unit_size b) }
     else Some h }"

section \<open>Files\<close>

text \<open>
  What the system calls on a non-blocking descriptor answer, one entry per call: bytes received (none at
  the end of the file) or a number of bytes taken, an interruption, or an error. Once the answers are used
  up, every call fails with an error (nothing to receive, no room to send).
\<close>

datatype 'a io_result = IoOk 'a | IoEintr | IoErr

text \<open>The \<^verbatim>\<open>do ... while (n == -1 && errno == EINTR)\<close> around a call: it consumes interruptions.\<close>

fun retry_eintr :: "'a io_result list \<Rightarrow> 'a option \<times> 'a io_result list" where
  "retry_eintr [] = (None, [])"
| "retry_eintr (IoOk x # rs) = (Some x, rs)"
| "retry_eintr (IoEintr # rs) = retry_eintr rs"
| "retry_eintr (IoErr # rs) = (None, rs)"

text \<open>
  Reading at most \<open>k\<close> bytes leaves the bytes it does not return for the next call, and writing \<open>k\<close> bytes takes
  at most \<open>k\<close>.
\<close>

definition fd_recv :: "byte list io_result list \<Rightarrow> nat \<Rightarrow> byte list option \<times> byte list io_result list" where
  "fd_recv rs k = (case retry_eintr rs of
     (None, rs) \<Rightarrow> (None, rs)
   | (Some bs, rs) \<Rightarrow> (Some (take k bs), if k < length bs then IoOk (drop k bs) # rs else rs))"

definition fd_send :: "nat io_result list \<Rightarrow> nat \<Rightarrow> nat option \<times> nat io_result list" where
  "fd_send rs k = (case retry_eintr rs of (None, rs) \<Rightarrow> (None, rs) | (Some n, rs) \<Rightarrow> (Some (min n k), rs))"

definition bufunit_fill :: "bunit \<Rightarrow> byte list \<Rightarrow> bunit option" where
  "bufunit_fill u bs = do {
     d \<leftarrow> mem_write (bu_data u) (bu_wptr u) bs;
     Some (u\<lparr>bu_data := d, bu_wptr := bu_wptr u + length bs\<rparr>) }"

text \<open>The state is the buffer, \<^verbatim>\<open>*readsz\<close>, the answers left, and the value to return, once it is known.\<close>

definition buf_fd_read_step ::
  "allocator \<Rightarrow> (nat \<Rightarrow> byte) \<Rightarrow> ohbuffer \<times> int \<times> byte list io_result list \<times> int option \<Rightarrow>
   (ohbuffer \<times> int \<times> byte list io_result list \<times> int option) option" where
  "buf_fd_read_step al g s = (case s of (b, readsz, rs, ret) \<Rightarrow> do {
     b \<leftarrow> buf_grow_tail al g b;
     t \<leftarrow> buf_unit b (ob_tail b);
     (case fd_recv rs (nat (bufunit_left t)) of
        (None, rs) \<Rightarrow> Some (b, readsz, rs, Some (- 1))
      | (Some bs, rs) \<Rightarrow>
          if bs = [] then Some (b, readsz, rs, Some 0)
          else do {
            t \<leftarrow> bufunit_fill t bs;
            let b = buf_set_unit b (ob_tail b) t;
            let readsz = readsz + int (length bs);
            Some (b, readsz, rs, if bufunit_left t > 0 then Some readsz else None) }) })"

definition buf_fd_read ::
  "allocator \<Rightarrow> (nat \<Rightarrow> byte) \<Rightarrow> ohbuffer \<Rightarrow> byte list io_result list \<Rightarrow> (ohbuffer \<times> int \<times> int \<times> byte list io_result list) option" where
  "buf_fd_read al g b rs = do {
     b \<leftarrow> buf_grow_tail al g (buf_first_unit al g b);
     (b, readsz, rs, ret) \<leftarrow> while_c (\<lambda>(b, readsz, rs, ret). Some (ret = None)) (buf_fd_read_step al g) (b, 0, rs, None);
     ret \<leftarrow> ret;
     Some (b, ret, readsz, rs) }"

text \<open>
  \<open>sent\<close> collects the bytes written. The state is the buffer, the unit, \<^verbatim>\<open>*wrtsz\<close>,
  the bytes sent, the answers left and the value of an early return.
\<close>

definition buf_fd_write_step ::
  "ohbuffer \<times> addr \<times> int \<times> byte list \<times> nat io_result list \<times> int option \<Rightarrow>
   (ohbuffer \<times> addr \<times> int \<times> byte list \<times> nat io_result list \<times> int option) option" where
  "buf_fd_write_step s = (case s of (b, bufu, wrtsz, sent, rs, ret) \<Rightarrow> do {
     u \<leftarrow> buf_unit b bufu;
     (case fd_send rs (nat (bufunit_used u)) of
        (None, rs) \<Rightarrow> Some (b, bufu, wrtsz, sent, rs, Some (- 1))
      | (Some n, rs) \<Rightarrow> do {
          bs \<leftarrow> mem_read (bu_data u) (bu_rptr u) (int n);
          let u = u\<lparr>bu_rptr := bu_rptr u + n\<rparr>;
          (b, bufu) \<leftarrow> buf_drop_empty (buf_set_unit b bufu u) bufu;
          Some (b, bufu, wrtsz + int n, sent @ bs, rs, None) }) })"

definition buf_fd_write :: "ohbuffer \<Rightarrow> nat io_result list \<Rightarrow> (ohbuffer \<times> int \<times> int \<times> byte list \<times> nat io_result list) option" where
  "buf_fd_write b rs = do {
     (b, bufu, wrtsz, sent, rs, ret) \<leftarrow> while_c (\<lambda>(b, bufu, wrtsz, sent, rs, ret). Some (bufu \<noteq> NULL \<and> ret = None))
       buf_fd_write_step (b, ob_head b, 0, [], rs, None);
     Some (b, case ret of None \<Rightarrow> wrtsz | Some r \<Rightarrow> r, wrtsz, sent, rs) }"

end
