(* ===== verification/BufferSpec.thy ===== *)
theory BufferSpec
  imports Buffer
begin

text \<open>
  What \<^verbatim>\<open>ohev/buffer.c\<close> promises: a buffer is a queue of bytes. The chain of units is the ghost list of its
  addresses, and the contents are the unread bytes of the units in that order.
\<close>

section \<open>The chain of units\<close>

fun bseg :: "(addr \<rightharpoonup> bunit) \<Rightarrow> addr \<Rightarrow> addr list \<Rightarrow> bool" where
  "bseg U p [] \<longleftrightarrow> p = NULL"
| "bseg U p (a # ps) \<longleftrightarrow> p = a \<and> a \<noteq> NULL \<and> (\<exists>u. U a = Some u \<and> bseg U (bu_next u) ps)"

definition unit_ok :: "int \<Rightarrow> bunit \<Rightarrow> bool" where
  "unit_ok sz u \<longleftrightarrow> bu_rptr u \<le> bu_wptr u \<and> int (bu_wptr u) \<le> sz \<and> bu_size u = sz \<and> int (length (bu_data u)) = sz"

definition unit_bytes :: "bunit \<Rightarrow> byte list" where
  "unit_bytes u = take (bu_wptr u - bu_rptr u) (drop (bu_rptr u) (bu_data u))"

definition buf_rep :: "ohbuffer \<Rightarrow> addr list \<Rightarrow> bool" where
  "buf_rep b ps \<longleftrightarrow> bseg (ob_units b) (ob_head b) ps \<and> distinct ps \<and> dom (ob_units b) = set ps \<and>
     ob_unit_cnt b = int (length ps) \<and> 0 < ob_unit_size b \<and>
     (\<forall>p\<in>set ps. unit_ok (ob_unit_size b) (the (ob_units b p))) \<and>
     (ps \<noteq> [] \<longrightarrow> ob_tail b = last ps) \<and>
     (\<forall>p\<in>set (butlast ps). int (bu_wptr (the (ob_units b p))) = ob_unit_size b) \<and>
     (\<forall>p\<in>set (tl ps). bu_rptr (the (ob_units b p)) = 0)"

definition chain_bytes :: "(addr \<rightharpoonup> bunit) \<Rightarrow> addr list \<Rightarrow> byte list" where
  "chain_bytes U ps = concat (map (\<lambda>p. unit_bytes (the (U p))) ps)"

definition buf_ok :: "ohbuffer \<Rightarrow> byte list \<Rightarrow> bool" where
  "buf_ok b xs \<longleftrightarrow> (\<exists>ps. buf_rep b ps \<and> chain_bytes (ob_units b) ps = xs)"

definition good_alloc :: "allocator \<Rightarrow> bool" where
  "good_alloc al \<longleftrightarrow> (\<forall>U. finite (dom U) \<longrightarrow> al U \<noteq> NULL \<and> al U \<notin> dom U)"

lemma chain_bytes_simps [simp]:
  "chain_bytes U [] = []" "chain_bytes U (p # ps) = unit_bytes (the (U p)) @ chain_bytes U ps"
  "chain_bytes U (ps @ qs) = chain_bytes U ps @ chain_bytes U qs"
  by (simp_all add: chain_bytes_def)

lemma chain_bytes_frame: "p \<notin> set ps \<Longrightarrow> chain_bytes (U(p := x)) ps = chain_bytes U ps"
  by (auto simp: chain_bytes_def intro!: arg_cong [of _ _ concat])

lemma bseg_frame: "p \<notin> set ps \<Longrightarrow> bseg (U(p := x)) a ps = bseg U a ps"
  by (induction ps arbitrary: a) auto

lemma bseg_nz: "bseg U a ps \<Longrightarrow> p \<in> set ps \<Longrightarrow> p \<noteq> NULL \<and> p \<in> dom U"
  by (induction ps arbitrary: a) auto

lemma bseg_snoc: "bseg U a (ps @ [t]) \<Longrightarrow> bu_next (the (U t)) = NULL"
  by (induction ps arbitrary: a) auto

lemma bseg_link: "bseg U a (ps @ [t]) \<Longrightarrow> t \<notin> set ps \<Longrightarrow> U t = Some u \<Longrightarrow> q \<noteq> NULL \<Longrightarrow> q \<notin> set (ps @ [t]) \<Longrightarrow> bu_next v = NULL \<Longrightarrow>
    bseg (U(q \<mapsto> v, t \<mapsto> u\<lparr>bu_next := q\<rparr>)) a (ps @ [t, q])"
  by (induction ps arbitrary: a) auto

lemma bseg_update: "bseg U a ps \<Longrightarrow> U p = Some u \<Longrightarrow> bu_next v = bu_next u \<Longrightarrow> bseg (U(p \<mapsto> v)) a ps"
  by (induction ps arbitrary: a) auto

lemma unit_bytes_length [simp]: "unit_ok sz u \<Longrightarrow> length (unit_bytes u) = bu_wptr u - bu_rptr u"
  by (auto simp: unit_ok_def unit_bytes_def)

lemma mem_write_ok: "pos + length bs \<le> length m \<Longrightarrow> mem_write m pos bs = Some (take pos m @ bs @ drop (pos + length bs) m)"
  by (simp add: mem_write_def)

lemma mem_read_ok: "n \<le> length m - pos \<Longrightarrow> pos \<le> length m \<Longrightarrow> mem_read m pos (int n) = Some (take n (drop pos m))"
  by (simp add: mem_read_def)

lemma buf_rep_init: "0 < sz \<Longrightarrow> buf_ok (buf_init sz) []"
  by (auto simp: buf_ok_def buf_rep_def buf_init_def intro!: exI [of _ "[]"])

section \<open>Replacing a unit\<close>

text \<open>An operation on one unit keeps its link, its size and the data's length.\<close>

lemma rep_set_unit:
  assumes "buf_rep b ps" "p \<in> set ps" "ob_units b p = Some u" "bu_next v = bu_next u" "unit_ok (ob_unit_size b) v"
    "p \<in> set (butlast ps) \<Longrightarrow> bu_wptr v = bu_wptr u" "p \<in> set (tl ps) \<Longrightarrow> bu_rptr v = 0"
  shows "buf_rep (buf_set_unit b p v) ps"
  using assms bseg_update [of "ob_units b" "ob_head b" ps p u v]
  by (auto simp: buf_rep_def buf_set_unit_def)

lemma set_unit_sel [simp]:
  "ob_units (buf_set_unit b p u) = (ob_units b)(p \<mapsto> u)" "ob_head (buf_set_unit b p u) = ob_head b"
  "ob_tail (buf_set_unit b p u) = ob_tail b" "ob_unit_size (buf_set_unit b p u) = ob_unit_size b"
  "ob_unit_cnt (buf_set_unit b p u) = ob_unit_cnt b"
  by (simp_all add: buf_set_unit_def)

lemma set_unit_twice [simp]: "buf_set_unit (buf_set_unit b p u) p v = buf_set_unit b p v"
  by (simp add: buf_set_unit_def)

lemma get_set_unit [simp]: "p \<noteq> NULL \<Longrightarrow> buf_unit (buf_set_unit b p u) p = Some u"
  by (simp add: buf_unit_def)

lemma buf_unit_in: "buf_rep b ps \<Longrightarrow> p \<in> set ps \<Longrightarrow> buf_unit b p = Some (the (ob_units b p)) \<and> ob_units b p = Some (the (ob_units b p))"
  using bseg_nz [of "ob_units b" "ob_head b" ps p] by (cases "ob_units b p") (auto simp: buf_rep_def buf_unit_def)

section \<open>Reading\<close>

text \<open>What a run of unit reads leaves: \<open>n\<close> bytes less at the front, the head dropped when it is empty.\<close>

lemma drop_unit_bytes: "n \<le> bu_wptr u - bu_rptr u \<Longrightarrow> unit_bytes (u\<lparr>bu_rptr := bu_rptr u + n\<rparr>) = drop n (unit_bytes u)"
  by (simp add: unit_bytes_def drop_take add.commute)

lemma take_unit_bytes: "n \<le> bu_wptr u - bu_rptr u \<Longrightarrow> take n (drop (bu_rptr u) (bu_data u)) = take n (unit_bytes u)"
  by (simp add: unit_bytes_def min_absorb1)

lemma consume_head:
  assumes rep: "buf_rep b (p # ps)" and n: "n \<le> length (unit_bytes (the (ob_units b p)))"
  defines "u \<equiv> the (ob_units b p)"
  shows "\<exists>b' q ps'. buf_drop_empty (buf_set_unit b p (u\<lparr>bu_rptr := bu_rptr u + n\<rparr>)) p = Some (b', q) \<and> buf_rep b' ps' \<and>
     chain_bytes (ob_units b') ps' = drop n (chain_bytes (ob_units b) (p # ps)) \<and> ob_unit_size b' = ob_unit_size b \<and>
     (if n < length (unit_bytes u) then q = p \<and> ps' = p # ps else if ps = [] then q = NULL \<and> ps' = [p] else q = ob_head b' \<and> ps' = ps)"
proof -
  note R = rep [unfolded buf_rep_def]
  have u: "ob_units b p = Some u" "p \<noteq> NULL" "unit_ok (ob_unit_size b) u" "bseg (ob_units b) (bu_next u) ps"
    using R by (auto simp: u_def)
  have n': "n \<le> bu_wptr u - bu_rptr u" using n u(3) by (simp flip: u_def)
  let ?v = "u\<lparr>bu_rptr := bu_rptr u + n\<rparr>" let ?b = "buf_set_unit b p ?v"
  have v: "buf_unit ?b p = Some ?v" using u(2) by simp
  have E: "bufunit_empty ?v \<longleftrightarrow> \<not> n < length (unit_bytes u)"
    using n' u(3) by (auto simp: bufunit_empty_def unit_ok_def)
  have rest: "chain_bytes ((ob_units b)(p := x)) ps = chain_bytes (ob_units b) ps" for x
    using R by (intro chain_bytes_frame) auto
  show ?thesis
  proof (cases "n < length (unit_bytes u)")
    case True
    have "buf_rep ?b (p # ps)"
      by (rule rep_set_unit [OF rep _ u(1)]) (use u(3) n' R in \<open>auto simp: unit_ok_def\<close>)
    moreover have "buf_drop_empty ?b p = Some (?b, p)" using True E by (simp add: buf_drop_empty_def v)
    ultimately show ?thesis using True drop_unit_bytes [OF n'] rest u(1)
      by (intro exI [of _ ?b] exI [of _ p] exI [of _ "p # ps"]) simp
  next
    case False
    then have all: "n = length (unit_bytes u)" using n by (simp add: u_def)
    let ?w = "bufunit_clear ?v" let ?c = "buf_set_unit b p ?w"
    have w: "unit_bytes ?w = []" "bu_next ?w = bu_next u" "unit_ok (ob_unit_size b) ?w" "bu_next ?v = bu_next u"
      using u(3) by (auto simp: bufunit_clear_def unit_bytes_def unit_ok_def)
    show ?thesis
    proof (cases ps)
      case Nil
      have "buf_rep ?c [p]"
        by (rule rep_set_unit [OF rep [unfolded Nil] _ u(1)]) (use w in auto)
      moreover have "buf_drop_empty ?b p = Some (?c, NULL)" using False E u(4) Nil w(4) by (simp add: buf_drop_empty_def v)
      ultimately show ?thesis using False Nil w all u(1)
        by (intro exI [of _ ?c] exI [of _ NULL] exI [of _ "[p]"]) simp
    next
      case (Cons q qs)
      let ?d = "?c\<lparr>ob_head := bu_next u, ob_units := (ob_units b)(p := None), ob_unit_cnt := ob_unit_cnt b - 1\<rparr>"
      have q: "bu_next u = q" "q \<noteq> NULL" using u(4) Cons by auto
      have "buf_drop_empty ?b p = Some (?d, q)" using False E q w(4) u(2)
        by (simp add: buf_drop_empty_def v buf_remove_unit_def buf_unit_def)
      moreover have "buf_rep ?d ps"
        using R u(4) Cons bseg_frame [of p ps "ob_units b" None] by (auto simp: buf_rep_def dest: in_set_butlastD)
      ultimately show ?thesis using False rest q(1) Cons all u(1)
        by (intro exI [of _ ?d] exI [of _ q] exI [of _ ps]) simp
    qed
  qed
qed

text \<open>The caller's memory after bytes were stored at an offset.\<close>

definition put_bytes :: "byte list option \<Rightarrow> nat \<Rightarrow> byte list \<Rightarrow> byte list option" where
  "put_bytes dst off bs = map_option (\<lambda>d. take off d @ bs @ drop (off + length bs) d) dst"

definition roomy :: "byte list option \<Rightarrow> nat \<Rightarrow> bool" where
  "roomy dst n \<longleftrightarrow> (\<forall>d. dst = Some d \<longrightarrow> n \<le> length d)"

lemma put_bytes_nil [simp]: "put_bytes dst off [] = dst"
  by (cases dst) (simp_all add: put_bytes_def)

lemma roomy_put [simp]: "roomy dst (off + length bs) \<Longrightarrow> roomy (put_bytes dst off bs) n \<longleftrightarrow> roomy dst n"
  by (cases dst) (auto simp: roomy_def put_bytes_def)

lemma put_put:
  assumes "roomy dst (off + length bs)"
  shows "put_bytes (put_bytes dst off bs) (off + length bs) cs = put_bytes dst off (bs @ cs)"
proof (cases dst)
  case (Some d)
  then have "length (take off d) = off" using assms by (simp add: roomy_def)
  then show ?thesis using Some by (simp add: put_bytes_def add_ac)
qed (simp add: put_bytes_def)

lemma unit_span:
  assumes ok: "unit_ok sz u" and l: "0 \<le> left" "left \<le> dstsz"
  defines "n \<equiv> min (nat left) (length (unit_bytes u))"
  shows "min (min left dstsz) (bufunit_used u) = int n"
    and "mem_read (bu_data u) (bu_rptr u) (int n) = Some (take n (unit_bytes u))"
    and "off + nat left \<le> length d \<Longrightarrow> mem_write d off (take n (unit_bytes u)) = Some (take off d @ take n (unit_bytes u) @ drop (off + n) d)"
proof -
  have used: "bufunit_used u = int (length (unit_bytes u))"
    using unit_bytes_length [OF ok] ok by (auto simp: bufunit_used_def unit_ok_def)
  show "min (min left dstsz) (bufunit_used u) = int n" using l by (simp add: used n_def)
  have nl: "n \<le> bu_wptr u - bu_rptr u" using ok by (simp add: n_def)
  then show "mem_read (bu_data u) (bu_rptr u) (int n) = Some (take n (unit_bytes u))"
    using mem_read_ok [of n "bu_data u" "bu_rptr u"] ok by (auto simp: unit_ok_def take_unit_bytes)
  have len: "length (take n (unit_bytes u)) = n" by (simp add: n_def)
  show "mem_write d off (take n (unit_bytes u)) = Some (take off d @ take n (unit_bytes u) @ drop (off + n) d)" if "off + nat left \<le> length d"
  proof -
    have "n \<le> nat left" by (simp add: n_def)
    then have "off + length (take n (unit_bytes u)) \<le> length d" unfolding len using that by simp
    from mem_write_ok [OF this] show ?thesis unfolding len .
  qed
qed

lemma put_bytes_take:
  "n \<le> length bs \<Longrightarrow> put_bytes (Some d) off (take n bs) = Some (take off d @ take n bs @ drop (off + n) d)"
  by (simp add: put_bytes_def min_absorb2)

lemma unit_read_ok:
  assumes ok: "unit_ok sz u" and l: "0 \<le> left" "left \<le> dstsz" and r: "roomy dst (off + nat left)"
  defines "n \<equiv> min (nat left) (length (unit_bytes u))"
  shows "bufunit_read u left dst off dstsz = Some (u\<lparr>bu_rptr := bu_rptr u + n\<rparr>, int n, put_bytes dst off (take n (unit_bytes u)))"
proof -
  note s = unit_span [OF ok l, folded n_def]
  have sum: "nat (int (bu_rptr u) + int n) = bu_rptr u + n" by simp
  have n: "n \<le> length (unit_bytes u)" by (simp add: n_def)
  show ?thesis
  proof (cases dst)
    case None
    then show ?thesis by (simp add: bufunit_read_def s(1) sum put_bytes_def)
  next
    case (Some d)
    then have "off + nat left \<le> length d" using r by (simp add: roomy_def)
    then show ?thesis unfolding Some put_bytes_take [OF n] bufunit_read_def Let_def s(1) s(2)
      by (simp add: s(3) sum)
  qed
qed

lemma peek_ok:
  assumes ok: "unit_ok sz u" and l: "0 \<le> left" "left \<le> dstsz" and r: "off + nat left \<le> length d"
  defines "n \<equiv> min (nat left) (length (unit_bytes u))"
  shows "bufunit_peek u left d off dstsz = Some (int n, the (put_bytes (Some d) off (take n (unit_bytes u))))"
proof -
  note s = unit_span [OF ok l, folded n_def]
  have n: "n \<le> length (unit_bytes u)" by (simp add: n_def)
  show ?thesis unfolding put_bytes_take [OF n] bufunit_peek_def Let_def s(1) s(2) by (simp add: s(3) r)
qed

lemma read_loop:
  fixes b :: ohbuffer
  assumes "buf_rep b ps" "0 \<le> left" "left \<le> readsz" "readsz \<le> dstsz" "roomy dst (nat readsz)"
    "k = min (nat left) (length (chain_bytes (ob_units b) ps))"
  shows "\<exists>b' q ps'. while_c (\<lambda>(b, bufu, leftsz, dst). Some (bufu \<noteq> NULL \<and> leftsz \<noteq> 0)) (buf_read_step readsz dstsz) (b, ob_head b, left, dst) =
      Some (b', q, left - int k, put_bytes dst (nat (readsz - left)) (take k (chain_bytes (ob_units b) ps))) \<and>
    buf_rep b' ps' \<and> chain_bytes (ob_units b') ps' = drop k (chain_bytes (ob_units b) ps) \<and> ob_unit_size b' = ob_unit_size b"
  using assms
proof (induction ps arbitrary: b left dst k)
  case Nil
  then have "ob_head b = NULL" by (simp add: buf_rep_def)
  then show ?case using Nil by (subst while_c_stop) auto
next
  case (Cons p ps)
  note R = Cons.prems(1) [unfolded buf_rep_def]
  let ?xs = "chain_bytes (ob_units b) (p # ps)" let ?u = "the (ob_units b p)" let ?ys = "unit_bytes ?u"
  have h: "ob_head b = p" "p \<noteq> NULL" "buf_unit b p = Some ?u" and ok: "unit_ok (ob_unit_size b) ?u"
    using R buf_unit_in [OF Cons.prems(1), of p] by auto
  show ?case
  proof (cases "left = 0")
    case True
    then show ?thesis using Cons.prems by (subst while_c_stop) auto
  next
    case False
    let ?n = "min (nat left) (length ?ys)" let ?off = "nat (readsz - left)"
    let ?dst = "put_bytes dst ?off (take ?n ?ys)"
    have off: "?off + nat left = nat readsz" using Cons.prems(2,3) by simp
    obtain b' q ps' where d: "buf_drop_empty (buf_set_unit b p (?u\<lparr>bu_rptr := bu_rptr ?u + ?n\<rparr>)) p = Some (b', q)" "buf_rep b' ps'"
      "chain_bytes (ob_units b') ps' = drop ?n ?xs" "ob_unit_size b' = ob_unit_size b"
      "if ?n < length ?ys then q = p \<and> ps' = p # ps else if ps = [] then q = NULL \<and> ps' = [p] else q = ob_head b' \<and> ps' = ps"
      using consume_head [OF Cons.prems(1), of ?n] by (auto simp del: chain_bytes_simps)
    have "bufunit_read ?u left dst ?off (dstsz - readsz + left) = Some (?u\<lparr>bu_rptr := bu_rptr ?u + ?n\<rparr>, int ?n, ?dst)"
      by (rule unit_read_ok [OF ok]) (use Cons.prems off in auto)
    then have step: "buf_read_step readsz dstsz (b, ob_head b, left, dst) = Some (b', q, left - int ?n, ?dst)"
      by (simp add: buf_read_step_def h d(1))
    let ?W = "while_c (\<lambda>(b, bufu, leftsz, dst). Some (bufu \<noteq> NULL \<and> leftsz \<noteq> 0)) (buf_read_step readsz dstsz)"
    have W: "?W (b, ob_head b, left, dst) = ?W (b', q, left - int ?n, ?dst)"
      by (rule while_c_step) (use False h step in auto)
    have room: "roomy dst (?off + length (take ?n ?ys))" using Cons.prems(5) off by (auto simp: roomy_def)
    show ?thesis
    proof (cases "nat left \<le> length ?ys \<or> ps = []")
      case True
      have stop: "?W (b', q, left - int ?n, ?dst) = Some (b', q, left - int ?n, ?dst)"
        by (rule while_c_stop) (use True d(5) Cons.prems(2) in \<open>auto split: if_splits\<close>)
      have k: "k = ?n" using True Cons.prems(6) by auto
      have tk: "take ?n ?xs = take ?n ?ys" by simp
      show ?thesis unfolding W stop k tk using d(2-4) by blast
    next
      case more: False
      then have n: "?n = length ?ys" "ps \<noteq> []" and d5: "q = ob_head b'" "ps' = ps" using d(5) by auto
      have bytes: "chain_bytes (ob_units b') ps = chain_bytes (ob_units b) ps" using d(3) d5 n by simp
      let ?l = "left - int ?n" let ?k = "min (nat ?l) (length (chain_bytes (ob_units b') ps))"
      have l: "0 \<le> ?l" "?l \<le> readsz" using more Cons.prems(2,3) n by auto
      have off': "nat (readsz - ?l) = ?off + length (take ?n ?ys)" using Cons.prems(2,3) n by simp
      have rm: "roomy ?dst (nat readsz)" using Cons.prems(5) room by simp
      obtain b2 q2 ps2 where IH: "?W (b', ob_head b', ?l, ?dst) =
          Some (b2, q2, ?l - int ?k, put_bytes ?dst (nat (readsz - ?l)) (take ?k (chain_bytes (ob_units b') ps)))"
        "buf_rep b2 ps2" "chain_bytes (ob_units b2) ps2 = drop ?k (chain_bytes (ob_units b') ps)" "ob_unit_size b2 = ob_unit_size b'"
        using Cons.IH [OF d(2) [unfolded d5] l(1,2) Cons.prems(4) rm refl] by blast
      have k: "k = ?n + ?k" using Cons.prems(6) n bytes more by auto
      have tk: "take k ?xs = take ?n ?ys @ take ?k (chain_bytes (ob_units b') ps)" using k n bytes by simp
      have dk: "drop k ?xs = drop ?k (chain_bytes (ob_units b') ps)" using k n bytes by simp
      have eq: "?l - int ?k = left - int k" unfolding k of_nat_add by (rule diff_diff_eq)
      have put: "put_bytes ?dst (nat (readsz - ?l)) cs = put_bytes dst ?off (take ?n ?ys @ cs)" for cs
        unfolding off' by (rule put_put [OF room])
      show ?thesis unfolding W d5(1) IH(1) tk dk eq put using IH(2,3) IH(4) [unfolded d(4)] by blast
    qed
  qed
qed

lemma min_split:
  fixes l :: int
  assumes "0 \<le> l"
  shows "min (nat l) (y + c) = min (nat l) y + min (nat (l - int (min (nat l) y))) c"
  using assms by (cases "nat l \<le> y") auto

lemma take_split: "n = length ys \<or> n \<le> length ys \<and> m = 0 \<Longrightarrow> take (n + m) (ys @ zs) = take n ys @ take m zs"
  by auto

lemma peek_loop:
  assumes rep: "buf_rep b (qs @ ps)" and "bseg (ob_units b) a ps" "0 \<le> left" "left \<le> readsz" "readsz \<le> dstsz" "nat readsz \<le> length d"
    "k = min (nat left) (length (chain_bytes (ob_units b) ps))"
  shows "\<exists>q. while_c (\<lambda>(bufu, leftsz, dst). Some (bufu \<noteq> NULL \<and> leftsz \<noteq> 0)) (buf_peek_step b readsz dstsz) (a, left, d) =
      Some (q, left - int k, the (put_bytes (Some d) (nat (readsz - left)) (take k (chain_bytes (ob_units b) ps))))"
  using assms
proof (induction ps arbitrary: qs a left d k)
  case Nil
  then show ?case by (subst while_c_stop) auto
next
  case (Cons p ps)
  let ?u = "the (ob_units b p)" let ?ys = "unit_bytes ?u"
  have h: "a = p" "p \<noteq> NULL" "buf_unit b p = Some ?u" "unit_ok (ob_unit_size b) ?u" "bseg (ob_units b) (bu_next ?u) ps"
    using Cons.prems(2) buf_unit_in [OF Cons.prems(1), of p] Cons.prems(1) by (auto simp: buf_rep_def)
  show ?case
  proof (cases "left = 0")
    case True
    then show ?thesis using Cons.prems by (subst while_c_stop) auto
  next
    case False
    let ?n = "min (nat left) (length ?ys)" let ?off = "nat (readsz - left)" let ?l = "left - int ?n"
    let ?d = "the (put_bytes (Some d) ?off (take ?n ?ys))"
    have "?off + nat left = nat readsz" using Cons.prems(3,4) by simp
    then have room: "?off + length (take ?n ?ys) \<le> length d" "?off + nat left \<le> length d" using Cons.prems(6) by auto
    have "bufunit_peek ?u left d ?off (dstsz - readsz + left) = Some (int ?n, ?d)"
      by (rule peek_ok [OF h(4)]) (use Cons.prems room in auto)
    then have step: "buf_peek_step b readsz dstsz (a, left, d) = Some (bu_next ?u, ?l, ?d)"
      by (simp add: buf_peek_step_def h)
    let ?k = "min (nat ?l) (length (chain_bytes (ob_units b) ps))"
    have l: "0 \<le> ?l" "?l \<le> readsz" using Cons.prems(3,4) by auto
    have len: "nat readsz \<le> length ?d" using room(1) Cons.prems(6) by (auto simp: put_bytes_def)
    have rq: "buf_rep b ((qs @ [p]) @ ps)" using Cons.prems(1) by simp
    obtain q where IH: "while_c (\<lambda>(bufu, leftsz, dst). Some (bufu \<noteq> NULL \<and> leftsz \<noteq> 0)) (buf_peek_step b readsz dstsz) (bu_next ?u, ?l, ?d) =
        Some (q, ?l - int ?k, the (put_bytes (Some ?d) (nat (readsz - ?l)) (take ?k (chain_bytes (ob_units b) ps))))"
      using Cons.IH [OF rq h(5) l Cons.prems(5) len refl] by blast
    have k: "k = ?n + ?k" using Cons.prems(7) min_split [OF Cons.prems(3)] by simp
    have "?n = length ?ys \<or> ?n \<le> length ?ys \<and> ?k = 0" by (cases "nat left \<le> length ?ys") auto
    from take_split [OF this] have tk: "take k (chain_bytes (ob_units b) (p # ps)) = take ?n ?ys @ take ?k (chain_bytes (ob_units b) ps)"
      unfolding k by simp
    have put: "put_bytes (Some ?d) (nat (readsz - ?l)) cs = put_bytes (Some d) ?off (take ?n ?ys @ cs)" for cs
    proof -
      have "nat (readsz - ?l) = ?off + length (take ?n ?ys)" using Cons.prems(3,4) by simp
      moreover have "Some ?d = put_bytes (Some d) ?off (take ?n ?ys)" by (simp add: put_bytes_def)
      ultimately show ?thesis using put_put [of "Some d" ?off "take ?n ?ys"] room(1) by (simp add: roomy_def)
    qed
    have eq: "?l - int ?k = left - int k" unfolding k of_nat_add by (rule diff_diff_eq)
    let ?W = "while_c (\<lambda>(bufu, leftsz, dst). Some (bufu \<noteq> NULL \<and> leftsz \<noteq> 0)) (buf_peek_step b readsz dstsz)"
    have W: "?W (a, left, d) = ?W (bu_next ?u, ?l, ?d)" by (rule while_c_step) (use False h(1,2) step in auto)
    show ?thesis unfolding W IH tk put eq by blast
  qed
qed

section \<open>Making room and appending\<close>

lemma first_unit_ok:
  assumes al: "good_alloc al" and rep: "buf_rep b ps"
  shows "\<exists>ps'. buf_rep (buf_first_unit al g b) ps' \<and> ps' \<noteq> [] \<and>
    chain_bytes (ob_units (buf_first_unit al g b)) ps' = chain_bytes (ob_units b) ps \<and> ob_unit_size (buf_first_unit al g b) = ob_unit_size b"
proof (cases ps)
  case Nil
  note R = rep [unfolded buf_rep_def Nil]
  have U: "ob_units b = Map.empty" using R by simp
  have p: "al (ob_units b) \<noteq> NULL" using al by (simp add: good_alloc_def U)
  have "buf_rep (buf_first_unit al g b) [al (ob_units b)] \<and> chain_bytes (ob_units (buf_first_unit al g b)) [al (ob_units b)] = [] \<and>
      ob_unit_size (buf_first_unit al g b) = ob_unit_size b"
    using R p by (auto simp: buf_first_unit_def buf_get_unit_def Let_def buf_rep_def buf_set_unit_def bufunit_clear_def unit_ok_def unit_bytes_def U)
  then show ?thesis using Nil by (intro exI [of _ "[al (ob_units b)]"]) simp
next
  case (Cons p qs)
  then have "buf_first_unit al g b = b" using rep by (auto simp: buf_rep_def buf_first_unit_def)
  then show ?thesis using rep Cons by auto
qed

lemma rep_snoc:
  assumes rep: "buf_rep b (ps @ [t])"
  shows "ob_tail b = t" "t \<noteq> NULL" "buf_unit b t = Some (the (ob_units b t))" "ob_units b t = Some (the (ob_units b t))"
    "unit_ok (ob_unit_size b) (the (ob_units b t))" "bu_next (the (ob_units b t)) = NULL" "t \<notin> set ps" "finite (dom (ob_units b))"
    "bseg (ob_units b) (ob_head b) (ps @ [t])"
  using rep buf_unit_in [OF rep, of t] bseg_snoc [of "ob_units b" "ob_head b" ps t] bseg_nz [of "ob_units b" "ob_head b" "ps @ [t]" t]
  by (auto simp: buf_rep_def)

lemma tl_snoc: "set (tl (ps @ [t, p])) = insert p (set (tl (ps @ [t])))"
  by (cases ps) auto

lemma grow_tail_ok:
  assumes al: "good_alloc al" and rep: "buf_rep b (ps @ [t])"
  shows "\<exists>b' ps' t'. buf_grow_tail al g b = Some b' \<and> buf_rep b' (ps' @ [t']) \<and> chain_bytes (ob_units b') (ps' @ [t']) = chain_bytes (ob_units b) (ps @ [t]) \<and>
    0 < bufunit_left (the (ob_units b' t')) \<and> ob_unit_size b' = ob_unit_size b"
proof -
  obtain u where u: "ob_units b t = Some u" using rep_snoc(4) [OF rep] by blast
  note s = rep_snoc [OF rep, unfolded u option.sel]
  let ?u = u
  have nn: "0 \<le> bufunit_left ?u" using s(5) by (simp add: unit_ok_def bufunit_left_def)
  show ?thesis
  proof (cases "bufunit_left ?u = 0")
    case False
    then have "buf_grow_tail al g b = Some b" by (simp add: buf_grow_tail_def s(1,3))
    then show ?thesis using rep False nn by (intro exI [of _ b] exI [of _ ps] exI [of _ t]) (simp add: u)
  next
    case True
    let ?p = "al (ob_units b)"
    have p: "?p \<noteq> NULL" "?p \<notin> dom (ob_units b)" using al s(8) by (auto simp: good_alloc_def)
    have D: "dom (ob_units b) = set (ps @ [t])" using rep by (simp add: buf_rep_def)
    have pn: "?p \<notin> set (ps @ [t])" "?p \<noteq> t" using p(2) D by auto
    let ?v = "\<lparr>bu_next = NULL, bu_rptr = 0, bu_wptr = 0, bu_size = ob_unit_size b, bu_data = map g [0..<nat (ob_unit_size b)]\<rparr>"
    let ?U = "(ob_units b)(?p \<mapsto> ?v, t \<mapsto> ?u\<lparr>bu_next := ?p\<rparr>)"
    let ?b = "b\<lparr>ob_units := ?U, ob_unit_cnt := ob_unit_cnt b + 1, ob_tail := ?p\<rparr>"
    have g: "buf_get_unit al g b = (buf_set_unit b ?p ?v\<lparr>ob_unit_cnt := ob_unit_cnt b + 1\<rparr>, ?p)"
      using p(1) by (simp add: buf_get_unit_def bufunit_clear_def Let_def)
    have "buf_grow_tail al g b = Some ?b"
      using True s(2) pn(2) by (simp add: buf_grow_tail_def s(1) g buf_unit_def buf_set_unit_def u)
    moreover have "bseg ?U (ob_head b) (ps @ [t, ?p])"
      by (rule bseg_link) (use u s(7,9) p(1) pn(1) in auto)
    then have "buf_rep ?b ((ps @ [t]) @ [?p])"
      using rep pn True s(5,7) D u by (auto simp: tl_snoc buf_rep_def unit_ok_def bufunit_left_def butlast_append)
    moreover have "chain_bytes ?U ((ps @ [t]) @ [?p]) = chain_bytes (ob_units b) (ps @ [t])"
      using pn s(7) by (simp add: chain_bytes_frame unit_bytes_def u)
    moreover have "0 < bufunit_left (the (?U ?p))" using pn(2) rep by (simp add: bufunit_left_def buf_rep_def)
    ultimately show ?thesis by (intro exI [of _ ?b] exI [of _ "ps @ [t]"] exI [of _ ?p]) simp
  qed
qed

lemma fill_tail:
  assumes rep: "buf_rep b (ps @ [t])" and n: "int (length bs) \<le> bufunit_left (the (ob_units b t))"
  defines "u \<equiv> the (ob_units b t)"
  shows "\<exists>d. mem_write (bu_data u) (bu_wptr u) bs = Some d \<and> buf_rep (buf_set_unit b t (u\<lparr>bu_data := d, bu_wptr := bu_wptr u + length bs\<rparr>)) (ps @ [t]) \<and>
    chain_bytes ((ob_units b)(t \<mapsto> u\<lparr>bu_data := d, bu_wptr := bu_wptr u + length bs\<rparr>)) (ps @ [t]) = chain_bytes (ob_units b) (ps @ [t]) @ bs"
proof -
  note s = rep_snoc [OF rep, folded u_def]
  have room: "bu_wptr u + length bs \<le> length (bu_data u)" using n s(5) by (auto simp: unit_ok_def bufunit_left_def u_def)
  let ?d = "take (bu_wptr u) (bu_data u) @ bs @ drop (bu_wptr u + length bs) (bu_data u)"
  let ?v = "u\<lparr>bu_data := ?d, bu_wptr := bu_wptr u + length bs\<rparr>"
  have "unit_bytes ?v = unit_bytes u @ bs"
    using s(5) room by (cases bs) (auto simp: unit_bytes_def unit_ok_def take_drop min_def)
  moreover have "buf_rep (buf_set_unit b t ?v) (ps @ [t])"
  proof (rule rep_set_unit [OF rep _ s(4)])
    show "unit_ok (ob_unit_size b) ?v" using s(5) room by (auto simp: unit_ok_def)
    show "t \<in> set (tl (ps @ [t])) \<Longrightarrow> bu_rptr ?v = 0" using rep by (auto simp: buf_rep_def u_def)
    show "t \<in> set (butlast (ps @ [t])) \<Longrightarrow> bu_wptr ?v = bu_wptr u" using s(7) by simp
  qed simp_all
  ultimately show ?thesis using mem_write_ok [OF room] s(4,7) by (simp add: chain_bytes_frame)
qed

end
