(* ===== verification/BufferQueue.thy ===== *)
theory BufferQueue
  imports BufferSpec
begin

text \<open>
  The operations of \<^verbatim>\<open>ohev/buffer.c\<close> as operations on a queue of bytes, their contract, and what a client
  of the contract sees: the bytes read are the bytes written, in order.
\<close>

section \<open>Writing\<close>

lemma chain_snoc: "buf_rep b ps \<Longrightarrow> ps \<noteq> [] \<Longrightarrow> \<exists>qs t. ps = qs @ [t]"
  by (metis append_butlast_last_id)

lemma read_slice:
  assumes "0 \<le> w" "w + int n \<le> int (length src)"
  shows "mem_read src (nat w) (int n) = Some (take n (drop (nat w) src))"
  using assms by (auto simp: mem_read_def)

lemma write_step:
  assumes al: "good_alloc al" and rep: "buf_rep b ps" "ps \<noteq> []" and w: "0 \<le> w" "w < int (length src)"
  shows "\<exists>b' ps' n. buf_write_step al g src (int (length src)) (b, w) = Some (b', w + int n) \<and> buf_rep b' ps' \<and> ps' \<noteq> [] \<and> 0 < n \<and>
     w + int n \<le> int (length src) \<and> chain_bytes (ob_units b') ps' = chain_bytes (ob_units b) ps @ take n (drop (nat w) src) \<and>
     ob_unit_size b' = ob_unit_size b"
proof -
  obtain qs t where ps: "ps = qs @ [t]" using chain_snoc [OF rep] by blast
  obtain b1 ps1 t1 where g: "buf_grow_tail al g b = Some b1" "buf_rep b1 (ps1 @ [t1])" "chain_bytes (ob_units b1) (ps1 @ [t1]) = chain_bytes (ob_units b) ps"
    "0 < bufunit_left (the (ob_units b1 t1))" "ob_unit_size b1 = ob_unit_size b"
    using grow_tail_ok [OF al, of b qs t g] rep ps by blast
  note s = rep_snoc [OF g(2)]
  let ?u = "the (ob_units b1 t1)" let ?n = "nat (min (int (length src) - w) (bufunit_left ?u))"
  let ?bs = "take ?n (drop (nat w) src)"
  have n: "0 < ?n" "w + int ?n \<le> int (length src)" "int ?n = min (int (length src) - w) (bufunit_left ?u)" using w g(4) by auto
  have len: "length ?bs = ?n" using n(2) w(1) by auto
  have rd: "mem_read src (nat w) (min (int (length src) - w) (bufunit_left ?u)) = Some ?bs"
  proof -
    have "mem_read src (nat w) (int ?n) = Some ?bs" by (rule read_slice [OF w(1) n(2)])
    then show ?thesis by (simp only: n(3))
  qed
  obtain d where d: "mem_write (bu_data ?u) (bu_wptr ?u) ?bs = Some d"
    "buf_rep (buf_set_unit b1 t1 (?u\<lparr>bu_data := d, bu_wptr := bu_wptr ?u + length ?bs\<rparr>)) (ps1 @ [t1])"
    "chain_bytes ((ob_units b1)(t1 \<mapsto> ?u\<lparr>bu_data := d, bu_wptr := bu_wptr ?u + length ?bs\<rparr>)) (ps1 @ [t1]) = chain_bytes (ob_units b1) (ps1 @ [t1]) @ ?bs"
    using fill_tail [OF g(2), of ?bs] len n(3) by auto
  have bw: "bufunit_write ?u src (nat w) (int (length src) - w) = Some (?u\<lparr>bu_data := d, bu_wptr := bu_wptr ?u + length ?bs\<rparr>, int ?n)"
    unfolding bufunit_write_def Let_def rd len using d(1) n(3) by simp
  have "buf_write_step al g src (int (length src)) (b, w) =
      Some (buf_set_unit b1 t1 (?u\<lparr>bu_data := d, bu_wptr := bu_wptr ?u + length ?bs\<rparr>), w + int ?n)"
    unfolding buf_write_step_def split g(1) Option.bind.simps s(1,3) bw by simp
  then show ?thesis using d(2,3) g(3,5) n(1,2)
    by (intro exI [of _ "buf_set_unit b1 t1 (?u\<lparr>bu_data := d, bu_wptr := bu_wptr ?u + length ?bs\<rparr>)"] exI [of _ "ps1 @ [t1]"] exI [of _ ?n])
      (simp only: set_unit_sel, simp)
qed

lemma write_loop:
  assumes "good_alloc al" "buf_rep b ps" "ps \<noteq> []" "0 \<le> w" "w \<le> int (length src)"
  shows "\<exists>b' ps'. while_c (\<lambda>(b, w). Some (w < int (length src))) (buf_write_step al g src (int (length src))) (b, w) = Some (b', int (length src)) \<and>
    buf_rep b' ps' \<and> chain_bytes (ob_units b') ps' = chain_bytes (ob_units b) ps @ drop (nat w) src \<and> ob_unit_size b' = ob_unit_size b"
  using assms(2-)
proof (induction "nat (int (length src) - w)" arbitrary: b ps w rule: less_induct)
  case less
  let ?W = "while_c (\<lambda>(b, w). Some (w < int (length src))) (buf_write_step al g src (int (length src)))"
  show ?case
  proof (cases "w < int (length src)")
    case False
    then have w: "w = int (length src)" using less.prems by simp
    have "?W (b, w) = Some (b, w)" by (rule while_c_stop) (simp add: w)
    then show ?thesis using w less.prems(1) by auto
  next
    case True
    obtain b1 ps1 n where s: "buf_write_step al g src (int (length src)) (b, w) = Some (b1, w + int n)" "buf_rep b1 ps1" "ps1 \<noteq> []" "0 < n"
      "w + int n \<le> int (length src)" "chain_bytes (ob_units b1) ps1 = chain_bytes (ob_units b) ps @ take n (drop (nat w) src)" "ob_unit_size b1 = ob_unit_size b"
      using write_step [OF assms(1) less.prems(1-3) True, of g] by blast
    have W: "?W (b, w) = ?W (b1, w + int n)" by (rule while_c_step) (use True s(1) in auto)
    have "nat (int (length src) - (w + int n)) < nat (int (length src) - w)" "0 \<le> w + int n" using True s(4) less.prems(3) by auto
    from less.hyps [OF this(1) s(2,3) this(2) s(5)] obtain b2 ps2 where
      h: "?W (b1, w + int n) = Some (b2, int (length src))" "buf_rep b2 ps2"
        "chain_bytes (ob_units b2) ps2 = chain_bytes (ob_units b1) ps1 @ drop (nat (w + int n)) src" "ob_unit_size b2 = ob_unit_size b1" by blast
    have "drop (nat (w + int n)) src = drop n (drop (nat w) src)" using less.prems(3) by (simp add: nat_add_distrib add.commute)
    then have "chain_bytes (ob_units b2) ps2 = chain_bytes (ob_units b) ps @ drop (nat w) src"
      unfolding h(3) s(6) append_assoc by (simp only: append_take_drop_id)
    then show ?thesis unfolding W h(1) using h(2) h(4) [unfolded s(7)] by blast
  qed
qed

lemma buf_write_ok:
  assumes "good_alloc al" "buf_ok b xs"
  shows "\<exists>b'. buf_write al g b src (int (length src)) = Some (b', int (length src)) \<and> buf_ok b' (xs @ src) \<and> ob_unit_size b' = ob_unit_size b"
proof -
  obtain ps where ps: "buf_rep b ps" "chain_bytes (ob_units b) ps = xs" using assms(2) by (auto simp: buf_ok_def)
  obtain ps1 where f: "buf_rep (buf_first_unit al g b) ps1" "ps1 \<noteq> []" "chain_bytes (ob_units (buf_first_unit al g b)) ps1 = xs"
    "ob_unit_size (buf_first_unit al g b) = ob_unit_size b"
    using first_unit_ok [OF assms(1) ps(1), of g] ps(2) by auto
  from write_loop [OF assms(1) f(1,2), of 0 src g] f(3,4) show ?thesis by (auto simp: buf_write_def buf_ok_def)
qed

section \<open>Reading\<close>

lemma buf_read_ok:
  assumes "buf_ok b xs" "0 \<le> min readsz dstsz" "roomy dst (nat (min readsz dstsz))"
  defines "k \<equiv> min (nat (min readsz dstsz)) (length xs)"
  shows "\<exists>b'. buf_read b readsz dst dstsz = Some (b', int k, put_bytes dst 0 (take k xs)) \<and> buf_ok b' (drop k xs) \<and> ob_unit_size b' = ob_unit_size b"
proof -
  obtain ps where ps: "buf_rep b ps" "chain_bytes (ob_units b) ps = xs" using assms(1) by (auto simp: buf_ok_def)
  let ?m = "min readsz dstsz"
  obtain b' q ps' where "while_c (\<lambda>(b, bufu, leftsz, dst). Some (bufu \<noteq> NULL \<and> leftsz \<noteq> 0)) (buf_read_step ?m dstsz) (b, ob_head b, ?m, dst) =
      Some (b', q, ?m - int k, put_bytes dst (nat (?m - ?m)) (take k xs))"
    "buf_rep b' ps'" "chain_bytes (ob_units b') ps' = drop k xs" "ob_unit_size b' = ob_unit_size b"
    using read_loop [OF ps(1) assms(2) order_refl, of dstsz dst k] assms(3) ps(2) by (auto simp: k_def)
  then show ?thesis by (auto simp: buf_read_def buf_ok_def)
qed

lemma buf_peek_ok:
  assumes "buf_ok b xs" "0 \<le> min readsz dstsz" "nat (min readsz dstsz) \<le> length d"
  defines "k \<equiv> min (nat (min readsz dstsz)) (length xs)"
  shows "buf_peek b readsz d dstsz = Some (int k, take k xs @ drop k d)"
proof -
  obtain ps where ps: "buf_rep b ps" "chain_bytes (ob_units b) ps = xs" using assms(1) by (auto simp: buf_ok_def)
  let ?m = "min readsz dstsz"
  have "bseg (ob_units b) (ob_head b) ps" using ps(1) by (simp add: buf_rep_def)
  from peek_loop [of b "[]" ps, OF _ this assms(2) order_refl, of dstsz d k] obtain q where
    "while_c (\<lambda>(bufu, leftsz, dst). Some (bufu \<noteq> NULL \<and> leftsz \<noteq> 0)) (buf_peek_step b ?m dstsz) (ob_head b, ?m, d) =
      Some (q, ?m - int k, the (put_bytes (Some d) (nat (?m - ?m)) (take k xs)))"
    using ps assms(3) by (auto simp: k_def)
  then show ?thesis by (simp add: buf_peek_def put_bytes_def k_def Let_def)
qed

lemma full_chain:
  "\<forall>p\<in>set ps. unit_ok sz (the (U p)) \<and> int (bu_wptr (the (U p))) = sz \<and> bu_rptr (the (U p)) = 0 \<Longrightarrow>
    int (length (chain_bytes U ps)) = int (length ps) * sz"
  by (induction ps) (auto simp: distrib_right)

lemma buf_used_ok:
  assumes "buf_ok b xs"
  shows "buf_used b = Some (int (length xs))"
proof -
  obtain ps where ps: "buf_rep b ps" "chain_bytes (ob_units b) ps = xs" using assms by (auto simp: buf_ok_def)
  have used: "bufunit_used (the (ob_units b p)) = int (length (unit_bytes (the (ob_units b p))))" if "p \<in> set ps" for p
  proof -
    have "unit_ok (ob_unit_size b) (the (ob_units b p))" using ps(1) that by (simp add: buf_rep_def)
    from unit_bytes_length [OF this] this show ?thesis by (auto simp: bufunit_used_def unit_ok_def)
  qed
  note get = conjunct1 [OF buf_unit_in [OF ps(1)]]
  consider "ps = []" | p where "ps = [p]" | p qs t where "ps = p # qs @ [t]"
    by (metis append_butlast_last_id neq_Nil_conv)
  then show ?thesis
  proof cases
    case 1
    then show ?thesis using ps by (simp add: buf_rep_def buf_used_def)
  next
    case (2 p)
    then have "ob_head b = p" "p \<noteq> NULL" "ob_unit_cnt b = 1" using ps(1) by (auto simp: buf_rep_def)
    then show ?thesis using 2 get [of p] used [of p] ps(2) by (simp add: buf_used_def)
  next
    case (3 p qs t)
    have h: "ob_head b = p" "p \<noteq> NULL" "ob_unit_cnt b = int (length qs) + 2" "ob_tail b = t" using ps(1) 3 by (auto simp: buf_rep_def)
    have mid: "\<forall>q\<in>set qs. unit_ok (ob_unit_size b) (the (ob_units b q)) \<and> int (bu_wptr (the (ob_units b q))) = ob_unit_size b \<and> bu_rptr (the (ob_units b q)) = 0"
      using ps(1) 3 by (simp add: buf_rep_def butlast_append)
    have "buf_unit b p = Some (the (ob_units b p))" "buf_unit b t = Some (the (ob_units b t))" using get 3 by auto
    then show ?thesis using 3 h used [of p] used [of t] full_chain [OF mid] ps(2) [symmetric] by (simp add: buf_used_def)
  qed
qed

end
