(* ===== verification/BufferIo.thy ===== *)
theory BufferIo
  imports BufferQueue
begin

text \<open>
  Buffers between a program and a descriptor: what is received is appended, what is sent is taken from the front;
  and the properties of \<^verbatim>\<open>ohev/buffer.c\<close>.
\<close>

section \<open>Receiving\<close>

text \<open>The bytes a descriptor will still deliver, and the answers up to the first that is not bytes.\<close>

fun pending :: "byte list io_result list \<Rightarrow> byte list" where
  "pending [] = []"
| "pending (IoOk bs # rs) = bs @ pending rs"
| "pending (r # rs) = pending rs"

lemma retry_pending:
  "retry_eintr rs = (Some bs, rs') \<Longrightarrow> pending rs = bs @ pending rs'"
  "retry_eintr rs = (None, rs') \<Longrightarrow> pending rs = pending rs'"
  by (induction rs rule: retry_eintr.induct) auto

lemma recv_pending:
  assumes "fd_recv rs k = (r, rs')"
  shows "pending rs = (case r of None \<Rightarrow> [] | Some bs \<Rightarrow> bs) @ pending rs'"
    and "r = Some bs \<Longrightarrow> length bs \<le> k"
proof -
  obtain q qs where q: "retry_eintr rs = (q, qs)" by fastforce
  show "pending rs = (case r of None \<Rightarrow> [] | Some bs \<Rightarrow> bs) @ pending rs'"
    using assms q retry_pending(1) [of rs _ qs] retry_pending(2) [of rs qs] by (cases q) (auto simp: fd_recv_def split: if_splits)
  show "r = Some bs \<Longrightarrow> length bs \<le> k"
    using assms q by (cases q) (auto simp: fd_recv_def split: if_splits)
qed

lemma fd_read_step:
  assumes al: "good_alloc al" and rep: "buf_rep b ps" "ps \<noteq> []"
  shows "\<exists>b' ps' rs' ret bs. buf_fd_read_step al g (b, n0, rs, None) = Some (b', n0 + int (length bs), rs', ret) \<and> buf_rep b' ps' \<and> ps' \<noteq> [] \<and>
     chain_bytes (ob_units b') ps' = chain_bytes (ob_units b) ps @ bs \<and> pending rs = bs @ pending rs' \<and> (ret = None \<longrightarrow> bs \<noteq> []) \<and>
     (\<forall>r. ret = Some r \<longrightarrow> r \<in> {- 1, 0, n0 + int (length bs)}) \<and> ob_unit_size b' = ob_unit_size b"
proof -
  obtain qs t where ps: "ps = qs @ [t]" using chain_snoc [OF rep] by blast
  obtain b1 ps1 t1 where g: "buf_grow_tail al g b = Some b1" "buf_rep b1 (ps1 @ [t1])" "chain_bytes (ob_units b1) (ps1 @ [t1]) = chain_bytes (ob_units b) ps"
    "0 < bufunit_left (the (ob_units b1 t1))" "ob_unit_size b1 = ob_unit_size b"
    using grow_tail_ok [OF al, of b qs t g] rep ps by blast
  note s = rep_snoc [OF g(2)]
  let ?u = "the (ob_units b1 t1)"
  obtain r rs' where r: "fd_recv rs (nat (bufunit_left ?u)) = (r, rs')" by fastforce
  note pend = recv_pending [OF r]
  note start = buf_fd_read_step_def split g(1) Option.bind.simps s(1,3) r
  show ?thesis
  proof (cases r)
    case None
    then have "buf_fd_read_step al g (b, n0, rs, None) = Some (b1, n0 + int (length []), rs', Some (- 1))"
      unfolding start by simp
    then show ?thesis using g(2,3,5) pend(1) None
      by (intro exI [of _ b1] exI [of _ "ps1 @ [t1]"] exI [of _ rs'] exI [of _ "Some (- 1)"] exI [of _ "[]"]) auto
  next
    case (Some bs)
    show ?thesis
    proof (cases "bs = []")
      case True
      then have "buf_fd_read_step al g (b, n0, rs, None) = Some (b1, n0 + int (length []), rs', Some 0)"
        unfolding start Some by simp
      then show ?thesis using g(2,3,5) pend(1) Some True
        by (intro exI [of _ b1] exI [of _ "ps1 @ [t1]"] exI [of _ rs'] exI [of _ "Some 0"] exI [of _ "[]"]) auto
    next
      case False
      have "int (length bs) \<le> bufunit_left ?u" using pend(2) [OF Some] g(4) by simp
      from fill_tail [OF g(2) this] obtain d where d: "mem_write (bu_data ?u) (bu_wptr ?u) bs = Some d"
        "buf_rep (buf_set_unit b1 t1 (?u\<lparr>bu_data := d, bu_wptr := bu_wptr ?u + length bs\<rparr>)) (ps1 @ [t1])"
        "chain_bytes ((ob_units b1)(t1 \<mapsto> ?u\<lparr>bu_data := d, bu_wptr := bu_wptr ?u + length bs\<rparr>)) (ps1 @ [t1]) = chain_bytes (ob_units b1) (ps1 @ [t1]) @ bs"
        by blast
      let ?v = "?u\<lparr>bu_data := d, bu_wptr := bu_wptr ?u + length bs\<rparr>"
      have "bufunit_fill ?u bs = Some ?v" by (simp add: bufunit_fill_def d(1))
      then have "buf_fd_read_step al g (b, n0, rs, None) =
          Some (buf_set_unit b1 t1 ?v, n0 + int (length bs), rs', if bufunit_left ?v > 0 then Some (n0 + int (length bs)) else None)"
        unfolding start Some using False by (simp add: Let_def)
      then show ?thesis using d(2,3) g(3,5) pend(1) Some False
        by (intro exI [of _ "buf_set_unit b1 t1 ?v"] exI [of _ "ps1 @ [t1]"] exI [of _ rs']
            exI [of _ "if bufunit_left ?v > 0 then Some (n0 + int (length bs)) else None"] exI [of _ bs]) auto
    qed
  qed
qed

lemma fd_read_loop:
  assumes "good_alloc al" "buf_rep b ps" "ps \<noteq> []"
  shows "\<exists>b' ps' rs' ret bs. while_c (\<lambda>(b, readsz, rs, ret). Some (ret = None)) (buf_fd_read_step al g) (b, n0, rs, None) =
       Some (b', n0 + int (length bs), rs', Some ret) \<and> buf_rep b' ps' \<and> chain_bytes (ob_units b') ps' = chain_bytes (ob_units b) ps @ bs \<and>
     pending rs = bs @ pending rs' \<and> ret \<in> {- 1, 0, n0 + int (length bs)} \<and> ob_unit_size b' = ob_unit_size b"
  using assms(2,3)
proof (induction "length (pending rs)" arbitrary: b ps rs n0 rule: less_induct)
  case less
  let ?W = "while_c (\<lambda>(b, readsz, rs, ret). Some (ret = None)) (buf_fd_read_step al g)"
  obtain b1 ps1 rs1 ret bs where s: "buf_fd_read_step al g (b, n0, rs, None) = Some (b1, n0 + int (length bs), rs1, ret)" "buf_rep b1 ps1" "ps1 \<noteq> []"
     "chain_bytes (ob_units b1) ps1 = chain_bytes (ob_units b) ps @ bs" "pending rs = bs @ pending rs1" "ret = None \<longrightarrow> bs \<noteq> []"
     "\<forall>r. ret = Some r \<longrightarrow> r \<in> {- 1, 0, n0 + int (length bs)}" "ob_unit_size b1 = ob_unit_size b"
    using fd_read_step [OF assms(1) less.prems, of g n0 rs] by blast
  have W: "?W (b, n0, rs, None) = ?W (b1, n0 + int (length bs), rs1, ret)" by (rule while_c_step) (use s(1) in auto)
  show ?case
  proof (cases ret)
    case (Some r)
    have "?W (b1, n0 + int (length bs), rs1, ret) = Some (b1, n0 + int (length bs), rs1, Some r)"
      unfolding Some by (rule while_c_stop) simp
    then show ?thesis unfolding W using s(2,4,5,7,8) Some by blast
  next
    case None
    then have "length (pending rs1) < length (pending rs)" using s(5,6) by simp
    from less.hyps [OF this s(2,3), of "n0 + int (length bs)"] obtain b2 ps2 rs2 r2 cs where
      h: "?W (b1, n0 + int (length bs), rs1, None) = Some (b2, n0 + int (length bs) + int (length cs), rs2, Some r2)" "buf_rep b2 ps2"
       "chain_bytes (ob_units b2) ps2 = chain_bytes (ob_units b1) ps1 @ cs" "pending rs1 = cs @ pending rs2"
       "r2 \<in> {- 1, 0, n0 + int (length bs) + int (length cs)}" "ob_unit_size b2 = ob_unit_size b1" by blast
    have "n0 + int (length bs) + int (length cs) = n0 + int (length (bs @ cs))" by simp
    then show ?thesis unfolding W None h(1)
      using h(2,3,4,5,6) s(4,5,8) by (intro exI [of _ b2] exI [of _ ps2] exI [of _ rs2] exI [of _ r2] exI [of _ "bs @ cs"]) auto
  qed
qed

lemma fd_read_ok:
  assumes "good_alloc al" "buf_ok b xs"
  shows "\<exists>b' ret bs rs'. buf_fd_read al g b rs = Some (b', ret, int (length bs), rs') \<and> buf_ok b' (xs @ bs) \<and>
    pending rs = bs @ pending rs' \<and> ret \<in> {- 1, 0, int (length bs)} \<and> ob_unit_size b' = ob_unit_size b"
proof -
  obtain ps where ps: "buf_rep b ps" "chain_bytes (ob_units b) ps = xs" using assms(2) by (auto simp: buf_ok_def)
  obtain ps1 where f: "buf_rep (buf_first_unit al g b) ps1" "ps1 \<noteq> []" "chain_bytes (ob_units (buf_first_unit al g b)) ps1 = xs"
    "ob_unit_size (buf_first_unit al g b) = ob_unit_size b"
    using first_unit_ok [OF assms(1) ps(1), of g] ps(2) by auto
  obtain qs t where qt: "ps1 = qs @ [t]" using chain_snoc [OF f(1,2)] by blast
  obtain b2 qs2 t2 where g: "buf_grow_tail al g (buf_first_unit al g b) = Some b2" "buf_rep b2 (qs2 @ [t2])"
    "chain_bytes (ob_units b2) (qs2 @ [t2]) = xs" "ob_unit_size b2 = ob_unit_size b"
    using grow_tail_ok [OF assms(1) f(1) [unfolded qt], of g] f(3,4) qt by metis
  obtain b' ps' rs' ret bs where "while_c (\<lambda>(b, readsz, rs, ret). Some (ret = None)) (buf_fd_read_step al g) (b2, 0, rs, None) =
       Some (b', 0 + int (length bs), rs', Some ret)" "buf_rep b' ps'" "chain_bytes (ob_units b') ps' = chain_bytes (ob_units b2) (qs2 @ [t2]) @ bs"
     "pending rs = bs @ pending rs'" "ret \<in> {- 1, 0, 0 + int (length bs)}" "ob_unit_size b' = ob_unit_size b2"
    using fd_read_loop [OF assms(1) g(2), of g 0 rs] by blast
  then show ?thesis using g by (intro exI [of _ b'] exI [of _ ret] exI [of _ bs] exI [of _ rs']) (auto simp: buf_fd_read_def buf_ok_def)
qed

section \<open>Sending\<close>

lemma head_nz: "buf_rep b ps \<Longrightarrow> ob_head b = NULL \<longleftrightarrow> ps = []"
  by (cases ps) (auto simp: buf_rep_def)

lemma retry_shorter: "retry_eintr rs = (Some n, rs') \<Longrightarrow> length rs' < length rs"
  by (induction rs rule: retry_eintr.induct) auto

lemma fd_write_loop:
  assumes "buf_rep b ps"
  shows "\<exists>b' q n rs' ret ps'. while_c (\<lambda>(b, bufu, wrtsz, sent, rs, ret). Some (bufu \<noteq> NULL \<and> ret = None)) buf_fd_write_step (b, ob_head b, w, sent, rs, None) =
       Some (b', q, w + int n, sent @ take n (chain_bytes (ob_units b) ps), rs', ret) \<and> buf_rep b' ps' \<and> n \<le> length (chain_bytes (ob_units b) ps) \<and>
     chain_bytes (ob_units b') ps' = drop n (chain_bytes (ob_units b) ps) \<and>
     (ret = None \<and> n = length (chain_bytes (ob_units b) ps) \<or> ret = Some (- 1)) \<and> ob_unit_size b' = ob_unit_size b"
  using assms
proof (induction "length rs" arbitrary: b ps w sent rs rule: less_induct)
  case less
  let ?W = "while_c (\<lambda>(b, bufu, wrtsz, sent, rs, ret). Some (bufu \<noteq> NULL \<and> ret = None)) buf_fd_write_step"
  let ?xs = "chain_bytes (ob_units b) ps"
  show ?case
  proof (cases ps)
    case Nil
    then have "ob_head b = NULL" using less.prems by (simp add: buf_rep_def)
    then have "?W (b, ob_head b, w, sent, rs, None) = Some (b, NULL, w + int 0, sent @ take 0 ?xs, rs, None)"
      by (subst while_c_stop) auto
    then show ?thesis using less.prems Nil by (intro exI [of _ b] exI [of _ NULL] exI [of _ 0] exI [of _ rs] exI [of _ None] exI [of _ "[]"]) auto
  next
    case (Cons p qs)
    note rep = less.prems [unfolded Cons]
    let ?u = "the (ob_units b p)" let ?ys = "unit_bytes ?u"
    have h: "ob_head b = p" "p \<noteq> NULL" "buf_unit b p = Some ?u" and ok: "unit_ok (ob_unit_size b) ?u"
      using rep buf_unit_in [OF rep, of p] by (auto simp: buf_rep_def)
    have used: "nat (bufunit_used ?u) = length ?ys" using unit_bytes_length [OF ok] by (simp add: bufunit_used_def)
    obtain r rs1 where r: "retry_eintr rs = (r, rs1)" by fastforce
    show ?thesis
    proof (cases r)
      case None
      then have s: "buf_fd_write_step (b, ob_head b, w, sent, rs, None) = Some (b, p, w, sent, rs1, Some (- 1))"
        by (simp add: buf_fd_write_step_def h fd_send_def r)
      have "?W (b, ob_head b, w, sent, rs, None) = Some (b, p, w + int 0, sent @ take 0 ?xs, rs1, Some (- 1))"
      proof -
        have "?W (b, ob_head b, w, sent, rs, None) = ?W (b, p, w, sent, rs1, Some (- 1))"
          by (rule while_c_step) (use h s in auto)
        then show ?thesis by (simp add: while_c_stop)
      qed
      then show ?thesis using less.prems by (intro exI [of _ b] exI [of _ p] exI [of _ 0] exI [of _ rs1] exI [of _ "Some (- 1)"] exI [of _ ps]) auto
    next
      case (Some m)
      let ?n = "min m (length ?ys)"
      obtain b' q ps' where d: "buf_drop_empty (buf_set_unit b p (?u\<lparr>bu_rptr := bu_rptr ?u + ?n\<rparr>)) p = Some (b', q)" "buf_rep b' ps'"
        "chain_bytes (ob_units b') ps' = drop ?n ?xs" "ob_unit_size b' = ob_unit_size b"
        "if ?n < length ?ys then q = p \<and> ps' = p # qs else if qs = [] then q = NULL \<and> ps' = [p] else q = ob_head b' \<and> ps' = qs"
        using consume_head [OF rep, of ?n] unfolding Cons by (auto simp del: chain_bytes_simps)
      have nl: "?n \<le> bu_wptr ?u - bu_rptr ?u" using ok by simp
      then have rd: "mem_read (bu_data ?u) (bu_rptr ?u) (int ?n) = Some (take ?n ?ys)"
        using mem_read_ok [of ?n "bu_data ?u" "bu_rptr ?u"] ok by (auto simp: unit_ok_def take_unit_bytes)
      have sd: "fd_send rs (nat (bufunit_used ?u)) = (Some ?n, rs1)" unfolding used by (simp add: fd_send_def r Some)
      have s: "buf_fd_write_step (b, ob_head b, w, sent, rs, None) = Some (b', q, w + int ?n, sent @ take ?n ?ys, rs1, None)"
        unfolding buf_fd_write_step_def split h(1,3) Option.bind.simps sd prod.case option.case rd Let_def d(1) by simp
      have W: "?W (b, ob_head b, w, sent, rs, None) = ?W (b', q, w + int ?n, sent @ take ?n ?ys, rs1, None)"
        by (rule while_c_step) (use h s in auto)
      have tk: "take ?n ?xs = take ?n ?ys" "?n \<le> length ?xs" by (auto simp: Cons)
      show ?thesis
      proof (cases "q = NULL")
        case True
        then have n: "?n = length ?ys" "qs = []" "ps' = [p]"
          using d(2,5) h(2) head_nz [OF d(2)] by (auto split: if_splits)
        have "?W (b', q, w + int ?n, sent @ take ?n ?ys, rs1, None) = Some (b', q, w + int ?n, sent @ take ?n ?xs, rs1, None)"
          unfolding tk(1) by (rule while_c_stop) (simp add: True)
        moreover have "?n = length ?xs" using n by (simp add: Cons)
        ultimately show ?thesis unfolding W using d(2,3,4) tk(2) by blast
      next
        case False
        then have q: "q = ob_head b'" using d(2,5) by (cases "?n < length ?ys") (auto simp: buf_rep_def split: if_splits)
        have "length rs1 < length rs" using retry_shorter [OF r [unfolded Some]] .
        from less.hyps [OF this d(2), of "w + int ?n" "sent @ take ?n ?ys"] obtain b2 q2 n2 rs2 ret ps2 where
          i: "?W (b', ob_head b', w + int ?n, sent @ take ?n ?ys, rs1, None) =
            Some (b2, q2, w + int ?n + int n2, (sent @ take ?n ?ys) @ take n2 (chain_bytes (ob_units b') ps'), rs2, ret)" "buf_rep b2 ps2"
            "n2 \<le> length (chain_bytes (ob_units b') ps')" "chain_bytes (ob_units b2) ps2 = drop n2 (chain_bytes (ob_units b') ps')"
            "ret = None \<and> n2 = length (chain_bytes (ob_units b') ps') \<or> ret = Some (- 1)" "ob_unit_size b2 = ob_unit_size b'" by blast
        have e1: "w + int ?n + int n2 = w + int (?n + n2)" by simp
        have e2: "(sent @ take ?n ?ys) @ take n2 (drop ?n ?xs) = sent @ take (?n + n2) ?xs" unfolding take_add tk(1) by simp
        have e3: "chain_bytes (ob_units b2) ps2 = drop (?n + n2) ?xs" unfolding i(4) d(3) by (simp add: add.commute)
        have e4: "?n + n2 \<le> length ?xs" using i(3) tk(2) unfolding d(3) length_drop by arith
        have e5: "ret = None \<and> ?n + n2 = length ?xs \<or> ret = Some (- 1)" using i(5) tk(2) unfolding d(3) length_drop by arith
        show ?thesis unfolding W q i(1) d(3) e1 e2 using i(2) e3 e4 e5 i(6) [unfolded d(4)] by blast
      qed
    qed
  qed
qed

lemma fd_write_ok:
  assumes "buf_ok b xs"
  shows "\<exists>b' ret n rs'. buf_fd_write b rs = Some (b', ret, int n, take n xs, rs') \<and> buf_ok b' (drop n xs) \<and> n \<le> length xs \<and>
    (ret = int n \<and> n = length xs \<or> ret = - 1) \<and> ob_unit_size b' = ob_unit_size b"
proof -
  obtain ps where ps: "buf_rep b ps" "chain_bytes (ob_units b) ps = xs" using assms by (auto simp: buf_ok_def)
  from fd_write_loop [OF ps(1), of 0 "[]" rs] obtain b' q n rs' ret ps' where
    "while_c (\<lambda>(b, bufu, wrtsz, sent, rs, ret). Some (bufu \<noteq> NULL \<and> ret = None)) buf_fd_write_step (b, ob_head b, 0, [], rs, None) =
      Some (b', q, 0 + int n, [] @ take n xs, rs', ret)" "buf_rep b' ps'" "n \<le> length xs" "chain_bytes (ob_units b') ps' = drop n xs"
      "ret = None \<and> n = length xs \<or> ret = Some (- 1)" "ob_unit_size b' = ob_unit_size b" unfolding ps(2) by blast
  then show ?thesis
    by (intro exI [of _ b'] exI [of _ "case ret of None \<Rightarrow> int n | Some r \<Rightarrow> r"] exI [of _ n] exI [of _ rs']) (auto simp: buf_fd_write_def buf_ok_def)
qed

section \<open>The contract\<close>

text \<open>A client puts bytes in and takes a number of bytes out.\<close>

datatype queue_op = QPut "byte list" | QGet nat

primrec queue_run :: "('b \<Rightarrow> byte list \<Rightarrow> 'b option) \<Rightarrow> ('b \<Rightarrow> nat \<Rightarrow> ('b \<times> byte list) option) \<Rightarrow> queue_op list \<Rightarrow> 'b \<Rightarrow> ('b \<times> byte list) option" where
  "queue_run wrt rdt [] b = Some (b, [])"
| "queue_run wrt rdt (op # ops) b = (case op of
     QPut bs \<Rightarrow> do { b \<leftarrow> wrt b bs; queue_run wrt rdt ops b }
   | QGet n \<Rightarrow> do { (b, out) \<leftarrow> rdt b n; (b, outs) \<leftarrow> queue_run wrt rdt ops b; Some (b, out @ outs) })"

primrec queue_puts :: "queue_op list \<Rightarrow> byte list" where
  "queue_puts [] = []"
| "queue_puts (op # ops) = (case op of QPut bs \<Rightarrow> bs | QGet n \<Rightarrow> []) @ queue_puts ops"

locale byte_queue =
  fixes holds :: "'b \<Rightarrow> byte list \<Rightarrow> bool"
    and wrt :: "'b \<Rightarrow> byte list \<Rightarrow> 'b option"
    and rdt :: "'b \<Rightarrow> nat \<Rightarrow> ('b \<times> byte list) option"
  assumes wrt: "holds b xs \<Longrightarrow> \<exists>b'. wrt b bs = Some b' \<and> holds b' (xs @ bs)"
    and rdt: "holds b xs \<Longrightarrow> \<exists>b'. rdt b n = Some (b', take n xs) \<and> holds b' (drop n xs)"
begin

lemma run_fifo:
  assumes "holds b xs"
  shows "\<exists>b' out left. queue_run wrt rdt ops b = Some (b', out) \<and> holds b' left \<and> out @ left = xs @ queue_puts ops"
  using assms
proof (induction ops arbitrary: b xs)
  case Nil
  then show ?case by auto
next
  case (Cons op ops)
  show ?case
  proof (cases op)
    case (QPut bs)
    obtain b' where "wrt b bs = Some b'" "holds b' (xs @ bs)" using wrt [OF Cons.prems] by blast
    with Cons.IH [OF this(2)] QPut show ?thesis by auto
  next
    case (QGet n)
    obtain b' where b': "rdt b n = Some (b', take n xs)" "holds b' (drop n xs)" using rdt [OF Cons.prems] by blast
    obtain b2 out left where r: "queue_run wrt rdt ops b' = Some (b2, out)" "holds b2 left" "out @ left = drop n xs @ queue_puts ops"
      using Cons.IH [OF b'(2)] by blast
    have "(take n xs @ out) @ left = xs @ queue_puts (op # ops)" using r(3) QGet by simp
    then show ?thesis using b' r(1,2) QGet by (intro exI [of _ b2] exI [of _ "take n xs @ out"] exI [of _ left]) simp
  qed
qed

end

text \<open>The operations a connection uses, on memory of exactly the size it asks for.\<close>

definition buf_put :: "allocator \<Rightarrow> (nat \<Rightarrow> byte) \<Rightarrow> ohbuffer \<Rightarrow> byte list \<Rightarrow> ohbuffer option" where
  "buf_put al g b bs = map_option fst (buf_write al g b bs (int (length bs)))"

definition buf_take :: "ohbuffer \<Rightarrow> nat \<Rightarrow> (ohbuffer \<times> byte list) option" where
  "buf_take b n = do {
     (b, k, dst) \<leftarrow> buf_read b (int n) (Some (replicate n 0)) (int n);
     d \<leftarrow> dst;
     Some (b, take (nat k) d) }"

locale buffer_alloc =
  fixes al :: allocator and g :: "nat \<Rightarrow> byte"
  assumes good: "good_alloc al"

lemma buf_take_ok: "buf_ok b xs \<Longrightarrow> \<exists>b'. buf_take b n = Some (b', take n xs) \<and> buf_ok b' (drop n xs)"
  using buf_read_ok [of b xs "int n" "int n" "Some (replicate n 0)"]
  by (auto simp: buf_take_def roomy_def put_bytes_def min_def split: if_splits)

sublocale buffer_alloc \<subseteq> queue: byte_queue buf_ok "buf_put al g" buf_take
proof
  show "\<exists>b'. buf_put al g b bs = Some b' \<and> buf_ok b' (xs @ bs)" if "buf_ok b xs" for b xs bs
    using buf_write_ok [OF good that, of g bs] by (auto simp: buf_put_def)
qed (rule buf_take_ok)

context buffer_alloc
begin

lemma fifo: "buf_ok b xs \<Longrightarrow> \<exists>b' out left. queue_run (buf_put al g) buf_take ops b = Some (b', out) \<and> buf_ok b' left \<and> out @ left = xs @ queue_puts ops"
  by (rule queue.run_fifo)

end

text \<open>An allocator that takes the address after the highest one in use.\<close>

definition next_addr :: allocator where
  "next_addr U = Suc (Max (insert 0 (dom U)))"

lemma next_addr_good: "good_alloc next_addr"
  unfolding good_alloc_def next_addr_def
proof (intro allI impI conjI)
  fix U :: "addr \<rightharpoonup> bunit" assume "finite (dom U)"
  then have "x \<le> Max (insert 0 (dom U))" if "x \<in> dom U" for x using that by simp
  then show "Suc (Max (insert 0 (dom U))) \<notin> dom U" using Suc_n_not_le_n by blast
qed simp

interpretation next_alloc: buffer_alloc next_addr "\<lambda>_. 0"
  by unfold_locales (rule next_addr_good)

section \<open>Properties\<close>

text \<open>\<^verbatim>\<open>buf_write\<close> stores all the bytes behind those the buffer holds, growing it unit by unit, when memory can be
  allocated; it returns their number, and \<^verbatim>\<open>buf_used\<close> is the number of bytes held.\<close>

theorem buf_write_appends:
  assumes "good_alloc al" "buf_ok b xs"
  shows "\<exists>b'. buf_write al g b src (int (length src)) = Some (b', int (length src)) \<and> buf_ok b' (xs @ src) \<and>
    buf_used b' = Some (int (length xs + length src))"
proof -
  obtain b' where b': "buf_write al g b src (int (length src)) = Some (b', int (length src))" "buf_ok b' (xs @ src)"
    using buf_write_ok [OF assms, of g src] by blast
  from buf_used_ok [OF b'(2)] b' show ?thesis unfolding length_append by blast
qed

lemma buf_write_appends_witness:
  "\<exists>b'. buf_write next_addr (\<lambda>_. 7) (buf_init 2) [1, 2, 3] 3 = Some (b', 3) \<and> buf_ok b' [1, 2, 3] \<and> buf_used b' = Some 3"
proof -
  have "buf_ok (buf_init 2) []" by (rule buf_rep_init) simp
  from buf_write_appends [OF next_addr_good this, of "\<lambda>_. 7" "[1, 2, 3]"]
  obtain b' where "buf_write next_addr (\<lambda>_. 7) (buf_init 2) [1, 2, 3] (int (length [1, 2, 3 :: byte])) = Some (b', int (length [1, 2, 3 :: byte]))"
    "buf_ok b' ([] @ [1, 2, 3])" "buf_used b' = Some (int (length ([] :: byte list) + length [1, 2, 3 :: byte]))" by blast
  moreover have "int (length [1, 2, 3 :: byte]) = 3" "int (length ([] :: byte list) + length [1, 2, 3 :: byte]) = 3" by simp_all
  ultimately show ?thesis by (metis append_Nil)
qed

text \<open>\<^verbatim>\<open>buf_read\<close> and \<^verbatim>\<open>buf_peek\<close> return the first bytes, as many as are asked for, fit the target and are held,
  and store them at the start of the target; reading removes them, peeking does not.\<close>

theorem buf_read_takes:
  assumes "buf_ok b xs" "0 \<le> min readsz dstsz" "nat (min readsz dstsz) \<le> length d" "k = min (nat (min readsz dstsz)) (length xs)"
  shows "buf_peek b readsz d dstsz = Some (int k, take k xs @ drop k d) \<and>
    (\<exists>b'. buf_read b readsz (Some d) dstsz = Some (b', int k, Some (take k xs @ drop k d)) \<and> buf_ok b' (drop k xs))"
proof -
  have "put_bytes (Some d) 0 (take k xs) = Some (take k xs @ drop k d)" using assms(4) by (simp add: put_bytes_def)
  moreover have "roomy (Some d) (nat (min readsz dstsz))" using assms(3) by (simp add: roomy_def)
  ultimately show ?thesis
    using buf_read_ok [OF assms(1,2), of "Some d", folded assms(4)] buf_peek_ok [OF assms(1-3), folded assms(4)] by auto
qed

definition buf_demo :: ohbuffer where
  "buf_demo = \<lparr>ob_units = [5 \<mapsto> \<lparr>bu_next = 6, bu_rptr = 1, bu_wptr = 2, bu_size = 2, bu_data = [1, 2]\<rparr>,
       6 \<mapsto> \<lparr>bu_next = NULL, bu_rptr = 0, bu_wptr = 1, bu_size = 2, bu_data = [3, 9]\<rparr>],
     ob_unit_size = 2, ob_unit_cnt = 2, ob_head = 5, ob_tail = 6\<rparr>"

lemma buf_demo_ok: "buf_ok buf_demo [2, 3]"
  unfolding buf_ok_def
  by (rule exI [of _ "[5, 6]"]) (auto simp: buf_demo_def buf_rep_def unit_ok_def unit_bytes_def)

lemma buf_read_takes_witness: "\<exists>b'. buf_read buf_demo 5 (Some [0, 0, 0]) 3 = Some (b', 2, Some [2, 3, 0]) \<and> buf_ok b' []"
proof -
  have k: "0 \<le> min 5 (3 :: int)" "nat (min 5 3) \<le> length [0, 0, 0 :: byte]" "2 = min (nat (min 5 3)) (length [2, 3 :: byte])" by simp_all
  have e: "take 2 [2, 3 :: byte] @ drop 2 [0, 0, 0] = [2, 3, 0]" "drop 2 [2, 3 :: byte] = []" "int 2 = 2" by simp_all
  from buf_read_takes [OF buf_demo_ok k] show ?thesis unfolding e by blast
qed



text \<open>\<^verbatim>\<open>buf_fd_write\<close> sends the first bytes in order, removes exactly those, counts them in \<^verbatim>\<open>*wrtsz\<close> and ends; unless the
  descriptor refuses, it sends everything.\<close>

theorem buf_fd_write_sends:
  assumes "buf_ok b xs"
  shows "\<exists>b' ret n rs'. buf_fd_write b rs = Some (b', ret, int n, take n xs, rs') \<and> buf_ok b' (drop n xs) \<and> n \<le> length xs \<and>
    (ret = int n \<and> n = length xs \<or> ret = - 1)"
  using fd_write_ok [OF assms] by blast

lemma buf_fd_write_sends_witness:
  "\<exists>b' ret n rs'. buf_fd_write buf_demo [IoOk 1, IoEintr, IoErr] = Some (b', ret, int n, take n [2, 3], rs') \<and> buf_ok b' (drop n [2, 3])"
  using buf_fd_write_sends [OF buf_demo_ok, of "[IoOk 1, IoEintr, IoErr]"] by blast

text \<open>C12: over any sequence of writes and reads on a buffer, the bytes read, followed by those still in the buffer, are the
  bytes it held at first followed by the bytes written: nothing is lost, duplicated or reordered.\<close>

theorem buf_fifo:
  assumes "good_alloc al" "buf_ok b xs"
  shows "\<exists>b' out left. queue_run (buf_put al g) buf_take ops b = Some (b', out) \<and> buf_ok b' left \<and> out @ left = xs @ queue_puts ops"
  by (rule buffer_alloc.fifo [OF buffer_alloc.intro [OF assms(1)] assms(2)])

lemma buf_fifo_witness:
  "\<exists>b' out left. queue_run (buf_put next_addr (\<lambda>_. 0)) buf_take [QGet 1, QPut [7, 8, 9], QGet 3] buf_demo = Some (b', out) \<and>
    out @ left = [2, 3, 7, 8, 9] \<and> buf_ok b' left"
  using buf_fifo [OF next_addr_good buf_demo_ok, of "\<lambda>_. 0" "[QGet 1, QPut [7, 8, 9], QGet 3]"] by auto

end
