(* ===== verification/Splst.thy ===== *)
theory Splst
  imports Prelude
begin

text \<open>
  The intrusive singly linked lists of \<^verbatim>\<open>ohutil/container.h\<close>. The links are a store from the address of an
  element to its \<^verbatim>\<open>next\<close> field; a list is its head. Following a link of something that is not allocated fails.
\<close>

type_synonym links = "addr \<rightharpoonup> addr"

definition splst_next :: "links \<Rightarrow> addr \<Rightarrow> addr option" where
  "splst_next nx p = (if p = NULL then None else nx p)"

definition splst_add :: "links \<Rightarrow> addr \<Rightarrow> addr \<Rightarrow> (links \<times> addr) option" where
  "splst_add nx head elm = do {
     old \<leftarrow> splst_next nx elm;
     Some (nx(elm \<mapsto> head), elm) }"

text \<open>\<^verbatim>\<open>_spe\<close> points to the head or to the \<^verbatim>\<open>next\<close> field of an element.\<close>

datatype splst_ref = RHead | RNext addr

definition splst_deref :: "links \<Rightarrow> addr \<Rightarrow> splst_ref \<Rightarrow> addr option" where
  "splst_deref nx head r = (case r of RHead \<Rightarrow> Some head | RNext p \<Rightarrow> splst_next nx p)"

definition splst_del_cond :: "links \<Rightarrow> addr \<Rightarrow> addr \<Rightarrow> splst_ref \<Rightarrow> bool option" where
  "splst_del_cond nx head elm r = do { p \<leftarrow> splst_deref nx head r; Some (p \<noteq> NULL \<and> p \<noteq> elm) }"

definition splst_del_step :: "links \<Rightarrow> addr \<Rightarrow> splst_ref \<Rightarrow> splst_ref option" where
  "splst_del_step nx head r = do { p \<leftarrow> splst_deref nx head r; c_assert (p \<noteq> NULL); Some (RNext p) }"

definition splst_del :: "links \<Rightarrow> addr \<Rightarrow> addr \<Rightarrow> (links \<times> addr) option" where
  "splst_del nx head elm = do {
     r \<leftarrow> while_c (splst_del_cond nx head elm) (splst_del_step nx head) RHead;
     p \<leftarrow> splst_deref nx head r;
     if p \<noteq> NULL then do {
       q \<leftarrow> splst_next nx elm;
       Some (case r of RHead \<Rightarrow> (nx, q) | RNext a \<Rightarrow> (nx(a \<mapsto> q), head)) }
     else Some (nx, head) }"

definition splst_len :: "links \<Rightarrow> addr \<Rightarrow> nat option" where
  "splst_len nx head = do {
     (p, n) \<leftarrow> while_c (\<lambda>(p, n). Some (p \<noteq> NULL)) (\<lambda>(p, n). do { q \<leftarrow> splst_next nx p; Some (q, n + 1) }) (head, 0);
     Some n }"

section \<open>Lists\<close>

fun lseg :: "links \<Rightarrow> addr \<Rightarrow> addr list \<Rightarrow> bool" where
  "lseg nx p [] \<longleftrightarrow> p = NULL"
| "lseg nx p (x # xs) \<longleftrightarrow> p = x \<and> x \<noteq> NULL \<and> (\<exists>q. nx x = Some q \<and> lseg nx q xs)"

lemma lseg_frame: "a \<notin> set xs \<Longrightarrow> lseg (nx(a \<mapsto> v)) p xs = lseg nx p xs"
  by (induction xs arbitrary: p) auto

lemma lseg_cong: "(\<And>x. x \<in> set xs \<Longrightarrow> nx' x = nx x) \<Longrightarrow> lseg nx p xs \<Longrightarrow> lseg nx' p xs"
  by (induction xs arbitrary: p) auto

lemma lseg_nz: "lseg nx p xs \<Longrightarrow> x \<in> set xs \<Longrightarrow> x \<noteq> NULL \<and> x \<in> dom nx"
  by (induction xs arbitrary: p) auto

lemma lseg_relink:
  assumes "lseg nx p (xs @ a # ys)" "distinct (xs @ a # ys)" "lseg nx q zs" "set zs \<subseteq> set ys"
  shows "lseg (nx(a \<mapsto> q)) p (xs @ a # zs)"
  using assms
proof (induction xs arbitrary: p)
  case Nil
  then have "a \<notin> set zs" by auto
  then have "lseg (nx(a \<mapsto> q)) q zs" using lseg_frame [of a zs nx q q] Nil(3) by simp
  moreover have "p = a" "a \<noteq> NULL" using Nil(1) by auto
  ultimately show ?case by (auto simp del: fun_upd_apply simp: fun_upd_same)
qed auto

lemma lseg_suffix: "lseg nx p (xs @ a # ys) \<Longrightarrow> \<exists>q. nx a = Some q \<and> lseg nx q ys \<and> a \<noteq> NULL"
  by (induction xs arbitrary: p) auto

lemma add_ok: "lseg nx head xs \<Longrightarrow> elm \<notin> set xs \<Longrightarrow> elm \<noteq> NULL \<Longrightarrow> elm \<in> dom nx \<Longrightarrow>
    splst_add nx head elm = Some (nx(elm \<mapsto> head), elm) \<and> lseg (nx(elm \<mapsto> head)) elm (elm # xs)"
  by (auto simp: splst_add_def splst_next_def lseg_frame)

text \<open>The walk stops at the reference to the element, or at the last one.\<close>

lemma del_walk:
  assumes "lseg nx head (xs @ ys)" "elm \<notin> set xs" "splst_deref nx head r = Some p" "lseg nx p ys"
    "r = (if xs = [] then RHead else RNext (last xs))"
  shows "\<exists>r' p' zs. while_c (splst_del_cond nx head elm) (splst_del_step nx head) r = Some r' \<and> splst_deref nx head r' = Some p' \<and>
     (if elm \<in> set ys then p' = elm else p' = NULL) \<and> r' = (if xs @ zs = [] then RHead else RNext (last (xs @ zs))) \<and>
     zs = takeWhile (\<lambda>y. y \<noteq> elm) ys"
  using assms
proof (induction ys arbitrary: xs r p)
  case Nil
  then have "splst_del_cond nx head elm r = Some False" by (simp add: splst_del_cond_def)
  then show ?case using Nil by (simp add: while_c_stop)
next
  case (Cons y ys)
  show ?case
  proof (cases "y = elm")
    case True
    then have "splst_del_cond nx head elm r = Some False" using Cons.prems by (simp add: splst_del_cond_def)
    then show ?thesis using Cons.prems True by (simp add: while_c_stop)
  next
    case False
    have p: "p = y" "y \<noteq> NULL" using Cons.prems(4) by auto
    obtain q where q: "nx y = Some q" "lseg nx q ys" using Cons.prems(4) by auto
    have c: "splst_del_cond nx head elm r = Some True" using Cons.prems(3) p False by (simp add: splst_del_cond_def)
    have s: "splst_del_step nx head r = Some (RNext y)" using Cons.prems(3) p by (simp add: splst_del_step_def)
    have d: "splst_deref nx head (RNext y) = Some q" using q(1) p(2) by (simp add: splst_deref_def splst_next_def)
    have e: "RNext y = (if xs @ [y] = [] then RHead else RNext (last (xs @ [y])))" by simp
    obtain r' p' zs where IH: "while_c (splst_del_cond nx head elm) (splst_del_step nx head) (RNext y) = Some r'" "splst_deref nx head r' = Some p'"
      "if elm \<in> set ys then p' = elm else p' = NULL" "r' = (if (xs @ [y]) @ zs = [] then RHead else RNext (last ((xs @ [y]) @ zs)))"
      "zs = takeWhile (\<lambda>y. y \<noteq> elm) ys"
      using Cons.IH [OF _ _ d q(2) e] Cons.prems(1,2) False by auto
    show ?thesis using while_c_step [of "splst_del_cond nx head elm" r "splst_del_step nx head", OF c s] IH False
      by (intro exI [of _ r'] exI [of _ p'] exI [of _ "y # zs"]) auto
  qed
qed

lemma first_at: "x \<in> set xs \<Longrightarrow> \<exists>ys. xs = takeWhile (\<lambda>y. y \<noteq> x) xs @ x # ys"
  by (induction xs) auto

lemma del_ok:
  assumes seg: "lseg nx head xs" and dist: "distinct xs"
  shows "\<exists>nx' head'. splst_del nx head elm = Some (nx', head') \<and> lseg nx' head' (remove1 elm xs) \<and> dom nx' = dom nx \<and>
    (\<forall>a. a \<notin> set xs \<longrightarrow> nx' a = nx a)"
proof -
  obtain r p zs where w: "while_c (splst_del_cond nx head elm) (splst_del_step nx head) RHead = Some r" "splst_deref nx head r = Some p"
      "if elm \<in> set xs then p = elm else p = NULL" "r = (if zs = [] then RHead else RNext (last zs))" "zs = takeWhile (\<lambda>y. y \<noteq> elm) xs"
    using del_walk [of nx head "[]" xs elm RHead head] seg by (auto simp: splst_deref_def)
  show ?thesis
  proof (cases "elm \<in> set xs")
    case False
    then show ?thesis using w seg by (intro exI [of _ nx] exI [of _ head]) (simp add: splst_del_def remove1_idem)
  next
    case True
    then obtain ys where xs: "xs = zs @ elm # ys"
      using first_at [of elm xs] w(5) by auto
    have nz: "elm \<notin> set zs" using w(5) by (metis (mono_tags, lifting) set_takeWhileD)
    obtain q where q: "nx elm = Some q" "lseg nx q ys" "elm \<noteq> NULL" using lseg_suffix [OF seg [unfolded xs]] by blast
    have r1: "remove1 elm xs = zs @ ys" using nz by (simp add: xs remove1_append)
    show ?thesis
    proof (cases zs rule: rev_cases)
      case Nil
      then have "splst_del nx head elm = Some (nx, q)" using w True q by (simp add: splst_del_def splst_next_def)
      then show ?thesis using r1 Nil q by auto
    next
      case (snoc us a)
      then have "splst_del nx head elm = Some (nx(a \<mapsto> q), head)" using w True q by (simp add: splst_del_def splst_next_def)
      moreover have "lseg (nx(a \<mapsto> q)) head (us @ a # ys)"
        by (rule lseg_relink [of _ _ _ _ "elm # ys"]) (use seg dist xs snoc q in auto)
      moreover have "a \<in> dom nx" "a \<in> set xs" using lseg_nz [OF seg, of a] xs snoc by auto
      ultimately show ?thesis using r1 snoc by auto
    qed
  qed
qed

lemma len_ok:
  assumes "lseg nx head xs"
  shows "splst_len nx head = Some (length xs)"
proof -
  have "while_c (\<lambda>(p, n). Some (p \<noteq> NULL)) (\<lambda>(p, n). do { q \<leftarrow> splst_next nx p; Some (q, n + 1) }) (head, n) = Some (NULL, n + length xs)" for n
    using assms
  proof (induction xs arbitrary: head n)
    case Nil
    then show ?case by (simp add: while_c_stop)
  next
    case (Cons x xs)
    then obtain q where q: "head = x" "x \<noteq> NULL" "nx x = Some q" "lseg nx q xs" by auto
    have "while_c (\<lambda>(p, n). Some (p \<noteq> NULL)) (\<lambda>(p, n). do { q \<leftarrow> splst_next nx p; Some (q, n + 1) }) (head, n) =
        while_c (\<lambda>(p, n). Some (p \<noteq> NULL)) (\<lambda>(p, n). do { q \<leftarrow> splst_next nx p; Some (q, n + 1) }) (q, n + 1)"
      by (rule while_c_step) (use q in \<open>auto simp: splst_next_def\<close>)
    with Cons.IH [OF q(4), of "n + 1"] show ?case by simp
  qed
  from this [of 0] show ?thesis by (simp add: splst_len_def)
qed

section \<open>Properties\<close>

text \<open>Adding, deleting and counting on the links are the operations on the list of elements: \<^verbatim>\<open>splst_add\<close> puts an
  element in front, \<^verbatim>\<open>splst_del\<close> removes it and only it wherever it is, and does nothing when it is absent.\<close>

theorem splst_refines:
  assumes "lseg nx head xs" "distinct xs" "elm \<in> dom nx" "elm \<noteq> NULL"
  shows "(elm \<notin> set xs \<longrightarrow> (\<exists>nx'. splst_add nx head elm = Some (nx', elm) \<and> lseg nx' elm (elm # xs))) \<and>
    (\<exists>nx' head'. splst_del nx head elm = Some (nx', head') \<and> lseg nx' head' (remove1 elm xs)) \<and> splst_len nx head = Some (length xs)"
  using add_ok [OF assms(1) _ assms(4,3)] del_ok [OF assms(1,2), of elm] len_ok [OF assms(1)] by blast

lemma splst_refines_witness: "\<exists>nx' head'. splst_del [5 \<mapsto> 6, 6 \<mapsto> 7, 7 \<mapsto> 0] 5 6 = Some (nx', head') \<and> lseg nx' head' [5, 7]"
  using splst_refines [of "[5 \<mapsto> 6, 6 \<mapsto> 7, 7 \<mapsto> 0]" 5 "[5, 6, 7]" 6] by auto

end
