(* ===== verification/Objpool.thy ===== *)
theory Objpool
  imports Splst
begin

text \<open>
  The object pool of \<^verbatim>\<open>ohutil/objpool.c\<close>: objects are cut from blocks of \<open>blksize\<close> objects of \<open>objsize\<close> bytes, and the
  free ones are kept in a list through their own \<^verbatim>\<open>next\<close> field. The lock only serialises the calls: the
  locked and the unlocked variant do the same to the pool.
\<close>

record objpool =
  op_next :: links
  op_free :: addr
  op_objsize :: nat
  op_blksize :: nat
  op_blkcnt :: nat
  op_blks :: "(addr \<times> addr) list"

text \<open>A block is its address and the address of its data; the blocks are a list with the newest first.\<close>

definition objpool_init :: "nat \<Rightarrow> nat \<Rightarrow> objpool" where
  "objpool_init blksz objsz = \<lparr>op_next = Map.empty, op_free = NULL, op_objsize = objsz, op_blksize = blksz, op_blkcnt = 0, op_blks = []\<rparr>"

text \<open>The memory objects and blocks occupy, as the addresses that are passed to \<^verbatim>\<open>free\<close>, in order.\<close>

definition objpool_destroy :: "objpool \<Rightarrow> addr list" where
  "objpool_destroy opool = concat (map (\<lambda>(blk, data). [data, blk]) (op_blks opool))"

text \<open>The loop that puts the objects of a new block on the free list; their \<^verbatim>\<open>next\<close> fields are new memory.\<close>

primrec objpool_add_all :: "nat \<Rightarrow> addr \<Rightarrow> nat \<Rightarrow> links \<times> addr \<Rightarrow> (links \<times> addr) option" where
  "objpool_add_all objsz obj 0 s = Some s"
| "objpool_add_all objsz obj (Suc n) s = (case s of (nx, head) \<Rightarrow> do {
     s \<leftarrow> splst_add nx head obj;
     objpool_add_all objsz (obj + objsz) n s })"

definition new_links :: "links \<Rightarrow> addr \<Rightarrow> nat \<Rightarrow> nat \<Rightarrow> (addr \<Rightarrow> addr) \<Rightarrow> links" where
  "new_links nx data objsz n m p = (if \<exists>i<n. p = data + i * objsz then Some (m p) else nx p)"

text \<open>\<open>blk\<close> and \<open>data\<close> are what the allocations return and \<open>m\<close> is what the new memory holds in the \<^verbatim>\<open>next\<close> fields.\<close>

definition objpool_get_obj_nolock :: "objpool \<Rightarrow> addr \<Rightarrow> addr \<Rightarrow> (addr \<Rightarrow> addr) \<Rightarrow> (objpool \<times> addr) option" where
  "objpool_get_obj_nolock opool blk data m =
     (if op_free opool = NULL \<and> (blk = NULL \<or> data = NULL) then Some (opool, NULL)
      else do {
        opool \<leftarrow> (if op_free opool = NULL then do {
            (nx, free) \<leftarrow> objpool_add_all (op_objsize opool) data (op_blksize opool)
              (new_links (op_next opool) data (op_objsize opool) (op_blksize opool) m, op_free opool);
            Some (opool\<lparr>op_blkcnt := op_blkcnt opool + 1, op_blks := (blk, data) # op_blks opool, op_next := nx, op_free := free\<rparr>) }
          else Some opool);
        let robj = op_free opool;
        (nx, free) \<leftarrow> splst_del (op_next opool) (op_free opool) robj;
        old \<leftarrow> splst_next nx robj;
        Some (opool\<lparr>op_next := nx(robj \<mapsto> NULL), op_free := free\<rparr>, robj) })"

definition objpool_free_obj_nolock :: "objpool \<Rightarrow> addr \<Rightarrow> objpool option" where
  "objpool_free_obj_nolock opool elem = do {
     (nx, free) \<leftarrow> splst_add (op_next opool) (op_free opool) elem;
     Some (opool\<lparr>op_next := nx, op_free := free\<rparr>) }"

definition objpool_get_obj :: "objpool \<Rightarrow> bool \<Rightarrow> addr \<Rightarrow> addr \<Rightarrow> (addr \<Rightarrow> addr) \<Rightarrow> (objpool \<times> addr) option" where
  "objpool_get_obj opool lock blk data m =
     (if lock then objpool_get_obj_nolock opool blk data m else objpool_get_obj_nolock opool blk data m)"

definition objpool_free_obj :: "objpool \<Rightarrow> addr \<Rightarrow> bool \<Rightarrow> objpool option" where
  "objpool_free_obj opool elem lock =
     (if lock then objpool_free_obj_nolock opool elem else objpool_free_obj_nolock opool elem)"

section \<open>The objects of a pool\<close>

definition blk_objs :: "objpool \<Rightarrow> addr \<Rightarrow> addr list" where
  "blk_objs opool data = map (\<lambda>i. data + i * op_objsize opool) [0..<op_blksize opool]"

definition pool_objs :: "objpool \<Rightarrow> addr list" where
  "pool_objs opool = concat (map (\<lambda>(blk, data). blk_objs opool data) (op_blks opool))"

text \<open>
  \<open>used\<close> are the objects the clients hold: together with the free ones they are the objects of the blocks, each
  once.
\<close>

definition pool_ok :: "objpool \<Rightarrow> addr list \<Rightarrow> bool" where
  "pool_ok opool used \<longleftrightarrow> 0 < op_objsize opool \<and> 0 < op_blksize opool \<and> op_blkcnt opool = length (op_blks opool) \<and>
     (\<exists>free. lseg (op_next opool) (op_free opool) free \<and> distinct (used @ free) \<and> mset (used @ free) = mset (pool_objs opool)) \<and>
     set (pool_objs opool) \<subseteq> dom (op_next opool) \<and> NULL \<notin> set (pool_objs opool)"

text \<open>What the allocator promises of a new block: it is a new piece of memory.\<close>

definition blk_fresh :: "objpool \<Rightarrow> addr \<Rightarrow> addr \<Rightarrow> bool" where
  "blk_fresh opool blk data \<longleftrightarrow> set (blk_objs opool data) \<inter> set (pool_objs opool) = {} \<and> blk \<notin> fst ` set (op_blks opool)"

lemma pool_objs_upd [simp]: "pool_objs (opool\<lparr>op_next := nx, op_free := f\<rparr>) = pool_objs opool"
  by (simp add: pool_objs_def blk_objs_def)

lemma pool_okI:
  assumes "0 < op_objsize opool" "0 < op_blksize opool" "op_blkcnt opool = length (op_blks opool)"
    "lseg (op_next opool) (op_free opool) xs" "distinct (used @ xs)" "mset (used @ xs) = mset (pool_objs opool)"
    "set (pool_objs opool) \<subseteq> dom (op_next opool)" "NULL \<notin> set (pool_objs opool)"
  shows "pool_ok opool used"
  unfolding pool_ok_def using assms by blast

lemma add_all_ok:
  assumes "lseg nx head xs" "distinct (map (\<lambda>i. obj + i * s) [0..<n] @ xs)" "set (map (\<lambda>i. obj + i * s) [0..<n]) \<subseteq> dom nx" "0 < obj"
  shows "\<exists>nx' head'. objpool_add_all s obj n (nx, head) = Some (nx', head') \<and> dom nx' = dom nx \<and>
    lseg nx' head' (rev (map (\<lambda>i. obj + i * s) [0..<n]) @ xs)"
  using assms
proof (induction n arbitrary: obj nx head xs)
  case (Suc n)
  have split: "map (\<lambda>i. obj + i * s) [0..<Suc n] = obj # map (\<lambda>i. (obj + s) + i * s) [0..<n]"
    by (simp add: upt_conv_Cons map_Suc_upt [symmetric] del: upt_Suc)
  have a: "splst_add nx head obj = Some (nx(obj \<mapsto> head), obj)" "lseg (nx(obj \<mapsto> head)) obj (obj # xs)"
    using add_ok [OF Suc.prems(1), of obj] Suc.prems(2-4) unfolding split by auto
  have "distinct (map (\<lambda>i. (obj + s) + i * s) [0..<n] @ obj # xs)" using Suc.prems(2) unfolding split by auto
  moreover have "set (map (\<lambda>i. (obj + s) + i * s) [0..<n]) \<subseteq> dom (nx(obj \<mapsto> head))" using Suc.prems(3) unfolding split by auto
  moreover have "0 < obj + s" using Suc.prems(4) by simp
  ultimately obtain nx' head' where "objpool_add_all s (obj + s) n (nx(obj \<mapsto> head), obj) = Some (nx', head')"
      "dom nx' = dom (nx(obj \<mapsto> head))" "lseg nx' head' (rev (map (\<lambda>i. (obj + s) + i * s) [0..<n]) @ obj # xs)"
    using Suc.IH [OF a(2), of "obj + s"] by blast
  moreover have "obj \<in> dom nx" using Suc.prems(3) unfolding split by auto
  ultimately show ?case unfolding split using a(1) by auto
qed simp

lemma blk_distinct: "0 < op_objsize opool \<Longrightarrow> distinct (blk_objs opool data)"
  by (auto simp: blk_objs_def distinct_map inj_on_def)

text \<open>Taking the first free object.\<close>

lemma take_free:
  assumes "pool_ok opool used" "op_free opool \<noteq> NULL"
  shows "\<exists>nx free. splst_del (op_next opool) (op_free opool) (op_free opool) = Some (nx, free) \<and> splst_next nx (op_free opool) \<noteq> None \<and>
    pool_ok (opool\<lparr>op_next := nx(op_free opool \<mapsto> NULL), op_free := free\<rparr>) (op_free opool # used) \<and> op_free opool \<notin> set used"
proof -
  let ?p = "op_free opool"
  note P = assms(1) [unfolded pool_ok_def]
  obtain xs where xs: "lseg (op_next opool) ?p xs" "distinct (used @ xs)" "mset (used @ xs) = mset (pool_objs opool)" using P by blast
  obtain ys where ys: "xs = ?p # ys" using xs(1) assms(2) by (cases xs) auto
  obtain nx free where d: "splst_del (op_next opool) ?p ?p = Some (nx, free)" "lseg nx free (remove1 ?p xs)" "dom nx = dom (op_next opool)"
    using del_ok [OF xs(1), of ?p] xs(2) by auto
  have l: "lseg (nx(?p \<mapsto> NULL)) free ys" using d(2) ys xs(2) by (simp add: lseg_frame)
  have m: "mset ((?p # used) @ ys) = mset (pool_objs opool)" "distinct ((?p # used) @ ys)" using xs ys by auto
  have p: "?p \<in> dom nx" using lseg_nz [OF xs(1), of ?p] ys d(3) by simp
  have "pool_ok (opool\<lparr>op_next := nx(?p \<mapsto> NULL), op_free := free\<rparr>) (?p # used)"
    by (rule pool_okI [where xs = ys]) (use P l m d(3) in auto)
  then show ?thesis using d(1) p assms(2) m(2) by (auto simp: splst_next_def)
qed

text \<open>A new block: all its objects become free.\<close>

lemma new_block:
  assumes ok: "pool_ok opool used" and empty: "op_free opool = NULL" and "data \<noteq> NULL" "blk_fresh opool blk data"
  shows "\<exists>nx free. objpool_add_all (op_objsize opool) data (op_blksize opool)
      (new_links (op_next opool) data (op_objsize opool) (op_blksize opool) m, op_free opool) = Some (nx, free) \<and>
    pool_ok (opool\<lparr>op_blkcnt := op_blkcnt opool + 1, op_blks := (blk, data) # op_blks opool, op_next := nx, op_free := free\<rparr>) used \<and> free \<noteq> NULL"
proof -
  note P = ok [unfolded pool_ok_def]
  let ?objs = "blk_objs opool data" let ?nx = "new_links (op_next opool) data (op_objsize opool) (op_blksize opool) m"
  have used: "distinct used" "mset used = mset (pool_objs opool)"
  proof -
    obtain xs where xs: "lseg (op_next opool) (op_free opool) xs" "distinct (used @ xs)" "mset (used @ xs) = mset (pool_objs opool)" using P by blast
    then have "xs = []" using empty lseg_nz by (cases xs) auto
    with xs show "distinct used" "mset used = mset (pool_objs opool)" by auto
  qed
  have su: "set used = set (pool_objs opool)" using used(2) mset_eq_setD by blast
  have "(\<exists>i<op_blksize opool. p = data + i * op_objsize opool) \<longleftrightarrow> p \<in> set ?objs" for p
    by (auto simp: blk_objs_def image_iff Bex_def)
  then have dom: "dom ?nx = dom (op_next opool) \<union> set ?objs" by (auto simp: new_links_def dom_def)
  have sub: "set ?objs \<subseteq> dom ?nx" using dom by simp
  have dst: "distinct (?objs @ [])" using blk_distinct [of opool data] P by simp
  have l0: "lseg ?nx (op_free opool) []" "0 < data" using empty assms(3) by simp_all
  obtain nx free where a: "objpool_add_all (op_objsize opool) data (op_blksize opool) (?nx, op_free opool) = Some (nx, free)"
      "dom nx = dom ?nx" "lseg nx free (rev ?objs @ [])"
    using add_all_ok [OF l0(1) dst [unfolded blk_objs_def] sub [unfolded blk_objs_def] l0(2)] unfolding blk_objs_def by blast
  have objs: "pool_objs (opool\<lparr>op_blkcnt := op_blkcnt opool + 1, op_blks := (blk, data) # op_blks opool, op_next := nx, op_free := free\<rparr>) =
      ?objs @ pool_objs opool"
    by (simp add: pool_objs_def blk_objs_def)
  have "?objs \<noteq> []" using P by (simp add: blk_objs_def)
  then have "free \<noteq> NULL" using a(3) by (cases "rev ?objs") auto
  moreover have "pool_ok (opool\<lparr>op_blkcnt := op_blkcnt opool + 1, op_blks := (blk, data) # op_blks opool, op_next := nx, op_free := free\<rparr>) used"
  proof (rule pool_okI [where xs = "rev ?objs"], unfold objs)
    show "distinct (used @ rev ?objs)" using used(1) su blk_distinct [of opool data] P assms(4) by (auto simp: blk_fresh_def)
    show "NULL \<notin> set (?objs @ pool_objs opool)" using assms(3) P by (auto simp: blk_objs_def)
    show "mset (used @ rev ?objs) = mset (?objs @ pool_objs opool)" using used(2) by simp
  qed (use P a(2,3) dom in auto)
  ultimately show ?thesis using a(1) by blast
qed

text \<open>Giving back an object that is in use.\<close>

lemma free_back:
  assumes "pool_ok opool (p # used)"
  shows "\<exists>opool'. objpool_free_obj_nolock opool p = Some opool' \<and> pool_ok opool' used"
proof -
  note P = assms [unfolded pool_ok_def]
  obtain xs where xs: "lseg (op_next opool) (op_free opool) xs" "distinct ((p # used) @ xs)" "mset ((p # used) @ xs) = mset (pool_objs opool)" using P by blast
  have "p \<in> set (pool_objs opool)" using xs(3) by (metis append_Cons list.set_intros(1) mset_eq_setD)
  then have p: "p \<noteq> NULL" "p \<in> dom (op_next opool)" using P by auto
  have a: "splst_add (op_next opool) (op_free opool) p = Some ((op_next opool)(p \<mapsto> op_free opool), p)"
    "lseg ((op_next opool)(p \<mapsto> op_free opool)) p (p # xs)"
    using add_ok [OF xs(1) _ p] xs(2) by auto
  moreover have "distinct (used @ p # xs)" "mset (used @ p # xs) = mset (pool_objs opool)" using xs by auto
  ultimately have "pool_ok (opool\<lparr>op_next := (op_next opool)(p \<mapsto> op_free opool), op_free := p\<rparr>) used"
    by (intro pool_okI [where xs = "p # xs"]) (use P in auto)
  then show ?thesis using a(1) by (simp add: objpool_free_obj_nolock_def)
qed

lemma get_obj_ok:
  assumes ok: "pool_ok opool used" and fresh: "blk \<noteq> NULL \<and> data \<noteq> NULL \<longrightarrow> blk_fresh opool blk data"
  shows "\<exists>opool' p. objpool_get_obj opool lock blk data m = Some (opool', p) \<and>
    (if op_free opool = NULL \<and> (blk = NULL \<or> data = NULL) then p = NULL \<and> opool' = opool
     else p \<notin> set used \<and> p \<noteq> NULL \<and> pool_ok opool' (p # used) \<and>
       (\<exists>opool''. objpool_free_obj opool' p lock = Some opool'' \<and> pool_ok opool'' used))"
proof (cases "op_free opool = NULL \<and> (blk = NULL \<or> data = NULL)")
  case True
  then show ?thesis by (auto simp: objpool_get_obj_def objpool_get_obj_nolock_def)
next
  case False
  have "\<exists>op1. (if op_free opool = NULL then do {
            (nx, free) \<leftarrow> objpool_add_all (op_objsize opool) data (op_blksize opool)
              (new_links (op_next opool) data (op_objsize opool) (op_blksize opool) m, op_free opool);
            Some (opool\<lparr>op_blkcnt := op_blkcnt opool + 1, op_blks := (blk, data) # op_blks opool, op_next := nx, op_free := free\<rparr>) }
          else Some opool) = Some op1 \<and> pool_ok op1 used \<and> op_free op1 \<noteq> NULL"
    using new_block [OF ok, of data blk m] ok False fresh by auto
  then obtain op1 where op1: "(if op_free opool = NULL then do {
            (nx, free) \<leftarrow> objpool_add_all (op_objsize opool) data (op_blksize opool)
              (new_links (op_next opool) data (op_objsize opool) (op_blksize opool) m, op_free opool);
            Some (opool\<lparr>op_blkcnt := op_blkcnt opool + 1, op_blks := (blk, data) # op_blks opool, op_next := nx, op_free := free\<rparr>) }
          else Some opool) = Some op1" "pool_ok op1 used" "op_free op1 \<noteq> NULL" by blast
  obtain nx free where t: "splst_del (op_next op1) (op_free op1) (op_free op1) = Some (nx, free)" "splst_next nx (op_free op1) \<noteq> None"
      "pool_ok (op1\<lparr>op_next := nx(op_free op1 \<mapsto> NULL), op_free := free\<rparr>) (op_free op1 # used)" "op_free op1 \<notin> set used"
    using take_free [OF op1(2,3)] by blast
  let ?p = "op_free op1" let ?op = "op1\<lparr>op_next := nx(?p \<mapsto> NULL), op_free := free\<rparr>"
  have g: "objpool_get_obj opool lock blk data m = Some (?op, ?p)"
    using t(1,2) unfolding objpool_get_obj_def objpool_get_obj_nolock_def if_not_P [OF False] op1(1) by (auto simp: Let_def)
  from free_back [OF t(3)] show ?thesis using g t(3,4) op1(3) False by (auto simp: objpool_free_obj_def)
qed

lemma pool_ok_mset: "mset used = mset used' \<Longrightarrow> pool_ok opool used \<Longrightarrow> pool_ok opool used'"
  unfolding pool_ok_def by (metis mset_append mset_eq_imp_distinct_iff)

section \<open>Properties\<close>

text \<open>C23: a pool never hands out an object that is in use: \<^verbatim>\<open>objpool_get_obj\<close> returns a null pointer, only when a
  block is needed and cannot be allocated, or an object of its blocks that no client holds; freeing gives it
  back. The free objects and those in use stay a partition of the objects of the blocks.\<close>

theorem objpool_get_fresh:
  assumes ok: "pool_ok opool used" and fresh: "blk \<noteq> NULL \<and> data \<noteq> NULL \<longrightarrow> blk_fresh opool blk data"
  shows "\<exists>opool' p. objpool_get_obj opool lock blk data m = Some (opool', p) \<and>
    (if op_free opool = NULL \<and> (blk = NULL \<or> data = NULL) then p = NULL \<and> opool' = opool
     else p \<notin> set used \<and> p \<noteq> NULL \<and> pool_ok opool' (p # used) \<and>
       (\<exists>opool''. objpool_free_obj opool' p lock = Some opool'' \<and> pool_ok opool'' used))"
  using assms by (rule get_obj_ok)

lemma pool_init_ok: "0 < b \<Longrightarrow> 0 < s \<Longrightarrow> pool_ok (objpool_init b s) []"
  by (rule pool_okI [where xs = "[]"]) (auto simp: objpool_init_def pool_objs_def)

lemma objpool_get_fresh_witness:
  "\<exists>opool' p. objpool_get_obj (objpool_init 4 16) True 100 200 (\<lambda>_. 7) = Some (opool', p) \<and> p \<noteq> NULL \<and> pool_ok opool' [p]"
proof -
  have "pool_ok (objpool_init 4 16) []" by (rule pool_init_ok) simp_all
  moreover have "blk_fresh (objpool_init 4 16) 100 200" by (simp add: blk_fresh_def objpool_init_def pool_objs_def)
  ultimately show ?thesis using objpool_get_fresh [of "objpool_init 4 16" "[]" 100 200 True "\<lambda>_. 7"] by auto
qed

end
