(* ===== verification/Threadpool.thy ===== *)
theory Threadpool
  imports Prelude
begin

text \<open>
  The thread pool of \<^verbatim>\<open>ohutil/thread.c\<close>: a ring of tasks under a lock, and workers that take tasks from it. The
  critical sections are functions on the pool; the workers and the program that owns the pool are a step
  relation whose steps are the critical sections and the accesses between them, in any interleaving.
\<close>

section \<open>The pool\<close>

record task =
  tk_run :: "nat option"
  tk_clean :: "nat option"
  tk_arg :: nat

datatype tp_status = POOL_STOP | POOL_RUNNING

record tpool =
  tp_q :: "task list"
  tp_size :: nat
  tp_used :: nat
  tp_rind :: nat
  tp_wind :: nat
  tp_status :: tp_status
  tp_running :: nat
  tp_threads :: nat

text \<open>\<open>q\<close> is the new memory of the ring, \<open>None\<close> when it or the pool cannot be allocated; then there is no pool.\<close>

definition thread_pool_create :: "nat \<Rightarrow> nat \<Rightarrow> task list option \<Rightarrow> tpool option" where
  "thread_pool_create sz threads q = (case q of None \<Rightarrow> None | Some q \<Rightarrow>
     Some \<lparr>tp_q = q, tp_size = sz, tp_used = 0, tp_rind = 0, tp_wind = 0, tp_status = POOL_STOP, tp_running = 0, tp_threads = threads\<rparr>)"

definition thread_pool_push :: "tpool \<Rightarrow> task \<Rightarrow> (tpool \<times> int) option" where
  "thread_pool_push pool t =
     (if tp_used pool = tp_size pool then Some (pool, - 1)
      else do {
        c_assert (tp_wind pool < length (tp_q pool));
        let pool = pool\<lparr>tp_q := (tp_q pool)[tp_wind pool := t]\<rparr>;
        let pool = pool\<lparr>tp_wind := tp_wind pool + 1, tp_used := tp_used pool + 1\<rparr>;
        let pool = (if tp_wind pool = tp_size pool then pool\<lparr>tp_wind := 0\<rparr> else pool);
        Some (pool, 0) })"

text \<open>What a worker does under the lock once the ring is not empty.\<close>

definition thread_pool_take :: "tpool \<Rightarrow> (tpool \<times> task) option" where
  "thread_pool_take pool = do {
     c_assert (tp_rind pool < length (tp_q pool));
     let elem = tp_q pool ! tp_rind pool;
     let pool = pool\<lparr>tp_rind := tp_rind pool + 1\<rparr>;
     let pool = (if tp_rind pool = tp_size pool then pool\<lparr>tp_rind := 0\<rparr> else pool);
     c_assert (tp_used pool > 0);
     Some (pool\<lparr>tp_used := tp_used pool - 1\<rparr>, elem) }"

section \<open>The ring\<close>

definition ring :: "tpool \<Rightarrow> task list" where
  "ring pool = map (\<lambda>k. tp_q pool ! ((tp_rind pool + k) mod tp_size pool)) [0..<tp_used pool]"

definition ring_ok :: "tpool \<Rightarrow> bool" where
  "ring_ok pool \<longleftrightarrow> 0 < tp_size pool \<and> length (tp_q pool) = tp_size pool \<and> tp_used pool \<le> tp_size pool \<and> tp_rind pool < tp_size pool \<and>
     tp_wind pool = (tp_rind pool + tp_used pool) mod tp_size pool"

lemma wrap_inc: "i < n \<Longrightarrow> (if i + 1 = n then 0 else i + 1) = (i + 1) mod (n :: nat)"
  by auto

lemma push_ring:
  assumes ok: "ring_ok pool" and room: "tp_used pool < tp_size pool"
  shows "\<exists>pool'. thread_pool_push pool t = Some (pool', 0) \<and> ring_ok pool' \<and> ring pool' = ring pool @ [t] \<and>
    tp_status pool' = tp_status pool \<and> tp_running pool' = tp_running pool \<and> tp_threads pool' = tp_threads pool \<and> tp_size pool' = tp_size pool"
proof -
  note R = ok [unfolded ring_ok_def]
  let ?n = "tp_size pool" let ?w = "tp_wind pool"
  have w: "?w < ?n" using R by simp
  let ?p = "pool\<lparr>tp_q := (tp_q pool)[?w := t], tp_wind := (?w + 1) mod ?n, tp_used := tp_used pool + 1\<rparr>"
  have "thread_pool_push pool t = Some (?p, 0)"
  proof -
    have "?w < length (tp_q pool)" "tp_used pool \<noteq> tp_size pool" using R w room by auto
    then show ?thesis using wrap_inc [OF w] by (auto simp: thread_pool_push_def Let_def c_assert_def split: if_splits)
  qed
  moreover have "ring_ok ?p" using R room by (simp add: ring_ok_def mod_Suc_eq)
  moreover have "ring ?p = ring pool @ [t]"
  proof -
    have old: "?w \<noteq> (tp_rind pool + k) mod ?n" if "k < tp_used pool" for k
    proof
      assume "?w = (tp_rind pool + k) mod ?n"
      then have "(tp_rind pool + k) mod ?n = (tp_rind pool + tp_used pool) mod ?n" using R by simp
      then have "?n dvd tp_used pool - k" using that mod_eq_dvd_iff_nat [of "tp_rind pool + k" "tp_rind pool + tp_used pool" ?n] by auto
      moreover have "0 < tp_used pool - k" "tp_used pool - k < ?n" using that room by auto
      ultimately show False by (simp add: nat_dvd_not_less)
    qed
    have new: "(tp_rind pool + tp_used pool) mod ?n = ?w" using R by simp
    show ?thesis unfolding ring_def using R w old new by (auto intro!: map_cong)
  qed
  ultimately show ?thesis by auto
qed

lemma take_ring:
  assumes ok: "ring_ok pool" and ne: "0 < tp_used pool"
  shows "\<exists>pool'. thread_pool_take pool = Some (pool', hd (ring pool)) \<and> ring_ok pool' \<and> ring pool' = tl (ring pool) \<and>
    tp_status pool' = tp_status pool \<and> tp_running pool' = tp_running pool \<and> tp_threads pool' = tp_threads pool \<and> tp_size pool' = tp_size pool"
proof -
  note R = ok [unfolded ring_ok_def]
  let ?n = "tp_size pool" let ?r = "tp_rind pool"
  have r: "?r < ?n" using R by simp
  let ?p = "pool\<lparr>tp_rind := (?r + 1) mod ?n, tp_used := tp_used pool - 1\<rparr>"
  have split: "[0..<tp_used pool] = 0 # map Suc [0..<tp_used pool - 1]"
    using ne by (simp add: upt_conv_Cons map_Suc_upt)
  have hd: "ring pool = tp_q pool ! ?r # map (\<lambda>k. tp_q pool ! ((?r + Suc k) mod ?n)) [0..<tp_used pool - 1]"
    unfolding ring_def split using r by simp
  have "thread_pool_take pool = Some (?p, hd (ring pool))"
  proof -
    have "?r < length (tp_q pool)" using R r by auto
    then show ?thesis unfolding hd using ne wrap_inc [OF r] by (auto simp: thread_pool_take_def Let_def c_assert_def split: if_splits)
  qed
  moreover have "ring ?p = tl (ring pool)" unfolding hd by (simp add: ring_def mod_add_left_eq)
  moreover have "ring_ok ?p"
  proof -
    have "(Suc ?r mod ?n + (tp_used pool - 1)) mod ?n = (?r + tp_used pool) mod ?n" by (simp only: mod_add_left_eq) (use ne in simp)
    moreover have "tp_used pool - 1 \<le> ?n" using R by (auto intro: le_trans [OF diff_le_self])
    ultimately show ?thesis using R by (simp add: ring_ok_def)
  qed
  ultimately show ?thesis by auto
qed

lemma ring_length [simp]: "length (ring pool) = tp_used pool"
  by (simp add: ring_def)

section \<open>Workers\<close>

text \<open>
  Where a worker is: not yet started, at the head of its loop, running a task, past the loop, holding the lock after
  its decrement of \<open>running\<close>, or ended. Between these points it holds a lock or touches only its own variables. The
  decrement and the unlock that follows are two steps, because \<^verbatim>\<open>thread_pool_destroy\<close> reads the counter without the
  lock.
\<close>

datatype worker = WStart | WLoop | WTask task | WExit | WUnlock | WDone

text \<open>
  The owner can push, stop the pool and free it once it saw no running worker. \<open>pushed\<close>, \<open>taken\<close> and \<open>finished\<close> record
  the tasks accepted, taken and run to the end.
\<close>

record tp_world =
  w_pool :: tpool
  w_workers :: "nat \<Rightarrow> worker"
  w_freed :: bool
  w_pushed :: "task list"
  w_taken :: "task list"
  w_finished :: "task list"

text \<open>\<^verbatim>\<open>thread_pool_run\<close>: the pool is marked as running and its workers are started.\<close>

definition thread_pool_run :: "tpool \<Rightarrow> tp_world" where
  "thread_pool_run pool = \<lparr>w_pool = pool\<lparr>tp_status := POOL_RUNNING\<rparr>,
     w_workers = (\<lambda>i. if i < tp_threads pool then WStart else WDone), w_freed = False, w_pushed = [], w_taken = [], w_finished = []\<rparr>"

definition thread_pool_func_enter :: "tpool \<Rightarrow> tpool" where
  "thread_pool_func_enter pool = pool\<lparr>tp_running := tp_running pool + 1\<rparr>"

definition thread_pool_func_leave :: "tpool \<Rightarrow> tpool" where
  "thread_pool_func_leave pool = pool\<lparr>tp_running := tp_running pool - 1\<rparr>"

definition thread_pool_stop :: "tpool \<Rightarrow> tpool" where
  "thread_pool_stop pool = pool\<lparr>tp_status := POOL_STOP\<rparr>"

definition lock_free :: "tp_world \<Rightarrow> bool" where
  "lock_free w \<longleftrightarrow> (\<forall>i<tp_threads (w_pool w). w_workers w i \<noteq> WUnlock)"

inductive tp_step :: "tp_world \<Rightarrow> tp_world \<Rightarrow> bool" where
  enter: "w_workers w i = WStart \<Longrightarrow> \<not> w_freed w \<Longrightarrow> lock_free w \<Longrightarrow>
    tp_step w (w\<lparr>w_pool := thread_pool_func_enter (w_pool w), w_workers := (w_workers w)(i := WLoop)\<rparr>)"
| take: "w_workers w i = WLoop \<Longrightarrow> \<not> w_freed w \<Longrightarrow> tp_status (w_pool w) = POOL_RUNNING \<Longrightarrow> tp_used (w_pool w) > 0 \<Longrightarrow>
    thread_pool_take (w_pool w) = Some (pool, t) \<Longrightarrow>
    tp_step w (w\<lparr>w_pool := pool, w_workers := (w_workers w)(i := WTask t), w_taken := w_taken w @ [t]\<rparr>)"
| run: "w_workers w i = WTask t \<Longrightarrow>
    tp_step w (w\<lparr>w_workers := (w_workers w)(i := WLoop), w_finished := w_finished w @ [t]\<rparr>)"
| stopped: "w_workers w i = WLoop \<Longrightarrow> \<not> w_freed w \<Longrightarrow> tp_status (w_pool w) = POOL_STOP \<Longrightarrow>
    tp_step w (w\<lparr>w_workers := (w_workers w)(i := WExit)\<rparr>)"
| leave: "w_workers w i = WExit \<Longrightarrow> \<not> w_freed w \<Longrightarrow> lock_free w \<Longrightarrow>
    tp_step w (w\<lparr>w_pool := thread_pool_func_leave (w_pool w), w_workers := (w_workers w)(i := WUnlock)\<rparr>)"
| unlock: "w_workers w i = WUnlock \<Longrightarrow> \<not> w_freed w \<Longrightarrow>
    tp_step w (w\<lparr>w_workers := (w_workers w)(i := WDone)\<rparr>)"
| push: "\<not> w_freed w \<Longrightarrow> thread_pool_push (w_pool w) t = Some (pool, r) \<Longrightarrow>
    tp_step w (w\<lparr>w_pool := pool, w_pushed := (if r = 0 then w_pushed w @ [t] else w_pushed w)\<rparr>)"
| stop: "\<not> w_freed w \<Longrightarrow> tp_step w (w\<lparr>w_pool := thread_pool_stop (w_pool w)\<rparr>)"
| free: "\<not> w_freed w \<Longrightarrow> tp_status (w_pool w) = POOL_STOP \<Longrightarrow> tp_running (w_pool w) = 0 \<Longrightarrow>
    tp_step w (w\<lparr>w_freed := True\<rparr>)"

inductive tp_reach :: "tpool \<Rightarrow> tp_world \<Rightarrow> bool" for pool where
  init: "tp_reach pool (thread_pool_run pool)"
| step: "tp_reach pool w \<Longrightarrow> tp_step w w' \<Longrightarrow> tp_reach pool w'"

inductive_cases tp_stepE: "tp_step w w'"

lemmas tp_step_cases = tp_stepE [consumes 1, case_names enter take run stopped leave unlock push stop free]

section \<open>Properties\<close>

text \<open>The workers that are between entering and leaving, and the tasks they hold.\<close>

fun worker_task :: "worker \<Rightarrow> task multiset" where
  "worker_task (WTask t) = {#t#}"
| "worker_task _ = {#}"

definition held :: "tp_world \<Rightarrow> task multiset" where
  "held w = (\<Sum>i<tp_threads (w_pool w). worker_task (w_workers w i))"

definition active :: "worker \<Rightarrow> bool" where
  "active k \<longleftrightarrow> k \<noteq> WStart \<and> k \<noteq> WUnlock \<and> k \<noteq> WDone"

definition tp_inv :: "tpool \<Rightarrow> tp_world \<Rightarrow> bool" where
  "tp_inv pool w \<longleftrightarrow> ring_ok (w_pool w) \<and> tp_threads (w_pool w) = tp_threads pool \<and> tp_size (w_pool w) = tp_size pool \<and> w_pushed w = w_taken w @ ring (w_pool w) \<and>
     mset (w_taken w) = mset (w_finished w) + held w \<and>
     tp_running (w_pool w) = card {i. i < tp_threads pool \<and> active (w_workers w i)} \<and> (\<forall>i\<ge>tp_threads pool. w_workers w i = WDone) \<and>
     (w_freed w \<longrightarrow> tp_running (w_pool w) = 0)"

lemma held_change:
  assumes "i < tp_threads (w_pool w)"
  shows "held (w\<lparr>w_workers := (w_workers w)(i := k)\<rparr>) + (worker_task (w_workers w i)) =
    held w + worker_task k"
proof -
  have "held w = worker_task (w_workers w i) + (\<Sum>j\<in>{..<tp_threads (w_pool w)} - {i}. worker_task (w_workers w j))"
    using assms by (simp add: held_def sum.remove)
  moreover have "held (w\<lparr>w_workers := (w_workers w)(i := k)\<rparr>) = worker_task k + (\<Sum>j\<in>{..<tp_threads (w_pool w)} - {i}. worker_task (w_workers w j))"
    using assms by (simp add: held_def sum.remove [of _ i])
  ultimately show ?thesis by (simp add: add_ac)
qed

lemma card_change:
  assumes "i < (n :: nat)"
  shows "card {j. j < n \<and> active ((f(i := k)) j)} + (if active (f i) then 1 else 0) = card {j. j < n \<and> active (f j)} + (if active k then 1 else (0 :: nat))"
proof -
  have f: "finite {j. j < n \<and> active (f j) \<and> j \<noteq> i}" by (rule finite_subset [of _ "{..<n}"]) auto
  have A: "{j. j < n \<and> active (f j)} = (if active (f i) then insert i {j. j < n \<and> active (f j) \<and> j \<noteq> i} else {j. j < n \<and> active (f j) \<and> j \<noteq> i})"
    using assms by auto
  have B: "{j. j < n \<and> active ((f(i := k)) j)} = (if active k then insert i {j. j < n \<and> active (f j) \<and> j \<noteq> i} else {j. j < n \<and> active (f j) \<and> j \<noteq> i})"
    using assms by auto
  show ?thesis unfolding A B by (simp add: f)
qed

lemma tp_inv_init:
  assumes "ring_ok pool" and "tp_used pool = 0" and "tp_running pool = 0"
  shows "tp_inv pool (thread_pool_run pool)"
proof -
  have "ring (pool\<lparr>tp_status := POOL_RUNNING\<rparr>) = []" using assms by (simp add: ring_def)
  moreover have "held (thread_pool_run pool) = {#}" by (simp add: held_def thread_pool_run_def)
  moreover have "{i. i < tp_threads pool \<and> active (w_workers (thread_pool_run pool) i)} = {}"
    by (auto simp: active_def thread_pool_run_def)
  ultimately show ?thesis using assms by (simp add: tp_inv_def thread_pool_run_def ring_ok_def)
qed

lemma ring_cong [simp]:
  "ring (pool\<lparr>tp_running := r\<rparr>) = ring pool" "ring (pool\<lparr>tp_status := s\<rparr>) = ring pool"
  "ring_ok (pool\<lparr>tp_running := r\<rparr>) = ring_ok pool" "ring_ok (pool\<lparr>tp_status := s\<rparr>) = ring_ok pool"
  by (simp_all add: ring_def ring_ok_def)

lemma tp_inv_worker: "tp_inv pool w \<Longrightarrow> w_workers w i \<noteq> WDone \<Longrightarrow> i < tp_threads pool"
  by (meson leI tp_inv_def)

lemma multiset_balance:
  fixes h h' a b t t' f f' :: "'a multiset"
  assumes "h' + a = h + b" and "t = f + h" and "t' + (f + a) = t + (f' + b)"
  shows "t' = f' + h'"
proof -
  have "t' + (f + a) = f + (h + b) + f'" using assms(2,3) by (simp add: add_ac)
  also have "\<dots> = f' + h' + (f + a)" unfolding assms(1) [symmetric] by (simp add: add_ac)
  finally show ?thesis by simp
qed

text \<open>A step of one worker keeps the count and the tasks, whatever it does to the rest.\<close>

lemma tp_inv_move:
  assumes inv: "tp_inv pool w" and i: "w_workers w i \<noteq> WDone" and nf: "\<not> w_freed w"
    and W: "w_workers w' = (w_workers w)(i := k)" "w_freed w' = w_freed w"
    and P: "ring_ok (w_pool w')" "tp_threads (w_pool w') = tp_threads pool" "tp_size (w_pool w') = tp_size pool"
      "w_pushed w' = w_taken w' @ ring (w_pool w')"
    and tasks: "mset (w_taken w') + (mset (w_finished w) + worker_task (w_workers w i)) =
      mset (w_taken w) + (mset (w_finished w') + worker_task k)"
    and count: "tp_running (w_pool w') + (if active (w_workers w i) then 1 else 0) = tp_running (w_pool w) + (if active k then 1 else 0)"
  shows "tp_inv pool w'"
proof -
  have il: "i < tp_threads pool" by (rule tp_inv_worker [OF inv i])
  have th: "tp_threads (w_pool w) = tp_threads pool" using inv by (simp add: tp_inv_def)
  have "held w' = held (w\<lparr>w_workers := (w_workers w)(i := k)\<rparr>)" using P(2) th W(1) by (simp add: held_def)
  then have "held w' + worker_task (w_workers w i) = held w + worker_task k"
    using held_change [of i w k] il th by simp
  moreover have "mset (w_taken w) = mset (w_finished w) + held w" using inv by (simp add: tp_inv_def)
  ultimately have "mset (w_taken w') = mset (w_finished w') + held w'" using tasks by (rule multiset_balance)
  moreover have "tp_running (w_pool w') = card {j. j < tp_threads pool \<and> active (w_workers w' j)}"
    using card_change [OF il, of "w_workers w" k] count inv unfolding tp_inv_def W(1) by linarith
  moreover have "\<forall>j\<ge>tp_threads pool. w_workers w' j = WDone" unfolding W(1) using inv il by (simp add: tp_inv_def)
  ultimately show ?thesis using P nf W(2) by (simp add: tp_inv_def)
qed

lemma tp_invD:
  assumes "tp_inv pool w"
  shows "ring_ok (w_pool w)" "tp_threads (w_pool w) = tp_threads pool" "tp_size (w_pool w) = tp_size pool"
    "w_pushed w = w_taken w @ ring (w_pool w)" "w_freed w \<Longrightarrow> tp_running (w_pool w) = 0"
    "tp_running (w_pool w) = card {i. i < tp_threads pool \<and> active (w_workers w i)}"
  using assms unfolding tp_inv_def by blast+

lemma tp_inv_active:
  assumes inv: "tp_inv pool w" and "active (w_workers w i)"
  shows "0 < tp_running (w_pool w)"
proof -
  have "i < tp_threads pool" using tp_inv_worker [OF inv, of i] assms(2) by (auto simp: active_def)
  then have "i \<in> {j. j < tp_threads pool \<and> active (w_workers w j)}" using assms(2) by simp
  moreover have "finite {j. j < tp_threads pool \<and> active (w_workers w j)}" by simp
  ultimately have "0 < card {j. j < tp_threads pool \<and> active (w_workers w j)}" using card_gt_0_iff by blast
  then show ?thesis using tp_invD(6) [OF inv] by simp
qed

lemma tp_inv_step:
  assumes inv: "tp_inv pool w" and "tp_step w w'"
  shows "tp_inv pool w'"
  using assms(2)
proof (cases rule: tp_step_cases)
  case (enter i)
  show ?thesis
    by (rule tp_inv_move [OF inv, of i _ WLoop])
      (use enter tp_invD [OF inv] in \<open>simp_all add: thread_pool_func_enter_def active_def\<close>)
next
  case (take i p t)
  obtain p' where p': "thread_pool_take (w_pool w) = Some (p', hd (ring (w_pool w)))" "ring_ok p'" "ring p' = tl (ring (w_pool w))"
    "tp_running p' = tp_running (w_pool w)" "tp_threads p' = tp_threads (w_pool w)" "tp_size p' = tp_size (w_pool w)"
    using take_ring [OF tp_invD(1) [OF inv] take(5)] by blast
  have eq: "p' = p" "hd (ring (w_pool w)) = t" using p'(1) take(6) by simp_all
  have "ring (w_pool w) \<noteq> []" using take(5) ring_length by (metis less_numeral_extra(3) list.size(3))
  then have split: "ring (w_pool w) = t # ring p" using p'(3) eq by (metis list.collapse)
  show ?thesis
    by (rule tp_inv_move [OF inv, of i _ "WTask t"]) (use take tp_invD [OF inv] p' split eq(1) in \<open>simp_all add: active_def\<close>)
next
  case (run i t)
  have "\<not> w_freed w" using tp_inv_active [OF inv, of i] tp_invD(5) [OF inv] run(2) by (auto simp: active_def)
  then show ?thesis
    by (intro tp_inv_move [OF inv, of i _ WLoop]) (use run tp_invD [OF inv] in \<open>simp_all add: active_def\<close>)
next
  case (stopped i)
  show ?thesis
    by (rule tp_inv_move [OF inv, of i _ WExit]) (use stopped tp_invD [OF inv] in \<open>simp_all add: active_def\<close>)
next
  case (leave i)
  have "0 < tp_running (w_pool w)" using tp_inv_active [OF inv, of i] leave(2) by (simp add: active_def)
  then show ?thesis
    by (intro tp_inv_move [OF inv, of i _ WUnlock])
      (use leave tp_invD(1-5) [OF inv] in \<open>simp_all add: thread_pool_func_leave_def active_def\<close>)
next
  case (unlock i)
  show ?thesis
    by (rule tp_inv_move [OF inv, of i _ WDone]) (use unlock tp_invD [OF inv] in \<open>simp_all add: active_def\<close>)
next
  case (push t p r)
  note ok = tp_invD(1) [OF inv]
  show ?thesis
  proof (cases "tp_used (w_pool w) = tp_size (w_pool w)")
    case True
    then have "p = w_pool w" "r = - 1" using push(3) by (simp_all add: thread_pool_push_def)
    then have "w' = w" using push(1) by simp
    then show ?thesis using inv by simp
  next
    case False
    then have room: "tp_used (w_pool w) < tp_size (w_pool w)" using ok by (simp add: ring_ok_def)
    obtain p' where p': "thread_pool_push (w_pool w) t = Some (p', 0)" "ring_ok p'" "ring p' = ring (w_pool w) @ [t]"
      "tp_running p' = tp_running (w_pool w)" "tp_threads p' = tp_threads (w_pool w)" "tp_size p' = tp_size (w_pool w)"
      using push_ring [OF ok room] by blast
    have "p' = p" "r = 0" using p'(1) push(3) by simp_all
    then show ?thesis unfolding push(1) using inv p' push(2) by (simp add: tp_inv_def held_def)
  qed
next
  case stop
  show ?thesis unfolding stop(1) using inv stop(2) by (simp add: tp_inv_def held_def thread_pool_stop_def)
next
  case free
  show ?thesis unfolding free(1) using inv free(4) by (simp add: tp_inv_def held_def)
qed

lemma tp_reach_inv:
  assumes "tp_reach pool w" and "ring_ok pool" and "tp_used pool = 0" and "tp_running pool = 0"
  shows "tp_inv pool w"
  using assms(1)
proof induction
  case init
  show ?case using assms(2-4) by (rule tp_inv_init)
next
  case (step w w')
  then show ?case by (auto intro: tp_inv_step)
qed

lemma thread_pool_create_ok:
  assumes "thread_pool_create sz threads (Some q) = Some pool" and "length q = sz" and "0 < sz"
  shows "ring_ok pool" "tp_used pool = 0" "tp_running pool = 0" "tp_threads pool = threads" "tp_size pool = sz"
  using assms by (auto simp: thread_pool_create_def ring_ok_def)

text \<open>C11: the thread pool runs every task it accepted once and in order. In every state that the owner and the workers
  can reach from a new pool, in any interleaving, the tasks accepted are the tasks taken, in this order, followed by
  the ring; a taken task is finished or held by exactly one worker; and \<open>running\<close> is the number of workers that have
  entered and not yet left.\<close>

theorem thread_pool_conserves_tasks:
  assumes "thread_pool_create sz threads (Some q) = Some pool" and "length q = sz" and "0 < sz" and "tp_reach pool w"
  shows "w_pushed w = w_taken w @ ring (w_pool w) \<and> mset (w_taken w) = mset (w_finished w) + held w \<and>
    tp_used (w_pool w) \<le> sz \<and> tp_running (w_pool w) = card {i. i < threads \<and> active (w_workers w i)}"
proof -
  note new = thread_pool_create_ok [OF assms(1-3)]
  have "tp_inv pool w" by (rule tp_reach_inv [OF assms(4) new(1-3)])
  then show ?thesis using new(4,5) by (simp add: tp_inv_def ring_ok_def)
qed

definition example_task :: task where
  "example_task = \<lparr>tk_run = Some 1, tk_clean = None, tk_arg = 7\<rparr>"

definition example_pool :: tpool where
  "example_pool = \<lparr>tp_q = [example_task], tp_size = 1, tp_used = 0, tp_rind = 0, tp_wind = 0, tp_status = POOL_STOP, tp_running = 0, tp_threads = 1\<rparr>"

lemma example_pool_new: "thread_pool_create 1 1 (Some [example_task]) = Some example_pool"
  by (simp add: thread_pool_create_def example_pool_def)

text \<open>One worker of the pool has entered, taken a task, run it and left after the pool was stopped.\<close>

lemma example_started: "tp_reach example_pool (thread_pool_run example_pool)"
  by (rule tp_reach.init)

theorem thread_pool_conserves_tasks_witness:
  "w_pushed (thread_pool_run example_pool) = w_taken (thread_pool_run example_pool) @ ring (w_pool (thread_pool_run example_pool)) \<and>
   tp_used (w_pool (thread_pool_run example_pool)) \<le> 1"
  using thread_pool_conserves_tasks [OF example_pool_new _ _ example_started] by simp

text \<open>When the owner has freed the pool no worker is between entering and leaving: a worker has not started, is at
  its last unlock, or has ended. So no worker takes or runs a task of a freed pool.\<close>

theorem thread_pool_freed_idle:
  assumes "thread_pool_create sz threads (Some q) = Some pool" and "length q = sz" and "0 < sz" and "tp_reach pool w"
    and "w_freed w"
  shows "w_workers w i \<in> {WStart, WUnlock, WDone}"
proof -
  note new = thread_pool_create_ok [OF assms(1-3)]
  have inv: "tp_inv pool w" by (rule tp_reach_inv [OF assms(4) new(1-3)])
  have idle: "\<not> active (w_workers w i)" using tp_inv_active [OF inv, of i] tp_invD(5) [OF inv assms(5)] by auto
  then show ?thesis by (auto simp: active_def)
qed

text \<open>The runs in which the pool is freed too early.\<close>

definition freed_before_start :: tp_world where
  "freed_before_start = (thread_pool_run example_pool)\<lparr>w_pool := thread_pool_stop (w_pool (thread_pool_run example_pool)), w_freed := True\<rparr>"

lemma freed_before_start_reach: "tp_reach example_pool freed_before_start"
proof -
  let ?w = "thread_pool_run example_pool"
  have "tp_reach example_pool (?w\<lparr>w_pool := thread_pool_stop (w_pool ?w)\<rparr>)"
    by (rule tp_reach.step [OF example_started tp_step.stop]) (simp add: thread_pool_run_def)
  then have "tp_reach example_pool ((?w\<lparr>w_pool := thread_pool_stop (w_pool ?w)\<rparr>)\<lparr>w_freed := True\<rparr>)"
    by (rule tp_reach.step [OF _ tp_step.free]) (simp_all add: thread_pool_run_def thread_pool_stop_def example_pool_def)
  then show ?thesis by (simp add: freed_before_start_def)
qed

theorem thread_pool_freed_idle_witness: "w_freed freed_before_start \<and> w_workers freed_before_start 0 \<in> {WStart, WUnlock, WDone}"
  using thread_pool_freed_idle [OF example_pool_new _ _ freed_before_start_reach, of 0] by (simp add: freed_before_start_def)

text \<open>\<^verbatim>\<open>thread_pool_destroy\<close> can free the pool while a worker still has to use it. There is a run of a new pool that
  ends with the pool freed and a worker that has not yet entered, so that its first access is to freed memory: the
  owner waits for \<open>running\<close> to be zero, which it also is before the workers have started.\<close>

theorem thread_pool_destroy_early:
  "\<exists>pool w. thread_pool_create 1 1 (Some [example_task]) = Some pool \<and> tp_reach pool w \<and> w_freed w \<and> w_workers w 0 = WStart"
proof -
  have "w_workers freed_before_start 0 = WStart" "w_freed freed_before_start"
    by (simp_all add: freed_before_start_def thread_pool_run_def example_pool_def)
  then show ?thesis using example_pool_new freed_before_start_reach by blast
qed

end
