(* ===== verification/OhTime.thy ===== *)
theory OhTime
  imports Prelude
begin

text \<open>
  The clock of \<^verbatim>\<open>ohutil/time.c\<close>: microseconds read from \<^verbatim>\<open>gettimeofday\<close>, with a cache, and the
  conversions to and from the structures of the system. What the system clock shows at its successive readings is a
  field of the state; times are \<^verbatim>\<open>int64_t\<close>.
\<close>

record timeval =
  tv_sec :: int
  tv_usec :: int

record timespec =
  ts_sec :: int
  ts_nsec :: int

record clock =
  ck_system :: "nat \<Rightarrow> timeval"
  ck_readings :: nat
  ck_is_cache :: bool
  ck_cached :: int

definition US_ONE_SEC :: int where "US_ONE_SEC = 1000000"
definition TIMESTR_LEN :: int where "TIMESTR_LEN = 25"

definition gettimeofday :: "clock \<Rightarrow> clock \<times> timeval" where
  "gettimeofday ck = (ck\<lparr>ck_readings := ck_readings ck + 1\<rparr>, ck_system ck (ck_readings ck))"

definition enable_time_cache :: "clock \<Rightarrow> clock" where
  "enable_time_cache ck = ck\<lparr>ck_is_cache := True\<rparr>"

definition disable_time_cache :: "clock \<Rightarrow> clock" where
  "disable_time_cache ck = ck\<lparr>ck_is_cache := False\<rparr>"

text \<open>Arithmetic that does not fit into 64 bits is undefined.\<close>

definition ohtime :: "int \<Rightarrow> int option" where
  "ohtime x = (if - (2 ^ 63) \<le> x \<and> x < 2 ^ 63 then Some x else None)"

definition get_time :: "clock \<Rightarrow> (clock \<times> int) option" where
  "get_time ck = (case gettimeofday ck of (ck, tv) \<Rightarrow> do {
     us \<leftarrow> ohtime (tv_sec tv * US_ONE_SEC);
     t \<leftarrow> ohtime (us + tv_usec tv);
     Some (ck, t) })"

definition update_catime :: "clock \<Rightarrow> (clock \<times> int) option" where
  "update_catime ck = do { (ck, t) \<leftarrow> get_time ck; Some (ck\<lparr>ck_cached := t\<rparr>, t) }"

definition get_catime :: "clock \<Rightarrow> (clock \<times> int) option" where
  "get_catime ck = (if ck_cached ck \<noteq> 0 \<and> ck_is_cache ck then Some (ck, ck_cached ck)
     else do { (ck, t) \<leftarrow> get_time ck; Some (ck\<lparr>ck_cached := t\<rparr>, t) })"

text \<open>Division of C truncates towards zero.\<close>

definition cdiv :: "int \<Rightarrow> int \<Rightarrow> int" where
  "cdiv a b = (if (a < 0) = (b < 0) then \<bar>a\<bar> div \<bar>b\<bar> else - (\<bar>a\<bar> div \<bar>b\<bar>))"

definition cmod :: "int \<Rightarrow> int \<Rightarrow> int" where
  "cmod a b = a - cdiv a b * b"

definition ohtime_to_timespec :: "int \<Rightarrow> timespec" where
  "ohtime_to_timespec t = \<lparr>ts_sec = cdiv t US_ONE_SEC, ts_nsec = cmod t US_ONE_SEC * 1000\<rparr>"

definition ohtime_to_timeval :: "int \<Rightarrow> timeval" where
  "ohtime_to_timeval t = \<lparr>tv_sec = cdiv t US_ONE_SEC, tv_usec = cmod t US_ONE_SEC\<rparr>"

definition timespec_to_ohtime :: "timespec \<Rightarrow> int option" where
  "timespec_to_ohtime ts = ohtime (ts_sec ts + cdiv (ts_nsec ts) 1000)"

definition timeval_to_ohtime :: "timeval \<Rightarrow> int option" where
  "timeval_to_ohtime tv = ohtime (tv_sec tv + tv_usec tv)"

text \<open>
  The text of a time is the work of \<^verbatim>\<open>localtime_r\<close> and \<^verbatim>\<open>snprintf\<close>, and is a parameter. A buffer that is too
  small is refused before the clock is read.
\<close>

definition get_time_str :: "(int \<Rightarrow> string) \<Rightarrow> clock \<Rightarrow> string \<Rightarrow> int \<Rightarrow> (clock \<times> string \<times> int) option" where
  "get_time_str to_str ck buf len = (if len < TIMESTR_LEN then Some (ck, buf, - 1)
     else do { (ck, us_now) \<leftarrow> get_time ck; Some (ck, to_str us_now, us_now) })"

definition get_catime_str :: "(int \<Rightarrow> string) \<Rightarrow> clock \<Rightarrow> string \<Rightarrow> int \<Rightarrow> (clock \<times> string \<times> int) option" where
  "get_catime_str to_str ck buf len = (if len < TIMESTR_LEN then Some (ck, buf, - 1)
     else do { (ck, us_canow) \<leftarrow> get_catime ck; Some (ck, to_str us_canow, us_canow) })"

text \<open>\<open>ret\<close> is the result of \<^verbatim>\<open>select\<close>, which sleeps; the rest of the time is returned when it was interrupted.\<close>

definition ohusleep :: "clock \<Rightarrow> int \<Rightarrow> int \<Rightarrow> (clock \<times> int) option" where
  "ohusleep ck sleepus ret = do {
     (ck, start) \<leftarrow> get_time ck;
     if ret = 0 then Some (ck, 0)
     else do {
       (ck, now) \<leftarrow> get_time ck;
       real \<leftarrow> ohtime (now - start);
       if real \<ge> sleepus then Some (ck, 0) else do { left \<leftarrow> ohtime (sleepus - real); Some (ck, left) } } }"

section \<open>Properties\<close>

lemma cdiv_nonneg: "0 \<le> a \<Longrightarrow> 0 < b \<Longrightarrow> cdiv a b = a div b"
  by (simp add: cdiv_def)

lemma cmod_nonneg: "0 \<le> a \<Longrightarrow> 0 < b \<Longrightarrow> cmod a b = a mod b"
  by (simp add: cmod_def cdiv_nonneg minus_div_mult_eq_mod)

lemma cdiv_neg: "a < 0 \<Longrightarrow> 0 < b \<Longrightarrow> cdiv a b = - ((- a) div b)"
  by (simp add: cdiv_def)

lemma cdiv_cmod: "cdiv a b * b + cmod a b = a"
  by (simp add: cmod_def)

text \<open>Readings within the range of 64 bits, so that \<^verbatim>\<open>get_time\<close> succeeds.\<close>

definition clock_ok :: "clock \<Rightarrow> bool" where
  "clock_ok ck \<longleftrightarrow> (\<forall>n. 0 \<le> tv_sec (ck_system ck n) \<and> tv_sec (ck_system ck n) < 2 ^ 40 \<and>
     0 \<le> tv_usec (ck_system ck n) \<and> tv_usec (ck_system ck n) < 1000000)"

definition reading :: "clock \<Rightarrow> nat \<Rightarrow> int" where
  "reading ck n = tv_sec (ck_system ck n) * US_ONE_SEC + tv_usec (ck_system ck n)"

lemma get_time_ok:
  assumes "clock_ok ck"
  shows "get_time ck = Some (ck\<lparr>ck_readings := ck_readings ck + 1\<rparr>, reading ck (ck_readings ck))"
    "0 \<le> reading ck n" "reading ck n < 2 ^ 62"
proof -
  have R: "0 \<le> tv_sec (ck_system ck n)" "tv_sec (ck_system ck n) < 2 ^ 40" "0 \<le> tv_usec (ck_system ck n)" "tv_usec (ck_system ck n) < 1000000" for n
    using assms by (simp_all add: clock_ok_def)
  show "0 \<le> reading ck n" "reading ck n < 2 ^ 62" using R [of n] by (simp_all add: reading_def US_ONE_SEC_def)
  show "get_time ck = Some (ck\<lparr>ck_readings := ck_readings ck + 1\<rparr>, reading ck (ck_readings ck))"
    using R [of "ck_readings ck"] by (simp add: get_time_def gettimeofday_def reading_def ohtime_def US_ONE_SEC_def)
qed

lemma ohtime_sum:
  assumes "0 \<le> u" "u < 1000000" "s * 1000000 + u < 2 ^ 62" "0 \<le> s"
  shows "ohtime (s + u) = Some (s + u)"
  using assms by (simp add: ohtime_def)

text \<open>The conversions to seconds and microseconds split a time exactly, and the way back does not undo it:
  \<^verbatim>\<open>timeval_to_ohtime\<close> and \<^verbatim>\<open>timespec_to_ohtime\<close> add the seconds to the microseconds without scaling them, so a
  time comes back unchanged only if it is less than a second.\<close>

theorem time_conversions:
  assumes "0 \<le> t" and "t < 2 ^ 62"
  shows "tv_sec (ohtime_to_timeval t) * US_ONE_SEC + tv_usec (ohtime_to_timeval t) = t \<and>
    0 \<le> tv_usec (ohtime_to_timeval t) \<and> tv_usec (ohtime_to_timeval t) < 1000000 \<and>
    (timeval_to_ohtime (ohtime_to_timeval t) = Some t \<longleftrightarrow> t < US_ONE_SEC) \<and>
    timespec_to_ohtime (ohtime_to_timespec t) = timeval_to_ohtime (ohtime_to_timeval t)"
proof -
  let ?s = "t div 1000000" let ?u = "t mod 1000000"
  have u: "0 \<le> ?u" "?u < 1000000" "?s * 1000000 + ?u = t" "0 \<le> ?s" using assms(1) by (simp_all add: pos_imp_zdiv_nonneg_iff)
  have tv: "ohtime_to_timeval t = \<lparr>tv_sec = ?s, tv_usec = ?u\<rparr>"
    using assms(1) by (simp add: ohtime_to_timeval_def US_ONE_SEC_def cdiv_nonneg cmod_nonneg)
  have ts: "ohtime_to_timespec t = \<lparr>ts_sec = ?s, ts_nsec = ?u * 1000\<rparr>"
    using assms(1) by (simp add: ohtime_to_timespec_def US_ONE_SEC_def cdiv_nonneg cmod_nonneg)
  have fits: "ohtime (?s + ?u) = Some (?s + ?u)" by (rule ohtime_sum) (use u assms in auto)
  have lossy: "timeval_to_ohtime (ohtime_to_timeval t) = Some (?s + ?u)"
    unfolding tv timeval_to_ohtime_def timeval.simps by (rule fits)
  have "cdiv (?u * 1000) 1000 = ?u" using u(1) by (simp add: cdiv_nonneg)
  then have "timespec_to_ohtime (ohtime_to_timespec t) = Some (?s + ?u)"
    unfolding ts timespec_to_ohtime_def timespec.simps using fits by simp
  moreover have "?s + ?u = t \<longleftrightarrow> t < 1000000"
  proof
    assume "?s + ?u = t"
    then have "?s = 0" using u(3) by linarith
    then show "t < 1000000" using u(2,3) by linarith
  next
    assume "t < 1000000"
    then have "?s = 0" using u(1,3,4) by linarith
    then show "?s + ?u = t" using u(3) by linarith
  qed
  ultimately show ?thesis using u lossy by (simp add: tv US_ONE_SEC_def)
qed

theorem time_conversions_witness: "timeval_to_ohtime (ohtime_to_timeval 1500000) \<noteq> Some 1500000"
  using time_conversions [of 1500000] by (simp add: US_ONE_SEC_def)

end
