(* ===== verification/Evt.thy ===== *)
theory Evt
  imports OhTime Splst Spheap
begin

unbundle bit_operations_syntax

text \<open>
  The event loop of \<^verbatim>\<open>ohev/evt.c\<close>: its state, the events, and the operations that start and stop them, queue them
  and run them. Events live in a store from addresses; every event has one \<^verbatim>\<open>next\<close> link and is in one list at a
  time. A function pointer is a number, 0 when it is \<^verbatim>\<open>NULL\<close>, and \<open>call\<close> says what the functions of the program do to
  the loop, so that they can start and stop events themselves. The C structures of the kinds of events begin with the
  same fields and are one record here. Allocations, whose results the code does not check, succeed.
\<close>

section \<open>State\<close>

record event =
  ev_active :: nat
  ev_priority :: nat
  ev_pendpos :: nat
  ev_data :: addr
  ev_cb :: nat
  ev_fd :: nat
  ev_event :: "8 word"
  ev_repeat :: int
  ev_timestamp :: int
  ev_clean :: nat

record fd_info =
  fi_evq :: addr
  fi_event :: "8 word"
  fi_revent :: "8 word"
  fi_flag :: "8 word"

definition FDS_FLAG_CHANGED :: "8 word" where "FDS_FLAG_CHANGED = 0x01"
definition EVT_READ :: "8 word" where "EVT_READ = 0x01"
definition EVT_WRITE :: "8 word" where "EVT_WRITE = 0x02"

definition LOOP_STATUS_INIT :: "8 word" where "LOOP_STATUS_INIT = 0x01"
definition LOOP_STATUS_STARTED :: "8 word" where "LOOP_STATUS_STARTED = 0x02"
definition LOOP_STATUS_RUNNING :: "8 word" where "LOOP_STATUS_RUNNING = 0x04"
definition LOOP_STATUS_SUSPEND :: "8 word" where "LOOP_STATUS_SUSPEND = 0x08"
definition LOOP_STATUS_QUITING :: "8 word" where "LOOP_STATUS_QUITING = 0x10"
definition LOOP_STATUS_STOP :: "8 word" where "LOOP_STATUS_STOP = 0x20"
definition LOOP_STATUS_WAITDESTROY :: "8 word" where "LOOP_STATUS_WAITDESTROY = 0x40"

definition LOOP_INIT_FDSSIZE :: nat where "LOOP_INIT_FDSSIZE = 32"
definition LOOP_INIT_PENDSIZE :: nat where "LOOP_INIT_PENDSIZE = 32"
definition LOOP_INIT_EVTSIZE :: nat where "LOOP_INIT_EVTSIZE = 32"
definition LOOP_PRIORITY_INIT_MAX :: nat where "LOOP_PRIORITY_INIT_MAX = 0"
definition LOOP_INIT_POLLUS :: int where "LOOP_INIT_POLLUS = 30000000"

text \<open>
  What \<^verbatim>\<open>epoll\<close> keeps: the descriptors of interest with their masks, and the descriptors it accepts. What
  \<^verbatim>\<open>epoll_wait\<close> reports is a function of the number of the call and its timeout.
\<close>

datatype wait_result = WaitError bool | WaitEvents "(nat \<times> 32 word) list"

record epoll =
  ep_fd :: nat
  ep_nevent :: nat
  ep_interest :: "nat \<rightharpoonup> 32 word"
  ep_accepts :: "nat \<Rightarrow> bool"
  ep_wait :: "nat \<Rightarrow> int \<Rightarrow> wait_result"
  ep_waits :: nat

text \<open>
  An array with a counter and a size is the list of its used elements and the size. \<open>lp_tid\<close> is the thread that runs,
  \<open>lp_evtfd_count\<close> the counter of the \<^verbatim>\<open>eventfd\<close>, \<open>lp_mutex\<close> and \<open>lp_cond\<close> tell whether the lock and the condition
  variable exist, and \<open>lp_freed\<close> that the loop has been destroyed.
\<close>

record evt_loop =
  lp_tid :: nat
  lp_clock :: clock
  lp_evs :: "addr \<rightharpoonup> event"
  lp_next :: links
  lp_owner_tid :: nat
  lp_status :: "8 word"
  lp_priority_max :: nat
  lp_fds :: "fd_info list"
  lp_fds_change :: "nat list"
  lp_fds_change_size :: nat
  lp_before_evtq :: addr
  lp_after_evtq :: addr
  lp_timers :: spheap
  lp_timer_cnt :: nat
  lp_pending :: "addr list list"
  lp_pending_size :: "nat list"
  lp_evtfd :: nat
  lp_evtfd_count :: nat
  lp_evtfd_ev :: addr
  lp_async_evtq :: addr
  lp_mutex :: bool
  lp_cond :: bool
  lp_poll_time_us :: int
  lp_poll :: "epoll option"
  lp_empty_ev :: addr
  lp_freed :: bool

type_synonym callbacks = "nat \<Rightarrow> addr \<Rightarrow> evt_loop \<Rightarrow> evt_loop option"

definition ev_get :: "evt_loop \<Rightarrow> addr \<Rightarrow> event option" where
  "ev_get loop e = (if e = NULL then None else lp_evs loop e)"

definition ev_put :: "evt_loop \<Rightarrow> addr \<Rightarrow> event \<Rightarrow> evt_loop" where
  "ev_put loop e ev = loop\<lparr>lp_evs := (lp_evs loop)(e \<mapsto> ev)\<rparr>"

definition fds_at :: "evt_loop \<Rightarrow> nat \<Rightarrow> fd_info option" where
  "fds_at loop fd = (if fd < length (lp_fds loop) then Some (lp_fds loop ! fd) else None)"

definition fds_put :: "evt_loop \<Rightarrow> nat \<Rightarrow> fd_info \<Rightarrow> evt_loop" where
  "fds_put loop fd fdi = loop\<lparr>lp_fds := (lp_fds loop)[fd := fdi]\<rparr>"

definition pend_q :: "evt_loop \<Rightarrow> nat \<Rightarrow> addr list option" where
  "pend_q loop i = (if i < length (lp_pending loop) then Some (lp_pending loop ! i) else None)"

definition has_bit :: "8 word \<Rightarrow> 8 word \<Rightarrow> bool" where
  "has_bit w b \<longleftrightarrow> w AND b \<noteq> 0"

section \<open>Initialisation of events\<close>

definition evt_set_data :: "event \<Rightarrow> addr \<Rightarrow> event" where
  "evt_set_data ev d = ev\<lparr>ev_data := d\<rparr>"

definition evt_base_init :: "event \<Rightarrow> nat \<Rightarrow> event" where
  "evt_base_init ev cb = ev\<lparr>ev_active := 0, ev_priority := 0, ev_pendpos := 0, ev_data := NULL, ev_cb := cb\<rparr>"

definition evt_io_init :: "event \<Rightarrow> nat \<Rightarrow> nat \<Rightarrow> 8 word \<Rightarrow> event" where
  "evt_io_init ev cb fd event = (evt_base_init ev cb)\<lparr>ev_event := event, ev_fd := fd\<rparr>"

definition evt_timer_init :: "event \<Rightarrow> nat \<Rightarrow> int \<Rightarrow> int \<Rightarrow> event" where
  "evt_timer_init ev cb after repeat = (evt_base_init ev cb)\<lparr>ev_repeat := repeat, ev_timestamp := after\<rparr>"

definition evt_before_init :: "event \<Rightarrow> nat \<Rightarrow> event" where
  "evt_before_init ev cb = evt_base_init ev cb"

definition evt_after_init :: "event \<Rightarrow> nat \<Rightarrow> event" where
  "evt_after_init ev cb = evt_base_init ev cb"

definition evt_async_init :: "event \<Rightarrow> nat \<Rightarrow> nat \<Rightarrow> event" where
  "evt_async_init ev cb clean = (evt_base_init ev cb)\<lparr>ev_clean := clean\<rparr>"

section \<open>Arrays that grow\<close>

definition adj_between :: "nat \<Rightarrow> nat \<Rightarrow> nat \<Rightarrow> nat" where
  "adj_between param minv maxv = (let param = (if param < minv then minv else param) in if param > maxv then maxv else param)"

text \<open>The size is an \<^verbatim>\<open>int\<close>, and the shift must not overflow.\<close>

definition expand_multi_two :: "nat \<Rightarrow> nat option" where
  "expand_multi_two x = (if x \<noteq> 0 then if 2 * x < 2 ^ 31 then Some (2 * x) else None else Some 1)"

definition check_and_expand_array :: "nat \<Rightarrow> nat \<Rightarrow> nat option" where
  "check_and_expand_array sz need = (if need > sz then while_c (\<lambda>sz. Some (sz < need)) expand_multi_two sz else Some sz)"

section \<open>The pending queues\<close>

definition evt_append_pending :: "evt_loop \<Rightarrow> addr \<Rightarrow> evt_loop option" where
  "evt_append_pending loop evt = do {
     ev \<leftarrow> ev_get loop evt;
     let pri = ev_priority ev;
     c_assert (pri \<le> lp_priority_max loop);
     if ev_pendpos ev = 0 then do {
       q \<leftarrow> pend_q loop pri;
       sz \<leftarrow> check_and_expand_array (lp_pending_size loop ! pri) (length q + 1);
       let loop = loop\<lparr>lp_pending_size := (lp_pending_size loop)[pri := sz], lp_pending := (lp_pending loop)[pri := q @ [evt]]\<rparr>;
       Some (ev_put loop evt (ev\<lparr>ev_pendpos := length q + 1\<rparr>)) }
     else Some loop }"

text \<open>The loops over a list of events that queue all of them (before and after events).\<close>

definition append_pending_step :: "addr \<times> evt_loop \<Rightarrow> (addr \<times> evt_loop) option" where
  "append_pending_step s = (case s of (eb, loop) \<Rightarrow> do {
     loop \<leftarrow> evt_append_pending loop eb;
     eb \<leftarrow> splst_next (lp_next loop) eb;
     Some (eb, loop) })"

definition append_pending_list :: "evt_loop \<Rightarrow> addr \<Rightarrow> evt_loop option" where
  "append_pending_list loop head = do {
     (eb, loop) \<leftarrow> while_c (\<lambda>(eb, loop). Some (eb \<noteq> NULL)) append_pending_step (head, loop);
     Some loop }"

text \<open>What every stop does to an event that is in a pending queue: the empty event takes its place.\<close>

definition evt_unpend :: "evt_loop \<Rightarrow> addr \<Rightarrow> evt_loop option" where
  "evt_unpend loop e = do {
     ev \<leftarrow> ev_get loop e;
     if ev_pendpos ev \<noteq> 0 then do {
       q \<leftarrow> pend_q loop (ev_priority ev);
       c_assert (ev_pendpos ev - 1 < length q);
       let loop = loop\<lparr>lp_pending := (lp_pending loop)[ev_priority ev := q[ev_pendpos ev - 1 := lp_empty_ev loop]]\<rparr>;
       Some (ev_put loop e (ev\<lparr>ev_pendpos := 0\<rparr>)) }
     else Some loop }"

section \<open>Changes of descriptors\<close>

definition evt_fd_change :: "evt_loop \<Rightarrow> nat \<Rightarrow> evt_loop option" where
  "evt_fd_change loop fd = do {
     fdi \<leftarrow> fds_at loop fd;
     if \<not> has_bit (fi_flag fdi) FDS_FLAG_CHANGED then do {
       sz \<leftarrow> check_and_expand_array (lp_fds_change_size loop) (length (lp_fds_change loop) + 1);
       let loop = loop\<lparr>lp_fds_change_size := sz, lp_fds_change := lp_fds_change loop @ [fd]\<rparr>;
       Some (fds_put loop fd (fdi\<lparr>fi_flag := fi_flag fdi OR FDS_FLAG_CHANGED\<rparr>)) }
     else Some loop }"

section \<open>Starting and stopping events\<close>

definition wrong_thread :: "evt_loop \<Rightarrow> bool" where
  "wrong_thread loop \<longleftrightarrow> lp_owner_tid loop \<noteq> 0 \<and> lp_owner_tid loop \<noteq> lp_tid loop"

definition ev_activate :: "evt_loop \<Rightarrow> addr \<Rightarrow> event \<Rightarrow> evt_loop" where
  "ev_activate loop e ev = ev_put loop e (ev\<lparr>ev_active := 1, ev_priority := adj_between (ev_priority ev) 0 (lp_priority_max loop)\<rparr>)"

definition evt_io_start :: "evt_loop \<Rightarrow> addr \<Rightarrow> evt_loop option" where
  "evt_io_start loop e =
     (if wrong_thread loop then Some loop
      else do {
        ev \<leftarrow> ev_get loop e;
        if ev_active ev = 1 then Some loop
        else do {
          let loop = ev_activate loop e ev;
          sz \<leftarrow> check_and_expand_array (length (lp_fds loop)) (ev_fd ev + 1);
          let loop = loop\<lparr>lp_fds := lp_fds loop @
            replicate (sz - length (lp_fds loop)) \<lparr>fi_evq = NULL, fi_event = 0, fi_revent = 0, fi_flag = 0\<rparr>\<rparr>;
          fdi \<leftarrow> fds_at loop (ev_fd ev);
          (nx, head) \<leftarrow> splst_add (lp_next loop) (fi_evq fdi) e;
          let loop = fds_put (loop\<lparr>lp_next := nx\<rparr>) (ev_fd ev) (fdi\<lparr>fi_evq := head\<rparr>);
          evt_fd_change loop (ev_fd ev) } })"

definition evt_io_stop :: "evt_loop \<Rightarrow> addr \<Rightarrow> evt_loop option" where
  "evt_io_stop loop e =
     (if wrong_thread loop then Some loop
      else do {
        ev \<leftarrow> ev_get loop e;
        if ev_active ev = 0 then Some loop
        else do {
          loop \<leftarrow> evt_unpend (ev_put loop e (ev\<lparr>ev_active := 0\<rparr>)) e;
          fdi \<leftarrow> fds_at loop (ev_fd ev);
          (nx, head) \<leftarrow> splst_del (lp_next loop) (fi_evq fdi) e;
          let loop = fds_put (loop\<lparr>lp_next := nx\<rparr>) (ev_fd ev) (fdi\<lparr>fi_evq := head\<rparr>);
          evt_fd_change loop (ev_fd ev) } })"

definition loop_catime :: "evt_loop \<Rightarrow> (evt_loop \<times> int) option" where
  "loop_catime loop = do { (ck, t) \<leftarrow> get_catime (lp_clock loop); Some (loop\<lparr>lp_clock := ck\<rparr>, t) }"

definition timestamp_of :: "evt_loop \<Rightarrow> addr \<Rightarrow> int" where
  "timestamp_of loop e = (case lp_evs loop e of None \<Rightarrow> 0 | Some ev \<Rightarrow> ev_timestamp ev)"

definition EVTTIMER_CMP :: "evt_loop \<Rightarrow> addr \<Rightarrow> addr \<Rightarrow> bool" where
  "EVTTIMER_CMP loop ta tb \<longleftrightarrow> timestamp_of loop ta < timestamp_of loop tb"

text \<open>New elements of the timer array are not initialised; they are written before they are read.\<close>

definition evt_timer_start :: "evt_loop \<Rightarrow> addr \<Rightarrow> evt_loop option" where
  "evt_timer_start loop e =
     (if wrong_thread loop then Some loop
      else do {
        ev \<leftarrow> ev_get loop e;
        if ev_active ev = 1 then Some loop
        else do {
          let loop = ev_activate loop e ev;
          sz \<leftarrow> check_and_expand_array (length (sp_arr (lp_timers loop))) (lp_timer_cnt loop + 2);
          let loop = loop\<lparr>lp_timers := (lp_timers loop)\<lparr>sp_arr := sp_arr (lp_timers loop) @
            replicate (sz - length (sp_arr (lp_timers loop))) NULL\<rparr>\<rparr>;
          (loop, now) \<leftarrow> loop_catime loop;
          ev \<leftarrow> ev_get loop e;
          t \<leftarrow> ohtime (ev_timestamp ev + now);
          let loop = ev_put loop e (ev\<lparr>ev_timestamp := t\<rparr>);
          (h, cnt) \<leftarrow> spheap_push (EVTTIMER_CMP loop) (lp_timers loop) (lp_timer_cnt loop) e;
          Some (loop\<lparr>lp_timers := h, lp_timer_cnt := cnt\<rparr>) } })"

definition evt_timer_stop :: "evt_loop \<Rightarrow> addr \<Rightarrow> evt_loop option" where
  "evt_timer_stop loop e =
     (if wrong_thread loop then Some loop
      else do {
        ev \<leftarrow> ev_get loop e;
        if ev_active ev = 0 then Some loop
        else do {
          loop \<leftarrow> evt_unpend (ev_put loop e (ev\<lparr>ev_active := 0\<rparr>)) e;
          pos \<leftarrow> sp_pos (lp_timers loop) e;
          if pos > 0 then do {
            (h, cnt) \<leftarrow> spheap_delete (EVTTIMER_CMP loop) (lp_timers loop) pos (lp_timer_cnt loop);
            Some (loop\<lparr>lp_timers := h, lp_timer_cnt := cnt\<rparr>) }
          else Some loop } })"

definition evt_before_start :: "evt_loop \<Rightarrow> addr \<Rightarrow> evt_loop option" where
  "evt_before_start loop e =
     (if wrong_thread loop then Some loop
      else do {
        ev \<leftarrow> ev_get loop e;
        if ev_active ev = 1 then Some loop
        else do {
          let loop = ev_activate loop e ev;
          (nx, head) \<leftarrow> splst_add (lp_next loop) (lp_before_evtq loop) e;
          Some (loop\<lparr>lp_next := nx, lp_before_evtq := head\<rparr>) } })"

definition evt_before_stop :: "evt_loop \<Rightarrow> addr \<Rightarrow> evt_loop option" where
  "evt_before_stop loop e =
     (if wrong_thread loop then Some loop
      else do {
        ev \<leftarrow> ev_get loop e;
        if ev_active ev = 0 then Some loop
        else do {
          loop \<leftarrow> evt_unpend (ev_put loop e (ev\<lparr>ev_active := 0\<rparr>)) e;
          (nx, head) \<leftarrow> splst_del (lp_next loop) (lp_before_evtq loop) e;
          Some (loop\<lparr>lp_next := nx, lp_before_evtq := head\<rparr>) } })"

definition evt_after_start :: "evt_loop \<Rightarrow> addr \<Rightarrow> evt_loop option" where
  "evt_after_start loop e =
     (if wrong_thread loop then Some loop
      else do {
        ev \<leftarrow> ev_get loop e;
        if ev_active ev = 1 then Some loop
        else do {
          let loop = ev_activate loop e ev;
          (nx, head) \<leftarrow> splst_add (lp_next loop) (lp_after_evtq loop) e;
          Some (loop\<lparr>lp_next := nx, lp_after_evtq := head\<rparr>) } })"

definition evt_after_stop :: "evt_loop \<Rightarrow> addr \<Rightarrow> evt_loop option" where
  "evt_after_stop loop e =
     (if wrong_thread loop then Some loop
      else do {
        ev \<leftarrow> ev_get loop e;
        if ev_active ev = 0 then Some loop
        else do {
          loop \<leftarrow> evt_unpend (ev_put loop e (ev\<lparr>ev_active := 0\<rparr>)) e;
          (nx, head) \<leftarrow> splst_del (lp_next loop) (lp_after_evtq loop) e;
          Some (loop\<lparr>lp_next := nx, lp_after_evtq := head\<rparr>) } })"

section \<open>Asynchronous events\<close>

text \<open>The lock is taken in other threads only; what is done under it is the same.\<close>

definition evt_async_start :: "evt_loop \<Rightarrow> addr \<Rightarrow> evt_loop option" where
  "evt_async_start loop e = do {
     ev \<leftarrow> ev_get loop e;
     if ev_active ev = 1 then Some loop
     else do {
       let loop = ev_put loop e (ev\<lparr>ev_active := 1\<rparr>);
       (nx, head) \<leftarrow> splst_add (lp_next loop) (lp_async_evtq loop) e;
       Some (loop\<lparr>lp_next := nx, lp_async_evtq := head\<rparr>) } }"

definition evt_async_stop :: "evt_loop \<Rightarrow> addr \<Rightarrow> evt_loop option" where
  "evt_async_stop loop e = do {
     ev \<leftarrow> ev_get loop e;
     if ev_active ev = 0 then Some loop
     else do {
       let loop = ev_put loop e (ev\<lparr>ev_active := 0\<rparr>);
       (nx, head) \<leftarrow> splst_del (lp_next loop) (lp_async_evtq loop) e;
       Some (loop\<lparr>lp_next := nx, lp_async_evtq := head\<rparr>) } }"

text \<open>A write to the \<^verbatim>\<open>eventfd\<close> adds to its counter and fails when it would overflow; a read returns the counter and
  resets it, and fails when it is zero.\<close>

definition evt_loop_wakeup :: "evt_loop \<Rightarrow> evt_loop \<times> int" where
  "evt_loop_wakeup loop = (if lp_evtfd_count loop + 1 < 2 ^ 64 - 1 then (loop\<lparr>lp_evtfd_count := lp_evtfd_count loop + 1\<rparr>, 0)
     else (loop, - 1))"

definition async_step :: "callbacks \<Rightarrow> addr \<times> evt_loop \<Rightarrow> (addr \<times> evt_loop) option" where
  "async_step call s = (case s of (async_now, loop) \<Rightarrow> do {
     async_head \<leftarrow> splst_next (lp_next loop) async_now;
     ev \<leftarrow> ev_get loop async_now;
     loop \<leftarrow> (if ev_cb ev \<noteq> 0 then call (ev_cb ev) async_now loop else Some loop);
     ev \<leftarrow> ev_get loop async_now;
     loop \<leftarrow> (if ev_clean ev \<noteq> 0 then call (ev_clean ev) async_now loop else Some loop);
     Some (async_head, loop) })"

definition evt_do_wakeup :: "callbacks \<Rightarrow> evt_loop \<Rightarrow> addr \<Rightarrow> evt_loop option" where
  "evt_do_wakeup call loop e =
     (if has_bit (lp_status loop) LOOP_STATUS_QUITING then Some loop
      else if lp_evtfd_count loop = 0 then Some loop
      else do {
        let loop = loop\<lparr>lp_evtfd_count := 0\<rparr>;
        let async_head = lp_async_evtq loop;
        let loop = loop\<lparr>lp_async_evtq := NULL\<rparr>;
        (async_head, loop) \<leftarrow> while_c (\<lambda>(async_head, loop). Some (async_head \<noteq> NULL)) (async_step call) (async_head, loop);
        Some loop })"

section \<open>Running the pending events\<close>

text \<open>The callback of the event of the \<^verbatim>\<open>eventfd\<close> is a function of the loop itself.\<close>

definition CB_WAKEUP :: nat where "CB_WAKEUP = 1"

definition invoke :: "callbacks \<Rightarrow> nat \<Rightarrow> addr \<Rightarrow> evt_loop \<Rightarrow> evt_loop option" where
  "invoke call cb e loop = (if cb = CB_WAKEUP then evt_do_wakeup call loop e else call cb e loop)"

definition execute_step :: "callbacks \<Rightarrow> nat \<Rightarrow> nat \<times> evt_loop \<Rightarrow> (nat \<times> evt_loop) option" where
  "execute_step call i s = (case s of (j, loop) \<Rightarrow> do {
     q \<leftarrow> pend_q loop i;
     c_assert (j < length q);
     let eb = q ! j;
     ev \<leftarrow> ev_get loop eb;
     let loop = ev_put loop eb (ev\<lparr>ev_pendpos := 0\<rparr>);
     loop \<leftarrow> (if ev_cb ev \<noteq> 0 then invoke call (ev_cb ev) eb loop else Some loop);
     Some (j + 1, loop) })"

definition execute_cond :: "nat \<Rightarrow> nat \<times> evt_loop \<Rightarrow> bool option" where
  "execute_cond i s = (case s of (j, loop) \<Rightarrow> do { q \<leftarrow> pend_q loop i; Some (j < length q) })"

definition execute_queue :: "callbacks \<Rightarrow> nat \<times> evt_loop \<Rightarrow> (nat \<times> evt_loop) option" where
  "execute_queue call s = (case s of (i, loop) \<Rightarrow> do {
     (j, loop) \<leftarrow> while_c (execute_cond i) (execute_step call i) (0, loop);
     Some (i + 1, loop\<lparr>lp_pending := (lp_pending loop)[i := []]\<rparr>) })"

definition evt_execute_pending :: "callbacks \<Rightarrow> evt_loop \<Rightarrow> evt_loop option" where
  "evt_execute_pending call loop = do {
     (i, loop) \<leftarrow> while_c (\<lambda>(i, loop). Some (i \<le> lp_priority_max loop)) (execute_queue call) (0, loop);
     Some loop }"

end
