(* ===== verification/Epoll.thy ===== *)
theory Epoll
  imports Evt
begin

text \<open>
  The backend of the event loop, \<^verbatim>\<open>ohev/bkepoll.c\<close>. \<open>epoll_ctl\<close> is the documented behaviour of the system call on
  the descriptors of interest; what \<^verbatim>\<open>epoll_wait\<close> reports is a parameter in the state.
\<close>

definition EPOLLIN :: "32 word" where "EPOLLIN = 0x001"
definition EPOLLOUT :: "32 word" where "EPOLLOUT = 0x004"
definition EPOLLERR :: "32 word" where "EPOLLERR = 0x008"
definition EPOLLHUP :: "32 word" where "EPOLLHUP = 0x010"

definition EPOLL_INIT_NEVENT :: nat where "EPOLL_INIT_NEVENT = 32"
definition EPOLL_MAX_NEVENT :: nat where "EPOLL_MAX_NEVENT = 4096"

datatype epoll_op = EPOLL_CTL_ADD | EPOLL_CTL_MOD | EPOLL_CTL_DEL

datatype errno = ENOENT | EEXIST | EPERM

definition epoll_ctl :: "epoll \<Rightarrow> epoll_op \<Rightarrow> nat \<Rightarrow> 32 word \<Rightarrow> epoll \<times> errno option" where
  "epoll_ctl ep op fd msk =
     (if \<not> ep_accepts ep fd then (ep, Some EPERM)
      else case op of
        EPOLL_CTL_ADD \<Rightarrow> (case ep_interest ep fd of
          None \<Rightarrow> (ep\<lparr>ep_interest := (ep_interest ep)(fd \<mapsto> msk)\<rparr>, None) | Some old \<Rightarrow> (ep, Some EEXIST))
      | EPOLL_CTL_MOD \<Rightarrow> (case ep_interest ep fd of
          None \<Rightarrow> (ep, Some ENOENT) | Some old \<Rightarrow> (ep\<lparr>ep_interest := (ep_interest ep)(fd \<mapsto> msk)\<rparr>, None))
      | EPOLL_CTL_DEL \<Rightarrow> (case ep_interest ep fd of
          None \<Rightarrow> (ep, Some ENOENT) | Some old \<Rightarrow> (ep\<lparr>ep_interest := (ep_interest ep)(fd := None)\<rparr>, None)))"

text \<open>The masks of the loop as masks of \<^verbatim>\<open>epoll\<close>, and what the code makes of reported ones.\<close>

definition epoll_events :: "8 word \<Rightarrow> 32 word" where
  "epoll_events ev = (if has_bit ev EVT_READ then EPOLLIN else 0) OR (if has_bit ev EVT_WRITE then EPOLLOUT else 0)"

definition epoll_revents :: "32 word \<Rightarrow> 8 word" where
  "epoll_revents events =
     (if events AND (EPOLLIN OR EPOLLERR OR EPOLLHUP) \<noteq> 0 then EVT_READ else 0) OR
     (if events AND (EPOLLOUT OR EPOLLERR OR EPOLLHUP) \<noteq> 0 then EVT_WRITE else 0)"

text \<open>\<open>fd\<close> is what \<^verbatim>\<open>epoll_create1\<close> returned: negative when it failed.\<close>

definition epoll_init :: "evt_loop \<Rightarrow> int \<Rightarrow> (nat \<Rightarrow> bool) \<Rightarrow> (nat \<Rightarrow> int \<Rightarrow> wait_result) \<Rightarrow> evt_loop" where
  "epoll_init loop fd accepts wait =
     (if fd < 0 then loop
      else loop\<lparr>lp_poll := Some \<lparr>ep_fd = nat fd, ep_nevent = EPOLL_INIT_NEVENT, ep_interest = Map.empty, ep_accepts = accepts,
        ep_wait = wait, ep_waits = 0\<rparr>\<rparr>)"

definition epoll_destroy :: "evt_loop \<Rightarrow> evt_loop option" where
  "epoll_destroy loop = (case lp_poll loop of None \<Rightarrow> None | Some ep \<Rightarrow> Some (loop\<lparr>lp_poll := None\<rparr>))"

text \<open>The call of \<^verbatim>\<open>epoll_ctl\<close> and what is tried again when it fails.\<close>

definition epoll_change :: "epoll \<Rightarrow> nat \<Rightarrow> 8 word \<Rightarrow> 8 word \<Rightarrow> epoll \<times> int" where
  "epoll_change ep fd oev nev =
     (case epoll_ctl ep (if nev \<noteq> 0 then if oev \<noteq> 0 then EPOLL_CTL_MOD else EPOLL_CTL_ADD else EPOLL_CTL_DEL) fd (epoll_events nev) of
       (ep, None) \<Rightarrow> (ep, 0)
     | (ep, Some errno) \<Rightarrow>
         if errno = ENOENT \<and> nev = 0 then (ep, 0)
         else (case (if errno = ENOENT then epoll_ctl ep EPOLL_CTL_ADD fd (epoll_events nev) else (ep, Some errno)) of
             (ep, None) \<Rightarrow> (ep, 0)
           | (ep, Some errno) \<Rightarrow>
               (case (if errno = EEXIST then epoll_ctl ep EPOLL_CTL_MOD fd (epoll_events nev) else (ep, Some errno)) of
                 (ep, None) \<Rightarrow> (ep, 0)
               | (ep, Some errno) \<Rightarrow> (ep, - 1))))"

text \<open>The result is \<open>None\<close> where the code returns no value; the loop does not use it.\<close>

definition epoll_update :: "evt_loop \<Rightarrow> nat \<Rightarrow> 8 word \<Rightarrow> 8 word \<Rightarrow> (evt_loop \<times> int option) option" where
  "epoll_update loop fd oev nev =
     (if nev = 0 then Some (loop, None)
      else do {
        ep \<leftarrow> lp_poll loop;
        let (ep, ret) = epoll_change ep fd oev nev;
        Some (loop\<lparr>lp_poll := Some ep\<rparr>, Some ret) })"

section \<open>Waiting for events\<close>

definition wait_ms :: "int \<Rightarrow> int" where
  "wait_ms poll_us = (if poll_us < 0 then - 1 else if poll_us > 0 then cdiv poll_us 1000 + 1 else 0)"

definition dispatch_step :: "8 word \<Rightarrow> addr \<times> evt_loop \<Rightarrow> (addr \<times> evt_loop) option" where
  "dispatch_step rvt s = (case s of (eb, loop) \<Rightarrow> do {
     ev \<leftarrow> ev_get loop eb;
     loop \<leftarrow> (if ev_event ev AND rvt \<noteq> 0 then evt_append_pending loop eb else Some loop);
     eb \<leftarrow> splst_next (lp_next loop) eb;
     Some (eb, loop) })"

text \<open>One reported event.\<close>

definition dispatch_event :: "evt_loop \<Rightarrow> nat \<times> 32 word \<Rightarrow> evt_loop option" where
  "dispatch_event loop evt = (case evt of (fd, events) \<Rightarrow> do {
     fdi \<leftarrow> fds_at loop fd;
     let rvt = epoll_revents events;
     let loop = fds_put loop fd (fdi\<lparr>fi_revent := rvt\<rparr>);
     let want = fi_event fdi;
     ep \<leftarrow> lp_poll loop;
     let ep = (if rvt AND NOT want \<noteq> 0 then fst (epoll_ctl ep (if want \<noteq> 0 then EPOLL_CTL_MOD else EPOLL_CTL_DEL) fd (epoll_events want)) else ep);
     let loop = loop\<lparr>lp_poll := Some ep\<rparr>;
     (eb, loop) \<leftarrow> while_c (\<lambda>(eb, loop). Some (eb \<noteq> NULL)) (dispatch_step rvt) (fi_evq fdi, loop);
     Some loop })"

primrec dispatch_events :: "(nat \<times> 32 word) list \<Rightarrow> evt_loop \<Rightarrow> evt_loop option" where
  "dispatch_events [] loop = Some loop"
| "dispatch_events (evt # evts) loop = do { loop \<leftarrow> dispatch_event loop evt; dispatch_events evts loop }"

definition epoll_dispatch :: "evt_loop \<Rightarrow> (evt_loop \<times> int option) option" where
  "epoll_dispatch loop = do {
     ep \<leftarrow> lp_poll loop;
     let res = ep_wait ep (ep_waits ep) (wait_ms (lp_poll_time_us loop));
     let loop = loop\<lparr>lp_poll := Some (ep\<lparr>ep_waits := ep_waits ep + 1\<rparr>)\<rparr>;
     case res of
       WaitError interrupted \<Rightarrow> Some (loop, Some (if interrupted then 0 else - 1))
     | WaitEvents evts \<Rightarrow> do {
         c_assert (length evts \<le> ep_nevent ep);
         loop \<leftarrow> dispatch_events evts loop;
         ep \<leftarrow> lp_poll loop;
         ep \<leftarrow> (if length evts = ep_nevent ep \<and> ep_nevent ep < EPOLL_MAX_NEVENT
           then do { n \<leftarrow> check_and_expand_array (ep_nevent ep) (ep_nevent ep * 2); Some (ep\<lparr>ep_nevent := n\<rparr>) }
           else Some ep);
         Some (loop\<lparr>lp_poll := Some ep\<rparr>, None) } }"

end
