(* ===== verification/EvtLoop.thy ===== *)
theory EvtLoop
  imports Epoll
begin

text \<open>
  The rounds of the event loop of \<^verbatim>\<open>ohev/evt.c\<close>, its creation, its end, and the changes of descriptors it passes to
  the backend.
\<close>

section \<open>Changes of descriptors\<close>

definition evq_mask_step :: "addr \<times> evt_loop \<times> 8 word \<Rightarrow> (addr \<times> evt_loop \<times> 8 word) option" where
  "evq_mask_step s = (case s of (eb, loop, nev) \<Rightarrow> do {
     ev \<leftarrow> ev_get loop eb;
     eb \<leftarrow> splst_next (lp_next loop) eb;
     Some (eb, loop, nev OR ev_event ev) })"

definition evq_mask :: "evt_loop \<Rightarrow> addr \<Rightarrow> 8 word option" where
  "evq_mask loop head = do {
     (eb, loop, nev) \<leftarrow> while_c (\<lambda>(eb, loop, nev). Some (eb \<noteq> NULL)) evq_mask_step (head, loop, 0);
     Some nev }"

definition update_fdchange :: "evt_loop \<Rightarrow> nat \<Rightarrow> evt_loop option" where
  "update_fdchange loop fd = do {
     fdi \<leftarrow> fds_at loop fd;
     let fdi = fdi\<lparr>fi_flag := fi_flag fdi AND NOT FDS_FLAG_CHANGED\<rparr>;
     let loop = fds_put loop fd fdi;
     let oev = fi_event fdi;
     nev \<leftarrow> evq_mask loop (fi_evq fdi);
     if oev \<noteq> nev then do {
       (loop, r) \<leftarrow> epoll_update (fds_put loop fd (fdi\<lparr>fi_event := nev\<rparr>)) fd oev nev;
       Some loop }
     else Some loop }"

primrec update_fdchange_list :: "nat list \<Rightarrow> evt_loop \<Rightarrow> evt_loop option" where
  "update_fdchange_list [] loop = Some loop"
| "update_fdchange_list (fd # fds) loop = do { loop \<leftarrow> update_fdchange loop fd; update_fdchange_list fds loop }"

definition evt_update_fdchanges :: "evt_loop \<Rightarrow> evt_loop option" where
  "evt_update_fdchanges loop = do {
     loop \<leftarrow> update_fdchange_list (lp_fds_change loop) loop;
     Some (loop\<lparr>lp_fds_change := []\<rparr>) }"

section \<open>Quitting and destroying\<close>

definition evt_loop_quit :: "evt_loop \<Rightarrow> evt_loop \<times> int" where
  "evt_loop_quit loop = (let loop = loop\<lparr>lp_status := lp_status loop OR LOOP_STATUS_QUITING\<rparr> in
     (if lp_owner_tid loop \<noteq> lp_tid loop then fst (evt_loop_wakeup loop) else loop, 0))"

definition async_clean_step :: "callbacks \<Rightarrow> addr \<times> evt_loop \<Rightarrow> (addr \<times> evt_loop) option" where
  "async_clean_step call s = (case s of (async_now, loop) \<Rightarrow> do {
     async_head \<leftarrow> splst_next (lp_next loop) async_now;
     ev \<leftarrow> ev_get loop async_now;
     loop \<leftarrow> (if ev_clean ev \<noteq> 0 then call (ev_clean ev) async_now loop else Some loop);
     Some (async_head, loop) })"

text \<open>The lock and the condition variable are destroyed through their pointers, which must not be \<^verbatim>\<open>NULL\<close>.\<close>

definition evt_loop_destroy :: "callbacks \<Rightarrow> evt_loop \<Rightarrow> evt_loop option" where
  "evt_loop_destroy call loop =
     (if has_bit (lp_status loop) LOOP_STATUS_RUNNING
      then Some (fst (evt_loop_quit (loop\<lparr>lp_status := lp_status loop OR LOOP_STATUS_WAITDESTROY\<rparr>)))
      else do {
        (async_head, loop) \<leftarrow> while_c (\<lambda>(async_head, loop). Some (async_head \<noteq> NULL)) (async_clean_step call) (lp_async_evtq loop, loop);
        c_assert (lp_mutex loop);
        loop \<leftarrow> (if lp_poll loop \<noteq> None then epoll_destroy loop else Some loop);
        c_assert (lp_cond loop);
        Some (loop\<lparr>lp_mutex := False, lp_cond := False, lp_freed := True\<rparr>) })"

section \<open>Creating the loop\<close>

text \<open>The memory of the loop once it is zeroed and its arrays are there.\<close>

definition evt_loop_zero :: "nat \<Rightarrow> clock \<Rightarrow> (addr \<rightharpoonup> event) \<Rightarrow> links \<Rightarrow> (addr \<rightharpoonup> nat) \<Rightarrow> evt_loop" where
  "evt_loop_zero tid ck evs nx pos = \<lparr>lp_tid = tid, lp_clock = ck, lp_evs = evs, lp_next = nx, lp_owner_tid = 0, lp_status = LOOP_STATUS_INIT,
     lp_priority_max = 0, lp_fds = replicate LOOP_INIT_FDSSIZE \<lparr>fi_evq = NULL, fi_event = 0, fi_revent = 0, fi_flag = 0\<rparr>,
     lp_fds_change = [], lp_fds_change_size = LOOP_INIT_FDSSIZE, lp_before_evtq = NULL, lp_after_evtq = NULL,
     lp_timers = \<lparr>sp_arr = replicate LOOP_INIT_EVTSIZE NULL, sp_pos = pos\<rparr>, lp_timer_cnt = 0,
     lp_pending = [], lp_pending_size = [], lp_evtfd = 0, lp_evtfd_count = 0, lp_evtfd_ev = NULL, lp_async_evtq = NULL,
     lp_mutex = False, lp_cond = False, lp_poll_time_us = 0, lp_poll = None, lp_empty_ev = NULL, lp_freed = False\<rparr>"

text \<open>
  \<open>evtfd\<close> and \<open>epfd\<close> are the descriptors the system returned, \<open>evev\<close> and \<open>empt\<close> the addresses of the events the loop
  allocates. When there is no \<^verbatim>\<open>eventfd\<close> the loop that was not completed is destroyed; the result is \<open>None\<close> in the pair.
\<close>

definition evt_loop_init_flag ::
  "callbacks \<Rightarrow> evt_loop \<Rightarrow> int \<Rightarrow> int \<Rightarrow> (nat \<Rightarrow> bool) \<Rightarrow> (nat \<Rightarrow> int \<Rightarrow> wait_result) \<Rightarrow> addr \<Rightarrow> addr \<Rightarrow> event \<Rightarrow> (evt_loop \<times> bool) option" where
  "evt_loop_init_flag call loop evtfd epfd accepts wait evev empt garbage =
     (if evtfd < 0 then do {
        loop \<leftarrow> evt_loop_destroy call loop;
        Some (loop, False) }
      else do {
        let loop = loop\<lparr>lp_evtfd := nat evtfd, lp_evtfd_ev := evev,
          lp_evs := (lp_evs loop)(evev \<mapsto> evt_io_init garbage CB_WAKEUP (nat evtfd) EVT_READ), lp_next := (lp_next loop)(evev \<mapsto> NULL)\<rparr>;
        loop \<leftarrow> evt_io_start loop evev;
        let loop = loop\<lparr>lp_async_evtq := NULL, lp_mutex := True\<rparr>;
        let loop = epoll_init (loop\<lparr>lp_poll_time_us := LOOP_INIT_POLLUS\<rparr>) epfd accepts wait;
        let loop = loop\<lparr>lp_cond := True, lp_priority_max := LOOP_PRIORITY_INIT_MAX,
          lp_pending := replicate (LOOP_PRIORITY_INIT_MAX + 1) [], lp_pending_size := replicate (LOOP_PRIORITY_INIT_MAX + 1) LOOP_INIT_PENDSIZE\<rparr>;
        Some (loop\<lparr>lp_empty_ev := empt, lp_evs := (lp_evs loop)(empt \<mapsto> evt_base_init garbage 0)\<rparr>, True) })"

section \<open>A round\<close>

definition loop_update_catime :: "evt_loop \<Rightarrow> evt_loop option" where
  "loop_update_catime loop = do { (ck, t) \<leftarrow> update_catime (lp_clock loop); Some (loop\<lparr>lp_clock := ck\<rparr>) }"

definition timer_top :: "evt_loop \<Rightarrow> addr option" where
  "timer_top loop = sp_at (lp_timers loop) 1"

text \<open>The time to wait: the default, or until the first timer, or not at all when that one is due.\<close>

definition set_poll_time :: "evt_loop \<Rightarrow> evt_loop option" where
  "set_poll_time loop = do {
     let loop = loop\<lparr>lp_poll_time_us := LOOP_INIT_POLLUS\<rparr>;
     if lp_timer_cnt loop > 0 then do {
       e \<leftarrow> timer_top loop;
       ev \<leftarrow> ev_get loop e;
       (loop, now) \<leftarrow> loop_catime loop;
       left \<leftarrow> ohtime (ev_timestamp ev - now);
       if lp_poll_time_us loop < 0 \<or> left < lp_poll_time_us loop then do {
         (loop, now) \<leftarrow> loop_catime loop;
         left \<leftarrow> ohtime (ev_timestamp ev - now);
         Some (loop\<lparr>lp_poll_time_us := (if left < 0 then 0 else left)\<rparr>) }
       else Some loop }
     else Some loop }"

text \<open>One round of the loop over the timers that are due; the flag is its \<^verbatim>\<open>break\<close>.\<close>

definition timer_step :: "evt_loop \<times> bool \<Rightarrow> (evt_loop \<times> bool) option" where
  "timer_step s = (case s of (loop, stop) \<Rightarrow> do {
     evtm \<leftarrow> timer_top loop;
     ev \<leftarrow> ev_get loop evtm;
     (loop, now) \<leftarrow> loop_catime loop;
     if ev_timestamp ev > now then Some (loop, True)
     else do {
       loop \<leftarrow> evt_append_pending loop evtm;
       (h, cnt) \<leftarrow> spheap_pop (EVTTIMER_CMP loop) (lp_timers loop) (lp_timer_cnt loop);
       let loop = loop\<lparr>lp_timers := h, lp_timer_cnt := cnt\<rparr>;
       ev \<leftarrow> ev_get loop evtm;
       if ev_repeat ev > 0 then do {
         (loop, now) \<leftarrow> loop_catime loop;
         past \<leftarrow> ohtime (ev_timestamp ev - now);
         t \<leftarrow> ohtime (past + ev_repeat ev);
         loop \<leftarrow> evt_timer_start (ev_put loop evtm (ev\<lparr>ev_active := 0, ev_timestamp := t\<rparr>)) evtm;
         Some (loop, False) }
       else Some (loop, False) } })"

definition run_timers :: "evt_loop \<Rightarrow> evt_loop option" where
  "run_timers loop = do {
     (loop, stop) \<leftarrow> while_c (\<lambda>(loop, stop). Some (lp_timer_cnt loop > 0 \<and> \<not> stop)) timer_step (loop, False);
     Some loop }"

text \<open>One round of the loop; the flag is its \<^verbatim>\<open>break\<close>.\<close>

definition evt_loop_round :: "callbacks \<Rightarrow> evt_loop \<times> bool \<Rightarrow> (evt_loop \<times> bool) option" where
  "evt_loop_round call s = (case s of (loop, stop) \<Rightarrow> do {
     loop \<leftarrow> loop_update_catime loop;
     loop \<leftarrow> append_pending_list loop (lp_before_evtq loop);
     loop \<leftarrow> evt_execute_pending call loop;
     if has_bit (lp_status loop) LOOP_STATUS_QUITING then Some (loop, True)
     else do {
       loop \<leftarrow> evt_update_fdchanges loop;
       loop \<leftarrow> loop_update_catime loop;
       loop \<leftarrow> set_poll_time loop;
       (loop, r) \<leftarrow> epoll_dispatch loop;
       loop \<leftarrow> loop_update_catime loop;
       if has_bit (lp_status loop) LOOP_STATUS_QUITING then Some (loop, True)
       else do {
         loop \<leftarrow> run_timers loop;
         loop \<leftarrow> append_pending_list loop (lp_after_evtq loop);
         loop \<leftarrow> evt_execute_pending call loop;
         Some (loop, False) } } })"

definition evt_loop_run :: "callbacks \<Rightarrow> evt_loop \<Rightarrow> evt_loop option" where
  "evt_loop_run call loop = do {
     let loop = loop\<lparr>lp_owner_tid := lp_tid loop, lp_status := LOOP_STATUS_STARTED OR LOOP_STATUS_RUNNING\<rparr>;
     (loop, stop) \<leftarrow> while_c (\<lambda>(loop, stop). Some (\<not> has_bit (lp_status loop) LOOP_STATUS_QUITING \<and> \<not> stop)) (evt_loop_round call) (loop, False);
     let loop = loop\<lparr>lp_status := ((lp_status loop AND NOT LOOP_STATUS_RUNNING) AND NOT LOOP_STATUS_QUITING) AND NOT LOOP_STATUS_SUSPEND\<rparr>;
     let loop = loop\<lparr>lp_status := lp_status loop OR LOOP_STATUS_STOP\<rparr>;
     if has_bit (lp_status loop) LOOP_STATUS_WAITDESTROY then evt_loop_destroy call loop else Some loop }"

end
