(* ===== verification/Tcp.thy ===== *)
theory Tcp
  imports EvtLoop Buffer Objpool
begin

text \<open>
  The connections of \<^verbatim>\<open>ohev/tcpsrv.c\<close>: their state, sending, receiving, connecting and closing. The state is the
  one of a process: its event loops, the connections, and the sockets of the system. A connection lives in the loop
  it is started on; its two events are parts of it. A function pointer is a number, 0 when it is \<^verbatim>\<open>NULL\<close>, and
  \<open>call\<close> says what the functions of the program do to the process, so that they can send and close themselves.
\<close>

section \<open>State\<close>

text \<open>
  What the system answers on a socket, one entry for each call: see theory \<open>Buffer\<close>. \<open>sk_errs\<close> are the values of
  \<^verbatim>\<open>errno\<close> after the calls that fail, \<open>sk_soerr\<close> the answers of \<^verbatim>\<open>getsockopt\<close>, and \<open>sk_sent\<close> is all that has been sent.
  Sockets that are not open have no entry.
\<close>

datatype sock_err = Eagain | Eintr | Einprogress | Eother

datatype sock = Sock (sk_in: "byte list io_result list") (sk_out: "nat io_result list") (sk_errs: "sock_err list")
  (sk_soerr: "sock_err option list") (sk_connect: "unit io_result list") (sk_accept: "(nat \<times> sock) io_result list") (sk_sent: "byte list")

definition take_err :: "sock_err list \<Rightarrow> sock_err \<times> sock_err list" where
  "take_err es = (case es of [] \<Rightarrow> (Eagain, []) | e # es \<Rightarrow> (e, es))"

record tcp_client =
  tc_flag :: "32 word"
  tc_fd :: nat
  tc_loop_on :: nat
  tc_data :: addr
  tc_on_read :: nat
  tc_on_write :: nat
  tc_on_close :: nat
  tc_on_connect :: nat
  tc_peer :: addr
  tc_rbuf :: ohbuffer
  tc_wbuf :: ohbuffer

record tcp_server =
  ts_flag :: "32 word"
  ts_fd :: nat
  ts_loop_on :: nat
  ts_data :: addr
  ts_on_read :: nat
  ts_on_write :: nat
  ts_on_close :: nat
  ts_on_accept :: nat
  ts_clt_objpool :: objpool
  ts_bufu_objpool :: objpool
  ts_conn_cnt :: int
  ts_lb_ctx :: addr
  ts_hub :: addr

text \<open>A context of load balancing: \<open>lb_loops\<close> are the loops of its pool.\<close>

record tcp_lb_ctx =
  lb_data :: int
  lb_loops :: "nat list"
  lb_next_loop :: nat
  lb_init :: nat
  lb_destroy :: nat

record process =
  w_loops :: "evt_loop list"
  w_clients :: "addr \<rightharpoonup> tcp_client"
  w_servers :: "addr \<rightharpoonup> tcp_server"
  w_hubs :: "addr \<rightharpoonup> addr list"
  w_lbs :: "addr \<rightharpoonup> tcp_lb_ctx"
  w_socks :: "nat \<rightharpoonup> sock"

type_synonym tcp_cb = "nat \<Rightarrow> addr \<Rightarrow> process \<Rightarrow> process option"

definition TCPFLG_IS_SERVER :: "32 word" where "TCPFLG_IS_SERVER = 0x0001"
definition TCPFLG_IS_CLIENT :: "32 word" where "TCPFLG_IS_CLIENT = 0x0002"
definition TCPFLG_CLT_PASV :: "32 word" where "TCPFLG_CLT_PASV = 0x0004"
definition TCPFLG_CLT_PORT :: "32 word" where "TCPFLG_CLT_PORT = 0x0008"
definition TCPFLG_CLT_CONNING :: "32 word" where "TCPFLG_CLT_CONNING = 0x0010"
definition TCPFLG_CLT_CONNED :: "32 word" where "TCPFLG_CLT_CONNED = 0x0020"
definition TCPFLG_CLT_CONNFAIL :: "32 word" where "TCPFLG_CLT_CONNFAIL = 0x0040"
definition TCPFLG_CLT_WAITCLS :: "32 word" where "TCPFLG_CLT_WAITCLS = 0x0080"
definition TCPFLG_SRV_CLONEFD :: "32 word" where "TCPFLG_SRV_CLONEFD = 0x0100"
definition TCPFLG_SRV_MLOOP :: "32 word" where "TCPFLG_SRV_MLOOP = 0x0200"

definition OHBUFFER_UNIT_DEFAULT_SIZE :: int where "OHBUFFER_UNIT_DEFAULT_SIZE = 4096"

definition has_flag :: "32 word \<Rightarrow> 32 word \<Rightarrow> bool" where
  "has_flag f b \<longleftrightarrow> f AND b \<noteq> 0"

text \<open>
  The events inside a connection: that of reading, which is also that of accepting in a server, and that of writing.
  Where exactly they are does not matter, as long as different connections have different ones.
\<close>

definition read_ev :: "addr \<Rightarrow> addr" where "read_ev c = c + 1"
definition write_ev :: "addr \<Rightarrow> addr" where "write_ev c = c + 2"
definition accept_ev :: "addr \<Rightarrow> addr" where "accept_ev s = s + 1"

definition TCP_CB_READ :: nat where "TCP_CB_READ = 2"
definition TCP_CB_WRITE :: nat where "TCP_CB_WRITE = 3"
definition TCP_CB_ACCEPT :: nat where "TCP_CB_ACCEPT = 4"

definition tc_get :: "process \<Rightarrow> addr \<Rightarrow> tcp_client option" where
  "tc_get w c = (if c = NULL then None else w_clients w c)"

definition tc_put :: "process \<Rightarrow> addr \<Rightarrow> tcp_client \<Rightarrow> process" where
  "tc_put w c cl = w\<lparr>w_clients := (w_clients w)(c \<mapsto> cl)\<rparr>"

definition ts_get :: "process \<Rightarrow> addr \<Rightarrow> tcp_server option" where
  "ts_get w s = (if s = NULL then None else w_servers w s)"

definition ts_put :: "process \<Rightarrow> addr \<Rightarrow> tcp_server \<Rightarrow> process" where
  "ts_put w s srv = w\<lparr>w_servers := (w_servers w)(s \<mapsto> srv)\<rparr>"

definition sk_put :: "process \<Rightarrow> nat \<Rightarrow> sock \<Rightarrow> process" where
  "sk_put w fd sk = w\<lparr>w_socks := (w_socks w)(fd \<mapsto> sk)\<rparr>"

definition sk_close :: "process \<Rightarrow> nat \<Rightarrow> process" where
  "sk_close w fd = w\<lparr>w_socks := (w_socks w)(fd := None)\<rparr>"

text \<open>An operation on an event of one of the loops.\<close>

definition io_op :: "(evt_loop \<Rightarrow> addr \<Rightarrow> evt_loop option) \<Rightarrow> process \<Rightarrow> nat \<Rightarrow> addr \<Rightarrow> process option" where
  "io_op f w l e = do {
     c_assert (l < length (w_loops w));
     loop \<leftarrow> f (w_loops w ! l) e;
     Some (w\<lparr>w_loops := (w_loops w)[l := loop]\<rparr>) }"

definition user_cb :: "tcp_cb \<Rightarrow> nat \<Rightarrow> addr \<Rightarrow> process \<Rightarrow> process option" where
  "user_cb call cb c w = (if cb \<noteq> 0 then call cb c w else Some w)"

text \<open>The system calls on the buffers of a connection, with the answers of its socket.\<close>

definition sock_recv :: "allocator \<Rightarrow> (nat \<Rightarrow> byte) \<Rightarrow> process \<Rightarrow> ohbuffer \<Rightarrow> nat \<Rightarrow> (process \<times> ohbuffer \<times> int \<times> int \<times> sock_err) option" where
  "sock_recv al g w b fd = do {
     sk \<leftarrow> w_socks w fd;
     (b, ret, len, rs) \<leftarrow> buf_fd_read al g b (sk_in sk);
     let (e, es) = (if ret < 0 then take_err (sk_errs sk) else (Eagain, sk_errs sk));
     Some (sk_put w fd (Sock rs (sk_out sk) es (sk_soerr sk) (sk_connect sk) (sk_accept sk) (sk_sent sk)), b, ret, len, e) }"

definition sock_send :: "process \<Rightarrow> ohbuffer \<Rightarrow> nat \<Rightarrow> (process \<times> ohbuffer \<times> int \<times> int \<times> sock_err) option" where
  "sock_send w b fd = do {
     sk \<leftarrow> w_socks w fd;
     (b, ret, len, sent, rs) \<leftarrow> buf_fd_write b (sk_out sk);
     let (e, es) = (if ret < 0 then take_err (sk_errs sk) else (Eagain, sk_errs sk));
     Some (sk_put w fd (Sock (sk_in sk) rs es (sk_soerr sk) (sk_connect sk) (sk_accept sk) (sk_sent sk @ sent)), b, ret, len, e) }"

text \<open>The \<^verbatim>\<open>write\<close> of \<^verbatim>\<open>tcp_send\<close>, tried again when it is interrupted; the result is \<open>None\<close> for \<^verbatim>\<open>-1\<close>.\<close>

definition sock_write :: "process \<Rightarrow> nat \<Rightarrow> byte list \<Rightarrow> (process \<times> nat option \<times> sock_err) option" where
  "sock_write w fd src = do {
     sk \<leftarrow> w_socks w fd;
     let (n, rs) = fd_send (sk_out sk) (length src);
     let (e, es) = (if n = None then take_err (sk_errs sk) else (Eagain, sk_errs sk));
     Some (sk_put w fd (Sock (sk_in sk) rs es (sk_soerr sk) (sk_connect sk) (sk_accept sk)
       (sk_sent sk @ (case n of None \<Rightarrow> [] | Some n \<Rightarrow> take n src))), n, e) }"

section \<open>Closing\<close>

text \<open>A connection the server accepted goes back to the pool of the server; what it held is gone.\<close>

definition tcp_cb_close :: "tcp_cb \<Rightarrow> process \<Rightarrow> addr \<Rightarrow> process option" where
  "tcp_cb_close call w client = do {
     c \<leftarrow> tc_get w client;
     w \<leftarrow> user_cb call (tc_on_close c) client w;
     c \<leftarrow> tc_get w client;
     w \<leftarrow> io_op evt_io_stop w (tc_loop_on c) (write_ev client);
     w \<leftarrow> io_op evt_io_stop w (tc_loop_on c) (read_ev client);
     let w = sk_close w (tc_fd c);
     rbuf \<leftarrow> buf_destroy (tc_rbuf c);
     wbuf \<leftarrow> buf_destroy (tc_wbuf c);
     if has_flag (tc_flag c) TCPFLG_CLT_PASV then do {
       server \<leftarrow> ts_get w (tc_peer c);
       let server = server\<lparr>ts_conn_cnt := ts_conn_cnt server - 1\<rparr>;
       pool \<leftarrow> objpool_free_obj (ts_clt_objpool server) client (has_flag (ts_flag server) TCPFLG_SRV_MLOOP);
       let w = ts_put w (tc_peer c) (server\<lparr>ts_clt_objpool := pool\<rparr>);
       Some (w\<lparr>w_clients := (w_clients w)(client := None)\<rparr>) }
     else Some (tc_put w client (c\<lparr>tc_rbuf := rbuf, tc_wbuf := wbuf\<rparr>)) }"

definition tcp_close :: "tcp_cb \<Rightarrow> process \<Rightarrow> addr \<Rightarrow> process option" where
  "tcp_close call w client = do {
     c \<leftarrow> tc_get w client;
     w \<leftarrow> io_op evt_io_stop w (tc_loop_on c) (read_ev client);
     w \<leftarrow> io_op evt_io_stop w (tc_loop_on c) (write_ev client);
     tcp_cb_close call w client }"

section \<open>Sending\<close>

definition tcp_send_delay :: "allocator \<Rightarrow> (nat \<Rightarrow> byte) \<Rightarrow> process \<Rightarrow> addr \<Rightarrow> byte list \<Rightarrow> int \<Rightarrow> (process \<times> int) option" where
  "tcp_send_delay al g w client src lowmask = do {
     c \<leftarrow> tc_get w client;
     (wbuf, sz) \<leftarrow> buf_write al g (tc_wbuf c) src (int (length src));
     let w = tc_put w client (c\<lparr>tc_wbuf := wbuf\<rparr>);
     used \<leftarrow> (if lowmask \<ge> 0 then buf_used wbuf else Some 0);
     if lowmask \<ge> 0 \<and> used > lowmask then do {
       w \<leftarrow> io_op evt_io_start w (tc_loop_on c) (write_ev client);
       Some (w, sz) }
     else Some (w, sz) }"

definition tcp_send :: "allocator \<Rightarrow> (nat \<Rightarrow> byte) \<Rightarrow> tcp_cb \<Rightarrow> process \<Rightarrow> addr \<Rightarrow> byte list \<Rightarrow> (process \<times> int) option" where
  "tcp_send al g call w client src = do {
     c \<leftarrow> tc_get w client;
     used \<leftarrow> buf_used (tc_wbuf c);
     if used = 0 then do {
       (w, n, e) \<leftarrow> sock_write w (tc_fd c) src;
       (case n of
          None \<Rightarrow> if e \<noteq> Eagain then Some (w, - 1) else tcp_send_delay al g w client src 0
        | Some len \<Rightarrow>
            if len < length src then do {
              (w, sz) \<leftarrow> tcp_send_delay al g w client (drop len src) 0;
              Some (w, int len + sz) }
            else do {
              w \<leftarrow> user_cb call (tc_on_write c) client w;
              Some (w, int len) }) }
     else tcp_send_delay al g w client src 0 }"

text \<open>A buffer of the program is sent past the buffer of the connection.\<close>

definition tcp_send_buffer :: "process \<Rightarrow> addr \<Rightarrow> ohbuffer \<Rightarrow> (process \<times> ohbuffer \<times> int) option" where
  "tcp_send_buffer w client buf = do {
     c \<leftarrow> tc_get w client;
     (w, buf, ret, len, e) \<leftarrow> sock_send w buf (tc_fd c);
     if ret < 0 \<and> e \<noteq> Eagain then Some (w, buf, - 1) else Some (w, buf, len) }"

definition tcp_flush :: "process \<Rightarrow> addr \<Rightarrow> process option" where
  "tcp_flush w client = do {
     c \<leftarrow> tc_get w client;
     io_op evt_io_start w (tc_loop_on c) (write_ev client) }"

section \<open>Reading and writing events\<close>

definition tcp_cb_read :: "allocator \<Rightarrow> (nat \<Rightarrow> byte) \<Rightarrow> tcp_cb \<Rightarrow> process \<Rightarrow> addr \<Rightarrow> process option" where
  "tcp_cb_read al g call w client = do {
     c \<leftarrow> tc_get w client;
     (w, rbuf, ret, len, serrno) \<leftarrow> sock_recv al g w (tc_rbuf c) (tc_fd c);
     let w = tc_put w client (c\<lparr>tc_rbuf := rbuf\<rparr>);
     w \<leftarrow> (if len > 0 then user_cb call (tc_on_read c) client w else Some w);
     if ret = 0 then do {
       c \<leftarrow> tc_get w client;
       used \<leftarrow> buf_used (tc_wbuf c);
       if used = 0 then do {
         w \<leftarrow> io_op evt_io_stop w (tc_loop_on c) (read_ev client);
         w \<leftarrow> io_op evt_io_stop w (tc_loop_on c) (write_ev client);
         tcp_cb_close call w client }
       else do {
         w \<leftarrow> io_op evt_io_stop w (tc_loop_on c) (read_ev client);
         w \<leftarrow> io_op evt_io_start w (tc_loop_on c) (write_ev client);
         Some (tc_put w client (c\<lparr>tc_flag := tc_flag c OR TCPFLG_CLT_WAITCLS\<rparr>)) } }
     else if ret < 0 \<and> serrno \<noteq> Eagain \<and> serrno \<noteq> Eintr then do {
       c \<leftarrow> tc_get w client;
       w \<leftarrow> io_op evt_io_stop w (tc_loop_on c) (read_ev client);
       w \<leftarrow> io_op evt_io_stop w (tc_loop_on c) (write_ev client);
       tcp_cb_close call w client }
     else Some w }"

text \<open>The first part of the write event, while the connection is being made.\<close>

definition sock_error :: "process \<Rightarrow> nat \<Rightarrow> (process \<times> sock_err option) option" where
  "sock_error w fd = do {
     sk \<leftarrow> w_socks w fd;
     let (e, es) = (case sk_soerr sk of [] \<Rightarrow> (None, []) | e # es \<Rightarrow> (e, es));
     Some (sk_put w fd (Sock (sk_in sk) (sk_out sk) (sk_errs sk) es (sk_connect sk) (sk_accept sk) (sk_sent sk)), e) }"

definition tcp_cb_connected :: "tcp_cb \<Rightarrow> process \<Rightarrow> addr \<Rightarrow> process option" where
  "tcp_cb_connected call w client = do {
     c \<leftarrow> tc_get w client;
     (w, error) \<leftarrow> sock_error w (tc_fd c);
     if error = Some Einprogress then Some w
     else do {
       used \<leftarrow> (if error \<noteq> None then Some 0 else buf_used (tc_wbuf c));
       w \<leftarrow> (if error \<noteq> None \<or> used = 0 then io_op evt_io_stop w (tc_loop_on c) (write_ev client) else Some w);
       let w = tc_put w client (c\<lparr>tc_flag := (tc_flag c AND NOT TCPFLG_CLT_CONNING) OR
         (if error \<noteq> None then TCPFLG_CLT_CONNFAIL else TCPFLG_CLT_CONNED)\<rparr>);
       w \<leftarrow> (if error = None then io_op evt_io_start w (tc_loop_on c) (read_ev client) else Some w);
       user_cb call (tc_on_connect c) client w } }"

definition tcp_cb_write :: "tcp_cb \<Rightarrow> process \<Rightarrow> addr \<Rightarrow> process option" where
  "tcp_cb_write call w client = do {
     c \<leftarrow> tc_get w client;
     if has_flag (tc_flag c) TCPFLG_CLT_CONNING then tcp_cb_connected call w client
     else do {
       (w, wbuf, ret, len, errno) \<leftarrow> sock_send w (tc_wbuf c) (tc_fd c);
       let w = tc_put w client (c\<lparr>tc_wbuf := wbuf\<rparr>);
       if ret < 0 then
         if errno \<noteq> Eagain \<and> errno \<noteq> Eintr then do {
           w \<leftarrow> io_op evt_io_stop w (tc_loop_on c) (read_ev client);
           w \<leftarrow> io_op evt_io_stop w (tc_loop_on c) (write_ev client);
           tcp_cb_close call w client }
         else Some w
       else do {
         w \<leftarrow> user_cb call (tc_on_write c) client w;
         c \<leftarrow> tc_get w client;
         used \<leftarrow> buf_used (tc_wbuf c);
         if used = 0 then do {
           w \<leftarrow> io_op evt_io_stop w (tc_loop_on c) (write_ev client);
           if has_flag (tc_flag c) TCPFLG_CLT_WAITCLS then tcp_cb_close call w client else Some w }
         else Some w } } }"

section \<open>Connecting\<close>

definition zero_event :: event where
  "zero_event = \<lparr>ev_active = 0, ev_priority = 0, ev_pendpos = 0, ev_data = NULL, ev_cb = 0, ev_fd = 0, ev_event = 0, ev_repeat = 0,
     ev_timestamp = 0, ev_clean = 0\<rparr>"

text \<open>Initialising an event of a descriptor that is part of a connection.\<close>

definition io_init :: "process \<Rightarrow> nat \<Rightarrow> addr \<Rightarrow> nat \<Rightarrow> nat \<Rightarrow> 8 word \<Rightarrow> addr \<Rightarrow> process option" where
  "io_init w l e cb fd msk d = do {
     c_assert (l < length (w_loops w));
     let loop = w_loops w ! l;
     Some (w\<lparr>w_loops := (w_loops w)[l := loop\<lparr>lp_evs := (lp_evs loop)(e \<mapsto> evt_set_data (evt_io_init zero_event cb fd msk) d),
       lp_next := (lp_next loop)(e \<mapsto> NULL)\<rparr>]\<rparr>) }"

text \<open>\<open>clientfd\<close> is what \<^verbatim>\<open>socket\<close> returned, and \<open>sk\<close> the socket.\<close>

definition tcp_client_init :: "process \<Rightarrow> addr \<Rightarrow> nat \<Rightarrow> int \<Rightarrow> sock \<Rightarrow> (process \<times> int) option" where
  "tcp_client_init w client loop clientfd sk =
     (if clientfd < 0 then Some (w, - 1)
      else do {
        c_assert (client \<noteq> NULL);
        let fd = nat clientfd;
        let w = tc_put (sk_put w fd sk) client \<lparr>tc_flag = TCPFLG_CLT_PORT OR TCPFLG_IS_CLIENT, tc_fd = fd, tc_loop_on = loop, tc_data = NULL,
          tc_on_read = 0, tc_on_write = 0, tc_on_close = 0, tc_on_connect = 0, tc_peer = NULL,
          tc_rbuf = buf_init OHBUFFER_UNIT_DEFAULT_SIZE, tc_wbuf = buf_init OHBUFFER_UNIT_DEFAULT_SIZE\<rparr>;
        w \<leftarrow> io_init w loop (read_ev client) TCP_CB_READ fd EVT_READ client;
        w \<leftarrow> io_init w loop (write_ev client) TCP_CB_WRITE fd EVT_WRITE client;
        Some (w, 0) })"

definition tcp_connect :: "process \<Rightarrow> addr \<Rightarrow> (process \<times> int) option" where
  "tcp_connect w client = do {
     c \<leftarrow> tc_get w client;
     if has_flag (tc_flag c) (TCPFLG_CLT_CONNING OR TCPFLG_CLT_CONNED) then Some (w, - 1)
     else do {
       sk \<leftarrow> w_socks w (tc_fd c);
       let (r, rs) = retry_eintr (sk_connect sk);
       let (e, es) = (if r = None then take_err (sk_errs sk) else (Eagain, sk_errs sk));
       let w = sk_put w (tc_fd c) (Sock (sk_in sk) (sk_out sk) es (sk_soerr sk) rs (sk_accept sk) (sk_sent sk));
       if r \<noteq> None \<or> e = Einprogress then do {
         let w = tc_put w client (c\<lparr>tc_flag := tc_flag c OR TCPFLG_CLT_CONNING\<rparr>);
         w \<leftarrow> io_op evt_io_start w (tc_loop_on c) (write_ev client);
         Some (w, 0) }
       else Some (w, - 1) } }"

end
