(* ===== verification/TcpSrv.thy ===== *)
theory TcpSrv
  imports Tcp
begin

text \<open>
  The servers of \<^verbatim>\<open>ohev/tcpsrv.c\<close>: creation, accepting, groups of servers on one port that balance their load
  themselves, and the round-robin choice of a loop. The results of allocations and system calls are arguments.
\<close>

definition TCPCLIENT_OBJPOOL_BLOCKSZ :: nat where "TCPCLIENT_OBJPOOL_BLOCKSZ = 256"

definition TCP_CLIENT_SIZE :: nat where "TCP_CLIENT_SIZE = 512"
definition BUFUNIT_SIZE :: nat where "BUFUNIT_SIZE = 4096 + 32"

section \<open>Creating servers\<close>

text \<open>
  \<open>cpool\<close> and \<open>bpool\<close> tell whether the two pools could be allocated. A failure frees what there is.
\<close>

definition tcp_server_init_finish :: "process \<Rightarrow> addr \<Rightarrow> nat \<Rightarrow> nat \<Rightarrow> 32 word \<Rightarrow> bool \<Rightarrow> bool \<Rightarrow> (process \<times> int) option" where
  "tcp_server_init_finish w server fd loop flag cpool bpool =
     (if \<not> cpool \<or> \<not> bpool then Some (w, - 1)
      else do {
        c_assert (server \<noteq> NULL);
        let w = ts_put w server \<lparr>ts_flag = flag OR TCPFLG_IS_SERVER, ts_fd = fd, ts_loop_on = loop, ts_data = NULL,
          ts_on_read = 0, ts_on_write = 0, ts_on_close = 0, ts_on_accept = 0,
          ts_clt_objpool = objpool_init TCPCLIENT_OBJPOOL_BLOCKSZ TCP_CLIENT_SIZE,
          ts_bufu_objpool = objpool_init TCPCLIENT_OBJPOOL_BLOCKSZ BUFUNIT_SIZE,
          ts_conn_cnt = 0, ts_lb_ctx = NULL, ts_hub = NULL\<rparr>;
        w \<leftarrow> io_init w loop (accept_ev server) TCP_CB_ACCEPT fd EVT_READ server;
        Some (w, 0) })"

text \<open>\<open>listenfd\<close> and \<open>bound\<close> are the results of \<^verbatim>\<open>socket\<close> and \<^verbatim>\<open>bind\<close>, \<open>sk\<close> the socket.\<close>

definition tcp_server_init :: "process \<Rightarrow> addr \<Rightarrow> nat \<Rightarrow> 32 word \<Rightarrow> int \<Rightarrow> sock \<Rightarrow> bool \<Rightarrow> bool \<Rightarrow> bool \<Rightarrow> (process \<times> addr) option" where
  "tcp_server_init w server loop flag listenfd sk bound cpool bpool =
     (if server = NULL then Some (w, NULL)
      else if listenfd < 0 then Some (w, NULL)
      else do {
        let w = sk_put w (nat listenfd) sk;
        if \<not> bound then Some (sk_close w (nat listenfd), NULL)
        else do {
          (w, r) \<leftarrow> tcp_server_init_finish w server (nat listenfd) loop flag cpool bpool;
          if r \<noteq> 0 then Some (sk_close w (nat listenfd), NULL) else Some (w, server) } })"

definition tcp_server_clonefd :: "process \<Rightarrow> addr \<Rightarrow> addr \<Rightarrow> nat \<Rightarrow> 32 word \<Rightarrow> bool \<Rightarrow> bool \<Rightarrow> (process \<times> addr) option" where
  "tcp_server_clonefd w server fserver loop flag cpool bpool =
     (if server = NULL then Some (w, NULL)
      else do {
        f \<leftarrow> ts_get w fserver;
        (w, r) \<leftarrow> tcp_server_init_finish w server (ts_fd f) loop (flag OR TCPFLG_SRV_CLONEFD) cpool bpool;
        if r \<noteq> 0 then Some (w, NULL) else Some (w, server) })"

section \<open>The choice of a loop\<close>

definition LB_RR_INIT :: nat where "LB_RR_INIT = 1"
definition LB_RR_DESTROY :: nat where "LB_RR_DESTROY = 1"
definition LB_RR_NEXT :: nat where "LB_RR_NEXT = 1"

definition lb_rr_init :: "tcp_lb_ctx \<Rightarrow> tcp_lb_ctx" where
  "lb_rr_init ctx = ctx\<lparr>lb_data := int (length (lb_loops ctx)) - 1\<rparr>"

text \<open>Without loops the code divides by zero.\<close>

definition lb_rr_next_loop :: "tcp_lb_ctx \<Rightarrow> (tcp_lb_ctx \<times> nat) option" where
  "lb_rr_next_loop ctx = do {
     c_assert (lb_loops ctx \<noteq> []);
     let i = (lb_data ctx + 1) mod int (length (lb_loops ctx));
     Some (ctx\<lparr>lb_data := i\<rparr>, lb_loops ctx ! nat i) }"

definition get_default_tcp_lb_ctx :: "tcp_lb_ctx" where
  "get_default_tcp_lb_ctx = \<lparr>lb_data = 0, lb_loops = [], lb_next_loop = LB_RR_NEXT, lb_init = LB_RR_INIT, lb_destroy = LB_RR_DESTROY\<rparr>"

text \<open>\<open>user_init\<close> and \<open>user_next\<close> say what the functions of a context of the program's own do.\<close>

definition lb_call_init :: "(nat \<Rightarrow> tcp_lb_ctx \<Rightarrow> tcp_lb_ctx) \<Rightarrow> tcp_lb_ctx \<Rightarrow> tcp_lb_ctx" where
  "lb_call_init user_init ctx = (if lb_init ctx = 0 then ctx else if lb_init ctx = LB_RR_INIT then lb_rr_init ctx else user_init (lb_init ctx) ctx)"

definition lb_call_next :: "(nat \<Rightarrow> tcp_lb_ctx \<Rightarrow> (tcp_lb_ctx \<times> nat) option) \<Rightarrow> tcp_lb_ctx \<Rightarrow> (tcp_lb_ctx \<times> nat) option" where
  "lb_call_next user_next ctx = (if lb_next_loop ctx = LB_RR_NEXT then lb_rr_next_loop ctx else user_next (lb_next_loop ctx) ctx)"

section \<open>Starting servers\<close>

text \<open>\<open>pool\<close> are the loops of the pool, \<open>ctx\<close> the context, and \<open>listening\<close> the result of \<^verbatim>\<open>listen\<close>.\<close>

definition tcp_server_start_lb :: "(nat \<Rightarrow> tcp_lb_ctx \<Rightarrow> tcp_lb_ctx) \<Rightarrow> process \<Rightarrow> addr \<Rightarrow> nat list option \<Rightarrow> addr \<Rightarrow> bool \<Rightarrow> (process \<times> int) option" where
  "tcp_server_start_lb user_init w server pool ctx listening = do {
     s \<leftarrow> ts_get w server;
     let s = s\<lparr>ts_flag := ts_flag s AND NOT TCPFLG_SRV_MLOOP\<rparr>;
     w \<leftarrow> (case pool of
         None \<Rightarrow> Some (ts_put w server s)
       | Some loops \<Rightarrow>
           if ctx = NULL then Some (ts_put w server s)
           else do {
             lb \<leftarrow> w_lbs w ctx;
             if lb_next_loop lb = 0 then Some (ts_put w server s)
             else do {
               let lb = lb_call_init user_init (lb\<lparr>lb_loops := loops\<rparr>);
               let w = w\<lparr>w_lbs := (w_lbs w)(ctx \<mapsto> lb)\<rparr>;
               Some (ts_put w server (s\<lparr>ts_lb_ctx := ctx, ts_flag := ts_flag s OR TCPFLG_SRV_MLOOP\<rparr>)) } });
     if \<not> has_flag (ts_flag s) TCPFLG_SRV_CLONEFD \<and> \<not> listening then Some (w, - 1)
     else do {
       w \<leftarrow> io_op evt_io_start w (ts_loop_on s) (accept_ev server);
       Some (w, 0) } }"

definition tcp_server_start :: "process \<Rightarrow> addr \<Rightarrow> bool \<Rightarrow> (process \<times> int) option" where
  "tcp_server_start w server listening = tcp_server_start_lb (\<lambda>f ctx. ctx) w server None NULL listening"

section \<open>Groups of servers\<close>

text \<open>What creates the servers of a group: for each an address and the outcome of its allocations.\<close>

type_synonym server_alloc = "addr \<times> bool \<times> bool"

text \<open>
  The first server opens the socket and the others share it. The loop stops at the first that fails; then the array of
  the servers is freed and read, which is an access to freed memory.
\<close>

primrec tcp_server_hub_clones :: "process \<Rightarrow> addr \<Rightarrow> addr \<Rightarrow> 32 word \<Rightarrow> (nat \<times> server_alloc) list \<Rightarrow> (process \<times> addr list option) option" where
  "tcp_server_hub_clones w hub fserver flag [] = Some (w, Some [])"
| "tcp_server_hub_clones w hub fserver flag (la # las) = (case la of (loop, server, cpool, bpool) \<Rightarrow> do {
     (w, s) \<leftarrow> tcp_server_clonefd w server fserver loop flag cpool bpool;
     if s = NULL then Some (w, None)
     else do {
       srv \<leftarrow> ts_get w s;
       (w, ss) \<leftarrow> tcp_server_hub_clones (ts_put w s (srv\<lparr>ts_hub := hub\<rparr>)) hub fserver flag las;
       Some (w, map_option (\<lambda>ss. s # ss) ss) } })"

definition tcp_server_hub_init :: "process \<Rightarrow> addr \<Rightarrow> (nat \<times> server_alloc) list \<Rightarrow> 32 word \<Rightarrow> int \<Rightarrow> sock \<Rightarrow> bool \<Rightarrow> (process \<times> addr) option" where
  "tcp_server_hub_init w hub pool flag listenfd sk bound =
     (if hub = NULL then Some (w, NULL)
      else (case pool of
          [] \<Rightarrow> Some (w\<lparr>w_hubs := (w_hubs w)(hub \<mapsto> [])\<rparr>, hub)
        | la # las \<Rightarrow> (case la of (loop, server, cpool, bpool) \<Rightarrow> do {
            (w, s) \<leftarrow> tcp_server_init w server loop flag listenfd sk bound cpool bpool;
            c_assert (s \<noteq> NULL);
            srv \<leftarrow> ts_get w s;
            (w, ss) \<leftarrow> tcp_server_hub_clones (ts_put w s (srv\<lparr>ts_hub := hub\<rparr>)) hub s flag las;
            ss \<leftarrow> ss;
            Some (w\<lparr>w_hubs := (w_hubs w)(hub \<mapsto> s # ss)\<rparr>, hub) })))"

text \<open>The number of connections of all servers of a group.\<close>

primrec hub_conn_cnt :: "process \<Rightarrow> addr list \<Rightarrow> int option" where
  "hub_conn_cnt w [] = Some 0"
| "hub_conn_cnt w (s # ss) = do { srv \<leftarrow> ts_get w s; n \<leftarrow> hub_conn_cnt w ss; Some (ts_conn_cnt srv + n) }"

text \<open>
  \<^verbatim>\<open>thisc > 2.0 * totalc / i\<close>: the numbers are counters of 32 bits, so that the comparison of doubles is the
  comparison of \<open>thisc * i\<close> with \<open>2 * totalc\<close>. The event is passed as its server.
\<close>

definition tcp_server_selflb_cb :: "process \<Rightarrow> nat \<Rightarrow> addr \<Rightarrow> process option" where
  "tcp_server_selflb_cb w loop server = do {
     srv \<leftarrow> ts_get w server;
     servers \<leftarrow> w_hubs w (ts_hub srv);
     totalc \<leftarrow> hub_conn_cnt w servers;
     if ts_conn_cnt srv * int (length servers) > 2 * totalc then io_op evt_io_stop w loop (accept_ev server)
     else io_op evt_io_start w loop (accept_ev server) }"

definition TCP_SELFLB_CB :: nat where "TCP_SELFLB_CB = 5"

text \<open>\<open>eb\<close> is the address of the new event.\<close>

definition tcp_server_start_selflb :: "process \<Rightarrow> addr \<Rightarrow> addr \<Rightarrow> process option" where
  "tcp_server_start_selflb w server eb = do {
     srv \<leftarrow> ts_get w server;
     let l = ts_loop_on srv;
     c_assert (l < length (w_loops w) \<and> eb \<noteq> NULL);
     let loop = w_loops w ! l;
     let loop = loop\<lparr>lp_evs := (lp_evs loop)(eb \<mapsto> evt_set_data (evt_before_init zero_event TCP_SELFLB_CB) server),
       lp_next := (lp_next loop)(eb \<mapsto> NULL)\<rparr>;
     io_op evt_before_start (w\<lparr>w_loops := (w_loops w)[l := loop]\<rparr>) l eb }"

text \<open>A failure of \<^verbatim>\<open>listen\<close> is ignored here. For each server the address of its new event is given.\<close>

primrec hub_start_all :: "process \<Rightarrow> addr list \<Rightarrow> bool list \<Rightarrow> addr list \<Rightarrow> process option" where
  "hub_start_all w [] ls ebs = Some w"
| "hub_start_all w (s # ss) ls ebs = do {
     c_assert (ls \<noteq> [] \<and> ebs \<noteq> []);
     (w, r) \<leftarrow> tcp_server_start w s (hd ls);
     w \<leftarrow> tcp_server_start_selflb w s (hd ebs);
     hub_start_all w ss (tl ls) (tl ebs) }"

definition tcp_server_hub_start :: "process \<Rightarrow> addr \<Rightarrow> bool list \<Rightarrow> addr list \<Rightarrow> process option" where
  "tcp_server_hub_start w hub ls ebs = do { servers \<leftarrow> w_hubs w hub; hub_start_all w servers ls ebs }"

primrec hub_set_all :: "(tcp_server \<Rightarrow> tcp_server) \<Rightarrow> process \<Rightarrow> addr list \<Rightarrow> process option" where
  "hub_set_all f w [] = Some w"
| "hub_set_all f w (s # ss) = do { srv \<leftarrow> ts_get w s; hub_set_all f (ts_put w s (f srv)) ss }"

definition tcp_server_hub_set_on_accept :: "process \<Rightarrow> addr \<Rightarrow> nat \<Rightarrow> process option" where
  "tcp_server_hub_set_on_accept w hub cb = do { servers \<leftarrow> w_hubs w hub; hub_set_all (\<lambda>s. s\<lparr>ts_on_accept := cb\<rparr>) w servers }"

definition tcp_server_hub_set_on_read :: "process \<Rightarrow> addr \<Rightarrow> nat \<Rightarrow> process option" where
  "tcp_server_hub_set_on_read w hub cb = do { servers \<leftarrow> w_hubs w hub; hub_set_all (\<lambda>s. s\<lparr>ts_on_read := cb\<rparr>) w servers }"

definition tcp_server_hub_set_on_write :: "process \<Rightarrow> addr \<Rightarrow> nat \<Rightarrow> process option" where
  "tcp_server_hub_set_on_write w hub cb = do { servers \<leftarrow> w_hubs w hub; hub_set_all (\<lambda>s. s\<lparr>ts_on_write := cb\<rparr>) w servers }"

definition tcp_server_hub_set_on_close :: "process \<Rightarrow> addr \<Rightarrow> nat \<Rightarrow> process option" where
  "tcp_server_hub_set_on_close w hub cb = do { servers \<leftarrow> w_hubs w hub; hub_set_all (\<lambda>s. s\<lparr>ts_on_close := cb\<rparr>) w servers }"

section \<open>Accepting\<close>

text \<open>The asynchronous event that starts the reading of a connection in the thread of its loop.\<close>

definition CB_ASYNC_START_IO :: nat where "CB_ASYNC_START_IO = 6"
definition CB_ASYNC_START_IO_CLEAN :: nat where "CB_ASYNC_START_IO_CLEAN = 7"

definition evt_async_start_io :: "evt_loop \<Rightarrow> addr \<Rightarrow> evt_loop option" where
  "evt_async_start_io loop ev = do { e \<leftarrow> ev_get loop ev; evt_io_start loop (ev_data e) }"

definition evt_async_start_io_clean :: "evt_loop \<Rightarrow> addr \<Rightarrow> evt_loop option" where
  "evt_async_start_io_clean loop ev = do { e \<leftarrow> ev_get loop ev; Some (loop\<lparr>lp_evs := (lp_evs loop)(ev := None)\<rparr>) }"

definition start_in_loop :: "evt_loop \<Rightarrow> addr \<Rightarrow> addr \<Rightarrow> evt_loop option" where
  "start_in_loop loop aev e =
     (if lp_owner_tid loop = 0 \<or> lp_owner_tid loop = lp_tid loop then evt_io_start loop e
      else do {
        c_assert (aev \<noteq> NULL);
        let loop = loop\<lparr>lp_evs := (lp_evs loop)(aev \<mapsto> evt_set_data (evt_async_init zero_event CB_ASYNC_START_IO CB_ASYNC_START_IO_CLEAN) e),
          lp_next := (lp_next loop)(aev \<mapsto> NULL)\<rparr>;
        loop \<leftarrow> evt_async_start loop aev;
        Some (fst (evt_loop_wakeup loop)) })"

text \<open>The loop a new connection lives in.\<close>

definition client_loop :: "(nat \<Rightarrow> tcp_lb_ctx \<Rightarrow> (tcp_lb_ctx \<times> nat) option) \<Rightarrow> process \<Rightarrow> tcp_server \<Rightarrow> nat \<Rightarrow> (process \<times> nat) option" where
  "client_loop user_next w s loop =
     (if has_flag (ts_flag s) TCPFLG_SRV_MLOOP then do {
        lb \<leftarrow> w_lbs w (ts_lb_ctx s);
        (lb, on) \<leftarrow> lb_call_next user_next lb;
        Some (w\<lparr>w_lbs := (w_lbs w)(ts_lb_ctx s \<mapsto> lb)\<rparr>, on) }
      else Some (w, loop))"

text \<open>What a new connection is, and its start.\<close>

definition accepted :: "addr \<Rightarrow> tcp_server \<Rightarrow> nat \<Rightarrow> nat \<Rightarrow> tcp_client" where
  "accepted server s fd on = \<lparr>tc_flag = TCPFLG_CLT_PASV OR TCPFLG_IS_CLIENT, tc_fd = fd, tc_loop_on = on, tc_data = NULL,
     tc_on_read = ts_on_read s, tc_on_write = ts_on_write s, tc_on_close = ts_on_close s, tc_on_connect = 0, tc_peer = server,
     tc_rbuf = buf_init OHBUFFER_UNIT_DEFAULT_SIZE, tc_wbuf = buf_init OHBUFFER_UNIT_DEFAULT_SIZE\<rparr>"

definition accept_start :: "tcp_cb \<Rightarrow> process \<Rightarrow> addr \<Rightarrow> tcp_server \<Rightarrow> addr \<Rightarrow> nat \<Rightarrow> nat \<Rightarrow> addr \<Rightarrow> process option" where
  "accept_start call w server s client fd on aev = do {
     let w = tc_put w client (accepted server s fd on);
     w \<leftarrow> io_init w on (read_ev client) TCP_CB_READ fd EVT_READ client;
     w \<leftarrow> io_init w on (write_ev client) TCP_CB_WRITE fd EVT_WRITE client;
     w \<leftarrow> io_op (\<lambda>loop. start_in_loop loop aev) w on (read_ev client);
     s \<leftarrow> ts_get w server;
     let w = ts_put w server (s\<lparr>ts_conn_cnt := ts_conn_cnt s + 1\<rparr>);
     user_cb call (ts_on_accept s) client w }"

text \<open>
  \<open>blk\<close>, \<open>data\<close> and \<open>m\<close> are what the pool gets when it allocates a block, \<open>aev\<close> the address of the asynchronous
  event. After a failure of \<^verbatim>\<open>accept\<close> there is no descriptor to close, whatever the error is.
\<close>

definition tcp_cb_accept :: "(nat \<Rightarrow> tcp_lb_ctx \<Rightarrow> (tcp_lb_ctx \<times> nat) option) \<Rightarrow> tcp_cb \<Rightarrow> process \<Rightarrow> nat \<Rightarrow> addr \<Rightarrow>
    addr \<Rightarrow> addr \<Rightarrow> (addr \<Rightarrow> addr) \<Rightarrow> addr \<Rightarrow> process option" where
  "tcp_cb_accept user_next call w loop server blk data m aev = do {
     s \<leftarrow> ts_get w server;
     sk \<leftarrow> w_socks w (ts_fd s);
     let (r, rs) = retry_eintr (sk_accept sk);
     let es = (if r = None then snd (take_err (sk_errs sk)) else sk_errs sk);
     let w = sk_put w (ts_fd s) (Sock (sk_in sk) (sk_out sk) es (sk_soerr sk) (sk_connect sk) rs (sk_sent sk));
     case r of
       None \<Rightarrow> Some w
     | Some (fd, new) \<Rightarrow> do {
         let w = sk_put w fd new;
         (pool, client) \<leftarrow> objpool_get_obj (ts_clt_objpool s) (has_flag (ts_flag s) TCPFLG_SRV_MLOOP) blk data m;
         let s = s\<lparr>ts_clt_objpool := pool\<rparr>;
         let w = ts_put w server s;
         if client = NULL then Some (sk_close w fd)
         else do {
           (w, on) \<leftarrow> client_loop user_next w s loop;
           accept_start call w server s client fd on aev } } }"

end
