(* ===== verification/EvtPend.thy ===== *)
theory EvtPend
  imports EvtLoop
begin

text \<open>
  The pending queues of the event loop. The invariant ties every entry that is still to be run to an event that knows
  its place, so that stopping an event takes it out of the queues.
\<close>

definition pendpos_of :: "evt_loop \<Rightarrow> addr \<Rightarrow> nat" where
  "pendpos_of loop e = (case ev_get loop e of None \<Rightarrow> 0 | Some ev \<Rightarrow> ev_pendpos ev)"

definition prio_of :: "evt_loop \<Rightarrow> addr \<Rightarrow> nat" where
  "prio_of loop e = (case ev_get loop e of None \<Rightarrow> 0 | Some ev \<Rightarrow> ev_priority ev)"

definition pend_shape :: "evt_loop \<Rightarrow> bool" where
  "pend_shape loop \<longleftrightarrow> length (lp_pending loop) = lp_priority_max loop + 1 \<and> length (lp_pending_size loop) = lp_priority_max loop + 1 \<and>
     (case ev_get loop (lp_empty_ev loop) of None \<Rightarrow> False | Some ev \<Rightarrow> ev_cb ev = 0)"

text \<open>The entries of queue \<open>i\<close> below \<open>j\<close> have been run.\<close>

definition pend_fwd :: "evt_loop \<Rightarrow> nat \<Rightarrow> nat \<Rightarrow> addr \<Rightarrow> bool" where
  "pend_fwd loop i j e \<longleftrightarrow> pendpos_of loop e \<noteq> 0 \<longrightarrow> prio_of loop e \<le> lp_priority_max loop \<and>
     \<not> (prio_of loop e = i \<and> pendpos_of loop e \<le> j) \<and> pendpos_of loop e \<le> length (lp_pending loop ! prio_of loop e) \<and>
     lp_pending loop ! prio_of loop e ! (pendpos_of loop e - 1) = e"

definition pend_bwd :: "evt_loop \<Rightarrow> nat \<Rightarrow> nat \<Rightarrow> nat \<Rightarrow> nat \<Rightarrow> bool" where
  "pend_bwd loop i j p k \<longleftrightarrow> p \<le> lp_priority_max loop \<and> k < length (lp_pending loop ! p) \<and> \<not> (p = i \<and> k < j) \<longrightarrow>
     lp_pending loop ! p ! k = lp_empty_ev loop \<or>
     pendpos_of loop (lp_pending loop ! p ! k) = k + 1 \<and> prio_of loop (lp_pending loop ! p ! k) = p"

definition pend_inv :: "evt_loop \<Rightarrow> nat \<Rightarrow> nat \<Rightarrow> bool" where
  "pend_inv loop i j \<longleftrightarrow> pend_shape loop \<and> (i \<le> lp_priority_max loop \<longrightarrow> j \<le> length (lp_pending loop ! i)) \<and>
     (\<forall>e. pend_fwd loop i j e) \<and> (\<forall>p k. pend_bwd loop i j p k)"

lemma pend_invD:
  assumes "pend_inv loop i j"
  shows "pend_shape loop" "i \<le> lp_priority_max loop \<Longrightarrow> j \<le> length (lp_pending loop ! i)" "pend_fwd loop i j e" "pend_bwd loop i j p k"
  using assms by (simp_all add: pend_inv_def)

text \<open>What the invariant depends on.\<close>

definition pend_same :: "evt_loop \<Rightarrow> evt_loop \<Rightarrow> bool" where
  "pend_same loop loop' \<longleftrightarrow> lp_pending loop' = lp_pending loop \<and> lp_pending_size loop' = lp_pending_size loop \<and>
     lp_empty_ev loop' = lp_empty_ev loop \<and> lp_priority_max loop' = lp_priority_max loop \<and>
     pendpos_of loop' = pendpos_of loop \<and> (\<forall>e. pendpos_of loop e \<noteq> 0 \<longrightarrow> prio_of loop' e = prio_of loop e) \<and>
     (pend_shape loop \<longrightarrow> pend_shape loop')"

lemma pend_same_inv: "pend_same loop loop' \<Longrightarrow> pend_inv loop i j \<Longrightarrow> pend_inv loop' i j"
  unfolding pend_same_def pend_inv_def pend_fwd_def pend_bwd_def by (metis add_is_0 one_neq_zero)

lemma pend_same_trans: "pend_same a b \<Longrightarrow> pend_same b c \<Longrightarrow> pend_same a c"
  unfolding pend_same_def by metis

lemma pend_same_refl [simp]: "pend_same loop loop"
  by (simp add: pend_same_def)

lemma ev_get_upd [simp]:
  "ev_get (loop\<lparr>lp_pending := v0\<rparr>) x = ev_get loop x" "ev_get (loop\<lparr>lp_pending_size := v1\<rparr>) x = ev_get loop x" "ev_get (loop\<lparr>lp_next := v2\<rparr>) x = ev_get loop x"
  "ev_get (loop\<lparr>lp_fds := v3\<rparr>) x = ev_get loop x" "ev_get (loop\<lparr>lp_fds_change := v4\<rparr>) x = ev_get loop x" "ev_get (loop\<lparr>lp_fds_change_size := v5\<rparr>) x = ev_get loop x"
  "ev_get (loop\<lparr>lp_before_evtq := v6\<rparr>) x = ev_get loop x" "ev_get (loop\<lparr>lp_after_evtq := v7\<rparr>) x = ev_get loop x" "ev_get (loop\<lparr>lp_async_evtq := v8\<rparr>) x = ev_get loop x"
  "ev_get (loop\<lparr>lp_timers := v9\<rparr>) x = ev_get loop x" "ev_get (loop\<lparr>lp_timer_cnt := v10\<rparr>) x = ev_get loop x" "ev_get (loop\<lparr>lp_clock := v11\<rparr>) x = ev_get loop x"
  "ev_get (loop\<lparr>lp_poll := v12\<rparr>) x = ev_get loop x" "ev_get (loop\<lparr>lp_poll_time_us := v13\<rparr>) x = ev_get loop x" "ev_get (loop\<lparr>lp_status := v14\<rparr>) x = ev_get loop x"
  "ev_get (loop\<lparr>lp_owner_tid := v15\<rparr>) x = ev_get loop x" "ev_get (loop\<lparr>lp_evtfd_count := v16\<rparr>) x = ev_get loop x"
  by (simp_all add: ev_get_def)

lemma pendpos_of_upd [simp]:
  "pendpos_of (loop\<lparr>lp_pending := v0\<rparr>) x = pendpos_of loop x" "pendpos_of (loop\<lparr>lp_pending_size := v1\<rparr>) x = pendpos_of loop x" "pendpos_of (loop\<lparr>lp_next := v2\<rparr>) x = pendpos_of loop x"
  "pendpos_of (loop\<lparr>lp_fds := v3\<rparr>) x = pendpos_of loop x" "pendpos_of (loop\<lparr>lp_fds_change := v4\<rparr>) x = pendpos_of loop x" "pendpos_of (loop\<lparr>lp_fds_change_size := v5\<rparr>) x = pendpos_of loop x"
  "pendpos_of (loop\<lparr>lp_before_evtq := v6\<rparr>) x = pendpos_of loop x" "pendpos_of (loop\<lparr>lp_after_evtq := v7\<rparr>) x = pendpos_of loop x" "pendpos_of (loop\<lparr>lp_async_evtq := v8\<rparr>) x = pendpos_of loop x"
  "pendpos_of (loop\<lparr>lp_timers := v9\<rparr>) x = pendpos_of loop x" "pendpos_of (loop\<lparr>lp_timer_cnt := v10\<rparr>) x = pendpos_of loop x" "pendpos_of (loop\<lparr>lp_clock := v11\<rparr>) x = pendpos_of loop x"
  "pendpos_of (loop\<lparr>lp_poll := v12\<rparr>) x = pendpos_of loop x" "pendpos_of (loop\<lparr>lp_poll_time_us := v13\<rparr>) x = pendpos_of loop x" "pendpos_of (loop\<lparr>lp_status := v14\<rparr>) x = pendpos_of loop x"
  "pendpos_of (loop\<lparr>lp_owner_tid := v15\<rparr>) x = pendpos_of loop x" "pendpos_of (loop\<lparr>lp_evtfd_count := v16\<rparr>) x = pendpos_of loop x"
  by (simp_all add: pendpos_of_def)

lemma prio_of_upd [simp]:
  "prio_of (loop\<lparr>lp_pending := v0\<rparr>) x = prio_of loop x" "prio_of (loop\<lparr>lp_pending_size := v1\<rparr>) x = prio_of loop x" "prio_of (loop\<lparr>lp_next := v2\<rparr>) x = prio_of loop x"
  "prio_of (loop\<lparr>lp_fds := v3\<rparr>) x = prio_of loop x" "prio_of (loop\<lparr>lp_fds_change := v4\<rparr>) x = prio_of loop x" "prio_of (loop\<lparr>lp_fds_change_size := v5\<rparr>) x = prio_of loop x"
  "prio_of (loop\<lparr>lp_before_evtq := v6\<rparr>) x = prio_of loop x" "prio_of (loop\<lparr>lp_after_evtq := v7\<rparr>) x = prio_of loop x" "prio_of (loop\<lparr>lp_async_evtq := v8\<rparr>) x = prio_of loop x"
  "prio_of (loop\<lparr>lp_timers := v9\<rparr>) x = prio_of loop x" "prio_of (loop\<lparr>lp_timer_cnt := v10\<rparr>) x = prio_of loop x" "prio_of (loop\<lparr>lp_clock := v11\<rparr>) x = prio_of loop x"
  "prio_of (loop\<lparr>lp_poll := v12\<rparr>) x = prio_of loop x" "prio_of (loop\<lparr>lp_poll_time_us := v13\<rparr>) x = prio_of loop x" "prio_of (loop\<lparr>lp_status := v14\<rparr>) x = prio_of loop x"
  "prio_of (loop\<lparr>lp_owner_tid := v15\<rparr>) x = prio_of loop x" "prio_of (loop\<lparr>lp_evtfd_count := v16\<rparr>) x = prio_of loop x"
  by (simp_all add: prio_of_def)

lemma ev_get_put: "ev_get (ev_put loop e ev) x = (if x = e \<and> e \<noteq> NULL then Some ev else ev_get loop x)"
  by (auto simp: ev_get_def ev_put_def)

lemma ev_put_simps [simp]:
  "lp_pending (ev_put loop e ev) = lp_pending loop" "lp_pending_size (ev_put loop e ev) = lp_pending_size loop"
  "lp_empty_ev (ev_put loop e ev) = lp_empty_ev loop" "lp_priority_max (ev_put loop e ev) = lp_priority_max loop"
  "lp_next (ev_put loop e ev) = lp_next loop" "lp_fds (ev_put loop e ev) = lp_fds loop"
  "lp_fds_change (ev_put loop e ev) = lp_fds_change loop" "lp_owner_tid (ev_put loop e ev) = lp_owner_tid loop"
  "lp_tid (ev_put loop e ev) = lp_tid loop" "lp_status (ev_put loop e ev) = lp_status loop"
  "lp_before_evtq (ev_put loop e ev) = lp_before_evtq loop" "lp_after_evtq (ev_put loop e ev) = lp_after_evtq loop"
  "lp_async_evtq (ev_put loop e ev) = lp_async_evtq loop" "lp_timers (ev_put loop e ev) = lp_timers loop"
  "lp_timer_cnt (ev_put loop e ev) = lp_timer_cnt loop" "lp_clock (ev_put loop e ev) = lp_clock loop"
  "lp_poll (ev_put loop e ev) = lp_poll loop" "lp_fds_change_size (ev_put loop e ev) = lp_fds_change_size loop"
  by (simp_all add: ev_put_def)

lemma ev_get_Some: "ev_get loop e = Some ev \<Longrightarrow> e \<noteq> NULL"
  by (auto simp: ev_get_def split: if_splits)

lemma pendpos_put: "e \<noteq> NULL \<Longrightarrow> pendpos_of (ev_put loop e ev) x = (if x = e then ev_pendpos ev else pendpos_of loop x)"
  by (simp add: pendpos_of_def ev_get_put)

lemma prio_put: "e \<noteq> NULL \<Longrightarrow> prio_of (ev_put loop e ev) x = (if x = e then ev_priority ev else prio_of loop x)"
  by (simp add: prio_of_def ev_get_put)

text \<open>Updating an event keeps the invariant when its place, its callback and, while it is queued, its priority stay.\<close>

lemma pend_same_put:
  assumes g: "ev_get loop e = Some ev" and "ev_pendpos ev' = ev_pendpos ev" "ev_cb ev' = ev_cb ev"
    and "ev_pendpos ev \<noteq> 0 \<Longrightarrow> ev_priority ev' = ev_priority ev"
  shows "pend_same loop (ev_put loop e ev')"
proof -
  note nz = ev_get_Some [OF g]
  have "pendpos_of (ev_put loop e ev') = pendpos_of loop" using assms nz by (auto simp: pendpos_put pendpos_of_def [of loop e])
  moreover have "pendpos_of loop x \<noteq> 0 \<longrightarrow> prio_of (ev_put loop e ev') x = prio_of loop x" for x
    using assms nz by (auto simp: prio_put prio_of_def [of loop e] pendpos_of_def [of loop e])
  moreover have "pend_shape loop \<longrightarrow> pend_shape (ev_put loop e ev')" using assms nz
    by (auto simp: pend_shape_def ev_get_put split: option.splits)
  ultimately show ?thesis by (simp add: pend_same_def)
qed

text \<open>Updating a field that has nothing to do with the queues.\<close>

lemma pend_sameI:
  assumes "lp_pending loop' = lp_pending loop" "lp_pending_size loop' = lp_pending_size loop" "lp_empty_ev loop' = lp_empty_ev loop"
    "lp_priority_max loop' = lp_priority_max loop" "lp_evs loop' = lp_evs loop"
  shows "pend_same loop loop'"
proof -
  have "ev_get loop' = ev_get loop" using assms(5) by (intro ext) (simp add: ev_get_def)
  then show ?thesis using assms(1-4) by (simp add: pend_same_def pend_shape_def pendpos_of_def fun_eq_iff prio_of_def)
qed

lemma pend_shape_len: "pend_shape loop \<Longrightarrow> p \<le> lp_priority_max loop \<Longrightarrow> p < length (lp_pending loop) \<and> p < length (lp_pending_size loop)"
  by (simp add: pend_shape_def)

section \<open>Queueing\<close>

lemma append_pending_cases:
  assumes "evt_append_pending loop e = Some loop'"
  obtains ev where "ev_get loop e = Some ev" "ev_priority ev \<le> lp_priority_max loop" "ev_pendpos ev \<noteq> 0" "loop' = loop"
  | ev sz q where "ev_get loop e = Some ev" "ev_priority ev \<le> lp_priority_max loop" "ev_pendpos ev = 0"
      "pend_q loop (ev_priority ev) = Some q"
      "loop' = ev_put (loop\<lparr>lp_pending_size := (lp_pending_size loop)[ev_priority ev := sz],
        lp_pending := (lp_pending loop)[ev_priority ev := q @ [e]]\<rparr>) e (ev\<lparr>ev_pendpos := length q + 1\<rparr>)"
  using assms by (auto simp: evt_append_pending_def Let_def bind_eq_Some_conv split: if_splits)

lemma append_pending_inv:
  assumes inv: "pend_inv loop i j" and "evt_append_pending loop e = Some loop'"
  shows "pend_inv loop' i j"
  using assms(2)
proof (cases rule: append_pending_cases)
  case 1
  then show ?thesis using inv by simp
next
  case (2 ev sz q)
  let ?p = "ev_priority ev" and ?l = "loop\<lparr>lp_pending_size := (lp_pending_size loop)[ev_priority ev := sz],
        lp_pending := (lp_pending loop)[ev_priority ev := q @ [e]]\<rparr>"
  note nz = ev_get_Some [OF 2(1)]
  have sh: "pend_shape loop" using inv by (simp add: pend_inv_def)
  have lt: "?p < length (lp_pending loop)" using pend_shape_len [OF sh 2(2)] by simp
  have q: "q = lp_pending loop ! ?p" using 2(4) lt by (simp add: pend_q_def)
  have old: "pendpos_of loop e = 0" "prio_of loop e = ?p" using 2(1,3) by (simp_all add: pendpos_of_def prio_of_def)
  have P: "pendpos_of loop' x = (if x = e then length q + 1 else pendpos_of loop x)" for x
    unfolding 2(5) using nz by (simp add: pendpos_put)
  have R: "prio_of loop' x = prio_of loop x" for x
    unfolding 2(5) using nz old(2) by (simp add: prio_put)
  have F: "lp_pending loop' = (lp_pending loop)[?p := q @ [e]]" "lp_empty_ev loop' = lp_empty_ev loop"
    "lp_priority_max loop' = lp_priority_max loop" by (simp_all add: 2(5))
  have at: "lp_pending loop' ! p = (if p = ?p then q @ [e] else lp_pending loop ! p)" for p using lt by (simp add: F(1))
  have "pend_shape loop'" using sh nz 2(1) unfolding 2(5) by (auto simp: pend_shape_def ev_get_put split: option.splits)
  moreover have "pend_fwd loop' i j x" for x
  proof (cases "x = e")
    case True
    then show ?thesis using pend_invD(2) [OF inv] old 2(2) q by (auto simp: pend_fwd_def P R F(2,3) at)
  next
    case False
    then show ?thesis using pend_invD(3) [OF inv, of x] q by (auto simp: pend_fwd_def P R F(2,3) at nth_append)
  qed
  moreover have "pend_bwd loop' i j p k" for p k
  proof (cases "p = ?p \<and> k = length q")
    case True
    then show ?thesis using old by (simp add: pend_bwd_def P R F(2,3) at)
  next
    case False
    show ?thesis
    proof (cases "lp_pending loop ! p ! k = e \<and> k < length (lp_pending loop ! p)")
      case True
      then show ?thesis using pend_invD(4) [OF inv, of p k] old q False by (auto simp: pend_bwd_def P R F(2,3) at nth_append)
    next
      case ne: False
      then show ?thesis using pend_invD(4) [OF inv, of p k] q False by (auto simp: pend_bwd_def P R F(2,3) at nth_append)
    qed
  qed
  moreover have "i \<le> lp_priority_max loop' \<longrightarrow> j \<le> length (lp_pending loop' ! i)"
    using pend_invD(2) [OF inv] q by (auto simp: F(3) at)
  ultimately show ?thesis by (simp add: pend_inv_def)
qed

section \<open>Taking an event out\<close>

lemma unpend_cases:
  assumes "evt_unpend loop e = Some loop'"
  obtains ev where "ev_get loop e = Some ev" "ev_pendpos ev = 0" "loop' = loop"
  | ev q where "ev_get loop e = Some ev" "ev_pendpos ev \<noteq> 0" "pend_q loop (ev_priority ev) = Some q" "ev_pendpos ev - 1 < length q"
      "loop' = ev_put (loop\<lparr>lp_pending := (lp_pending loop)[ev_priority ev := q[ev_pendpos ev - 1 := lp_empty_ev loop]]\<rparr>) e (ev\<lparr>ev_pendpos := 0\<rparr>)"
proof -
  obtain ev where ev: "ev_get loop e = Some ev" using assms by (auto simp: evt_unpend_def bind_eq_Some_conv)
  show thesis
  proof (cases "ev_pendpos ev = 0")
    case True
    then show thesis using that(1) ev assms by (simp add: evt_unpend_def)
  next
    case False
    then obtain q where q: "pend_q loop (ev_priority ev) = Some q" "ev_pendpos ev - 1 < length q"
      using ev assms by (auto simp: evt_unpend_def bind_eq_Some_conv split: if_splits)
    show thesis by (rule that(2) [OF ev False q]) (use assms ev False q in \<open>simp add: evt_unpend_def Let_def\<close>)
  qed
qed

lemma unpend_inv:
  assumes inv: "pend_inv loop i j" and "evt_unpend loop e = Some loop'"
  shows "pend_inv loop' i j \<and> pendpos_of loop' e = 0"
  using assms(2)
proof (cases rule: unpend_cases)
  case 1
  then show ?thesis using inv by (simp add: pendpos_of_def)
next
  case (2 ev q)
  let ?p = "ev_priority ev" and ?k = "ev_pendpos ev - 1"
  let ?l = "loop\<lparr>lp_pending := (lp_pending loop)[?p := q[?k := lp_empty_ev loop]]\<rparr>"
  note nz = ev_get_Some [OF 2(1)]
  have sh: "pend_shape loop" using inv by (simp add: pend_inv_def)
  have old: "pendpos_of loop e = ev_pendpos ev" "prio_of loop e = ?p" using 2(1) by (simp_all add: pendpos_of_def prio_of_def)
  have at_e: "?p \<le> lp_priority_max loop" "\<not> (?p = i \<and> ev_pendpos ev \<le> j)" "lp_pending loop ! ?p ! ?k = e"
    using pend_invD(3) [OF inv, of e] old 2(2) by (auto simp: pend_fwd_def)
  have lt: "?p < length (lp_pending loop)" using pend_shape_len [OF sh at_e(1)] by simp
  have q: "q = lp_pending loop ! ?p" using 2(3) lt by (simp add: pend_q_def)
  have P: "pendpos_of loop' x = (if x = e then 0 else pendpos_of loop x)" for x
    unfolding 2(5) using nz by (simp add: pendpos_put)
  have R: "prio_of loop' x = prio_of loop x" for x
    unfolding 2(5) using nz old(2) by (simp add: prio_put)
  have F: "lp_pending loop' = (lp_pending loop)[?p := q[?k := lp_empty_ev loop]]" "lp_empty_ev loop' = lp_empty_ev loop"
    "lp_priority_max loop' = lp_priority_max loop" by (simp_all add: 2(5))
  have at: "lp_pending loop' ! p = (if p = ?p then q[?k := lp_empty_ev loop] else lp_pending loop ! p)" for p using lt by (simp add: F(1))
  have "pend_shape loop'" using sh nz 2(1) unfolding 2(5) by (auto simp: pend_shape_def ev_get_put split: option.splits)
  moreover have "pend_fwd loop' i j x" for x
  proof (cases "x = e")
    case True
    then show ?thesis by (simp add: pend_fwd_def P)
  next
    case False
    then have "pendpos_of loop x \<noteq> 0 \<Longrightarrow> prio_of loop x = ?p \<Longrightarrow> pendpos_of loop x - 1 \<noteq> ?k"
      using pend_invD(3) [OF inv, of x] at_e(3) by (auto simp: pend_fwd_def)
    then show ?thesis using pend_invD(3) [OF inv, of x] q False by (auto simp: pend_fwd_def P R F(2,3) at)
  qed
  moreover have "pend_bwd loop' i j p k" for p k
  proof (cases "p = ?p \<and> k = ?k")
    case True
    then show ?thesis using 2(4) by (simp add: pend_bwd_def F(2) at)
  next
    case False
    then have ne: "p \<le> lp_priority_max loop \<Longrightarrow> \<not> (p = i \<and> k < j) \<Longrightarrow> k < length (lp_pending loop ! p) \<Longrightarrow> lp_pending loop ! p ! k \<noteq> e \<or> e = lp_empty_ev loop"
      using pend_invD(4) [OF inv, of p k] old 2(2) by (auto simp: pend_bwd_def)
    have elem: "lp_pending loop' ! p ! k = lp_pending loop ! p ! k" "length (lp_pending loop' ! p) = length (lp_pending loop ! p)"
      using False q by (auto simp: at)
    show ?thesis using pend_invD(4) [OF inv, of p k] ne unfolding pend_bwd_def elem P R F(2,3) by auto
  qed
  moreover have "i \<le> lp_priority_max loop' \<longrightarrow> j \<le> length (lp_pending loop' ! i)"
    using pend_invD(2) [OF inv] q by (auto simp: F(3) at)
  ultimately show ?thesis by (simp add: pend_inv_def P)
qed

text \<open>An event that is not queued is at no place that is still to be run.\<close>

lemma unqueued_not_run:
  assumes inv: "pend_inv loop i j" and "pendpos_of loop e = 0" and "e \<noteq> lp_empty_ev loop"
    and "p \<le> lp_priority_max loop" "k < length (lp_pending loop ! p)" "\<not> (p = i \<and> k < j)"
  shows "lp_pending loop ! p ! k \<noteq> e"
  using pend_invD(4) [OF inv, of p k] assms(2-6) by (auto simp: pend_bwd_def)

end
