(* ===== verification/EvtClient.thy ===== *)
theory EvtClient
  imports EvtPend
begin

text \<open>
  What callbacks may do to a running loop, and that it keeps the pending queues in order: any sequence of calls of
  the interface of the loop, chosen from its state. The contract of a callback is a locale; programs over the
  interface satisfy it.
\<close>

lemma bind_SomeE: "Option.bind m f = Some r \<Longrightarrow> (\<And>x. m = Some x \<Longrightarrow> f x = Some r \<Longrightarrow> P) \<Longrightarrow> P"
  by (cases m) auto

section \<open>The operations keep the queues\<close>

named_theorems keep_pending \<open>operations that keep the invariant of the pending queues\<close>

lemma activate_same:
  assumes inv: "pend_inv loop i j" and g: "ev_get loop e = Some ev"
  shows "pend_same loop (ev_activate loop e ev)"
proof -
  have "ev_pendpos ev \<noteq> 0 \<Longrightarrow> ev_priority ev \<le> lp_priority_max loop"
    using pend_invD(3) [OF inv, of e] g by (auto simp: pend_fwd_def pendpos_of_def prio_of_def)
  then show ?thesis unfolding ev_activate_def using g
    by (intro pend_same_put) (auto simp: adj_between_def)
qed

lemma inactive_same: "ev_get loop e = Some ev \<Longrightarrow> pend_same loop (ev_put loop e (ev\<lparr>ev_active := a\<rparr>))"
  by (rule pend_same_put) auto

lemma timestamp_same: "ev_get loop e = Some ev \<Longrightarrow> pend_same loop (ev_put loop e (ev\<lparr>ev_timestamp := t\<rparr>))"
  by (rule pend_same_put) auto

lemma fd_change_same: "evt_fd_change loop fd = Some loop' \<Longrightarrow> pend_same loop loop'"
  by (rule pend_sameI) (auto simp: evt_fd_change_def fds_put_def Let_def bind_eq_Some_conv split: if_splits)

text \<open>Each start: either nothing is done, because of the thread or because the event is active, or the event is marked
  and the rest of the operation follows.\<close>

lemma start_via:
  assumes op: "r = (if wrong_thread loop then Some loop else do { ev \<leftarrow> ev_get loop e; if ev_active ev = 1 then Some loop
      else rest ev (ev_activate loop e ev) })"
    and "r = Some loop'"
  obtains "loop' = loop"
  | ev where "\<not> wrong_thread loop" "ev_get loop e = Some ev" "ev_active ev \<noteq> 1" "rest ev (ev_activate loop e ev) = Some loop'"
proof -
  note R = trans [OF op [symmetric] assms(2)]
  show thesis
  proof (cases "wrong_thread loop")
    case True
    then show thesis using R that(1) by simp
  next
    case False
    then obtain ev where ev: "ev_get loop e = Some ev" using R by (auto simp: bind_eq_Some_conv)
    show thesis
    proof (cases "ev_active ev = 1")
      case True
      then show thesis using R that(1) False ev by simp
    next
      case act: False
      then show thesis using R that(2) False ev by simp
    qed
  qed
qed

lemma start_keeps_via:
  assumes inv: "pend_inv loop i j"
    and op: "r = (if wrong_thread loop then Some loop else do { ev \<leftarrow> ev_get loop e; if ev_active ev = 1 then Some loop
      else rest ev (ev_activate loop e ev) })"
    and rest: "\<And>ev l l'. rest ev l = Some l' \<Longrightarrow> pend_same l l'"
    and r: "r = Some loop'"
  shows "pend_inv loop' i j"
  using op r
proof (cases rule: start_via)
  case 1
  then show ?thesis using inv by simp
next
  case (2 ev)
  show ?thesis by (rule pend_same_inv [OF pend_same_trans [OF activate_same [OF inv 2(2)] rest [OF 2(4)]] inv])
qed

definition fds_grown :: "evt_loop \<Rightarrow> nat \<Rightarrow> evt_loop" where
  "fds_grown loop sz = loop\<lparr>lp_fds := lp_fds loop @ replicate (sz - length (lp_fds loop)) \<lparr>fi_evq = NULL, fi_event = 0, fi_revent = 0, fi_flag = 0\<rparr>\<rparr>"

definition io_start_rest :: "addr \<Rightarrow> event \<Rightarrow> evt_loop \<Rightarrow> evt_loop option" where
  "io_start_rest e ev loop = do {
     sz \<leftarrow> check_and_expand_array (length (lp_fds loop)) (ev_fd ev + 1);
     fdi \<leftarrow> fds_at (fds_grown loop sz) (ev_fd ev);
     (nx, head) \<leftarrow> splst_add (lp_next (fds_grown loop sz)) (fi_evq fdi) e;
     evt_fd_change (fds_put (fds_grown loop sz\<lparr>lp_next := nx\<rparr>) (ev_fd ev) (fdi\<lparr>fi_evq := head\<rparr>)) (ev_fd ev) }"

lemma io_start_eq: "evt_io_start loop e = (if wrong_thread loop then Some loop else do { ev \<leftarrow> ev_get loop e;
    if ev_active ev = 1 then Some loop else io_start_rest e ev (ev_activate loop e ev) })"
  unfolding evt_io_start_def io_start_rest_def fds_grown_def Let_def ..

lemma io_start_restE:
  assumes "io_start_rest e ev loop = Some loop'"
  obtains sz fdi nx head where "check_and_expand_array (length (lp_fds loop)) (ev_fd ev + 1) = Some sz"
    "fds_at (fds_grown loop sz) (ev_fd ev) = Some fdi" "splst_add (lp_next loop) (fi_evq fdi) e = Some (nx, head)"
    "evt_fd_change (fds_put (fds_grown loop sz\<lparr>lp_next := nx\<rparr>) (ev_fd ev) (fdi\<lparr>fi_evq := head\<rparr>)) (ev_fd ev) = Some loop'"
proof -
  have nx: "lp_next (fds_grown loop sz) = lp_next loop" for sz by (simp add: fds_grown_def)
  show thesis
    using assms unfolding io_start_rest_def nx
    by (elim bind_SomeE) (auto elim!: bind_SomeE intro: that split: prod.splits)
qed

lemma grow_same: "pend_same loop (fds_put (fds_grown loop sz\<lparr>lp_next := nx\<rparr>) fd fdi)"
  by (rule pend_sameI) (auto simp: fds_put_def fds_grown_def)

lemma io_start_rest_same: "io_start_rest e ev loop = Some loop' \<Longrightarrow> pend_same loop loop'"
  by (elim io_start_restE) (rule pend_same_trans [OF grow_same fd_change_same])

lemma io_start_keeps [keep_pending]: "pend_inv loop i j \<Longrightarrow> evt_io_start loop e = Some loop' \<Longrightarrow> pend_inv loop' i j"
  by (rule start_keeps_via [where rest = "io_start_rest e", OF _ io_start_eq io_start_rest_same])

lemma io_start_pendpos:
  assumes "evt_io_start loop e = Some loop'"
  shows "pendpos_of loop' = pendpos_of loop"
  using io_start_eq assms
proof (cases rule: start_via [where rest = "io_start_rest e"])
  case (2 ev)
  have "pendpos_of (ev_activate loop e ev) = pendpos_of loop"
    using ev_get_Some [OF 2(2)] 2(2) by (auto simp: ev_activate_def pendpos_put fun_eq_iff pendpos_of_def [of loop e])
  then show ?thesis using io_start_rest_same [OF 2(4)] by (simp add: pend_same_def)
qed simp

text \<open>The stops share their first half: the event is marked and taken out of the queue.\<close>

lemma stop_unpend:
  assumes inv: "pend_inv loop i j" and ev: "ev_get loop e = Some ev"
    and "evt_unpend (ev_put loop e (ev\<lparr>ev_active := 0\<rparr>)) e = Some loop'"
  shows "pend_inv loop' i j \<and> pendpos_of loop' e = 0"
  by (rule unpend_inv [OF pend_same_inv [OF inactive_same [OF ev] inv] assms(3)])

definition stopped :: "evt_loop \<Rightarrow> addr \<Rightarrow> nat \<Rightarrow> nat \<Rightarrow> bool" where
  "stopped loop e i j \<longleftrightarrow> pend_inv loop i j \<and> pendpos_of loop e = 0"

lemma stopped_same: "pend_same loop loop' \<Longrightarrow> stopped loop e i j \<Longrightarrow> stopped loop' e i j"
  using pend_same_inv [of loop loop' i j] by (simp add: stopped_def pend_same_def)

text \<open>Each stop: either nothing is done, because of the thread or because the event is not active, or the event is
  taken out and the rest does not touch the queues.\<close>

lemma stop_keeps_via:
  assumes inv: "pend_inv loop i j"
    and op: "r = (if wrong_thread loop then Some loop else do { ev \<leftarrow> ev_get loop e; if ev_active ev = 0 then Some loop
      else do { loop \<leftarrow> evt_unpend (ev_put loop e (ev\<lparr>ev_active := 0\<rparr>)) e; rest ev loop } })"
    and rest: "\<And>ev l l'. rest ev l = Some l' \<Longrightarrow> pend_same l l'"
    and "r = Some loop'"
  shows "pend_inv loop' i j" "\<not> wrong_thread loop \<Longrightarrow> ev_get loop e = Some ev \<Longrightarrow> ev_active ev \<noteq> 0 \<Longrightarrow> stopped loop' e i j"
proof -
  note R = trans [OF op [symmetric] \<open>r = Some loop'\<close>]
  have *: "stopped loop' e i j" if nw: "\<not> wrong_thread loop" and ev: "ev_get loop e = Some ev" and act: "ev_active ev \<noteq> 0" for ev
  proof -
    obtain l where l: "evt_unpend (ev_put loop e (ev\<lparr>ev_active := 0\<rparr>)) e = Some l" "rest ev l = Some loop'"
      using R nw ev act by (auto simp: bind_eq_Some_conv)
    have "stopped l e i j" unfolding stopped_def by (rule stop_unpend [OF inv ev l(1)])
    then show ?thesis using stopped_same [OF rest [OF l(2)]] by blast
  qed
  show "\<not> wrong_thread loop \<Longrightarrow> ev_get loop e = Some ev \<Longrightarrow> ev_active ev \<noteq> 0 \<Longrightarrow> stopped loop' e i j" by (rule *)
  show "pend_inv loop' i j"
  proof (cases "wrong_thread loop")
    case True
    then show ?thesis using R inv by simp
  next
    case False
    then obtain ev where ev: "ev_get loop e = Some ev" using R by (auto simp: bind_eq_Some_conv)
    show ?thesis
    proof (cases "ev_active ev = 0")
      case True
      then show ?thesis using R inv False ev by simp
    next
      case act: False
      then show ?thesis using * [OF False ev] by (simp add: stopped_def)
    qed
  qed
qed

definition io_stop_rest :: "addr \<Rightarrow> event \<Rightarrow> evt_loop \<Rightarrow> evt_loop option" where
  "io_stop_rest e ev loop = do {
     fdi \<leftarrow> fds_at loop (ev_fd ev);
     (nx, head) \<leftarrow> splst_del (lp_next loop) (fi_evq fdi) e;
     evt_fd_change (fds_put (loop\<lparr>lp_next := nx\<rparr>) (ev_fd ev) (fdi\<lparr>fi_evq := head\<rparr>)) (ev_fd ev) }"

lemma io_stop_rest_same: "io_stop_rest e ev loop = Some loop' \<Longrightarrow> pend_same loop loop'"
proof -
  assume "io_stop_rest e ev loop = Some loop'"
  then obtain fdi nx head where "evt_fd_change (fds_put (loop\<lparr>lp_next := nx\<rparr>) (ev_fd ev) (fdi\<lparr>fi_evq := head\<rparr>)) (ev_fd ev) = Some loop'"
    by (auto simp: io_stop_rest_def bind_eq_Some_conv split: prod.splits)
  then have "pend_same (fds_put (loop\<lparr>lp_next := nx\<rparr>) (ev_fd ev) (fdi\<lparr>fi_evq := head\<rparr>)) loop'" by (rule fd_change_same)
  moreover have "pend_same loop (fds_put (loop\<lparr>lp_next := nx\<rparr>) (ev_fd ev) (fdi\<lparr>fi_evq := head\<rparr>))"
    by (rule pend_sameI) (auto simp: fds_put_def)
  ultimately show ?thesis using pend_same_trans by blast
qed

lemma io_stop_eq: "evt_io_stop loop e = (if wrong_thread loop then Some loop else do { ev \<leftarrow> ev_get loop e; if ev_active ev = 0 then Some loop
      else do { loop \<leftarrow> evt_unpend (ev_put loop e (ev\<lparr>ev_active := 0\<rparr>)) e; io_stop_rest e ev loop } })"
  unfolding evt_io_stop_def io_stop_rest_def [abs_def] Let_def ..

definition timer_stop_rest :: "addr \<Rightarrow> event \<Rightarrow> evt_loop \<Rightarrow> evt_loop option" where
  "timer_stop_rest e ev loop = do {
     pos \<leftarrow> sp_pos (lp_timers loop) e;
     if pos > 0 then do {
       (h, cnt) \<leftarrow> spheap_delete (EVTTIMER_CMP loop) (lp_timers loop) pos (lp_timer_cnt loop);
       Some (loop\<lparr>lp_timers := h, lp_timer_cnt := cnt\<rparr>) }
     else Some loop }"

lemma timer_stop_rest_same: "timer_stop_rest e ev loop = Some loop' \<Longrightarrow> pend_same loop loop'"
  unfolding timer_stop_rest_def by (elim bind_SomeE, simp split: if_splits, elim bind_SomeE) (auto intro!: pend_sameI)

lemma timer_stop_eq: "evt_timer_stop loop e = (if wrong_thread loop then Some loop else do { ev \<leftarrow> ev_get loop e; if ev_active ev = 0 then Some loop
      else do { loop \<leftarrow> evt_unpend (ev_put loop e (ev\<lparr>ev_active := 0\<rparr>)) e; timer_stop_rest e ev loop } })"
  unfolding evt_timer_stop_def timer_stop_rest_def [abs_def] Let_def ..

definition before_stop_rest :: "addr \<Rightarrow> event \<Rightarrow> evt_loop \<Rightarrow> evt_loop option" where
  "before_stop_rest e ev loop = do {
     (nx, head) \<leftarrow> splst_del (lp_next loop) (lp_before_evtq loop) e;
     Some (loop\<lparr>lp_next := nx, lp_before_evtq := head\<rparr>) }"

lemma before_stop_rest_same: "before_stop_rest e ev loop = Some loop' \<Longrightarrow> pend_same loop loop'"
  unfolding before_stop_rest_def by (elim bind_SomeE) (auto intro!: pend_sameI)

lemma before_stop_eq: "evt_before_stop loop e = (if wrong_thread loop then Some loop else do { ev \<leftarrow> ev_get loop e; if ev_active ev = 0 then Some loop
      else do { loop \<leftarrow> evt_unpend (ev_put loop e (ev\<lparr>ev_active := 0\<rparr>)) e; before_stop_rest e ev loop } })"
  unfolding evt_before_stop_def before_stop_rest_def [abs_def] ..

definition after_stop_rest :: "addr \<Rightarrow> event \<Rightarrow> evt_loop \<Rightarrow> evt_loop option" where
  "after_stop_rest e ev loop = do {
     (nx, head) \<leftarrow> splst_del (lp_next loop) (lp_after_evtq loop) e;
     Some (loop\<lparr>lp_next := nx, lp_after_evtq := head\<rparr>) }"

lemma after_stop_rest_same: "after_stop_rest e ev loop = Some loop' \<Longrightarrow> pend_same loop loop'"
  unfolding after_stop_rest_def by (elim bind_SomeE) (auto intro!: pend_sameI)

lemma after_stop_eq: "evt_after_stop loop e = (if wrong_thread loop then Some loop else do { ev \<leftarrow> ev_get loop e; if ev_active ev = 0 then Some loop
      else do { loop \<leftarrow> evt_unpend (ev_put loop e (ev\<lparr>ev_active := 0\<rparr>)) e; after_stop_rest e ev loop } })"
  unfolding evt_after_stop_def after_stop_rest_def [abs_def] ..

lemma io_stop_keeps [keep_pending]: "pend_inv loop i j \<Longrightarrow> evt_io_stop loop e = Some loop' \<Longrightarrow> pend_inv loop' i j"
  by (rule stop_keeps_via(1) [where rest = "io_stop_rest e", OF _ io_stop_eq io_stop_rest_same])

lemma timer_stop_keeps [keep_pending]: "pend_inv loop i j \<Longrightarrow> evt_timer_stop loop e = Some loop' \<Longrightarrow> pend_inv loop' i j"
  by (rule stop_keeps_via(1) [where rest = "timer_stop_rest e", OF _ timer_stop_eq timer_stop_rest_same])

lemma before_stop_keeps [keep_pending]: "pend_inv loop i j \<Longrightarrow> evt_before_stop loop e = Some loop' \<Longrightarrow> pend_inv loop' i j"
  by (rule stop_keeps_via(1) [where rest = "before_stop_rest e", OF _ before_stop_eq before_stop_rest_same])

lemma after_stop_keeps [keep_pending]: "pend_inv loop i j \<Longrightarrow> evt_after_stop loop e = Some loop' \<Longrightarrow> pend_inv loop' i j"
  by (rule stop_keeps_via(1) [where rest = "after_stop_rest e", OF _ after_stop_eq after_stop_rest_same])


lemma io_stop_stops: "pend_inv loop i j \<Longrightarrow> evt_io_stop loop e = Some loop' \<Longrightarrow> \<not> wrong_thread loop \<Longrightarrow>
    ev_get loop e = Some ev \<Longrightarrow> ev_active ev \<noteq> 0 \<Longrightarrow> stopped loop' e i j"
  by (rule stop_keeps_via(2) [where rest = "io_stop_rest e", OF _ io_stop_eq io_stop_rest_same])

lemma timer_stop_stops: "pend_inv loop i j \<Longrightarrow> evt_timer_stop loop e = Some loop' \<Longrightarrow> \<not> wrong_thread loop \<Longrightarrow>
    ev_get loop e = Some ev \<Longrightarrow> ev_active ev \<noteq> 0 \<Longrightarrow> stopped loop' e i j"
  by (rule stop_keeps_via(2) [where rest = "timer_stop_rest e", OF _ timer_stop_eq timer_stop_rest_same])

lemma before_stop_stops: "pend_inv loop i j \<Longrightarrow> evt_before_stop loop e = Some loop' \<Longrightarrow> \<not> wrong_thread loop \<Longrightarrow>
    ev_get loop e = Some ev \<Longrightarrow> ev_active ev \<noteq> 0 \<Longrightarrow> stopped loop' e i j"
  by (rule stop_keeps_via(2) [where rest = "before_stop_rest e", OF _ before_stop_eq before_stop_rest_same])

lemma after_stop_stops: "pend_inv loop i j \<Longrightarrow> evt_after_stop loop e = Some loop' \<Longrightarrow> \<not> wrong_thread loop \<Longrightarrow>
    ev_get loop e = Some ev \<Longrightarrow> ev_active ev \<noteq> 0 \<Longrightarrow> stopped loop' e i j"
  by (rule stop_keeps_via(2) [where rest = "after_stop_rest e", OF _ after_stop_eq after_stop_rest_same])


definition before_start_rest :: "addr \<Rightarrow> event \<Rightarrow> evt_loop \<Rightarrow> evt_loop option" where
  "before_start_rest e ev loop = do {
     (nx, head) \<leftarrow> splst_add (lp_next loop) (lp_before_evtq loop) e;
     Some (loop\<lparr>lp_next := nx, lp_before_evtq := head\<rparr>) }"

lemma before_start_rest_same: "before_start_rest e ev loop = Some loop' \<Longrightarrow> pend_same loop loop'"
  unfolding before_start_rest_def by (elim bind_SomeE) (auto intro!: pend_sameI)

lemma before_start_eq: "evt_before_start loop e = (if wrong_thread loop then Some loop else do { ev \<leftarrow> ev_get loop e;
    if ev_active ev = 1 then Some loop else before_start_rest e ev (ev_activate loop e ev) })"
  unfolding evt_before_start_def before_start_rest_def Let_def ..

definition after_start_rest :: "addr \<Rightarrow> event \<Rightarrow> evt_loop \<Rightarrow> evt_loop option" where
  "after_start_rest e ev loop = do {
     (nx, head) \<leftarrow> splst_add (lp_next loop) (lp_after_evtq loop) e;
     Some (loop\<lparr>lp_next := nx, lp_after_evtq := head\<rparr>) }"

lemma after_start_rest_same: "after_start_rest e ev loop = Some loop' \<Longrightarrow> pend_same loop loop'"
  unfolding after_start_rest_def by (elim bind_SomeE) (auto intro!: pend_sameI)

lemma after_start_eq: "evt_after_start loop e = (if wrong_thread loop then Some loop else do { ev \<leftarrow> ev_get loop e;
    if ev_active ev = 1 then Some loop else after_start_rest e ev (ev_activate loop e ev) })"
  unfolding evt_after_start_def after_start_rest_def Let_def ..

definition timer_start_rest :: "addr \<Rightarrow> event \<Rightarrow> evt_loop \<Rightarrow> evt_loop option" where
  "timer_start_rest e ev loop = do {
     sz \<leftarrow> check_and_expand_array (length (sp_arr (lp_timers loop))) (lp_timer_cnt loop + 2);
     let loop = loop\<lparr>lp_timers := (lp_timers loop)\<lparr>sp_arr := sp_arr (lp_timers loop) @
       replicate (sz - length (sp_arr (lp_timers loop))) NULL\<rparr>\<rparr>;
     (loop, now) \<leftarrow> loop_catime loop;
     ev \<leftarrow> ev_get loop e;
     t \<leftarrow> ohtime (ev_timestamp ev + now);
     let loop = ev_put loop e (ev\<lparr>ev_timestamp := t\<rparr>);
     (h, cnt) \<leftarrow> spheap_push (EVTTIMER_CMP loop) (lp_timers loop) (lp_timer_cnt loop) e;
     Some (loop\<lparr>lp_timers := h, lp_timer_cnt := cnt\<rparr>) }"

lemma timer_start_rest_same:
  assumes "timer_start_rest e ev loop = Some loop'"
  shows "pend_same loop loop'"
proof -
  obtain sz ck now ev1 t h cnt where S: "let l = loop\<lparr>lp_timers := (lp_timers loop)\<lparr>sp_arr := sp_arr (lp_timers loop) @
       replicate (sz - length (sp_arr (lp_timers loop))) NULL\<rparr>, lp_clock := ck\<rparr> in
     ev_get l e = Some ev1 \<and> loop' = (ev_put l e (ev1\<lparr>ev_timestamp := t\<rparr>))\<lparr>lp_timers := h, lp_timer_cnt := cnt\<rparr>"
    using assms unfolding timer_start_rest_def loop_catime_def Let_def by (elim bind_SomeE) (auto elim!: bind_SomeE)
  let ?l = "loop\<lparr>lp_timers := (lp_timers loop)\<lparr>sp_arr := sp_arr (lp_timers loop) @
       replicate (sz - length (sp_arr (lp_timers loop))) NULL\<rparr>, lp_clock := ck\<rparr>"
  have "ev_get ?l e = Some ev1" "loop' = (ev_put ?l e (ev1\<lparr>ev_timestamp := t\<rparr>))\<lparr>lp_timers := h, lp_timer_cnt := cnt\<rparr>"
    using S unfolding Let_def by blast+
  then have "pend_same loop ?l" "pend_same ?l (ev_put ?l e (ev1\<lparr>ev_timestamp := t\<rparr>))" "pend_same (ev_put ?l e (ev1\<lparr>ev_timestamp := t\<rparr>)) loop'"
    using timestamp_same by (auto intro!: pend_sameI)
  then show ?thesis using pend_same_trans by blast
qed

lemma timer_start_eq: "evt_timer_start loop e = (if wrong_thread loop then Some loop else do { ev \<leftarrow> ev_get loop e;
    if ev_active ev = 1 then Some loop else timer_start_rest e ev (ev_activate loop e ev) })"
  unfolding evt_timer_start_def timer_start_rest_def Let_def ..

lemma before_start_keeps [keep_pending]: "pend_inv loop i j \<Longrightarrow> evt_before_start loop e = Some loop' \<Longrightarrow> pend_inv loop' i j"
  by (rule start_keeps_via [where rest = "before_start_rest e", OF _ before_start_eq before_start_rest_same])

lemma after_start_keeps [keep_pending]: "pend_inv loop i j \<Longrightarrow> evt_after_start loop e = Some loop' \<Longrightarrow> pend_inv loop' i j"
  by (rule start_keeps_via [where rest = "after_start_rest e", OF _ after_start_eq after_start_rest_same])

lemma timer_start_keeps [keep_pending]: "pend_inv loop i j \<Longrightarrow> evt_timer_start loop e = Some loop' \<Longrightarrow> pend_inv loop' i j"
  by (rule start_keeps_via [where rest = "timer_start_rest e", OF _ timer_start_eq timer_start_rest_same])


lemma async_start_same: "evt_async_start loop e = Some loop' \<Longrightarrow> pend_same loop loop'"
proof -
  assume a: "evt_async_start loop e = Some loop'"
  then obtain ev where ev: "ev_get loop e = Some ev" by (auto simp: evt_async_start_def bind_eq_Some_conv)
  show ?thesis
  proof (cases "ev_active ev = 1")
    case True
    then show ?thesis using a ev by (simp add: evt_async_start_def)
  next
    case False
    then obtain nx head where "loop' = (ev_put loop e (ev\<lparr>ev_active := 1\<rparr>))\<lparr>lp_next := nx, lp_async_evtq := head\<rparr>"
      using a ev unfolding evt_async_start_def Let_def by (auto elim!: bind_SomeE)
    then have "pend_same (ev_put loop e (ev\<lparr>ev_active := 1\<rparr>)) loop'" by (auto intro!: pend_sameI)
    then show ?thesis using inactive_same [OF ev] pend_same_trans by blast
  qed
qed

lemma async_stop_same: "evt_async_stop loop e = Some loop' \<Longrightarrow> pend_same loop loop'"
proof -
  assume a: "evt_async_stop loop e = Some loop'"
  then obtain ev where ev: "ev_get loop e = Some ev" by (auto simp: evt_async_stop_def bind_eq_Some_conv)
  show ?thesis
  proof (cases "ev_active ev = 0")
    case True
    then show ?thesis using a ev by (simp add: evt_async_stop_def)
  next
    case False
    then obtain nx head where "loop' = (ev_put loop e (ev\<lparr>ev_active := 0\<rparr>))\<lparr>lp_next := nx, lp_async_evtq := head\<rparr>"
      using a ev unfolding evt_async_stop_def Let_def by (auto elim!: bind_SomeE)
    then have "pend_same (ev_put loop e (ev\<lparr>ev_active := 0\<rparr>)) loop'" by (auto intro!: pend_sameI)
    then show ?thesis using inactive_same [OF ev] pend_same_trans by blast
  qed
qed

lemma async_start_keeps [keep_pending]: "pend_inv loop i j \<Longrightarrow> evt_async_start loop e = Some loop' \<Longrightarrow> pend_inv loop' i j"
  using async_start_same pend_same_inv by blast

lemma async_stop_keeps [keep_pending]: "pend_inv loop i j \<Longrightarrow> evt_async_stop loop e = Some loop' \<Longrightarrow> pend_inv loop' i j"
  using async_stop_same pend_same_inv by blast

lemma wakeup_same: "pend_same loop (fst (evt_loop_wakeup loop))"
  by (rule pend_sameI) (auto simp: evt_loop_wakeup_def)

lemma status_same: "pend_same loop (loop\<lparr>lp_status := s\<rparr>)"
  by (rule pend_sameI) auto

lemma quit_same: "pend_same loop (fst (evt_loop_quit loop))"
  using status_same pend_same_trans [OF status_same wakeup_same] by (simp add: evt_loop_quit_def Let_def)

lemmas wakeup_keeps = pend_same_inv [OF wakeup_same]
lemmas quit_keeps = pend_same_inv [OF quit_same]

text \<open>Running an entry takes its event out of the queue before its callback runs.\<close>

lemma pend_advance:
  assumes inv: "pend_inv loop i j" and i: "i \<le> lp_priority_max loop" and q: "q = lp_pending loop ! i" and j: "j < length q"
    and ev: "ev_get loop (q ! j) = Some ev"
  shows "pend_inv (ev_put loop (q ! j) (ev\<lparr>ev_pendpos := 0\<rparr>)) i (Suc j)"
proof -
  let ?e = "q ! j" let ?l = "ev_put loop ?e (ev\<lparr>ev_pendpos := 0\<rparr>)"
  note nz = ev_get_Some [OF ev]
  have old: "pendpos_of loop ?e = ev_pendpos ev" "prio_of loop ?e = ev_priority ev" using ev by (simp_all add: pendpos_of_def prio_of_def)
  have P: "pendpos_of ?l x = (if x = ?e then 0 else pendpos_of loop x)" for x using nz by (simp add: pendpos_put)
  have R: "prio_of ?l x = prio_of loop x" for x using nz old(2) by (simp add: prio_put)
  have sh: "pend_shape loop" by (rule pend_invD(1) [OF inv])
  have here: "?e = lp_empty_ev loop \<or> ev_pendpos ev = j + 1 \<and> ev_priority ev = i"
    using pend_invD(4) [OF inv, of i j] i j q old by (simp add: pend_bwd_def)
  have "pend_shape ?l" using sh nz ev by (auto simp: pend_shape_def ev_get_put split: option.splits)
  moreover have "pend_fwd ?l i (Suc j) x" for x
  proof (cases "x = ?e")
    case True
    then show ?thesis by (simp add: pend_fwd_def P)
  next
    case False
    then have "pendpos_of loop x \<noteq> 0 \<Longrightarrow> prio_of loop x = i \<Longrightarrow> pendpos_of loop x \<noteq> Suc j"
      using pend_invD(3) [OF inv, of x] q by (auto simp: pend_fwd_def)
    then show ?thesis using pend_invD(3) [OF inv, of x] False by (auto simp: pend_fwd_def P R)
  qed
  moreover have "pend_bwd ?l i (Suc j) p k" for p k
  proof (cases "lp_pending loop ! p ! k = ?e \<and> ?e \<noteq> lp_empty_ev loop")
    case True
    then have "p \<le> lp_priority_max loop \<Longrightarrow> k < length (lp_pending loop ! p) \<Longrightarrow> \<not> (p = i \<and> k < j) \<Longrightarrow> k = j \<and> p = i"
      using pend_invD(4) [OF inv, of p k] here old by (auto simp: pend_bwd_def)
    then show ?thesis by (auto simp: pend_bwd_def)
  next
    case False
    then show ?thesis using pend_invD(4) [OF inv, of p k] by (auto simp: pend_bwd_def P R)
  qed
  ultimately show ?thesis using i j q by (simp add: pend_inv_def)
qed

lemma pend_clear:
  assumes inv: "pend_inv loop i j" and i: "i \<le> lp_priority_max loop" and j: "length (lp_pending loop ! i) \<le> j"
  shows "pend_inv (loop\<lparr>lp_pending := (lp_pending loop)[i := []]\<rparr>) k 0"
proof -
  let ?l = "loop\<lparr>lp_pending := (lp_pending loop)[i := []]\<rparr>"
  have sh: "pend_shape loop" by (rule pend_invD(1) [OF inv])
  have at: "lp_pending ?l ! p = (if p = i then [] else lp_pending loop ! p)" if "p \<le> lp_priority_max loop" for p
    using pend_shape_len [OF sh i] by simp
  have "pend_fwd ?l k 0 x" for x
  proof (cases "pendpos_of loop x = 0")
    case True
    then show ?thesis by (simp add: pend_fwd_def)
  next
    case False
    then have "prio_of loop x \<noteq> i" using pend_invD(3) [OF inv, of x] j by (auto simp: pend_fwd_def)
    then show ?thesis using pend_invD(3) [OF inv, of x] False by (auto simp: pend_fwd_def)
  qed
  moreover have "pend_bwd ?l k 0 p m" for p m
    using pend_invD(4) [OF inv, of p m] at [of p] by (auto simp: pend_bwd_def)
  moreover have "pend_shape ?l" using sh by (simp add: pend_shape_def)
  ultimately show ?thesis by (simp add: pend_inv_def)
qed

lemma pend_q_bound: "pend_inv loop i' j \<Longrightarrow> pend_q loop i = Some q \<Longrightarrow> i \<le> lp_priority_max loop"
  by (auto simp: pend_inv_def pend_shape_def pend_q_def split: if_splits)

lemma pend_inv_start: "pend_inv loop i 0 \<Longrightarrow> pend_inv loop k 0"
  by (simp add: pend_inv_def pend_fwd_def pend_bwd_def)

section \<open>Programs over the interface\<close>

datatype action = IoStart addr | IoStop addr | TimerStart addr | TimerStop addr | BeforeStart addr | BeforeStop addr
  | AfterStart addr | AfterStop addr | AsyncStart addr | AsyncStop addr | Wakeup | Quit

primrec run_action :: "action \<Rightarrow> evt_loop \<Rightarrow> evt_loop option" where
  "run_action (IoStart e) loop = evt_io_start loop e"
| "run_action (IoStop e) loop = evt_io_stop loop e"
| "run_action (TimerStart e) loop = evt_timer_start loop e"
| "run_action (TimerStop e) loop = evt_timer_stop loop e"
| "run_action (BeforeStart e) loop = evt_before_start loop e"
| "run_action (BeforeStop e) loop = evt_before_stop loop e"
| "run_action (AfterStart e) loop = evt_after_start loop e"
| "run_action (AfterStop e) loop = evt_after_stop loop e"
| "run_action (AsyncStart e) loop = evt_async_start loop e"
| "run_action (AsyncStop e) loop = evt_async_stop loop e"
| "run_action Wakeup loop = Some (fst (evt_loop_wakeup loop))"
| "run_action Quit loop = Some (fst (evt_loop_quit loop))"

primrec run_actions :: "action list \<Rightarrow> evt_loop \<Rightarrow> evt_loop option" where
  "run_actions [] loop = Some loop"
| "run_actions (a # as) loop = do { loop \<leftarrow> run_action a loop; run_actions as loop }"

text \<open>A program chooses the actions of a callback from the function, the event and the state of the loop.\<close>

definition run_prog :: "(nat \<Rightarrow> addr \<Rightarrow> evt_loop \<Rightarrow> action list) \<Rightarrow> callbacks" where
  "run_prog prog cb e loop = run_actions (prog cb e loop) loop"

lemma run_action_keeps:
  assumes inv: "pend_inv loop i j" and r: "run_action a loop = Some loop'"
  shows "pend_inv loop' i j"
proof (cases a)
  case Wakeup
  then show ?thesis using wakeup_keeps [OF inv] r by simp
next
  case Quit
  then show ?thesis using quit_keeps [OF inv] r by simp
qed (insert r, simp_all, (erule keep_pending [OF inv])+)

lemma run_actions_keeps: "pend_inv loop i j \<Longrightarrow> run_actions as loop = Some loop' \<Longrightarrow> pend_inv loop' i j"
  by (induction as arbitrary: loop) (auto simp: bind_eq_Some_conv intro: run_action_keeps)

section \<open>The contract of callbacks\<close>

locale loop_callbacks =
  fixes call :: callbacks
  assumes call_keeps: "pend_inv loop i j \<Longrightarrow> call cb e loop = Some loop' \<Longrightarrow> pend_inv loop' i j"
begin

lemma async_step_keeps:
  assumes "pend_inv (snd s) i j" and "async_step call s = Some s'"
  shows "pend_inv (snd s') i j"
  using assms by (cases s) (auto simp: async_step_def bind_eq_Some_conv split: if_splits intro: call_keeps)

lemma do_wakeup_keeps:
  assumes inv: "pend_inv loop i j" and r: "evt_do_wakeup call loop e = Some loop'"
  shows "pend_inv loop' i j"
proof (cases "has_bit (lp_status loop) LOOP_STATUS_QUITING \<or> lp_evtfd_count loop = 0")
  case True
  then have "loop' = loop" using r by (cases "has_bit (lp_status loop) LOOP_STATUS_QUITING") (simp_all add: evt_do_wakeup_def)
  then show ?thesis using inv by simp
next
  case False
  let ?l = "loop\<lparr>lp_evtfd_count := 0, lp_async_evtq := NULL\<rparr>"
  obtain h where h: "while_c (\<lambda>(async_head, loop). Some (async_head \<noteq> NULL)) (async_step call) (lp_async_evtq loop, ?l) = Some (h, loop')"
    using r False by (auto simp: evt_do_wakeup_def Let_def bind_eq_Some_conv split: prod.splits)
  have "pend_same loop ?l" by (rule pend_sameI) auto
  then have "pend_inv ?l i j" using inv pend_same_inv by blast
  then show ?thesis using while_c_partial [OF h, of "\<lambda>s. pend_inv (snd s) i j"] async_step_keeps by auto
qed

lemma invoke_keeps: "pend_inv loop i j \<Longrightarrow> invoke call cb e loop = Some loop' \<Longrightarrow> pend_inv loop' i j"
  by (auto simp: invoke_def split: if_splits intro: do_wakeup_keeps call_keeps)

lemma execute_step_keeps:
  assumes inv: "pend_inv loop i j" and r: "execute_step call i (j, loop) = Some (j', loop')"
  shows "j' = Suc j \<and> pend_inv loop' i (Suc j)"
proof -
  obtain q ev where S: "pend_q loop i = Some q" "j < length q" "ev_get loop (q ! j) = Some ev" "j' = Suc j"
    "(if ev_cb ev \<noteq> 0 then invoke call (ev_cb ev) (q ! j) (ev_put loop (q ! j) (ev\<lparr>ev_pendpos := 0\<rparr>))
      else Some (ev_put loop (q ! j) (ev\<lparr>ev_pendpos := 0\<rparr>))) = Some loop'"
    using r by (auto simp: execute_step_def Let_def bind_eq_Some_conv split: if_splits)
  let ?l = "ev_put loop (q ! j) (ev\<lparr>ev_pendpos := 0\<rparr>)"
  have q: "q = lp_pending loop ! i" using S(1) by (simp add: pend_q_def split: if_splits)
  have i: "i \<le> lp_priority_max loop" by (rule pend_q_bound [OF inv S(1)])
  have "pend_inv ?l i (Suc j)" by (rule pend_advance [OF inv i q S(2,3)])
  then show ?thesis using S(4,5) invoke_keeps by (auto split: if_splits)
qed

lemma execute_queue_keeps:
  assumes inv: "pend_inv loop i 0" and r: "execute_queue call (i, loop) = Some (i', loop')"
  shows "i' = Suc i \<and> pend_inv loop' k 0"
proof -
  obtain j l where w: "while_c (execute_cond i) (execute_step call i) (0, loop) = Some (j, l)"
    "i' = Suc i" "loop' = l\<lparr>lp_pending := (lp_pending l)[i := []]\<rparr>"
    using r by (auto simp: execute_queue_def bind_eq_Some_conv split: prod.splits)
  have "pend_inv l i j \<and> execute_cond i (j, l) = Some False"
    using while_c_partial [OF w(1), of "\<lambda>(j, l). pend_inv l i j"] inv execute_step_keeps by fastforce
  then obtain q where l: "pend_inv l i j" "pend_q l i = Some q" "length q \<le> j"
    by (auto simp: execute_cond_def bind_eq_Some_conv)
  have i: "i \<le> lp_priority_max l" by (rule pend_q_bound [OF l(1,2)])
  have "length (lp_pending l ! i) \<le> j" using l(2,3) by (simp add: pend_q_def split: if_splits)
  then show ?thesis using pend_clear [OF l(1) i] w(2,3) by simp
qed

lemma queue_round_keeps: "pend_inv (snd s) k 0 \<Longrightarrow> execute_queue call s = Some s' \<Longrightarrow> pend_inv (snd s') k 0"
  by (cases s; cases s') (use execute_queue_keeps [OF pend_inv_start] in auto)

text \<open>The queue that was run is empty.\<close>

lemma execute_queue_clears:
  assumes r: "execute_queue call (i, loop) = Some (i', loop')"
  shows "i < length (lp_pending loop') \<and> lp_pending loop' ! i = [] \<and> i' = Suc i"
proof -
  obtain j l where w: "while_c (execute_cond i) (execute_step call i) (0, loop) = Some (j, l)"
    "i' = Suc i" "loop' = l\<lparr>lp_pending := (lp_pending l)[i := []]\<rparr>"
    using r by (auto simp: execute_queue_def bind_eq_Some_conv split: prod.splits)
  have "execute_cond i (j, l) = Some False" using while_c_partial [OF w(1), of "\<lambda>_. True"] by simp
  then have "i < length (lp_pending l)" by (auto simp: execute_cond_def pend_q_def bind_eq_Some_conv split: if_splits)
  then show ?thesis using w by simp
qed

lemma execute_keeps:
  assumes inv: "pend_inv loop k 0" and r: "evt_execute_pending call loop = Some loop'"
  shows "pend_inv loop' k 0"
proof -
  obtain i where w: "while_c (\<lambda>(i, loop). Some (i \<le> lp_priority_max loop)) (execute_queue call) (0, loop) = Some (i, loop')"
    using r by (auto simp: evt_execute_pending_def bind_eq_Some_conv split: prod.splits)
  have "pend_inv (snd (i, loop')) k 0"
    using while_c_partial [OF w, of "\<lambda>s. pend_inv (snd s) k 0"] inv queue_round_keeps by auto
  then show ?thesis by simp
qed

text \<open>With one priority, which is what the loop is created with, the queue is empty afterwards.\<close>

lemma execute_empties:
  assumes inv: "pend_inv loop k 0" and r: "evt_execute_pending call loop = Some loop'" and "lp_priority_max loop' = 0"
  shows "lp_pending loop' = [[]]"
proof -
  obtain i where w: "while_c (\<lambda>(i, loop). Some (i \<le> lp_priority_max loop)) (execute_queue call) (0, loop) = Some (i, loop')"
    using r by (auto simp: evt_execute_pending_def bind_eq_Some_conv split: prod.splits)
  let ?I = "\<lambda>(i, l). pend_inv l k 0 \<and> (0 < i \<longrightarrow> i - 1 < length (lp_pending l) \<and> lp_pending l ! (i - 1) = [])"
  have step: "?I s'" if "?I s" "execute_queue call s = Some s'" for s s'
    using that queue_round_keeps [of s k s'] execute_queue_clears [of "fst s" "snd s" "fst s'" "snd s'"] by (cases s; cases s') auto
  have I: "?I (i, loop')" "\<not> i \<le> lp_priority_max loop'"
    using while_c_partial [OF w, of ?I] inv step by auto
  then have inv': "pend_inv loop' k 0" by simp
  have "length (lp_pending loop') = 1" using pend_invD(1) [OF inv'] assms(3) by (simp add: pend_shape_def)
  then show ?thesis using I by (auto simp: length_Suc_conv)
qed

end

interpretation client: loop_callbacks "run_prog prog" for prog
  by unfold_locales (auto simp: run_prog_def intro: run_actions_keeps)

end
