(* ===== verification/EvtRound.thy ===== *)
theory EvtRound
  imports EvtClient
begin

text \<open>
  Whole rounds of the event loop keep the pending queues in order, and so does everything a program can do between
  them: the invariant holds in every reachable state.
\<close>

section \<open>The parts of a round\<close>

lemma fds_put_same: "pend_same loop (fds_put loop fd fdi)"
  by (rule pend_sameI) (auto simp: fds_put_def)

lemma poll_same: "pend_same loop (loop\<lparr>lp_poll := p\<rparr>)"
  by (rule pend_sameI) auto

lemma clock_same: "pend_same loop (loop\<lparr>lp_clock := c\<rparr>)"
  by (rule pend_sameI) auto

lemma poll_time_same: "pend_same loop (loop\<lparr>lp_poll_time_us := t\<rparr>)"
  by (rule pend_sameI) auto

lemma timers_same: "pend_same loop (loop\<lparr>lp_timers := h, lp_timer_cnt := n\<rparr>)"
  by (rule pend_sameI) auto

lemmas fds_put_keeps = pend_same_inv [OF fds_put_same]
lemmas poll_keeps = pend_same_inv [OF poll_same]
lemmas clock_keeps = pend_same_inv [OF clock_same]
lemmas poll_time_keeps = pend_same_inv [OF poll_time_same]
lemmas timers_keeps = pend_same_inv [OF timers_same]

lemma append_pending_step_keeps: "pend_inv (snd s) i j \<Longrightarrow> append_pending_step s = Some s' \<Longrightarrow> pend_inv (snd s') i j"
  by (cases s) (auto simp: append_pending_step_def bind_eq_Some_conv intro: append_pending_inv)

lemma append_pending_list_keeps:
  assumes inv: "pend_inv loop i j" and r: "append_pending_list loop head = Some loop'"
  shows "pend_inv loop' i j"
proof -
  obtain eb where w: "while_c (\<lambda>(eb, loop). Some (eb \<noteq> NULL)) append_pending_step (head, loop) = Some (eb, loop')"
    using r by (auto simp: append_pending_list_def bind_eq_Some_conv split: prod.splits)
  show ?thesis using while_c_partial [OF w, of "\<lambda>s. pend_inv (snd s) i j"] inv append_pending_step_keeps by auto
qed

lemma update_catime_keeps: "pend_inv loop i j \<Longrightarrow> loop_update_catime loop = Some loop' \<Longrightarrow> pend_inv loop' i j"
  by (auto simp: loop_update_catime_def bind_eq_Some_conv intro: clock_keeps)

lemma catime_keeps: "pend_inv loop i j \<Longrightarrow> loop_catime loop = Some (loop', t) \<Longrightarrow> pend_inv loop' i j"
  by (auto simp: loop_catime_def bind_eq_Some_conv intro: clock_keeps)

lemma catime_same: "loop_catime loop = Some (loop', t) \<Longrightarrow> pend_same loop loop'"
  by (auto simp: loop_catime_def bind_eq_Some_conv intro: clock_same)

lemma set_poll_time_clock: "set_poll_time loop = Some loop' \<Longrightarrow> \<exists>ck t. loop' = loop\<lparr>lp_clock := ck, lp_poll_time_us := t\<rparr>"
proof -
  assume r: "set_poll_time loop = Some loop'"
  let ?l = "loop\<lparr>lp_poll_time_us := LOOP_INIT_POLLUS\<rparr>"
  show ?thesis
  proof (cases "lp_timer_cnt loop > 0")
    case False
    then have "loop' = ?l" using r by (simp add: set_poll_time_def Let_def)
    then show ?thesis by (intro exI [of _ "lp_clock loop"] exI [of _ LOOP_INIT_POLLUS]) simp
  next
    case True
    then obtain ev e ck1 now left where A: "timer_top ?l = Some e" "ev_get ?l e = Some ev" "get_catime (lp_clock loop) = Some (ck1, now)" "ohtime (ev_timestamp ev - now) = Some left"
      using r by (auto simp: set_poll_time_def loop_catime_def Let_def bind_eq_Some_conv)
    show ?thesis
    proof (cases "lp_poll_time_us ?l < 0 \<or> left < lp_poll_time_us ?l")
      case False
      then have "loop' = ?l\<lparr>lp_clock := ck1\<rparr>" using r True A by (simp add: set_poll_time_def loop_catime_def Let_def)
      then show ?thesis by (intro exI [of _ ck1] exI [of _ LOOP_INIT_POLLUS]) simp
    next
      case T2: True
      obtain ck2 now2 where B: "get_catime ck1 = Some (ck2, now2)" using r True A T2
        by (auto simp: set_poll_time_def loop_catime_def Let_def bind_eq_Some_conv)
      obtain left2 where C: "loop' = ?l\<lparr>lp_clock := ck2, lp_poll_time_us := (if left2 < 0 then 0 else left2)\<rparr>" using r True A T2 B
        by (auto simp: set_poll_time_def loop_catime_def Let_def bind_eq_Some_conv)
      then show ?thesis by (intro exI [of _ ck2] exI [of _ "if left2 < 0 then 0 else left2"]) simp
    qed
  qed
qed

lemma set_poll_time_keeps:
  assumes "pend_inv loop i j" and "set_poll_time loop = Some loop'"
  shows "pend_inv loop' i j"
  using set_poll_time_clock [OF assms(2)] poll_time_keeps [OF clock_keeps [OF assms(1)]] by auto

lemma epoll_update_poll: "epoll_update loop fd oev nev = Some (loop', r) \<Longrightarrow> \<exists>p. loop' = loop\<lparr>lp_poll := p\<rparr>"
proof (cases "nev = 0")
  case True
  then show "epoll_update loop fd oev nev = Some (loop', r) \<Longrightarrow> ?thesis" by (intro exI [of _ "lp_poll loop"]) (simp add: epoll_update_def)
next
  case False
  assume "epoll_update loop fd oev nev = Some (loop', r)"
  then obtain ep where ep: "lp_poll loop = Some ep" "Some (loop\<lparr>lp_poll := Some (fst (epoll_change ep fd oev nev))\<rparr>, Some (snd (epoll_change ep fd oev nev))) = Some (loop', r)"
    using False by (auto simp: epoll_update_def case_prod_beta bind_eq_Some_conv Let_def)
  then show ?thesis by blast
qed

lemma epoll_update_keeps: "pend_inv loop i j \<Longrightarrow> epoll_update loop fd oev nev = Some (loop', r) \<Longrightarrow> pend_inv loop' i j"
  using epoll_update_poll poll_keeps by blast

lemma update_fdchange_keeps: "pend_inv loop i j \<Longrightarrow> update_fdchange loop fd = Some loop' \<Longrightarrow> pend_inv loop' i j"
  unfolding update_fdchange_def
  by (auto simp: Let_def bind_eq_Some_conv split: if_splits prod.splits intro: fds_put_keeps epoll_update_keeps [OF fds_put_keeps [OF fds_put_keeps]])

lemma update_fdchanges_keeps:
  assumes inv: "pend_inv loop i j" and r: "evt_update_fdchanges loop = Some loop'"
  shows "pend_inv loop' i j"
proof -
  have list: "pend_inv l i j \<Longrightarrow> update_fdchange_list fds l = Some l' \<Longrightarrow> pend_inv l' i j" for fds l l'
    by (induction fds arbitrary: l) (auto simp: bind_eq_Some_conv intro: update_fdchange_keeps)
  obtain l where "update_fdchange_list (lp_fds_change loop) loop = Some l" "loop' = l\<lparr>lp_fds_change := []\<rparr>"
    using r by (auto simp: evt_update_fdchanges_def bind_eq_Some_conv)
  moreover have "pend_same l (l\<lparr>lp_fds_change := []\<rparr>)" by (rule pend_sameI) auto
  ultimately show ?thesis using list [OF inv] pend_same_inv by blast
qed

lemma dispatch_step_keeps: "pend_inv (snd s) i j \<Longrightarrow> dispatch_step rvt s = Some s' \<Longrightarrow> pend_inv (snd s') i j"
  by (cases s) (auto simp: dispatch_step_def bind_eq_Some_conv split: if_splits intro: append_pending_inv)

lemma dispatch_event_keeps:
  assumes inv: "pend_inv loop i j" and r: "dispatch_event loop evt = Some loop'"
  shows "pend_inv loop' i j"
proof -
  obtain fd events fdi p eb where w: "evt = (fd, events)" "while_c (\<lambda>(eb, loop). Some (eb \<noteq> NULL)) (dispatch_step (epoll_revents events))
      (fi_evq fdi, fds_put loop fd (fdi\<lparr>fi_revent := epoll_revents events\<rparr>)\<lparr>lp_poll := p\<rparr>) = Some (eb, loop')"
    using r by (auto simp: dispatch_event_def Let_def bind_eq_Some_conv split: prod.splits)
  have "pend_inv (fds_put loop fd (fdi\<lparr>fi_revent := epoll_revents events\<rparr>)\<lparr>lp_poll := p\<rparr>) i j"
    by (rule poll_keeps [OF fds_put_keeps [OF inv]])
  then show ?thesis using while_c_partial [OF w(2), of "\<lambda>s. pend_inv (snd s) i j"] dispatch_step_keeps by auto
qed

lemma dispatch_events_keeps: "pend_inv loop i j \<Longrightarrow> dispatch_events evts loop = Some loop' \<Longrightarrow> pend_inv loop' i j"
  by (induction evts arbitrary: loop) (auto simp: bind_eq_Some_conv intro: dispatch_event_keeps)

lemma epoll_dispatch_cases:
  assumes "epoll_dispatch loop = Some (loop', r)"
  obtains p where "loop' = loop\<lparr>lp_poll := p\<rparr>"
  | ep evts l p where "lp_poll loop = Some ep" "ep_wait ep (ep_waits ep) (wait_ms (lp_poll_time_us loop)) = WaitEvents evts"
      "dispatch_events evts (loop\<lparr>lp_poll := Some (ep\<lparr>ep_waits := ep_waits ep + 1\<rparr>)\<rparr>) = Some l" "loop' = l\<lparr>lp_poll := p\<rparr>"
proof -
  obtain ep where ep: "lp_poll loop = Some ep" using assms by (auto simp: epoll_dispatch_def bind_eq_Some_conv)
  show thesis
  proof (cases "ep_wait ep (ep_waits ep) (wait_ms (lp_poll_time_us loop))")
    case (WaitError b)
    then show thesis using assms ep that(1) [of "Some (ep\<lparr>ep_waits := ep_waits ep + 1\<rparr>)"] by (simp add: epoll_dispatch_def Let_def)
  next
    case (WaitEvents evts)
    then obtain l p where "dispatch_events evts (loop\<lparr>lp_poll := Some (ep\<lparr>ep_waits := ep_waits ep + 1\<rparr>)\<rparr>) = Some l" "loop' = l\<lparr>lp_poll := p\<rparr>"
      using assms ep by (auto simp: epoll_dispatch_def Let_def bind_eq_Some_conv split: if_splits)
    then show thesis using that(2) ep WaitEvents by blast
  qed
qed

lemma epoll_dispatch_keeps:
  assumes inv: "pend_inv loop i j" and r: "epoll_dispatch loop = Some (loop', r)"
  shows "pend_inv loop' i j"
  using r
proof (cases rule: epoll_dispatch_cases)
  case (1 p)
  then show ?thesis using poll_keeps [OF inv] by simp
next
  case (2 ep evts l p)
  then show ?thesis using dispatch_events_keeps [OF poll_keeps [OF inv]] poll_keeps by auto
qed

lemma timer_step_keeps:
  assumes inv: "pend_inv (fst s) i j" and r: "timer_step s = Some s'"
  shows "pend_inv (fst s') i j"
proof -
  obtain loop stop where s: "s = (loop, stop)" by (cases s)
  obtain evtm ev l now where A: "timer_top loop = Some evtm" "ev_get loop evtm = Some ev" "loop_catime loop = Some (l, now)"
    using r s by (auto simp: timer_step_def bind_eq_Some_conv)
  have l: "pend_inv l i j" using catime_keeps [OF _ A(3)] inv s by simp
  show ?thesis
  proof (cases "ev_timestamp ev > now")
    case True
    then have "s' = (l, True)" using r s A by (simp add: timer_step_def)
    then show ?thesis using l by simp
  next
    case False
    obtain l1 h cnt ev1 where B: "evt_append_pending l evtm = Some l1" "spheap_pop (EVTTIMER_CMP l1) (lp_timers l1) (lp_timer_cnt l1) = Some (h, cnt)"
      "ev_get (l1\<lparr>lp_timers := h, lp_timer_cnt := cnt\<rparr>) evtm = Some ev1"
      using r s A False by (auto simp: timer_step_def Let_def bind_eq_Some_conv split: if_splits)
    let ?l = "l1\<lparr>lp_timers := h, lp_timer_cnt := cnt\<rparr>"
    have l1: "pend_inv ?l i j" by (rule timers_keeps [OF append_pending_inv [OF l B(1)]])
    show ?thesis
    proof (cases "ev_repeat ev1 > 0")
      case rep: False
      then have "s' = (?l, False)" using r s A False B by (simp add: timer_step_def Let_def)
      then show ?thesis using l1 by simp
    next
      case rep: True
      then obtain l2 now2 t l3 where C: "loop_catime ?l = Some (l2, now2)"
        "evt_timer_start (ev_put l2 evtm (ev1\<lparr>ev_active := 0, ev_timestamp := t\<rparr>)) evtm = Some l3" "s' = (l3, False)"
        using r s A False B by (auto simp: timer_step_def Let_def bind_eq_Some_conv)
      have l2: "pend_inv l2 i j" by (rule catime_keeps [OF l1 C(1)])
      have "ev_get l2 evtm = Some ev1" using C(1) B(3) by (auto simp: loop_catime_def bind_eq_Some_conv)
      then have "pend_same l2 (ev_put l2 evtm (ev1\<lparr>ev_active := 0, ev_timestamp := t\<rparr>))" by (rule pend_same_put) auto
      then have "pend_inv (ev_put l2 evtm (ev1\<lparr>ev_active := 0, ev_timestamp := t\<rparr>)) i j" using l2 pend_same_inv by blast
      then show ?thesis using timer_start_keeps C(2,3) by auto
    qed
  qed
qed

lemma run_timers_keeps:
  assumes inv: "pend_inv loop i j" and r: "run_timers loop = Some loop'"
  shows "pend_inv loop' i j"
proof -
  obtain stop where w: "while_c (\<lambda>(loop, stop). Some (lp_timer_cnt loop > 0 \<and> \<not> stop)) timer_step (loop, False) = Some (loop', stop)"
    using r by (auto simp: run_timers_def bind_eq_Some_conv split: prod.splits)
  show ?thesis using while_c_partial [OF w, of "\<lambda>s. pend_inv (fst s) i j"] inv timer_step_keeps by auto
qed

section \<open>Rounds\<close>

context loop_callbacks begin

lemma round_keeps:
  assumes inv: "pend_inv loop k 0" and r: "evt_loop_round call (loop, stop) = Some (loop', stop')"
  shows "pend_inv loop' k 0"
proof -
  obtain l1 l2 l3 where A: "loop_update_catime loop = Some l1" "append_pending_list l1 (lp_before_evtq l1) = Some l2" "evt_execute_pending call l2 = Some l3"
    using r by (auto simp: evt_loop_round_def bind_eq_Some_conv)
  have l3: "pend_inv l3 k 0"
    by (rule execute_keeps [OF append_pending_list_keeps [OF update_catime_keeps [OF inv A(1)] A(2)] A(3)])
  show ?thesis
  proof (cases "has_bit (lp_status l3) LOOP_STATUS_QUITING")
    case True
    then show ?thesis using r A l3 by (simp add: evt_loop_round_def)
  next
    case False
    obtain l4 l5 l6 l7 ret l8 where B: "evt_update_fdchanges l3 = Some l4" "loop_update_catime l4 = Some l5" "set_poll_time l5 = Some l6"
      "epoll_dispatch l6 = Some (l7, ret)" "loop_update_catime l7 = Some l8"
      using r A False by (auto simp: evt_loop_round_def bind_eq_Some_conv)
    have l8: "pend_inv l8 k 0"
      by (rule update_catime_keeps [OF epoll_dispatch_keeps [OF set_poll_time_keeps [OF update_catime_keeps [OF
        update_fdchanges_keeps [OF l3 B(1)] B(2)] B(3)] B(4)] B(5)])
    show ?thesis
    proof (cases "has_bit (lp_status l8) LOOP_STATUS_QUITING")
      case True
      then show ?thesis using r A B False l8 by (simp add: evt_loop_round_def)
    next
      case F: False
      obtain l9 l10 where C: "run_timers l8 = Some l9" "append_pending_list l9 (lp_after_evtq l9) = Some l10" "evt_execute_pending call l10 = Some loop'"
        using r A B False F by (auto simp: evt_loop_round_def bind_eq_Some_conv)
      show ?thesis by (rule execute_keeps [OF append_pending_list_keeps [OF run_timers_keeps [OF l8 C(1)] C(2)] C(3)])
    qed
  qed
qed

end

section \<open>Reachable states\<close>

text \<open>
  What can happen to a loop: it is created, a program starts and stops events, quits or wakes it in any thread, creates
  new events, and the loop is started and runs rounds in which the callbacks are any program.
\<close>

inductive loop_reach :: "(nat \<Rightarrow> addr \<Rightarrow> evt_loop \<Rightarrow> action list) \<Rightarrow> evt_loop \<Rightarrow> bool" for prog where
  created: "evt_loop_init_flag (run_prog prog) (evt_loop_zero tid ck Map.empty Map.empty Map.empty) evtfd epfd accepts wait evev empt garbage =
      Some (loop, True) \<Longrightarrow> empt \<noteq> NULL \<Longrightarrow> evev \<noteq> empt \<Longrightarrow> loop_reach prog loop"
| event: "loop_reach prog loop \<Longrightarrow> lp_evs loop e = None \<Longrightarrow> ev_pendpos ev = 0 \<Longrightarrow>
    loop_reach prog (loop\<lparr>lp_evs := (lp_evs loop)(e \<mapsto> ev), lp_next := (lp_next loop)(e \<mapsto> n), lp_timers := (lp_timers loop)\<lparr>sp_pos := (sp_pos (lp_timers loop))(e \<mapsto> 0)\<rparr>\<rparr>)"
| act: "loop_reach prog loop \<Longrightarrow> run_action a loop = Some loop' \<Longrightarrow> loop_reach prog loop'"
| thread: "loop_reach prog loop \<Longrightarrow> loop_reach prog (loop\<lparr>lp_tid := t\<rparr>)"
| start: "loop_reach prog loop \<Longrightarrow> loop_reach prog (loop\<lparr>lp_owner_tid := lp_tid loop, lp_status := LOOP_STATUS_STARTED OR LOOP_STATUS_RUNNING\<rparr>)"
| round: "loop_reach prog loop \<Longrightarrow> evt_loop_round (run_prog prog) (loop, False) = Some (loop', stop) \<Longrightarrow> loop_reach prog loop'"

lemma init_keeps:
  assumes r: "evt_loop_init_flag call (evt_loop_zero tid ck Map.empty Map.empty Map.empty) evtfd epfd accepts wait evev empt garbage = Some (loop, True)"
    and nz: "empt \<noteq> NULL" and ne: "evev \<noteq> empt"
  shows "pend_inv loop 0 0"
proof (cases "evtfd < 0")
  case True
  then show ?thesis using r by (auto simp: evt_loop_init_flag_def bind_eq_Some_conv)
next
  case False
  let ?z = "evt_loop_zero tid ck Map.empty Map.empty Map.empty"
  let ?a = "?z\<lparr>lp_evtfd := nat evtfd, lp_evtfd_ev := evev,
          lp_evs := (lp_evs ?z)(evev \<mapsto> evt_io_init garbage CB_WAKEUP (nat evtfd) EVT_READ), lp_next := (lp_next ?z)(evev \<mapsto> NULL)\<rparr>"
  obtain l where l: "evt_io_start ?a evev = Some l"
    "loop = (let loop = epoll_init (l\<lparr>lp_async_evtq := NULL, lp_mutex := True, lp_poll_time_us := LOOP_INIT_POLLUS\<rparr>) epfd accepts wait in
       loop\<lparr>lp_cond := True, lp_priority_max := LOOP_PRIORITY_INIT_MAX, lp_pending := replicate (LOOP_PRIORITY_INIT_MAX + 1) [],
         lp_pending_size := replicate (LOOP_PRIORITY_INIT_MAX + 1) LOOP_INIT_PENDSIZE, lp_empty_ev := empt,
         lp_evs := (lp_evs loop)(empt \<mapsto> evt_base_init garbage 0)\<rparr>)"
    using r False by (auto simp: evt_loop_init_flag_def Let_def bind_eq_Some_conv)
  have "pendpos_of ?a x = 0" for x by (simp add: pendpos_of_def ev_get_def evt_loop_zero_def evt_io_init_def evt_base_init_def)
  then have pl: "pendpos_of l x = 0" for x using io_start_pendpos [OF l(1)] by simp
  have F: "lp_pending loop = [[]]" "lp_pending_size loop = [LOOP_INIT_PENDSIZE]" "lp_priority_max loop = 0" "lp_empty_ev loop = empt"
    "lp_evs loop = (lp_evs l)(empt \<mapsto> evt_base_init garbage 0)"
    unfolding l(2) by (simp_all add: Let_def LOOP_PRIORITY_INIT_MAX_def epoll_init_def)
  have "pendpos_of loop x = 0" for x
    using pl [of x] by (auto simp: pendpos_of_def ev_get_def F(5) evt_base_init_def split: option.splits)
  moreover have "pend_shape loop" using nz by (simp add: pend_shape_def F ev_get_def evt_base_init_def)
  ultimately show ?thesis by (simp add: pend_inv_def pend_fwd_def pend_bwd_def F)
qed

lemma new_event_keeps:
  assumes inv: "pend_inv loop 0 0" and new: "lp_evs loop e = None" and ev: "ev_pendpos ev = 0"
  shows "pend_inv (loop\<lparr>lp_evs := (lp_evs loop)(e \<mapsto> ev), lp_next := nx, lp_timers := h\<rparr>) 0 0"
proof (cases "e = NULL")
  case True
  let ?l = "loop\<lparr>lp_evs := (lp_evs loop)(e \<mapsto> ev), lp_next := nx, lp_timers := h\<rparr>"
  have "ev_get ?l = ev_get loop" using True by (auto simp: ev_get_def)
  then have "pend_same loop ?l" by (simp add: pend_same_def pend_shape_def pendpos_of_def prio_of_def fun_eq_iff)
  then show ?thesis using inv pend_same_inv by blast
next
  case False
  let ?l = "loop\<lparr>lp_evs := (lp_evs loop)(e \<mapsto> ev), lp_next := nx, lp_timers := h\<rparr>"
  have g: "ev_get ?l x = (if x = e then Some ev else ev_get loop x)" for x using False by (simp add: ev_get_def)
  have "ev_get loop e = None" using new by (simp add: ev_get_def)
  then have P: "pendpos_of ?l x = pendpos_of loop x" for x unfolding pendpos_of_def g using ev by simp
  have R: "pendpos_of loop x \<noteq> 0 \<longrightarrow> prio_of ?l x = prio_of loop x" for x using \<open>ev_get loop e = None\<close> unfolding prio_of_def pendpos_of_def g by simp
  have "pend_shape loop \<longrightarrow> pend_shape ?l" using \<open>ev_get loop e = None\<close> unfolding pend_shape_def g by auto
  then have "pend_same loop ?l" using P R by (simp add: pend_same_def fun_eq_iff)
  then show ?thesis using inv pend_same_inv by blast
qed

lemma reach_inv:
  assumes "loop_reach prog loop"
  shows "pend_inv loop 0 0"
  using assms
proof induction
  case (created tid ck evtfd epfd accepts wait evev empt garbage loop)
  then show ?case by (rule init_keeps)
next
  case (event loop e ev n)
  then show ?case by (intro new_event_keeps)
next
  case (act loop a loop')
  then show ?case by (auto intro: run_action_keeps)
next
  case (thread loop t)
  have "pend_same loop (loop\<lparr>lp_tid := t\<rparr>)" by (rule pend_sameI) auto
  then show ?case using thread.IH pend_same_inv by blast
next
  case (start loop)
  have "pend_same loop (loop\<lparr>lp_owner_tid := lp_tid loop, lp_status := LOOP_STATUS_STARTED OR LOOP_STATUS_RUNNING\<rparr>)" by (rule pend_sameI) auto
  then show ?case using start.IH pend_same_inv by blast
next
  case (round loop loop' stop)
  then show ?case by (auto intro: client.round_keeps)
qed

end
