(* ===== verification/EvtLists.thy ===== *)
theory EvtLists
  imports EvtRound
begin

text \<open>
  The lists of the event loop, as sequences of events: one for each descriptor, one of before events, one of after
  events and one of asynchronous events. They share the links of the events, so they are disjoint. On them rest
  the masks of the descriptors.
\<close>

section \<open>Disjoint lists over one store of links\<close>

datatype lid = LFd nat | LBefore | LAfter | LAsync

definition lists_ok :: "links \<Rightarrow> (lid \<Rightarrow> addr) \<Rightarrow> (lid \<Rightarrow> addr list) \<Rightarrow> bool" where
  "lists_ok nx hds Q \<longleftrightarrow> (\<forall>l. lseg nx (hds l) (Q l) \<and> distinct (Q l)) \<and> (\<forall>l l'. l \<noteq> l' \<longrightarrow> set (Q l) \<inter> set (Q l') = {})"

lemma lists_okD: "lists_ok nx hds Q \<Longrightarrow> lseg nx (hds l) (Q l) \<and> distinct (Q l)"
  by (simp add: lists_ok_def)

lemma lists_ok_add:
  assumes ok: "lists_ok nx hds Q" and new: "\<And>l. e \<notin> set (Q l)" and "e \<noteq> NULL" "e \<in> dom nx"
  shows "splst_add nx (hds l) e = Some (nx(e \<mapsto> hds l), e) \<and> lists_ok (nx(e \<mapsto> hds l)) (hds(l := e)) (Q(l := e # Q l))"
proof -
  have seg: "lseg nx (hds k) (Q k)" "distinct (Q k)" for k using ok by (simp_all add: lists_ok_def)
  have add: "splst_add nx (hds l) e = Some (nx(e \<mapsto> hds l), e) \<and> lseg (nx(e \<mapsto> hds l)) e (e # Q l)"
    by (rule add_ok [OF seg(1) new assms(3,4)])
  moreover have "lseg (nx(e \<mapsto> hds l)) (hds k) (Q k)" for k using seg(1) [of k] new [of k] by (simp add: lseg_frame)
  ultimately show ?thesis using ok new seg by (auto simp: lists_ok_def)
qed

lemma lists_ok_del:
  assumes ok: "lists_ok nx hds Q"
  shows "\<exists>nx' h. splst_del nx (hds l) e = Some (nx', h) \<and> lists_ok nx' (hds(l := h)) (Q(l := remove1 e (Q l))) \<and> dom nx' = dom nx"
proof -
  have seg: "lseg nx (hds k) (Q k)" "distinct (Q k)" for k using ok by (simp_all add: lists_ok_def)
  obtain nx' h where del: "splst_del nx (hds l) e = Some (nx', h)" "lseg nx' h (remove1 e (Q l))" "dom nx' = dom nx"
    "\<forall>a. a \<notin> set (Q l) \<longrightarrow> nx' a = nx a" using del_ok [OF seg] by blast
  have "lseg nx' (hds k) (Q k)" if "k \<noteq> l" for k
  proof (rule lseg_cong [OF _ seg(1)])
    have "set (Q l) \<inter> set (Q k) = {}" using ok that by (simp add: lists_ok_def)
    then show "nx' x = nx x" if "x \<in> set (Q k)" for x using that del(4) by blast
  qed
  moreover have "set (remove1 e (Q l)) \<inter> set (Q k) = {}" if "k \<noteq> l" for k
    using ok that set_remove1_subset [of e "Q l"] by (auto simp: lists_ok_def)
  ultimately have "lists_ok nx' (hds(l := h)) (Q(l := remove1 e (Q l)))"
    using ok del(2) seg(2) by (auto simp: lists_ok_def)
  then show ?thesis using del by blast
qed

section \<open>The lists of the loop\<close>

fun list_head :: "evt_loop \<Rightarrow> lid \<Rightarrow> addr" where
  "list_head loop (LFd fd) = (if fd < length (lp_fds loop) then fi_evq (lp_fds loop ! fd) else NULL)"
| "list_head loop LBefore = lp_before_evtq loop"
| "list_head loop LAfter = lp_after_evtq loop"
| "list_head loop LAsync = lp_async_evtq loop"

definition lists_inv :: "evt_loop \<Rightarrow> (lid \<Rightarrow> addr list) \<Rightarrow> bool" where
  "lists_inv loop Q \<longleftrightarrow> lists_ok (lp_next loop) (list_head loop) Q \<and> (\<forall>l. \<forall>e\<in>set (Q l). e \<noteq> NULL \<and> lp_evs loop e \<noteq> None)"

definition mask_of :: "evt_loop \<Rightarrow> addr list \<Rightarrow> 8 word" where
  "mask_of loop es = foldr (\<lambda>e w. (case lp_evs loop e of None \<Rightarrow> 0 | Some ev \<Rightarrow> ev_event ev) OR w) es 0"

lemma mask_of_simps [simp]: "mask_of loop [] = 0"
  "mask_of loop (e # es) = (case lp_evs loop e of None \<Rightarrow> 0 | Some ev \<Rightarrow> ev_event ev) OR mask_of loop es"
  by (simp_all add: mask_of_def)

lemma mask_of_cong: "(\<And>e. e \<in> set es \<Longrightarrow> map_option ev_event (lp_evs loop' e) = map_option ev_event (lp_evs loop e)) \<Longrightarrow> mask_of loop' es = mask_of loop es"
proof (induction es)
  case (Cons e es)
  have "map_option ev_event (lp_evs loop' e) = map_option ev_event (lp_evs loop e)" using Cons.prems by simp
  then have "(case lp_evs loop' e of None \<Rightarrow> 0 | Some ev \<Rightarrow> ev_event ev) = (case lp_evs loop e of None \<Rightarrow> 0 | Some ev \<Rightarrow> ev_event ev)"
    by (auto split: option.splits)
  then show ?case using Cons by simp
qed simp

text \<open>What the loop over the events of a descriptor computes.\<close>

lemma evq_mask_ok:
  assumes "lseg (lp_next loop) head es" and "\<forall>e\<in>set es. e \<noteq> NULL \<and> lp_evs loop e \<noteq> None"
  shows "evq_mask loop head = Some (mask_of loop es)"
proof -
  have "while_c (\<lambda>(eb, loop, nev). Some (eb \<noteq> NULL)) evq_mask_step (head, loop, w) = Some (NULL, loop, w OR mask_of loop es)" for w
    using assms
  proof (induction es arbitrary: head w)
    case Nil
    then show ?case by (simp add: while_c_stop)
  next
    case (Cons e es)
    obtain q where q: "head = e" "e \<noteq> NULL" "lp_next loop e = Some q" "lseg (lp_next loop) q es" using Cons.prems(1) by auto
    obtain ev where ev: "lp_evs loop e = Some ev" using Cons.prems(2) by auto
    have "while_c (\<lambda>(eb, loop, nev). Some (eb \<noteq> NULL)) evq_mask_step (head, loop, w) =
        while_c (\<lambda>(eb, loop, nev). Some (eb \<noteq> NULL)) evq_mask_step (q, loop, w OR ev_event ev)"
      by (rule while_c_step) (use q ev in \<open>auto simp: evq_mask_step_def ev_get_def splst_next_def\<close>)
    also have "\<dots> = Some (NULL, loop, (w OR ev_event ev) OR mask_of loop es)" by (rule Cons.IH [OF q(4)]) (use Cons.prems(2) in simp)
    finally have "while_c (\<lambda>(eb, loop, nev). Some (eb \<noteq> NULL)) evq_mask_step (head, loop, w) = Some (NULL, loop, (w OR ev_event ev) OR mask_of loop es)" .
    moreover have "(w OR ev_event ev) OR mask_of loop es = w OR mask_of loop (e # es)" using ev by (simp add: or.assoc)
    ultimately show ?case by (simp only:)
  qed
  from this [of 0] show ?thesis by (simp add: evq_mask_def)
qed

section \<open>Growing arrays\<close>

lemma expand_ok:
  assumes "need \<le> 2 ^ 30"
  shows "\<exists>sz'. check_and_expand_array sz need = Some sz' \<and> need \<le> sz' \<and> sz \<le> sz'"
proof (cases "need > sz")
  case False
  then show ?thesis by (auto simp: check_and_expand_array_def)
next
  case True
  have "\<exists>s'. while_c (\<lambda>sz. Some (sz < need)) expand_multi_two sz = Some s' \<and> (need \<le> s' \<and> sz \<le> s')"
  proof (rule while_c_total [where I = "\<lambda>n s. n = need - s \<and> sz \<le> s"])
    show "need - sz = need - sz \<and> sz \<le> sz" by simp
    fix n s assume I: "n = need - s \<and> sz \<le> s"
    show "(Some (s < need) = Some False \<and> need \<le> s \<and> sz \<le> s) \<or>
      (Some (s < need) = Some True \<and> (\<exists>s' m. expand_multi_two s = Some s' \<and> m < n \<and> (m = need - s' \<and> sz \<le> s')))"
      using I assms by (cases "s < need") (auto simp: expand_multi_two_def)
  qed
  then show ?thesis using True by (auto simp: check_and_expand_array_def)
qed

section \<open>Descriptors that changed\<close>

definition flagged :: "evt_loop \<Rightarrow> nat \<Rightarrow> bool" where
  "flagged loop fd \<longleftrightarrow> has_bit (fi_flag (lp_fds loop ! fd)) FDS_FLAG_CHANGED"

definition changes_ok :: "evt_loop \<Rightarrow> bool" where
  "changes_ok loop \<longleftrightarrow> distinct (lp_fds_change loop) \<and> (\<forall>fd. fd \<in> set (lp_fds_change loop) \<longleftrightarrow> fd < length (lp_fds loop) \<and> flagged loop fd)"

text \<open>A descriptor that is not marked as changed has the mask of its events.\<close>

definition masks_ok :: "evt_loop \<Rightarrow> (lid \<Rightarrow> addr list) \<Rightarrow> bool" where
  "masks_ok loop Q \<longleftrightarrow> (\<forall>fd<length (lp_fds loop). \<not> flagged loop fd \<longrightarrow> fi_event (lp_fds loop ! fd) = mask_of loop (Q (LFd fd)))"

definition watch_ok :: "evt_loop \<Rightarrow> bool" where
  "watch_ok loop \<longleftrightarrow> (case lp_poll loop of None \<Rightarrow> False | Some ep \<Rightarrow>
     (\<forall>fd<length (lp_fds loop). fi_event (lp_fds loop ! fd) \<noteq> 0 \<and> ep_accepts ep fd \<longrightarrow>
        ep_interest ep fd = Some (epoll_events (fi_event (lp_fds loop ! fd)))))"

lemma flag_set [simp]: "has_bit (f OR FDS_FLAG_CHANGED) FDS_FLAG_CHANGED"
proof -
  have "(f OR FDS_FLAG_CHANGED) AND FDS_FLAG_CHANGED = FDS_FLAG_CHANGED" by (rule bit_word_eqI) (auto simp: bit_simps)
  then show ?thesis by (simp add: has_bit_def FDS_FLAG_CHANGED_def)
qed

lemma flag_clear [simp]: "\<not> has_bit (f AND NOT FDS_FLAG_CHANGED) FDS_FLAG_CHANGED"
proof -
  have "(f AND NOT FDS_FLAG_CHANGED) AND FDS_FLAG_CHANGED = 0" by (rule bit_word_eqI) (auto simp: bit_simps)
  then show ?thesis by (simp add: has_bit_def)
qed

text \<open>Marking a descriptor.\<close>

definition marked :: "evt_loop \<Rightarrow> nat \<Rightarrow> evt_loop \<Rightarrow> bool" where
  "marked loop fd loop' \<longleftrightarrow> changes_ok loop' \<and> fd \<in> set (lp_fds_change loop') \<and> length (lp_fds loop') = length (lp_fds loop) \<and>
     (\<forall>k<length (lp_fds loop). fi_evq (lp_fds loop' ! k) = fi_evq (lp_fds loop ! k) \<and> fi_event (lp_fds loop' ! k) = fi_event (lp_fds loop ! k) \<and>
        (k \<noteq> fd \<longrightarrow> flagged loop' k = flagged loop k)) \<and>
     lp_evs loop' = lp_evs loop \<and> lp_next loop' = lp_next loop \<and> lp_before_evtq loop' = lp_before_evtq loop \<and>
     lp_after_evtq loop' = lp_after_evtq loop \<and> lp_async_evtq loop' = lp_async_evtq loop \<and> lp_poll loop' = lp_poll loop \<and>
     wrong_thread loop' = wrong_thread loop"

lemma fd_change_ok:
  assumes ok: "changes_ok loop" and fd: "fd < length (lp_fds loop)" and "length (lp_fds_change loop) < 2 ^ 30"
  shows "\<exists>loop'. evt_fd_change loop fd = Some loop' \<and> marked loop fd loop'"
proof (cases "flagged loop fd")
  case True
  then have "evt_fd_change loop fd = Some loop" using fd by (simp add: evt_fd_change_def fds_at_def flagged_def)
  moreover have "marked loop fd loop" using ok fd True by (simp add: marked_def changes_ok_def)
  ultimately show ?thesis by blast
next
  case False
  let ?fdi = "lp_fds loop ! fd"
  obtain sz where sz: "check_and_expand_array (lp_fds_change_size loop) (length (lp_fds_change loop) + 1) = Some sz"
    using expand_ok [of "length (lp_fds_change loop) + 1"] assms(3) by auto
  let ?l = "fds_put (loop\<lparr>lp_fds_change_size := sz, lp_fds_change := lp_fds_change loop @ [fd]\<rparr>) fd (?fdi\<lparr>fi_flag := fi_flag ?fdi OR FDS_FLAG_CHANGED\<rparr>)"
  have "evt_fd_change loop fd = Some ?l" using fd sz False by (simp add: evt_fd_change_def fds_at_def flagged_def Let_def)
  moreover have fl: "flagged ?l k = (k = fd \<or> flagged loop k)" if "k < length (lp_fds loop)" for k
    using that fd by (auto simp: flagged_def fds_put_def nth_list_update)
  have "fd \<notin> set (lp_fds_change loop)" using ok False by (simp add: changes_ok_def)
  then have "changes_ok ?l" using ok fl fd by (auto simp: changes_ok_def) (auto simp: fds_put_def)
  then have "marked loop fd ?l" using fl fd by (auto simp: marked_def fds_put_def nth_list_update wrong_thread_def)
  ultimately show ?thesis by blast
qed

section \<open>Starting and stopping descriptors\<close>

text \<open>What is known of the lists and the descriptors, and of the masks except at one descriptor.\<close>

definition fd_inv :: "evt_loop \<Rightarrow> (lid \<Rightarrow> addr list) \<Rightarrow> bool" where
  "fd_inv loop Q \<longleftrightarrow> lists_inv loop Q \<and> changes_ok loop \<and> masks_ok loop Q \<and> watch_ok loop"

lemma lists_inv_out: "lists_inv loop Q \<Longrightarrow> length (lp_fds loop) \<le> fd \<Longrightarrow> Q (LFd fd) = []"
proof -
  assume "lists_inv loop Q" and len: "length (lp_fds loop) \<le> fd"
  then have "lists_ok (lp_next loop) (list_head loop) Q" by (simp only: lists_inv_def)
  from lists_okD [OF this, of "LFd fd"]
  have "lseg (lp_next loop) (list_head loop (LFd fd)) (Q (LFd fd))" by blast
  then have "lseg (lp_next loop) NULL (Q (LFd fd))" using len by simp
  then show ?thesis by (cases "Q (LFd fd)") auto
qed

lemma lists_inv_cong:
  assumes "lists_inv loop Q" and "lp_next loop' = lp_next loop" and "list_head loop' = list_head loop"
    and "\<And>e. e \<noteq> NULL \<Longrightarrow> lp_evs loop e \<noteq> None \<Longrightarrow> lp_evs loop' e \<noteq> None"
  shows "lists_inv loop' Q"
proof -
  have "lists_ok (lp_next loop') (list_head loop') Q" using assms(1) by (simp only: lists_inv_def assms(2,3))
  moreover have "e \<noteq> NULL \<and> lp_evs loop' e \<noteq> None" if "e \<in> set (Q l)" for l e
    using assms(1,4) that by (simp only: lists_inv_def) blast
  ultimately show ?thesis by (simp only: lists_inv_def) blast
qed

lemma list_head_eqI:
  assumes "length (lp_fds loop') = length (lp_fds loop)" "\<And>k. k < length (lp_fds loop) \<Longrightarrow> fi_evq (lp_fds loop' ! k) = fi_evq (lp_fds loop ! k)"
    "lp_before_evtq loop' = lp_before_evtq loop" "lp_after_evtq loop' = lp_after_evtq loop" "lp_async_evtq loop' = lp_async_evtq loop"
  shows "list_head loop' = list_head loop"
proof
  show "list_head loop' l = list_head loop l" for l using assms by (cases l) auto
qed

text \<open>A larger array and changed fields of events do not matter.\<close>

lemma grown_ok:
  assumes inv: "fd_inv loop Q" and ev: "ev_get loop e = Some ev" and "ev_event ev' = ev_event ev"
  shows "fd_inv (fds_grown (ev_put loop e ev') sz) Q"
proof -
  let ?l = "fds_grown (ev_put loop e ev') sz" let ?n = "length (lp_fds loop)"
  have L: "lists_inv loop Q" "changes_ok loop" "masks_ok loop Q" "watch_ok loop" using inv by (simp_all add: fd_inv_def)
  have at: "lp_fds ?l ! k = (if k < ?n then lp_fds loop ! k else \<lparr>fi_evq = NULL, fi_event = 0, fi_revent = 0, fi_flag = 0\<rparr>)" if "k < length (lp_fds ?l)" for k
    using that by (auto simp: fds_grown_def nth_append)
  have fl: "flagged ?l k = (k < ?n \<and> flagged loop k)" if "k < length (lp_fds ?l)" for k
    using at [OF that] by (auto simp: flagged_def has_bit_def)
  have len: "?n \<le> length (lp_fds ?l)" by (simp add: fds_grown_def)
  have F: "lp_next ?l = lp_next loop" "lp_before_evtq ?l = lp_before_evtq loop" "lp_after_evtq ?l = lp_after_evtq loop"
    "lp_async_evtq ?l = lp_async_evtq loop" "lp_fds_change ?l = lp_fds_change loop" "lp_poll ?l = lp_poll loop"
    "lp_evs ?l = (lp_evs loop)(e \<mapsto> ev')" by (simp_all add: fds_grown_def ev_put_def)
  have "list_head ?l l = list_head loop l" for l using at len by (cases l) (auto simp: F)
  then have "lists_inv ?l Q" by (intro lists_inv_cong [OF L(1)]) (auto simp: F fun_eq_iff)
  moreover have "changes_ok ?l" using L(2) fl len by (auto simp: changes_ok_def F)
  moreover have mask: "mask_of ?l es = mask_of loop es" for es
    by (rule mask_of_cong) (use ev assms(3) in \<open>auto simp: F ev_get_def split: if_splits\<close>)
  have "masks_ok ?l Q"
    unfolding masks_ok_def
  proof (intro allI impI)
    fix k assume k: "k < length (lp_fds ?l)" "\<not> flagged ?l k"
    show "fi_event (lp_fds ?l ! k) = mask_of ?l (Q (LFd k))"
    proof (cases "k < ?n")
      case True
      then show ?thesis using L(3) fl [OF k(1)] k at [OF k(1)] by (simp add: masks_ok_def mask)
    next
      case False
      then show ?thesis using lists_inv_out [OF L(1), of k] at [OF k(1)] by simp
    qed
  qed
  moreover have "watch_ok ?l" using L(4) at by (auto simp: watch_ok_def F split: option.splits)
  ultimately show ?thesis by (simp add: fd_inv_def)
qed

text \<open>Replacing the list of a descriptor and marking it.\<close>

lemma relist_ok:
  assumes inv: "fd_inv loop Q" and fd: "fd < length (lp_fds loop)"
    and ok: "lists_ok nx ((list_head loop)(LFd fd := head)) (Q(LFd fd := es))" and es: "\<forall>e\<in>set es. e \<noteq> NULL \<and> lp_evs loop e \<noteq> None"
    and small: "length (lp_fds_change loop) < 2 ^ 30"
  shows "\<exists>loop'. evt_fd_change (fds_put (loop\<lparr>lp_next := nx\<rparr>) fd ((lp_fds loop ! fd)\<lparr>fi_evq := head\<rparr>)) fd = Some loop' \<and>
     fd_inv loop' (Q(LFd fd := es)) \<and> fd \<in> set (lp_fds_change loop') \<and> lp_evs loop' = lp_evs loop \<and> lp_next loop' = nx \<and>
     length (lp_fds loop') = length (lp_fds loop) \<and> wrong_thread loop' = wrong_thread loop"
proof -
  have L: "lists_inv loop Q" "changes_ok loop" "masks_ok loop Q" "watch_ok loop" using inv by (simp_all add: fd_inv_def)
  let ?l = "fds_put (loop\<lparr>lp_next := nx\<rparr>) fd ((lp_fds loop ! fd)\<lparr>fi_evq := head\<rparr>)"
  have at: "lp_fds ?l ! k = (if k = fd then (lp_fds loop ! fd)\<lparr>fi_evq := head\<rparr> else lp_fds loop ! k)" if "k < length (lp_fds loop)" for k
    using that by (simp add: fds_put_def nth_list_update)
  have len: "length (lp_fds ?l) = length (lp_fds loop)" by (simp add: fds_put_def)
  have wt: "wrong_thread ?l = wrong_thread loop" by (simp add: wrong_thread_def fds_put_def)
  have F: "lp_next ?l = nx" "lp_evs ?l = lp_evs loop" "lp_fds_change ?l = lp_fds_change loop" "lp_poll ?l = lp_poll loop"
    "lp_before_evtq ?l = lp_before_evtq loop" "lp_after_evtq ?l = lp_after_evtq loop" "lp_async_evtq ?l = lp_async_evtq loop" by (simp_all add: fds_put_def)
  have fl: "flagged ?l k = flagged loop k" if "k < length (lp_fds loop)" for k using at [OF that] by (simp add: flagged_def)
  have "changes_ok ?l" using L(2) fl by (auto simp: changes_ok_def F len)
  then obtain loop' where m: "evt_fd_change ?l fd = Some loop'" "marked ?l fd loop'" using fd_change_ok [of ?l fd] fd small by (auto simp: len F)
  note M = m(2) [unfolded marked_def len F]
  have "list_head loop' l = ((list_head loop)(LFd fd := head)) l" for l
    using M at fd by (cases l) auto
  then have heads: "list_head loop' = (list_head loop)(LFd fd := head)" by (rule ext)
  have nx: "lp_next loop' = nx" "lp_evs loop' = lp_evs loop" using M by simp_all
  have "\<forall>l. \<forall>e\<in>set ((Q(LFd fd := es)) l). e \<noteq> NULL \<and> lp_evs loop e \<noteq> None" using L(1) es by (simp add: lists_inv_def)
  then have "lists_inv loop' (Q(LFd fd := es))" unfolding lists_inv_def heads nx using ok by blast
  moreover have mask: "mask_of loop' xs = mask_of loop xs" for xs by (rule mask_of_cong) (use M in simp)
  have "masks_ok loop' (Q(LFd fd := es))" unfolding masks_ok_def
  proof (intro allI impI)
    fix k assume k: "k < length (lp_fds loop')" "\<not> flagged loop' k"
    have "k \<noteq> fd" using k M by (auto simp: changes_ok_def)
    then show "fi_event (lp_fds loop' ! k) = mask_of loop' ((Q(LFd fd := es)) (LFd k))"
      using k M at L(3) fl by (simp add: masks_ok_def mask)
  qed
  moreover have "watch_ok loop'" using L(4) M at by (auto simp: watch_ok_def split: option.splits)
  ultimately show ?thesis using m(1) M wt by (simp add: fd_inv_def)
qed

lemma io_start_refines:
  assumes inv: "fd_inv loop Q" and nw: "\<not> wrong_thread loop" and ev: "ev_get loop e = Some ev" and act: "ev_active ev \<noteq> 1"
    and new: "\<And>l. e \<notin> set (Q l)" and dom: "e \<in> dom (lp_next loop)"
    and small: "ev_fd ev < 2 ^ 30" "length (lp_fds_change loop) < 2 ^ 30"
  shows "\<exists>loop'. evt_io_start loop e = Some loop' \<and> fd_inv loop' (Q(LFd (ev_fd ev) := e # Q (LFd (ev_fd ev)))) \<and>
    ev_fd ev \<in> set (lp_fds_change loop') \<and> (\<exists>p. lp_evs loop' = (lp_evs loop)(e \<mapsto> ev\<lparr>ev_active := 1, ev_priority := p\<rparr>)) \<and>
    dom (lp_next loop') = dom (lp_next loop) \<and> (ev_fd ev < length (lp_fds loop) \<longrightarrow> length (lp_fds loop') = length (lp_fds loop)) \<and>
    wrong_thread loop' = wrong_thread loop"
proof -
  let ?fd = "ev_fd ev" let ?a = "ev_activate loop e ev"
  note nz = ev_get_Some [OF ev]
  obtain sz where sz: "check_and_expand_array (length (lp_fds ?a)) (?fd + 1) = Some sz" "?fd + 1 \<le> sz" "length (lp_fds ?a) \<le> sz"
    using expand_ok [of "?fd + 1"] small by auto
  let ?l = "fds_grown ?a sz"
  have l: "fd_inv ?l Q" unfolding ev_activate_def by (rule grown_ok [OF inv ev]) simp
  have F: "lp_next ?l = lp_next loop" "lp_fds_change ?l = lp_fds_change loop" by (simp_all add: fds_grown_def ev_activate_def)
  have fd: "?fd < length (lp_fds ?l)" using sz by (simp add: fds_grown_def)
  have ok: "lists_ok (lp_next loop) (list_head ?l) Q" using l F by (simp add: fd_inv_def lists_inv_def)
  have head: "list_head ?l (LFd ?fd) = fi_evq (lp_fds ?l ! ?fd)" using fd by simp
  note add = lists_ok_add [OF ok new nz dom, of "LFd ?fd", unfolded head]
  have "\<forall>x\<in>set (e # Q (LFd ?fd)). x \<noteq> NULL \<and> lp_evs ?l x \<noteq> None"
    using l nz by (auto simp: fd_inv_def lists_inv_def fds_grown_def ev_activate_def ev_put_def)
  then obtain loop' where r: "evt_fd_change (fds_put (?l\<lparr>lp_next := (lp_next loop)(e \<mapsto> fi_evq (lp_fds ?l ! ?fd))\<rparr>) ?fd ((lp_fds ?l ! ?fd)\<lparr>fi_evq := e\<rparr>)) ?fd = Some loop'"
    "fd_inv loop' (Q(LFd ?fd := e # Q (LFd ?fd)))" "?fd \<in> set (lp_fds_change loop')"
    "lp_evs loop' = lp_evs ?l" "lp_next loop' = (lp_next loop)(e \<mapsto> fi_evq (lp_fds ?l ! ?fd))" "length (lp_fds loop') = length (lp_fds ?l)"
    "wrong_thread loop' = wrong_thread ?l"
    using relist_ok [OF l fd conjunct2 [OF add]] small(2) by (auto simp: F)
  have "io_start_rest e ev ?a = Some loop'"
    using sz fd add r(1) by (simp add: io_start_rest_def fds_at_def F)
  then have "evt_io_start loop e = Some loop'" using nw ev act by (simp add: io_start_eq)
  moreover have "lp_evs loop' = (lp_evs loop)(e \<mapsto> ev\<lparr>ev_active := 1, ev_priority := adj_between (ev_priority ev) 0 (lp_priority_max loop)\<rparr>)"
    unfolding r(4) by (simp add: fds_grown_def ev_activate_def ev_put_def)
  moreover have "dom (lp_next loop') = dom (lp_next loop)" unfolding r(5) using dom by auto
  moreover have "length (lp_fds loop') = length (lp_fds loop)" if "?fd < length (lp_fds loop)"
    using that sz unfolding r(6) by (simp add: fds_grown_def ev_activate_def check_and_expand_array_def)
  moreover have "wrong_thread loop' = wrong_thread loop" unfolding r(7) by (simp add: wrong_thread_def fds_grown_def ev_activate_def ev_put_def)
  ultimately show ?thesis using r(2,3) by blast
qed

text \<open>Taking an event out of the queues leaves the lists alone.\<close>

lemma event_field_ok:
  assumes "fd_inv loop Q" and "ev_get loop e = Some ev" and "ev_event ev' = ev_event ev"
  shows "fd_inv (ev_put loop e ev') Q"
proof -
  have "fds_grown (ev_put loop e ev') 0 = ev_put loop e ev'" by (simp add: fds_grown_def ev_put_def)
  then show ?thesis using grown_ok [OF assms, of 0] by simp
qed

lemma pending_field_ok: "fd_inv loop Q \<Longrightarrow> fd_inv (loop\<lparr>lp_pending := p\<rparr>) Q"
proof -
  let ?l = "loop\<lparr>lp_pending := p\<rparr>"
  have "list_head ?l = list_head loop" by (rule list_head_eqI) auto
  moreover have "mask_of ?l es = mask_of loop es" for es by (rule mask_of_cong) simp
  ultimately show "fd_inv loop Q \<Longrightarrow> fd_inv ?l Q"
    by (simp add: fd_inv_def lists_inv_def changes_ok_def masks_ok_def watch_ok_def flagged_def split: option.splits)
qed

lemma unpend_ok:
  assumes inv: "fd_inv loop Q" and pend: "pend_inv loop i j" and ev: "ev_get loop e = Some ev"
  shows "\<exists>loop'. evt_unpend loop e = Some loop' \<and> fd_inv loop' Q \<and> lp_fds loop' = lp_fds loop \<and> lp_fds_change loop' = lp_fds_change loop \<and>
    lp_next loop' = lp_next loop \<and> lp_evs loop' = (lp_evs loop)(e \<mapsto> ev\<lparr>ev_pendpos := 0\<rparr>) \<and> wrong_thread loop' = wrong_thread loop"
proof (cases "ev_pendpos ev = 0")
  case True
  then have "lp_evs loop = (lp_evs loop)(e \<mapsto> ev\<lparr>ev_pendpos := 0\<rparr>)"
    using ev ev_get_Some [OF ev] by (cases ev) (simp add: ev_get_def fun_upd_idem)
  then show ?thesis using True inv ev by (intro exI [of _ loop]) (simp add: evt_unpend_def)
next
  case False
  have fwd: "ev_priority ev \<le> lp_priority_max loop" "ev_pendpos ev \<le> length (lp_pending loop ! ev_priority ev)"
    using pend_invD(3) [OF pend, of e] False ev by (auto simp: pend_fwd_def pendpos_of_def prio_of_def)
  have q: "pend_q loop (ev_priority ev) = Some (lp_pending loop ! ev_priority ev)"
    using pend_shape_len [OF pend_invD(1) [OF pend] fwd(1)] by (simp add: pend_q_def)
  let ?p = "(lp_pending loop)[ev_priority ev := (lp_pending loop ! ev_priority ev)[ev_pendpos ev - 1 := lp_empty_ev loop]]"
  let ?l = "ev_put (loop\<lparr>lp_pending := ?p\<rparr>) e (ev\<lparr>ev_pendpos := 0\<rparr>)"
  have "evt_unpend loop e = Some ?l" using ev q False fwd by (simp add: evt_unpend_def Let_def)
  moreover have "fd_inv ?l Q" by (rule event_field_ok [OF pending_field_ok [OF inv]]) (use ev in simp_all)
  moreover have "lp_evs ?l = (lp_evs loop)(e \<mapsto> ev\<lparr>ev_pendpos := 0\<rparr>)" by (simp add: ev_put_def)
  moreover have "wrong_thread ?l = wrong_thread loop" by (simp add: wrong_thread_def)
  ultimately show ?thesis by simp
qed

lemma io_stop_refines:
  assumes inv: "fd_inv loop Q" and pend: "pend_inv loop i j" and nw: "\<not> wrong_thread loop" and ev: "ev_get loop e = Some ev" and act: "ev_active ev \<noteq> 0"
    and fd: "ev_fd ev < length (lp_fds loop)" and small: "length (lp_fds_change loop) < 2 ^ 30"
  shows "\<exists>loop'. evt_io_stop loop e = Some loop' \<and> fd_inv loop' (Q(LFd (ev_fd ev) := remove1 e (Q (LFd (ev_fd ev))))) \<and>
    ev_fd ev \<in> set (lp_fds_change loop') \<and> lp_evs loop' = (lp_evs loop)(e \<mapsto> ev\<lparr>ev_active := 0, ev_pendpos := 0\<rparr>) \<and>
    dom (lp_next loop') = dom (lp_next loop) \<and> length (lp_fds loop') = length (lp_fds loop) \<and> wrong_thread loop' = wrong_thread loop"
proof -
  let ?fd = "ev_fd ev" let ?a = "ev_put loop e (ev\<lparr>ev_active := 0\<rparr>)"
  have a: "fd_inv ?a Q" by (rule event_field_ok [OF inv ev]) simp
  have pa: "pend_inv ?a i j" by (rule pend_same_inv [OF inactive_same [OF ev] pend])
  have ga: "ev_get ?a e = Some (ev\<lparr>ev_active := 0\<rparr>)" using ev_get_Some [OF ev] by (simp add: ev_get_put)
  obtain l where l: "evt_unpend ?a e = Some l" "fd_inv l Q" "lp_fds l = lp_fds loop" "lp_fds_change l = lp_fds_change loop" "lp_next l = lp_next loop"
      "lp_evs l = (lp_evs ?a)(e \<mapsto> ev\<lparr>ev_active := 0, ev_pendpos := 0\<rparr>)" "wrong_thread l = wrong_thread ?a"
    using unpend_ok [OF a pa ga] by auto
  have head: "list_head l (LFd ?fd) = fi_evq (lp_fds loop ! ?fd)" using fd l(3) by simp
  have ok: "lists_ok (lp_next l) (list_head l) Q" using l(2) by (simp add: fd_inv_def lists_inv_def)
  obtain nx h where del: "splst_del (lp_next l) (fi_evq (lp_fds loop ! ?fd)) e = Some (nx, h)"
    "lists_ok nx ((list_head l)(LFd ?fd := h)) (Q(LFd ?fd := remove1 e (Q (LFd ?fd))))" "dom nx = dom (lp_next l)"
    using lists_ok_del [OF ok, of "LFd ?fd" e] unfolding head by blast
  have "\<forall>x\<in>set (remove1 e (Q (LFd ?fd))). x \<noteq> NULL \<and> lp_evs l x \<noteq> None"
    using l(2) set_remove1_subset [of e "Q (LFd ?fd)"] unfolding fd_inv_def lists_inv_def by blast
  then obtain loop' where r: "evt_fd_change (fds_put (l\<lparr>lp_next := nx\<rparr>) ?fd ((lp_fds l ! ?fd)\<lparr>fi_evq := h\<rparr>)) ?fd = Some loop'"
    "fd_inv loop' (Q(LFd ?fd := remove1 e (Q (LFd ?fd))))" "?fd \<in> set (lp_fds_change loop')" "lp_evs loop' = lp_evs l" "lp_next loop' = nx"
    "length (lp_fds loop') = length (lp_fds l)" "wrong_thread loop' = wrong_thread l"
    using relist_ok [OF l(2) _ del(2)] fd small l(3,4) by auto
  have "io_stop_rest e ev l = Some loop'" using fd del(1) r(1) l(3) by (simp add: io_stop_rest_def fds_at_def)
  then have "evt_io_stop loop e = Some loop'" using nw ev act l(1) by (simp add: io_stop_eq)
  moreover have "lp_evs loop' = (lp_evs loop)(e \<mapsto> ev\<lparr>ev_active := 0, ev_pendpos := 0\<rparr>)" unfolding r(4) l(6) by (simp add: ev_put_def)
  moreover have "wrong_thread loop' = wrong_thread loop" unfolding r(7) l(7) by (simp add: wrong_thread_def)
  ultimately show ?thesis using r(2,3,5,6) del(3) l(3,5) by simp
qed

section \<open>Passing the changes on\<close>

text \<open>Whatever \<^verbatim>\<open>epoll\<close> knew of the descriptor, it watches it for the new mask afterwards, unless it refuses it.\<close>

lemma epoll_change_ok:
  assumes "nev \<noteq> 0"
  shows "epoll_change ep fd oev nev =
    (if ep_accepts ep fd then (ep\<lparr>ep_interest := (ep_interest ep)(fd \<mapsto> epoll_events nev)\<rparr>, 0) else (ep, - 1))"
  using assms by (cases "ep_interest ep fd") (auto simp: epoll_change_def epoll_ctl_def)

definition todo_ok :: "evt_loop \<Rightarrow> (lid \<Rightarrow> addr list) \<Rightarrow> nat list \<Rightarrow> bool" where
  "todo_ok loop Q todo \<longleftrightarrow> lists_inv loop Q \<and> masks_ok loop Q \<and> watch_ok loop \<and> distinct todo \<and>
     (\<forall>fd. fd \<in> set todo \<longleftrightarrow> fd < length (lp_fds loop) \<and> flagged loop fd)"

lemma update_fdchange_ok:
  assumes inv: "todo_ok loop Q (fd # todo)"
  shows "\<exists>loop'. update_fdchange loop fd = Some loop' \<and> todo_ok loop' Q todo \<and> length (lp_fds loop') = length (lp_fds loop) \<and> lp_evs loop' = lp_evs loop"
proof -
  have L: "lists_inv loop Q" "masks_ok loop Q" "watch_ok loop" "distinct (fd # todo)" and fl: "k \<in> set (fd # todo) \<longleftrightarrow> k < length (lp_fds loop) \<and> flagged loop k" for k
    using inv by (simp_all add: todo_ok_def)
  have fd: "fd < length (lp_fds loop)" using fl [of fd] by simp
  let ?fdi = "(lp_fds loop ! fd)\<lparr>fi_flag := fi_flag (lp_fds loop ! fd) AND NOT FDS_FLAG_CHANGED\<rparr>"
  let ?m = "mask_of loop (Q (LFd fd))"
  have seg: "lseg (lp_next loop) (fi_evq (lp_fds loop ! fd)) (Q (LFd fd))"
  proof -
    have "lists_ok (lp_next loop) (list_head loop) Q" using L(1) by (simp only: lists_inv_def)
    from lists_okD [OF this, of "LFd fd"] show ?thesis using fd by simp
  qed
  have evs: "\<forall>e\<in>set (Q (LFd fd)). e \<noteq> NULL \<and> lp_evs loop e \<noteq> None" using L(1) by (simp only: lists_inv_def) blast
  have "mask_of (fds_put loop fd ?fdi) (Q (LFd fd)) = ?m" by (rule mask_of_cong) (simp add: fds_put_def)
  then have m: "evq_mask (fds_put loop fd ?fdi) (fi_evq ?fdi) = Some ?m"
    using evq_mask_ok [of "fds_put loop fd ?fdi" "fi_evq ?fdi" "Q (LFd fd)"] seg evs by (simp add: fds_put_def)
  obtain ep where ep: "lp_poll loop = Some ep" using L(3) by (auto simp: watch_ok_def split: option.splits)
  have W: "k < length (lp_fds loop) \<Longrightarrow> fi_event (lp_fds loop ! k) \<noteq> 0 \<Longrightarrow> ep_accepts ep k \<Longrightarrow>
      ep_interest ep k = Some (epoll_events (fi_event (lp_fds loop ! k)))" for k using L(3) ep by (simp add: watch_ok_def)
  let ?ep = "if fi_event (lp_fds loop ! fd) \<noteq> ?m \<and> ?m \<noteq> 0 \<and> ep_accepts ep fd then ep\<lparr>ep_interest := (ep_interest ep)(fd \<mapsto> epoll_events ?m)\<rparr> else ep"
  let ?l = "loop\<lparr>lp_fds := (lp_fds loop)[fd := ?fdi\<lparr>fi_event := ?m\<rparr>], lp_poll := Some ?ep\<rparr>"
  have r: "update_fdchange loop fd = Some ?l"
  proof (cases "fi_event (lp_fds loop ! fd) = ?m")
    case True
    then have f: "?fdi\<lparr>fi_event := ?m\<rparr> = ?fdi" unfolding True [symmetric] by simp
    have "loop\<lparr>lp_poll := Some ep\<rparr> = loop" unfolding ep [symmetric] by simp
    moreover have "?l = (loop\<lparr>lp_poll := Some ep\<rparr>)\<lparr>lp_fds := (lp_fds loop)[fd := ?fdi]\<rparr>" unfolding f using True by simp
    ultimately have "?l = fds_put loop fd ?fdi" by (simp only: fds_put_def)
    moreover have "update_fdchange loop fd = Some (fds_put loop fd ?fdi)" using True fd m by (simp add: update_fdchange_def fds_at_def Let_def)
    ultimately show ?thesis by simp
  next
    case False
    then show ?thesis using fd m ep epoll_change_ok [of ?m ep fd "fi_event (lp_fds loop ! fd)"]
      by (auto simp: update_fdchange_def fds_at_def Let_def epoll_update_def fds_put_def)
  qed
  have at: "lp_fds ?l ! k = (if k = fd then ?fdi\<lparr>fi_event := ?m\<rparr> else lp_fds loop ! k)" if "k < length (lp_fds loop)" for k
    using that by (simp add: nth_list_update)
  have F: "lp_next ?l = lp_next loop" "lp_evs ?l = lp_evs loop" "lp_poll ?l = Some ?ep" "length (lp_fds ?l) = length (lp_fds loop)"
    "lp_before_evtq ?l = lp_before_evtq loop" "lp_after_evtq ?l = lp_after_evtq loop" "lp_async_evtq ?l = lp_async_evtq loop" by simp_all
  have flag: "flagged ?l k = (k \<noteq> fd \<and> flagged loop k)" if "k < length (lp_fds loop)" for k
    unfolding flagged_def at [OF that] by simp
  have mask: "mask_of ?l es = mask_of loop es" for es by (rule mask_of_cong) simp
  have "list_head ?l = list_head loop" by (rule list_head_eqI) (use fd in \<open>simp_all add: nth_list_update\<close>)
  then have "lists_inv ?l Q" by (intro lists_inv_cong [OF L(1)]) simp_all
  moreover have "masks_ok ?l Q" unfolding masks_ok_def F(4) mask
  proof (intro allI impI)
    fix k assume k: "k < length (lp_fds loop)" "\<not> flagged ?l k"
    show "fi_event (lp_fds ?l ! k) = mask_of loop (Q (LFd k))"
      using L(2) k(1,2) unfolding flag [OF k(1)] at [OF k(1)] masks_ok_def by auto
  qed
  moreover have "watch_ok ?l" unfolding watch_ok_def F(3,4) option.case
  proof (intro allI impI)
    fix k assume k: "k < length (lp_fds loop)" "fi_event (lp_fds ?l ! k) \<noteq> 0 \<and> ep_accepts ?ep k"
    show "ep_interest ?ep k = Some (epoll_events (fi_event (lp_fds ?l ! k)))"
      using k W [OF k(1)] unfolding at [OF k(1)] by (auto split: if_splits)
  qed
  moreover have "distinct todo" "k \<in> set todo \<longleftrightarrow> k < length (lp_fds ?l) \<and> flagged ?l k" for k
    using L(4) fl [of k] flag [of k] unfolding F(4) by auto
  ultimately have "todo_ok ?l Q todo" by (simp only: todo_ok_def) blast
  then show ?thesis using r F(2,4) by blast
qed

lemma update_list_ok:
  "todo_ok loop Q todo \<Longrightarrow> \<exists>loop'. update_fdchange_list todo loop = Some loop' \<and> todo_ok loop' Q [] \<and> length (lp_fds loop') = length (lp_fds loop) \<and> lp_evs loop' = lp_evs loop"
proof (induction todo arbitrary: loop)
  case (Cons fd todo)
  obtain l where l: "update_fdchange loop fd = Some l" "todo_ok l Q todo" "length (lp_fds l) = length (lp_fds loop)" "lp_evs l = lp_evs loop"
    using update_fdchange_ok [OF Cons.prems] by blast
  then show ?case using Cons.IH [OF l(2)] by auto
qed simp

lemma update_fdchanges_ok:
  assumes inv: "fd_inv loop Q"
  shows "\<exists>loop'. evt_update_fdchanges loop = Some loop' \<and> fd_inv loop' Q \<and> lp_fds_change loop' = [] \<and>
    (\<forall>fd<length (lp_fds loop'). fi_event (lp_fds loop' ! fd) = mask_of loop' (Q (LFd fd)))"
proof -
  have "todo_ok loop Q (lp_fds_change loop)" using inv by (simp add: fd_inv_def todo_ok_def changes_ok_def)
  then obtain l where l: "update_fdchange_list (lp_fds_change loop) loop = Some l" "todo_ok l Q []" using update_list_ok by blast
  let ?l = "l\<lparr>lp_fds_change := []\<rparr>"
  have L: "lists_inv l Q" "masks_ok l Q" "watch_ok l" "\<And>fd. fd < length (lp_fds l) \<Longrightarrow> \<not> flagged l fd" using l(2) by (simp_all add: todo_ok_def)
  have fl: "flagged ?l k = flagged l k" for k by (simp add: flagged_def)
  have mask: "mask_of ?l es = mask_of l es" for es by (rule mask_of_cong) simp
  have "list_head ?l = list_head l" by (rule list_head_eqI) simp_all
  then have "lists_inv ?l Q" by (intro lists_inv_cong [OF L(1)]) simp_all
  moreover have "changes_ok ?l" using L(4) fl by (simp add: changes_ok_def)
  moreover have "masks_ok ?l Q" using L(2) by (simp add: masks_ok_def mask fl)
  moreover have "watch_ok ?l" using L(3) by (simp add: watch_ok_def split: option.splits)
  moreover have "\<forall>fd<length (lp_fds ?l). fi_event (lp_fds ?l ! fd) = mask_of ?l (Q (LFd fd))" using L(2,4) by (simp add: masks_ok_def mask)
  ultimately show ?thesis using l(1) by (simp add: evt_update_fdchanges_def fd_inv_def)
qed

end
