(* ===== verification/EvtIo.thy ===== *)
theory EvtIo
  imports EvtLists
begin

text \<open>
  The interface of the event loop for code that owns events of descriptors: starting and stopping such an event works
  and leaves the others as they are. The interface is a locale, which the operations of the loop satisfy.
\<close>

section \<open>The contract\<close>

text \<open>\<open>ready loop e fd m a\<close>: event \<open>e\<close> is an event of descriptor \<open>fd\<close> and mask \<open>m\<close> in a loop in order, active or not.\<close>

locale io_events =
  fixes start stop :: "evt_loop \<Rightarrow> addr \<Rightarrow> evt_loop option"
    and ready :: "evt_loop \<Rightarrow> addr \<Rightarrow> nat \<Rightarrow> 8 word \<Rightarrow> bool \<Rightarrow> bool"
  assumes start_ok: "ready loop e fd m a \<Longrightarrow> \<exists>loop'. start loop e = Some loop' \<and> ready loop' e fd m True \<and>
      (\<forall>e' fd' m' a'. e' \<noteq> e \<and> ready loop e' fd' m' a' \<longrightarrow> ready loop' e' fd' m' a')"
    and stop_ok: "ready loop e fd m a \<Longrightarrow> \<exists>loop'. stop loop e = Some loop' \<and> ready loop' e fd m False \<and>
      (\<forall>e' fd' m' a'. e' \<noteq> e \<and> ready loop e' fd' m' a' \<longrightarrow> ready loop' e' fd' m' a')"
begin

text \<open>Two events of one descriptor, as a connection has them.\<close>

definition both :: "evt_loop \<Rightarrow> addr \<Rightarrow> addr \<Rightarrow> nat \<Rightarrow> bool \<Rightarrow> bool \<Rightarrow> bool" where
  "both loop r w fd ra wa \<longleftrightarrow> r \<noteq> w \<and> ready loop r fd EVT_READ ra \<and> ready loop w fd EVT_WRITE wa"

lemma both_start_read: "both loop r w fd ra wa \<Longrightarrow> \<exists>loop'. start loop r = Some loop' \<and> both loop' r w fd True wa"
  using start_ok [of loop r fd EVT_READ ra] unfolding both_def by metis

lemma both_start_write: "both loop r w fd ra wa \<Longrightarrow> \<exists>loop'. start loop w = Some loop' \<and> both loop' r w fd ra True"
  using start_ok [of loop w fd EVT_WRITE wa] unfolding both_def by metis

lemma both_stop_read: "both loop r w fd ra wa \<Longrightarrow> \<exists>loop'. stop loop r = Some loop' \<and> both loop' r w fd False wa"
  using stop_ok [of loop r fd EVT_READ ra] unfolding both_def by metis

lemma both_stop_write: "both loop r w fd ra wa \<Longrightarrow> \<exists>loop'. stop loop w = Some loop' \<and> both loop' r w fd ra False"
  using stop_ok [of loop w fd EVT_WRITE wa] unfolding both_def by metis

end

section \<open>The loop satisfies it\<close>

lemma lseg_unique: "lseg nx p xs \<Longrightarrow> lseg nx p ys \<Longrightarrow> xs = ys"
proof (induction xs arbitrary: p ys)
  case Nil
  then show ?case by (cases ys) auto
next
  case (Cons x xs)
  then show ?case by (cases ys) auto
qed

lemma fd_inv_unique: "fd_inv loop Q \<Longrightarrow> fd_inv loop Q' \<Longrightarrow> Q = Q'"
proof
  fix l assume "fd_inv loop Q" "fd_inv loop Q'"
  then have "lists_ok (lp_next loop) (list_head loop) Q" "lists_ok (lp_next loop) (list_head loop) Q'" by (simp_all add: fd_inv_def lists_inv_def)
  from this [THEN lists_okD] show "Q l = Q' l" using lseg_unique by metis
qed

definition io_event :: "evt_loop \<Rightarrow> (lid \<Rightarrow> addr list) \<Rightarrow> addr \<Rightarrow> nat \<Rightarrow> 8 word \<Rightarrow> bool \<Rightarrow> bool" where
  "io_event loop Q e fd m a \<longleftrightarrow> (\<exists>ev. ev_get loop e = Some ev \<and> ev_fd ev = fd \<and> ev_event ev = m \<and> ev_active ev = (if a then 1 else 0)) \<and>
     (\<forall>l. e \<in> set (Q l) \<longleftrightarrow> a \<and> l = LFd fd) \<and> e \<in> dom (lp_next loop)"

definition io_loop :: "evt_loop \<Rightarrow> (lid \<Rightarrow> addr list) \<Rightarrow> bool" where
  "io_loop loop Q \<longleftrightarrow> fd_inv loop Q \<and> (\<exists>i j. pend_inv loop i j) \<and> \<not> wrong_thread loop \<and> length (lp_fds loop) < 2 ^ 30"

definition io_ready :: "evt_loop \<Rightarrow> addr \<Rightarrow> nat \<Rightarrow> 8 word \<Rightarrow> bool \<Rightarrow> bool" where
  "io_ready loop e fd m a \<longleftrightarrow> (\<exists>Q. io_loop loop Q \<and> io_event loop Q e fd m a) \<and> fd < length (lp_fds loop)"

lemma io_event_frame:
  assumes "io_event loop Q e' fd' m' a'" and "\<And>x. x \<noteq> e \<Longrightarrow> lp_evs loop' x = lp_evs loop x" and "dom (lp_next loop') = dom (lp_next loop)"
    and "\<And>l. e' \<in> set (Q' l) \<longleftrightarrow> e' \<in> set (Q l)" and "e' \<noteq> e"
  shows "io_event loop' Q' e' fd' m' a'"
proof -
  have "ev_get loop' e' = ev_get loop e'" using assms(2,5) by (simp add: ev_get_def)
  then show ?thesis using assms(1) unfolding io_event_def assms(3,4) by simp
qed

lemma changes_few: "changes_ok loop \<Longrightarrow> length (lp_fds_change loop) \<le> length (lp_fds loop)"
proof -
  assume c: "changes_ok loop"
  then have "set (lp_fds_change loop) \<subseteq> {..<length (lp_fds loop)}" by (auto simp: changes_ok_def)
  then have "card (set (lp_fds_change loop)) \<le> length (lp_fds loop)" using card_mono [of "{..<length (lp_fds loop)}"] by force
  then show ?thesis using c by (simp add: changes_ok_def distinct_card)
qed

lemma io_loop_few: "io_loop loop Q \<Longrightarrow> length (lp_fds_change loop) < 2 ^ 30"
  using changes_few [of loop] by (simp add: io_loop_def fd_inv_def)

lemma io_start_ready:
  assumes "io_ready loop e fd m a"
  shows "\<exists>loop'. evt_io_start loop e = Some loop' \<and> io_ready loop' e fd m True \<and>
    (\<forall>e' fd' m' a'. e' \<noteq> e \<and> io_ready loop e' fd' m' a' \<longrightarrow> io_ready loop' e' fd' m' a')"
proof -
  obtain Q where Q: "io_loop loop Q" "io_event loop Q e fd m a" and fd: "fd < length (lp_fds loop)" using assms by (auto simp: io_ready_def)
  obtain i j where L: "fd_inv loop Q" "pend_inv loop i j" "\<not> wrong_thread loop" "length (lp_fds loop) < 2 ^ 30" using Q(1) by (auto simp: io_loop_def)
  obtain ev where ev: "ev_get loop e = Some ev" "ev_fd ev = fd" "ev_event ev = m" "ev_active ev = (if a then 1 else 0)"
      "\<And>l. e \<in> set (Q l) \<longleftrightarrow> a \<and> l = LFd fd" "e \<in> dom (lp_next loop)" using Q(2) by (auto simp: io_event_def)
  show ?thesis
  proof (cases a)
    case True
    then have "evt_io_start loop e = Some loop" using ev(1,4) L(3) by (simp add: evt_io_start_def)
    then show ?thesis using assms True by (intro exI [of _ loop]) simp
  next
    case False
    let ?Q = "Q(LFd fd := e # Q (LFd fd))"
    obtain loop' p where r: "evt_io_start loop e = Some loop'" "fd_inv loop' ?Q" "lp_evs loop' = (lp_evs loop)(e \<mapsto> ev\<lparr>ev_active := 1, ev_priority := p\<rparr>)"
        "dom (lp_next loop') = dom (lp_next loop)" "length (lp_fds loop') = length (lp_fds loop)" "wrong_thread loop' = wrong_thread loop"
    proof -
      have A: "ev_active ev \<noteq> 1" using ev(4) False by simp
      have B: "e \<notin> set (Q l)" for l using ev(5) [of l] False by simp
      have C: "ev_fd ev < 2 ^ 30" using fd L(4) unfolding ev(2) by linarith
      from io_start_refines [OF L(1,3) ev(1) A B ev(6) C io_loop_few [OF Q(1)], unfolded ev(2)] show thesis
        by (elim exE conjE, intro that) (assumption | (erule mp, rule fd))+
    qed
    have l: "io_loop loop' ?Q" using r io_start_keeps [OF L(2) r(1)] L by (auto simp: io_loop_def)
    have "io_event loop' ?Q e fd m True" using r(3,4) ev False ev_get_Some [OF ev(1)] by (auto simp: io_event_def ev_get_def)
    moreover have "io_ready loop' e' fd' m' a'" if ne: "e' \<noteq> e" and old: "io_ready loop e' fd' m' a'" for e' fd' m' a'
    proof -
      obtain Q' where Q': "io_loop loop Q'" "io_event loop Q' e' fd' m' a'" using old by (auto simp: io_ready_def)
      then have eq: "Q' = Q" using fd_inv_unique L(1) by (auto simp: io_loop_def)
      have m: "e' \<in> set (?Q l) \<longleftrightarrow> e' \<in> set (Q l)" for l using ne by simp
      have x: "lp_evs loop' x = lp_evs loop x" if "x \<noteq> e" for x using that unfolding r(3) by simp
      have F: "io_event loop' ?Q e' fd' m' a'" by (rule io_event_frame [OF Q'(2) [unfolded eq] x r(4) m ne])
      have "fd' < length (lp_fds loop')" using old r(5) by (simp add: io_ready_def)
      then show ?thesis unfolding io_ready_def using l F by blast
    qed
    moreover have "fd < length (lp_fds loop')" using fd r(5) by simp
    ultimately show ?thesis using r(1) l unfolding io_ready_def by blast
  qed
qed

lemma io_stop_ready:
  assumes "io_ready loop e fd m a"
  shows "\<exists>loop'. evt_io_stop loop e = Some loop' \<and> io_ready loop' e fd m False \<and>
    (\<forall>e' fd' m' a'. e' \<noteq> e \<and> io_ready loop e' fd' m' a' \<longrightarrow> io_ready loop' e' fd' m' a')"
proof -
  obtain Q where Q: "io_loop loop Q" "io_event loop Q e fd m a" and fd: "fd < length (lp_fds loop)" using assms by (auto simp: io_ready_def)
  obtain i j where L: "fd_inv loop Q" "pend_inv loop i j" "\<not> wrong_thread loop" "length (lp_fds loop) < 2 ^ 30" using Q(1) by (auto simp: io_loop_def)
  obtain ev where ev: "ev_get loop e = Some ev" "ev_fd ev = fd" "ev_event ev = m" "ev_active ev = (if a then 1 else 0)"
      "\<And>l. e \<in> set (Q l) \<longleftrightarrow> a \<and> l = LFd fd" "e \<in> dom (lp_next loop)" using Q(2) by (auto simp: io_event_def)
  show ?thesis
  proof (cases a)
    case False
    then have "evt_io_stop loop e = Some loop" using ev(1,4) L(3) by (simp add: evt_io_stop_def)
    then show ?thesis using assms False by (intro exI [of _ loop]) simp
  next
    case True
    let ?Q = "Q(LFd fd := remove1 e (Q (LFd fd)))"
    obtain loop' where r: "evt_io_stop loop e = Some loop'" "fd_inv loop' ?Q" "lp_evs loop' = (lp_evs loop)(e \<mapsto> ev\<lparr>ev_active := 0, ev_pendpos := 0\<rparr>)"
        "dom (lp_next loop') = dom (lp_next loop)" "length (lp_fds loop') = length (lp_fds loop)" "wrong_thread loop' = wrong_thread loop"
    proof -
      have A: "ev_active ev \<noteq> 0" using ev(4) True by simp
      have B: "ev_fd ev < length (lp_fds loop)" using fd unfolding ev(2) .
      from io_stop_refines [OF L(1,2,3) ev(1) A B io_loop_few [OF Q(1)], unfolded ev(2)] show thesis
        by (elim exE conjE, intro that) assumption+
    qed
    have l: "io_loop loop' ?Q" using r io_stop_keeps [OF L(2) r(1)] L by (auto simp: io_loop_def)
    have "lists_ok (lp_next loop) (list_head loop) Q" using L(1) by (simp add: fd_inv_def lists_inv_def)
    then have d: "distinct (Q (LFd fd))" using lists_okD by blast
    then have rem: "x \<in> set (?Q l) \<longleftrightarrow> x \<in> set (Q l) \<and> \<not> (x = e \<and> l = LFd fd)" for x l by auto
    then have out: "e \<notin> set (?Q l)" for l using ev(5) by blast
    then have "io_event loop' ?Q e fd m False" unfolding io_event_def using r(3,4) ev(2,3,6) ev_get_Some [OF ev(1)] by (simp add: ev_get_def)
    moreover have "io_ready loop' e' fd' m' a'" if ne: "e' \<noteq> e" and old: "io_ready loop e' fd' m' a'" for e' fd' m' a'
    proof -
      obtain Q' where Q': "io_loop loop Q'" "io_event loop Q' e' fd' m' a'" using old by (auto simp: io_ready_def)
      then have eq: "Q' = Q" using fd_inv_unique L(1) by (auto simp: io_loop_def)
      have m: "e' \<in> set (?Q l) \<longleftrightarrow> e' \<in> set (Q l)" for l using rem [of e' l] ne by blast
      have x: "lp_evs loop' x = lp_evs loop x" if "x \<noteq> e" for x using that unfolding r(3) by simp
      have F: "io_event loop' ?Q e' fd' m' a'" by (rule io_event_frame [OF Q'(2) [unfolded eq] x r(4) m ne])
      have "fd' < length (lp_fds loop')" using old r(5) by (simp add: io_ready_def)
      then show ?thesis unfolding io_ready_def using l F by blast
    qed
    moreover have "fd < length (lp_fds loop')" using fd r(5) by simp
    ultimately show ?thesis using r(1) l unfolding io_ready_def by blast
  qed
qed

interpretation ios: io_events evt_io_start evt_io_stop io_ready
  by unfold_locales (rule io_start_ready io_stop_ready, assumption)+

end
