(* ===== verification/TcpStream.thy ===== *)
theory TcpStream
  imports TcpSrv EvtIo BufferIo "HOL-Library.Sublist"
begin

text \<open>
  A connection as a stream: what has been sent and what waits in its buffer is what the program has given it, in
  order, and while something waits the event of writing is started. The contract of the callbacks of the program is a
  locale; programs that queue data satisfy it.
\<close>

section \<open>A connection in order\<close>

definition rw_ready :: "evt_loop \<Rightarrow> addr \<Rightarrow> addr \<Rightarrow> nat \<Rightarrow> bool \<Rightarrow> bool \<Rightarrow> bool" where
  "rw_ready loop r w fd ra wa \<longleftrightarrow> r \<noteq> w \<and> io_ready loop r fd EVT_READ ra \<and> io_ready loop w fd EVT_WRITE wa"

lemma rw_ready_both: "rw_ready = ios.both"
  by (intro ext) (simp add: rw_ready_def ios.both_def)

definition conn :: "process \<Rightarrow> addr \<Rightarrow> tcp_client \<Rightarrow> sock \<Rightarrow> byte list \<Rightarrow> byte list \<Rightarrow> bool \<Rightarrow> bool \<Rightarrow> bool" where
  "conn w c cl sk inp out ra wa \<longleftrightarrow> c \<noteq> NULL \<and> w_clients w c = Some cl \<and> w_socks w (tc_fd cl) = Some sk \<and>
     buf_ok (tc_rbuf cl) inp \<and> buf_ok (tc_wbuf cl) out \<and> tc_loop_on cl < length (w_loops w) \<and>
     rw_ready (w_loops w ! tc_loop_on cl) (read_ev c) (write_ev c) (tc_fd cl) ra wa"

lemma connD:
  assumes "conn w c cl sk inp out ra wa"
  shows "tc_get w c = Some cl" "w_socks w (tc_fd cl) = Some sk" "buf_ok (tc_rbuf cl) inp" "buf_ok (tc_wbuf cl) out" "c \<noteq> NULL"
  using assms by (simp_all add: conn_def tc_get_def)

lemma conn_used: "conn w c cl sk inp out ra wa \<Longrightarrow> buf_used (tc_wbuf cl) = Some (int (length out))"
  by (rule buf_used_ok) (simp add: conn_def)

text \<open>The operations on the events.\<close>

lemma conn_op:
  assumes c: "conn w c cl sk inp out ra wa"
    and op: "\<And>loop. ios.both loop (read_ev c) (write_ev c) (tc_fd cl) ra wa \<Longrightarrow> \<exists>loop'. f loop e = Some loop' \<and> ios.both loop' (read_ev c) (write_ev c) (tc_fd cl) ra' wa'"
  shows "\<exists>w'. io_op f w (tc_loop_on cl) e = Some w' \<and> conn w' c cl sk inp out ra' wa' \<and>
    w_clients w' = w_clients w \<and> w_socks w' = w_socks w \<and> w_servers w' = w_servers w"
proof -
  let ?l = "tc_loop_on cl"
  have l: "?l < length (w_loops w)" "ios.both (w_loops w ! ?l) (read_ev c) (write_ev c) (tc_fd cl) ra wa"
    using c by (simp_all add: conn_def rw_ready_both)
  obtain loop where o: "f (w_loops w ! ?l) e = Some loop" "ios.both loop (read_ev c) (write_ev c) (tc_fd cl) ra' wa'" using op [OF l(2)] by blast
  let ?w = "w\<lparr>w_loops := (w_loops w)[?l := loop]\<rparr>"
  have "io_op f w ?l e = Some ?w" using l(1) o(1) by (simp add: io_op_def)
  moreover have "conn ?w c cl sk inp out ra' wa'" using c l(1) o(2) by (simp add: conn_def rw_ready_both)
  ultimately show ?thesis by (intro exI [of _ ?w]) simp
qed

lemma conn_start_read: "conn w c cl sk inp out ra wa \<Longrightarrow> \<exists>w'. io_op evt_io_start w (tc_loop_on cl) (read_ev c) = Some w' \<and>
    conn w' c cl sk inp out True wa \<and> w_clients w' = w_clients w \<and> w_socks w' = w_socks w \<and> w_servers w' = w_servers w"
  by (erule conn_op) (rule ios.both_start_read)

lemma conn_start_write: "conn w c cl sk inp out ra wa \<Longrightarrow> \<exists>w'. io_op evt_io_start w (tc_loop_on cl) (write_ev c) = Some w' \<and>
    conn w' c cl sk inp out ra True \<and> w_clients w' = w_clients w \<and> w_socks w' = w_socks w \<and> w_servers w' = w_servers w"
  by (erule conn_op) (rule ios.both_start_write)

lemma conn_stop_read: "conn w c cl sk inp out ra wa \<Longrightarrow> \<exists>w'. io_op evt_io_stop w (tc_loop_on cl) (read_ev c) = Some w' \<and>
    conn w' c cl sk inp out False wa \<and> w_clients w' = w_clients w \<and> w_socks w' = w_socks w \<and> w_servers w' = w_servers w"
  by (erule conn_op) (rule ios.both_stop_read)

lemma conn_stop_write: "conn w c cl sk inp out ra wa \<Longrightarrow> \<exists>w'. io_op evt_io_stop w (tc_loop_on cl) (write_ev c) = Some w' \<and>
    conn w' c cl sk inp out ra False \<and> w_clients w' = w_clients w \<and> w_socks w' = w_socks w \<and> w_servers w' = w_servers w"
  by (erule conn_op) (rule ios.both_stop_write)

text \<open>Updates of the connection and of the socket.\<close>

lemma conn_put: "conn w c cl sk inp out ra wa \<Longrightarrow> tc_fd cl' = tc_fd cl \<Longrightarrow> tc_loop_on cl' = tc_loop_on cl \<Longrightarrow>
    buf_ok (tc_rbuf cl') inp' \<Longrightarrow> buf_ok (tc_wbuf cl') out' \<Longrightarrow> conn (tc_put w c cl') c cl' sk inp' out' ra wa"
  by (simp add: conn_def tc_put_def)

lemma conn_sock: "conn w c cl sk inp out ra wa \<Longrightarrow> conn (sk_put w (tc_fd cl) sk') c cl sk' inp out ra wa"
  by (simp add: conn_def sk_put_def)

section \<open>Sending\<close>

lemma send_delay_ok:
  assumes al: "good_alloc al" and c: "conn w c cl sk inp out ra wa"
  shows "\<exists>w' wbuf. tcp_send_delay al g w c src lowmask = Some (w', int (length src)) \<and>
    conn w' c (cl\<lparr>tc_wbuf := wbuf\<rparr>) sk inp (out @ src) ra (wa \<or> 0 \<le> lowmask \<and> lowmask < int (length (out @ src)))"
proof -
  obtain b where b: "buf_write al g (tc_wbuf cl) src (int (length src)) = Some (b, int (length src))" "buf_ok b (out @ src)"
    using buf_write_ok [OF al connD(4) [OF c], of g src] by blast
  let ?cl = "cl\<lparr>tc_wbuf := b\<rparr>" let ?w = "tc_put w c ?cl"
  have w: "conn ?w c ?cl sk inp (out @ src) ra wa" by (rule conn_put [OF c]) (use b connD(3) [OF c] in simp_all)
  have u: "buf_used b = Some (int (length (out @ src)))" by (rule buf_used_ok [OF b(2)])
  note start = tcp_send_delay_def connD(1) [OF c] b(1) Let_def u
  show ?thesis
  proof (cases "0 \<le> lowmask \<and> lowmask < int (length (out @ src))")
    case True
    obtain w' where w': "io_op evt_io_start ?w (tc_loop_on ?cl) (write_ev c) = Some w'" "conn w' c ?cl sk inp (out @ src) ra True"
      using conn_start_write [OF w] by blast
    have "tcp_send_delay al g w c src lowmask = Some (w', int (length src))" using True w'(1) by (simp add: start)
    then show ?thesis using w'(2) True by (intro exI [of _ w'] exI [of _ b]) simp
  next
    case False
    then have "tcp_send_delay al g w c src lowmask = Some (?w, int (length src))" by (auto simp: start)
    moreover have "(wa \<or> 0 \<le> lowmask \<and> lowmask < int (length (out @ src))) = wa" using False by blast
    ultimately show ?thesis using w by (intro exI [of _ ?w] exI [of _ b]) (simp only: simp_thms)
  qed
qed

text \<open>
  \<open>stream w c S b\<close>: all that was given to a connection that is not broken is \<open>S\<close>, sent or waiting, and, if \<open>b\<close>, the
  event of writing is started when something waits.
\<close>

definition stream :: "process \<Rightarrow> addr \<Rightarrow> byte list \<Rightarrow> bool \<Rightarrow> bool" where
  "stream w c S b \<longleftrightarrow> (\<exists>cl sk inp out ra wa. conn w c cl sk inp out ra wa \<and> sk_sent sk @ out = S \<and> set (sk_errs sk) \<subseteq> {Eagain} \<and>
     \<not> has_flag (tc_flag cl) TCPFLG_CLT_CONNING \<and> \<not> has_flag (tc_flag cl) TCPFLG_CLT_WAITCLS \<and> (b \<and> out \<noteq> [] \<longrightarrow> wa))"

lemma streamI:
  assumes "conn w c cl sk inp out ra wa" "sk_sent sk @ out = S" "set (sk_errs sk) \<subseteq> {Eagain}" "tc_flag cl = f"
    "\<not> has_flag f TCPFLG_CLT_CONNING" "\<not> has_flag f TCPFLG_CLT_WAITCLS" "b \<Longrightarrow> out \<noteq> [] \<Longrightarrow> wa"
  shows "stream w c S b"
  unfolding stream_def using assms by blast

lemma take_err_again: "set es \<subseteq> {Eagain} \<Longrightarrow> fst (take_err es) = Eagain \<and> set (snd (take_err es)) \<subseteq> {Eagain}"
  by (cases es) (auto simp: take_err_def)

lemma sock_write_ok:
  assumes c: "conn w c cl sk inp out ra wa" and es: "set (sk_errs sk) \<subseteq> {Eagain}"
  shows "\<exists>w1 sk1 n. sock_write w (tc_fd cl) src = Some (w1, n, Eagain) \<and> conn w1 c cl sk1 inp out ra wa \<and>
    sk_sent sk1 = sk_sent sk @ (case n of None \<Rightarrow> [] | Some n \<Rightarrow> take n src) \<and> set (sk_errs sk1) \<subseteq> {Eagain} \<and> (\<forall>k. n = Some k \<longrightarrow> k \<le> length src)"
proof -
  obtain n rs where n: "fd_send (sk_out sk) (length src) = (n, rs)" by fastforce
  let ?e = "if n = None then take_err (sk_errs sk) else (Eagain, sk_errs sk)"
  let ?sk = "Sock (sk_in sk) rs (snd ?e) (sk_soerr sk) (sk_connect sk) (sk_accept sk) (sk_sent sk @ (case n of None \<Rightarrow> [] | Some n \<Rightarrow> take n src))"
  have "sock_write w (tc_fd cl) src = Some (sk_put w (tc_fd cl) ?sk, n, Eagain)"
    using connD(2) [OF c] n take_err_again [OF es] by (simp add: sock_write_def case_prod_beta Let_def)
  moreover have "set (sk_errs ?sk) \<subseteq> {Eagain}" using es take_err_again [OF es] by simp
  moreover have "\<forall>k. n = Some k \<longrightarrow> k \<le> length src" using n by (auto simp: fd_send_def split: option.splits prod.splits)
  ultimately show ?thesis using conn_sock [OF c] by (intro exI [of _ "sk_put w (tc_fd cl) ?sk"] exI [of _ ?sk] exI [of _ n]) simp
qed

lemma sock_send_ok:
  assumes c: "conn w c cl sk inp out ra wa" and es: "set (sk_errs sk) \<subseteq> {Eagain}"
  shows "\<exists>w1 sk1 wb ret n. sock_send w (tc_wbuf cl) (tc_fd cl) = Some (w1, wb, ret, int n, Eagain) \<and>
    conn (tc_put w1 c (cl\<lparr>tc_wbuf := wb\<rparr>)) c (cl\<lparr>tc_wbuf := wb\<rparr>) sk1 inp (drop n out) ra wa \<and>
    sk_sent sk1 = sk_sent sk @ take n out \<and> set (sk_errs sk1) \<subseteq> {Eagain} \<and> (ret = int n \<and> n = length out \<or> ret = - 1) \<and> n \<le> length out"
proof -
  obtain wb ret n rs where f: "buf_fd_write (tc_wbuf cl) (sk_out sk) = Some (wb, ret, int n, take n out, rs)" "buf_ok wb (drop n out)"
    "n \<le> length out" "ret = int n \<and> n = length out \<or> ret = - 1" using fd_write_ok [OF connD(4) [OF c], of "sk_out sk"] by blast
  let ?e = "if ret < 0 then take_err (sk_errs sk) else (Eagain, sk_errs sk)"
  let ?sk = "Sock (sk_in sk) rs (snd ?e) (sk_soerr sk) (sk_connect sk) (sk_accept sk) (sk_sent sk @ take n out)"
  let ?w = "sk_put w (tc_fd cl) ?sk"
  have "sock_send w (tc_wbuf cl) (tc_fd cl) = Some (?w, wb, ret, int n, Eagain)"
    using connD(2) [OF c] f(1) take_err_again [OF es] by (simp add: sock_send_def case_prod_beta Let_def)
  moreover have "conn (tc_put ?w c (cl\<lparr>tc_wbuf := wb\<rparr>)) c (cl\<lparr>tc_wbuf := wb\<rparr>) ?sk inp (drop n out) ra wa"
    by (rule conn_put [OF conn_sock [OF c]]) (use f(2) connD(3) [OF c] in simp_all)
  moreover have "set (sk_errs ?sk) \<subseteq> {Eagain}" using es take_err_again [OF es] by simp
  ultimately show ?thesis using f(3,4)
    by (intro exI [of _ ?w] exI [of _ ?sk] exI [of _ wb] exI [of _ ret] exI [of _ n]) simp
qed

datatype send_op = Send "byte list" | SendDelay "byte list" int | Flush | Writable

fun op_data :: "send_op \<Rightarrow> byte list" where
  "op_data (Send src) = src"
| "op_data (SendDelay src lowmask) = src"
| "op_data op = []"

fun eager :: "send_op \<Rightarrow> bool" where
  "eager (SendDelay src lowmask) = (lowmask = 0)"
| "eager op = True"

definition run_send :: "allocator \<Rightarrow> (nat \<Rightarrow> byte) \<Rightarrow> tcp_cb \<Rightarrow> send_op \<Rightarrow> process \<Rightarrow> addr \<Rightarrow> process option" where
  "run_send al g call op w c = (case op of
     Send src \<Rightarrow> map_option fst (tcp_send al g call w c src)
   | SendDelay src lowmask \<Rightarrow> map_option fst (tcp_send_delay al g w c src lowmask)
   | Flush \<Rightarrow> tcp_flush w c
   | Writable \<Rightarrow> tcp_cb_write call w c)"

primrec run_sends :: "allocator \<Rightarrow> (nat \<Rightarrow> byte) \<Rightarrow> tcp_cb \<Rightarrow> send_op list \<Rightarrow> process \<Rightarrow> addr \<Rightarrow> process option" where
  "run_sends al g call [] w c = Some w"
| "run_sends al g call (op # ops) w c = do { w \<leftarrow> run_send al g call op w c; run_sends al g call ops w c }"

locale stream_callbacks =
  fixes al :: allocator and g :: "nat \<Rightarrow> byte" and call :: tcp_cb
  assumes good: "good_alloc al"
    and call_ok: "stream w c S b \<Longrightarrow> \<exists>w' more. call cb c w = Some w' \<and> stream w' c (S @ more) b"
begin

lemma user_cb_ok: "stream w c S b \<Longrightarrow> \<exists>w' more. user_cb call cb c w = Some w' \<and> stream w' c (S @ more) b"
proof (cases "cb = 0")
  case True
  then show "stream w c S b \<Longrightarrow> ?thesis" by (intro exI [of _ w] exI [of _ "[]"]) (simp add: user_cb_def)
next
  case False
  then show "stream w c S b \<Longrightarrow> ?thesis" using call_ok [of w c S b cb] by (simp add: user_cb_def)
qed

lemma delay_ok:
  assumes "stream w c S b" and "b \<longrightarrow> lowmask = 0"
  shows "\<exists>w'. tcp_send_delay al g w c src lowmask = Some (w', int (length src)) \<and> stream w' c (S @ src) b"
proof -
  obtain cl sk inp out ra wa where s: "conn w c cl sk inp out ra wa" "sk_sent sk @ out = S" "set (sk_errs sk) \<subseteq> {Eagain}"
    "\<not> has_flag (tc_flag cl) TCPFLG_CLT_CONNING" "\<not> has_flag (tc_flag cl) TCPFLG_CLT_WAITCLS" "b \<and> out \<noteq> [] \<longrightarrow> wa"
    using assms(1) unfolding stream_def by blast
  obtain w' wb where d: "tcp_send_delay al g w c src lowmask = Some (w', int (length src))"
    "conn w' c (cl\<lparr>tc_wbuf := wb\<rparr>) sk inp (out @ src) ra (wa \<or> 0 \<le> lowmask \<and> lowmask < int (length (out @ src)))"
    using send_delay_ok [OF good s(1), of g src lowmask] by blast
  have "stream w' c (S @ src) b" by (rule streamI [OF d(2) _ s(3) _ s(4,5)]) (use s(2,6) assms(2) in auto)
  then show ?thesis using d(1) by blast
qed

lemma flush_ok:
  assumes "stream w c S b"
  shows "\<exists>w'. tcp_flush w c = Some w' \<and> stream w' c S True"
proof -
  obtain cl sk inp out ra wa where s: "conn w c cl sk inp out ra wa" "sk_sent sk @ out = S" "set (sk_errs sk) \<subseteq> {Eagain}"
    "\<not> has_flag (tc_flag cl) TCPFLG_CLT_CONNING" "\<not> has_flag (tc_flag cl) TCPFLG_CLT_WAITCLS"
    using assms unfolding stream_def by blast
  obtain w' where w': "io_op evt_io_start w (tc_loop_on cl) (write_ev c) = Some w'" "conn w' c cl sk inp out ra True"
    using conn_start_write [OF s(1)] by blast
  have "tcp_flush w c = Some w'" using connD(1) [OF s(1)] w'(1) by (simp add: tcp_flush_def)
  moreover have "stream w' c S True" by (rule streamI [OF w'(2) s(2,3) _ s(4,5)]) simp_all
  ultimately show ?thesis by blast
qed

lemma send_ok:
  assumes "stream w c S b"
  shows "\<exists>w' more. tcp_send al g call w c src = Some (w', int (length src)) \<and> stream w' c (S @ src @ more) b"
proof -
  obtain cl sk inp out ra wa where s: "conn w c cl sk inp out ra wa" "sk_sent sk @ out = S" "set (sk_errs sk) \<subseteq> {Eagain}"
    "\<not> has_flag (tc_flag cl) TCPFLG_CLT_CONNING" "\<not> has_flag (tc_flag cl) TCPFLG_CLT_WAITCLS" "b \<and> out \<noteq> [] \<longrightarrow> wa"
    using assms unfolding stream_def by blast
  note start = tcp_send_def connD(1) [OF s(1)] conn_used [OF s(1)]
  show ?thesis
  proof (cases "out = []")
    case False
    obtain w' where "tcp_send_delay al g w c src 0 = Some (w', int (length src))" "stream w' c (S @ src) b" using delay_ok [OF assms] by blast
    then show ?thesis using False by (intro exI [of _ w'] exI [of _ "[]"]) (simp add: start)
  next
    case True
    obtain w1 sk1 n where wr: "sock_write w (tc_fd cl) src = Some (w1, n, Eagain)" and c: "conn w1 c cl sk1 inp out ra wa"
      and sk1: "sk_sent sk1 = sk_sent sk @ (case n of None \<Rightarrow> [] | Some n \<Rightarrow> take n src)" "set (sk_errs sk1) \<subseteq> {Eagain}" and kn: "\<forall>k. n = Some k \<longrightarrow> k \<le> length src"
      using sock_write_ok [OF s(1,3), of src] by blast
    have sent: "stream w1 c (S @ (case n of None \<Rightarrow> [] | Some n \<Rightarrow> take n src)) b"
      by (rule streamI [OF c _ sk1(2) _ s(4,5)]) (use s(2,6) True sk1(1) in auto)
    note start2 = start True wr
    show ?thesis
    proof (cases n)
      case None
      obtain w' where "tcp_send_delay al g w1 c src 0 = Some (w', int (length src))" "stream w' c (S @ src) b"
        using delay_ok [OF sent] None by auto
      then show ?thesis using None by (intro exI [of _ w'] exI [of _ "[]"]) (simp add: start2)
    next
      case (Some k)
      have k: "k \<le> length src" using kn Some by blast
      show ?thesis
      proof (cases "k < length src")
        case True
        obtain w' where w': "tcp_send_delay al g w1 c (drop k src) 0 = Some (w', int (length (drop k src)))" "stream w' c ((S @ take k src) @ drop k src) b"
          using delay_ok [OF sent [unfolded Some option.case]] by blast
        then have "stream w' c (S @ src) b" by simp
        then show ?thesis using Some True w'(1) by (intro exI [of _ w'] exI [of _ "[]"]) (simp add: start2)
      next
        case False
        then have "stream w1 c (S @ src) b" using sent Some k by simp
        from user_cb_ok [OF this, of "tc_on_write cl"] obtain w' more where
          "user_cb call (tc_on_write cl) c w1 = Some w'" "stream w' c ((S @ src) @ more) b" by blast
        then show ?thesis using Some False k by (intro exI [of _ w'] exI [of _ more]) (simp add: start2)
      qed
    qed
  qed
qed

lemma writable_ok:
  assumes "stream w c S b"
  shows "\<exists>w' more. tcp_cb_write call w c = Some w' \<and> stream w' c (S @ more) b"
proof -
  obtain cl sk inp out ra wa where s: "conn w c cl sk inp out ra wa" "sk_sent sk @ out = S" "set (sk_errs sk) \<subseteq> {Eagain}"
    "\<not> has_flag (tc_flag cl) TCPFLG_CLT_CONNING" "\<not> has_flag (tc_flag cl) TCPFLG_CLT_WAITCLS" "b \<and> out \<noteq> [] \<longrightarrow> wa"
    using assms unfolding stream_def by blast
  obtain w1 sk1 wb ret n where r: "sock_send w (tc_wbuf cl) (tc_fd cl) = Some (w1, wb, ret, int n, Eagain)"
    "conn (tc_put w1 c (cl\<lparr>tc_wbuf := wb\<rparr>)) c (cl\<lparr>tc_wbuf := wb\<rparr>) sk1 inp (drop n out) ra wa"
    "sk_sent sk1 = sk_sent sk @ take n out" "set (sk_errs sk1) \<subseteq> {Eagain}" "ret = int n \<and> n = length out \<or> ret = - 1"
    using sock_send_ok [OF s(1,3)] by blast
  let ?w = "tc_put w1 c (cl\<lparr>tc_wbuf := wb\<rparr>)"
  have st: "stream ?w c S b"
    by (rule streamI [OF r(2) _ r(4) _ s(4,5)]) (use s(2,6) r(3) in auto)
  note start = tcp_cb_write_def connD(1) [OF s(1)] s(4) r(1)
  show ?thesis
  proof (cases "ret < 0")
    case True
    then have "tcp_cb_write call w c = Some ?w" by (simp add: start Let_def)
    then show ?thesis using st by (intro exI [of _ ?w] exI [of _ "[]"]) simp
  next
    case False
    obtain w2 more where u: "user_cb call (tc_on_write cl) c ?w = Some w2" "stream w2 c (S @ more) b" using user_cb_ok [OF st] by blast
    obtain cl2 sk2 inp2 out2 ra2 wa2 where s2: "conn w2 c cl2 sk2 inp2 out2 ra2 wa2" "sk_sent sk2 @ out2 = S @ more" "set (sk_errs sk2) \<subseteq> {Eagain}"
      "\<not> has_flag (tc_flag cl2) TCPFLG_CLT_CONNING" "\<not> has_flag (tc_flag cl2) TCPFLG_CLT_WAITCLS"
      using u(2) unfolding stream_def by blast
    note start2 = start u(1) connD(1) [OF s2(1)] conn_used [OF s2(1)] s2(5)
    show ?thesis
    proof (cases "out2 = []")
      case True
      obtain w3 where w3: "io_op evt_io_stop w2 (tc_loop_on cl2) (write_ev c) = Some w3" "conn w3 c cl2 sk2 inp2 out2 ra2 False"
        using conn_stop_write [OF s2(1)] by blast
      have "tcp_cb_write call w c = Some w3" using False True w3(1) by (simp add: start2 Let_def)
      moreover have "stream w3 c (S @ more) b" by (rule streamI [OF w3(2) s2(2,3) _ s2(4,5)]) (use True in simp_all)
      ultimately show ?thesis by blast
    next
      case ne: False
      have "tcp_cb_write call w c = Some w2" using False ne by (simp add: start2 Let_def)
      then show ?thesis using u(2) by blast
    qed
  qed
qed

lemma run_send_ok:
  assumes "stream w c S b" and "b \<longrightarrow> eager op"
  shows "\<exists>w' more. run_send al g call op w c = Some w' \<and> stream w' c (S @ op_data op @ more) b"
proof (cases op)
  case (Send src)
  then show ?thesis using send_ok [OF assms(1), of src] by (auto simp: run_send_def)
next
  case (SendDelay src lowmask)
  then obtain w' where "tcp_send_delay al g w c src lowmask = Some (w', int (length src))" "stream w' c (S @ src) b"
    using delay_ok [OF assms(1), of lowmask src] assms(2) by auto
  then show ?thesis using SendDelay by (intro exI [of _ w'] exI [of _ "[]"]) (simp add: run_send_def)
next
  case Flush
  then obtain w' where "tcp_flush w c = Some w'" "stream w' c S True" using flush_ok [OF assms(1)] by blast
  moreover from this(2) have "stream w' c S b" unfolding stream_def by blast
  ultimately show ?thesis using Flush by (intro exI [of _ w'] exI [of _ "[]"]) (simp add: run_send_def)
next
  case Writable
  then show ?thesis using writable_ok [OF assms(1)] by (auto simp: run_send_def)
qed

lemma run_sends_ok:
  assumes "stream w c S b" and "b \<longrightarrow> (\<forall>op\<in>set ops. eager op)"
  shows "\<exists>w' xs. run_sends al g call ops w c = Some w' \<and> stream w' c (S @ xs) b \<and> subseq (concat (map op_data ops)) xs"
  using assms
proof (induction ops arbitrary: w S)
  case Nil
  then show ?case by (intro exI [of _ w] exI [of _ "[]"]) simp
next
  case (Cons op ops)
  obtain w1 more where w1: "run_send al g call op w c = Some w1" "stream w1 c (S @ op_data op @ more) b"
    using run_send_ok [OF Cons.prems(1), of op] Cons.prems(2) by auto
  obtain w2 xs where w2: "run_sends al g call ops w1 c = Some w2" "stream w2 c ((S @ op_data op @ more) @ xs) b" "subseq (concat (map op_data ops)) xs"
    using Cons.IH [OF w1(2)] Cons.prems(2) by auto
  have "subseq (op_data op @ concat (map op_data ops)) (op_data op @ more @ xs)"
    using w2(3) by (intro list_emb_append_mono subseq_order.order_refl list_emb_append2)
  then show ?case using w1(1) w2(1,2) by (intro exI [of _ w2] exI [of _ "op_data op @ more @ xs"]) simp
qed

end

text \<open>Callbacks that queue data, chosen from the state.\<close>

primrec queue_all :: "allocator \<Rightarrow> (nat \<Rightarrow> byte) \<Rightarrow> byte list list \<Rightarrow> process \<Rightarrow> addr \<Rightarrow> process option" where
  "queue_all al g [] w c = Some w"
| "queue_all al g (src # srcs) w c = do { (w, n) \<leftarrow> tcp_send_delay al g w c src 0; queue_all al g srcs w c }"

definition queue_prog :: "allocator \<Rightarrow> (nat \<Rightarrow> byte) \<Rightarrow> (nat \<Rightarrow> process \<Rightarrow> byte list list) \<Rightarrow> tcp_cb" where
  "queue_prog al g prog cb c w = queue_all al g (prog cb w) w c"

lemma queue_all_ok:
  assumes al: "good_alloc al" and "stream w c S b"
  shows "\<exists>w' more. queue_all al g srcs w c = Some w' \<and> stream w' c (S @ more) b"
  using assms(2)
proof (induction srcs arbitrary: w S)
  case Nil
  then show ?case by (intro exI [of _ w] exI [of _ "[]"]) simp
next
  case (Cons src srcs)
  obtain cl sk inp out ra wa where s: "conn w c cl sk inp out ra wa" "sk_sent sk @ out = S" "set (sk_errs sk) \<subseteq> {Eagain}"
    "\<not> has_flag (tc_flag cl) TCPFLG_CLT_CONNING" "\<not> has_flag (tc_flag cl) TCPFLG_CLT_WAITCLS" "b \<and> out \<noteq> [] \<longrightarrow> wa"
    using Cons.prems unfolding stream_def by blast
  obtain w1 wb where d: "tcp_send_delay al g w c src 0 = Some (w1, int (length src))"
    "conn w1 c (cl\<lparr>tc_wbuf := wb\<rparr>) sk inp (out @ src) ra (wa \<or> 0 \<le> (0 :: int) \<and> 0 < int (length (out @ src)))"
    using send_delay_ok [OF al s(1), of g src 0] by blast
  have "stream w1 c (S @ src) b" by (rule streamI [OF d(2) _ s(3) _ s(4,5)]) (use s(2,6) in auto)
  from Cons.IH [OF this] obtain w' more where "queue_all al g srcs w1 c = Some w'" "stream w' c ((S @ src) @ more) b" by blast
  then show ?case using d(1) by (intro exI [of _ w'] exI [of _ "src @ more"]) simp
qed

interpretation queueing: stream_callbacks next_addr g "queue_prog next_addr g prog" for g prog
  by unfold_locales (use next_addr_good queue_all_ok [OF next_addr_good] in \<open>simp_all add: queue_prog_def\<close>)

end
