(* ===== verification/TcpConn.thy ===== *)
theory TcpConn
  imports TcpStream
begin

text \<open>
  The life of a connection: what its creation, its connecting and its closing need, each a total statement over the
  state of a connection of theory \<open>TcpStream\<close>.
\<close>

section \<open>Destroying a buffer\<close>

lemma destroy_loop:
  assumes "bseg (ob_units b) p ps" and "distinct ps"
  shows "\<exists>b' q. while_c (\<lambda>(b, p). Some (p \<noteq> NULL)) (\<lambda>(b, p). do { u \<leftarrow> buf_unit b p; b \<leftarrow> buf_remove_unit b p; Some (b, bu_next u) }) (b, p) = Some (b', q)"
  using assms
proof (induction ps arbitrary: b p)
  case Nil
  then show ?case by (simp add: while_c_stop)
next
  case (Cons x ps)
  obtain u where u: "p = x" "p \<noteq> NULL" "ob_units b p = Some u" "bseg (ob_units b) (bu_next u) ps" using Cons.prems(1) by auto
  let ?b = "b\<lparr>ob_units := (ob_units b)(p := None), ob_unit_cnt := ob_unit_cnt b - 1\<rparr>"
  have "bseg (ob_units ?b) (bu_next u) ps" "distinct ps" using u(1,4) Cons.prems(2) by (simp_all add: bseg_frame)
  note ih = Cons.IH [OF this]
  show ?case by (subst while_c_step [where s' = "(?b, bu_next u)"], use u ih in \<open>simp_all only: buf_unit_def buf_remove_unit_def prod.case\<close>) simp_all
qed

lemma buf_destroy_ok: "buf_ok b xs \<Longrightarrow> \<exists>b'. buf_destroy b = Some b'"
  using destroy_loop [of b "ob_head b"] by (fastforce simp: buf_destroy_def buf_ok_def buf_rep_def)

section \<open>New events\<close>

text \<open>The memory of a new event is in no list and in no queue of the loop.\<close>

definition ev_fresh :: "evt_loop \<Rightarrow> addr \<Rightarrow> bool" where
  "ev_fresh loop e \<longleftrightarrow> (\<exists>Q. io_loop loop Q \<and> (\<forall>l. e \<notin> set (Q l))) \<and> pendpos_of loop e = 0 \<and> e \<noteq> lp_empty_ev loop \<and> e \<noteq> NULL"

definition with_event :: "evt_loop \<Rightarrow> addr \<Rightarrow> event \<Rightarrow> evt_loop" where
  "with_event loop e ev = loop\<lparr>lp_evs := (lp_evs loop)(e \<mapsto> ev), lp_next := (lp_next loop)(e \<mapsto> NULL)\<rparr>"

lemma with_event_simps [simp]:
  "lp_evs (with_event loop e ev) = (lp_evs loop)(e \<mapsto> ev)" "lp_next (with_event loop e ev) = (lp_next loop)(e \<mapsto> NULL)"
  "lp_fds (with_event loop e ev) = lp_fds loop" "lp_empty_ev (with_event loop e ev) = lp_empty_ev loop"
  "wrong_thread (with_event loop e ev) = wrong_thread loop"
  by (simp_all add: with_event_def wrong_thread_def)

lemma with_event_pend:
  assumes "pendpos_of loop e = 0" "ev_pendpos ev = 0" "e \<noteq> lp_empty_ev loop"
  shows "pend_same loop (with_event loop e ev)"
proof -
  have g: "ev_get (with_event loop e ev) x = (if x = e \<and> e \<noteq> NULL then Some ev else ev_get loop x)" for x by (simp add: ev_get_def)
  have "pendpos_of (with_event loop e ev) = pendpos_of loop" using assms(1,2) by (auto simp: pendpos_of_def g fun_eq_iff)
  moreover have "pendpos_of loop x \<noteq> 0 \<longrightarrow> prio_of (with_event loop e ev) x = prio_of loop x" for x
    using assms(1) by (auto simp: prio_of_def g)
  moreover have "pend_shape loop \<longrightarrow> pend_shape (with_event loop e ev)" using assms(3) by (simp add: pend_shape_def g) (simp add: with_event_def)
  ultimately show ?thesis by (simp add: pend_same_def) (simp add: with_event_def)
qed

lemma with_event_lists:
  assumes inv: "fd_inv loop Q" and new: "\<And>l. e \<notin> set (Q l)"
  shows "fd_inv (with_event loop e ev) Q"
proof -
  let ?l = "with_event loop e ev"
  have h: "list_head ?l = list_head loop" by (rule list_head_eqI) (simp_all add: with_event_def)
  have mask: "mask_of ?l (Q l) = mask_of loop (Q l)" for l by (rule mask_of_cong) (use new in auto)
  have nx: "lseg ((lp_next loop)(e \<mapsto> NULL)) p (Q l) = lseg (lp_next loop) p (Q l)" for p l using new by (simp add: lseg_frame)
  have L: "lists_ok (lp_next loop) (list_head loop) Q" "\<And>x l. x \<in> set (Q l) \<Longrightarrow> x \<noteq> NULL \<and> lp_evs loop x \<noteq> None"
    using inv by (simp_all only: fd_inv_def lists_inv_def) blast+
  have "lists_ok (lp_next ?l) (list_head ?l) Q" using L(1) unfolding h by (simp add: lists_ok_def nx)
  then have "lists_inv ?l Q" unfolding lists_inv_def using L(2) by auto
  moreover have "changes_ok ?l" using inv by (simp add: fd_inv_def changes_ok_def flagged_def) (simp add: with_event_def)
  moreover have "masks_ok ?l Q" using inv by (simp add: fd_inv_def masks_ok_def flagged_def mask)
  moreover have "watch_ok ?l" using inv by (simp add: fd_inv_def watch_ok_def with_event_def split: option.splits)
  ultimately show ?thesis by (simp add: fd_inv_def)
qed

lemma with_event_loop:
  assumes "io_loop loop Q" "\<And>l. e \<notin> set (Q l)" "pendpos_of loop e = 0" "ev_pendpos ev = 0" "e \<noteq> lp_empty_ev loop"
  shows "io_loop (with_event loop e ev) Q"
  using assms(1) with_event_lists [OF _ assms(2)] pend_same_inv [OF with_event_pend [OF assms(3-5)]] unfolding io_loop_def by fastforce

text \<open>Then it is ready, and the other events stay as they are.\<close>

lemma with_event_ready:
  assumes new: "ev_fresh loop e" and ev: "ev_active ev = 0" "ev_pendpos ev = 0" and fd: "ev_fd ev < length (lp_fds loop)"
  shows "io_ready (with_event loop e ev) e (ev_fd ev) (ev_event ev) False"
    and "e' \<noteq> e \<Longrightarrow> ev_fresh loop e' \<Longrightarrow> ev_fresh (with_event loop e ev) e'"
    and "e' \<noteq> e \<Longrightarrow> io_ready loop e' fd' m' a' \<Longrightarrow> io_ready (with_event loop e ev) e' fd' m' a'"
proof -
  let ?l = "with_event loop e ev"
  obtain Q where Q: "io_loop loop Q" "\<And>l. e \<notin> set (Q l)" "pendpos_of loop e = 0" "e \<noteq> lp_empty_ev loop" "e \<noteq> NULL" using new unfolding ev_fresh_def by blast
  have l: "io_loop ?l Q" by (rule with_event_loop [OF Q(1,2,3) ev(2) Q(4)])
  have "io_event ?l Q e (ev_fd ev) (ev_event ev) False" using Q(2,5) ev(1) by (simp add: io_event_def ev_get_def)
  then show "io_ready ?l e (ev_fd ev) (ev_event ev) False" using l fd unfolding io_ready_def by auto
  have eq: "Q' = Q" if "io_loop loop Q'" for Q' using that Q(1) fd_inv_unique unfolding io_loop_def by blast
  show "ev_fresh ?l e'" if ne: "e' \<noteq> e" and fr: "ev_fresh loop e'"
  proof -
    have "pendpos_of ?l e' = pendpos_of loop e'" using ne by (simp add: pendpos_of_def ev_get_def)
    moreover obtain Q' where "io_loop loop Q'" "\<forall>l. e' \<notin> set (Q' l)" "pendpos_of loop e' = 0" "e' \<noteq> lp_empty_ev loop" "e' \<noteq> NULL"
      using fr unfolding ev_fresh_def by blast
    ultimately show ?thesis using l eq unfolding ev_fresh_def by auto
  qed
  show "io_ready ?l e' fd' m' a'" if "e' \<noteq> e" "io_ready loop e' fd' m' a'"
  proof -
    have old: "io_event loop Q e' fd' m' a'" "fd' < length (lp_fds loop)" using that(2) eq unfolding io_ready_def by blast+
    have "ev_get ?l e' = ev_get loop e'" using that(1) by (simp add: ev_get_def)
    then have "io_event ?l Q e' fd' m' a'" using old(1) unfolding io_event_def by simp
    then show ?thesis using l old(2) unfolding io_ready_def by auto
  qed
qed

section \<open>New connections\<close>

text \<open>The events inside a new connection in a loop that knows the descriptor.\<close>

definition conn_fresh :: "process \<Rightarrow> nat \<Rightarrow> nat \<Rightarrow> addr \<Rightarrow> bool" where
  "conn_fresh w l fd c \<longleftrightarrow> c \<noteq> NULL \<and> l < length (w_loops w) \<and> ev_fresh (w_loops w ! l) (read_ev c) \<and> ev_fresh (w_loops w ! l) (write_ev c) \<and>
     fd < length (lp_fds (w_loops w ! l))"

lemma io_init_with: "l < length (w_loops w) \<Longrightarrow> io_init w l e cb fd msk d =
    Some (w\<lparr>w_loops := (w_loops w)[l := with_event (w_loops w ! l) e (evt_set_data (evt_io_init zero_event cb fd msk) d)]\<rparr>)"
  by (simp add: io_init_def with_event_def Let_def)

lemma conn_init:
  assumes new: "conn_fresh w (tc_loop_on cl) (tc_fd cl) c" and cl: "w_clients w c = Some cl" "w_socks w (tc_fd cl) = Some sk"
    and buf: "buf_ok (tc_rbuf cl) inp" "buf_ok (tc_wbuf cl) out"
  shows "\<exists>w1 w2. io_init w (tc_loop_on cl) (read_ev c) TCP_CB_READ (tc_fd cl) EVT_READ c = Some w1 \<and>
    io_init w1 (tc_loop_on cl) (write_ev c) TCP_CB_WRITE (tc_fd cl) EVT_WRITE c = Some w2 \<and> conn w2 c cl sk inp out False False \<and>
    w_clients w2 = w_clients w \<and> w_socks w2 = w_socks w \<and> w_servers w2 = w_servers w"
proof -
  let ?l = "tc_loop_on cl" and ?fd = "tc_fd cl"
  let ?r = "evt_set_data (evt_io_init zero_event TCP_CB_READ ?fd EVT_READ) c" and ?e = "evt_set_data (evt_io_init zero_event TCP_CB_WRITE ?fd EVT_WRITE) c"
  let ?l1 = "with_event (w_loops w ! ?l) (read_ev c) ?r" let ?l2 = "with_event ?l1 (write_ev c) ?e"
  have N: "?l < length (w_loops w)" "ev_fresh (w_loops w ! ?l) (read_ev c)" "ev_fresh (w_loops w ! ?l) (write_ev c)" "c \<noteq> NULL"
    "?fd < length (lp_fds (w_loops w ! ?l))" using new by (simp_all add: conn_fresh_def)
  have ne: "write_ev c \<noteq> read_ev c" by (simp add: read_ev_def write_ev_def)
  have ev: "ev_active ?r = 0" "ev_pendpos ?r = 0" "ev_fd ?r = ?fd" "ev_event ?r = EVT_READ"
    "ev_active ?e = 0" "ev_pendpos ?e = 0" "ev_fd ?e = ?fd" "ev_event ?e = EVT_WRITE"
    by (simp_all add: evt_set_data_def evt_io_init_def evt_base_init_def zero_event_def)
  have r1: "io_ready ?l1 (read_ev c) ?fd EVT_READ False"
    using with_event_ready(1) [OF N(2) ev(1,2)] N(5) unfolding ev by simp
  have f1: "ev_fresh ?l1 (write_ev c)" by (rule with_event_ready(2) [OF N(2) ev(1,2) _ ne N(3)]) (simp add: ev N(5))
  have fd1: "ev_fd ?e < length (lp_fds ?l1)" using N(5) ev(7) by simp
  have "io_ready ?l2 (write_ev c) ?fd EVT_WRITE False"
    using with_event_ready(1) [OF f1 ev(5,6) fd1] unfolding ev .
  moreover have "io_ready ?l2 (read_ev c) ?fd EVT_READ False"
    by (rule with_event_ready(3) [OF f1 ev(5,6) fd1 _ r1]) (use ne in simp)
  ultimately have rw: "rw_ready ?l2 (read_ev c) (write_ev c) ?fd False False" using ne by (auto simp: rw_ready_def)
  let ?w1 = "w\<lparr>w_loops := (w_loops w)[?l := ?l1]\<rparr>" let ?w2 = "w\<lparr>w_loops := (w_loops w)[?l := ?l2]\<rparr>"
  have "io_init w ?l (read_ev c) TCP_CB_READ ?fd EVT_READ c = Some ?w1" using N(1) by (simp add: io_init_with)
  moreover have "io_init ?w1 ?l (write_ev c) TCP_CB_WRITE ?fd EVT_WRITE c = Some ?w2" using N(1) by (simp add: io_init_with)
  moreover have "conn ?w2 c cl sk inp out False False" using N(1,4) cl buf rw by (simp add: conn_def)
  ultimately show ?thesis by (intro exI [of _ ?w1] exI [of _ ?w2]) simp
qed

text \<open>A connection is started in the thread of its loop.\<close>

lemma conn_start_in_loop:
  assumes "conn w c cl sk inp out ra wa"
  shows "\<exists>w'. io_op (\<lambda>loop. start_in_loop loop aev) w (tc_loop_on cl) (read_ev c) = Some w' \<and> conn w' c cl sk inp out True wa \<and>
    w_clients w' = w_clients w \<and> w_socks w' = w_socks w \<and> w_servers w' = w_servers w"
proof (rule conn_op [OF assms])
  show "\<exists>loop'. start_in_loop loop aev (read_ev c) = Some loop' \<and> ios.both loop' (read_ev c) (write_ev c) (tc_fd cl) True wa"
    if b: "ios.both loop (read_ev c) (write_ev c) (tc_fd cl) ra wa" for loop
  proof -
    have "io_ready loop (read_ev c) (tc_fd cl) EVT_READ ra" using b unfolding rw_ready_both [symmetric] rw_ready_def by blast
    then have "\<not> wrong_thread loop" by (auto simp: io_ready_def io_loop_def)
    then have "start_in_loop loop aev (read_ev c) = evt_io_start loop (read_ev c)" by (auto simp: start_in_loop_def wrong_thread_def)
    then show ?thesis using ios.both_start_read [OF b] by simp
  qed
qed

lemma buf_init_ok: "buf_ok (buf_init OHBUFFER_UNIT_DEFAULT_SIZE) []"
  by (rule buf_rep_init) (simp add: OHBUFFER_UNIT_DEFAULT_SIZE_def)

lemma accepted_simps [simp]:
  "tc_fd (accepted s srv fd on) = fd" "tc_loop_on (accepted s srv fd on) = on" "tc_peer (accepted s srv fd on) = s"
  "tc_on_close (accepted s srv fd on) = ts_on_close srv" "tc_on_write (accepted s srv fd on) = ts_on_write srv"
  "tc_on_read (accepted s srv fd on) = ts_on_read srv" "buf_ok (tc_rbuf (accepted s srv fd on)) []" "buf_ok (tc_wbuf (accepted s srv fd on)) []"
  by (simp_all add: accepted_def buf_init_ok)

lemma accept_start_ok:
  assumes new: "conn_fresh w on fd c" and sk: "w_socks w fd = Some sk" and s: "ts_get w s = Some srv'" and "ts_on_accept srv' = 0"
  shows "\<exists>w'. accept_start call w s srv c fd on aev = Some w' \<and> conn w' c (accepted s srv fd on) sk [] [] True False \<and>
    w_clients w' = (w_clients w)(c \<mapsto> accepted s srv fd on) \<and> w_socks w' = w_socks w \<and>
    w_servers w' = (w_servers w)(s \<mapsto> srv'\<lparr>ts_conn_cnt := ts_conn_cnt srv' + 1\<rparr>)"
proof -
  let ?cl = "accepted s srv fd on" let ?w = "tc_put w c ?cl"
  have f: "conn_fresh ?w (tc_loop_on ?cl) (tc_fd ?cl) c" using new by (simp add: conn_fresh_def tc_put_def)
  have p: "w_clients ?w c = Some ?cl" "w_socks ?w (tc_fd ?cl) = Some sk" using sk by (simp_all add: tc_put_def)
  obtain w1 w2 where I: "io_init ?w on (read_ev c) TCP_CB_READ fd EVT_READ c = Some w1" "io_init w1 on (write_ev c) TCP_CB_WRITE fd EVT_WRITE c = Some w2"
    "conn w2 c ?cl sk [] [] False False" "w_clients w2 = w_clients ?w" "w_socks w2 = w_socks ?w" "w_servers w2 = w_servers ?w"
    using conn_init [OF f p accepted_simps(7,8)] unfolding accepted_simps by blast
  obtain w3 where S: "io_op (\<lambda>loop. start_in_loop loop aev) w2 on (read_ev c) = Some w3" "conn w3 c ?cl sk [] [] True False"
    "w_clients w3 = w_clients w2" "w_socks w3 = w_socks w2" "w_servers w3 = w_servers w2"
    using conn_start_in_loop [OF I(3), of aev] unfolding accepted_simps by blast
  have "ts_get w3 s = ts_get w s" unfolding ts_get_def S(5) I(6) by (simp add: tc_put_def)
  then have g: "ts_get w3 s = Some srv'" using s by simp
  let ?w' = "ts_put w3 s (srv'\<lparr>ts_conn_cnt := ts_conn_cnt srv' + 1\<rparr>)"
  have "accept_start call w s srv c fd on aev = Some ?w'" using I(1,2) S(1) g assms(4) by (simp add: accept_start_def user_cb_def Let_def)
  moreover have "conn ?w' c ?cl sk [] [] True False" using S(2) by (simp add: conn_def ts_put_def)
  ultimately show ?thesis using I(4-6) S(3-5) by (intro exI [of _ ?w']) (simp add: ts_put_def tc_put_def)
qed

text \<open>A new object of the pool is one of its blocks or of the new block.\<close>

lemma get_obj_place:
  assumes "objpool_get_obj opool lock blk data m = Some (opool', p)" and "pool_ok opool' (p # used)"
  shows "p \<in> set (pool_objs opool) \<union> set (blk_objs opool data)"
proof -
  have "mset (p # used) \<subseteq># mset (pool_objs opool')" using assms(2) unfolding pool_ok_def by (metis mset_append mset_subset_eq_add_left)
  then have "p \<in> set (pool_objs opool')" by (metis insert_subset list.simps(15) mset_subset_eqD set_mset_mset subsetI)
  moreover have "op_objsize opool' = op_objsize opool \<and> op_blksize opool' = op_blksize opool \<and>
      (op_blks opool' = op_blks opool \<or> op_blks opool' = (blk, data) # op_blks opool)"
    using assms(1) by (auto simp: objpool_get_obj_def objpool_get_obj_nolock_def bind_eq_Some_conv Let_def split: if_splits)
  then have "pool_objs opool' = pool_objs opool \<or> pool_objs opool' = blk_objs opool data @ pool_objs opool"
    unfolding pool_objs_def blk_objs_def by auto
  ultimately show ?thesis by auto
qed

section \<open>Connecting\<close>

definition connecting :: "tcp_client \<Rightarrow> bool" where "connecting cl = has_flag (tc_flag cl) TCPFLG_CLT_CONNING"
definition connected :: "tcp_client \<Rightarrow> bool" where "connected cl = has_flag (tc_flag cl) TCPFLG_CLT_CONNED"

text \<open>Flags are bits.\<close>

lemma has_flag_bit: "has_flag f (2 ^ n) \<longleftrightarrow> bit f n"
  by (simp add: has_flag_def and_exp_eq_0_iff_not_bit)

lemma flag_exp:
  "TCPFLG_IS_CLIENT = 2 ^ 1" "TCPFLG_CLT_PASV = 2 ^ 2" "TCPFLG_CLT_PORT = 2 ^ 3" "TCPFLG_CLT_CONNING = 2 ^ 4" "TCPFLG_CLT_CONNED = 2 ^ 5"
  "TCPFLG_CLT_CONNFAIL = 2 ^ 6" "TCPFLG_CLT_WAITCLS = 2 ^ 7"
  by (simp_all add: TCPFLG_IS_CLIENT_def TCPFLG_CLT_PASV_def TCPFLG_CLT_PORT_def TCPFLG_CLT_CONNING_def TCPFLG_CLT_CONNED_def
    TCPFLG_CLT_CONNFAIL_def TCPFLG_CLT_WAITCLS_def)

lemmas flag_bits = has_flag_bit flag_exp bit_or_iff bit_and_iff bit_not_iff bit_exp_iff

lemma connect_flags:
  "connecting (cl\<lparr>tc_flag := tc_flag cl OR TCPFLG_CLT_CONNING\<rparr>)"
  "connected (cl\<lparr>tc_flag := tc_flag cl OR TCPFLG_CLT_CONNING\<rparr>) = connected cl"
  "has_flag (tc_flag cl) (TCPFLG_CLT_CONNING OR TCPFLG_CLT_CONNED) = (connecting cl \<or> connected cl)"
proof -
  show "connecting (cl\<lparr>tc_flag := tc_flag cl OR TCPFLG_CLT_CONNING\<rparr>)" "connected (cl\<lparr>tc_flag := tc_flag cl OR TCPFLG_CLT_CONNING\<rparr>) = connected cl"
    unfolding connecting_def connected_def flag_bits by (simp_all add: flag_bits)
  have "a AND (b OR c) = 0 \<longleftrightarrow> a AND b = 0 \<and> a AND c = 0" for a b c :: "32 word" by (auto simp: bit_eq_iff bit_simps)
  then show "has_flag (tc_flag cl) (TCPFLG_CLT_CONNING OR TCPFLG_CLT_CONNED) = (connecting cl \<or> connected cl)"
    by (simp add: connecting_def connected_def has_flag_def)
qed

definition flag_made :: "bool \<Rightarrow> tcp_client \<Rightarrow> tcp_client" where
  "flag_made ok cl = cl\<lparr>tc_flag := (tc_flag cl AND NOT TCPFLG_CLT_CONNING) OR (if ok then TCPFLG_CLT_CONNED else TCPFLG_CLT_CONNFAIL)\<rparr>"

lemma connected_flags: "\<not> connecting (flag_made ok cl)" "connected (flag_made ok cl) = (ok \<or> connected cl)"
proof -
  have t: "tc_flag (flag_made True cl) = (tc_flag cl AND NOT TCPFLG_CLT_CONNING) OR TCPFLG_CLT_CONNED"
    "tc_flag (flag_made False cl) = (tc_flag cl AND NOT TCPFLG_CLT_CONNING) OR TCPFLG_CLT_CONNFAIL" by (simp_all add: flag_made_def)
  have "\<not> connecting (flag_made True cl)" "\<not> connecting (flag_made False cl)" "connected (flag_made True cl)"
    "connected (flag_made False cl) = connected cl"
    unfolding connecting_def connected_def t flag_bits by simp_all
  then show "\<not> connecting (flag_made ok cl)" "connected (flag_made ok cl) = (ok \<or> connected cl)" by (cases ok; simp)+
qed

lemma connect_ok:
  assumes c: "conn w c cl sk inp out ra wa"
  shows "\<exists>w' r cl' sk' wa'. tcp_connect w c = Some (w', r) \<and> conn w' c cl' sk' inp out ra wa' \<and> sk_soerr sk' = sk_soerr sk \<and>
    (if connecting cl \<or> connected cl then r = - 1 \<and> w' = w \<and> cl' = cl \<and> wa' = wa
     else if fst (retry_eintr (sk_connect sk)) \<noteq> None \<or> fst (take_err (sk_errs sk)) = Einprogress then
       r = 0 \<and> wa' \<and> cl' = cl\<lparr>tc_flag := tc_flag cl OR TCPFLG_CLT_CONNING\<rparr>
     else r = - 1 \<and> cl' = cl \<and> wa' = wa)"
proof (cases "connecting cl \<or> connected cl")
  case True
  then have "tcp_connect w c = Some (w, - 1)" using connD(1) [OF c] by (simp add: tcp_connect_def connect_flags(3))
  then show ?thesis using c True by (intro exI [of _ w] exI [of _ "- 1"] exI [of _ cl] exI [of _ sk] exI [of _ wa]) simp
next
  case False
  obtain cr rs where cr: "retry_eintr (sk_connect sk) = (cr, rs)" by fastforce
  let ?e = "if cr = None then take_err (sk_errs sk) else (Eagain, sk_errs sk)"
  let ?sk = "Sock (sk_in sk) (sk_out sk) (snd ?e) (sk_soerr sk) rs (sk_accept sk) (sk_sent sk)"
  let ?w = "sk_put w (tc_fd cl) ?sk" let ?cl = "cl\<lparr>tc_flag := tc_flag cl OR TCPFLG_CLT_CONNING\<rparr>"
  note start = tcp_connect_def connD(1,2) [OF c] connect_flags(3) False cr
  note s = conn_sock [OF c, of ?sk]
  show ?thesis
  proof (cases "cr \<noteq> None \<or> fst ?e = Einprogress")
    case True
    have p: "conn (tc_put ?w c ?cl) c ?cl ?sk inp out ra wa" by (rule conn_put [OF s]) (use connD(3,4) [OF c] in simp_all)
    obtain w' where w': "io_op evt_io_start (tc_put ?w c ?cl) (tc_loop_on cl) (write_ev c) = Some w'" "conn w' c ?cl ?sk inp out ra True"
      using conn_start_write [OF p] by auto
    have "tcp_connect w c = Some (w', 0)" using True w'(1) by (auto simp: start Let_def case_prod_beta)
    moreover have "fst (retry_eintr (sk_connect sk)) \<noteq> None \<or> fst (take_err (sk_errs sk)) = Einprogress" using True cr by (cases cr) auto
    ultimately show ?thesis using w'(2) False by (intro exI [of _ w'] exI [of _ 0] exI [of _ ?cl] exI [of _ ?sk] exI [of _ True]) simp
  next
    case fail: False
    then have "tcp_connect w c = Some (?w, - 1)" by (auto simp: start Let_def case_prod_beta)
    moreover have "\<not> (fst (retry_eintr (sk_connect sk)) \<noteq> None \<or> fst (take_err (sk_errs sk)) = Einprogress)" using fail cr by (cases cr) auto
    ultimately show ?thesis using s False by (intro exI [of _ ?w] exI [of _ "- 1"] exI [of _ cl] exI [of _ ?sk] exI [of _ wa]) simp
  qed
qed

definition sock_answer :: "sock \<Rightarrow> sock_err option" where
  "sock_answer sk = (case sk_soerr sk of [] \<Rightarrow> None | e # es \<Rightarrow> e)"

lemma connected_ok:
  assumes c: "conn w c cl sk inp out ra wa" and cb: "tc_on_connect cl = 0"
  shows "\<exists>w' sk'. tcp_cb_connected call w c = Some w' \<and>
    (if sock_answer sk = Some Einprogress then conn w' c cl sk' inp out ra wa
     else conn w' c (flag_made (sock_answer sk = None) cl) sk' inp out (ra \<or> sock_answer sk = None) (wa \<and> sock_answer sk = None \<and> out \<noteq> []))"
proof -
  let ?e = "sock_answer sk" let ?sk = "Sock (sk_in sk) (sk_out sk) (sk_errs sk) (tl (sk_soerr sk)) (sk_connect sk) (sk_accept sk) (sk_sent sk)"
  let ?w1 = "sk_put w (tc_fd cl) ?sk" let ?cl = "flag_made (?e = None) cl"
  have e: "sock_error w (tc_fd cl) = Some (?w1, ?e)" using connD(2) [OF c] by (simp add: sock_error_def sock_answer_def split: list.splits)
  note c1 = conn_sock [OF c, of ?sk]
  note start = tcp_cb_connected_def connD(1) [OF c] e
  show ?thesis
  proof (cases "?e = Some Einprogress")
    case True
    then show ?thesis using c1 by (intro exI [of _ ?w1] exI [of _ ?sk]) (simp add: start)
  next
    case False
    let ?stop = "?e \<noteq> None \<or> out = []"
    have used: "(if ?e \<noteq> None then Some 0 else buf_used (tc_wbuf cl)) = Some (if ?e \<noteq> None then 0 else int (length out))"
      using conn_used [OF c] by simp
    obtain w2 where w2: "(if ?stop then io_op evt_io_stop ?w1 (tc_loop_on cl) (write_ev c) else Some ?w1) = Some w2"
        "conn w2 c cl ?sk inp out ra (wa \<and> ?e = None \<and> out \<noteq> [])"
      using conn_stop_write [OF c1] c1 by (cases ?stop) auto
    have p: "conn (tc_put w2 c ?cl) c ?cl ?sk inp out ra (wa \<and> ?e = None \<and> out \<noteq> [])"
      by (rule conn_put [OF w2(2)]) (use connD(3,4) [OF c] in \<open>simp_all add: flag_made_def\<close>)
    have l: "tc_loop_on ?cl = tc_loop_on cl" by (simp add: flag_made_def)
    obtain w3 where w3: "(if ?e = None then io_op evt_io_start (tc_put w2 c ?cl) (tc_loop_on cl) (read_ev c) else Some (tc_put w2 c ?cl)) = Some w3"
        "conn w3 c ?cl ?sk inp out (ra \<or> ?e = None) (wa \<and> ?e = None \<and> out \<noteq> [])"
      using conn_start_read [OF p] p unfolding l by (cases "?e = None") auto
    have "?e \<noteq> None \<or> (if ?e \<noteq> None then 0 else int (length out)) = 0 \<longleftrightarrow> ?stop" by auto
    moreover have "cl\<lparr>tc_flag := (tc_flag cl AND NOT TCPFLG_CLT_CONNING) OR (if ?e \<noteq> None then TCPFLG_CLT_CONNFAIL else TCPFLG_CLT_CONNED)\<rparr> = ?cl"
      by (simp add: flag_made_def)
    ultimately have "tcp_cb_connected call w c = Some w3" using False w2(1) w3(1) cb unfolding start
      by (simp only: e Option.bind.bind_lunit prod.case used Let_def user_cb_def if_False not_True_eq_False not_False_eq_True refl)
    then show ?thesis using False w3(2) by (intro exI [of _ w3] exI [of _ ?sk]) simp
  qed
qed

text \<open>A new client.\<close>

lemma client_init_ok:
  assumes new: "conn_fresh w loop (nat fd) c" and "0 \<le> fd"
  shows "\<exists>w' cl. tcp_client_init w c loop fd sk = Some (w', 0) \<and> conn w' c cl sk [] [] False False \<and> tc_fd cl = nat fd \<and> tc_loop_on cl = loop \<and>
    tc_on_connect cl = 0 \<and> \<not> connecting cl \<and> \<not> connected cl"
proof -
  let ?cl = "\<lparr>tc_flag = TCPFLG_CLT_PORT OR TCPFLG_IS_CLIENT, tc_fd = nat fd, tc_loop_on = loop, tc_data = NULL, tc_on_read = 0, tc_on_write = 0,
    tc_on_close = 0, tc_on_connect = 0, tc_peer = NULL, tc_rbuf = buf_init OHBUFFER_UNIT_DEFAULT_SIZE, tc_wbuf = buf_init OHBUFFER_UNIT_DEFAULT_SIZE\<rparr>"
  let ?w = "tc_put (sk_put w (nat fd) sk) c ?cl"
  have f: "conn_fresh ?w (tc_loop_on ?cl) (tc_fd ?cl) c" using new by (simp add: conn_fresh_def tc_put_def sk_put_def)
  have p: "w_clients ?w c = Some ?cl" "w_socks ?w (tc_fd ?cl) = Some sk" "buf_ok (tc_rbuf ?cl) []" "buf_ok (tc_wbuf ?cl) []"
    by (simp_all add: tc_put_def sk_put_def buf_init_ok)
  have l: "tc_loop_on ?cl = loop" "tc_fd ?cl = nat fd" by simp_all
  obtain w1 w2 where I: "io_init ?w loop (read_ev c) TCP_CB_READ (nat fd) EVT_READ c = Some w1"
    "io_init w1 loop (write_ev c) TCP_CB_WRITE (nat fd) EVT_WRITE c = Some w2" "conn w2 c ?cl sk [] [] False False"
    using conn_init [OF f p] unfolding l by blast
  have "c \<noteq> NULL" using new by (simp add: conn_fresh_def)
  then have "tcp_client_init w c loop fd sk = Some (w2, 0)" using I(1,2) assms(2) by (simp add: tcp_client_init_def Let_def)
  moreover have "\<not> connecting ?cl" "\<not> connected ?cl" unfolding connecting_def connected_def tcp_client.simps flag_bits by simp_all
  ultimately show ?thesis using I(3) by (intro exI [of _ w2] exI [of _ ?cl]) simp
qed

section \<open>Closing\<close>

lemma io_op_same: "io_op f w l e = Some w' \<Longrightarrow> w_clients w' = w_clients w \<and> w_servers w' = w_servers w \<and> w_socks w' = w_socks w"
  by (auto simp: io_op_def bind_eq_Some_conv split: if_splits)

lemma tc_get_Some: "tc_get w c = Some cl \<longleftrightarrow> c \<noteq> NULL \<and> w_clients w c = Some cl"
  by (simp add: tc_get_def)

lemma ts_get_Some: "ts_get w s = Some srv \<longleftrightarrow> s \<noteq> NULL \<and> w_servers w s = Some srv"
  by (simp add: ts_get_def)

lemma cb_close_ok:
  assumes c: "conn w c cl sk inp out ra wa" and cb: "tc_on_close cl = 0"
    and srv: "ts_get w (tc_peer cl) = Some srv" "objpool_free_obj (ts_clt_objpool srv) c (has_flag (ts_flag srv) TCPFLG_SRV_MLOOP) = Some pool"
  shows "\<exists>w'. tcp_cb_close call w c = Some w'"
proof -
  obtain w1 where w1: "io_op evt_io_stop w (tc_loop_on cl) (write_ev c) = Some w1" "conn w1 c cl sk inp out ra False" using conn_stop_write [OF c] by blast
  obtain w2 where w2: "io_op evt_io_stop w1 (tc_loop_on cl) (read_ev c) = Some w2" using conn_stop_read [OF w1(2)] by blast
  obtain rb wb where b: "buf_destroy (tc_rbuf cl) = Some rb" "buf_destroy (tc_wbuf cl) = Some wb"
    using buf_destroy_ok connD(3,4) [OF c] by blast
  have "ts_get (sk_close w2 (tc_fd cl)) (tc_peer cl) = Some srv"
    using srv(1) io_op_same [OF w1(1)] io_op_same [OF w2] by (simp add: ts_get_Some sk_close_def)
  then show ?thesis using connD(1) [OF c] cb w1(1) w2 b srv(2)
    by (cases "has_flag (tc_flag cl) TCPFLG_CLT_PASV") (simp_all add: tcp_cb_close_def user_cb_def Let_def)
qed

end
