(* ===== verification/EvtTimers.thy ===== *)
theory EvtTimers
  imports EvtLists SpheapSpec
begin

text \<open>
  The timers of the event loop: starting one adds it to the heap, and the loop over the timers that are due ends,
  queues each of them once and arms the repeating ones at the next multiple of their period that is not over.
\<close>

section \<open>The heap of timers\<close>

lemma cmp_weak: "weak_order (EVTTIMER_CMP loop)"
  by unfold_locales (auto simp: EVTTIMER_CMP_def)

definition timers :: "evt_loop \<Rightarrow> addr set" where
  "timers loop = set (sp_elems (lp_timers loop) (lp_timer_cnt loop))"

definition tm_inv :: "evt_loop \<Rightarrow> bool" where
  "tm_inv loop \<longleftrightarrow> sp_heap (EVTTIMER_CMP loop) (lp_timers loop) (lp_timer_cnt loop) \<and> (\<forall>e\<in>timers loop. e \<noteq> NULL \<and> lp_evs loop e \<noteq> None)"

lemma sp_heap_cong:
  assumes h: "sp_heap lt h n" and same: "\<And>x y. x \<in> set (sp_elems h n) \<Longrightarrow> y \<in> set (sp_elems h n) \<Longrightarrow> lt' x y = lt x y"
  shows "sp_heap lt' h n"
proof -
  have n: "n < length (sp_arr h)" using h by (simp add: sp_heap_def pos_ok_def)
  have "\<not> lt' (take (Suc n) (sp_arr h) ! i) (take (Suc n) (sp_arr h) ! RSHIFT i)" if i: "1 < i" "i < length (take (Suc n) (sp_arr h))" for i
  proof -
    have r: "1 \<le> RSHIFT i" "RSHIFT i < i" using i by (auto simp: RSHIFT_def)
    have "sp_arr h ! i \<in> set (sp_elems h n)" "sp_arr h ! RSHIFT i \<in> set (sp_elems h n)"
      using in_sp_elems [OF n] i r by (auto intro: exI [of _ i] exI [of _ "RSHIFT i"])
    moreover have "\<not> lt (take (Suc n) (sp_arr h) ! i) (take (Suc n) (sp_arr h) ! RSHIFT i)"
      using h i unfolding sp_heap_def h1.is_heap_def by blast
    ultimately show ?thesis using same i r by simp
  qed
  then show ?thesis using h unfolding sp_heap_def h1.is_heap_def by blast
qed

lemma sp_elems_distinct:
  assumes "pos_ok h n"
  shows "distinct (sp_elems h n)"
proof -
  have n: "n < length (sp_arr h)" using assms by (simp add: pos_ok_def)
  have "sp_pos h (sp_elems h n ! i) = Some (Suc i)" if "i < n" for i
    using assms that by (simp add: pos_ok_def sp_elems_nth [OF n])
  then show ?thesis unfolding distinct_conv_nth sp_elems_length [OF n] by (metis nat.inject option.inject)
qed

lemma tm_inv_cong:
  assumes "tm_inv loop" and "lp_timers loop' = lp_timers loop" "lp_timer_cnt loop' = lp_timer_cnt loop"
    and "\<And>e. e \<in> timers loop \<Longrightarrow> map_option ev_timestamp (lp_evs loop' e) = map_option ev_timestamp (lp_evs loop e)"
  shows "tm_inv loop'" "timers loop' = timers loop"
proof -
  have t: "timers loop' = timers loop" using assms by (simp add: timers_def)
  have ts: "timestamp_of loop' e = timestamp_of loop e" if "e \<in> timers loop" for e
    using assms(4) [OF that] by (auto simp: timestamp_of_def split: option.splits)
  have "sp_heap (EVTTIMER_CMP loop') (lp_timers loop) (lp_timer_cnt loop)"
    by (rule sp_heap_cong [where lt = "EVTTIMER_CMP loop"]) (use assms(1) ts in \<open>auto simp: tm_inv_def timers_def EVTTIMER_CMP_def\<close>)
  moreover have "e \<noteq> NULL \<and> lp_evs loop' e \<noteq> None" if "e \<in> timers loop" for e using assms(1) assms(4) [OF that] that by (cases "lp_evs loop' e") (auto simp: tm_inv_def)
  ultimately show "tm_inv loop'" using assms(2,3) t by (simp add: tm_inv_def)
  show "timers loop' = timers loop" by (rule t)
qed

text \<open>The first timer is one that is due first, and taking it out leaves the others.\<close>

lemma timer_pop_ok:
  assumes inv: "tm_inv loop" and cnt: "0 < lp_timer_cnt loop"
  shows "\<exists>x h. timer_top loop = Some x \<and> spheap_pop (EVTTIMER_CMP loop) (lp_timers loop) (lp_timer_cnt loop) = Some (h, lp_timer_cnt loop - 1) \<and>
    x \<in> timers loop \<and> (\<forall>y\<in>timers loop. timestamp_of loop x \<le> timestamp_of loop y) \<and> dom (sp_pos h) = dom (sp_pos (lp_timers loop)) \<and>
    (\<forall>y. y \<notin> timers loop \<longrightarrow> sp_pos h y = sp_pos (lp_timers loop) y) \<and> sp_pos h x = Some 0 \<and>
    tm_inv (loop\<lparr>lp_timers := h, lp_timer_cnt := lp_timer_cnt loop - 1\<rparr>) \<and>
    timers (loop\<lparr>lp_timers := h, lp_timer_cnt := lp_timer_cnt loop - 1\<rparr>) = timers loop - {x}"
proof -
  let ?h = "lp_timers loop" and ?n = "lp_timer_cnt loop"
  have H: "sp_heap (EVTTIMER_CMP loop) ?h ?n" using inv by (simp add: tm_inv_def)
  have n: "?n < length (sp_arr ?h)" using H by (simp add: sp_heap_def pos_ok_def)
  obtain h where D: "spheap_delete (EVTTIMER_CMP loop) ?h 1 ?n = Some (h, ?n - 1)" "delete_post (EVTTIMER_CMP loop) ?h ?n (sp_arr ?h ! 1) h"
    using delete_repairs [OF cmp_weak H, of 1] cnt by auto
  let ?x = "sp_arr ?h ! 1"
  have x: "?x \<in> timers loop" using in_sp_elems [OF n, of ?x] cnt by (auto simp: timers_def intro: exI [of _ 1])
  have least: "timestamp_of loop ?x \<le> timestamp_of loop y" if "y \<in> timers loop" for y
  proof -
    have "y \<in> set (sp_elems ?h ?n)" using that by (simp only: timers_def)
    then obtain i where "1 \<le> i" "i \<le> ?n" "sp_arr ?h ! i = y" using iffD1 [OF in_sp_elems [OF n], of y] by blast
    then have "\<not> EVTTIMER_CMP loop y ?x" using h1.root_min [OF cmp_weak, of loop "take (Suc ?n) (sp_arr ?h)" i] H n cnt by (simp add: sp_heap_def)
    then show ?thesis by (simp add: EVTTIMER_CMP_def)
  qed
  let ?l = "loop\<lparr>lp_timers := h, lp_timer_cnt := ?n - 1\<rparr>"
  have P: "sp_heap (EVTTIMER_CMP loop) h (?n - 1)" "mset (sp_elems h (?n - 1)) = mset (sp_elems ?h ?n) - {#?x#}"
    "sp_pos h ?x = Some 0" "dom (sp_pos h) = dom (sp_pos ?h)" "\<forall>y. y \<notin> timers loop \<longrightarrow> sp_pos h y = sp_pos ?h y"
    using D(2) by (simp_all add: delete_post_def timers_def)
  have dist: "distinct (sp_elems ?h ?n)" by (rule sp_elems_distinct) (use H in \<open>simp add: sp_heap_def\<close>)
  have "set (sp_elems h (?n - 1)) = set (sp_elems ?h ?n) - {?x}"
  proof -
    have "mset (sp_elems h (?n - 1)) = mset (remove1 ?x (sp_elems ?h ?n))" using P(2) by simp
    then have "set (sp_elems h (?n - 1)) = set (remove1 ?x (sp_elems ?h ?n))" by (rule mset_eq_setD)
    then show ?thesis using dist by (simp add: set_remove1_eq)
  qed
  then have T: "timers ?l = timers loop - {?x}" by (simp add: timers_def)
  have "EVTTIMER_CMP ?l = EVTTIMER_CMP loop" by (simp add: EVTTIMER_CMP_def timestamp_of_def fun_eq_iff)
  then have "tm_inv ?l" using P(1) inv T by (simp add: tm_inv_def)
  moreover have "timer_top loop = Some ?x" using n cnt by (simp add: timer_top_def sp_at_def)
  ultimately show ?thesis using D(1) x least T P by (intro exI [of _ ?x] exI [of _ h]) (simp add: spheap_pop_def)
qed

section \<open>Starting a timer\<close>

text \<open>The time is cached, so that it stands still while the timers are looked at.\<close>

definition clock_at :: "evt_loop \<Rightarrow> int \<Rightarrow> bool" where
  "clock_at loop now \<longleftrightarrow> ck_cached (lp_clock loop) = now \<and> now \<noteq> 0 \<and> ck_is_cache (lp_clock loop)"

lemma catime_at: "clock_at loop now \<Longrightarrow> loop_catime loop = Some (loop, now)"
  by (simp add: loop_catime_def get_catime_def clock_at_def)

lemma timer_start_ok:
  assumes inv: "tm_inv loop" and nw: "\<not> wrong_thread loop" and clk: "clock_at loop now" and ev: "ev_get loop e = Some ev" and act: "ev_active ev \<noteq> 1"
    and new: "e \<notin> timers loop" and dom: "e \<in> dom (sp_pos (lp_timers loop))" and small: "lp_timer_cnt loop + 2 \<le> 2 ^ 30"
    and fits: "- (2 ^ 63) \<le> ev_timestamp ev + now" "ev_timestamp ev + now < 2 ^ 63"
  shows "\<exists>h loop'. evt_timer_start loop e = Some loop' \<and> tm_inv loop' \<and> timers loop' = insert e (timers loop) \<and>
    dom (sp_pos h) = dom (sp_pos (lp_timers loop)) \<and> (\<forall>y. y \<notin> insert e (timers loop) \<longrightarrow> sp_pos h y = sp_pos (lp_timers loop) y) \<and>
    loop' = loop\<lparr>lp_evs := (lp_evs loop)(e \<mapsto> ev\<lparr>ev_active := 1, ev_priority := adj_between (ev_priority ev) 0 (lp_priority_max loop), ev_timestamp := ev_timestamp ev + now\<rparr>),
      lp_timers := h, lp_timer_cnt := lp_timer_cnt loop + 1\<rparr>"
proof -
  let ?n = "lp_timer_cnt loop" and ?h = "lp_timers loop"
  note nz = ev_get_Some [OF ev]
  let ?a = "ev_activate loop e ev"
  obtain sz where sz: "check_and_expand_array (length (sp_arr ?h)) (?n + 2) = Some sz" "?n + 2 \<le> sz" "length (sp_arr ?h) \<le> sz"
    using expand_ok [OF small] by blast
  let ?g = "?h\<lparr>sp_arr := sp_arr ?h @ replicate (sz - length (sp_arr ?h)) NULL\<rparr>"
  let ?ev = "ev\<lparr>ev_active := 1, ev_priority := adj_between (ev_priority ev) 0 (lp_priority_max loop), ev_timestamp := ev_timestamp ev + now\<rparr>"
  let ?l = "loop\<lparr>lp_timers := ?g, lp_evs := (lp_evs loop)(e \<mapsto> ?ev)\<rparr>"
  have H: "sp_heap (EVTTIMER_CMP loop) ?h ?n" using inv by (simp add: tm_inv_def)
  have n: "?n < length (sp_arr ?h)" using H by (simp add: sp_heap_def pos_ok_def)
  have elems: "sp_elems ?g ?n = sp_elems ?h ?n" using n by (simp add: sp_elems_def)
  have ts: "timestamp_of ?l x = timestamp_of loop x" if "x \<in> timers loop" for x using that new by (auto simp: timestamp_of_def)
  have "sp_heap (EVTTIMER_CMP ?l) ?h ?n"
    by (rule sp_heap_cong [OF H]) (use ts in \<open>auto simp: EVTTIMER_CMP_def timers_def\<close>)
  then have G: "sp_heap (EVTTIMER_CMP ?l) ?g ?n" using n by (auto simp: sp_heap_def pos_ok_def nth_append)
  obtain h where p: "spheap_push (EVTTIMER_CMP ?l) ?g ?n e = Some (h, Suc ?n)" "sp_heap (EVTTIMER_CMP ?l) h (Suc ?n)"
      "mset (sp_elems h (Suc ?n)) = add_mset e (mset (sp_elems ?g ?n))" "dom (sp_pos h) = dom (sp_pos ?g)"
      "\<forall>y. y \<notin> insert e (timers loop) \<longrightarrow> sp_pos h y = sp_pos ?h y"
    using push_repairs [OF cmp_weak G, of e] sz dom new by (auto simp: elems timers_def)
  let ?r = "loop\<lparr>lp_evs := (lp_evs loop)(e \<mapsto> ?ev), lp_timers := h, lp_timer_cnt := ?n + 1\<rparr>"
  have clk': "get_catime (lp_clock loop) = Some (lp_clock loop, now)" using clk by (simp add: get_catime_def clock_at_def)
  have oh: "ohtime (ev_timestamp ev + now) = Some (ev_timestamp ev + now)" using fits by (simp add: ohtime_def)
  have "evt_timer_start loop e = Some ?r"
    using nw ev act sz clk' nz oh p(1)
    by (simp add: timer_start_eq timer_start_rest_def Let_def loop_catime_def ev_activate_def ev_put_def ev_get_def)
  moreover have set: "set (sp_elems h (Suc ?n)) = insert e (timers loop)"
    using mset_eq_setD [of "sp_elems h (Suc ?n)" "e # sp_elems ?g ?n"] p(3) by (simp add: elems timers_def)
  then have T: "timers ?r = insert e (timers loop)" by (simp add: timers_def)
  moreover have "EVTTIMER_CMP ?r = EVTTIMER_CMP ?l" by (simp add: EVTTIMER_CMP_def timestamp_of_def fun_eq_iff)
  then have "tm_inv ?r" using p(2) T inv nz by (auto simp: tm_inv_def)
  ultimately show ?thesis using p(4,5) by (intro exI [of _ h] exI [of _ ?r]) simp
qed

section \<open>The timers that are due\<close>

definition repeat_of :: "evt_loop \<Rightarrow> addr \<Rightarrow> int" where
  "repeat_of loop e = (case lp_evs loop e of None \<Rightarrow> 0 | Some ev \<Rightarrow> ev_repeat ev)"

text \<open>
  What the loop over the timers has done at some point to a timer of the start: nothing; or it was due, is queued, and
  is armed again some periods later, the last of which began in the past; or it was due, is queued, and is gone because
  it does not repeat.
\<close>

definition timer_done :: "evt_loop \<Rightarrow> int \<Rightarrow> evt_loop \<Rightarrow> addr \<Rightarrow> bool" where
  "timer_done loop0 now loop e \<longleftrightarrow>
     (e \<in> timers loop \<and> timestamp_of loop e = timestamp_of loop0 e) \<or>
     (timestamp_of loop0 e \<le> now \<and> pendpos_of loop e \<noteq> 0 \<and>
       (if repeat_of loop0 e > 0
        then e \<in> timers loop \<and> (\<exists>k. timestamp_of loop e = timestamp_of loop0 e + int k * repeat_of loop0 e) \<and> timestamp_of loop e - repeat_of loop0 e \<le> now
        else e \<notin> timers loop \<and> sp_pos (lp_timers loop) e = Some 0))"

text \<open>Room in the arrays for all timers, and times far from overflow.\<close>

definition timer_room :: "addr set \<Rightarrow> evt_loop \<Rightarrow> bool" where
  "timer_room T loop \<longleftrightarrow> finite T \<and> card T < 2 ^ 29 \<and> timers loop \<subseteq> T \<and>
     (\<forall>p\<le>lp_priority_max loop. length (lp_pending loop ! p) + card {e \<in> T. pendpos_of loop e = 0} \<le> 2 ^ 30)"

definition timer_ok :: "int \<Rightarrow> event \<Rightarrow> bool" where
  "timer_ok now ev \<longleftrightarrow> \<bar>ev_timestamp ev\<bar> < 2 ^ 61 \<and> ev_repeat ev < 2 ^ 61 \<and> ev_active ev = 1"

definition times_inv :: "evt_loop \<Rightarrow> int \<Rightarrow> evt_loop \<Rightarrow> bool" where
  "times_inv loop0 now loop \<longleftrightarrow> pend_inv loop 0 0 \<and> tm_inv loop \<and> \<not> wrong_thread loop \<and> clock_at loop now \<and> timer_room (timers loop0) loop \<and>
     timers loop0 \<subseteq> dom (sp_pos (lp_timers loop)) \<and>
     (\<forall>e\<in>timers loop0. e \<noteq> NULL \<and> (\<exists>ev. lp_evs loop e = Some ev \<and> ev_priority ev \<le> lp_priority_max loop \<and> ev_repeat ev = repeat_of loop0 e \<and>
        ev_repeat ev < 2 ^ 61 \<and> \<bar>ev_timestamp ev\<bar> < 2 ^ 62) \<and> timer_done loop0 now loop e)"

text \<open>How long the timers that are due are overdue: the measure of the loop.\<close>

definition overdue :: "int \<Rightarrow> evt_loop \<Rightarrow> nat" where
  "overdue now loop = (\<Sum>e\<in>timers loop. nat (now + 1 - timestamp_of loop e))"

lemma timers_card: "tm_inv loop \<Longrightarrow> card (timers loop) = lp_timer_cnt loop"
proof -
  assume "tm_inv loop"
  then have p: "pos_ok (lp_timers loop) (lp_timer_cnt loop)" by (simp add: tm_inv_def sp_heap_def)
  then have "lp_timer_cnt loop < length (sp_arr (lp_timers loop))" by (simp add: pos_ok_def)
  then show ?thesis using distinct_card [OF sp_elems_distinct [OF p]] by (simp add: timers_def sp_elems_length)
qed

text \<open>Queueing an event when there is room.\<close>

lemma append_pending_ok:
  assumes inv: "pend_inv loop i j" and ev: "ev_get loop e = Some ev" and pri: "ev_priority ev \<le> lp_priority_max loop"
    and room: "ev_pendpos ev = 0 \<Longrightarrow> length (lp_pending loop ! ev_priority ev) < 2 ^ 30"
  shows "\<exists>loop' ev'. evt_append_pending loop e = Some loop' \<and> lp_evs loop' = (lp_evs loop)(e \<mapsto> ev') \<and> ev_pendpos ev' \<noteq> 0 \<and>
    ev' = ev\<lparr>ev_pendpos := ev_pendpos ev'\<rparr> \<and>
    (\<forall>p\<le>lp_priority_max loop. length (lp_pending loop' ! p) \<le> length (lp_pending loop ! p) + (if ev_pendpos ev = 0 then 1 else 0)) \<and>
    lp_timers loop' = lp_timers loop \<and> lp_timer_cnt loop' = lp_timer_cnt loop \<and> lp_clock loop' = lp_clock loop \<and> lp_tid loop' = lp_tid loop \<and>
    lp_owner_tid loop' = lp_owner_tid loop \<and> lp_priority_max loop' = lp_priority_max loop"
proof -
  note nz = ev_get_Some [OF ev]
  have g: "lp_evs loop e = Some ev" using ev nz by (simp add: ev_get_def)
  show ?thesis
  proof (cases "ev_pendpos ev = 0")
    case False
    then have "evt_append_pending loop e = Some loop" using ev pri by (simp add: evt_append_pending_def Let_def)
    moreover have "lp_evs loop = (lp_evs loop)(e \<mapsto> ev)" using g by (simp add: fun_upd_idem)
    ultimately show ?thesis using False by (intro exI [of _ loop] exI [of _ ev]) simp
  next
    case True
    let ?p = "ev_priority ev" let ?q = "lp_pending loop ! ?p"
    have lt: "?p < length (lp_pending loop)" using pend_shape_len [OF pend_invD(1) [OF inv] pri] by simp
    obtain sz where sz: "check_and_expand_array (lp_pending_size loop ! ?p) (length ?q + 1) = Some sz"
      using expand_ok [of "length ?q + 1"] room [OF True] by auto
    let ?ev = "ev\<lparr>ev_pendpos := length ?q + 1\<rparr>"
    let ?l = "ev_put (loop\<lparr>lp_pending_size := (lp_pending_size loop)[?p := sz], lp_pending := (lp_pending loop)[?p := ?q @ [e]]\<rparr>) e ?ev"
    have "evt_append_pending loop e = Some ?l" using ev pri True lt sz by (simp add: evt_append_pending_def pend_q_def Let_def)
    moreover have "lp_evs ?l = (lp_evs loop)(e \<mapsto> ?ev)" by (simp add: ev_put_def)
    moreover have "length (lp_pending ?l ! p) \<le> length (lp_pending loop ! p) + 1" for p using lt by (cases "p = ?p") auto
    ultimately show ?thesis using True by (intro exI [of _ ?l] exI [of _ ?ev]) simp
  qed
qed

text \<open>One timer is handled: what has to be shown of the new state.\<close>

lemma timer_done_frame:
  assumes "timer_done loop0 now loop e" and "e \<in> timers loop' \<longleftrightarrow> e \<in> timers loop" and "lp_evs loop' e = lp_evs loop e"
    and "e \<notin> timers loop \<Longrightarrow> sp_pos (lp_timers loop') e = sp_pos (lp_timers loop) e"
  shows "timer_done loop0 now loop' e"
proof -
  have "timestamp_of loop' e = timestamp_of loop e" "pendpos_of loop' e = pendpos_of loop e"
    using assms(3) by (simp_all add: timestamp_of_def pendpos_of_def ev_get_def)
  then show ?thesis using assms(1,2,4) unfolding timer_done_def by auto
qed

lemma times_inv_step:
  assumes inv: "times_inv loop0 now loop" and x: "x \<in> timers loop0"
    and pend: "pend_inv loop' 0 0" and tm: "tm_inv loop'"
    and same: "lp_tid loop' = lp_tid loop" "lp_owner_tid loop' = lp_owner_tid loop" "lp_clock loop' = lp_clock loop"
      "lp_priority_max loop' = lp_priority_max loop" "dom (sp_pos (lp_timers loop')) = dom (sp_pos (lp_timers loop))"
    and evs: "lp_evs loop' = (lp_evs loop)(x \<mapsto> ev')" and ev': "ev_priority ev' \<le> lp_priority_max loop" "ev_repeat ev' = repeat_of loop0 x"
      "\<bar>ev_timestamp ev'\<bar> < 2 ^ 62" "ev_pendpos ev' \<noteq> 0"
    and len: "\<And>p. p \<le> lp_priority_max loop \<Longrightarrow> length (lp_pending loop' ! p) \<le> length (lp_pending loop ! p) + (if pendpos_of loop x = 0 then 1 else 0)"
    and T: "timers loop' - {x} = timers loop - {x}"
    and pos: "\<And>y. y \<noteq> x \<Longrightarrow> y \<notin> timers loop \<Longrightarrow> sp_pos (lp_timers loop') y = sp_pos (lp_timers loop) y"
    and fin: "timer_done loop0 now loop' x"
  shows "times_inv loop0 now loop'"
proof -
  let ?T = "timers loop0"
  have I: "\<not> wrong_thread loop" "clock_at loop now" "timer_room ?T loop" "?T \<subseteq> dom (sp_pos (lp_timers loop))"
    and E: "\<And>e. e \<in> ?T \<Longrightarrow> e \<noteq> NULL \<and> (\<exists>ev. lp_evs loop e = Some ev \<and> ev_priority ev \<le> lp_priority_max loop \<and> ev_repeat ev = repeat_of loop0 e \<and>
        ev_repeat ev < 2 ^ 61 \<and> \<bar>ev_timestamp ev\<bar> < 2 ^ 62) \<and> timer_done loop0 now loop e"
    using inv by (simp_all add: times_inv_def)
  have "finite ?T" "timers loop \<subseteq> ?T" "card ?T < 2 ^ 29" using I(3) by (simp_all add: timer_room_def)
  have nz: "x \<noteq> NULL" using E [OF x] by blast
  have P: "pendpos_of loop' y = (if y = x then ev_pendpos ev' else pendpos_of loop y)" for y
    using nz by (simp add: pendpos_of_def ev_get_def evs)
  have sub: "timers loop' \<subseteq> ?T" using T x \<open>timers loop \<subseteq> ?T\<close> by blast
  have "length (lp_pending loop' ! p) + card {e \<in> ?T. pendpos_of loop' e = 0} \<le> 2 ^ 30" if p: "p \<le> lp_priority_max loop" for p
  proof -
    have old: "length (lp_pending loop ! p) + card {e \<in> ?T. pendpos_of loop e = 0} \<le> 2 ^ 30" using I(3) p by (simp add: timer_room_def)
    have new: "{e \<in> ?T. pendpos_of loop' e = 0} = {e \<in> ?T. pendpos_of loop e = 0} - {x}" using P ev'(4) by auto
    have f: "finite {e \<in> ?T. pendpos_of loop e = 0}" using \<open>finite ?T\<close> by simp
    show ?thesis
    proof (cases "pendpos_of loop x = 0")
      case True
      then have "x \<in> {e \<in> ?T. pendpos_of loop e = 0}" using x by simp
      then have "Suc (card ({e \<in> ?T. pendpos_of loop e = 0} - {x})) = card {e \<in> ?T. pendpos_of loop e = 0}" using card_Suc_Diff1 [OF f] by blast
      then show ?thesis using old len [OF p] True unfolding new by simp
    next
      case False
      have "card ({e \<in> ?T. pendpos_of loop e = 0} - {x}) \<le> card {e \<in> ?T. pendpos_of loop e = 0}" using f by (simp add: card_mono)
      then show ?thesis using old len [OF p] False unfolding new by simp
    qed
  qed
  then have room: "timer_room ?T loop'" using I(3) sub same by (simp add: timer_room_def)
  have each: "e \<noteq> NULL \<and> (\<exists>ev. lp_evs loop' e = Some ev \<and> ev_priority ev \<le> lp_priority_max loop' \<and> ev_repeat ev = repeat_of loop0 e \<and>
        ev_repeat ev < 2 ^ 61 \<and> \<bar>ev_timestamp ev\<bar> < 2 ^ 62) \<and> timer_done loop0 now loop' e" if e: "e \<in> ?T" for e
  proof (cases "e = x")
    case True
    then show ?thesis using E [OF x] ev' evs same fin by auto
  next
    case False
    have "e \<in> timers loop' \<longleftrightarrow> e \<in> timers loop" using T False by blast
    then have "timer_done loop0 now loop' e"
      using E [OF e] False pos evs by (intro timer_done_frame [of loop0 now loop e loop']) auto
    then show ?thesis using E [OF e] False evs same by auto
  qed
  have "\<not> wrong_thread loop'" "clock_at loop' now" "?T \<subseteq> dom (sp_pos (lp_timers loop'))"
    using I same by (simp_all add: wrong_thread_def clock_at_def)
  then show ?thesis using pend tm room each by (simp add: times_inv_def)
qed

lemma overdue_less:
  assumes fin: "finite (timers loop)" and x: "x \<in> timers loop" "timestamp_of loop x \<le> now"
    and T: "timers loop' - {x} = timers loop - {x}" and same: "\<And>y. y \<noteq> x \<Longrightarrow> timestamp_of loop' y = timestamp_of loop y"
    and later: "x \<in> timers loop' \<Longrightarrow> timestamp_of loop x < timestamp_of loop' x"
  shows "overdue now loop' < overdue now loop"
proof -
  let ?f = "\<lambda>loop e. nat (now + 1 - timestamp_of loop e)"
  have fin': "finite (timers loop')" using T fin by (metis finite_Diff finite_Diff_insert finite.emptyI Diff_empty)
  have old: "overdue now loop = ?f loop x + (\<Sum>e\<in>timers loop - {x}. ?f loop e)" using fin x(1) by (simp add: overdue_def sum.remove)
  have rest: "(\<Sum>e\<in>timers loop' - {x}. ?f loop' e) = (\<Sum>e\<in>timers loop - {x}. ?f loop e)"
    unfolding T by (rule sum.cong) (use same in auto)
  show ?thesis
  proof (cases "x \<in> timers loop'")
    case True
    then have "overdue now loop' = ?f loop' x + (\<Sum>e\<in>timers loop' - {x}. ?f loop' e)" using fin' by (simp add: overdue_def sum.remove)
    moreover have "?f loop' x < ?f loop x" using later [OF True] x(2) by simp
    ultimately show ?thesis using old rest by simp
  next
    case False
    then have "overdue now loop' = (\<Sum>e\<in>timers loop' - {x}. ?f loop' e)" by (simp add: overdue_def)
    moreover have "0 < ?f loop x" using x(2) by simp
    ultimately show ?thesis using old rest by simp
  qed
qed

lemma timer_step_ok:
  assumes inv: "times_inv loop0 now loop" and cnt: "0 < lp_timer_cnt loop" and now: "\<bar>now\<bar> < 2 ^ 61"
  shows "(timer_step (loop, False) = Some (loop, True) \<and> (\<forall>e\<in>timers loop. now < timestamp_of loop e)) \<or>
    (\<exists>loop'. timer_step (loop, False) = Some (loop', False) \<and> times_inv loop0 now loop' \<and> overdue now loop' < overdue now loop)"
proof -
  have I: "pend_inv loop 0 0" "tm_inv loop" "\<not> wrong_thread loop" "clock_at loop now" "timer_room (timers loop0) loop"
      "timers loop0 \<subseteq> dom (sp_pos (lp_timers loop))"
    and E: "\<And>e. e \<in> timers loop0 \<Longrightarrow> e \<noteq> NULL \<and> (\<exists>ev. lp_evs loop e = Some ev \<and> ev_priority ev \<le> lp_priority_max loop \<and> ev_repeat ev = repeat_of loop0 e \<and>
        ev_repeat ev < 2 ^ 61 \<and> \<bar>ev_timestamp ev\<bar> < 2 ^ 62) \<and> timer_done loop0 now loop e"
    using inv by (simp_all add: times_inv_def)
  have fin: "finite (timers loop)" by (simp add: timers_def)
  obtain x h0 where top: "timer_top loop = Some x" "x \<in> timers loop" "\<forall>y\<in>timers loop. timestamp_of loop x \<le> timestamp_of loop y"
    using timer_pop_ok [OF I(2) cnt] by blast
  have x0: "x \<in> timers loop0" using top(2) I(5) by (auto simp: timer_room_def)
  obtain ev where ev: "x \<noteq> NULL" "lp_evs loop x = Some ev" "ev_priority ev \<le> lp_priority_max loop" "ev_repeat ev = repeat_of loop0 x"
      "ev_repeat ev < 2 ^ 61" "\<bar>ev_timestamp ev\<bar> < 2 ^ 62" and done0: "timer_done loop0 now loop x" using E [OF x0] by blast
  have g: "ev_get loop x = Some ev" using ev by (simp add: ev_get_def)
  have ts: "timestamp_of loop x = ev_timestamp ev" using ev(2) by (simp add: timestamp_of_def)
  show ?thesis
  proof (cases "ev_timestamp ev > now")
    case True
    then have "timer_step (loop, False) = Some (loop, True)" using top(1) g catime_at [OF I(4)] by (simp add: timer_step_def)
    then show ?thesis using True top(3) ts by fastforce
  next
    case due: False
    have room: "ev_pendpos ev = 0 \<Longrightarrow> length (lp_pending loop ! ev_priority ev) < 2 ^ 30"
    proof -
      assume "ev_pendpos ev = 0"
      then have "x \<in> {e \<in> timers loop0. pendpos_of loop e = 0}" using x0 g by (simp add: pendpos_of_def)
      moreover have "finite (timers loop0)" using I(5) by (simp add: timer_room_def)
      ultimately have "0 < card {e \<in> timers loop0. pendpos_of loop e = 0}" by (auto simp: card_gt_0_iff)
      then show ?thesis using I(5) ev(3) unfolding timer_room_def by force
    qed
    obtain l1 ev1 where l1: "evt_append_pending loop x = Some l1" "lp_evs l1 = (lp_evs loop)(x \<mapsto> ev1)" "ev_pendpos ev1 \<noteq> 0" "ev1 = ev\<lparr>ev_pendpos := ev_pendpos ev1\<rparr>"
      "\<forall>p\<le>lp_priority_max loop. length (lp_pending l1 ! p) \<le> length (lp_pending loop ! p) + (if ev_pendpos ev = 0 then 1 else 0)"
      "lp_timers l1 = lp_timers loop" "lp_timer_cnt l1 = lp_timer_cnt loop" "lp_clock l1 = lp_clock loop" "lp_tid l1 = lp_tid loop"
      "lp_owner_tid l1 = lp_owner_tid loop" "lp_priority_max l1 = lp_priority_max loop"
      using append_pending_ok [OF I(1) g ev(3) room] by blast
    have ev1: "ev_timestamp ev1 = ev_timestamp ev" "ev_repeat ev1 = ev_repeat ev" "ev_priority ev1 = ev_priority ev" by (subst l1(4), simp)+
    have p1: "pend_inv l1 0 0" by (rule append_pending_inv [OF I(1) l1(1)])
    have t1: "tm_inv l1" "timers l1 = timers loop" using tm_inv_cong [OF I(2) l1(6,7)] l1(2) ev(2) ev1(1) by auto
    obtain h where pop: "spheap_pop (EVTTIMER_CMP l1) (lp_timers l1) (lp_timer_cnt l1) = Some (h, lp_timer_cnt l1 - 1)"
        "dom (sp_pos h) = dom (sp_pos (lp_timers l1))" "\<forall>y. y \<notin> timers l1 \<longrightarrow> sp_pos h y = sp_pos (lp_timers l1) y" "sp_pos h x = Some 0"
        "tm_inv (l1\<lparr>lp_timers := h, lp_timer_cnt := lp_timer_cnt l1 - 1\<rparr>)"
        "timers (l1\<lparr>lp_timers := h, lp_timer_cnt := lp_timer_cnt l1 - 1\<rparr>) = timers l1 - {x}"
    proof -
      have "timer_top l1 = Some x" using top(1) l1(6) by (simp add: timer_top_def)
      then show thesis using timer_pop_ok [OF t1(1)] cnt l1(7) that by fastforce
    qed
    let ?l2 = "l1\<lparr>lp_timers := h, lp_timer_cnt := lp_timer_cnt l1 - 1\<rparr>"
    have g2: "ev_get ?l2 x = Some ev1" using l1(2) ev(1) by (simp add: ev_get_def)
    have p2: "pend_inv ?l2 0 0" by (rule timers_keeps [OF p1])
    have pp: "pendpos_of loop x = ev_pendpos ev" using g by (simp add: pendpos_of_def)
    have before: "timestamp_of loop0 x \<le> now" using done0 due ts by (auto simp: timer_done_def)
    show ?thesis
    proof (cases "ev_repeat ev > 0")
      case False
      have step: "timer_step (loop, False) = Some (?l2, False)"
        using top(1) g catime_at [OF I(4)] due l1(1) pop(1) g2 False ev1(2) by (simp add: timer_step_def Let_def)
      have "x \<notin> timers ?l2" using pop(6) by blast
      then have "timer_done loop0 now ?l2 x"
        using before l1(2,3) ev(1,4) False pop(4) by (simp add: timer_done_def pendpos_of_def ev_get_def)
      then have "times_inv loop0 now ?l2"
        by (intro times_inv_step [OF inv x0 p2 pop(5), where ev' = ev1])
          (use l1 pop ev ev1 pp t1(2) in simp_all)
      moreover have "overdue now ?l2 < overdue now loop"
        by (rule overdue_less [OF fin top(2)]) (use due ts pop(6) t1(2) l1(2) in \<open>simp_all add: timestamp_of_def\<close>)
      ultimately show ?thesis using step by blast
    next
      case True
      let ?t = "ev_timestamp ev - now + ev_repeat ev"
      let ?ev3 = "ev1\<lparr>ev_active := 0, ev_timestamp := ?t\<rparr>" let ?l3 = "ev_put ?l2 x ?ev3"
      have c2: "loop_catime ?l2 = Some (?l2, now)" by (rule catime_at) (use I(4) l1(8) in \<open>simp add: clock_at_def\<close>)
      have oh: "ohtime (ev_timestamp ev - now) = Some (ev_timestamp ev - now)" "ohtime ?t = Some ?t"
        using ev(5,6) now True by (auto simp: ohtime_def)
      have E3: "lp_evs ?l3 = (lp_evs loop)(x \<mapsto> ?ev3)" using l1(2) by (simp add: ev_put_def)
      have t3: "tm_inv ?l3" "timers ?l3 = timers loop - {x}"
        using tm_inv_cong [OF pop(5), of ?l3] pop(6) t1(2) by (auto simp: ev_put_def)
      have g3: "ev_get ?l3 x = Some ?ev3" using ev(1) by (simp add: ev_get_put)
      have p3: "pend_inv ?l3 0 0" by (rule pend_same_inv [OF pend_same_put [OF g2] p2]) auto
      have small: "lp_timer_cnt ?l3 + 2 \<le> 2 ^ 30"
      proof -
        have "lp_timer_cnt loop \<le> card (timers loop0)" using timers_card [OF I(2)] I(5) card_mono [of "timers loop0" "timers loop"] by (simp add: timer_room_def)
        moreover have "card (timers loop0) < 2 ^ 29" using I(5) by (simp add: timer_room_def)
        ultimately show ?thesis using l1(7) by simp
      qed
      obtain h' l' where st: "evt_timer_start ?l3 x = Some l'" "tm_inv l'" "timers l' = insert x (timers ?l3)" "dom (sp_pos h') = dom (sp_pos (lp_timers ?l3))"
          "\<forall>y. y \<notin> insert x (timers ?l3) \<longrightarrow> sp_pos h' y = sp_pos (lp_timers ?l3) y"
          "l' = ?l3\<lparr>lp_evs := (lp_evs ?l3)(x \<mapsto> ?ev3\<lparr>ev_active := 1, ev_priority := adj_between (ev_priority ?ev3) 0 (lp_priority_max ?l3),
             ev_timestamp := ev_timestamp ?ev3 + now\<rparr>), lp_timers := h', lp_timer_cnt := lp_timer_cnt ?l3 + 1\<rparr>"
      proof -
        have 1: "\<not> wrong_thread ?l3" using I(3) l1(9,10) by (simp add: wrong_thread_def)
        have 2: "clock_at ?l3 now" using I(4) l1(8) by (simp add: clock_at_def)
        have 3: "ev_active ?ev3 \<noteq> 1" "x \<notin> timers ?l3" using t3(2) by simp_all
        have 4: "x \<in> dom (sp_pos (lp_timers ?l3))" using I(6) x0 pop(2) l1(6) by auto
        have 5: "- (2 ^ 63) \<le> ev_timestamp ?ev3 + now" "ev_timestamp ?ev3 + now < 2 ^ 63" using ev(5,6) True by simp_all
        show thesis using timer_start_ok [OF t3(1) 1 2 g3 3(1,2) 4 small 5] that by blast
      qed
      have step: "timer_step (loop, False) = Some (l', False)"
        using top(1) g catime_at [OF I(4)] due l1(1) pop(1) g2 True ev1 c2 oh st(1) by (simp add: timer_step_def Let_def)
      let ?ev4 = "?ev3\<lparr>ev_active := 1, ev_priority := adj_between (ev_priority ?ev3) 0 (lp_priority_max ?l3), ev_timestamp := ev_timestamp ?ev3 + now\<rparr>"
      have E4: "lp_evs l' = (lp_evs loop)(x \<mapsto> ?ev4)" unfolding st(6) using E3 by simp
      have V1: "ev_timestamp ?ev4 = ev_timestamp ev + ev_repeat ev" by (simp add: ev1(1))
      have M: "lp_priority_max ?l3 = lp_priority_max loop" by (simp add: l1(11))
      have "ev_priority ?ev4 \<le> lp_priority_max ?l3" by (simp add: adj_between_def Let_def)
      then have V2: "ev_priority ?ev4 \<le> lp_priority_max loop" by (simp only: M)
      have V3: "ev_repeat ?ev4 = repeat_of loop0 x" by (simp add: ev1(2) ev(4))
      have V4: "ev_pendpos ?ev4 \<noteq> 0" by (simp add: l1(3))
      note V = V1 V2 V3 V4
      have T4: "timers l' = timers loop" by (simp only: st(3) t3(2) insert_Diff [OF top(2)])
      have ts4: "timestamp_of l' x = timestamp_of loop x + repeat_of loop0 x" using E4 V(1) ts ev(4) by (simp add: timestamp_of_def)
      have fin4: "timer_done loop0 now l' x"
      proof -
        have "pendpos_of l' x \<noteq> 0" using E4 V(4) ev(1) by (simp add: pendpos_of_def ev_get_def)
        moreover have "\<exists>k. timestamp_of loop x = timestamp_of loop0 x + int k * repeat_of loop0 x"
          using done0 True ev(4) by (auto simp: timer_done_def intro: exI [of _ 0])
        then have "\<exists>k. timestamp_of l' x = timestamp_of loop0 x + int k * repeat_of loop0 x"
        proof -
          assume "\<exists>k. timestamp_of loop x = timestamp_of loop0 x + int k * repeat_of loop0 x"
          then obtain k where "timestamp_of loop x = timestamp_of loop0 x + int k * repeat_of loop0 x" by blast
          then have "timestamp_of l' x = timestamp_of loop0 x + int (Suc k) * repeat_of loop0 x" using ts4 by (simp add: distrib_right)
          then show ?thesis by blast
        qed
        ultimately show ?thesis using before True ev(4) top(2) T4 ts4 ts due unfolding timer_done_def by simp
      qed
      have "times_inv loop0 now l'"
      proof (rule times_inv_step [OF inv x0 timer_start_keeps [OF p3 st(1)] st(2) _ _ _ _ _ E4 V(2,3) _ V(4) _ _ _ fin4])
        show "lp_tid l' = lp_tid loop" "lp_owner_tid l' = lp_owner_tid loop" "lp_clock l' = lp_clock loop" "lp_priority_max l' = lp_priority_max loop"
          using l1 by (simp_all add: st(6))
        show "dom (sp_pos (lp_timers l')) = dom (sp_pos (lp_timers loop))" using st(4) pop(2) l1(6) by (simp add: st(6))
        show "\<bar>ev_timestamp ?ev4\<bar> < 2 ^ 62" using V(1) ev(5,6) True due now by simp
        show "length (lp_pending l' ! p) \<le> length (lp_pending loop ! p) + (if pendpos_of loop x = 0 then 1 else 0)" if "p \<le> lp_priority_max loop" for p
          using l1(5) that pp by (simp add: st(6))
        show "timers l' - {x} = timers loop - {x}" using T4 by simp
        show "sp_pos (lp_timers l') y = sp_pos (lp_timers loop) y" if "y \<noteq> x" "y \<notin> timers loop" for y
          using that st(5) t3(2) pop(3) t1(2) l1(6) by (simp add: st(6))
      qed
      moreover have "overdue now l' < overdue now loop"
        by (rule overdue_less [OF fin top(2)]) (use due ts T4 ts4 True ev(4) E4 in \<open>simp_all add: timestamp_of_def\<close>)
      ultimately show ?thesis using step by blast
    qed
  qed
qed

definition rounds_inv :: "evt_loop \<Rightarrow> int \<Rightarrow> nat \<Rightarrow> evt_loop \<times> bool \<Rightarrow> bool" where
  "rounds_inv loop0 now n s \<longleftrightarrow> times_inv loop0 now (fst s) \<and>
     (if snd s then \<forall>e\<in>timers (fst s). now < timestamp_of (fst s) e else n = Suc (overdue now (fst s)))"

lemma rounds_step:
  assumes inv: "rounds_inv loop0 now n s" and now: "\<bar>now\<bar> < 2 ^ 61" and go: "0 < lp_timer_cnt (fst s)" "\<not> snd s"
  shows "\<exists>s' m. timer_step s = Some s' \<and> m < n \<and> rounds_inv loop0 now m s'"
proof -
  obtain loop where s: "s = (loop, False)" using go(2) by (cases s) auto
  have T: "times_inv loop0 now loop" "n = Suc (overdue now loop)" using inv s by (simp_all add: rounds_inv_def)
  from timer_step_ok [OF T(1) _ now] go(1) s
  consider "timer_step (loop, False) = Some (loop, True)" "\<forall>e\<in>timers loop. now < timestamp_of loop e"
    | loop' where "timer_step (loop, False) = Some (loop', False)" "times_inv loop0 now loop'" "overdue now loop' < overdue now loop" by auto
  then show ?thesis
  proof cases
    case 1
    then show ?thesis using T s by (intro exI [of _ "(loop, True)"] exI [of _ 0]) (simp add: rounds_inv_def)
  next
    case (2 loop')
    then show ?thesis using T s by (intro exI [of _ "(loop', False)"] exI [of _ "Suc (overdue now loop')"]) (simp add: rounds_inv_def)
  qed
qed

lemma run_timers_ok:
  assumes inv: "times_inv loop0 now loop0" and now: "\<bar>now\<bar> < 2 ^ 61"
  shows "\<exists>loop. run_timers loop0 = Some loop \<and> times_inv loop0 now loop \<and> (\<forall>e\<in>timers loop. now < timestamp_of loop e)"
proof -
  let ?b = "\<lambda>(loop, stop). Some (lp_timer_cnt loop > 0 \<and> \<not> stop)"
  let ?Q = "\<lambda>s. times_inv loop0 now (fst s) \<and> (\<forall>e\<in>timers (fst s). now < timestamp_of (fst s) e)"
  have "\<exists>s'. while_c ?b timer_step (loop0, False) = Some s' \<and> ?Q s'"
  proof (rule while_c_total [where I = "rounds_inv loop0 now"])
    show "rounds_inv loop0 now (Suc (overdue now loop0)) (loop0, False)" using inv by (simp add: rounds_inv_def)
    fix n s assume I: "rounds_inv loop0 now n s"
    show "(?b s = Some False \<and> ?Q s) \<or> (?b s = Some True \<and> (\<exists>s' m. timer_step s = Some s' \<and> m < n \<and> rounds_inv loop0 now m s'))"
    proof (cases "0 < lp_timer_cnt (fst s) \<and> \<not> snd s")
      case True
      then have "?b s = Some True" by (simp add: case_prod_beta)
      moreover obtain s' m where "timer_step s = Some s'" "m < n" "rounds_inv loop0 now m s'" using rounds_step [OF I now conjunct1 [OF True] conjunct2 [OF True]] by blast
      ultimately show ?thesis by blast
    next
      case False
      then have "?b s = Some False" by (auto simp: case_prod_beta)
      moreover have "lp_timer_cnt (fst s) = 0 \<Longrightarrow> timers (fst s) = {}" by (simp add: timers_def sp_elems_def)
      then have "?Q s" using I False by (auto simp: rounds_inv_def split: if_splits)
      ultimately show ?thesis by blast
    qed
  qed
  then obtain s' where "while_c ?b timer_step (loop0, False) = Some s'" "?Q s'" by blast
  then show ?thesis by (intro exI [of _ "fst s'"]) (simp add: run_timers_def case_prod_beta)
qed

end
