(* ===== verification/EvtSpec.thy ===== *)
theory EvtSpec
  imports EvtTimers
begin

text \<open>
  What the event loop promises: stopping cancels, the pending queues stay in order, descriptors are watched for what
  their events ask for, timers are run when they are due; and where it does not do what one would expect.
\<close>

section \<open>A loop to evaluate on\<close>

definition some_clock :: clock where
  "some_clock = \<lparr>ck_system = (\<lambda>n. \<lparr>tv_sec = 0, tv_usec = 5000\<rparr>), ck_readings = 0, ck_is_cache = True, ck_cached = 5000\<rparr>"

definition some_event :: event where
  "some_event = \<lparr>ev_active = 0, ev_priority = 0, ev_pendpos = 0, ev_data = NULL, ev_cb = 2, ev_fd = 4, ev_event = EVT_READ,
     ev_repeat = 0, ev_timestamp = 0, ev_clean = 0\<rparr>"

definition some_epoll :: epoll where
  "some_epoll = \<lparr>ep_fd = 3, ep_nevent = EPOLL_INIT_NEVENT, ep_interest = Map.empty, ep_accepts = (\<lambda>fd. True), ep_wait = (\<lambda>n t. WaitEvents []), ep_waits = 0\<rparr>"

definition some_loop :: "(addr \<rightharpoonup> event) \<Rightarrow> evt_loop" where
  "some_loop evs = (evt_loop_zero 1 some_clock (evs(200 \<mapsto> some_event\<lparr>ev_cb := 0\<rparr>)) (\<lambda>e. Some NULL) (\<lambda>e. Some 0))\<lparr>lp_pending := [[]],
     lp_pending_size := [LOOP_INIT_PENDSIZE], lp_empty_ev := 200, lp_poll := Some some_epoll\<rparr>"

lemma some_loop_simps [simp]:
  "lp_tid (some_loop evs) = 1" "lp_owner_tid (some_loop evs) = 0" "lp_evs (some_loop evs) = evs(200 \<mapsto> some_event\<lparr>ev_cb := 0\<rparr>)"
  "lp_next (some_loop evs) = (\<lambda>e. Some NULL)" "lp_pending (some_loop evs) = [[]]" "lp_pending_size (some_loop evs) = [LOOP_INIT_PENDSIZE]"
  "lp_empty_ev (some_loop evs) = 200" "lp_poll (some_loop evs) = Some some_epoll" "lp_priority_max (some_loop evs) = 0"
  "lp_fds (some_loop evs) = replicate LOOP_INIT_FDSSIZE \<lparr>fi_evq = NULL, fi_event = 0, fi_revent = 0, fi_flag = 0\<rparr>"
  "lp_fds_change (some_loop evs) = []" "lp_fds_change_size (some_loop evs) = LOOP_INIT_FDSSIZE" "lp_before_evtq (some_loop evs) = NULL"
  "lp_after_evtq (some_loop evs) = NULL" "lp_async_evtq (some_loop evs) = NULL" "lp_timer_cnt (some_loop evs) = 0"
  "lp_timers (some_loop evs) = \<lparr>sp_arr = replicate LOOP_INIT_EVTSIZE NULL, sp_pos = (\<lambda>e. Some 0)\<rparr>" "lp_clock (some_loop evs) = some_clock"
  by (simp_all add: some_loop_def evt_loop_zero_def)

lemma some_event_simps [simp]:
  "ev_active some_event = 0" "ev_priority some_event = 0" "ev_pendpos some_event = 0" "ev_cb some_event = 2" "ev_fd some_event = 4"
  "ev_event some_event = EVT_READ" "ev_repeat some_event = 0" "ev_timestamp some_event = 0"
  by (simp_all add: some_event_def)

lemma some_loop_pend:
  assumes "\<And>e ev. evs e = Some ev \<Longrightarrow> ev_pendpos ev = 0"
  shows "pend_inv (some_loop evs) 0 0"
proof -
  have "pendpos_of (some_loop evs) e = 0" for e using assms by (auto simp: pendpos_of_def ev_get_def split: option.splits)
  then show ?thesis by (simp add: pend_inv_def pend_shape_def pend_fwd_def pend_bwd_def ev_get_def)
qed

lemma some_loop_fds: "fd_inv (some_loop evs) (\<lambda>l. [])"
proof -
  have "list_head (some_loop evs) l = NULL" for l by (cases l) (simp_all add: LOOP_INIT_FDSSIZE_def)
  then have "lists_inv (some_loop evs) (\<lambda>l. [])" by (simp add: lists_inv_def lists_ok_def)
  then show ?thesis by (simp add: fd_inv_def changes_ok_def masks_ok_def watch_ok_def flagged_def has_bit_def)
qed

definition some_queued :: evt_loop where
  "some_queued = (some_loop [10 \<mapsto> some_event\<lparr>ev_active := 1, ev_pendpos := 1\<rparr>])\<lparr>lp_pending := [[10]]\<rparr>"

lemma some_queued_pend: "pend_inv some_queued 0 0"
proof -
  have "pendpos_of some_queued e = (if e = 10 then 1 else 0)" for e by (simp add: some_queued_def pendpos_of_def ev_get_def)
  moreover have "prio_of some_queued e = 0" for e by (simp add: some_queued_def prio_of_def ev_get_def)
  moreover have "lp_pending some_queued = [[10]]" "lp_pending_size some_queued = [LOOP_INIT_PENDSIZE]" "lp_priority_max some_queued = 0"
    "lp_empty_ev some_queued = 200" "lp_evs some_queued 200 = Some (some_event\<lparr>ev_cb := 0\<rparr>)" by (simp_all add: some_queued_def)
  ultimately show ?thesis by (auto simp: pend_inv_def pend_shape_def pend_fwd_def pend_bwd_def ev_get_def)
qed

text \<open>A loop that watches descriptor 4 for one event.\<close>

definition some_watched :: evt_loop where
  "some_watched = (some_loop [10 \<mapsto> some_event\<lparr>ev_active := 1\<rparr>])\<lparr>
     lp_fds := (replicate LOOP_INIT_FDSSIZE \<lparr>fi_evq = NULL, fi_event = 0, fi_revent = 0, fi_flag = 0\<rparr>)[4 := \<lparr>fi_evq = 10, fi_event = EVT_READ, fi_revent = 0, fi_flag = 0\<rparr>],
     lp_poll := Some (some_epoll\<lparr>ep_interest := [4 \<mapsto> epoll_events EVT_READ]\<rparr>)\<rparr>"

lemma some_watched_fds: "fd_inv some_watched ((\<lambda>l. [])(LFd 4 := [10]))"
proof -
  have at: "lp_fds some_watched ! k = (if k = 4 then \<lparr>fi_evq = 10, fi_event = EVT_READ, fi_revent = 0, fi_flag = 0\<rparr>
      else \<lparr>fi_evq = NULL, fi_event = 0, fi_revent = 0, fi_flag = 0\<rparr>)" if "k < 32" for k
    using that by (simp add: some_watched_def LOOP_INIT_FDSSIZE_def nth_list_update)
  have len: "length (lp_fds some_watched) = 32" by (simp add: some_watched_def LOOP_INIT_FDSSIZE_def)
  have F: "lp_next some_watched = (\<lambda>e. Some NULL)" "lp_fds_change some_watched = []" "lp_evs some_watched 10 = Some (some_event\<lparr>ev_active := 1\<rparr>)"
    "lp_poll some_watched = Some (some_epoll\<lparr>ep_interest := [4 \<mapsto> epoll_events EVT_READ]\<rparr>)"
    "lp_before_evtq some_watched = NULL" "lp_after_evtq some_watched = NULL" "lp_async_evtq some_watched = NULL"
    by (simp_all add: some_watched_def)
  have "list_head some_watched l = (if l = LFd 4 then 10 else NULL)" for l by (cases l) (auto simp: len at F)
  then have "lists_inv some_watched ((\<lambda>l. [])(LFd 4 := [10]))" by (auto simp: lists_inv_def lists_ok_def F)
  moreover have "\<not> flagged some_watched k" if "k < 32" for k using at [OF that] by (simp add: flagged_def has_bit_def)
  ultimately show ?thesis by (simp add: fd_inv_def changes_ok_def masks_ok_def watch_ok_def len at F)
qed

lemma some_watched_pend: "pend_inv some_watched 0 0"
proof -
  have "pendpos_of some_watched e = 0" for e by (simp add: some_watched_def pendpos_of_def ev_get_def)
  then show ?thesis by (simp add: pend_inv_def pend_shape_def pend_fwd_def pend_bwd_def ev_get_def) (simp add: some_watched_def)
qed

text \<open>A loop with one timer, due 2000 microseconds ago.\<close>

definition some_timer :: "int \<Rightarrow> evt_loop" where
  "some_timer repeat = (some_loop [10 \<mapsto> some_event\<lparr>ev_active := 1, ev_timestamp := 3000, ev_repeat := repeat\<rparr>])\<lparr>
     lp_timers := \<lparr>sp_arr = (replicate LOOP_INIT_EVTSIZE NULL)[1 := 10], sp_pos = (\<lambda>e. Some (if e = 10 then 1 else 0))\<rparr>, lp_timer_cnt := 1\<rparr>"

lemma some_timer_ok:
  "pend_inv (some_timer r) 0 0" "timers (some_timer r) = {10}" "tm_inv (some_timer r)" "\<not> wrong_thread (some_timer r)" "clock_at (some_timer r) 5000"
  "timer_room {10} (some_timer r)" "sp_pos (lp_timers (some_timer r)) 10 \<noteq> None"
  "lp_evs (some_timer r) 10 = Some (some_event\<lparr>ev_active := 1, ev_timestamp := 3000, ev_repeat := r\<rparr>)" "lp_priority_max (some_timer r) = 0" "lp_timer_cnt (some_timer r) = 1"
  "timer_top (some_timer r) = Some 10"
proof -
  have P: "pendpos_of (some_timer r) e = 0" for e by (simp add: some_timer_def pendpos_of_def ev_get_def)
  then show "pend_inv (some_timer r) 0 0"
    by (simp add: pend_inv_def pend_shape_def pend_fwd_def pend_bwd_def ev_get_def) (simp add: some_timer_def)
  have el: "sp_elems (lp_timers (some_timer r)) 1 = [10]"
    by (simp add: some_timer_def sp_elems_def LOOP_INIT_EVTSIZE_def numeral_eq_Suc)
  then show T: "timers (some_timer r) = {10}" by (simp add: timers_def) (simp add: some_timer_def)
  have "sp_heap lt (lp_timers (some_timer r)) 1" for lt
    unfolding sp_heap_def h1.is_heap_def by (auto simp: pos_ok_def some_timer_def LOOP_INIT_EVTSIZE_def le_Suc_eq)
  then show "tm_inv (some_timer r)" using T by (simp add: tm_inv_def) (simp add: some_timer_def)
  show "timer_room {10} (some_timer r)" using T P by (simp add: timer_room_def) (simp add: some_timer_def)
  show "timer_top (some_timer r) = Some 10" by (simp add: timer_top_def sp_at_def some_timer_def LOOP_INIT_EVTSIZE_def)
qed (simp_all add: some_timer_def wrong_thread_def clock_at_def some_clock_def)

section \<open>The pending queues\<close>

text \<open>C4: in every state a program can reach, by creating and destroying events, starting and stopping them from any
  thread, and running rounds of the loop whose callbacks do the same, every queued event is at its place in the queue
  of its priority, and every entry of a queue is the empty event or an event that knows its place; so no event is
  queued twice.\<close>

theorem evt_pending_in_order:
  assumes "loop_reach prog loop"
  shows "(\<forall>e. pendpos_of loop e \<noteq> 0 \<longrightarrow> prio_of loop e \<le> lp_priority_max loop \<and>
      pendpos_of loop e \<le> length (lp_pending loop ! prio_of loop e) \<and> lp_pending loop ! prio_of loop e ! (pendpos_of loop e - 1) = e) \<and>
    (\<forall>p\<le>lp_priority_max loop. \<forall>k<length (lp_pending loop ! p). lp_pending loop ! p ! k = lp_empty_ev loop \<or>
      pendpos_of loop (lp_pending loop ! p ! k) = k + 1 \<and> prio_of loop (lp_pending loop ! p ! k) = p)"
  using reach_inv [OF assms] by (auto simp: pend_inv_def pend_fwd_def pend_bwd_def)

theorem evt_pending_in_order_witness:
  "\<exists>loop. loop_reach (\<lambda>cb e loop. []) loop \<and> lp_pending loop = [[]] \<and> (\<forall>e. pendpos_of loop e = 0)"
proof -
  obtain loop where r: "evt_loop_init_flag (run_prog (\<lambda>cb e loop. [])) (evt_loop_zero 1 some_clock Map.empty Map.empty Map.empty) 5 3 (\<lambda>fd. True)
      (\<lambda>n t. WaitEvents []) 100 200 some_event = Some (loop, True)" "lp_pending loop = [[]]" "lp_priority_max loop = 0"
    by (simp add: evt_loop_init_flag_def evt_loop_zero_def evt_io_start_def wrong_thread_def ev_get_def evt_io_init_def evt_base_init_def
      ev_activate_def ev_put_def check_and_expand_array_def LOOP_INIT_FDSSIZE_def fds_at_def splst_add_def splst_next_def evt_fd_change_def fds_put_def has_bit_def
      epoll_init_def LOOP_PRIORITY_INIT_MAX_def Let_def)
  have reach: "loop_reach (\<lambda>cb e loop. []) loop" by (rule loop_reach.created [OF r(1)]) simp_all
  then show ?thesis using evt_pending_in_order [OF reach] r(2,3) by force
qed

text \<open>C6: stopping an active event, in the thread of the loop and also within a callback while the queue is being run,
  takes it out of all that is still to be run.\<close>

theorem evt_stop_cancels:
  assumes "pend_inv loop i j" and "\<not> wrong_thread loop" and "ev_get loop e = Some ev" and "ev_active ev \<noteq> 0"
    and "a \<in> {IoStop e, TimerStop e, BeforeStop e, AfterStop e}" and "run_action a loop = Some loop'" and "e \<noteq> lp_empty_ev loop'"
  shows "pend_inv loop' i j \<and> pendpos_of loop' e = 0 \<and>
    (\<forall>p\<le>lp_priority_max loop'. \<forall>k<length (lp_pending loop' ! p). \<not> (p = i \<and> k < j) \<longrightarrow> lp_pending loop' ! p ! k \<noteq> e)"
proof -
  have "stopped loop' e i j"
    using assms io_stop_stops timer_stop_stops before_stop_stops after_stop_stops by auto
  then have S: "pend_inv loop' i j" "pendpos_of loop' e = 0" by (simp_all add: stopped_def)
  show ?thesis using S unqueued_not_run [OF S assms(7)] by blast
qed

theorem evt_stop_cancels_witness:
  "\<exists>loop'. evt_timer_stop some_queued 10 = Some loop' \<and> lp_pending loop' = [[200]] \<and> pendpos_of loop' 10 = 0"
proof -
  obtain loop' where r: "evt_timer_stop some_queued 10 = Some loop'" "lp_pending loop' = [[200]]" "lp_empty_ev loop' = 200"
    by (simp add: some_queued_def evt_timer_stop_def wrong_thread_def ev_get_def ev_put_def evt_unpend_def pend_q_def Let_def)
  then show ?thesis using evt_stop_cancels [OF some_queued_pend, of 10 _ "TimerStop 10"]
    by (simp add: some_queued_def wrong_thread_def ev_get_def)
qed



section \<open>Descriptors\<close>

text \<open>C7: starting an event of a descriptor puts it in front of the list of the descriptor and of no other list, and
  when the loop has passed its changes on, \<^verbatim>\<open>epoll\<close> watches the descriptor for the union of what its events ask for,
  whatever it knew of it before.\<close>

theorem evt_io_start_watches:
  assumes "fd_inv loop Q" and "\<not> wrong_thread loop" and "ev_get loop e = Some ev" and "ev_active ev \<noteq> 1" and "ev_fd ev = fd"
    and "\<And>l. e \<notin> set (Q l)" and "e \<in> dom (lp_next loop)" and "fd < 2 ^ 30" and "length (lp_fds_change loop) < 2 ^ 30"
  shows "\<exists>loop' loop'' ep. evt_io_start loop e = Some loop' \<and> evt_update_fdchanges loop' = Some loop'' \<and>
    fd_inv loop'' (Q(LFd fd := e # Q (LFd fd))) \<and> fi_event (lp_fds loop'' ! fd) = mask_of loop'' (e # Q (LFd fd)) \<and>
    lp_poll loop'' = Some ep \<and> (mask_of loop'' (e # Q (LFd fd)) \<noteq> 0 \<and> ep_accepts ep fd \<longrightarrow>
      ep_interest ep fd = Some (epoll_events (mask_of loop'' (e # Q (LFd fd)))))"
proof -
  let ?Q = "Q(LFd fd := e # Q (LFd fd))"
  obtain l1 where l1: "evt_io_start loop e = Some l1" "fd_inv l1 ?Q"
    using io_start_refines [OF assms(1-4,6,7)] assms(5,8,9) by auto
  obtain l2 where l2: "evt_update_fdchanges l1 = Some l2" "fd_inv l2 ?Q" "\<forall>fd<length (lp_fds l2). fi_event (lp_fds l2 ! fd) = mask_of l2 (?Q (LFd fd))"
    using update_fdchanges_ok [OF l1(2)] by blast
  have fd: "fd < length (lp_fds l2)"
    using lists_inv_out [of l2 ?Q fd] l2(2) by (force simp: fd_inv_def)
  have m: "fi_event (lp_fds l2 ! fd) = mask_of l2 (e # Q (LFd fd))" using l2(3) fd by (simp del: mask_of_simps)
  have "watch_ok l2" using l2(2) by (simp add: fd_inv_def)
  then obtain ep where ep: "lp_poll l2 = Some ep" "fi_event (lp_fds l2 ! fd) \<noteq> 0 \<and> ep_accepts ep fd \<longrightarrow> ep_interest ep fd = Some (epoll_events (fi_event (lp_fds l2 ! fd)))"
    using fd by (auto simp: watch_ok_def split: option.splits)
  show ?thesis using l1(1) l2(1,2) m ep by (intro exI [of _ l1] exI [of _ l2] exI [of _ ep]) (simp del: mask_of_simps)
qed

theorem evt_io_start_watches_witness:
  "\<exists>loop' loop''. evt_io_start (some_loop [10 \<mapsto> some_event]) 10 = Some loop' \<and> evt_update_fdchanges loop' = Some loop'' \<and>
    fi_event (lp_fds loop'' ! 4) = mask_of loop'' [10]"
  using evt_io_start_watches [OF some_loop_fds, of "[10 \<mapsto> some_event]" 10 some_event 4] by (auto simp: wrong_thread_def ev_get_def)

text \<open>Stopping an event of a descriptor takes it, and nothing else, out of the list of the descriptor, and marks
  the descriptor, so that its new mask is passed on in the next round.\<close>

theorem evt_io_stop_removes:
  assumes "fd_inv loop Q" and "pend_inv loop i j" and "\<not> wrong_thread loop" and "ev_get loop e = Some ev" and "ev_active ev \<noteq> 0"
    and "ev_fd ev = fd" and "fd < length (lp_fds loop)" and "length (lp_fds_change loop) < 2 ^ 30"
  shows "\<exists>loop'. evt_io_stop loop e = Some loop' \<and> fd_inv loop' (Q(LFd fd := remove1 e (Q (LFd fd)))) \<and> fd \<in> set (lp_fds_change loop') \<and>
    pend_inv loop' i j \<and> pendpos_of loop' e = 0"
proof -
  obtain loop' where r: "evt_io_stop loop e = Some loop'" "fd_inv loop' (Q(LFd fd := remove1 e (Q (LFd fd))))" "fd \<in> set (lp_fds_change loop')"
    using io_stop_refines [OF assms(1-5)] assms(6-8) by auto
  then show ?thesis using io_stop_stops [OF assms(2) r(1) assms(3-5)] by (simp add: stopped_def)
qed

theorem evt_io_stop_removes_witness:
  "\<exists>loop'. evt_io_stop some_watched 10 = Some loop' \<and> fd_inv loop' (\<lambda>l. []) \<and> 4 \<in> set (lp_fds_change loop')"
proof -
  have "ev_get some_watched 10 = Some (some_event\<lparr>ev_active := 1\<rparr>)" "\<not> wrong_thread some_watched" "lp_fds_change some_watched = []" "4 < length (lp_fds some_watched)"
    by (simp_all add: some_watched_def ev_get_def wrong_thread_def LOOP_INIT_FDSSIZE_def)
  moreover have "(\<lambda>l. [])(LFd 4 := [10::addr], LFd 4 := remove1 10 [10]) = (\<lambda>l. [])" by (simp add: fun_eq_iff)
  ultimately show ?thesis using evt_io_stop_removes [OF some_watched_fds some_watched_pend, of 10 _ 4] by auto
qed

lemma epoll_change_grows:
  assumes "nev \<noteq> 0"
  shows "dom (ep_interest ep) \<subseteq> dom (ep_interest (fst (epoll_change ep fd oev nev)))"
  using assms by (auto simp: epoll_change_def epoll_ctl_def split: option.splits)

lemma update_fdchange_grows:
  assumes "update_fdchange loop fd = Some loop'" and "lp_poll loop = Some ep"
  shows "\<exists>ep'. lp_poll loop' = Some ep' \<and> dom (ep_interest ep) \<subseteq> dom (ep_interest ep')"
proof -
  obtain fdi nev where A: "fds_at loop fd = Some fdi" "evq_mask (fds_put loop fd (fdi\<lparr>fi_flag := fi_flag fdi AND NOT FDS_FLAG_CHANGED\<rparr>)) (fi_evq fdi) = Some nev"
    using assms(1) by (auto simp: update_fdchange_def Let_def bind_eq_Some_conv)
  show ?thesis
  proof (cases "fi_event fdi = nev \<or> nev = 0")
    case True
    then have "lp_poll loop' = lp_poll loop"
      using assms(1) A by (auto simp: update_fdchange_def Let_def epoll_update_def fds_put_def split: if_splits)
    then show ?thesis using assms(2) by simp
  next
    case False
    then have "lp_poll loop' = Some (fst (epoll_change ep fd (fi_event fdi) nev))"
      using assms A by (auto simp: update_fdchange_def Let_def epoll_update_def fds_put_def case_prod_beta)
    then show ?thesis using epoll_change_grows False by simp
  qed
qed

text \<open>Passing the changes on never takes a descriptor out of the set of \<^verbatim>\<open>epoll\<close>: a descriptor whose last event
  has been stopped stays watched until it is reported, because the backend leaves the deletion to the dispatch.\<close>

theorem evt_update_never_unwatches:
  assumes "evt_update_fdchanges loop = Some loop'" and "lp_poll loop = Some ep"
  shows "\<exists>ep'. lp_poll loop' = Some ep' \<and> dom (ep_interest ep) \<subseteq> dom (ep_interest ep')"
proof -
  have list: "update_fdchange_list fds l = Some l' \<Longrightarrow> lp_poll l = Some e \<Longrightarrow> \<exists>ep'. lp_poll l' = Some ep' \<and> dom (ep_interest e) \<subseteq> dom (ep_interest ep')" for fds l l' e
  proof (induction fds arbitrary: l e)
    case (Cons fd fds)
    then obtain l1 where l1: "update_fdchange l fd = Some l1" "update_fdchange_list fds l1 = Some l'" by (auto simp: bind_eq_Some_conv)
    then show ?case using update_fdchange_grows [OF l1(1) Cons.prems(2)] Cons.IH [OF l1(2)] by (meson subset_trans)
  qed simp
  obtain l where "update_fdchange_list (lp_fds_change loop) loop = Some l" "loop' = l\<lparr>lp_fds_change := []\<rparr>"
    using assms(1) by (auto simp: evt_update_fdchanges_def bind_eq_Some_conv)
  then show ?thesis using list [OF _ assms(2)] by auto
qed

theorem evt_update_never_unwatches_witness:
  "\<exists>loop' loop'' ep. evt_io_stop some_watched 10 = Some loop' \<and> evt_update_fdchanges loop' = Some loop'' \<and>
    lp_poll loop'' = Some ep \<and> 4 \<in> dom (ep_interest ep)"
proof -
  have W: "ev_get some_watched 10 = Some (some_event\<lparr>ev_active := 1\<rparr>)" "\<not> wrong_thread some_watched" "lp_fds_change some_watched = []" "4 < length (lp_fds some_watched)"
    by (simp_all add: some_watched_def ev_get_def wrong_thread_def LOOP_INIT_FDSSIZE_def)
  obtain l where l: "evt_io_stop some_watched 10 = Some l" "fd_inv l ((\<lambda>l. [])(LFd 4 := [10], LFd 4 := remove1 10 [10]))"
    using io_stop_refines [OF some_watched_fds some_watched_pend W(2,1)] W(3,4) by auto
  have "lp_poll l = lp_poll some_watched"
    using l(1) W by (auto simp: evt_io_stop_def evt_unpend_def ev_get_put Let_def bind_eq_Some_conv fds_put_def evt_fd_change_def split: if_splits)
  then have p: "lp_poll l = Some (some_epoll\<lparr>ep_interest := [4 \<mapsto> epoll_events EVT_READ]\<rparr>)" by (simp add: some_watched_def)
  obtain l2 where l2: "evt_update_fdchanges l = Some l2" using update_fdchanges_ok [OF l(2)] by blast
  show ?thesis using evt_update_never_unwatches [OF l2 p] l(1) l2 by auto
qed

section \<open>Timers\<close>

text \<open>C5: the loop over the timers that are due ends. Each timer that was due is queued, to be run in the same round;
  it is gone if it does not repeat, and otherwise is armed for the first multiple of its period, counted from when it
  was due, that lies in the future, so that periods do not drift. Timers that were not due are left alone.\<close>

theorem evt_timers_due:
  assumes "pend_inv loop 0 0" and "tm_inv loop" and "\<not> wrong_thread loop" and "clock_at loop now" and "timer_room (timers loop) loop"
    and "\<And>e. e \<in> timers loop \<Longrightarrow> sp_pos (lp_timers loop) e \<noteq> None"
    and "\<And>e ev. e \<in> timers loop \<Longrightarrow> lp_evs loop e = Some ev \<Longrightarrow>
      ev_priority ev \<le> lp_priority_max loop \<and> ev_repeat ev < 2 ^ 61 \<and> \<bar>ev_timestamp ev\<bar> < 2 ^ 62"
    and "\<bar>now\<bar> < 2 ^ 61"
  shows "\<exists>loop'. run_timers loop = Some loop' \<and> pend_inv loop' 0 0 \<and> tm_inv loop' \<and> (\<forall>e\<in>timers loop.
    if now < timestamp_of loop e then e \<in> timers loop' \<and> timestamp_of loop' e = timestamp_of loop e
    else pendpos_of loop' e \<noteq> 0 \<and> (if 0 < repeat_of loop e
      then e \<in> timers loop' \<and> (\<exists>k. timestamp_of loop' e = timestamp_of loop e + int k * repeat_of loop e) \<and>
        timestamp_of loop' e - repeat_of loop e \<le> now \<and> now < timestamp_of loop' e
      else e \<notin> timers loop'))"
proof -
  have "e \<noteq> NULL \<and> (\<exists>ev. lp_evs loop e = Some ev \<and> ev_priority ev \<le> lp_priority_max loop \<and> ev_repeat ev = repeat_of loop e \<and>
        ev_repeat ev < 2 ^ 61 \<and> \<bar>ev_timestamp ev\<bar> < 2 ^ 62) \<and> timer_done loop now loop e" if e: "e \<in> timers loop" for e
  proof -
    obtain ev where ev: "lp_evs loop e = Some ev" "e \<noteq> NULL" using assms(2) e by (auto simp: tm_inv_def)
    then show ?thesis using assms(7) [OF e ev(1)] e by (simp add: repeat_of_def timer_done_def)
  qed
  then have "times_inv loop now loop" using assms(1-6) by (auto simp: times_inv_def)
  then obtain loop' where r: "run_timers loop = Some loop'" "times_inv loop now loop'" "\<forall>e\<in>timers loop'. now < timestamp_of loop' e"
    using run_timers_ok [OF _ assms(8)] by blast
  have "pend_inv loop' 0 0" "tm_inv loop'" and each: "\<And>e. e \<in> timers loop \<Longrightarrow> timer_done loop now loop' e" using r(2) by (simp_all add: times_inv_def)
  moreover have "if now < timestamp_of loop e then e \<in> timers loop' \<and> timestamp_of loop' e = timestamp_of loop e
    else pendpos_of loop' e \<noteq> 0 \<and> (if 0 < repeat_of loop e
      then e \<in> timers loop' \<and> (\<exists>k. timestamp_of loop' e = timestamp_of loop e + int k * repeat_of loop e) \<and>
        timestamp_of loop' e - repeat_of loop e \<le> now \<and> now < timestamp_of loop' e
      else e \<notin> timers loop')" if e: "e \<in> timers loop" for e
  proof (cases "now < timestamp_of loop e")
    case True
    then show ?thesis using each [OF e] by (auto simp: timer_done_def)
  next
    case False
    then have "\<not> (e \<in> timers loop' \<and> timestamp_of loop' e = timestamp_of loop e)" using r(3) by fastforce
    then show ?thesis using each [OF e] False r(3) by (auto simp: timer_done_def split: if_splits)
  qed
  ultimately show ?thesis using r(1) by blast
qed

theorem evt_timers_due_witness:
  "\<exists>loop'. run_timers (some_timer 1500) = Some loop' \<and> pendpos_of loop' 10 \<noteq> 0 \<and> 10 \<in> timers loop' \<and>
    timestamp_of loop' 10 - 1500 \<le> 5000 \<and> 5000 < timestamp_of loop' 10"
proof -
  have "timestamp_of (some_timer 1500) 10 = 3000" "repeat_of (some_timer 1500) 10 = 1500"
    by (simp_all add: timestamp_of_def repeat_of_def some_timer_ok(8))
  then show ?thesis
    using evt_timers_due [OF some_timer_ok(1,3,4,5) _ _ _, of 1500] some_timer_ok(2,6,7,8,9) [of 1500] by fastforce
qed

text \<open>A timer that does not repeat is out of the heap once it is due, but it stays marked as active: starting it
  again from its callback does nothing.\<close>

theorem evt_timer_once_stays_active:
  assumes "tm_inv loop" and "0 < lp_timer_cnt loop" and "timer_top loop = Some e" and "ev_get loop e = Some ev"
    and "ev_active ev = 1" and "ev_repeat ev \<le> 0" and "timer_step (loop, False) = Some (loop', False)"
  shows "e \<notin> timers loop' \<and> evt_timer_start loop' e = Some loop'"
proof -
  obtain l now where l: "loop_catime loop = Some (l, now)" using assms(3,4,7) by (auto simp: timer_step_def bind_eq_Some_conv)
  then obtain ck where ck: "l = loop\<lparr>lp_clock := ck\<rparr>" by (auto simp: loop_catime_def bind_eq_Some_conv)
  have due: "\<not> now < ev_timestamp ev" using assms(3,4,7) l by (auto simp: timer_step_def)
  obtain l1 h cnt where B: "evt_append_pending l e = Some l1" "spheap_pop (EVTTIMER_CMP l1) (lp_timers l1) (lp_timer_cnt l1) = Some (h, cnt)"
    using assms(3,4,7) l due by (auto simp: timer_step_def Let_def bind_eq_Some_conv)
  have gl: "ev_get l e = Some ev" using assms(4) ck by simp
  have l1: "lp_timers l1 = lp_timers loop" "lp_timer_cnt l1 = lp_timer_cnt loop" "\<exists>pos. lp_evs l1 = (lp_evs loop)(e \<mapsto> ev\<lparr>ev_pendpos := pos\<rparr>)"
  proof -
    have g: "lp_evs loop e = Some ev" using assms(4) ev_get_Some [OF assms(4)] by (simp add: ev_get_def)
    have same: "lp_evs loop = (lp_evs loop)(e \<mapsto> ev\<lparr>ev_pendpos := ev_pendpos ev\<rparr>)" using g by (simp add: fun_upd_idem)
    show "lp_timers l1 = lp_timers loop" "lp_timer_cnt l1 = lp_timer_cnt loop" using B(1) by (cases rule: append_pending_cases; simp add: ck)+
    show "\<exists>pos. lp_evs l1 = (lp_evs loop)(e \<mapsto> ev\<lparr>ev_pendpos := pos\<rparr>)"
      using B(1)
    proof (cases rule: append_pending_cases)
      case 1
      then have "lp_evs l1 = lp_evs loop" using ck by simp
      then show ?thesis using exI [of "\<lambda>pos. lp_evs loop = (lp_evs loop)(e \<mapsto> ev\<lparr>ev_pendpos := pos\<rparr>)", OF same] by (simp only:)
    next
      case (2 ev' sz q)
      then show ?thesis using gl ck by (auto simp: ev_put_def)
    qed
  qed
  then obtain pos where pos: "lp_evs l1 = (lp_evs loop)(e \<mapsto> ev\<lparr>ev_pendpos := pos\<rparr>)" by blast
  have t1: "tm_inv l1" "timers l1 = timers loop"
    using tm_inv_cong [OF assms(1) l1(1,2)] pos assms(4) ev_get_Some [OF assms(4)] by (auto simp: ev_get_def)
  have "timer_top l1 = Some e" using assms(3) l1(1) by (simp add: timer_top_def)
  then have T: "timers (l1\<lparr>lp_timers := h, lp_timer_cnt := cnt\<rparr>) = timers l1 - {e}"
    using timer_pop_ok [OF t1(1)] assms(2) l1(2) B(2) by auto
  have g1: "ev_get (l1\<lparr>lp_timers := h, lp_timer_cnt := cnt\<rparr>) e = Some (ev\<lparr>ev_pendpos := pos\<rparr>)"
    using pos ev_get_Some [OF assms(4)] by (simp add: ev_get_def)
  have loop': "loop' = l1\<lparr>lp_timers := h, lp_timer_cnt := cnt\<rparr>"
    using assms(3,4,6,7) l due B g1 by (auto simp: timer_step_def Let_def)
  have "evt_timer_start loop' e = Some loop'" using g1 assms(5) unfolding loop' by (simp add: evt_timer_start_def)
  then show ?thesis using T loop' by blast
qed

theorem evt_timer_once_stays_active_witness:
  "\<exists>loop'. timer_step (some_timer 0, False) = Some (loop', False) \<and> 10 \<notin> timers loop' \<and> evt_timer_start loop' 10 = Some loop'"
proof -
  let ?L = "some_timer 0"
  have "times_inv ?L 5000 ?L" using some_timer_ok [of 0] by (auto simp: times_inv_def timer_done_def repeat_of_def)
  moreover have "timestamp_of ?L 10 = 3000" by (simp add: timestamp_of_def some_timer_ok(8))
  ultimately obtain loop' where r: "timer_step (?L, False) = Some (loop', False)"
    using timer_step_ok [of ?L 5000 ?L] some_timer_ok(2,10) [of 0] by auto
  have g: "ev_get ?L 10 = Some (some_event\<lparr>ev_active := 1, ev_timestamp := 3000, ev_repeat := 0\<rparr>)" using some_timer_ok(8) by (simp add: ev_get_def)
  show ?thesis using evt_timer_once_stays_active [OF some_timer_ok(3) _ some_timer_ok(11) g _ _ r] r some_timer_ok(10) by simp
qed

section \<open>Quitting and failing\<close>

text \<open>Asking the loop to quit before it runs has no effect but a wakeup, because the loop forgets its status when it
  starts: a program that quits a loop another thread is about to run waits for ever.\<close>

theorem evt_quit_before_run_lost:
  "evt_loop_run call (fst (evt_loop_quit loop)) = evt_loop_run call (if lp_owner_tid loop \<noteq> lp_tid loop then fst (evt_loop_wakeup loop) else loop)"
  by (simp add: evt_loop_run_def evt_loop_quit_def evt_loop_wakeup_def Let_def)

text \<open>When there is no \<^verbatim>\<open>eventfd\<close>, creating the loop does not return \<^verbatim>\<open>NULL\<close> but destroys the lock of the half
  made loop through a pointer that is \<^verbatim>\<open>NULL\<close>.\<close>

theorem evt_init_failure_crashes:
  assumes "evtfd < 0"
  shows "evt_loop_init_flag call (evt_loop_zero tid ck evs nx pos) evtfd epfd accepts wait evev empt garbage = None"
proof -
  have "\<not> has_bit LOOP_STATUS_INIT LOOP_STATUS_RUNNING" by (simp add: has_bit_def LOOP_STATUS_INIT_def LOOP_STATUS_RUNNING_def)
  then have "evt_loop_destroy call (evt_loop_zero tid ck evs nx pos) = None"
    by (simp add: evt_loop_destroy_def evt_loop_zero_def while_c_stop)
  then show ?thesis using assms by (simp add: evt_loop_init_flag_def)
qed

theorem evt_init_failure_crashes_witness:
  "evt_loop_init_flag (run_prog (\<lambda>cb e loop. [])) (evt_loop_zero 1 some_clock Map.empty Map.empty Map.empty) (- 1) 3 (\<lambda>fd. True)
    (\<lambda>n t. WaitEvents []) 100 200 some_event = None"
  by (rule evt_init_failure_crashes) simp

end
