(* ===== verification/TcpSpec.thy ===== *)
theory TcpSpec
  imports TcpConn EvtSpec
begin

text \<open>
  What connections and servers promise: the order of what is sent, the counting of connections, the choice of loops;
  and where the code goes wrong.
\<close>

section \<open>A process to evaluate on\<close>

definition some_sock :: "byte list io_result list \<Rightarrow> nat io_result list \<Rightarrow> sock" where
  "some_sock inp out = Sock inp out [] [] [] [] []"

definition some_client :: tcp_client where
  "some_client = \<lparr>tc_flag = TCPFLG_CLT_PASV OR TCPFLG_IS_CLIENT, tc_fd = 4, tc_loop_on = 0, tc_data = NULL, tc_on_read = 0, tc_on_write = 0,
     tc_on_close = 0, tc_on_connect = 0, tc_peer = 30, tc_rbuf = buf_init OHBUFFER_UNIT_DEFAULT_SIZE, tc_wbuf = buf_init OHBUFFER_UNIT_DEFAULT_SIZE\<rparr>"

definition some_io_loop :: evt_loop where
  "some_io_loop = some_loop [21 \<mapsto> evt_io_init zero_event TCP_CB_READ 4 EVT_READ, 22 \<mapsto> evt_io_init zero_event TCP_CB_WRITE 4 EVT_WRITE]"

definition some_process :: "tcp_client \<Rightarrow> sock \<Rightarrow> process" where
  "some_process cl sk = \<lparr>w_loops = [some_io_loop], w_clients = [20 \<mapsto> cl], w_servers = Map.empty, w_hubs = Map.empty, w_lbs = Map.empty, w_socks = [4 \<mapsto> sk]\<rparr>"

lemma some_io_loop_ok: "io_loop some_io_loop (\<lambda>l. [])"
  unfolding io_loop_def some_io_loop_def
  by (intro conjI some_loop_fds exI [of _ 0] some_loop_pend)
    (auto simp: evt_io_init_def evt_base_init_def wrong_thread_def LOOP_INIT_FDSSIZE_def split: if_splits)

lemma some_io_loop_ready: "rw_ready some_io_loop 21 22 4 False False"
proof -
  note some_io_loop_ok
  moreover have "io_event some_io_loop (\<lambda>l. []) 21 4 EVT_READ False" "io_event some_io_loop (\<lambda>l. []) 22 4 EVT_WRITE False"
    by (simp_all add: io_event_def some_io_loop_def ev_get_def evt_io_init_def evt_base_init_def)
  moreover have "4 < length (lp_fds some_io_loop)" by (simp add: some_io_loop_def LOOP_INIT_FDSSIZE_def)
  ultimately show ?thesis by (auto simp: rw_ready_def io_ready_def)
qed

lemma some_process_conn:
  assumes "tc_fd cl = 4" "tc_loop_on cl = 0" "buf_ok (tc_rbuf cl) inp" "buf_ok (tc_wbuf cl) out"
  shows "conn (some_process cl sk) 20 cl sk inp out False False"
  using assms some_io_loop_ready by (simp add: conn_def some_process_def read_ev_def write_ev_def)

lemma some_flags: "\<not> has_flag (tc_flag some_client) TCPFLG_CLT_CONNING" "\<not> has_flag (tc_flag some_client) TCPFLG_CLT_WAITCLS"
  "has_flag (tc_flag some_client) TCPFLG_CLT_PASV"
  unfolding some_client_def tcp_client.simps flag_bits by simp_all

section \<open>Streams\<close>


lemma some_process_stream: "stream (some_process some_client (some_sock [] [IoOk 1, IoEintr, IoOk 1])) 20 [] True"
  by (rule streamI [OF some_process_conn [where inp = "[]" and out = "[]"], where f = "tc_flag some_client"])
    (simp_all only: some_flags not_False_eq_True, simp_all add: some_client_def buf_init_ok some_sock_def)



lemma some_output: "\<exists>b. buf_ok b [1, 2 :: byte]"
  using buf_write_ok [OF next_addr_good buf_init_ok, of "\<lambda>n. 0" "[1, 2]"] by auto


text \<open>\<^verbatim>\<open>tcp_send_buffer\<close> sends past the buffer of the connection: what waits there, given earlier, is sent later.\<close>

theorem tcp_send_buffer_overtakes:
  assumes "conn w c cl sk inp out ra wa" and "set (sk_errs sk) \<subseteq> {Eagain}" and "buf_ok buf xs"
  shows "\<exists>w' buf' sk' n. tcp_send_buffer w c buf = Some (w', buf', int n) \<and> n \<le> length xs \<and> buf_ok buf' (drop n xs) \<and>
    sk_sent sk' = sk_sent sk @ take n xs \<and> conn w' c cl sk' inp out ra wa"
proof -
  obtain b' ret n rs where f: "buf_fd_write buf (sk_out sk) = Some (b', ret, int n, take n xs, rs)" "buf_ok b' (drop n xs)"
    "n \<le> length xs" using fd_write_ok [OF assms(3), of "sk_out sk"] by blast
  let ?e = "if ret < 0 then take_err (sk_errs sk) else (Eagain, sk_errs sk)"
  let ?sk = "Sock (sk_in sk) rs (snd ?e) (sk_soerr sk) (sk_connect sk) (sk_accept sk) (sk_sent sk @ take n xs)"
  let ?w = "sk_put w (tc_fd cl) ?sk"
  have "sock_send w buf (tc_fd cl) = Some (?w, b', ret, int n, Eagain)"
    using connD(2) [OF assms(1)] f(1) take_err_again [OF assms(2)] by (simp add: sock_send_def case_prod_beta Let_def)
  then have "tcp_send_buffer w c buf = Some (?w, b', int n)" using connD(1) [OF assms(1)] by (simp add: tcp_send_buffer_def)
  then show ?thesis using f(2,3) conn_sock [OF assms(1)] by (intro exI [of _ ?w] exI [of _ b'] exI [of _ ?sk] exI [of _ n]) simp
qed

theorem tcp_send_buffer_overtakes_witness:
  "\<exists>cl buf w' buf' sk' n. tcp_send_buffer (some_process cl (some_sock [] [IoOk 9])) 20 buf = Some (w', buf', int n) \<and>
    sk_sent sk' = take n [1, 2] \<and> buf_ok (tc_wbuf cl) [1, 2]"
proof -
  obtain b where b: "buf_ok b [1, 2]" using some_output by blast
  let ?cl = "some_client\<lparr>tc_wbuf := b\<rparr>" let ?sk = "some_sock [] [IoOk 9]"
  have c: "conn (some_process ?cl ?sk) 20 ?cl ?sk [] [1, 2] False False"
    by (rule some_process_conn) (simp_all add: some_client_def buf_init_ok b)
  obtain w' buf' sk' n where "tcp_send_buffer (some_process ?cl ?sk) 20 b = Some (w', buf', int n)" "sk_sent sk' = sk_sent ?sk @ take n [1, 2]"
    using tcp_send_buffer_overtakes [OF c _ b] by (auto simp: some_sock_def)
  then show ?thesis using b by (intro exI [of _ ?cl] exI [of _ b] exI [of _ w'] exI [of _ buf'] exI [of _ sk'] exI [of _ n]) (simp add: some_sock_def)
qed

section \<open>Closing\<close>

lemma cb_close_cases:
  assumes "tcp_cb_close call w c = Some w'" and "tc_get w c = Some cl" and "tc_on_close cl = 0" and "has_flag (tc_flag cl) TCPFLG_CLT_PASV"
  obtains srv pool where "ts_get w (tc_peer cl) = Some srv"
    "objpool_free_obj (ts_clt_objpool srv) c (has_flag (ts_flag srv) TCPFLG_SRV_MLOOP) = Some pool"
    "w_servers w' = (w_servers w)(tc_peer cl \<mapsto> srv\<lparr>ts_conn_cnt := ts_conn_cnt srv - 1, ts_clt_objpool := pool\<rparr>)"
    "w_clients w' = (w_clients w)(c := None)" "w_socks w' (tc_fd cl) = None"
proof -
  obtain w1 w2 rb wb where A: "io_op evt_io_stop w (tc_loop_on cl) (write_ev c) = Some w1" "io_op evt_io_stop w1 (tc_loop_on cl) (read_ev c) = Some w2"
    "buf_destroy (tc_rbuf cl) = Some rb" "buf_destroy (tc_wbuf cl) = Some wb"
    using assms by (auto simp: tcp_cb_close_def user_cb_def Let_def bind_eq_Some_conv)
  note same = io_op_same [OF A(1)] io_op_same [OF A(2)]
  have ts: "ts_get (sk_close w2 fd) s = ts_get w s" for fd s using same by (simp add: ts_get_def sk_close_def)
  obtain srv pool where B: "ts_get w (tc_peer cl) = Some srv"
    "objpool_free_obj (ts_clt_objpool srv) c (has_flag (ts_flag srv) TCPFLG_SRV_MLOOP) = Some pool"
    using assms A ts by (auto simp: tcp_cb_close_def user_cb_def Let_def bind_eq_Some_conv)
  have "w' = (ts_put (sk_close w2 (tc_fd cl)) (tc_peer cl) (srv\<lparr>ts_conn_cnt := ts_conn_cnt srv - 1, ts_clt_objpool := pool\<rparr>))\<lparr>w_clients := (w_clients w2)(c := None)\<rparr>"
    using assms A B ts by (simp add: tcp_cb_close_def user_cb_def Let_def) (simp add: ts_put_def sk_close_def)
  then show thesis using that [OF B] same by (simp add: ts_put_def sk_close_def)
qed

lemma tcp_close_gone:
  assumes "tcp_close call w c = Some w'" and "tc_get w c = Some cl" and "tc_on_close cl = 0" and "has_flag (tc_flag cl) TCPFLG_CLT_PASV"
  shows "tc_get w' c = None"
proof -
  obtain w1 w2 where A: "io_op evt_io_stop w (tc_loop_on cl) (read_ev c) = Some w1" "io_op evt_io_stop w1 (tc_loop_on cl) (write_ev c) = Some w2"
    "tcp_cb_close call w2 c = Some w'" using assms(1,2) by (auto simp: tcp_close_def bind_eq_Some_conv)
  have g: "tc_get w2 c = Some cl" using io_op_same [OF A(1)] io_op_same [OF A(2)] assms(2) by (simp add: tc_get_Some)
  show ?thesis using A(3) g assms(3,4) by (cases rule: cb_close_cases) (simp add: tc_get_def)
qed




definition some_server :: "objpool \<Rightarrow> int \<Rightarrow> tcp_server" where
  "some_server pool n = \<lparr>ts_flag = TCPFLG_IS_SERVER, ts_fd = 5, ts_loop_on = 0, ts_data = NULL, ts_on_read = 0, ts_on_write = 0, ts_on_close = 0,
     ts_on_accept = 0, ts_clt_objpool = pool, ts_bufu_objpool = objpool_init 1 8, ts_conn_cnt = n, ts_lb_ctx = NULL, ts_hub = 40\<rparr>"

definition accept_demo :: process where
  "accept_demo = \<lparr>w_loops = [some_loop Map.empty], w_clients = Map.empty, w_servers = [30 \<mapsto> some_server (objpool_init 1 8) 0], w_hubs = Map.empty,
     w_lbs = Map.empty, w_socks = [5 \<mapsto> Sock [] [] [] [] [] [IoEintr, IoOk (4, some_sock [] [])] []]\<rparr>"

section \<open>Counting connections\<close>

text \<open>\<open>used\<close> are the connections of a server: the objects of its pool that are in use, and as many as it counts.\<close>

definition srv_ok :: "process \<Rightarrow> addr \<Rightarrow> addr list \<Rightarrow> bool" where
  "srv_ok w s used \<longleftrightarrow> s \<noteq> NULL \<and> (\<exists>srv. w_servers w s = Some srv \<and> pool_ok (ts_clt_objpool srv) used \<and> ts_conn_cnt srv = int (length used))"

lemma io_init_same: "io_init w l e cb fd m d = Some w' \<Longrightarrow> w_clients w' = w_clients w \<and> w_servers w' = w_servers w \<and> w_socks w' = w_socks w"
  by (auto simp: io_init_def Let_def split: if_splits)

text \<open>C15: closing a connection a server accepted succeeds, takes it, and no other, out of the connections of the server,
  gives its object back to the pool, decrements the count, which stays the number of connections, and closes its socket.\<close>

theorem tcp_close_uncounts:
  assumes "srv_ok w s used" and "conn w c cl sk inp out ra wa" and "tc_peer cl = s" and "c \<in> set used" and "tc_on_close cl = 0"
    and "has_flag (tc_flag cl) TCPFLG_CLT_PASV"
  shows "\<exists>w'. tcp_cb_close call w c = Some w' \<and> srv_ok w' s (remove1 c used) \<and> w_clients w' = (w_clients w)(c := None) \<and> w_socks w' (tc_fd cl) = None"
proof -
  obtain srv where srv: "s \<noteq> NULL" "w_servers w s = Some srv" "pool_ok (ts_clt_objpool srv) used" "ts_conn_cnt srv = int (length used)"
    using assms(1) by (auto simp: srv_ok_def)
  then have g: "ts_get w (tc_peer cl) = Some srv" using assms(3) by (simp add: ts_get_Some)
  have "pool_ok (ts_clt_objpool srv) (c # remove1 c used)" using pool_ok_mset [OF _ srv(3)] assms(4) by simp
  from free_back [OF this] obtain pool where p: "objpool_free_obj (ts_clt_objpool srv) c (has_flag (ts_flag srv) TCPFLG_SRV_MLOOP) = Some pool"
    "pool_ok pool (remove1 c used)" by (auto simp: objpool_free_obj_def)
  obtain w' where w': "tcp_cb_close call w c = Some w'" using cb_close_ok [OF assms(2,5) g p(1)] by blast
  have "w_servers w' = (w_servers w)(s \<mapsto> srv\<lparr>ts_conn_cnt := ts_conn_cnt srv - 1, ts_clt_objpool := pool\<rparr>) \<and>
      w_clients w' = (w_clients w)(c := None) \<and> w_socks w' (tc_fd cl) = None"
    using w' connD(1) [OF assms(2)] assms(5,6) by (cases rule: cb_close_cases) (use g p(1) assms(3) in simp)
  moreover have "int (length used - 1) = int (length used) - 1" using assms(4) by (cases used) auto
  ultimately show ?thesis using w' srv(1,4) p(2) assms(4) by (simp add: srv_ok_def length_remove1)
qed

text \<open>A pool of one object, in use.\<close>

lemma pool_one: "\<exists>pool. pool_ok pool [20] \<and> objpool_get_obj (objpool_init 1 8) False 100 20 (\<lambda>x. 0) = Some (pool, 20)"
proof -
  have "pool_ok (objpool_init 1 8) []" by (rule pool_init_ok) simp_all
  moreover have "blk_fresh (objpool_init 1 8) 100 20" by (simp add: blk_fresh_def objpool_init_def pool_objs_def)
  ultimately obtain pool p where p: "pool_ok pool [p]" "objpool_get_obj (objpool_init 1 8) False 100 20 (\<lambda>x. 0) = Some (pool, p)"
    using get_obj_ok [of "objpool_init 1 8" "[]" 100 20 False "\<lambda>x. 0"] by auto
  have "p = 20" using p(2)
    by (auto simp: objpool_get_obj_def objpool_get_obj_nolock_def objpool_init_def splst_add_def new_links_def splst_del_def splst_next_def bind_eq_Some_conv split: if_splits)
  then show ?thesis using p by blast
qed

theorem tcp_close_uncounts_witness:
  "\<exists>w w'. tcp_cb_close (\<lambda>cb c w. None) w 20 = Some w' \<and> srv_ok w 30 [20] \<and> srv_ok w' 30 []"
proof -
  obtain pool where pool: "pool_ok pool [20]" using pool_one by blast
  let ?w = "(some_process some_client (some_sock [] []))\<lparr>w_servers := [30 \<mapsto> some_server pool 1]\<rparr>"
  have s: "srv_ok ?w 30 [20]" using pool by (simp add: srv_ok_def some_server_def)
  have cl: "tc_peer some_client = 30" "tc_on_close some_client = 0" by (simp_all add: some_client_def)
  have "conn (some_process some_client (some_sock [] [])) 20 some_client (some_sock [] []) [] [] False False"
    by (rule some_process_conn) (simp_all add: some_client_def buf_init_ok)
  then have c: "conn ?w 20 some_client (some_sock [] []) [] [] False False" by (simp add: conn_def)
  show ?thesis using tcp_close_uncounts [OF s c cl(1) _ cl(2) some_flags(3), of "\<lambda>cb c w. None"] s by auto
qed

lemma client_loop_same: "client_loop user_next w s loop = Some (w', on) \<Longrightarrow> w_servers w' = w_servers w \<and> w_clients w' = w_clients w"
  by (auto simp: client_loop_def bind_eq_Some_conv split: if_splits)

text \<open>
  What accepting relies on: \<open>accept\<close> answers with a new descriptor the loop has room for, and the objects that are not in
  use have no events in the loop.
\<close>

definition accept_ready :: "process \<Rightarrow> nat \<Rightarrow> tcp_server \<Rightarrow> addr list \<Rightarrow> addr \<Rightarrow> bool" where
  "accept_ready w loop srv used data \<longleftrightarrow> (\<exists>sk. w_socks w (ts_fd srv) = Some sk \<and>
     (\<forall>fd new. fst (retry_eintr (sk_accept sk)) = Some (fd, new) \<longrightarrow>
       (\<forall>c. c \<in> set (pool_objs (ts_clt_objpool srv)) \<union> set (blk_objs (ts_clt_objpool srv) data) \<and> c \<notin> set used \<and> c \<noteq> NULL \<longrightarrow> conn_fresh w loop fd c)))"



section \<open>Balancing\<close>

text \<open>The choices of a context, one after the other.\<close>

primrec lb_rr_run :: "nat \<Rightarrow> tcp_lb_ctx \<Rightarrow> (tcp_lb_ctx \<times> nat list) option" where
  "lb_rr_run 0 ctx = Some (ctx, [])"
| "lb_rr_run (Suc k) ctx = do {
     (ctx, ls) \<leftarrow> lb_rr_run k ctx;
     (ctx, l) \<leftarrow> lb_rr_next_loop ctx;
     Some (ctx, ls @ [l]) }"

lemma rr_run_ok:
  assumes "lb_loops ctx \<noteq> []"
  shows "\<exists>ctx'. lb_rr_run k (lb_rr_init ctx) = Some (ctx', map (\<lambda>i. lb_loops ctx ! (i mod length (lb_loops ctx))) [0..<k]) \<and>
    lb_loops ctx' = lb_loops ctx \<and> (lb_data ctx' + 1) mod int (length (lb_loops ctx)) = int (k mod length (lb_loops ctx))"
proof (induction k)
  case 0
  then show ?case by (simp add: lb_rr_init_def)
next
  case (Suc k)
  let ?n = "length (lb_loops ctx)"
  obtain c where c: "lb_rr_run k (lb_rr_init ctx) = Some (c, map (\<lambda>i. lb_loops ctx ! (i mod ?n)) [0..<k])" "lb_loops c = lb_loops ctx"
    "(lb_data c + 1) mod int ?n = int (k mod ?n)" using Suc.IH by blast
  have "lb_rr_next_loop c = Some (c\<lparr>lb_data := int (k mod ?n)\<rparr>, lb_loops ctx ! (k mod ?n))"
    using assms c(2,3) by (simp add: lb_rr_next_loop_def Let_def)
  moreover have "(int (k mod ?n) + 1) mod int ?n = int (Suc k mod ?n)"
    by (metis mod_Suc_eq of_nat_Suc of_nat_mod add.commute)
  ultimately show ?case using c(1,2) by (intro exI [of _ "c\<lparr>lb_data := int (k mod ?n)\<rparr>"]) simp
qed

lemma rounds_concat: "map (\<lambda>i. xs ! (i mod length xs)) [0..<m * length xs] = concat (replicate m xs)"
proof (induction m)
  case (Suc m)
  let ?n = "length xs"
  have "[0..<Suc m * ?n] = [0..<m * ?n] @ map (\<lambda>i. i + m * ?n) [0..<?n]"
    using upt_add_eq_append [of 0 "m * ?n" ?n] by (simp add: map_add_upt add.commute)
  moreover have "map (\<lambda>i. xs ! (i mod ?n)) (map (\<lambda>i. i + m * ?n) [0..<?n]) = xs"
    by (rule nth_equalityI) simp_all
  ultimately show ?case using Suc by (simp add: replicate_append_same [symmetric] del: map_map)
qed simp

text \<open>C32: the default balancing is fair: from its start it gives the loops of the pool in order, round after round.\<close>

theorem tcp_lb_round_robin:
  assumes "lb_loops ctx \<noteq> []"
  shows "\<exists>ctx'. lb_rr_run (m * length (lb_loops ctx)) (lb_rr_init ctx) = Some (ctx', concat (replicate m (lb_loops ctx)))"
  using rr_run_ok [OF assms, of "m * length (lb_loops ctx)"] unfolding rounds_concat by blast

theorem tcp_lb_round_robin_witness:
  "\<exists>ctx'. lb_rr_run 6 (lb_rr_init (get_default_tcp_lb_ctx\<lparr>lb_loops := [0, 1, 2]\<rparr>)) = Some (ctx', [0, 1, 2, 0, 1, 2])"
proof -
  let ?ctx = "get_default_tcp_lb_ctx\<lparr>lb_loops := [0, 1, 2]\<rparr>"
  have "lb_loops ?ctx = [0, 1, 2]" "(2 :: nat) * length [0, 1, 2 :: nat] = 6" "concat (replicate 2 [0, 1, 2 :: nat]) = [0, 1, 2, 0, 1, 2]"
    by (simp_all add: numeral_2_eq_2)
  then show ?thesis using tcp_lb_round_robin [of ?ctx 2] by (metis list.distinct(1))
qed

definition hub_demo :: process where
  "hub_demo = (some_process some_client (some_sock [] []))\<lparr>w_hubs := [40 \<mapsto> [30, 31]],
     w_servers := [30 \<mapsto> some_server (objpool_init 1 8) 7, 31 \<mapsto> some_server (objpool_init 1 8) 1]\<rparr>"



section \<open>The states of a connection\<close>

text \<open>C34: a connection is never being made and made at once. Connecting is refused in both states, and when it is accepted
  leads to the first, with the event of writing started; the event that ends the first leaves it, and the connection is made
  exactly when the system reports no error. Neither ever loses data.\<close>

theorem tcp_connection_states:
  assumes "conn w c cl sk inp out ra wa" and "\<not> (connecting cl \<and> connected cl)" and "tc_on_connect cl = 0"
  shows "(\<exists>w' r cl' sk' wa'. tcp_connect w c = Some (w', r) \<and> conn w' c cl' sk' inp out ra wa' \<and> \<not> (connecting cl' \<and> connected cl') \<and>
      (if r = 0 then \<not> connecting cl \<and> \<not> connected cl \<and> connecting cl' \<and> wa' else r = - 1 \<and> cl' = cl \<and> wa' = wa)) \<and>
    (\<exists>w' cl' sk' ra' wa'. tcp_cb_connected call w c = Some w' \<and> conn w' c cl' sk' inp out ra' wa' \<and> \<not> (connecting cl' \<and> connected cl') \<and>
      (if sock_answer sk = Some Einprogress then cl' = cl
       else \<not> connecting cl' \<and> (connected cl' \<longleftrightarrow> sock_answer sk = None \<or> connected cl) \<and> (sock_answer sk = None \<longrightarrow> ra')))"
proof
  show "\<exists>w' r cl' sk' wa'. tcp_connect w c = Some (w', r) \<and> conn w' c cl' sk' inp out ra wa' \<and> \<not> (connecting cl' \<and> connected cl') \<and>
      (if r = 0 then \<not> connecting cl \<and> \<not> connected cl \<and> connecting cl' \<and> wa' else r = - 1 \<and> cl' = cl \<and> wa' = wa)"
  proof -
    obtain w' r cl' sk' wa' where R: "tcp_connect w c = Some (w', r)" "conn w' c cl' sk' inp out ra wa'"
      "if connecting cl \<or> connected cl then r = - 1 \<and> w' = w \<and> cl' = cl \<and> wa' = wa
       else if fst (retry_eintr (sk_connect sk)) \<noteq> None \<or> fst (take_err (sk_errs sk)) = Einprogress then
         r = 0 \<and> wa' \<and> cl' = cl\<lparr>tc_flag := tc_flag cl OR TCPFLG_CLT_CONNING\<rparr>
       else r = - 1 \<and> cl' = cl \<and> wa' = wa" using connect_ok [OF assms(1)] by blast
    show ?thesis using R(1,2,3) assms(2) connect_flags(1,2) [of cl]
      by (intro exI [of _ w'] exI [of _ r] exI [of _ cl'] exI [of _ sk'] exI [of _ wa']) (auto split: if_splits)
  qed
  obtain w' sk' where R: "tcp_cb_connected call w c = Some w'"
    "if sock_answer sk = Some Einprogress then conn w' c cl sk' inp out ra wa
     else conn w' c (flag_made (sock_answer sk = None) cl) sk' inp out (ra \<or> sock_answer sk = None) (wa \<and> sock_answer sk = None \<and> out \<noteq> [])"
    using connected_ok [OF assms(1,3)] by blast
  show "\<exists>w' cl' sk' ra' wa'. tcp_cb_connected call w c = Some w' \<and> conn w' c cl' sk' inp out ra' wa' \<and> \<not> (connecting cl' \<and> connected cl') \<and>
      (if sock_answer sk = Some Einprogress then cl' = cl
       else \<not> connecting cl' \<and> (connected cl' \<longleftrightarrow> sock_answer sk = None \<or> connected cl) \<and> (sock_answer sk = None \<longrightarrow> ra'))"
  proof (cases "sock_answer sk = Some Einprogress")
    case True
    then show ?thesis using R assms(2) by auto
  next
    case False
    let ?cl = "flag_made (sock_answer sk = None) cl"
    have "conn w' c ?cl sk' inp out (ra \<or> sock_answer sk = None) (wa \<and> sock_answer sk = None \<and> out \<noteq> [])" using R(2) False by simp
    moreover have "\<not> connecting ?cl" "connected ?cl \<longleftrightarrow> sock_answer sk = None \<or> connected cl" using connected_flags by blast+
    ultimately show ?thesis using R(1) False
      by (intro exI [of _ w'] exI [of _ ?cl] exI [of _ sk'] exI [of _ "ra \<or> sock_answer sk = None"] exI [of _ "wa \<and> sock_answer sk = None \<and> out \<noteq> []"]) simp
  qed
qed

lemma some_client_conn: "conn (some_process some_client sk) 20 some_client sk [] [] False False"
  by (rule some_process_conn) (simp_all add: some_client_def buf_init_ok)

theorem tcp_connection_states_witness:
  "\<exists>w' r. tcp_connect (some_process some_client (Sock [] [] [Einprogress] [] [IoErr] [] [])) 20 = Some (w', r)"
proof -
  have f: "\<not> connecting some_client" "\<not> connected some_client" "tc_on_connect some_client = 0"
    unfolding connecting_def connected_def some_client_def tcp_client.simps flag_bits by simp_all
  then have "\<not> (connecting some_client \<and> connected some_client)" by blast
  from tcp_connection_states [OF some_client_conn this f(3), of "Sock [] [] [Einprogress] [] [IoErr] [] []" "\<lambda>cb c w. None"] show ?thesis by blast
qed



end
