(* ===== verification/TcpHub.thy ===== *)
theory TcpHub
  imports TcpSpec
begin

text \<open>The creation of a group of servers: one socket, a server for each loop of the pool.\<close>

lemma finish_ok:
  assumes "server \<noteq> NULL" "loop < length (w_loops w)"
  shows "\<exists>w' srv. tcp_server_init_finish w server fd loop flag True True = Some (w', 0) \<and> w_servers w' = (w_servers w)(server \<mapsto> srv) \<and>
    length (w_loops w') = length (w_loops w) \<and> w_socks w' = w_socks w \<and> w_hubs w' = w_hubs w \<and> w_clients w' = w_clients w \<and>
    ts_fd srv = fd \<and> ts_loop_on srv = loop \<and> ts_conn_cnt srv = 0 \<and> pool_ok (ts_clt_objpool srv) []"
proof -
  have "pool_ok (objpool_init TCPCLIENT_OBJPOOL_BLOCKSZ TCP_CLIENT_SIZE) []"
    by (rule pool_init_ok) (simp_all add: TCPCLIENT_OBJPOOL_BLOCKSZ_def TCP_CLIENT_SIZE_def)
  then show ?thesis using assms by (simp add: tcp_server_init_finish_def io_init_def ts_put_def Let_def)
    (intro exI conjI, rule refl, simp_all)
qed

definition server_addr :: "nat \<times> server_alloc \<Rightarrow> addr" where
  "server_addr la = fst (snd la)"

lemma server_addr_simp [simp]: "server_addr (l, s, c, b) = s"
  by (simp add: server_addr_def)

text \<open>What a server of a group is.\<close>

definition hub_server :: "process \<Rightarrow> addr \<Rightarrow> nat \<Rightarrow> nat \<times> server_alloc \<Rightarrow> bool" where
  "hub_server w hub fd la \<longleftrightarrow> (case la of (loop, s, _) \<Rightarrow> \<exists>srv. ts_get w s = Some srv \<and> ts_fd srv = fd \<and> ts_loop_on srv = loop \<and> ts_hub srv = hub \<and> srv_ok w s [])"

lemma hub_server_put: "hub_server w hub fd la \<Longrightarrow> s \<noteq> server_addr la \<Longrightarrow> w_servers w' = (w_servers w)(s \<mapsto> srv) \<Longrightarrow> hub_server w' hub fd la"
  by (auto simp: hub_server_def srv_ok_def ts_get_Some split: prod.splits)

lemma hub_clones_ok:
  assumes "\<forall>(loop, s, c, b)\<in>set las. loop < length (w_loops w) \<and> s \<noteq> NULL \<and> c \<and> b" and "distinct (fs # map server_addr las)"
    and "ts_get w fs = Some f"
  shows "\<exists>w'. tcp_server_hub_clones w hub fs flag las = Some (w', Some (map server_addr las)) \<and> (\<forall>la\<in>set las. hub_server w' hub (ts_fd f) la) \<and>
    w_socks w' = w_socks w \<and> w_hubs w' = w_hubs w \<and> w_clients w' = w_clients w \<and> (\<forall>s. s \<notin> set (map server_addr las) \<longrightarrow> w_servers w' s = w_servers w s)"
  using assms
proof (induction las arbitrary: w)
  case (Cons la las)
  obtain loop s c b where la: "la = (loop, s, c, b)" by (cases la)
  have P: "loop < length (w_loops w)" "s \<noteq> NULL" "c" "b" "s \<noteq> fs" "s \<notin> set (map server_addr las)"
    using Cons.prems(1,2) unfolding la by auto
  obtain w1 srv where F: "tcp_server_init_finish w s (ts_fd f) loop (flag OR TCPFLG_SRV_CLONEFD) True True = Some (w1, 0)"
    "w_servers w1 = (w_servers w)(s \<mapsto> srv)" "length (w_loops w1) = length (w_loops w)" "w_socks w1 = w_socks w" "w_hubs w1 = w_hubs w" "w_clients w1 = w_clients w"
    "ts_fd srv = ts_fd f" "ts_loop_on srv = loop" "ts_conn_cnt srv = 0" "pool_ok (ts_clt_objpool srv) []"
    using finish_ok [OF P(2,1), of "ts_fd f" "flag OR TCPFLG_SRV_CLONEFD"] by blast
  let ?w = "ts_put w1 s (srv\<lparr>ts_hub := hub\<rparr>)"
  have "\<forall>(loop, s, c, b)\<in>set las. loop < length (w_loops ?w) \<and> s \<noteq> NULL \<and> c \<and> b" using Cons.prems(1) F(3) by (simp add: ts_put_def)
  moreover have "distinct (fs # map server_addr las)" using Cons.prems(2) by simp
  moreover have "ts_get ?w fs = Some f" using Cons.prems(3) F(2) P(5) by (simp add: ts_get_Some ts_put_def)
  ultimately obtain w' where R: "tcp_server_hub_clones ?w hub fs flag las = Some (w', Some (map server_addr las))"
    "\<forall>la\<in>set las. hub_server w' hub (ts_fd f) la" "w_socks w' = w_socks ?w" "w_hubs w' = w_hubs ?w" "w_clients w' = w_clients ?w"
    "\<forall>s. s \<notin> set (map server_addr las) \<longrightarrow> w_servers w' s = w_servers ?w s" using Cons.IH by blast
  have "tcp_server_clonefd w s fs loop flag c b = Some (w1, s)" using F(1) P(2-4) Cons.prems(3) by (simp add: tcp_server_clonefd_def)
  moreover have "ts_get w1 s = Some srv" using F(2) P(2) by (simp add: ts_get_Some)
  ultimately have "tcp_server_hub_clones w hub fs flag (la # las) = Some (w', Some (map server_addr (la # las)))" using P(2) R(1) by (simp add: la)
  moreover have "hub_server w' hub (ts_fd f) la" using R(6) P(2,6) F(7-10) by (simp add: hub_server_def la srv_ok_def ts_get_Some ts_put_def)
  ultimately show ?case using R(2-6) F(2,4-6) by (intro exI [of _ w']) (simp add: ts_put_def la)
qed simp

text \<open>When nothing fails, the creation of a group gives each loop of the pool a server of the group, without connections and all
  listening on the one socket that was opened.\<close>

theorem tcp_hub_shares_socket:
  assumes "hub \<noteq> NULL" and "0 \<le> listenfd" and "pool \<noteq> []" and "distinct (map server_addr pool)"
    and "\<forall>(loop, s, c, b)\<in>set pool. loop < length (w_loops w) \<and> s \<noteq> NULL \<and> c \<and> b"
  shows "\<exists>w'. tcp_server_hub_init w hub pool flag listenfd sk True = Some (w', hub) \<and> w_hubs w' hub = Some (map server_addr pool) \<and>
    (\<forall>la\<in>set pool. hub_server w' hub (nat listenfd) la) \<and> w_socks w' = (w_socks w)(nat listenfd \<mapsto> sk)"
proof -
  obtain la las where pool: "pool = la # las" using assms(3) by (cases pool) auto
  obtain loop s c b where la: "la = (loop, s, c, b)" by (cases la)
  have P: "loop < length (w_loops w)" "s \<noteq> NULL" "c" "b" "s \<notin> set (map server_addr las)" using assms(4,5) unfolding pool la by auto
  let ?w0 = "sk_put w (nat listenfd) sk"
  have l0: "loop < length (w_loops ?w0)" using P(1) by (simp add: sk_put_def)
  obtain w1 srv where F: "tcp_server_init_finish ?w0 s (nat listenfd) loop flag True True = Some (w1, 0)"
    "w_servers w1 = (w_servers ?w0)(s \<mapsto> srv)" "length (w_loops w1) = length (w_loops ?w0)" "w_socks w1 = w_socks ?w0" "w_hubs w1 = w_hubs ?w0"
    "ts_fd srv = nat listenfd" "ts_loop_on srv = loop" "ts_conn_cnt srv = 0" "pool_ok (ts_clt_objpool srv) []"
    using finish_ok [OF P(2) l0, of "nat listenfd" flag] by blast
  let ?w = "ts_put w1 s (srv\<lparr>ts_hub := hub\<rparr>)"
  have g: "ts_get ?w s = Some (srv\<lparr>ts_hub := hub\<rparr>)" using P(2) by (simp add: ts_get_Some ts_put_def)
  have "\<forall>(loop, s, c, b)\<in>set las. loop < length (w_loops ?w) \<and> s \<noteq> NULL \<and> c \<and> b" using assms(5) F(3) by (simp add: pool ts_put_def sk_put_def)
  moreover have "distinct (s # map server_addr las)" using assms(4) by (simp add: pool la)
  ultimately obtain w' where R: "tcp_server_hub_clones ?w hub s flag las = Some (w', Some (map server_addr las))"
    "\<forall>la\<in>set las. hub_server w' hub (nat listenfd) la" "w_socks w' = w_socks ?w" "\<forall>x. x \<notin> set (map server_addr las) \<longrightarrow> w_servers w' x = w_servers ?w x"
    using hub_clones_ok [of las ?w s "srv\<lparr>ts_hub := hub\<rparr>" hub flag] g F(6) by auto
  let ?w' = "w'\<lparr>w_hubs := (w_hubs w')(hub \<mapsto> s # map server_addr las)\<rparr>"
  have "tcp_server_init w s loop flag listenfd sk True c b = Some (w1, s)" using F(1) P(2-4) assms(2) by (simp add: tcp_server_init_def Let_def)
  moreover have "ts_get w1 s = Some srv" using F(2) P(2) by (simp add: ts_get_Some)
  ultimately have "tcp_server_hub_init w hub pool flag listenfd sk True = Some (?w', hub)"
    using assms(1) P(2) R(1) by (simp add: tcp_server_hub_init_def pool la)
  moreover have "hub_server w' hub (nat listenfd) la" using R(4) P(2,5) F(6-9) by (simp add: hub_server_def la srv_ok_def ts_get_Some ts_put_def)
  then have "\<forall>la\<in>set pool. hub_server ?w' hub (nat listenfd) la" using R(2) by (auto simp: pool hub_server_def srv_ok_def ts_get_def)
  ultimately show ?thesis using R(3) F(4) by (intro exI [of _ ?w']) (simp add: pool la ts_put_def sk_put_def)
qed

theorem tcp_hub_shares_socket_witness:
  "\<exists>w'. tcp_server_hub_init (some_process some_client (some_sock [] [])) 40 [(0, 30, True, True), (0, 31, True, True)] 0 7 (some_sock [] []) True = Some (w', 40) \<and>
    w_hubs w' 40 = Some [30, 31]"
  using tcp_hub_shares_socket [of 40 7 "[(0, 30, True, True), (0, 31, True, True)]" "some_process some_client (some_sock [] [])"]
  by (auto simp: some_process_def)

end
