(* ===== verification/Callocate.thy ===== *)
theory Callocate
  imports Splst
begin

text \<open>
  The memory pools of \<^verbatim>\<open>ohstl/callocate.c\<close>: for each power of two between 4 and \<open>2 ^ 30\<close> a pool of units of that size,
  cut out of blocks; free units are linked in a list of their pool. The state is that of one thread. Sizes of structures
  are those of a machine with pointers of 8 bytes.
\<close>

type_synonym byte = "8 word"

definition CMMP_MIN_SIZE_EXP :: nat where "CMMP_MIN_SIZE_EXP = 2"
definition CMMP_MAX_SIZE_EXP :: nat where "CMMP_MAX_SIZE_EXP = 30"
definition CMMP_MAX_BLOCKSIZE :: nat where "CMMP_MAX_BLOCKSIZE = 102400000"

record cmempool =
  mp_unitsize :: nat
  mp_unitnum :: nat
  mp_blknum :: nat
  mp_blkhead :: addr
  mp_idleunit :: addr

text \<open>The pool of a block is its place in the array of the pools.\<close>

record cmemblock =
  mb_unitnum :: nat
  mb_idlenum :: int
  mb_pool :: nat
  mb_next :: addr

record cmemunit =
  mu_block :: addr
  mu_nextunit :: addr
  mu_data :: "byte list"

definition SIZEOF_BLOCK :: nat where "SIZEOF_BLOCK = 24"
definition SIZEOF_UNIT :: nat where "SIZEOF_UNIT = 16"

text \<open>\<open>cm_pools\<close> is \<open>None\<close> as long as the array does not exist.\<close>

record cmem =
  cm_pools :: "cmempool list option"
  cm_blocks :: "addr \<rightharpoonup> cmemblock"
  cm_units :: "addr \<rightharpoonup> cmemunit"

definition pool_at :: "cmem \<Rightarrow> nat \<Rightarrow> cmempool option" where
  "pool_at cm k = do { ps \<leftarrow> cm_pools cm; if k < length ps then Some (ps ! k) else None }"

definition pool_put :: "cmem \<Rightarrow> nat \<Rightarrow> cmempool \<Rightarrow> cmem" where
  "pool_put cm k p = cm\<lparr>cm_pools := map_option (\<lambda>ps. ps[k := p]) (cm_pools cm)\<rparr>"

definition block_at :: "cmem \<Rightarrow> addr \<Rightarrow> cmemblock option" where
  "block_at cm b = (if b = NULL then None else cm_blocks cm b)"

definition unit_at :: "cmem \<Rightarrow> addr \<Rightarrow> cmemunit option" where
  "unit_at cm u = (if u = NULL then None else cm_units cm u)"

section \<open>Creating the pools\<close>

definition new_mempool :: "nat \<Rightarrow> cmempool" where
  "new_mempool size_exp = (let n = (CMMP_MAX_BLOCKSIZE - SIZEOF_BLOCK) div (2 ^ size_exp + SIZEOF_UNIT) in
     \<lparr>mp_unitsize = 2 ^ size_exp, mp_unitnum = (if n = 0 then 1 else n), mp_blknum = 0, mp_blkhead = NULL, mp_idleunit = NULL\<rparr>)"

definition create_mempools :: "cmempool list" where
  "create_mempools = map new_mempool [CMMP_MIN_SIZE_EXP..<CMMP_MAX_SIZE_EXP + 1]"

section \<open>A new block\<close>

text \<open>One round of the initialisation of the units: the unit at \<open>u\<close> becomes the first free one. \<open>g\<close> is what its memory holds.\<close>

primrec init_units :: "nat \<Rightarrow> addr \<Rightarrow> nat \<Rightarrow> (nat \<Rightarrow> byte) \<Rightarrow> addr \<Rightarrow> (addr \<rightharpoonup> cmemunit) \<times> addr \<Rightarrow> (addr \<rightharpoonup> cmemunit) \<times> addr" where
  "init_units 0 block sz g u s = s"
| "init_units (Suc n) block sz g u s =
     init_units n block sz g (u + SIZEOF_UNIT + sz) ((fst s)(u \<mapsto> \<lparr>mu_block = block, mu_nextunit = snd s, mu_data = map g [0..<sz]\<rparr>), u)"

text \<open>\<open>block\<close> is the result of the allocation; the size of the memory is an \<^verbatim>\<open>int\<close>.\<close>

definition append_memblock :: "cmem \<Rightarrow> nat \<Rightarrow> addr \<Rightarrow> (nat \<Rightarrow> byte) \<Rightarrow> cmem option" where
  "append_memblock cm k block g = do {
     pool \<leftarrow> pool_at cm k;
     c_assert (SIZEOF_BLOCK + mp_unitnum pool * (mp_unitsize pool + SIZEOF_UNIT) < 2 ^ 31);
     if block = NULL then Some cm
     else do {
       let cm = cm\<lparr>cm_blocks := (cm_blocks cm)(block \<mapsto> \<lparr>mb_unitnum = mp_unitnum pool, mb_idlenum = int (mp_unitnum pool), mb_pool = k,
         mb_next = mp_blkhead pool\<rparr>)\<rparr>;
       let (us, idle) = init_units (mp_unitnum pool) block (mp_unitsize pool) g (block + SIZEOF_BLOCK) (cm_units cm, mp_idleunit pool);
       Some (pool_put (cm\<lparr>cm_units := us\<rparr>) k (pool\<lparr>mp_blkhead := block, mp_blknum := mp_blknum pool + 1, mp_idleunit := idle\<rparr>)) } }"

section \<open>Operations\<close>

text \<open>The least power of two that is not smaller; the shift of an \<open>int\<close> overflows at 31.\<close>

definition size_exp :: "nat \<Rightarrow> nat option" where
  "size_exp sz = while_c (\<lambda>ind. do { c_assert (ind < 31); Some (sz > 2 ^ ind) }) (\<lambda>ind. Some (ind + 1)) 0"

text \<open>\<open>ok\<close> tells whether the array of the pools could be allocated, which is not checked.\<close>

definition cmemory_pool_alloc :: "cmem \<Rightarrow> nat \<Rightarrow> bool \<Rightarrow> addr \<Rightarrow> (nat \<Rightarrow> byte) \<Rightarrow> (cmem \<times> addr) option" where
  "cmemory_pool_alloc cm sz ok block g = do {
     c_assert (cm_pools cm \<noteq> None \<or> ok);
     let cm = (if cm_pools cm = None then cm\<lparr>cm_pools := Some create_mempools\<rparr> else cm);
     ind \<leftarrow> size_exp sz;
     if ind > CMMP_MAX_SIZE_EXP then Some (cm, NULL)
     else do {
       let ind = (if ind \<ge> CMMP_MIN_SIZE_EXP then ind - CMMP_MIN_SIZE_EXP else 0);
       pool \<leftarrow> pool_at cm ind;
       cm \<leftarrow> (if mp_idleunit pool = NULL then append_memblock cm ind block g else Some cm);
       pool \<leftarrow> pool_at cm ind;
       u \<leftarrow> unit_at cm (mp_idleunit pool);
       b \<leftarrow> block_at cm (mu_block u);
       let cm = pool_put cm ind (pool\<lparr>mp_idleunit := mu_nextunit u\<rparr>);
       Some (cm\<lparr>cm_blocks := (cm_blocks cm)(mu_block u \<mapsto> b\<lparr>mb_idlenum := mb_idlenum b - 1\<rparr>)\<rparr>, mp_idleunit pool + SIZEOF_UNIT) } }"

text \<open>The unit of a pointer the pool gave out.\<close>

definition unit_of :: "addr \<Rightarrow> addr option" where
  "unit_of ptr = do { c_assert (SIZEOF_UNIT < ptr); Some (ptr - SIZEOF_UNIT) }"

definition cmemory_pool_free :: "cmem \<Rightarrow> addr \<Rightarrow> cmem option" where
  "cmemory_pool_free cm ptr = do {
     c_assert (ptr \<noteq> NULL);
     uunit \<leftarrow> unit_of ptr;
     u \<leftarrow> unit_at cm uunit;
     b \<leftarrow> block_at cm (mu_block u);
     pool \<leftarrow> pool_at cm (mb_pool b);
     let cm = cm\<lparr>cm_units := (cm_units cm)(uunit \<mapsto> u\<lparr>mu_nextunit := mp_idleunit pool\<rparr>)\<rparr>;
     let cm = pool_put cm (mb_pool b) (pool\<lparr>mp_idleunit := uunit\<rparr>);
     Some (cm\<lparr>cm_blocks := (cm_blocks cm)(mu_block u \<mapsto> b\<lparr>mb_idlenum := mb_idlenum b + 1\<rparr>)\<rparr>) }"

text \<open>The copy of \<open>n\<close> bytes into the memory of another unit.\<close>

definition unit_copy :: "cmem \<Rightarrow> addr \<Rightarrow> addr \<Rightarrow> nat \<Rightarrow> cmem option" where
  "unit_copy cm dst src n = do {
     d \<leftarrow> unit_at cm dst;
     s \<leftarrow> unit_at cm src;
     c_assert (n \<le> length (mu_data d) \<and> n \<le> length (mu_data s));
     Some (cm\<lparr>cm_units := (cm_units cm)(dst \<mapsto> d\<lparr>mu_data := take n (mu_data s) @ drop n (mu_data d)\<rparr>)\<rparr>) }"

definition cmemory_pool_realloc :: "cmem \<Rightarrow> addr \<Rightarrow> nat \<Rightarrow> bool \<Rightarrow> addr \<Rightarrow> (nat \<Rightarrow> byte) \<Rightarrow> (cmem \<times> addr) option" where
  "cmemory_pool_realloc cm ptr sz ok block g = do {
     uunit \<leftarrow> unit_of ptr;
     u \<leftarrow> unit_at cm uunit;
     b \<leftarrow> block_at cm (mu_block u);
     pool \<leftarrow> pool_at cm (mb_pool b);
     if sz \<le> mp_unitsize pool then Some (cm, ptr)
     else do {
       (cm, newptr) \<leftarrow> cmemory_pool_alloc cm sz ok block g;
       c_assert (newptr \<noteq> NULL);
       newunit \<leftarrow> unit_of newptr;
       cm \<leftarrow> unit_copy cm newunit uunit (mp_unitsize pool);
       cm \<leftarrow> cmemory_pool_free cm ptr;
       Some (cm, newptr) } }"

text \<open>The units in use in the blocks of one pool.\<close>

definition leak_step :: "cmem \<Rightarrow> addr \<times> int \<Rightarrow> (addr \<times> int) option" where
  "leak_step cm s = (case s of (block, ret) \<Rightarrow> do {
     b \<leftarrow> block_at cm block;
     Some (mb_next b, ret + (int (mb_unitnum b) - mb_idlenum b)) })"

definition leak_pool :: "cmem \<Rightarrow> nat \<Rightarrow> int \<Rightarrow> int option" where
  "leak_pool cm k ret = do {
     pool \<leftarrow> pool_at cm k;
     (block, ret) \<leftarrow> while_c (\<lambda>(block, ret). Some (block \<noteq> NULL)) (leak_step cm) (mp_blkhead pool, ret);
     Some ret }"

primrec leak_pools :: "cmem \<Rightarrow> nat list \<Rightarrow> int \<Rightarrow> int option" where
  "leak_pools cm [] ret = Some ret"
| "leak_pools cm (k # ks) ret = do { ret \<leftarrow> leak_pool cm k ret; leak_pools cm ks ret }"

text \<open>The loop ends before the last pool.\<close>

definition get_memory_leak_num :: "cmem \<Rightarrow> int option" where
  "get_memory_leak_num cm =
     (if cm_pools cm = None then Some 0 else leak_pools cm [0..<CMMP_MAX_SIZE_EXP - CMMP_MIN_SIZE_EXP] 0)"

end
