(* ===== verification/CallocateSpec.thy ===== *)
theory CallocateSpec
  imports Callocate
begin

text \<open>
  What the memory pools promise: the units a pool gives out are large enough, are not in use, and stay apart; what is in
  them survives until they are freed.
\<close>

section \<open>The invariant\<close>

definition bnext :: "cmem \<Rightarrow> links" where "bnext cm = (\<lambda>b. map_option mb_next (cm_blocks cm b))"
definition unext :: "(addr \<rightharpoonup> cmemunit) \<Rightarrow> links" where "unext us = (\<lambda>u. map_option mu_nextunit (us u))"

definition blk_units :: "cmempool \<Rightarrow> addr \<Rightarrow> addr list" where
  "blk_units p b = map (\<lambda>i. b + SIZEOF_BLOCK + i * (SIZEOF_UNIT + mp_unitsize p)) [0..<mp_unitnum p]"

definition pool_units :: "cmempool \<Rightarrow> addr list \<Rightarrow> addr list" where
  "pool_units p bs = concat (map (blk_units p) bs)"

definition idle_in :: "cmempool \<Rightarrow> addr \<Rightarrow> addr list \<Rightarrow> nat" where
  "idle_in p b fs = length (filter (\<lambda>u. u \<in> set (blk_units p b)) fs)"

definition unit_inv :: "cmem \<Rightarrow> cmempool \<Rightarrow> addr \<Rightarrow> addr \<Rightarrow> bool" where
  "unit_inv cm p b u \<longleftrightarrow> (\<exists>mu. cm_units cm u = Some mu \<and> mu_block mu = b \<and> length (mu_data mu) = mp_unitsize p)"

definition block_inv :: "cmem \<Rightarrow> nat \<Rightarrow> cmempool \<Rightarrow> addr list \<Rightarrow> addr \<Rightarrow> bool" where
  "block_inv cm k p fs b \<longleftrightarrow> (\<exists>mb. cm_blocks cm b = Some mb \<and> mb_unitnum mb = mp_unitnum p \<and> mb_pool mb = k \<and> mb_idlenum mb = int (idle_in p b fs)) \<and>
     (\<forall>u\<in>set (blk_units p b). unit_inv cm p b u)"

text \<open>\<open>bs\<close> are the blocks of pool \<open>k\<close> and \<open>fs\<close> its free units.\<close>

definition pool_inv :: "cmem \<Rightarrow> nat \<Rightarrow> cmempool \<Rightarrow> addr list \<Rightarrow> addr list \<Rightarrow> bool" where
  "pool_inv cm k p bs fs \<longleftrightarrow> k < 29 \<and> mp_unitsize p = 2 ^ (k + 2) \<and> mp_unitnum p = mp_unitnum (new_mempool (k + 2)) \<and> lseg (bnext cm) (mp_blkhead p) bs \<and> distinct bs \<and>
     lseg (unext (cm_units cm)) (mp_idleunit p) fs \<and> distinct fs \<and> set fs \<subseteq> set (pool_units p bs) \<and> (\<forall>b\<in>set bs. block_inv cm k p fs b)"

definition cm_inv :: "cmem \<Rightarrow> (nat \<Rightarrow> addr list) \<Rightarrow> (nat \<Rightarrow> addr list) \<Rightarrow> bool" where
  "cm_inv cm Bs Fs \<longleftrightarrow> (\<exists>ps. cm_pools cm = Some ps \<and> length ps = 29 \<and> (\<forall>k<29. pool_inv cm k (ps ! k) (Bs k) (Fs k)))"

lemma pool_invD:
  assumes "pool_inv cm k p bs fs"
  shows "mp_unitsize p = 2 ^ (k + 2)" "k < 29 \<and> mp_unitnum p = mp_unitnum (new_mempool (k + 2))" "lseg (bnext cm) (mp_blkhead p) bs" "distinct bs"
    "lseg (unext (cm_units cm)) (mp_idleunit p) fs" "distinct fs" "set fs \<subseteq> set (pool_units p bs)" "b \<in> set bs \<Longrightarrow> block_inv cm k p fs b"
  using assms by (simp_all add: pool_inv_def)

lemma pool_unitsE:
  assumes "u \<in> set (pool_units p bs)"
  obtains b where "b \<in> set bs" "u \<in> set (blk_units p b)"
  using assms by (auto simp: pool_units_def)

lemma blk_units_nz: "u \<in> set (blk_units p b) \<Longrightarrow> SIZEOF_BLOCK \<le> u"
  by (auto simp: blk_units_def)

text \<open>A unit knows its block and a block its pool, so that different blocks and pools have nothing in common.\<close>

lemma unit_block:
  assumes "pool_inv cm k p bs fs" "b \<in> set bs" "u \<in> set (blk_units p b)"
  shows "\<exists>mu mb. cm_units cm u = Some mu \<and> mu_block mu = b \<and> length (mu_data mu) = mp_unitsize p \<and> cm_blocks cm b = Some mb \<and>
    mb_pool mb = k \<and> mb_unitnum mb = mp_unitnum p \<and> mb_idlenum mb = int (idle_in p b fs) \<and> b \<noteq> NULL"
  using pool_invD(8) [OF assms(1,2)] assms(3) lseg_nz [OF pool_invD(3) [OF assms(1)] assms(2)] by (auto simp: block_inv_def unit_inv_def)

lemma units_apart:
  assumes "pool_inv cm k p bs fs" "pool_inv cm k' p' bs' fs'" "b \<in> set bs" "b' \<in> set bs'" "u \<in> set (blk_units p b)" "u \<in> set (blk_units p' b')"
  shows "k = k' \<and> b = b'"
  using unit_block [OF assms(1,3,5)] unit_block [OF assms(2,4,6)] by auto

lemma blocks_apart: "pool_inv cm k p bs fs \<Longrightarrow> pool_inv cm k' p' bs' fs' \<Longrightarrow> b \<in> set bs \<Longrightarrow> b \<in> set bs' \<Longrightarrow> k = k'"
  using pool_invD(8) [of cm k p bs fs b] pool_invD(8) [of cm k' p' bs' fs' b] by (auto simp: block_inv_def)

lemma blk_units_distinct: "distinct (blk_units p b)"
  by (auto simp: blk_units_def distinct_map inj_on_def SIZEOF_UNIT_def)

lemma pool_units_distinct: "pool_inv cm k p bs fs \<Longrightarrow> distinct (pool_units p bs)"
proof -
  assume inv: "pool_inv cm k p bs fs"
  have "distinct (pool_units p xs)" if "set xs \<subseteq> set bs" "distinct xs" for xs
    using that
  proof (induction xs)
    case (Cons x xs)
    have "set (blk_units p x) \<inter> set (pool_units p xs) = {}"
      using units_apart [OF inv inv, of x] Cons.prems by (fastforce elim!: pool_unitsE)
    then show ?case using Cons blk_units_distinct by (auto simp: pool_units_def)
  qed (simp add: pool_units_def)
  then show ?thesis using pool_invD(4) [OF inv] by blast
qed

text \<open>What a pool depends on.\<close>

lemma pool_inv_cong:
  assumes inv: "pool_inv cm k p bs fs" and b: "\<And>b. b \<in> set bs \<Longrightarrow> cm_blocks cm' b = cm_blocks cm b"
    and u: "\<And>u. u \<in> set (pool_units p bs) \<Longrightarrow> cm_units cm' u = cm_units cm u"
  shows "pool_inv cm' k p bs fs"
proof -
  note I = pool_invD [OF inv]
  have "lseg (bnext cm') (mp_blkhead p) bs" by (rule lseg_cong [OF _ I(3)]) (simp add: bnext_def b)
  moreover have "lseg (unext (cm_units cm')) (mp_idleunit p) fs" by (rule lseg_cong [OF _ I(5)]) (use I(7) u in \<open>auto simp: unext_def\<close>)
  moreover have "block_inv cm' k p fs x" if "x \<in> set bs" for x
  proof -
    have "unit_inv cm' p x v = unit_inv cm p x v" if "v \<in> set (blk_units p x)" for v
    proof -
      have "v \<in> set (pool_units p bs)" using that \<open>x \<in> set bs\<close> by (auto simp: pool_units_def)
      then show ?thesis using u [of v] by (simp add: unit_inv_def)
    qed
    then show ?thesis using I(8) [OF that] b [OF that] by (simp add: block_inv_def)
  qed
  ultimately show ?thesis using I(1,2,4,6,7) by (simp add: pool_inv_def)
qed

section \<open>The size\<close>

lemma size_exp_ok:
  assumes "sz \<le> 2 ^ 30"
  shows "\<exists>e. size_exp sz = Some e \<and> e \<le> 30 \<and> sz \<le> 2 ^ e \<and> (e = 0 \<or> 2 ^ (e - 1) < sz)"
proof -
  have "\<exists>e. size_exp sz = Some e \<and> (e \<le> 30 \<and> sz \<le> 2 ^ e \<and> (e = 0 \<or> 2 ^ (e - 1) < sz))"
    unfolding size_exp_def
  proof (rule while_c_total [where I = "\<lambda>n e. n = 30 - e \<and> e \<le> 30 \<and> (e = 0 \<or> 2 ^ (e - 1) < sz)"], simp)
    fix n e assume I: "n = 30 - e \<and> e \<le> 30 \<and> (e = 0 \<or> 2 ^ (e - 1) < sz)"
    show "Option.bind (c_assert (e < 31)) (\<lambda>_. Some (2 ^ e < sz)) = Some False \<and> e \<le> 30 \<and> sz \<le> 2 ^ e \<and> (e = 0 \<or> 2 ^ (e - 1) < sz) \<or>
      Option.bind (c_assert (e < 31)) (\<lambda>_. Some (2 ^ e < sz)) = Some True \<and>
      (\<exists>s' m. Some (e + 1) = Some s' \<and> m < n \<and> m = 30 - s' \<and> s' \<le> 30 \<and> (s' = 0 \<or> 2 ^ (s' - 1) < sz))"
    proof (cases "2 ^ e < sz")
      case True
      then have "e \<noteq> 30" using assms by auto
      then show ?thesis using I True by auto
    next
      case False
      then show ?thesis using I by auto
    qed
  qed
  then show ?thesis by blast
qed

definition size_class :: "nat \<Rightarrow> nat" where
  "size_class e = (if e \<ge> CMMP_MIN_SIZE_EXP then e - CMMP_MIN_SIZE_EXP else 0)"

lemma size_class_ok:
  fixes sz :: nat
  shows "e \<le> 30 \<Longrightarrow> sz \<le> 2 ^ e \<Longrightarrow> size_class e < 29 \<and> sz \<le> 2 ^ (size_class e + 2)"
proof -
  assume e: "e \<le> 30" "sz \<le> 2 ^ e"
  have "(2 :: nat) ^ e \<le> 2 ^ (size_class e + 2)" by (rule power_increasing) (auto simp: size_class_def CMMP_MIN_SIZE_EXP_def)
  then show ?thesis using e by (auto simp: size_class_def CMMP_MIN_SIZE_EXP_def)
qed

section \<open>Moving units\<close>

lemma blk_units_upd [simp]:
  "blk_units (p\<lparr>mp_idleunit := h\<rparr>) b = blk_units p b" "blk_units (p\<lparr>mp_blkhead := a\<rparr>) b = blk_units p b" "blk_units (p\<lparr>mp_blknum := n\<rparr>) b = blk_units p b"
  by (simp_all add: blk_units_def)

lemma pool_units_upd [simp]:
  "pool_units (p\<lparr>mp_idleunit := h\<rparr>) bs = pool_units p bs" "pool_units (p\<lparr>mp_blkhead := a\<rparr>) bs = pool_units p bs" "pool_units (p\<lparr>mp_blknum := n\<rparr>) bs = pool_units p bs"
  by (simp_all add: pool_units_def cong: map_cong)

lemma idle_in_upd [simp]:
  "idle_in (p\<lparr>mp_idleunit := h\<rparr>) b fs = idle_in p b fs" "idle_in (p\<lparr>mp_blkhead := a\<rparr>) b fs = idle_in p b fs" "idle_in (p\<lparr>mp_blknum := n\<rparr>) b fs = idle_in p b fs"
  by (simp_all add: idle_in_def)

lemma unit_inv_upd [simp]:
  "unit_inv cm (p\<lparr>mp_idleunit := h\<rparr>) b u = unit_inv cm p b u" "unit_inv cm (p\<lparr>mp_blkhead := a\<rparr>) b u = unit_inv cm p b u"
  "unit_inv cm (p\<lparr>mp_blknum := n\<rparr>) b u = unit_inv cm p b u"
  by (simp_all add: unit_inv_def)

lemma block_inv_upd [simp]:
  "block_inv cm k (p\<lparr>mp_idleunit := h\<rparr>) fs b = block_inv cm k p fs b" "block_inv cm k (p\<lparr>mp_blkhead := a\<rparr>) fs b = block_inv cm k p fs b"
  "block_inv cm k (p\<lparr>mp_blknum := n\<rparr>) fs b = block_inv cm k p fs b"
  by (simp_all add: block_inv_def)

lemma idle_in_Cons: "idle_in p b (x # fs) = idle_in p b fs + (if x \<in> set (blk_units p b) then 1 else 0)"
  by (simp add: idle_in_def)

lemma pool_put_simps [simp]:
  "cm_blocks (pool_put cm k p) = cm_blocks cm" "cm_units (pool_put cm k p) = cm_units cm"
  "cm_pools (pool_put cm k p) = map_option (\<lambda>ps. ps[k := p]) (cm_pools cm)"
  by (simp_all add: pool_put_def)

lemma cm_inv_pool: "cm_inv cm Bs Fs \<Longrightarrow> k < 29 \<Longrightarrow> \<exists>p. pool_at cm k = Some p \<and> pool_inv cm k p (Bs k) (Fs k)"
  by (auto simp: cm_inv_def pool_at_def)

lemma pool_at_inv: "cm_inv cm Bs Fs \<Longrightarrow> pool_at cm k = Some p \<Longrightarrow> k < 29 \<and> pool_inv cm k p (Bs k) (Fs k)"
  by (auto simp: cm_inv_def pool_at_def split: if_splits)

text \<open>A change within one pool, or of memory that is in none.\<close>

lemma cm_inv_update:
  assumes inv: "cm_inv cm Bs Fs" and p: "pool_at cm k = Some p" and ps: "cm_pools cm' = map_option (\<lambda>ps. ps[k := p']) (cm_pools cm)"
    and new: "pool_inv cm' k p' bs fs"
    and fb: "\<And>b. cm_blocks cm' b \<noteq> cm_blocks cm b \<Longrightarrow> b \<in> set (Bs k) \<or> cm_blocks cm b = None"
    and fu: "\<And>u. cm_units cm' u \<noteq> cm_units cm u \<Longrightarrow> u \<in> set (pool_units p (Bs k)) \<or> cm_units cm u = None"
  shows "cm_inv cm' (Bs(k := bs)) (Fs(k := fs))"
proof -
  obtain qs where qs: "cm_pools cm = Some qs" "length qs = 29" "\<And>j. j < 29 \<Longrightarrow> pool_inv cm j (qs ! j) (Bs j) (Fs j)"
  proof -
    assume a: "\<And>qs. cm_pools cm = Some qs \<Longrightarrow> length qs = 29 \<Longrightarrow> (\<And>j. j < 29 \<Longrightarrow> pool_inv cm j (qs ! j) (Bs j) (Fs j)) \<Longrightarrow> thesis"
    show thesis using inv unfolding cm_inv_def by (elim exE conjE, intro a) auto
  qed
  have k: "k < 29" "qs ! k = p" using p unfolding pool_at_def qs(1) by (simp_all add: qs(2) split: if_splits)
  note K = qs(3) [OF k(1), unfolded k(2)]
  have "pool_inv cm' j (qs ! j) (Bs j) (Fs j)" if j: "j < 29" "j \<noteq> k" for j
  proof (rule pool_inv_cong [OF qs(3) [OF j(1)]])
    fix b assume b: "b \<in> set (Bs j)"
    then have "b \<notin> set (Bs k)" using blocks_apart [OF qs(3) [OF j(1)] K b] j(2) by blast
    moreover have "cm_blocks cm b \<noteq> None" using pool_invD(8) [OF qs(3) [OF j(1)] b] by (auto simp: block_inv_def)
    ultimately show "cm_blocks cm' b = cm_blocks cm b" using fb [of b] by (cases "cm_blocks cm' b = cm_blocks cm b") simp_all
  next
    fix u assume "u \<in> set (pool_units (qs ! j) (Bs j))"
    then obtain b where b: "b \<in> set (Bs j)" "u \<in> set (blk_units (qs ! j) b)" by (rule pool_unitsE)
    have "u \<notin> set (pool_units p (Bs k))"
      using units_apart [OF qs(3) [OF j(1)] K b(1) _ b(2)] j(2) by (blast elim: pool_unitsE)
    moreover have "cm_units cm u \<noteq> None" using unit_block [OF qs(3) [OF j(1)] b] by auto
    ultimately show "cm_units cm' u = cm_units cm u" using fu [of u] by (cases "cm_units cm' u = cm_units cm u") simp_all
  qed
  then have "pool_inv cm' j (qs[k := p'] ! j) ((Bs(k := bs)) j) ((Fs(k := fs)) j)" if "j < 29" for j
    using that new k(1) qs(2) by (cases "j = k") simp_all
  moreover have "cm_pools cm' = Some (qs[k := p'])" "length (qs[k := p']) = 29" using ps qs(1,2) by simp_all
  ultimately show ?thesis unfolding cm_inv_def by (intro exI [of _ "qs[k := p']"] conjI allI impI)
qed

lemma pool_relist:
  assumes inv: "pool_inv cm k p bs fs"
    and bl: "\<And>b mb. b \<in> set bs \<Longrightarrow> cm_blocks cm b = Some mb \<Longrightarrow> cm_blocks cm' b = Some (mb\<lparr>mb_idlenum := int (idle_in p b fs')\<rparr>)"
    and un: "\<And>u. u \<in> set (pool_units p bs) \<Longrightarrow> map_option (\<lambda>mu. (mu_block mu, length (mu_data mu))) (cm_units cm' u) =
      map_option (\<lambda>mu. (mu_block mu, length (mu_data mu))) (cm_units cm u)"
    and free: "lseg (unext (cm_units cm')) h fs'" "distinct fs'" "set fs' \<subseteq> set (pool_units p bs)"
  shows "pool_inv cm' k (p\<lparr>mp_idleunit := h\<rparr>) bs fs'"
proof -
  note I = pool_invD [OF inv]
  have next_same: "bnext cm' b = bnext cm b" if "b \<in> set bs" for b
    using I(8) [OF that] bl [OF that] by (auto simp: block_inv_def bnext_def)
  have "lseg (bnext cm') (mp_blkhead p) bs" by (rule lseg_cong [OF next_same I(3)])
  moreover have "block_inv cm' k p fs' b" if b: "b \<in> set bs" for b
  proof -
    have "unit_inv cm' p b u" if "u \<in> set (blk_units p b)" for u
    proof -
      have "unit_inv cm p b u" using I(8) [OF b] that by (simp add: block_inv_def)
      moreover have "u \<in> set (pool_units p bs)" using that b by (auto simp: pool_units_def)
      ultimately show ?thesis using un [of u] by (cases "cm_units cm' u") (auto simp: unit_inv_def)
    qed
    then show ?thesis using I(8) [OF b] bl [OF b] by (auto simp: block_inv_def)
  qed
  ultimately show ?thesis using I(1,2,4) free by (simp add: pool_inv_def)
qed

text \<open>The number of free units of the blocks when a unit is taken or given back.\<close>

lemma idle_others:
  assumes inv: "pool_inv cm k p bs fs" and b: "b \<in> set bs" "x \<in> set (blk_units p b)" and b': "b' \<in> set bs"
  shows "idle_in p b' (x # gs) = idle_in p b' gs + (if b' = b then 1 else 0)"
proof -
  have "x \<in> set (blk_units p b') \<longleftrightarrow> b' = b" using units_apart [OF inv inv b(1) b' b(2)] b(2) by blast
  then show ?thesis by (simp add: idle_in_Cons)
qed

lemma take_ok:
  assumes inv: "cm_inv cm Bs Fs" and p: "pool_at cm k = Some p" and f: "Fs k = x # fs"
  shows "\<exists>mu mb. mp_idleunit p = x \<and> unit_at cm x = Some mu \<and> block_at cm (mu_block mu) = Some mb \<and> x \<in> set (pool_units p (Bs k)) \<and>
    cm_inv ((pool_put cm k (p\<lparr>mp_idleunit := mu_nextunit mu\<rparr>))\<lparr>cm_blocks := (cm_blocks cm)(mu_block mu \<mapsto> mb\<lparr>mb_idlenum := mb_idlenum mb - 1\<rparr>)\<rparr>) Bs (Fs(k := fs))"
proof -
  have I: "pool_inv cm k p (Bs k) (x # fs)" using pool_at_inv [OF inv p] f by simp
  note D = pool_invD [OF I]
  have x: "mp_idleunit p = x" "x \<noteq> NULL" using D(5) by auto
  have "x \<in> set (pool_units p (Bs k))" using D(7) by simp
  then obtain b where b: "b \<in> set (Bs k)" "x \<in> set (blk_units p b)" by (rule pool_unitsE)
  obtain mu mb where mu: "cm_units cm x = Some mu" "mu_block mu = b" "cm_blocks cm b = Some mb" "mb_idlenum mb = int (idle_in p b (x # fs))" "b \<noteq> NULL"
    using unit_block [OF I b] by blast
  let ?cm = "(pool_put cm k (p\<lparr>mp_idleunit := mu_nextunit mu\<rparr>))\<lparr>cm_blocks := (cm_blocks cm)(b \<mapsto> mb\<lparr>mb_idlenum := mb_idlenum mb - 1\<rparr>)\<rparr>"
  have seg: "lseg (unext (cm_units cm)) (mu_nextunit mu) fs" using D(5) mu(1) by (auto simp: unext_def)
  have new: "pool_inv ?cm k (p\<lparr>mp_idleunit := mu_nextunit mu\<rparr>) (Bs k) fs"
  proof (rule pool_relist [OF I])
    fix b' mb' assume b': "b' \<in> set (Bs k)" "cm_blocks cm b' = Some mb'"
    have i: "mb_idlenum mb' = int (idle_in p b' (x # fs))" using D(8) [OF b'(1)] b'(2) by (auto simp: block_inv_def)
    show "cm_blocks ?cm b' = Some (mb'\<lparr>mb_idlenum := int (idle_in p b' fs)\<rparr>)"
      using b'(2) mu(3) i unfolding idle_others [OF I b b'(1), of fs] by (cases "b' = b") simp_all
  qed (use seg D(6,7) in simp_all)
  have "cm_inv ?cm (Bs(k := Bs k)) (Fs(k := fs))"
    by (rule cm_inv_update [OF inv p _ new]) (use b(1) in \<open>auto split: if_splits\<close>)
  then have "cm_inv ?cm Bs (Fs(k := fs))" by (simp only: fun_upd_triv)
  then show ?thesis using x mu D(7) by (intro exI [of _ mu] exI [of _ mb]) (simp add: unit_at_def block_at_def)
qed

text \<open>A unit is in use when it is in a block and not free.\<close>

definition in_use :: "cmem \<Rightarrow> (nat \<Rightarrow> addr list) \<Rightarrow> (nat \<Rightarrow> addr list) \<Rightarrow> nat \<Rightarrow> addr \<Rightarrow> bool" where
  "in_use cm Bs Fs k x \<longleftrightarrow> (\<exists>p. pool_at cm k = Some p \<and> x \<in> set (pool_units p (Bs k)) \<and> x \<notin> set (Fs k))"

lemma free_ok:
  assumes inv: "cm_inv cm Bs Fs" and u: "in_use cm Bs Fs k x"
  shows "\<exists>cm'. cmemory_pool_free cm (x + SIZEOF_UNIT) = Some cm' \<and> cm_inv cm' Bs (Fs(k := x # Fs k)) \<and>
    (\<forall>y. map_option mu_data (cm_units cm' y) = map_option mu_data (cm_units cm y))"
proof -
  obtain p where p: "pool_at cm k = Some p" "x \<in> set (pool_units p (Bs k))" "x \<notin> set (Fs k)" using u by (auto simp: in_use_def)
  have I: "pool_inv cm k p (Bs k) (Fs k)" using pool_at_inv [OF inv p(1)] by simp
  note D = pool_invD [OF I]
  obtain b where b: "b \<in> set (Bs k)" "x \<in> set (blk_units p b)" using p(2) by (rule pool_unitsE)
  have x: "x \<noteq> NULL" using blk_units_nz [OF b(2)] by (simp add: SIZEOF_BLOCK_def)
  obtain mu mb where mu: "cm_units cm x = Some mu" "mu_block mu = b" "cm_blocks cm b = Some mb" "mb_idlenum mb = int (idle_in p b (Fs k))" "b \<noteq> NULL" "mb_pool mb = k"
    using unit_block [OF I b] by blast
  let ?us = "(cm_units cm)(x \<mapsto> mu\<lparr>mu_nextunit := mp_idleunit p\<rparr>)"
  let ?cm = "(pool_put (cm\<lparr>cm_units := ?us\<rparr>) k (p\<lparr>mp_idleunit := x\<rparr>))\<lparr>cm_blocks := (cm_blocks cm)(b \<mapsto> mb\<lparr>mb_idlenum := mb_idlenum mb + 1\<rparr>)\<rparr>"
  have "unext ?us = (unext (cm_units cm))(x \<mapsto> mp_idleunit p)" by (auto simp: unext_def)
  then have seg: "lseg (unext ?us) x (x # Fs k)" using D(5) p(3) x by (simp add: lseg_frame)
  have new: "pool_inv ?cm k (p\<lparr>mp_idleunit := x\<rparr>) (Bs k) (x # Fs k)"
  proof (rule pool_relist [OF I])
    fix b' mb' assume b': "b' \<in> set (Bs k)" "cm_blocks cm b' = Some mb'"
    have i: "mb_idlenum mb' = int (idle_in p b' (Fs k))" using D(8) [OF b'(1)] b'(2) by (auto simp: block_inv_def)
    show "cm_blocks ?cm b' = Some (mb'\<lparr>mb_idlenum := int (idle_in p b' (x # Fs k))\<rparr>)"
      using b'(2) mu(3) i unfolding idle_others [OF I b b'(1), of "Fs k"] by (cases "b' = b") simp_all
  next
    show "map_option (\<lambda>mu. (mu_block mu, length (mu_data mu))) (cm_units ?cm y) = map_option (\<lambda>mu. (mu_block mu, length (mu_data mu))) (cm_units cm y)" for y
      using mu(1) by simp
  qed (use seg D(6,7) p(2,3) in simp_all)
  have "cm_inv ?cm (Bs(k := Bs k)) (Fs(k := x # Fs k))"
    by (rule cm_inv_update [OF inv p(1) _ new]) (use b(1) p(2) in \<open>auto split: if_splits\<close>)
  then have c: "cm_inv ?cm Bs (Fs(k := x # Fs k))" by (simp only: fun_upd_triv)
  have "cmemory_pool_free cm (x + SIZEOF_UNIT) = Some ?cm"
    using x mu p(1) by (simp add: cmemory_pool_free_def unit_of_def SIZEOF_UNIT_def unit_at_def block_at_def Let_def)
  then show ?thesis using c mu(1) by (intro exI [of _ ?cm]) simp
qed

section \<open>New blocks\<close>

lemma unext_upd: "unext (us(x \<mapsto> mu)) = (unext us)(x \<mapsto> mu_nextunit mu)"
  by (auto simp: unext_def)

lemma init_units_ok:
  assumes "lseg (unext us) idle fs" and "set (map (\<lambda>i. u + i * (SIZEOF_UNIT + sz)) [0..<n]) \<inter> set fs = {}" and "u \<noteq> NULL"
    and "init_units n block sz g u (us, idle) = (us', idle')"
  shows "lseg (unext us') idle' (rev (map (\<lambda>i. u + i * (SIZEOF_UNIT + sz)) [0..<n]) @ fs) \<and>
    (\<forall>x. x \<notin> set (map (\<lambda>i. u + i * (SIZEOF_UNIT + sz)) [0..<n]) \<longrightarrow> us' x = us x) \<and>
    (\<forall>x\<in>set (map (\<lambda>i. u + i * (SIZEOF_UNIT + sz)) [0..<n]). \<exists>mu. us' x = Some mu \<and> mu_block mu = block \<and> length (mu_data mu) = sz)"
  using assms
proof (induction n arbitrary: u us idle fs)
  case (Suc n)
  let ?v = "u + SIZEOF_UNIT + sz"
  have split: "map (\<lambda>i. u + i * (SIZEOF_UNIT + sz)) [0..<Suc n] = u # map (\<lambda>i. ?v + i * (SIZEOF_UNIT + sz)) [0..<n]"
    by (simp add: upt_conv_Cons map_Suc_upt [symmetric] algebra_simps del: upt_Suc)
  let ?mu = "\<lparr>mu_block = block, mu_nextunit = idle, mu_data = map g [0..<sz]\<rparr>"
  let ?rest = "map (\<lambda>i. ?v + i * (SIZEOF_UNIT + sz)) [0..<n]"
  have nin: "u \<notin> set ?rest" by (auto simp: SIZEOF_UNIT_def)
  have seg: "lseg (unext (us(u \<mapsto> ?mu))) u (u # fs)" using Suc.prems(1-3) unfolding split unext_upd by (simp add: lseg_frame)
  have dis: "set ?rest \<inter> set (u # fs) = {}" using Suc.prems(2) nin unfolding split by auto
  have r: "init_units n block sz g ?v (us(u \<mapsto> ?mu), u) = (us', idle')" using Suc.prems(4) by simp
  note IH = Suc.IH [OF seg dis _ r]
  show ?case unfolding split using IH nin by (auto simp: SIZEOF_UNIT_def)
qed simp

lemma idle_all: "mp_unitnum p = idle_in p b (rev (blk_units p b) @ fs) \<longleftrightarrow> idle_in p b fs = 0"
proof -
  have "filter (\<lambda>u. u \<in> set (blk_units p b)) (rev (blk_units p b)) = rev (blk_units p b)" by (rule filter_True) simp
  then have "idle_in p b (rev (blk_units p b) @ fs) = length (blk_units p b) + idle_in p b fs" by (simp add: idle_in_def)
  then show ?thesis by (simp add: blk_units_def)
qed

lemma block_room:
  assumes "k < 29"
  shows "SIZEOF_BLOCK + mp_unitnum (new_mempool (k + 2)) * (2 ^ (k + 2) + SIZEOF_UNIT) < 2 ^ 31"
proof -
  define d where "d = (2 :: nat) ^ (k + 2) + SIZEOF_UNIT"
  let ?m = "CMMP_MAX_BLOCKSIZE - SIZEOF_BLOCK"
  have "(2 :: nat) ^ (k + 2) \<le> 2 ^ 30" by (rule power_increasing) (use assms in simp_all)
  then have d: "d \<le> 2 ^ 30 + 16" by (simp add: d_def SIZEOF_UNIT_def)
  have m: "?m div d * d \<le> ?m" by (rule div_times_less_eq_dividend)
  define q where "q = ?m div d"
  have n: "mp_unitnum (new_mempool (k + 2)) = (if q = 0 then 1 else q)" by (simp add: new_mempool_def Let_def d_def q_def)
  have q: "q * d \<le> 102399976" using m unfolding q_def by (simp add: SIZEOF_BLOCK_def CMMP_MAX_BLOCKSIZE_def)
  show ?thesis unfolding n d_def [symmetric] using d q by (cases "q = 0") (simp_all add: SIZEOF_BLOCK_def)
qed

text \<open>What the allocator promises of a new block: its memory, and that of its units, is not in use.\<close>

definition block_fresh :: "cmem \<Rightarrow> cmempool \<Rightarrow> addr \<Rightarrow> bool" where
  "block_fresh cm p b \<longleftrightarrow> b \<noteq> NULL \<and> cm_blocks cm b = None \<and> (\<forall>u\<in>set (blk_units p b). cm_units cm u = None)"

lemma append_block_ok:
  assumes inv: "cm_inv cm Bs Fs" and p: "pool_at cm k = Some p" and new: "block_fresh cm p block"
  shows "\<exists>cm' p'. append_memblock cm k block g = Some cm' \<and> cm_inv cm' (Bs(k := block # Bs k)) (Fs(k := rev (blk_units p block) @ Fs k)) \<and>
    pool_at cm' k = Some p' \<and> blk_units p' = blk_units p \<and> mp_unitsize p' = mp_unitsize p \<and> (\<forall>u. cm_units cm u \<noteq> None \<longrightarrow> cm_units cm' u = cm_units cm u)"
proof -
  have I: "pool_inv cm k p (Bs k) (Fs k)" using pool_at_inv [OF inv p] by simp
  note D = pool_invD [OF I]
  have N: "block \<noteq> NULL" "cm_blocks cm block = None" "\<And>u. u \<in> set (blk_units p block) \<Longrightarrow> cm_units cm u = None"
    using new by (simp_all add: block_fresh_def)
  have old: "cm_units cm u \<noteq> None" if "u \<in> set (pool_units p (Bs k))" for u using that unit_block [OF I] by (elim pool_unitsE) fastforce
  obtain us' idle' where i: "init_units (mp_unitnum p) block (mp_unitsize p) g (block + SIZEOF_BLOCK) (cm_units cm, mp_idleunit p) = (us', idle')" by fastforce
  have dis: "set (blk_units p block) \<inter> set (Fs k) = {}" using N(3) old D(7) by blast
  have U: "lseg (unext us') idle' (rev (blk_units p block) @ Fs k)" "\<And>x. x \<notin> set (blk_units p block) \<Longrightarrow> us' x = cm_units cm x"
    "\<And>x. x \<in> set (blk_units p block) \<Longrightarrow> \<exists>mu. us' x = Some mu \<and> mu_block mu = block \<and> length (mu_data mu) = mp_unitsize p"
    using init_units_ok [OF D(5) dis [unfolded blk_units_def] _ i] N(1) unfolding blk_units_def by blast+
  let ?mb = "\<lparr>mb_unitnum = mp_unitnum p, mb_idlenum = int (mp_unitnum p), mb_pool = k, mb_next = mp_blkhead p\<rparr>"
  let ?p = "p\<lparr>mp_blkhead := block, mp_blknum := mp_blknum p + 1, mp_idleunit := idle'\<rparr>"
  let ?cm = "pool_put (cm\<lparr>cm_blocks := (cm_blocks cm)(block \<mapsto> ?mb), cm_units := us'\<rparr>) k ?p"
  have nin: "block \<notin> set (Bs k)" using N(2) D(8) [of block] by (auto simp: block_inv_def)
  have "bnext ?cm = (bnext cm)(block \<mapsto> mp_blkhead p)" by (auto simp: bnext_def)
  then have bl: "lseg (bnext ?cm) block (block # Bs k)" using D(3) nin N(1) by (simp add: lseg_frame)
  have inv_old: "block_inv ?cm k p (rev (blk_units p block) @ Fs k) b" if b: "b \<in> set (Bs k)" for b
  proof -
    have "u \<notin> set (blk_units p block)" if "u \<in> set (blk_units p b)" for u using that b N(3) old by (fastforce simp: pool_units_def)
    then have "filter (\<lambda>u. u \<in> set (blk_units p b)) (rev (blk_units p block)) = []" "\<And>u. u \<in> set (blk_units p b) \<Longrightarrow> us' u = cm_units cm u"
      using U(2) by (auto simp: filter_empty_conv)
    then show ?thesis using D(8) [OF b] N(2) by (auto simp: block_inv_def idle_in_def unit_inv_def)
  qed
  have "idle_in p block (Fs k) = 0" using dis by (auto simp: idle_in_def filter_empty_conv)
  then have "block_inv ?cm k p (rev (blk_units p block) @ Fs k) block" using U(3) idle_all [of p block "Fs k"] by (simp add: block_inv_def unit_inv_def)
  then have pinv: "pool_inv ?cm k ?p (block # Bs k) (rev (blk_units p block) @ Fs k)"
    using bl inv_old U(1) D(1,2,4,6,7) nin dis blk_units_distinct [of p block] by (auto simp: pool_inv_def pool_units_def)
  have kept: "us' u \<noteq> cm_units cm u \<Longrightarrow> cm_units cm u = None" for u using N(3) U(2) by (cases "u \<in> set (blk_units p block)") auto
  have room: "SIZEOF_BLOCK + mp_unitnum p * (mp_unitsize p + SIZEOF_UNIT) < 2 ^ 31" using D(1,2) block_room [of k] by (simp only:)
  have a: "cm_inv ?cm (Bs(k := block # Bs k)) (Fs(k := rev (blk_units p block) @ Fs k))"
    by (rule cm_inv_update [OF inv p _ pinv]) (use N(2) kept in \<open>auto split: if_splits\<close>)
  have b: "append_memblock cm k block g = Some ?cm" using N(1) p i room by (simp add: append_memblock_def Let_def)
  have c: "pool_at ?cm k = Some ?p" using p by (auto simp: pool_at_def bind_eq_Some_conv split: if_splits)
  have d: "\<forall>u. cm_units cm u \<noteq> None \<longrightarrow> cm_units ?cm u = cm_units cm u" using kept by (metis cmem.select_convs(3) cmem.surjective cmem.update_convs(2,3) pool_put_simps(2))
  have e: "blk_units ?p = blk_units p" by (rule ext) simp
  have f: "mp_unitsize ?p = mp_unitsize p" by simp
  show ?thesis by (rule exI [of _ ?cm], rule exI [of _ ?p], intro conjI, rule b, rule a, rule c, rule e, rule f, rule d)
qed

lemma append_other: "append_memblock cm k block g = Some cm' \<Longrightarrow> j \<noteq> k \<Longrightarrow> pool_at cm' j = pool_at cm j"
  by (cases "cm_pools cm") (auto simp: append_memblock_def pool_at_def Let_def split: if_splits prod.splits)

section \<open>Allocating\<close>

text \<open>Before the first allocation there are no pools.\<close>

definition cm_ok :: "cmem \<Rightarrow> (nat \<Rightarrow> addr list) \<Rightarrow> (nat \<Rightarrow> addr list) \<Rightarrow> bool" where
  "cm_ok cm Bs Fs \<longleftrightarrow> cm_inv cm Bs Fs \<or> cm_pools cm = None \<and> Bs = (\<lambda>k. []) \<and> Fs = (\<lambda>k. [])"

lemma create_ok: "cm_inv (cm\<lparr>cm_pools := Some create_mempools\<rparr>) (\<lambda>k. []) (\<lambda>k. [])"
proof -
  have len: "length create_mempools = 29" by (simp add: create_mempools_def CMMP_MAX_SIZE_EXP_def CMMP_MIN_SIZE_EXP_def del: upt_Suc)
  have "create_mempools ! k = new_mempool (k + 2)" if "k < 29" for k
  proof -
    have l: "k < length [CMMP_MIN_SIZE_EXP..<CMMP_MAX_SIZE_EXP + 1]" using that by (simp add: CMMP_MAX_SIZE_EXP_def CMMP_MIN_SIZE_EXP_def del: upt_Suc)
    have "[CMMP_MIN_SIZE_EXP..<CMMP_MAX_SIZE_EXP + 1] ! k = k + 2"
      by (subst nth_upt) (use that in \<open>simp_all add: CMMP_MAX_SIZE_EXP_def CMMP_MIN_SIZE_EXP_def\<close>)
    then show ?thesis unfolding create_mempools_def nth_map [OF l] by simp
  qed
  then have "pool_inv (cm\<lparr>cm_pools := Some create_mempools\<rparr>) k (create_mempools ! k) [] []" if "k < 29" for k
    using that by (simp add: pool_inv_def) (simp add: new_mempool_def Let_def)
  then show ?thesis using len by (simp add: cm_inv_def)
qed

definition alloc_fresh :: "cmem \<Rightarrow> nat \<Rightarrow> addr \<Rightarrow> bool" where
  "alloc_fresh cm sz block \<longleftrightarrow> (case size_exp sz of None \<Rightarrow> True | Some e \<Rightarrow> block_fresh cm (new_mempool (size_class e + 2)) block)"

lemma in_use_inv: "cm_inv cm Bs Fs \<Longrightarrow> pool_at cm k = Some p \<Longrightarrow> in_use cm Bs Fs k x \<longleftrightarrow> x \<in> set (pool_units p (Bs k)) \<and> x \<notin> set (Fs k)"
  by (simp add: in_use_def)

text \<open>Taking a unit from a pool that has one.\<close>

definition take_unit :: "cmem \<Rightarrow> nat \<Rightarrow> (cmem \<times> addr) option" where
  "take_unit cm ind = do {
     pool \<leftarrow> pool_at cm ind;
     u \<leftarrow> unit_at cm (mp_idleunit pool);
     b \<leftarrow> block_at cm (mu_block u);
     let cm' = pool_put cm ind (pool\<lparr>mp_idleunit := mu_nextunit u\<rparr>);
     Some (cm'\<lparr>cm_blocks := (cm_blocks cm')(mu_block u \<mapsto> b\<lparr>mb_idlenum := mb_idlenum b - 1\<rparr>)\<rparr>, mp_idleunit pool + SIZEOF_UNIT) }"

lemma take_unit_ok:
  assumes inv: "cm_inv cm Bs Fs" and k: "k < 29" and f: "Fs k \<noteq> []"
  shows "\<exists>cm' x fs. take_unit cm k = Some (cm', x + SIZEOF_UNIT) \<and> cm_inv cm' Bs (Fs(k := fs)) \<and> cm_units cm' = cm_units cm \<and> (\<forall>j. \<not> in_use cm Bs Fs j x) \<and>
    (\<forall>i y. in_use cm' Bs (Fs(k := fs)) i y \<longleftrightarrow> in_use cm Bs Fs i y \<or> i = k \<and> y = x)"
proof -
  obtain p where p: "pool_at cm k = Some p" "pool_inv cm k p (Bs k) (Fs k)" using cm_inv_pool [OF inv k] by blast
  obtain x fs where x: "Fs k = x # fs" using f by (cases "Fs k") auto
  obtain mu mb where T: "mp_idleunit p = x" "unit_at cm x = Some mu" "block_at cm (mu_block mu) = Some mb" "x \<in> set (pool_units p (Bs k))"
    and I: "cm_inv ((pool_put cm k (p\<lparr>mp_idleunit := mu_nextunit mu\<rparr>))\<lparr>cm_blocks := (cm_blocks cm)(mu_block mu \<mapsto> mb\<lparr>mb_idlenum := mb_idlenum mb - 1\<rparr>)\<rparr>) Bs (Fs(k := fs))"
    using take_ok [OF inv p(1) x] by blast
  let ?cm = "(pool_put cm k (p\<lparr>mp_idleunit := mu_nextunit mu\<rparr>))\<lparr>cm_blocks := (cm_blocks cm)(mu_block mu \<mapsto> mb\<lparr>mb_idlenum := mb_idlenum mb - 1\<rparr>)\<rparr>"
  have t: "take_unit cm k = Some (?cm, x + SIZEOF_UNIT)" using p(1) T(1-3) by (simp add: take_unit_def Let_def)
  have d: "distinct (x # fs)" using pool_invD(6) [OF p(2)] x by simp
  have pk: "pool_at ?cm k = Some (p\<lparr>mp_idleunit := mu_nextunit mu\<rparr>)" using p(1) by (auto simp: pool_at_def bind_eq_Some_conv split: if_splits)
  have po: "pool_at ?cm i = pool_at cm i" if "i \<noteq> k" for i using that by (cases "cm_pools cm") (simp_all add: pool_at_def)
  have u: "in_use ?cm Bs (Fs(k := fs)) i y \<longleftrightarrow> in_use cm Bs Fs i y \<or> i = k \<and> y = x" for i y
    using T(4) d p(1) pk po [of i] x by (cases "i = k") (auto simp: in_use_def)
  have "\<not> in_use cm Bs Fs j x" for j
  proof
    assume "in_use cm Bs Fs j x"
    then obtain q where q: "pool_at cm j = Some q" "x \<in> set (pool_units q (Bs j))" "x \<notin> set (Fs j)" by (auto simp: in_use_def)
    have "pool_inv cm j q (Bs j) (Fs j)" using pool_at_inv [OF inv q(1)] by simp
    then have "j = k" using units_apart [OF _ p(2)] q(2) T(4) by (blast elim: pool_unitsE)
    then show False using q(3) x by simp
  qed
  then have n: "\<forall>j. \<not> in_use cm Bs Fs j x" by blast
  show ?thesis by (rule exI [of _ ?cm], rule exI [of _ x], rule exI [of _ fs]) (intro conjI t I n allI u, simp)
qed

lemma alloc_eq: "cmemory_pool_alloc cm sz ok block g = do {
     c_assert (cm_pools cm \<noteq> None \<or> ok);
     let cm = (if cm_pools cm = None then cm\<lparr>cm_pools := Some create_mempools\<rparr> else cm);
     e \<leftarrow> size_exp sz;
     if e > CMMP_MAX_SIZE_EXP then Some (cm, NULL)
     else do {
       pool \<leftarrow> pool_at cm (size_class e);
       cm \<leftarrow> (if mp_idleunit pool = NULL then append_memblock cm (size_class e) block g else Some cm);
       take_unit cm (size_class e) } }"
  unfolding cmemory_pool_alloc_def take_unit_def size_class_def Let_def by (rule refl)

text \<open>The pools given out serve a request: the unit was not in use, is now, is large enough, and nothing else changes.\<close>

lemma alloc_ok:
  assumes ok: "cm_ok cm Bs Fs" and sz: "sz \<le> 2 ^ 30" and new: "alloc_fresh cm sz block"
  shows "\<exists>cm' Bs' Fs' k x. cmemory_pool_alloc cm sz True block g = Some (cm', x + SIZEOF_UNIT) \<and> cm_inv cm' Bs' Fs' \<and>
    k < 29 \<and> sz \<le> 2 ^ (k + 2) \<and> (\<forall>j. \<not> in_use cm Bs Fs j x) \<and>
    (\<forall>i y. in_use cm' Bs' Fs' i y \<longleftrightarrow> in_use cm Bs Fs i y \<or> i = k \<and> y = x) \<and>
    (\<forall>u. cm_units cm u \<noteq> None \<longrightarrow> cm_units cm' u = cm_units cm u)"
proof -
  let ?c0 = "if cm_pools cm = None then cm\<lparr>cm_pools := Some create_mempools\<rparr> else cm"
  obtain e where e: "size_exp sz = Some e" "e \<le> 30" "sz \<le> 2 ^ e" using size_exp_ok [OF sz] by blast
  let ?k = "size_class e"
  have k: "?k < 29" "sz \<le> 2 ^ (?k + 2)" using size_class_ok [OF e(2,3)] by blast+
  have c0: "cm_inv ?c0 Bs Fs" using ok create_ok [of cm] by (auto simp: cm_ok_def cm_inv_def)
  have u0: "in_use ?c0 Bs Fs j y = in_use cm Bs Fs j y" for j y
    using ok by (auto simp: cm_ok_def in_use_def pool_units_def pool_at_def cm_inv_def)
  have s0: "cm_units ?c0 = cm_units cm" by simp
  obtain p where p: "pool_at ?c0 ?k = Some p" "pool_inv ?c0 ?k p (Bs ?k) (Fs ?k)" using cm_inv_pool [OF c0 k(1)] by blast
  have bu: "blk_units p b = blk_units (new_mempool (?k + 2)) b" for b
    using pool_invD(1,2) [OF p(2)] by (simp add: blk_units_def new_mempool_def Let_def)
  have f: "block_fresh ?c0 p block" using new e(1) by (auto simp: alloc_fresh_def block_fresh_def bu)
  have idle: "mp_idleunit p = NULL \<longleftrightarrow> Fs ?k = []" using pool_invD(5) [OF p(2)] by (cases "Fs ?k") auto
  have e': "\<not> e > CMMP_MAX_SIZE_EXP" using e(2) by (simp add: CMMP_MAX_SIZE_EXP_def)
  have start: "cmemory_pool_alloc cm sz True block g = Option.bind (if Fs ?k = [] then append_memblock ?c0 ?k block g else Some ?c0) (\<lambda>cm. take_unit cm ?k)"
    unfolding alloc_eq using e(1) e' p(1) idle by (simp add: Let_def)
  have R: ?thesis if "Option.bind (if Fs ?k = [] then append_memblock ?c0 ?k block g else Some ?c0) (\<lambda>cm. take_unit cm ?k) = Some (cm', x + SIZEOF_UNIT)"
    "cm_inv cm' Bs' Fs'" "\<And>j. \<not> in_use cm Bs Fs j x" "\<forall>i y. in_use cm' Bs' Fs' i y \<longleftrightarrow> in_use cm Bs Fs i y \<or> i = ?k \<and> y = x"
    "\<forall>u. cm_units cm u \<noteq> None \<longrightarrow> cm_units cm' u = cm_units cm u" for cm' Bs' Fs' x
  proof -
    have a: "cmemory_pool_alloc cm sz True block g = Some (cm', x + SIZEOF_UNIT)" using start that(1) by (rule trans)
    have b: "\<forall>j. \<not> in_use cm Bs Fs j x" using that(3) by (rule allI)
    show ?thesis by (rule exI [of _ cm'], rule exI [of _ Bs'], rule exI [of _ Fs'], rule exI [of _ ?k], rule exI [of _ x]) (intro conjI a that(2) k b that(4) that(5))
  qed
  show ?thesis
  proof (cases "Fs ?k = []")
    case False
    obtain cm' x fs where T: "take_unit ?c0 ?k = Some (cm', x + SIZEOF_UNIT)" "cm_inv cm' Bs (Fs(?k := fs))" "cm_units cm' = cm_units ?c0"
      "\<And>j. \<not> in_use ?c0 Bs Fs j x" "\<forall>i y. in_use cm' Bs (Fs(?k := fs)) i y \<longleftrightarrow> in_use ?c0 Bs Fs i y \<or> i = ?k \<and> y = x"
      using take_unit_ok [OF c0 k(1) False] by blast
    show ?thesis by (rule R [OF _ T(2) T(4) [unfolded u0] T(5) [unfolded u0]]) (use T(1,3) False s0 in simp_all)
  next
    case True
    let ?Bs = "Bs(?k := block # Bs ?k)" let ?Fs = "Fs(?k := rev (blk_units p block) @ Fs ?k)"
    obtain c1 p1 where A: "append_memblock ?c0 ?k block g = Some c1" "cm_inv c1 ?Bs ?Fs" "pool_at c1 ?k = Some p1" "blk_units p1 = blk_units p"
      "\<forall>u. cm_units ?c0 u \<noteq> None \<longrightarrow> cm_units c1 u = cm_units ?c0 u" using append_block_ok [OF c0 p(1) f, of g] by blast
    have other: "pool_at c1 j = pool_at ?c0 j" if "j \<noteq> ?k" for j using append_other [OF A(1) that] .
    have n: "mp_unitnum (new_mempool (?k + 2)) \<noteq> 0" by (simp add: new_mempool_def Let_def)
    then have ne: "?Fs ?k \<noteq> []" using pool_invD(2) [OF p(2)] by (simp add: blk_units_def)
    have nin: "u \<notin> set (pool_units p (Bs ?k))" if "u \<in> set (blk_units p block)" for u
    proof
      assume "u \<in> set (pool_units p (Bs ?k))"
      then obtain b where "b \<in> set (Bs ?k)" "u \<in> set (blk_units p b)" by (rule pool_unitsE)
      then show False using unit_block [OF p(2)] f that by (fastforce simp: block_fresh_def)
    qed
    have u1: "in_use c1 ?Bs ?Fs j y = in_use cm Bs Fs j y" for j y
      unfolding u0 [symmetric] using p(1) A(3,4) other [of j] nin [of y] by (cases "j = ?k") (auto simp: in_use_def pool_units_def)
    obtain cm' x fs where T: "take_unit c1 ?k = Some (cm', x + SIZEOF_UNIT)" "cm_inv cm' ?Bs (?Fs(?k := fs))" "cm_units cm' = cm_units c1"
      "\<And>j. \<not> in_use c1 ?Bs ?Fs j x" "\<forall>i y. in_use cm' ?Bs (?Fs(?k := fs)) i y \<longleftrightarrow> in_use c1 ?Bs ?Fs i y \<or> i = ?k \<and> y = x"
      using take_unit_ok [OF A(2) k(1) ne] by blast
    show ?thesis by (rule R [OF _ T(2) T(4) [unfolded u1] T(5) [unfolded u1]]) (use T(1,3) A(1,5) True s0 in simp_all)
  qed
qed

end
