(* ===== verification/CallocateProps.thy ===== *)
theory CallocateProps
  imports CallocateSpec
begin

text \<open>The properties of the memory pools: allocation and release, reallocation, and the count of leaks.\<close>

section \<open>Reallocating\<close>

lemma unit_of_add [simp]: "x \<noteq> NULL \<Longrightarrow> unit_of (x + SIZEOF_UNIT) = Some x"
  by (simp add: unit_of_def)

lemma in_useD:
  assumes inv: "cm_inv cm Bs Fs" and u: "in_use cm Bs Fs k x"
  shows "\<exists>p mu mb. pool_at cm k = Some p \<and> mp_unitsize p = 2 ^ (k + 2) \<and> unit_at cm x = Some mu \<and> cm_units cm x = Some mu \<and> length (mu_data mu) = 2 ^ (k + 2) \<and>
    block_at cm (mu_block mu) = Some mb \<and> mb_pool mb = k \<and> x \<noteq> NULL \<and> k < 29"
proof -
  obtain p where p: "pool_at cm k = Some p" "x \<in> set (pool_units p (Bs k))" using u by (auto simp: in_use_def)
  have I: "k < 29" "pool_inv cm k p (Bs k) (Fs k)" using pool_at_inv [OF inv p(1)] by simp_all
  obtain b where b: "b \<in> set (Bs k)" "x \<in> set (blk_units p b)" using p(2) by (rule pool_unitsE)
  have x: "x \<noteq> NULL" using blk_units_nz [OF b(2)] by (simp add: SIZEOF_BLOCK_def)
  show ?thesis using unit_block [OF I(2) b] pool_invD(1) [OF I(2)] p(1) x I(1) by (auto simp: unit_at_def block_at_def)
qed

text \<open>Writing into a unit keeps the invariant.\<close>

lemma write_unit_ok:
  assumes inv: "cm_inv cm Bs Fs" and u: "cm_units cm x = Some mu" and len: "length ds = length (mu_data mu)"
  shows "cm_inv (cm\<lparr>cm_units := (cm_units cm)(x \<mapsto> mu\<lparr>mu_data := ds\<rparr>)\<rparr>) Bs Fs"
proof -
  let ?cm = "cm\<lparr>cm_units := (cm_units cm)(x \<mapsto> mu\<lparr>mu_data := ds\<rparr>)\<rparr>"
  have n: "unext (cm_units ?cm) = unext (cm_units cm)" using u by (auto simp: unext_def)
  have ui: "unit_inv ?cm p b y = unit_inv cm p b y" for p b y using u len by (auto simp: unit_inv_def)
  have "pool_inv ?cm k p bs fs = pool_inv cm k p bs fs" for k p bs fs
    using n ui by (simp add: pool_inv_def block_inv_def bnext_def)
  then show ?thesis using inv by (simp add: cm_inv_def)
qed

lemma in_use_cong: "cm_pools cm' = cm_pools cm \<Longrightarrow> in_use cm' Bs Fs k x = in_use cm Bs Fs k x"
  by (simp add: in_use_def pool_at_def)

lemma free_in_use:
  assumes inv: "cm_inv cm Bs Fs" and u: "in_use cm Bs Fs k x" and r: "cmemory_pool_free cm (x + SIZEOF_UNIT) = Some cm'"
  shows "in_use cm' Bs (Fs(k := x # Fs k)) j y \<longleftrightarrow> in_use cm Bs Fs j y \<and> (j, y) \<noteq> (k, x)"
proof -
  obtain p mu mb where P: "pool_at cm k = Some p" "unit_at cm x = Some mu" "block_at cm (mu_block mu) = Some mb" "mb_pool mb = k" "x \<noteq> NULL"
    using in_useD [OF inv u] by blast
  have c: "cm_pools cm' = map_option (\<lambda>ps. ps[k := p\<lparr>mp_idleunit := x\<rparr>]) (cm_pools cm)"
    using r P by (auto simp: cmemory_pool_free_def bind_eq_Some_conv Let_def)
  have k: "pool_at cm' k = Some (p\<lparr>mp_idleunit := x\<rparr>)" using P(1) c by (auto simp: pool_at_def bind_eq_Some_conv split: if_splits)
  have o: "pool_at cm' j = pool_at cm j" if "j \<noteq> k" using that c by (cases "cm_pools cm") (simp_all add: pool_at_def)
  show ?thesis using k o P(1) by (cases "j = k") (auto simp: in_use_def)
qed

text \<open>What the program sees of the pools: the pointers it holds, with the size of their units and the contents.\<close>

definition held :: "cmem \<Rightarrow> (nat \<Rightarrow> addr list) \<Rightarrow> (nat \<Rightarrow> addr list) \<Rightarrow> (nat \<times> addr) set" where
  "held cm Bs Fs = {(k, x). in_use cm Bs Fs k x}"

definition contents :: "cmem \<Rightarrow> addr \<Rightarrow> byte list" where
  "contents cm x = (case cm_units cm x of None \<Rightarrow> [] | Some mu \<Rightarrow> mu_data mu)"

lemma free_held:
  assumes inv: "cm_inv cm Bs Fs" and u: "(k, x) \<in> held cm Bs Fs"
  shows "\<exists>cm' Fs'. cmemory_pool_free cm (x + SIZEOF_UNIT) = Some cm' \<and> cm_inv cm' Bs Fs' \<and> held cm' Bs Fs' = held cm Bs Fs - {(k, x)} \<and>
    contents cm' = contents cm"
proof -
  have u': "in_use cm Bs Fs k x" using u by (simp add: held_def)
  obtain cm' where F: "cmemory_pool_free cm (x + SIZEOF_UNIT) = Some cm'" "cm_inv cm' Bs (Fs(k := x # Fs k))"
    "\<And>y. map_option mu_data (cm_units cm' y) = map_option mu_data (cm_units cm y)" using free_ok [OF inv u'] by blast
  have "contents cm' y = contents cm y" for y using F(3) [of y] by (auto simp: contents_def split: option.splits)
  then have "contents cm' = contents cm" by (rule ext)
  moreover have "held cm' Bs (Fs(k := x # Fs k)) = held cm Bs Fs - {(k, x)}" unfolding held_def using free_in_use [OF inv u' F(1)] by auto
  ultimately show ?thesis using F(1,2) by blast
qed

lemma alloc_held:
  assumes "cm_ok cm Bs Fs" and "sz \<le> 2 ^ 30" and "alloc_fresh cm sz block"
  shows "\<exists>cm' Bs' Fs' k x. cmemory_pool_alloc cm sz True block g = Some (cm', x + SIZEOF_UNIT) \<and> cm_inv cm' Bs' Fs' \<and> sz \<le> 2 ^ (k + 2) \<and>
    x \<notin> snd ` held cm Bs Fs \<and> held cm' Bs' Fs' = insert (k, x) (held cm Bs Fs) \<and> (\<forall>y \<in> snd ` held cm Bs Fs. contents cm' y = contents cm y)"
proof -
  obtain cm' Bs' Fs' k x where A: "cmemory_pool_alloc cm sz True block g = Some (cm', x + SIZEOF_UNIT)" "cm_inv cm' Bs' Fs'" "sz \<le> 2 ^ (k + 2)"
    "\<forall>j. \<not> in_use cm Bs Fs j x" "\<forall>i y. in_use cm' Bs' Fs' i y \<longleftrightarrow> in_use cm Bs Fs i y \<or> i = k \<and> y = x"
    "\<forall>u. cm_units cm u \<noteq> None \<longrightarrow> cm_units cm' u = cm_units cm u" using alloc_ok [OF assms, of g] by (elim exE conjE, intro that) assumption+
  have "cm_units cm y \<noteq> None" if y: "y \<in> snd ` held cm Bs Fs" for y
  proof -
    obtain j where j: "in_use cm Bs Fs j y" using y by (auto simp: held_def)
    then have "cm_pools cm \<noteq> None" by (auto simp: in_use_def pool_at_def bind_eq_Some_conv)
    then have "cm_inv cm Bs Fs" using assms(1) by (auto simp: cm_ok_def)
    from in_useD [OF this j] show ?thesis by auto
  qed
  then have c: "\<forall>y \<in> snd ` held cm Bs Fs. contents cm' y = contents cm y" using A(6) by (simp add: contents_def)
  have h: "held cm' Bs' Fs' = insert (k, x) (held cm Bs Fs)" unfolding held_def using A(5) by auto
  have n: "x \<notin> snd ` held cm Bs Fs" using A(4) by (auto simp: held_def)
  show ?thesis by (rule exI [of _ cm'], rule exI [of _ Bs'], rule exI [of _ Fs'], rule exI [of _ k], rule exI [of _ x]) (intro conjI A(1-3) n h c)
qed

lemma copy_ok:
  assumes inv: "cm_inv cm Bs Fs" and d: "(k, y) \<in> held cm Bs Fs" and s: "(j, x) \<in> held cm Bs Fs" and n: "j \<le> k" and ne: "x \<noteq> y"
  shows "\<exists>cm'. unit_copy cm y x (2 ^ (j + 2)) = Some cm' \<and> cm_inv cm' Bs Fs \<and> held cm' Bs Fs = held cm Bs Fs \<and>
    take (2 ^ (j + 2)) (contents cm' y) = contents cm x \<and> (\<forall>z. z \<noteq> y \<longrightarrow> contents cm' z = contents cm z)"
proof -
  have u: "in_use cm Bs Fs k y" "in_use cm Bs Fs j x" using d s by (simp_all add: held_def)
  obtain mu where D: "unit_at cm y = Some mu" "cm_units cm y = Some mu" "length (mu_data mu) = 2 ^ (k + 2)" using in_useD [OF inv u(1)] by blast
  obtain mv where S: "unit_at cm x = Some mv" "cm_units cm x = Some mv" "length (mu_data mv) = 2 ^ (j + 2)" using in_useD [OF inv u(2)] by blast
  have le: "(2 :: nat) ^ (j + 2) \<le> 2 ^ (k + 2)" by (rule power_increasing) (use n in simp_all)
  let ?ds = "take (2 ^ (j + 2)) (mu_data mv) @ drop (2 ^ (j + 2)) (mu_data mu)"
  let ?cm = "cm\<lparr>cm_units := (cm_units cm)(y \<mapsto> mu\<lparr>mu_data := ?ds\<rparr>)\<rparr>"
  have "length ?ds = length (mu_data mu)" using D(3) S(3) le by simp
  then have a: "cm_inv ?cm Bs Fs" by (rule write_unit_ok [OF inv D(2)])
  have b: "unit_copy cm y x (2 ^ (j + 2)) = Some ?cm" unfolding unit_copy_def D(1) S(1) using D(3) S(3) le by simp
  have c: "held ?cm Bs Fs = held cm Bs Fs" by (simp add: held_def in_use_def pool_at_def)
  have e: "take (2 ^ (j + 2)) (contents ?cm y) = contents cm x" using S(2,3) by (simp add: contents_def)
  have f: "\<forall>z. z \<noteq> y \<longrightarrow> contents ?cm z = contents cm z" by (simp add: contents_def)
  show ?thesis by (rule exI [of _ ?cm]) (intro conjI b a c e f)
qed

text \<open>C10: an allocation gives out a unit that no other pointer refers to and that holds the request, without touching what the
  others hold, and giving it back restores the set of the pointers held.\<close>

theorem cmem_alloc_free:
  assumes "cm_ok cm Bs Fs" and "sz \<le> 2 ^ 30" and "alloc_fresh cm sz block"
  shows "\<exists>cm' Bs' Fs' k x. cmemory_pool_alloc cm sz True block g = Some (cm', x + SIZEOF_UNIT) \<and> cm_inv cm' Bs' Fs' \<and> sz \<le> 2 ^ (k + 2) \<and>
    x \<notin> snd ` held cm Bs Fs \<and> held cm' Bs' Fs' = insert (k, x) (held cm Bs Fs) \<and> (\<forall>y \<in> snd ` held cm Bs Fs. contents cm' y = contents cm y) \<and>
    (\<exists>cm'' Fs''. cmemory_pool_free cm' (x + SIZEOF_UNIT) = Some cm'' \<and> cm_inv cm'' Bs' Fs'' \<and> held cm'' Bs' Fs'' = held cm Bs Fs \<and> contents cm'' = contents cm')"
proof -
  obtain cm' Bs' Fs' k x where A: "cmemory_pool_alloc cm sz True block g = Some (cm', x + SIZEOF_UNIT)" "cm_inv cm' Bs' Fs'" "sz \<le> 2 ^ (k + 2)"
    "x \<notin> snd ` held cm Bs Fs" "held cm' Bs' Fs' = insert (k, x) (held cm Bs Fs)" "\<forall>y \<in> snd ` held cm Bs Fs. contents cm' y = contents cm y"
    using alloc_held [OF assms, of g] by (elim exE conjE, intro that) assumption+
  have x: "(k, x) \<in> held cm' Bs' Fs'" "insert (k, x) (held cm Bs Fs) - {(k, x)} = held cm Bs Fs" using A(4,5) by force+
  have F: "\<exists>cm'' Fs''. cmemory_pool_free cm' (x + SIZEOF_UNIT) = Some cm'' \<and> cm_inv cm'' Bs' Fs'' \<and> held cm'' Bs' Fs'' = held cm Bs Fs \<and> contents cm'' = contents cm'"
    using free_held [OF A(2) x(1)] unfolding A(5) x(2) .
  show ?thesis by (rule exI [of _ cm'], rule exI [of _ Bs'], rule exI [of _ Fs'], rule exI [of _ k], rule exI [of _ x]) (intro conjI A F)
qed


section \<open>Counting leaks\<close>

lemma leak_loop:
  assumes "lseg (bnext cm) b bs"
  shows "while_c (\<lambda>(block, ret). Some (block \<noteq> NULL)) (leak_step cm) (b, ret) =
    Some (NULL, ret + (\<Sum>b\<leftarrow>bs. int (mb_unitnum (the (cm_blocks cm b))) - mb_idlenum (the (cm_blocks cm b))))"
  using assms
proof (induction bs arbitrary: b ret)
  case Nil
  then show ?case by (simp add: while_c_stop)
next
  case (Cons x bs)
  obtain mb where mb: "b = x" "x \<noteq> NULL" "cm_blocks cm x = Some mb" "lseg (bnext cm) (mb_next mb) bs" using Cons.prems by (auto simp: bnext_def)
  have "leak_step cm (x, ret) = Some (mb_next mb, ret + (int (mb_unitnum mb) - mb_idlenum mb))" using mb(2,3) by (simp add: leak_step_def block_at_def)
  then show ?case using Cons.IH [OF mb(4)] mb(1-3) by (simp add: while_c_step algebra_simps)
qed

lemma one_block:
  assumes inv: "pool_inv cm k p bs fs" and x: "x \<in> set (pool_units p bs)"
  shows "(\<Sum>b\<leftarrow>bs. if x \<in> set (blk_units p b) then 1 else 0) = (1 :: nat)"
proof -
  obtain c where c: "c \<in> set bs" "x \<in> set (blk_units p c)" using x by (rule pool_unitsE)
  have "(\<Sum>b\<leftarrow>bs. if x \<in> set (blk_units p b) then 1 else 0) = (\<Sum>b\<in>set bs. if x \<in> set (blk_units p b) then 1 else 0 :: nat)"
    by (rule sum_list_distinct_conv_sum_set [OF pool_invD(4) [OF inv]])
  also have "\<dots> = (\<Sum>b\<in>set bs. if c = b then 1 else 0)"
    by (rule sum.cong [OF refl]) (use units_apart [OF inv inv c(1) _ c(2)] c(2) in auto)
  also have "\<dots> = 1" using c(1) by (simp add: sum.delta')
  finally show ?thesis .
qed

lemma sum_idle:
  assumes inv: "pool_inv cm k p bs fs" and sub: "set gs \<subseteq> set (pool_units p bs)"
  shows "(\<Sum>b\<leftarrow>bs. idle_in p b gs) = length gs"
  using sub
proof (induction gs)
  case (Cons g gs)
  have "(\<Sum>b\<leftarrow>bs. idle_in p b (g # gs)) = (\<Sum>b\<leftarrow>bs. idle_in p b gs) + (\<Sum>b\<leftarrow>bs. if g \<in> set (blk_units p b) then 1 else 0)"
    by (simp add: idle_in_Cons sum_list_addf)
  then show ?case using Cons one_block [OF inv, of g] by simp
qed (simp add: idle_in_def)

lemma pool_leak:
  assumes inv: "pool_inv cm k p bs fs"
  shows "(\<Sum>b\<leftarrow>bs. int (mb_unitnum (the (cm_blocks cm b))) - mb_idlenum (the (cm_blocks cm b))) = int (card (set (pool_units p bs) - set fs))"
proof -
  have b: "int (mb_unitnum (the (cm_blocks cm b))) - mb_idlenum (the (cm_blocks cm b)) = int (length (blk_units p b)) - int (idle_in p b fs)" if "b \<in> set bs" for b
    using pool_invD(8) [OF inv that] by (auto simp: block_inv_def blk_units_def)
  have "(\<Sum>b\<leftarrow>bs. int (mb_unitnum (the (cm_blocks cm b))) - mb_idlenum (the (cm_blocks cm b))) =
      (\<Sum>b\<leftarrow>bs. int (length (blk_units p b)) - int (idle_in p b fs))"
    using b by (intro arg_cong [of _ _ sum_list] map_cong) auto
  also have "\<dots> = int (length (pool_units p bs)) - int (\<Sum>b\<leftarrow>bs. idle_in p b fs)"
    unfolding pool_units_def by (induction bs) simp_all
  also have "\<dots> = int (length (pool_units p bs)) - int (length fs)" using sum_idle [OF inv pool_invD(7) [OF inv]] by simp
  also have "\<dots> = int (card (set (pool_units p bs)) - card (set fs))"
    using distinct_card [OF pool_units_distinct [OF inv]] distinct_card [OF pool_invD(6) [OF inv]] card_mono [OF _ pool_invD(7) [OF inv]] by simp
  also have "\<dots> = int (card (set (pool_units p bs) - set fs))" using card_Diff_subset [OF _ pool_invD(7) [OF inv]] by simp
  finally show ?thesis .
qed

lemma leak_pools_ok:
  assumes inv: "cm_inv cm Bs Fs" and "set ks \<subseteq> {..<29}"
  shows "leak_pools cm ks ret = Some (ret + (\<Sum>k\<leftarrow>ks. int (card {x. in_use cm Bs Fs k x})))"
  using assms(2)
proof (induction ks arbitrary: ret)
  case (Cons k ks)
  have "k < 29" using Cons.prems by simp
  from cm_inv_pool [OF inv this] obtain p where p: "pool_at cm k = Some p" "pool_inv cm k p (Bs k) (Fs k)" by blast
  have u: "{x. in_use cm Bs Fs k x} = set (pool_units p (Bs k)) - set (Fs k)" using p(1) by (auto simp: in_use_def)
  have "leak_pool cm k ret = Some (ret + int (card {x. in_use cm Bs Fs k x}))"
    using p(1) leak_loop [OF pool_invD(3) [OF p(2)], of ret] pool_leak [OF p(2)] u by (simp add: leak_pool_def)
  then show ?case using Cons by simp
qed simp

text \<open>C37: the number of leaks is that of the pointers still held in all pools but the last: memory of more than \<open>2 ^ 29\<close> bytes
  that is never freed is not counted.\<close>

theorem cmem_leak_num:
  assumes "cm_inv cm Bs Fs"
  shows "get_memory_leak_num cm = Some (int (card {(k, x) \<in> held cm Bs Fs. k < 28}))"
proof -
  have fin: "finite {x. in_use cm Bs Fs k x}" for k
    by (rule finite_subset [of _ "case pool_at cm k of None \<Rightarrow> {} | Some p \<Rightarrow> set (pool_units p (Bs k))"]) (auto simp: in_use_def split: option.splits)
  have sub: "set [0..<28] \<subseteq> {..<29 :: nat}" by (rule subsetI) simp
  have "get_memory_leak_num cm = Some (\<Sum>k\<leftarrow>[0..<28]. int (card {x. in_use cm Bs Fs k x}))"
    using leak_pools_ok [OF assms sub, of 0] assms unfolding get_memory_leak_num_def CMMP_MAX_SIZE_EXP_def CMMP_MIN_SIZE_EXP_def cm_inv_def
    by (auto simp del: upt_Suc upt_rec_numeral)
  also have "(\<Sum>k\<leftarrow>[0..<28]. int (card {x. in_use cm Bs Fs k x})) = int (\<Sum>k<28. card {x. in_use cm Bs Fs k x})"
    by (simp add: interv_sum_list_conv_sum_set_nat atLeast0LessThan del: upt_Suc upt_rec_numeral)
  also have "(\<Sum>k<28. card {x. in_use cm Bs Fs k x}) = card (SIGMA k:{..<28}. {x. in_use cm Bs Fs k x})" by (simp add: fin)
  also have "(SIGMA k:{..<28}. {x. in_use cm Bs Fs k x}) = {(k, x) \<in> held cm Bs Fs. k < 28}" by (auto simp: held_def)
  finally show ?thesis .
qed

section \<open>Instances\<close>

definition no_mem :: cmem where "no_mem = \<lparr>cm_pools = None, cm_blocks = Map.empty, cm_units = Map.empty\<rparr>"

lemma no_mem_ok: "cm_ok no_mem (\<lambda>k. []) (\<lambda>k. [])" "alloc_fresh no_mem sz 1000"
  by (simp_all add: cm_ok_def no_mem_def alloc_fresh_def block_fresh_def split: option.splits)

lemma no_mem_held: "held no_mem Bs Fs = {}"
  by (auto simp: held_def in_use_def pool_at_def no_mem_def)

theorem cmem_alloc_free_witness:
  "\<exists>cm' x. cmemory_pool_alloc no_mem 100 True 1000 (\<lambda>i. 7) = Some (cm', x + SIZEOF_UNIT) \<and> (\<exists>cm''. cmemory_pool_free cm' (x + SIZEOF_UNIT) = Some cm'')"
  using cmem_alloc_free [OF no_mem_ok(1) _ no_mem_ok(2), of 100 "\<lambda>i. 7"] by auto

text \<open>Memory is finite, so that there is always a new block.\<close>

definition fin_mem :: "cmem \<Rightarrow> bool" where
  "fin_mem cm \<longleftrightarrow> finite (dom (cm_units cm)) \<and> finite (dom (cm_blocks cm))"

lemma init_units_fin: "finite (dom (fst s)) \<Longrightarrow> finite (dom (fst (init_units n block sz g u s)))"
  by (induction n arbitrary: u s) auto

lemma append_fin:
  assumes "fin_mem cm" and "append_memblock cm k block g = Some cm'"
  shows "fin_mem cm'"
proof (cases "block = NULL")
  case True
  then show ?thesis using assms by (auto simp: append_memblock_def bind_eq_Some_conv split: if_splits)
next
  case False
  obtain p where p: "pool_at cm k = Some p" using assms(2) by (auto simp: append_memblock_def bind_eq_Some_conv)
  obtain us h where i: "init_units (mp_unitnum p) block (mp_unitsize p) g (block + SIZEOF_BLOCK) (cm_units cm, mp_idleunit p) = (us, h)" by fastforce
  have "finite (dom us)" using init_units_fin [of "(cm_units cm, mp_idleunit p)" "mp_unitnum p" block "mp_unitsize p" g "block + SIZEOF_BLOCK"] i assms(1)
    by (simp add: fin_mem_def)
  then show ?thesis using assms False p i by (auto simp: append_memblock_def fin_mem_def Let_def split: if_splits)
qed

lemma take_fin: "fin_mem cm \<Longrightarrow> take_unit cm k = Some (cm', q) \<Longrightarrow> fin_mem cm'"
  by (auto simp: fin_mem_def take_unit_def bind_eq_Some_conv Let_def)

lemma alloc_fin:
  assumes "fin_mem cm" and "cmemory_pool_alloc cm sz True block g = Some (cm', p)"
  shows "fin_mem cm'"
proof -
  define c0 where "c0 = (if cm_pools cm = None then cm\<lparr>cm_pools := Some create_mempools\<rparr> else cm)"
  have f: "fin_mem c0" using assms(1) by (simp add: fin_mem_def c0_def)
  obtain e where e: "size_exp sz = Some e" using assms(2) by (auto simp: alloc_eq Let_def bind_eq_Some_conv)
  show ?thesis
  proof (cases "e > CMMP_MAX_SIZE_EXP")
    case True
    then show ?thesis using assms(2) e f unfolding alloc_eq Let_def c0_def [symmetric] by simp
  next
    case False
    obtain pool :: cmempool and c1 where c1: "(if mp_idleunit pool = NULL then append_memblock c0 (size_class e) block g else Some c0) = Some c1" "take_unit c1 (size_class e) = Some (cm', p)"
      using assms(2) e False unfolding alloc_eq Let_def c0_def [symmetric] by (simp add: bind_eq_Some_conv del: if_split) metis
    have "fin_mem c1" using c1(1) f append_fin [OF f] by (cases "mp_idleunit pool = NULL") auto
    then show ?thesis using take_fin c1(2) by blast
  qed
qed

lemma fresh_block:
  assumes "fin_mem cm"
  shows "\<exists>block. alloc_fresh cm sz block"
proof -
  let ?S = "insert 0 (dom (cm_units cm) \<union> dom (cm_blocks cm))" let ?b = "Suc (Max ?S)"
  have fin: "finite ?S" using assms by (simp add: fin_mem_def)
  have out: "u \<notin> ?S" if "?b \<le> u" for u using Max_ge [OF fin, of u] that by auto
  have "?b \<le> u" if "u \<in> set (blk_units p ?b)" for u p using that by (auto simp: blk_units_def)
  then have "block_fresh cm p ?b" for p using out [of ?b] out by (auto simp: block_fresh_def domIff)
  then show ?thesis by (auto simp: alloc_fresh_def split: option.splits)
qed

lemma some_mem:
  "\<exists>cm Bs Fs k x. cm_inv cm Bs Fs \<and> held cm Bs Fs = {(k, x)} \<and> fin_mem cm"
proof -
  obtain cm Bs Fs k x where "cmemory_pool_alloc no_mem 100 True 1000 (\<lambda>i. 7) = Some (cm, x + SIZEOF_UNIT)" "cm_inv cm Bs Fs" "held cm Bs Fs = insert (k, x) {}"
    using alloc_held [OF no_mem_ok(1) _ no_mem_ok(2), of 100 "\<lambda>i. 7"] unfolding no_mem_held by auto
  moreover have "fin_mem no_mem" by (simp add: fin_mem_def no_mem_def)
  ultimately show ?thesis using alloc_fin by blast
qed


theorem cmem_leak_num_witness: "\<exists>cm. get_memory_leak_num cm = Some 0 \<and> cm_pools cm \<noteq> None"
proof -
  let ?cm = "no_mem\<lparr>cm_pools := Some create_mempools\<rparr>"
  have "held ?cm (\<lambda>k. []) (\<lambda>k. []) = {}" by (auto simp: held_def in_use_def pool_units_def)
  then show ?thesis using cmem_leak_num [OF create_ok [of no_mem]] by (intro exI [of _ ?cm]) simp
qed

end
