(* ===== verification/Log.thy ===== *)
theory Log
  imports Cstring OhTime
begin

text \<open>
  The log of \<^verbatim>\<open>ohev/log.c\<close>: a line is put together in a buffer of the stack and handed to the callbacks of an
  interface, that of the console or that of a file. The streams of the C library are what they hold back and what they have
  written. What \<^verbatim>\<open>vsnprintf\<close> makes of the arguments is a parameter, as is the text of \<^verbatim>\<open>errno\<close>.
\<close>

unbundle bit_operations_syntax

section \<open>State\<close>

definition LOG_INNER :: "8 word" where "LOG_INNER = 0x01"
definition LOG_TRACE :: "8 word" where "LOG_TRACE = 0x02"
definition LOG_DEBUG :: "8 word" where "LOG_DEBUG = 0x04"
definition LOG_INFO :: "8 word" where "LOG_INFO = 0x08"
definition LOG_WARN :: "8 word" where "LOG_WARN = 0x10"
definition LOG_ERROR :: "8 word" where "LOG_ERROR = 0x20"
definition LOG_FATAL :: "8 word" where "LOG_FATAL = 0x40"
definition LOG_NONE :: "8 word" where "LOG_NONE = 0x80"
definition LOG_MASK :: "8 word" where "LOG_MASK = 0x7F"

definition LOG_WARN_INDEX :: nat where "LOG_WARN_INDEX = 4"
definition LOG_FATAL_INDEX :: nat where "LOG_FATAL_INDEX = 6"
definition LOG_LEVELS :: nat where "LOG_LEVELS = 7"
definition LOG_BUFSIZE :: nat where "LOG_BUFSIZE = 4096"
definition MAX_FILEPATH_LEN :: nat where "MAX_FILEPATH_LEN = 255"

text \<open>The callbacks are function pointers: numbers, 0 for \<^verbatim>\<open>NULL\<close>.\<close>

record log_if =
  lf_level_flag :: "8 word"
  lf_output_cb :: nat
  lf_flush_cb :: nat
  lf_level_cb :: "nat list"

record ostream =
  os_held :: "byte list"
  os_written :: "byte list"

datatype log_ref = LogConsole | LogFile

record logger =
  lg_console :: log_if
  lg_file :: log_if
  lg_default :: log_ref
  lg_stdout :: ostream
  lg_filepath :: "byte list"
  lg_fp :: "ostream option"
  lg_clock :: clock
  lg_exited :: bool

definition ascii :: "string \<Rightarrow> byte list" where "ascii s = map of_char s"

definition log_level_name :: "byte list list" where
  "log_level_name = map ascii [''INNER '', ''TRACE '', ''DEBUG '', ''INFO  '', ''WARN  '', ''ERROR '', ''FATAL '']"

section \<open>Streams\<close>

definition fwrite :: "ostream \<Rightarrow> byte list \<Rightarrow> ostream" where
  "fwrite f bs = f\<lparr>os_held := os_held f @ bs\<rparr>"

definition fflush :: "ostream \<Rightarrow> ostream" where
  "fflush f = f\<lparr>os_held := [], os_written := os_written f @ os_held f\<rparr>"

section \<open>The callbacks of the console and of the file\<close>

definition LOG_CONSOLE_OUTPUT :: nat where "LOG_CONSOLE_OUTPUT = 1"
definition LOG_CONSOLE_FLUSH :: nat where "LOG_CONSOLE_FLUSH = 2"
definition LOG_CONSOLE_FATAL :: nat where "LOG_CONSOLE_FATAL = 3"
definition LOG_FILE_OUTPUT :: nat where "LOG_FILE_OUTPUT = 4"
definition LOG_FILE_FLUSH :: nat where "LOG_FILE_FLUSH = 5"
definition LOG_FILE_FATAL :: nat where "LOG_FILE_FATAL = 6"

definition log_console_output_cb :: "byte list \<Rightarrow> logger \<Rightarrow> logger" where
  "log_console_output_cb str lg = lg\<lparr>lg_stdout := fwrite (lg_stdout lg) str\<rparr>"

definition log_console_flush_cb :: "logger \<Rightarrow> logger" where
  "log_console_flush_cb lg = lg\<lparr>lg_stdout := fflush (lg_stdout lg)\<rparr>"

definition log_console_fatal_cb :: "logger \<Rightarrow> logger" where
  "log_console_fatal_cb lg =
     (log_console_flush_cb (lg\<lparr>lg_stdout := fwrite (lg_stdout lg) (ascii ''!!!fatal error, program exit!!!'' @ [10])\<rparr>))\<lparr>lg_exited := True\<rparr>"

definition log_file_output_cb :: "byte list \<Rightarrow> logger \<Rightarrow> logger option" where
  "log_file_output_cb str lg = do { f \<leftarrow> lg_fp lg; Some (lg\<lparr>lg_fp := Some (fwrite f str)\<rparr>) }"

text \<open>\<^verbatim>\<open>fflush\<close> of \<^verbatim>\<open>NULL\<close> flushes every stream.\<close>

definition log_file_flush_cb :: "logger \<Rightarrow> logger" where
  "log_file_flush_cb lg = (case lg_fp lg of None \<Rightarrow> log_console_flush_cb lg | Some f \<Rightarrow> lg\<lparr>lg_fp := Some (fflush f)\<rparr>)"

definition log_file_fatal_cb :: "logger \<Rightarrow> logger option" where
  "log_file_fatal_cb lg = do { let lg = log_file_flush_cb lg; f \<leftarrow> lg_fp lg; Some (lg\<lparr>lg_fp := Some (fflush f), lg_exited := True\<rparr>) }"

definition log_if_console :: log_if where
  "log_if_console = \<lparr>lf_level_flag = LOG_MASK, lf_output_cb = LOG_CONSOLE_OUTPUT, lf_flush_cb = LOG_CONSOLE_FLUSH,
     lf_level_cb = [0, 0, 0, 0, 0, 0, LOG_CONSOLE_FATAL]\<rparr>"

definition log_if_file :: log_if where
  "log_if_file = \<lparr>lf_level_flag = LOG_MASK, lf_output_cb = LOG_FILE_OUTPUT, lf_flush_cb = LOG_FILE_FLUSH,
     lf_level_cb = [0, 0, 0, 0, 0, 0, LOG_FILE_FATAL]\<rparr>"

text \<open>\<open>user\<close> says what a callback of the program does.\<close>

definition log_call :: "(nat \<Rightarrow> byte list \<Rightarrow> logger \<Rightarrow> logger option) \<Rightarrow> nat \<Rightarrow> byte list \<Rightarrow> logger \<Rightarrow> logger option" where
  "log_call user cb str lg =
     (if cb = 0 then Some lg
      else if cb = LOG_CONSOLE_OUTPUT then Some (log_console_output_cb str lg)
      else if cb = LOG_CONSOLE_FLUSH then Some (log_console_flush_cb lg)
      else if cb = LOG_CONSOLE_FATAL then Some (log_console_fatal_cb lg)
      else if cb = LOG_FILE_OUTPUT then log_file_output_cb str lg
      else if cb = LOG_FILE_FLUSH then Some (log_file_flush_cb lg)
      else if cb = LOG_FILE_FATAL then log_file_fatal_cb lg
      else user cb str lg)"

section \<open>A line\<close>

text \<open>
  \<^verbatim>\<open>snprintf\<close> to the offset \<open>off\<close> with room for \<open>n\<close> bytes: it writes at most \<open>n - 1\<close> bytes and a zero, and returns the length
  of the whole text, an \<^verbatim>\<open>int\<close>. Bytes outside the buffer cannot be written.
\<close>

definition snprintf_at :: "byte list \<Rightarrow> nat \<Rightarrow> 64 word \<Rightarrow> byte list \<Rightarrow> (byte list \<times> nat) option" where
  "snprintf_at buf off n s = do {
     c_assert (length s < 2 ^ 31);
     buf \<leftarrow> (if n = 0 then Some buf else poke buf off (take (unat n - 1) s @ [0]));
     Some (buf, length s) }"

text \<open>The room \<^verbatim>\<open>LOG_BUFSIZE - buflen\<close> is a \<^verbatim>\<open>size_t\<close>, which wraps.\<close>

definition log_room :: "nat \<Rightarrow> 64 word" where
  "log_room buflen = of_nat LOG_BUFSIZE - of_nat buflen"

definition log_head :: "nat \<Rightarrow> int \<Rightarrow> string \<Rightarrow> byte list" where
  "log_head level_index tid timebuf =
     log_level_name ! level_index @ replicate (5 - length (print_dec tid)) 32 @ print_dec tid @ [32] @ ascii timebuf @ [32]"

text \<open>\<open>buf0\<close> is what the buffer holds, \<open>msg\<close> the text of the format, and \<open>err\<close> that of the value of \<^verbatim>\<open>errno\<close>.\<close>

definition log_append :: "(nat \<Rightarrow> byte list \<Rightarrow> logger \<Rightarrow> logger option) \<Rightarrow> (int \<Rightarrow> string) \<Rightarrow> int \<Rightarrow> (nat \<Rightarrow> byte) \<Rightarrow> log_if \<Rightarrow> nat \<Rightarrow>
    byte list \<Rightarrow> int \<Rightarrow> byte list \<Rightarrow> logger \<Rightarrow> logger option" where
  "log_append user to_str tid buf0 logif level_index msg errno err lg = do {
     let buf = map buf0 [0..<LOG_BUFSIZE + 1];
     (ck, timebuf, r) \<leftarrow> get_catime_str to_str (lg_clock lg) [] 30;
     c_assert (level_index < LOG_LEVELS);
     (buf, buflen) \<leftarrow> snprintf_at buf 0 (of_nat LOG_BUFSIZE) (log_head level_index tid timebuf);
     (buf, n) \<leftarrow> snprintf_at buf buflen (log_room buflen) msg;
     let buflen = buflen + n;
     (buf, buflen) \<leftarrow> (if level_index \<ge> LOG_WARN_INDEX \<and> errno \<noteq> 0 then do {
         (buf, n) \<leftarrow> snprintf_at buf buflen (log_room buflen) (ascii ''('' @ err @ ascii '')'');
         Some (buf, buflen + n) }
       else Some (buf, buflen));
     buf \<leftarrow> poke buf buflen [10];
     let buflen = buflen + 1;
     buf \<leftarrow> poke buf buflen [0];
     let lg = lg\<lparr>lg_clock := ck\<rparr>;
     str \<leftarrow> peek buf 0 buflen;
     lg \<leftarrow> log_call user (lf_output_cb logif) str lg;
     log_call user (lf_level_cb logif ! level_index) str lg }"

section \<open>Interfaces and levels\<close>

definition set_logif_level :: "log_if \<Rightarrow> 8 word \<Rightarrow> log_if" where
  "set_logif_level logif level = logif\<lparr>lf_level_flag := LOG_MASK XOR (level - 1)\<rparr>"

definition set_logif_level_flag :: "log_if \<Rightarrow> 8 word \<Rightarrow> log_if" where
  "set_logif_level_flag logif flag = logif\<lparr>lf_level_flag := flag\<rparr>"

definition set_logif_output_cb :: "log_if \<Rightarrow> nat \<Rightarrow> log_if" where
  "set_logif_output_cb logif cb = logif\<lparr>lf_output_cb := cb\<rparr>"

definition set_logif_flush_cb :: "log_if \<Rightarrow> nat \<Rightarrow> log_if" where
  "set_logif_flush_cb logif cb = logif\<lparr>lf_flush_cb := cb\<rparr>"

definition set_logif_level_cb :: "log_if \<Rightarrow> nat \<Rightarrow> nat \<Rightarrow> log_if" where
  "set_logif_level_cb logif level_index cb = logif\<lparr>lf_level_cb := (lf_level_cb logif)[level_index := cb]\<rparr>"

text \<open>The levels and their indices, as the macros pair them.\<close>

definition log_levels :: "8 word list" where
  "log_levels = [LOG_INNER, LOG_TRACE, LOG_DEBUG, LOG_INFO, LOG_WARN, LOG_ERROR, LOG_FATAL]"

definition log_level_append :: "(nat \<Rightarrow> byte list \<Rightarrow> logger \<Rightarrow> logger option) \<Rightarrow> (int \<Rightarrow> string) \<Rightarrow> int \<Rightarrow> (nat \<Rightarrow> byte) \<Rightarrow> log_if \<Rightarrow> nat \<Rightarrow>
    byte list \<Rightarrow> int \<Rightarrow> byte list \<Rightarrow> logger \<Rightarrow> logger option" where
  "log_level_append user to_str tid buf0 logif level_index msg errno err lg =
     (if (log_levels ! level_index) AND lf_level_flag logif \<noteq> 0 then log_append user to_str tid buf0 logif level_index msg errno err lg else Some lg)"

text \<open>\<open>opened\<close> is the result of \<^verbatim>\<open>fopen\<close>, \<open>err\<close> the text of its error. The path must fit with its final zero.\<close>

definition log_file_init :: "logger \<Rightarrow> byte list \<Rightarrow> bool \<Rightarrow> byte list \<Rightarrow> logger \<times> int" where
  "log_file_init lg filepath opened err =
     (if length filepath \<ge> MAX_FILEPATH_LEN then (lg, - 1)
      else let lg = lg\<lparr>lg_filepath := filepath, lg_fp := (if opened then Some \<lparr>os_held = [], os_written = []\<rparr> else None)\<rparr>
        in if \<not> opened then (lg\<lparr>lg_stdout := fwrite (lg_stdout lg) (ascii ''....'' @ err @ [10])\<rparr>, - 1)
           else (lg\<lparr>lg_default := LogFile\<rparr>, 0))"

definition default_log_if :: "logger \<Rightarrow> log_if" where
  "default_log_if lg = (case lg_default lg of LogConsole \<Rightarrow> lg_console lg | LogFile \<Rightarrow> lg_file lg)"

end
