(* ===== verification/LogSpec.thy ===== *)
theory LogSpec
  imports Log
begin

text \<open>What the log does: which lines are delivered, and which levels.\<close>

section \<open>The buffer\<close>

lemma poke_SomeD: "poke buf off xs = Some buf' \<Longrightarrow> length buf' = length buf \<and> off + length xs \<le> length buf \<and> take (off + length xs) buf' = take off buf @ xs"
  by (cases xs) (auto simp: poke_def min_def split: if_splits)

lemma snprintf_SomeD: "snprintf_at buf off n s = Some (buf', k) \<Longrightarrow> length buf' = length buf \<and> k = length s"
  by (auto simp: snprintf_at_def bind_eq_Some_conv split: if_splits dest!: poke_SomeD)

lemma log_room_less: "off < LOG_BUFSIZE \<Longrightarrow> unat (log_room off) = LOG_BUFSIZE - off"
  unfolding log_room_def LOG_BUFSIZE_def
  by (subst unat_sub) (simp_all add: word_le_nat_alt take_bit_nat_eq_self unat_of_nat)

lemma snprintf_fits:
  assumes "length buf = LOG_BUFSIZE + 1" and "off + length s < LOG_BUFSIZE"
  shows "\<exists>buf'. snprintf_at buf off (log_room off) s = Some (buf', length s) \<and> length buf' = LOG_BUFSIZE + 1 \<and>
    take (off + length s) buf' = take off buf @ s"
proof -
  have r: "unat (log_room off) = LOG_BUFSIZE - off" using assms(2) by (intro log_room_less) simp
  then have nz: "log_room off \<noteq> 0" and t: "take (unat (log_room off) - 1) s = s" using assms(2) by auto
  have "off + length (s @ [0]) \<le> length buf" using assms by simp
  then obtain buf' where p: "poke buf off (s @ [0]) = Some buf'" by (auto simp: poke_def)
  from poke_SomeD [OF p] have b: "length buf' = length buf" "take (off + length (s @ [0])) buf' = take off buf @ s @ [0]" by simp_all
  have "take (off + length s) buf' = take (off + length s) (take (off + length (s @ [0])) buf')" by (simp add: min_def)
  also have "\<dots> = take off buf @ s" unfolding b(2) using assms by (simp add: min_def)
  finally have "take (off + length s) buf' = take off buf @ s" .
  moreover have "length s < 2 ^ 31" using assms(2) by (simp add: LOG_BUFSIZE_def)
  ultimately show ?thesis using nz t p b(1) assms(1) by (simp add: snprintf_at_def)
qed

text \<open>A line, and its delivery.\<close>

definition log_line :: "nat \<Rightarrow> int \<Rightarrow> string \<Rightarrow> byte list \<Rightarrow> int \<Rightarrow> byte list \<Rightarrow> byte list" where
  "log_line i tid timebuf msg errno err = log_head i tid timebuf @ msg @
     (if i \<ge> LOG_WARN_INDEX \<and> errno \<noteq> 0 then ascii ''('' @ err @ ascii '')'' else [])"

definition log_deliver :: "(nat \<Rightarrow> byte list \<Rightarrow> logger \<Rightarrow> logger option) \<Rightarrow> log_if \<Rightarrow> nat \<Rightarrow> byte list \<Rightarrow> logger \<Rightarrow> logger option" where
  "log_deliver user logif i line lg = do { lg \<leftarrow> log_call user (lf_output_cb logif) line lg; log_call user (lf_level_cb logif ! i) line lg }"

text \<open>The end of \<open>log_append\<close>: the line is closed and delivered.\<close>

lemma finish_line:
  assumes "length buf = LOG_BUFSIZE + 1"
  shows "do { buf \<leftarrow> poke buf n [10]; buf \<leftarrow> poke buf (n + 1) [0]; str \<leftarrow> peek buf 0 (n + 1); f str } =
    (if n < LOG_BUFSIZE then f (take n buf @ [10]) else None)"
proof (cases "n < LOG_BUFSIZE")
  case True
  then have l: "n + length [10 :: byte] \<le> length buf" using assms by simp
  then obtain b1 where p1: "poke buf n [10] = Some b1" by (auto simp: poke_def)
  from poke_SomeD [OF p1] have b1: "length b1 = length buf" "take (n + 1) b1 = take n buf @ [10]" by simp_all
  have "(n + 1) + length [0 :: byte] \<le> length b1" using True assms b1(1) by simp
  then obtain b2 where p2: "poke b1 (n + 1) [0] = Some b2" by (auto simp: poke_def)
  have l2: "length b2 = length buf" using poke_SomeD [OF p2] b1(1) by simp
  have "take (n + 1) b2 = take (n + 1) (take (n + 1 + length [0 :: byte]) b2)" by (simp add: min_def)
  also have "\<dots> = take (n + 1) b1" using poke_SomeD [OF p2] by (simp add: min_def)
  finally have "take (n + 1) b2 = take n buf @ [10]" using b1(2) by simp
  then have "peek b2 0 (n + 1) = Some (take n buf @ [10])" using True assms l2 by (simp add: peek_def)
  then show ?thesis using True p1 p2 by simp
next
  case False
  have "do { buf \<leftarrow> poke buf n [10]; buf \<leftarrow> poke buf (n + 1) [0]; str \<leftarrow> peek buf 0 (n + 1); f str } = None"
  proof (cases "poke buf n [10]")
    case (Some b1)
    then have "length b1 = length buf" using poke_SomeD by blast
    then have "poke b1 (n + 1) [0] = None" using False assms by (simp add: poke_def)
    then show ?thesis using Some by simp
  qed simp
  then show ?thesis using False by simp
qed

text \<open>A piece of the line: the text is appended when it fits, and otherwise only its length counts.\<close>

lemma snprintf_length:
  assumes "length buf = LOG_BUFSIZE + 1" and "\<not> off + length s < LOG_BUFSIZE"
  shows "snprintf_at buf off r s = None \<or> (\<exists>buf'. snprintf_at buf off r s = Some (buf', length s) \<and> length buf' = LOG_BUFSIZE + 1)"
  using assms(1) by (cases "snprintf_at buf off r s") (auto dest: snprintf_SomeD)

lemma snprintf_bind:
  assumes "length buf = LOG_BUFSIZE + 1" and "length t < LOG_BUFSIZE \<Longrightarrow> take (length t) buf = t"
    and "\<And>buf'. length buf' = LOG_BUFSIZE + 1 \<Longrightarrow> (length (t @ s) < LOG_BUFSIZE \<Longrightarrow> take (length (t @ s)) buf' = t @ s) \<Longrightarrow> f (buf', length s) = x"
    and "LOG_BUFSIZE \<le> length (t @ s) \<Longrightarrow> x = None"
  shows "Option.bind (snprintf_at buf (length t) (log_room (length t)) s) f = x"
proof (cases "length t + length s < LOG_BUFSIZE")
  case True
  then show ?thesis using snprintf_fits [OF assms(1) True] assms(2,3) by auto
next
  case False
  then show ?thesis using snprintf_length [OF assms(1) False, of "log_room (length t)"] assms(3,4) by auto
qed

section \<open>Lines\<close>

text \<open>C22: a message is delivered as one line, complete and with its final line feed, exactly when the line with what is put in front of
  and behind the message has less than \<open>LOG_BUFSIZE\<close> bytes; a longer one makes the code write outside its buffer.\<close>

theorem log_append_bounds:
  "log_append user to_str tid buf0 logif i msg errno err lg = do {
     (ck, timebuf, r) \<leftarrow> get_catime_str to_str (lg_clock lg) [] 30;
     c_assert (i < LOG_LEVELS \<and> length (log_line i tid timebuf msg errno err) < LOG_BUFSIZE);
     log_deliver user logif i (log_line i tid timebuf msg errno err @ [10]) (lg\<lparr>lg_clock := ck\<rparr>) }"
proof (cases "get_catime_str to_str (lg_clock lg) [] 30")
  case (Some x)
  obtain ck timebuf r where x: "x = (ck, timebuf, r)" by (cases x)
  let ?h = "log_head i tid timebuf" and ?e = "ascii ''('' @ err @ ascii '')''" and ?l = "log_line i tid timebuf msg errno err"
  let ?d = "if length ?l < LOG_BUFSIZE then log_deliver user logif i (?l @ [10]) (lg\<lparr>lg_clock := ck\<rparr>) else None"
  define finish where "finish = (\<lambda>buf buflen. do {
     buf \<leftarrow> poke buf buflen [10];
     buf \<leftarrow> poke buf (buflen + 1) [0];
     str \<leftarrow> peek buf 0 (buflen + 1);
     log_deliver user logif i str (lg\<lparr>lg_clock := ck\<rparr>) })"
  have fin: "finish buf n = (if n < LOG_BUFSIZE then log_deliver user logif i (take n buf @ [10]) (lg\<lparr>lg_clock := ck\<rparr>) else None)"
    if "length buf = LOG_BUFSIZE + 1" for buf n unfolding finish_def by (rule finish_line [OF that])
  have fin': "finish buf (length t) = ?d" if "length buf = LOG_BUFSIZE + 1" "length t < LOG_BUFSIZE \<Longrightarrow> take (length t) buf = t" "t = ?l" for buf t
    using that by (simp add: fin)
  have none: "?d = None" if "LOG_BUFSIZE \<le> length t" "length t \<le> length ?l" for t :: "byte list" using that by simp
  have room0: "(of_nat LOG_BUFSIZE :: 64 word) = log_room 0" by (simp add: log_room_def)
  let ?c = "\<lambda>buf buflen. do { (buf, buflen) \<leftarrow> (if i \<ge> LOG_WARN_INDEX \<and> errno \<noteq> 0 then do {
             (buf, k) \<leftarrow> snprintf_at buf buflen (log_room buflen) ?e; Some (buf, buflen + k) } else Some (buf, buflen)); finish buf buflen }"
  have c: "?c buf (length (?h @ msg)) = ?d"
    if "length buf = LOG_BUFSIZE + 1" "length (?h @ msg) < LOG_BUFSIZE \<Longrightarrow> take (length (?h @ msg)) buf = ?h @ msg" for buf
  proof (cases "i \<ge> LOG_WARN_INDEX \<and> errno \<noteq> 0")
    case True
    then have l: "?l = (?h @ msg) @ ?e" by (simp add: log_line_def)
    have "Option.bind (snprintf_at buf (length (?h @ msg)) (log_room (length (?h @ msg))) ?e) (\<lambda>(buf, k). finish buf (length (?h @ msg) + k)) = ?d"
    proof (rule snprintf_bind [OF that])
      fix buf' assume b: "length buf' = LOG_BUFSIZE + 1" "length ((?h @ msg) @ ?e) < LOG_BUFSIZE \<Longrightarrow> take (length ((?h @ msg) @ ?e)) buf' = (?h @ msg) @ ?e"
      show "(case (buf', length ?e) of (buf, k) \<Rightarrow> finish buf (length (?h @ msg) + k)) = ?d" using fin' [OF b l [symmetric]] by (simp only: prod.case length_append)
    qed (use l in auto)
    from this [unfolded case_prod_beta] True show ?thesis by (simp add: case_prod_beta split del: if_split)
  next
    case False
    have "?h @ msg = ?l" unfolding log_line_def if_not_P [OF False] by simp
    from fin' [OF that this] show ?thesis unfolding if_not_P [OF False] by simp
  qed
  have "log_append user to_str tid buf0 logif i msg errno err lg = (if i < LOG_LEVELS then
      Option.bind (snprintf_at (map buf0 [0..<LOG_BUFSIZE + 1]) (length ([] :: byte list)) (log_room (length ([] :: byte list))) ?h) (\<lambda>(buf, buflen).
        Option.bind (snprintf_at buf buflen (log_room buflen) msg) (\<lambda>(buf, n). ?c buf (buflen + n))) else None)"
    unfolding log_append_def Let_def Some x room0 log_deliver_def finish_def by (simp add: case_prod_beta cong: if_cong)
  also have "\<dots> = (if i < LOG_LEVELS then ?d else None)"
  proof (rule if_cong [OF refl _ refl], rule snprintf_bind)
    fix buf assume b: "length buf = LOG_BUFSIZE + 1" "length ([] @ ?h) < LOG_BUFSIZE \<Longrightarrow> take (length ([] @ ?h)) buf = [] @ ?h"
    have "Option.bind (snprintf_at buf (length ?h) (log_room (length ?h)) msg) (\<lambda>(buf, n). ?c buf (length ?h + n)) = ?d"
    proof (rule snprintf_bind)
      fix buf' assume "length buf' = LOG_BUFSIZE + 1" "length (?h @ msg) < LOG_BUFSIZE \<Longrightarrow> take (length (?h @ msg)) buf' = ?h @ msg"
      from c [OF this] show "(case (buf', length msg) of (buf, n) \<Rightarrow> ?c buf (length ?h + n)) = ?d" by (simp only: prod.case length_append)
    qed (use b in \<open>auto simp: log_line_def\<close>)
    then show "(case (buf, length ?h) of (buf, buflen) \<Rightarrow>
      Option.bind (snprintf_at buf buflen (log_room buflen) msg) (\<lambda>(buf, n). ?c buf (buflen + n))) = ?d" by (simp only: prod.case)
  qed (auto simp: log_line_def)
  finally show ?thesis by (simp add: Some x)
qed (simp add: log_append_def Let_def)

section \<open>Levels\<close>

lemma less_7_cases: "(i :: nat) < 7 \<Longrightarrow> i \<in> {0, 1, 2, 3, 4, 5, 6}"
  by auto

text \<open>After the level of an interface is set, exactly the messages of this level and of the higher ones are logged, and
  \<open>LOG_NONE\<close> turns all of them off.\<close>

theorem log_level_threshold:
  assumes "i < LOG_LEVELS" and "k \<le> LOG_LEVELS"
  shows "log_level_append user to_str tid buf0 (set_logif_level logif ((log_levels @ [LOG_NONE]) ! k)) i msg errno err lg =
    (if k \<le> i then log_append user to_str tid buf0 (set_logif_level logif ((log_levels @ [LOG_NONE]) ! k)) i msg errno err lg else Some lg)"
proof -
  have "k = 7 \<or> k < 7" using assms(2) by (auto simp: LOG_LEVELS_def)
  then have "k \<in> {0, 1, 2, 3, 4, 5, 6, 7}" using less_7_cases [of k] by auto
  moreover have "i \<in> {0, 1, 2, 3, 4, 5, 6}" using assms(1) less_7_cases [of i] by (simp add: LOG_LEVELS_def)
  ultimately have "(log_levels ! i) AND (LOG_MASK XOR ((log_levels @ [LOG_NONE]) ! k - 1)) \<noteq> 0 \<longleftrightarrow> k \<le> i"
    by (auto simp: log_levels_def LOG_INNER_def LOG_TRACE_def LOG_DEBUG_def LOG_INFO_def LOG_WARN_def LOG_ERROR_def LOG_FATAL_def LOG_NONE_def LOG_MASK_def)
  then show ?thesis by (simp add: log_level_append_def set_logif_level_def)
qed

theorem log_level_threshold_witness:
  "log_level_append user to_str tid buf0 (set_logif_level log_if_console LOG_WARN) 3 msg errno err lg = Some lg"
  using log_level_threshold [of 3 4 user to_str tid buf0 log_if_console msg errno err lg] by (simp add: LOG_LEVELS_def log_levels_def)

end
