(* ===== verification/Memdbg.thy ===== *)
theory Memdbg
  imports Cstring Splst
begin

text \<open>
  The debugging allocator of \<^verbatim>\<open>ohutil/memory.c\<close>: in front of the memory it gives out it keeps a record, and all records
  are in a list. The memory of the system is a map from the start of a block to its bytes; sizes are those of a machine with
  words of 8 bytes.
\<close>

unbundle bit_operations_syntax

section \<open>State\<close>

definition MEMDBG_ALIGNSIZE :: "64 word" where "MEMDBG_ALIGNSIZE = 8"
definition SIZEOF_REC :: nat where "SIZEOF_REC = 48"

record memdbg_rec =
  mr_file :: addr
  mr_line :: int
  mr_block :: addr
  mr_ptr :: addr
  mr_size :: nat

record memdbg =
  md_head :: addr
  md_next :: links
  md_recs :: "addr \<rightharpoonup> memdbg_rec"
  md_blocks :: "addr \<rightharpoonup> byte list"

text \<open>Reading and writing the memory of a block.\<close>

definition md_read :: "memdbg \<Rightarrow> addr \<Rightarrow> addr \<Rightarrow> nat \<Rightarrow> byte list option" where
  "md_read md block p n = do { bs \<leftarrow> md_blocks md block; c_assert (block \<le> p); peek bs (p - block) n }"

definition md_write :: "memdbg \<Rightarrow> addr \<Rightarrow> addr \<Rightarrow> byte list \<Rightarrow> memdbg option" where
  "md_write md block p xs = do {
     bs \<leftarrow> md_blocks md block;
     c_assert (block \<le> p);
     bs \<leftarrow> poke bs (p - block) xs;
     Some (md\<lparr>md_blocks := (md_blocks md)(block \<mapsto> bs)\<rparr>) }"

definition rec_of :: "addr \<Rightarrow> addr option" where
  "rec_of ptr = do { c_assert (SIZEOF_REC < ptr); Some (ptr - SIZEOF_REC) }"

section \<open>Operations\<close>

definition memdbg_free :: "memdbg \<Rightarrow> addr \<Rightarrow> memdbg option" where
  "memdbg_free md ptr = do {
     old_rec \<leftarrow> rec_of ptr;
     r \<leftarrow> md_recs md old_rec;
     (nx, head) \<leftarrow> splst_del (md_next md) (md_head md) old_rec;
     c_assert (md_blocks md (mr_block r) \<noteq> None);
     Some (md\<lparr>md_head := head, md_next := nx(old_rec := None), md_recs := (md_recs md)(old_rec := None),
       md_blocks := (md_blocks md)(mr_block r := None)\<rparr>) }"

text \<open>The size of the block is an \<^verbatim>\<open>int\<close>; a request of a negative size is a huge one, which the system refuses.\<close>

definition memdbg_realsize :: "64 word \<Rightarrow> int" where
  "memdbg_realsize sz = sint (ucast (sz + of_nat SIZEOF_REC + MEMDBG_ALIGNSIZE) :: 32 word)"

definition memdbg_align :: "addr \<Rightarrow> addr" where
  "memdbg_align block = unat ((of_nat block + MEMDBG_ALIGNSIZE + of_nat SIZEOF_REC) AND NOT (MEMDBG_ALIGNSIZE - 1))"

text \<open>The record is written into the block.\<close>

definition memdbg_record :: "memdbg \<Rightarrow> addr \<Rightarrow> addr \<Rightarrow> 64 word \<Rightarrow> addr \<Rightarrow> int \<Rightarrow> (memdbg \<times> addr) option" where
  "memdbg_record md block retptr sz fname line = do {
     bs \<leftarrow> md_blocks md block;
     r \<leftarrow> rec_of retptr;
     c_assert (block \<le> r \<and> retptr \<le> block + length bs);
     let md = md\<lparr>md_recs := (md_recs md)(r \<mapsto> \<lparr>mr_file = fname, mr_line = line, mr_block = block, mr_ptr = retptr, mr_size = unat sz\<rparr>),
       md_next := (md_next md)(r \<mapsto> NULL)\<rparr>;
     (nx, head) \<leftarrow> splst_add (md_next md) (md_head md) r;
     Some (md\<lparr>md_next := nx, md_head := head\<rparr>, retptr) }"

text \<open>\<open>block\<close> is the result of the system, \<open>g\<close> the contents of new memory.\<close>

definition memdbg_alloc :: "memdbg \<Rightarrow> addr \<Rightarrow> 64 word \<Rightarrow> bool \<Rightarrow> addr \<Rightarrow> int \<Rightarrow> addr \<Rightarrow> (nat \<Rightarrow> byte) \<Rightarrow> (memdbg \<times> addr) option" where
  "memdbg_alloc md ptr sz init fname line block g = do {
     let realsize = memdbg_realsize sz;
     if block = NULL \<or> realsize < 0 then Some (md, NULL)
     else do {
       let md = md\<lparr>md_blocks := (md_blocks md)(block \<mapsto> if init then replicate (nat realsize) 0 else map g [0..<nat realsize])\<rparr>;
       let retptr = memdbg_align block;
       md \<leftarrow> (if ptr \<noteq> NULL then do {
           old_rec \<leftarrow> rec_of ptr;
           old \<leftarrow> md_recs md old_rec;
           xs \<leftarrow> md_read md (mr_block old) (mr_ptr old) (mr_size old);
           md \<leftarrow> md_write md block retptr xs;
           memdbg_free md ptr }
         else Some md);
       memdbg_record md block retptr sz fname line } }"

definition memdbg_get_recnum :: "memdbg \<Rightarrow> nat option" where
  "memdbg_get_recnum md = splst_len (md_next md) (md_head md)"

text \<open>The allocation functions of the library in debugging mode; the product of \<^verbatim>\<open>ohcalloc\<close> wraps.\<close>

definition ohmalloc :: "memdbg \<Rightarrow> 64 word \<Rightarrow> addr \<Rightarrow> int \<Rightarrow> addr \<Rightarrow> (nat \<Rightarrow> byte) \<Rightarrow> (memdbg \<times> addr) option" where
  "ohmalloc md sz fname line block g = memdbg_alloc md NULL sz False fname line block g"

definition ohcalloc :: "memdbg \<Rightarrow> 64 word \<Rightarrow> 64 word \<Rightarrow> addr \<Rightarrow> int \<Rightarrow> addr \<Rightarrow> (nat \<Rightarrow> byte) \<Rightarrow> (memdbg \<times> addr) option" where
  "ohcalloc md cnt sz fname line block g = memdbg_alloc md NULL (cnt * sz) True fname line block g"

definition ohrealloc :: "memdbg \<Rightarrow> addr \<Rightarrow> 64 word \<Rightarrow> addr \<Rightarrow> int \<Rightarrow> addr \<Rightarrow> (nat \<Rightarrow> byte) \<Rightarrow> (memdbg \<times> addr) option" where
  "ohrealloc md ptr sz fname line block g = memdbg_alloc md ptr sz False fname line block g"

definition ohfree :: "memdbg \<Rightarrow> addr \<Rightarrow> memdbg option" where
  "ohfree md ptr = memdbg_free md ptr"

section \<open>The invariant\<close>

text \<open>
  \<open>rs\<close> are the records, the youngest first: each lies in its block directly in front of the memory given out, which is aligned
  and lies in the block as well, and the blocks do not overlap.
\<close>

definition rec_ok :: "memdbg \<Rightarrow> addr \<Rightarrow> bool" where
  "rec_ok md r \<longleftrightarrow> (\<exists>m bs. md_recs md r = Some m \<and> md_blocks md (mr_block m) = Some bs \<and> mr_block m \<noteq> NULL \<and> mr_block m \<le> r \<and>
     mr_ptr m = r + SIZEOF_REC \<and> mr_ptr m mod 8 = 0 \<and> mr_ptr m + mr_size m \<le> mr_block m + length bs)"

definition rec_block :: "memdbg \<Rightarrow> addr \<Rightarrow> addr" where
  "rec_block md r = (case md_recs md r of None \<Rightarrow> NULL | Some m \<Rightarrow> mr_block m)"

definition block_range :: "memdbg \<Rightarrow> addr \<Rightarrow> addr set" where
  "block_range md b = (case md_blocks md b of None \<Rightarrow> {} | Some bs \<Rightarrow> {b..<b + length bs})"

definition md_ok :: "memdbg \<Rightarrow> addr list \<Rightarrow> bool" where
  "md_ok md rs \<longleftrightarrow> lseg (md_next md) (md_head md) rs \<and> distinct rs \<and> dom (md_recs md) = set rs \<and> dom (md_blocks md) = rec_block md ` set rs \<and>
     (\<forall>r\<in>set rs. rec_ok md r) \<and> (\<forall>r\<in>set rs. \<forall>s\<in>set rs. r \<noteq> s \<longrightarrow> block_range md (rec_block md r) \<inter> block_range md (rec_block md s) = {})"

text \<open>A new block does not overlap the others, and does not reach the end of the memory.\<close>

definition md_fresh :: "memdbg \<Rightarrow> addr \<Rightarrow> nat \<Rightarrow> bool" where
  "md_fresh md block n \<longleftrightarrow> block \<noteq> NULL \<and> block + n < 2 ^ 64 \<and> (\<forall>b. {block..<block + n} \<inter> block_range md b = {})"

text \<open>The memory a record stands for.\<close>

definition md_data :: "memdbg \<Rightarrow> addr \<Rightarrow> byte list option" where
  "md_data md r = do { m \<leftarrow> md_recs md r; md_read md (mr_block m) (mr_ptr m) (mr_size m) }"

section \<open>Sizes and alignment\<close>

lemma signed_take_bit_small: "n < 2 ^ 31 \<Longrightarrow> signed_take_bit 31 (int n) = int n"
  by (rule signed_take_bit_int_eq_self) simp_all

lemma memdbg_realsize_ok:
  assumes "unat sz + 56 < 2 ^ 31"
  shows "memdbg_realsize sz = int (unat sz) + 56"
proof -
  have "unat (sz + 56) = unat sz + 56" using assms by (subst unat_add_lem [THEN iffD1]) simp_all
  then have "ucast (sz + 56) = (of_nat (unat sz + 56) :: 32 word)" by (metis of_nat_unat)
  then have "sint (ucast (sz + 56) :: 32 word) = signed_take_bit 31 (int (unat sz + 56))" by (simp only: signed_of_nat) simp
  also have "\<dots> = int (unat sz + 56)" by (rule signed_take_bit_small [OF assms])
  finally have "sint (ucast (sz + 56) :: 32 word) = int (unat sz + 56)" .
  then show ?thesis by (simp add: memdbg_realsize_def SIZEOF_REC_def MEMDBG_ALIGNSIZE_def add.assoc)
qed

lemma and_not_7: "unat ((w :: 64 word) AND NOT 7) = unat w - unat w mod 8"
proof -
  have m: "take_bit 3 w = w AND 7" by (simp add: take_bit_eq_mask mask_eq_exp_minus_1)
  have "w AND NOT 7 = w AND NOT (w AND 7)" by (rule bit_word_eqI) (auto simp: bit_simps)
  also have "\<dots> = w - (w AND 7)" by (rule disjunctive_diff_eq_and_not [symmetric]) (rule bit_word_eqI, auto simp: bit_simps)
  also have "\<dots> = w - take_bit 3 w" by (simp add: m)
  finally have e: "w AND NOT 7 = w - take_bit 3 w" .
  have t: "unat (take_bit 3 w) = unat w mod 8" by (simp only: unsigned_take_bit_eq) (simp add: take_bit_eq_mod)
  then have "take_bit 3 w \<le> w" by (simp add: word_le_nat_alt)
  then show ?thesis unfolding e by (simp add: unat_sub t)
qed

lemma memdbg_align_ok:
  assumes "block + 56 < 2 ^ 64"
  shows "memdbg_align block mod 8 = 0" "block + 48 < memdbg_align block" "memdbg_align block \<le> block + 56"
proof -
  have "(of_nat block + MEMDBG_ALIGNSIZE + of_nat SIZEOF_REC :: 64 word) = of_nat (block + 56)" by (simp add: MEMDBG_ALIGNSIZE_def SIZEOF_REC_def)
  moreover have "unat (of_nat (block + 56) :: 64 word) = block + 56" by (subst unat_of_nat) (use assms in simp)
  moreover have eight: "MEMDBG_ALIGNSIZE - 1 = 7" by (simp add: MEMDBG_ALIGNSIZE_def)
  ultimately have a: "memdbg_align block = (block + 56) - (block + 56) mod 8"
    using eight unfolding memdbg_align_def by (simp only: and_not_7)
  show "memdbg_align block mod 8 = 0" unfolding a by (simp add: minus_mod_eq_mult_div)
  show "block + 48 < memdbg_align block" "memdbg_align block \<le> block + 56" unfolding a by presburger+
qed

end
