(* ===== verification/MemdbgSpec.thy ===== *)
theory MemdbgSpec
  imports Memdbg CstringSpec
begin

text \<open>What the debugging allocator keeps: alignment, room, its records, and the memory of the others.\<close>

section \<open>Records\<close>

lemma md_okD:
  assumes "md_ok md rs" and "r \<in> set rs"
  obtains m bs where "md_recs md r = Some m" "md_blocks md (mr_block m) = Some bs" "mr_block m \<noteq> NULL" "mr_block m \<le> r" "mr_ptr m = r + SIZEOF_REC"
    "mr_ptr m mod 8 = 0" "r + SIZEOF_REC + mr_size m \<le> mr_block m + length bs" "rec_block md r = mr_block m" "r \<noteq> NULL"
proof -
  have "rec_ok md r" "r \<noteq> NULL" using assms lseg_nz [of "md_next md" "md_head md" rs r] by (auto simp: md_ok_def)
  then show thesis using that by (fastforce simp: rec_ok_def rec_block_def)
qed

lemma rec_range:
  assumes "md_ok md rs" and "r \<in> set rs"
  shows "rec_block md r \<in> block_range md (rec_block md r)" "r \<in> block_range md (rec_block md r)"
  using assms by (auto elim!: md_okD simp: block_range_def SIZEOF_REC_def)

lemma rec_block_inj:
  assumes "md_ok md rs" and "r \<in> set rs" and "s \<in> set rs" and "r \<noteq> s"
  shows "rec_block md r \<noteq> rec_block md s"
proof
  assume e: "rec_block md r = rec_block md s"
  have "block_range md (rec_block md r) \<inter> block_range md (rec_block md s) = {}" using assms by (auto simp: md_ok_def)
  then show False using rec_range(1) [OF assms(1,2)] e by auto
qed

lemma rec_of_add: "r \<noteq> NULL \<Longrightarrow> rec_of (r + SIZEOF_REC) = Some r"
  by (simp add: rec_of_def)

text \<open>Parts of the state that a record depends on.\<close>

lemma rec_cong:
  assumes "md_recs md' s = md_recs md s" and "md_blocks md' (rec_block md s) = md_blocks md (rec_block md s)"
  shows "rec_block md' s = rec_block md s" "rec_ok md' s = rec_ok md s" "md_data md' s = md_data md s"
  using assms by (auto simp: rec_ok_def rec_block_def md_data_def md_read_def split: option.splits)

lemma block_range_cong: "md_blocks md' b = md_blocks md b \<Longrightarrow> block_range md' b = block_range md b"
  by (simp add: block_range_def)

section \<open>Releasing\<close>

lemma free_rec_ok:
  assumes ok: "md_ok md rs" and r: "r \<in> set rs"
  shows "\<exists>md'. memdbg_free md (r + SIZEOF_REC) = Some md' \<and> md_ok md' (remove1 r rs) \<and> (\<forall>s\<in>set rs - {r}. md_data md' s = md_data md s) \<and>
    md_blocks md' = (md_blocks md)(rec_block md r := None) \<and> md_recs md' = (md_recs md)(r := None)"
proof -
  have D: "lseg (md_next md) (md_head md) rs" "distinct rs" "dom (md_recs md) = set rs" "dom (md_blocks md) = rec_block md ` set rs"
    "\<forall>r\<in>set rs. rec_ok md r" "\<forall>r\<in>set rs. \<forall>s\<in>set rs. r \<noteq> s \<longrightarrow> block_range md (rec_block md r) \<inter> block_range md (rec_block md s) = {}"
    using ok by (simp_all add: md_ok_def)
  obtain m bs where m: "md_recs md r = Some m" "md_blocks md (mr_block m) = Some bs" "rec_block md r = mr_block m" "r \<noteq> NULL"
    using md_okD [OF ok r] by metis
  obtain nx head where del: "splst_del (md_next md) (md_head md) r = Some (nx, head)" "lseg nx head (remove1 r rs)"
    using del_ok [OF D(1,2), of r] by blast
  let ?md = "md\<lparr>md_head := head, md_next := nx(r := None), md_recs := (md_recs md)(r := None), md_blocks := (md_blocks md)(mr_block m := None)\<rparr>"
  have f: "memdbg_free md (r + SIZEOF_REC) = Some ?md" using m del(1) by (simp add: memdbg_free_def rec_of_add)
  have set: "set (remove1 r rs) = set rs - {r}" using D(2) by simp
  have other: "md_recs ?md s = md_recs md s" "md_blocks ?md (rec_block md s) = md_blocks md (rec_block md s)" if "s \<in> set rs - {r}" for s
    using that rec_block_inj [OF ok _ r, of s] m(3) by auto
  note c = rec_cong [OF other]
  have "lseg (nx(r := None)) head (remove1 r rs)" by (rule lseg_cong [OF _ del(2)]) (use set in auto)
  moreover have "dom (md_recs ?md) = set (remove1 r rs)" using D(3) set by auto
  moreover have "rec_block ?md ` set (remove1 r rs) = rec_block md ` (set rs - {r})" unfolding set using c(1) by (intro image_cong) auto
  moreover have "dom (md_blocks ?md) = rec_block md ` (set rs - {r})" using D(4) m(3) rec_block_inj [OF ok _ r] by auto
  moreover have "\<forall>s\<in>set (remove1 r rs). rec_ok ?md s" using D(5) c(2) set by auto
  moreover have "block_range ?md (rec_block ?md s) = block_range md (rec_block md s)" if "s \<in> set rs - {r}" for s
    unfolding c(1) [OF that that] by (rule block_range_cong [OF other(2) [OF that]])
  ultimately have "md_ok ?md (remove1 r rs)" using D(2,6) set by (simp add: md_ok_def distinct_remove1)
  moreover have "\<forall>s\<in>set rs - {r}. md_data ?md s = md_data md s" using c(3) by blast
  ultimately show ?thesis using f m(3) by (intro exI [of _ ?md]) simp
qed

text \<open>Releasing does not look at a block that belongs to no record.\<close>

lemma free_other_block:
  assumes "memdbg_free md ptr = Some md'" and "md_blocks md block = None"
  shows "memdbg_free (md\<lparr>md_blocks := (md_blocks md)(block \<mapsto> bs)\<rparr>) ptr = Some (md'\<lparr>md_blocks := (md_blocks md')(block \<mapsto> bs)\<rparr>)"
proof -
  obtain r m nx head where f: "rec_of ptr = Some r" "md_recs md r = Some m" "splst_del (md_next md) (md_head md) r = Some (nx, head)"
    "md_blocks md (mr_block m) \<noteq> None" "md' = md\<lparr>md_head := head, md_next := nx(r := None), md_recs := (md_recs md)(r := None),
      md_blocks := (md_blocks md)(mr_block m := None)\<rparr>"
    using assms(1) by (auto simp: memdbg_free_def bind_eq_Some_conv split: if_splits)
  then have "mr_block m \<noteq> block" using assms(2) by auto
  then show ?thesis using f(1-4) unfolding f(5) by (simp add: memdbg_free_def fun_upd_twist)
qed

section \<open>Allocating\<close>

lemma record_new_ok:
  assumes ok: "md_ok md rs" and fresh: "md_fresh md block (length bs)" and len: "length bs = unat sz + 56"
  defines "md1 \<equiv> md\<lparr>md_blocks := (md_blocks md)(block \<mapsto> bs)\<rparr>"
  shows "\<exists>md' r. memdbg_record md1 block (memdbg_align block) sz fname line = Some (md', r + SIZEOF_REC) \<and> md_ok md' (r # rs) \<and> r \<notin> set rs \<and>
    r + SIZEOF_REC = memdbg_align block \<and> (\<forall>s\<in>set rs. md_data md' s = md_data md s) \<and>
    md_data md' r = Some (take (unat sz) (drop (memdbg_align block - block) bs))"
proof -
  have D: "lseg (md_next md) (md_head md) rs" "distinct rs" "dom (md_recs md) = set rs" "dom (md_blocks md) = rec_block md ` set rs"
    "\<forall>r\<in>set rs. rec_ok md r" "\<forall>r\<in>set rs. \<forall>s\<in>set rs. r \<noteq> s \<longrightarrow> block_range md (rec_block md r) \<inter> block_range md (rec_block md s) = {}"
    using ok by (simp_all add: md_ok_def)
  have F: "block \<noteq> NULL" "block + unat sz + 56 < 2 ^ 64" "\<And>b. {block..<block + length bs} \<inter> block_range md b = {}"
    using fresh len by (auto simp: md_fresh_def)
  have al: "memdbg_align block mod 8 = 0" "block + 48 < memdbg_align block" "memdbg_align block \<le> block + 56"
    using memdbg_align_ok [of block] F(2) by simp_all
  define r where "r = memdbg_align block - SIZEOF_REC"
  have r: "r + SIZEOF_REC = memdbg_align block" "block \<le> r" "r < block + length bs" "r \<noteq> NULL"
    using al len unfolding r_def SIZEOF_REC_def by simp_all
  have new: "r \<notin> set rs"
  proof
    assume "r \<in> set rs"
    from rec_range(2) [OF ok this] F(3) [of "rec_block md r"] r(2,3) show False by auto
  qed
  have nb: "rec_block md s \<noteq> block" if "s \<in> set rs" for s
    using rec_range(1) [OF ok that] F(3) [of "rec_block md s"] len by (auto simp: disjoint_iff)
  let ?m = "\<lparr>mr_file = fname, mr_line = line, mr_block = block, mr_ptr = r + SIZEOF_REC, mr_size = unat sz\<rparr>"
  let ?md = "md1\<lparr>md_recs := (md_recs md)(r \<mapsto> ?m), md_next := ((md_next md)(r \<mapsto> NULL))(r \<mapsto> md_head md), md_head := r\<rparr>"
  have seg: "lseg ((md_next md)(r \<mapsto> NULL)) (md_head md) rs" using D(1) new by (simp add: lseg_frame)
  have add: "splst_add ((md_next md)(r \<mapsto> NULL)) (md_head md) r = Some (((md_next md)(r \<mapsto> NULL))(r \<mapsto> md_head md), r)"
    "lseg (((md_next md)(r \<mapsto> NULL))(r \<mapsto> md_head md)) r (r # rs)" using add_ok [OF seg new r(4)] by simp_all
  have f: "memdbg_record md1 block (memdbg_align block) sz fname line = Some (?md, r + SIZEOF_REC)"
    unfolding memdbg_record_def using rec_of_add [OF r(4)] add(1) r al len by (simp add: md1_def)
  have other: "md_recs ?md s = md_recs md s" "md_blocks ?md (rec_block md s) = md_blocks md (rec_block md s)" if "s \<in> set rs" for s
    using that new nb [OF that] by (auto simp: md1_def)
  note c = rec_cong [OF other]
  have rb: "rec_block ?md r = block" by (simp add: rec_block_def)
  have range: "block_range ?md (rec_block ?md s) = block_range md (rec_block md s)" if "s \<in> set rs" for s
    unfolding c(1) [OF that that] by (rule block_range_cong [OF other(2) [OF that]])
  have rr: "block_range ?md (rec_block ?md r) = {block..<block + length bs}" unfolding rb by (simp add: block_range_def md1_def)
  have "distinct (r # rs)" using D(2) new by simp
  moreover have "dom (md_recs ?md) = set (r # rs)" using D(3) by auto
  moreover have "dom (md_blocks ?md) = rec_block ?md ` set (r # rs)"
  proof -
    have "rec_block ?md ` set (r # rs) = insert block (rec_block md ` set rs)" using rb c(1) by simp
    then show ?thesis using D(4) by (simp add: md1_def)
  qed
  moreover have "rec_ok ?md r" using F(1) r al len by (simp add: rec_ok_def md1_def)
  then have "\<forall>s\<in>set (r # rs). rec_ok ?md s" using D(5) c(2) by simp
  moreover have "\<forall>s\<in>set (r # rs). \<forall>t\<in>set (r # rs). s \<noteq> t \<longrightarrow> block_range ?md (rec_block ?md s) \<inter> block_range ?md (rec_block ?md t) = {}"
    using D(6) F(3) range rr by (auto simp: disjoint_iff)
  ultimately have "md_ok ?md (r # rs)" using add(2) by (simp add: md_ok_def)
  moreover have "md_data ?md r = Some (take (unat sz) (drop (memdbg_align block - block) bs))"
    using r al len by (simp add: md_data_def md_read_def md1_def peek_def)
  ultimately show ?thesis using f new r(1) c(3) by (intro exI [of _ ?md] exI [of _ r]) simp
qed

lemma alloc_eq_record:
  assumes "unat sz + 56 < 2 ^ 31" and "block \<noteq> NULL"
  shows "memdbg_alloc md ptr sz init fname line block g =
    (let bs = (if init then replicate (unat sz + 56) 0 else map g [0..<unat sz + 56]);
         md1 = md\<lparr>md_blocks := (md_blocks md)(block \<mapsto> bs)\<rparr>
     in Option.bind (if ptr \<noteq> NULL then do {
           old_rec \<leftarrow> rec_of ptr;
           old \<leftarrow> md_recs md1 old_rec;
           xs \<leftarrow> md_read md1 (mr_block old) (mr_ptr old) (mr_size old);
           md \<leftarrow> md_write md1 block (memdbg_align block) xs;
           memdbg_free md ptr }
         else Some md1) (\<lambda>md. memdbg_record md block (memdbg_align block) sz fname line))"
proof -
  have "memdbg_realsize sz = int (unat sz + 56)" using memdbg_realsize_ok [OF assms(1)] by simp
  then have "\<not> memdbg_realsize sz < 0" "nat (memdbg_realsize sz) = unat sz + 56" by linarith+
  then show ?thesis using assms(2) unfolding memdbg_alloc_def by (simp only: Let_def) (simp split del: if_split)
qed

section \<open>Properties\<close>

text \<open>C21: as long as the size with its overhead fits into an \<^verbatim>\<open>int\<close>, an allocation gives out memory of that size that is aligned
  to 8 bytes and lies with its record inside its block, zeroed when that is asked for; it is recorded, no other memory changes, and
  releasing it restores the records.\<close>

theorem memdbg_alloc_aligned:
  assumes "md_ok md rs" and "unat sz + 56 < 2 ^ 31" and "md_fresh md block (unat sz + 56)"
  shows "\<exists>md' r xs. memdbg_alloc md NULL sz init fname line block g = Some (md', r + SIZEOF_REC) \<and> md_ok md' (r # rs) \<and> r \<notin> set rs \<and>
    (r + SIZEOF_REC) mod 8 = 0 \<and> block < r \<and> r + SIZEOF_REC + unat sz \<le> block + (unat sz + 56) \<and>
    md_data md' r = Some xs \<and> length xs = unat sz \<and> (init \<longrightarrow> set xs \<subseteq> {0}) \<and> (\<forall>s\<in>set rs. md_data md' s = md_data md s) \<and>
    memdbg_get_recnum md' = Some (length rs + 1) \<and>
    (\<exists>md''. memdbg_free md' (r + SIZEOF_REC) = Some md'' \<and> md_ok md'' rs \<and> (\<forall>s\<in>set rs. md_data md'' s = md_data md s))"
proof -
  let ?bs = "if init then replicate (unat sz + 56) 0 else map g [0..<unat sz + 56]"
  let ?xs = "take (unat sz) (drop (memdbg_align block - block) ?bs)"
  have len: "length ?bs = unat sz + 56" by simp
  have al: "memdbg_align block mod 8 = 0" "block + 48 < memdbg_align block" "memdbg_align block \<le> block + 56"
    using memdbg_align_ok [of block] assms(3) by (simp_all add: md_fresh_def)
  have "md_fresh md block (length ?bs)" using assms(3) len by simp
  from record_new_ok [OF assms(1) this len, where fname = fname and line = line] obtain md' r
    where R: "memdbg_record (md\<lparr>md_blocks := (md_blocks md)(block \<mapsto> ?bs)\<rparr>) block (memdbg_align block) sz fname line = Some (md', r + SIZEOF_REC)"
      "md_ok md' (r # rs)" "r \<notin> set rs" "r + SIZEOF_REC = memdbg_align block" "\<forall>s\<in>set rs. md_data md' s = md_data md s" "md_data md' r = Some ?xs"
    by (elim exE conjE, intro that) assumption+
  have a: "memdbg_alloc md NULL sz init fname line block g = Some (md', r + SIZEOF_REC)"
    using alloc_eq_record [OF assms(2), of block] assms(3) R(1) by (simp add: md_fresh_def)
  have l: "length ?xs = unat sz" using al by (simp add: len)
  have z: "init \<longrightarrow> set ?xs \<subseteq> {0}" by (auto dest: in_set_takeD in_set_dropD)
  have "lseg (md_next md') (md_head md') (r # rs)" using R(2) by (simp add: md_ok_def)
  from len_ok [OF this] have n: "memdbg_get_recnum md' = Some (length rs + 1)" by (simp add: memdbg_get_recnum_def)
  have "r \<in> set (r # rs)" by simp
  from free_rec_ok [OF R(2) this] obtain md'' where f: "memdbg_free md' (r + SIZEOF_REC) = Some md''" "md_ok md'' rs"
    "\<forall>s\<in>set (r # rs) - {r}. md_data md'' s = md_data md' s" by auto
  then have "\<forall>s\<in>set rs. md_data md'' s = md_data md s" using R(3,5) by auto
  then have F: "\<exists>md''. memdbg_free md' (r + SIZEOF_REC) = Some md'' \<and> md_ok md'' rs \<and> (\<forall>s\<in>set rs. md_data md'' s = md_data md s)" using f(1,2) by blast
  have p: "(r + SIZEOF_REC) mod 8 = 0" "block < r" "r + SIZEOF_REC + unat sz \<le> block + (unat sz + 56)"
    using al R(4) by (simp_all add: SIZEOF_REC_def)
  show ?thesis by (rule exI [of _ md'], rule exI [of _ r], rule exI [of _ ?xs]) (intro conjI a R l z n F p)
qed

definition no_memdbg :: memdbg where
  "no_memdbg = \<lparr>md_head = NULL, md_next = Map.empty, md_recs = Map.empty, md_blocks = Map.empty\<rparr>"

lemma no_memdbg_ok: "md_ok no_memdbg []" "block \<noteq> NULL \<Longrightarrow> block + n < 2 ^ 64 \<Longrightarrow> md_fresh no_memdbg block n"
  by (simp_all add: md_ok_def no_memdbg_def md_fresh_def block_range_def)

theorem memdbg_alloc_aligned_witness:
  "\<exists>md' r xs. memdbg_alloc no_memdbg NULL 10 True 5 7 1001 (\<lambda>i. 1) = Some (md', r + SIZEOF_REC) \<and> (r + SIZEOF_REC) mod 8 = 0 \<and>
    md_data md' r = Some xs \<and> set xs \<subseteq> {0}"
proof -
  have "unat (10 :: 64 word) + 56 < 2 ^ 31" "md_fresh no_memdbg 1001 (unat (10 :: 64 word) + 56)" by (simp_all add: no_memdbg_ok)
  from memdbg_alloc_aligned [OF no_memdbg_ok(1) this, of True 5 7 "\<lambda>i. 1"] show ?thesis
    by (elim exE conjE) (rule exI, rule exI, rule exI, intro conjI, assumption, assumption, assumption, simp)
qed

text \<open>C38: a reallocation to a size that is not smaller keeps the contents, gives the old memory back and touches no other; one to a
  size that is smaller by 8 or more copies the old size into the new block and writes past its end.\<close>

theorem memdbg_realloc_shrink:
  assumes "md_ok md rs" and "r \<in> set rs" and "md_data md r = Some xs" and "unat sz + 56 < 2 ^ 31" and "md_fresh md block (unat sz + 56)"
  shows "(length xs \<le> unat sz \<longrightarrow> (\<exists>md' q ys. ohrealloc md (r + SIZEOF_REC) sz fname line block g = Some (md', q + SIZEOF_REC) \<and>
      md_ok md' (q # remove1 r rs) \<and> md_data md' q = Some (xs @ ys) \<and> length (xs @ ys) = unat sz \<and>
      (\<forall>s\<in>set rs - {r}. md_data md' s = md_data md s))) \<and>
    (unat sz + 8 \<le> length xs \<longrightarrow> ohrealloc md (r + SIZEOF_REC) sz fname line block g = None)"
proof -
  obtain m obs where m: "md_recs md r = Some m" "md_blocks md (mr_block m) = Some obs" "rec_block md r = mr_block m" "r \<noteq> NULL"
    using md_okD [OF assms(1,2)] by metis
  let ?bs = "map g [0..<unat sz + 56]" and ?k = "memdbg_align block - block"
  let ?md1 = "md\<lparr>md_blocks := (md_blocks md)(block \<mapsto> ?bs)\<rparr>"
  have al: "block + 48 < memdbg_align block" "memdbg_align block \<le> block + 56"
    using memdbg_align_ok [of block] assms(5) by (simp_all add: md_fresh_def)
  have F: "block \<noteq> NULL" "\<And>b. {block..<block + (unat sz + 56)} \<inter> block_range md b = {}" using assms(5) by (auto simp: md_fresh_def)
  have nb: "block \<noteq> mr_block m" using rec_range(1) [OF assms(1,2)] F(2) [of "mr_block m"] m(3) by (auto simp: disjoint_iff)
  have none: "md_blocks md block = None"
  proof (rule ccontr)
    assume "md_blocks md block \<noteq> None"
    then have "block \<in> rec_block md ` set rs" using assms(1) by (auto simp: md_ok_def)
    then obtain s where "s \<in> set rs" "rec_block md s = block" by blast
    then show False using rec_range(1) [OF assms(1), of s] F(2) [of block] by (auto simp: disjoint_iff)
  qed
  have rd: "md_read ?md1 (mr_block m) (mr_ptr m) (mr_size m) = Some xs" using assms(3) m(1) nb by (auto simp: md_data_def md_read_def)
  have alloc: "ohrealloc md (r + SIZEOF_REC) sz fname line block g =
      Option.bind (md_write ?md1 block (memdbg_align block) xs) (\<lambda>md. Option.bind (memdbg_free md (r + SIZEOF_REC)) (\<lambda>md. memdbg_record md block (memdbg_align block) sz fname line))"
    unfolding ohrealloc_def using alloc_eq_record [OF assms(4) F(1), where md = md and ptr = "r + SIZEOF_REC" and init = False and g = g] rec_of_add [OF m(4)] m(1,4) rd
    by (simp add: Let_def)
  have w: "md_write ?md1 block (memdbg_align block) xs = (if ?k + length xs \<le> unat sz + 56
      then Some (md\<lparr>md_blocks := (md_blocks md)(block \<mapsto> take ?k ?bs @ xs @ drop (?k + length xs) ?bs)\<rparr>) else None)"
    using al by (simp add: md_write_def poke_def)
  have "ohrealloc md (r + SIZEOF_REC) sz fname line block g = None" if "unat sz + 8 \<le> length xs"
  proof -
    have "48 < ?k" using al by linarith
    then have "\<not> ?k + length xs \<le> unat sz + 56" using that by linarith
    then show ?thesis unfolding alloc w by simp
  qed
  moreover have "\<exists>md' q ys. ohrealloc md (r + SIZEOF_REC) sz fname line block g = Some (md', q + SIZEOF_REC) \<and>
      md_ok md' (q # remove1 r rs) \<and> md_data md' q = Some (xs @ ys) \<and> length (xs @ ys) = unat sz \<and> (\<forall>s\<in>set rs - {r}. md_data md' s = md_data md s)"
    if le: "length xs \<le> unat sz"
  proof -
    let ?ws = "take ?k ?bs @ xs @ drop (?k + length xs) ?bs"
    obtain md0 where f: "memdbg_free md (r + SIZEOF_REC) = Some md0" "md_ok md0 (remove1 r rs)" "\<forall>s\<in>set rs - {r}. md_data md0 s = md_data md s"
      "md_blocks md0 = (md_blocks md)(rec_block md r := None)" using free_rec_ok [OF assms(1,2)] by blast
    have f2: "memdbg_free (md\<lparr>md_blocks := (md_blocks md)(block \<mapsto> ?ws)\<rparr>) (r + SIZEOF_REC) = Some (md0\<lparr>md_blocks := (md_blocks md0)(block \<mapsto> ?ws)\<rparr>)"
      by (rule free_other_block [OF f(1) none])
    have len: "length ?ws = unat sz + 56" using al le by simp
    have "md_fresh md0 block (length ?ws)" using assms(5) f(4) unfolding len by (auto simp: md_fresh_def block_range_def disjoint_iff split: if_splits)
    from record_new_ok [OF f(2) this len, where fname = fname and line = line] obtain md' q where R:
      "memdbg_record (md0\<lparr>md_blocks := (md_blocks md0)(block \<mapsto> ?ws)\<rparr>) block (memdbg_align block) sz fname line = Some (md', q + SIZEOF_REC)"
      "md_ok md' (q # remove1 r rs)" "\<forall>s\<in>set (remove1 r rs). md_data md' s = md_data md0 s" "md_data md' q = Some (take (unat sz) (drop ?k ?ws))"
      by (elim exE conjE, intro that) assumption+
    have d: "take (unat sz) (drop ?k ?ws) = xs @ take (unat sz - length xs) (drop (?k + length xs) ?bs)" using al le by simp
    have "distinct rs" using assms(1) by (simp add: md_ok_def)
    then have o: "\<forall>s\<in>set rs - {r}. md_data md' s = md_data md s" using R(3) f(3) by simp
    have a: "ohrealloc md (r + SIZEOF_REC) sz fname line block g = Some (md', q + SIZEOF_REC)" unfolding alloc w using al le f2 R(1) by simp
    have l: "length (xs @ take (unat sz - length xs) (drop (?k + length xs) ?bs)) = unat sz" using al le by simp
    show ?thesis
      by (rule exI [of _ md'], rule exI [of _ q], rule exI [of _ "take (unat sz - length xs) (drop (?k + length xs) ?bs)"])
        (intro conjI a R(2) R(4) [unfolded d] l o)
  qed
  ultimately show ?thesis by blast
qed

definition some_memdbg :: memdbg where
  "some_memdbg = \<lparr>md_head = 1008, md_next = [1008 \<mapsto> NULL],
     md_recs = [1008 \<mapsto> \<lparr>mr_file = 5, mr_line = 7, mr_block = 1001, mr_ptr = 1056, mr_size = 10\<rparr>], md_blocks = [1001 \<mapsto> replicate 66 0]\<rparr>"

lemma some_memdbg_ok: "md_ok some_memdbg [1008]" "md_data some_memdbg 1008 = Some (replicate 10 0)" "md_fresh some_memdbg 5000 60"
  by (simp_all add: md_ok_def rec_ok_def rec_block_def md_data_def md_read_def peek_def md_fresh_def block_range_def some_memdbg_def SIZEOF_REC_def)

theorem memdbg_realloc_shrink_witness:
  "md_ok some_memdbg [1008] \<and> ohrealloc some_memdbg (1008 + SIZEOF_REC) 2 5 7 5000 (\<lambda>i. 1) = None"
proof -
  have "unat (2 :: 64 word) + 56 < 2 ^ 31" "md_fresh some_memdbg 5000 (unat (2 :: 64 word) + 56)"
    using some_memdbg_ok(3) by (simp_all add: md_fresh_def disjoint_iff)
  from memdbg_realloc_shrink [OF some_memdbg_ok(1) _ some_memdbg_ok(2) this(1,2), of 5 7 "\<lambda>i. 1"] some_memdbg_ok(1) show ?thesis by simp
qed

end
