(* ===== verification/Evtpool.thy ===== *)
theory Evtpool
  imports EvtLoop
begin

text \<open>
  The pools of event loops of \<^verbatim>\<open>ohev/evtpool.c\<close>. The array of the loops is memory that may be missing or not yet
  written. The loops share nothing in the model, so that running them in threads is running each of them.
\<close>

section \<open>State\<close>

definition POOL_STATUS_INIT :: "8 word" where "POOL_STATUS_INIT = 0x01"
definition POOL_STATUS_STARTED :: "8 word" where "POOL_STATUS_STARTED = 0x02"
definition POOL_STATUS_RUNNING :: "8 word" where "POOL_STATUS_RUNNING = 0x04"
definition POOL_STATUS_SUSPEND :: "8 word" where "POOL_STATUS_SUSPEND = 0x08"
definition POOL_STATUS_QUITING :: "8 word" where "POOL_STATUS_QUITING = 0x10"
definition POOL_STATUS_STOP :: "8 word" where "POOL_STATUS_STOP = 0x20"
definition POOL_STATUS_WAITDESTROY :: "8 word" where "POOL_STATUS_WAITDESTROY = 0x40"

datatype loop_slot = Garbage | NoLoop | Loop evt_loop

record evt_pool =
  ep_owner_tid :: nat
  ep_status :: "8 word"
  ep_loops :: "loop_slot list option"
  ep_loops_num :: nat
  ep_freed :: bool

definition pool_loop :: "evt_pool \<Rightarrow> nat \<Rightarrow> evt_loop option" where
  "pool_loop pool i = do {
     ls \<leftarrow> ep_loops pool;
     if i < length ls then (case ls ! i of Loop loop \<Rightarrow> Some loop | _ \<Rightarrow> None) else None }"

definition pool_slot_put :: "evt_pool \<Rightarrow> nat \<Rightarrow> loop_slot \<Rightarrow> evt_pool" where
  "pool_slot_put pool i s = pool\<lparr>ep_loops := map_option (\<lambda>ls. ls[i := s]) (ep_loops pool)\<rparr>"

text \<open>A \<^verbatim>\<open>for\<close> over loops of the pool.\<close>

primrec pool_each :: "(nat \<Rightarrow> evt_loop \<Rightarrow> evt_loop option) \<Rightarrow> nat list \<Rightarrow> evt_pool \<Rightarrow> evt_pool option" where
  "pool_each f [] pool = Some pool"
| "pool_each f (i # is) pool = do {
     loop \<leftarrow> pool_loop pool i;
     loop \<leftarrow> f i loop;
     pool_each f is (pool_slot_put pool i (Loop loop)) }"

section \<open>Operations\<close>

definition evt_pool_quit :: "evt_pool \<Rightarrow> evt_pool option" where
  "evt_pool_quit pool = pool_each (\<lambda>i loop. Some (fst (evt_loop_quit loop))) [0..<ep_loops_num pool]
     (pool\<lparr>ep_status := ep_status pool OR POOL_STATUS_QUITING\<rparr>)"

definition evt_pool_destroy :: "callbacks \<Rightarrow> evt_pool \<Rightarrow> evt_pool option" where
  "evt_pool_destroy call pool =
     (if has_bit (ep_status pool) POOL_STATUS_RUNNING then evt_pool_quit (pool\<lparr>ep_status := ep_status pool OR POOL_STATUS_WAITDESTROY\<rparr>)
      else do {
        pool \<leftarrow> pool_each (\<lambda>i loop. evt_loop_destroy call loop) [0..<ep_loops_num pool] pool;
        Some (pool\<lparr>ep_freed := True\<rparr>) })"

text \<open>\<open>mk i\<close> is the creation of the \<open>i\<close>-th loop; the loop that could not be created is \<^verbatim>\<open>NULL\<close>. The flag is the \<^verbatim>\<open>goto\<close> after a failure.\<close>

primrec pool_create_loops :: "(nat \<Rightarrow> (evt_loop \<times> bool) option) \<Rightarrow> nat list \<Rightarrow> evt_pool \<Rightarrow> (evt_pool \<times> bool) option" where
  "pool_create_loops mk [] pool = Some (pool, True)"
| "pool_create_loops mk (i # is) pool = do {
     (loop, ok) \<leftarrow> mk i;
     if ok then pool_create_loops mk is (pool_slot_put pool i (Loop loop)) else Some (pool_slot_put pool i NoLoop, False) }"

text \<open>\<open>pool_ok\<close>, \<open>pid_ok\<close> and \<open>loops_ok\<close> tell which allocations succeed. The result is \<open>None\<close> inside for \<^verbatim>\<open>NULL\<close>.\<close>

definition evt_pool_init_flag :: "callbacks \<Rightarrow> bool \<Rightarrow> bool \<Rightarrow> bool \<Rightarrow> (nat \<Rightarrow> (evt_loop \<times> bool) option) \<Rightarrow> nat \<Rightarrow> evt_pool option option" where
  "evt_pool_init_flag call pool_ok pid_ok loops_ok mk sz =
     (if \<not> pool_ok then Some None
      else do {
        let pool = \<lparr>ep_owner_tid = 0, ep_status = POOL_STATUS_INIT, ep_loops = (if loops_ok then Some (replicate sz Garbage) else None),
          ep_loops_num = sz, ep_freed = False\<rparr>;
        (pool, ok) \<leftarrow> (if \<not> loops_ok \<or> \<not> pid_ok then Some (pool, False) else pool_create_loops mk [0..<sz] pool);
        if ok then Some (Some pool)
        else do { pool \<leftarrow> evt_pool_destroy call pool; Some None } })"

definition evt_pool_init :: "callbacks \<Rightarrow> bool \<Rightarrow> bool \<Rightarrow> bool \<Rightarrow> (nat \<Rightarrow> (evt_loop \<times> bool) option) \<Rightarrow> nat \<Rightarrow> evt_pool option option" where
  "evt_pool_init call pool_ok pid_ok loops_ok mk sz = evt_pool_init_flag call pool_ok pid_ok loops_ok mk sz"

text \<open>
  \<open>tid\<close> are the threads of the loops, the first that of the caller; \<open>meanwhile\<close> are the flags that were set while the loops ran.
  Joining the threads is waiting until each loop has returned.
\<close>

definition evt_pool_run :: "callbacks \<Rightarrow> (nat \<Rightarrow> nat) \<Rightarrow> 8 word \<Rightarrow> evt_pool \<Rightarrow> evt_pool option" where
  "evt_pool_run call tid meanwhile pool = do {
     let pool = pool\<lparr>ep_owner_tid := tid 0, ep_status := POOL_STATUS_STARTED OR POOL_STATUS_RUNNING\<rparr>;
     c_assert (0 < ep_loops_num pool);
     pool \<leftarrow> pool_each (\<lambda>i loop. evt_loop_run call (loop\<lparr>lp_tid := tid i\<rparr>)) [0..<ep_loops_num pool] pool;
     let status = ep_status pool OR meanwhile;
     let status = ((status AND NOT POOL_STATUS_RUNNING) AND NOT POOL_STATUS_QUITING) AND NOT POOL_STATUS_SUSPEND;
     let pool = pool\<lparr>ep_status := status OR POOL_STATUS_STOP\<rparr>;
     if has_bit (ep_status pool) POOL_STATUS_WAITDESTROY then evt_pool_destroy call pool else Some pool }"

section \<open>Going over the loops\<close>

lemma pool_loop_put: "pool_loop (pool_slot_put pool i s) j =
    (if j = i then (case s of Loop loop \<Rightarrow> (if i < length (the (ep_loops pool)) \<and> ep_loops pool \<noteq> None then Some loop else None) | _ \<Rightarrow> None)
     else pool_loop pool j)"
  by (cases "ep_loops pool") (auto simp: pool_loop_def pool_slot_put_def split: loop_slot.splits)

lemma pool_loop_upd [simp]:
  "pool_loop (pool\<lparr>ep_status := st\<rparr>) i = pool_loop pool i" "pool_loop (pool\<lparr>ep_owner_tid := t\<rparr>) i = pool_loop pool i"
  by (simp_all add: pool_loop_def)

lemma pool_loop_range: "pool_loop pool i = Some loop \<Longrightarrow> \<exists>ls. ep_loops pool = Some ls \<and> i < length ls \<and> ls ! i = Loop loop"
  by (auto simp: pool_loop_def bind_eq_Some_conv split: if_splits loop_slot.splits)

text \<open>Every loop is there and is replaced by its result, and nothing else changes.\<close>

lemma pool_each_ok:
  assumes "\<And>i. i \<in> set is \<Longrightarrow> \<exists>loop loop'. pool_loop pool i = Some loop \<and> f i loop = Some loop'" and "distinct is"
  shows "\<exists>pool'. pool_each f is pool = Some pool' \<and> ep_status pool' = ep_status pool \<and> ep_loops_num pool' = ep_loops_num pool \<and>
    (\<forall>i. pool_loop pool' i = (if i \<in> set is then Option.bind (pool_loop pool i) (f i) else pool_loop pool i))"
  using assms
proof (induction "is" arbitrary: pool)
  case (Cons i "is")
  obtain loop loop' where l: "pool_loop pool i = Some loop" "f i loop = Some loop'" using Cons.prems(1) [of i] by auto
  let ?p = "pool_slot_put pool i (Loop loop')"
  have g: "pool_loop ?p j = (if j = i then Some loop' else pool_loop pool j)" for j
    using pool_loop_range [OF l(1)] by (auto simp: pool_loop_put)
  have "\<exists>loop loop'. pool_loop ?p j = Some loop \<and> f j loop = Some loop'" if "j \<in> set is" for j
    using Cons.prems that by (auto simp: g)
  then obtain pool' where p: "pool_each f is ?p = Some pool'" "ep_status pool' = ep_status ?p" "ep_loops_num pool' = ep_loops_num ?p"
    "\<forall>j. pool_loop pool' j = (if j \<in> set is then Option.bind (pool_loop ?p j) (f j) else pool_loop ?p j)"
    using Cons.IH Cons.prems(2) by (metis distinct.simps(2))
  have "i \<notin> set is" using Cons.prems(2) by simp
  then have "\<forall>j. pool_loop pool' j = (if j \<in> set (i # is) then Option.bind (pool_loop pool j) (f j) else pool_loop pool j)"
    using p(4) l by (auto simp: g)
  then show ?case using l p by (intro exI [of _ pool']) (simp add: pool_slot_put_def)
qed auto

lemma pool_each_missing: "i \<in> set is \<Longrightarrow> distinct is \<Longrightarrow> pool_loop pool i = None \<Longrightarrow> pool_each f is pool = None"
proof (induction "is" arbitrary: pool)
  case (Cons j "is")
  show ?case
  proof (cases "i = j")
    case False
    then have "pool_each f is (pool_slot_put pool j s) = None" for s using Cons by (auto simp: pool_loop_put)
    then show ?thesis by (auto split: bind_split)
  qed (use Cons.prems in simp)
qed simp

lemma create_loops_ok:
  assumes "\<forall>i\<in>set is. i < length ls \<and> (\<exists>loop. mk i = Some (loop, True))" and "ep_loops pool = Some ls"
  shows "\<exists>ls'. pool_create_loops mk is pool = Some (pool\<lparr>ep_loops := Some ls'\<rparr>, True) \<and> length ls' = length ls \<and>
    (\<forall>i. ls' ! i = (if i \<in> set is then Loop (fst (the (mk i))) else ls ! i))"
  using assms
proof (induction "is" arbitrary: pool ls)
  case Nil
  then show ?case by (intro exI [of _ ls]) simp
next
  case (Cons i "is")
  obtain loop where l: "mk i = Some (loop, True)" "i < length ls" using Cons.prems(1) by auto
  let ?p = "pool_slot_put pool i (Loop loop)"
  have "ep_loops ?p = Some (ls[i := Loop loop])" using Cons.prems(2) by (simp add: pool_slot_put_def)
  from Cons.IH [OF _ this] Cons.prems(1) obtain ls' where ls': "pool_create_loops mk is ?p = Some (?p\<lparr>ep_loops := Some ls'\<rparr>, True)"
    "length ls' = length ls" "\<forall>j. ls' ! j = (if j \<in> set is then Loop (fst (the (mk j))) else ls[i := Loop loop] ! j)" by auto
  then show ?case using l by (intro exI [of _ ls']) (auto simp: pool_slot_put_def nth_list_update)
qed

text \<open>A loop that cannot be created is \<^verbatim>\<open>NULL\<close> in the array.\<close>

lemma create_loops_fail:
  assumes "\<exists>i\<in>set is. \<not> (\<exists>loop. mk i = Some (loop, True))" and "pool_create_loops mk is pool = Some (pool', ok)"
  shows "\<not> ok \<and> (\<exists>i\<in>set is. pool_loop pool' i = None) \<and> ep_status pool' = ep_status pool \<and> ep_loops_num pool' = ep_loops_num pool"
  using assms
proof (induction "is" arbitrary: pool)
  case (Cons i "is")
  obtain loop k where m: "mk i = Some (loop, k)" using Cons.prems(2) by (auto simp: bind_eq_Some_conv)
  show ?case
  proof (cases k)
    case True
    then have "\<exists>i\<in>set is. \<not> (\<exists>loop. mk i = Some (loop, True))" using Cons.prems(1) m by auto
    moreover have "pool_create_loops mk is (pool_slot_put pool i (Loop loop)) = Some (pool', ok)" using Cons.prems(2) m True by simp
    ultimately show ?thesis using Cons.IH by (fastforce simp: pool_slot_put_def)
  next
    case False
    then have "pool' = pool_slot_put pool i NoLoop" "\<not> ok" using Cons.prems(2) m by auto
    then show ?thesis by (auto simp: pool_loop_put) (simp_all add: pool_slot_put_def)
  qed
qed simp

lemma has_bit_exp: "has_bit w (2 ^ n) \<longleftrightarrow> bit w n"
  by (simp add: has_bit_def and_exp_eq_0_iff_not_bit)

lemma pool_status_exp:
  "POOL_STATUS_INIT = 2 ^ 0" "POOL_STATUS_STARTED = 2 ^ 1" "POOL_STATUS_RUNNING = 2 ^ 2" "POOL_STATUS_SUSPEND = 2 ^ 3"
  "POOL_STATUS_QUITING = 2 ^ 4" "POOL_STATUS_STOP = 2 ^ 5" "POOL_STATUS_WAITDESTROY = 2 ^ 6"
  by (simp_all add: POOL_STATUS_INIT_def POOL_STATUS_STARTED_def POOL_STATUS_RUNNING_def POOL_STATUS_SUSPEND_def POOL_STATUS_QUITING_def
    POOL_STATUS_STOP_def POOL_STATUS_WAITDESTROY_def)

lemmas pool_bits = has_bit_exp pool_status_exp bit_or_iff bit_and_iff bit_not_iff bit_exp_iff

end
