(* ===== verification/EvtpoolSpec.thy ===== *)
theory EvtpoolSpec
  imports Evtpool EvtSpec
begin

text \<open>Pools of loops: their creation, and running them to the end.\<close>

unbundle bit_operations_syntax

text \<open>A pool is created with all its loops, freshly created each, or there is no memory for the pool itself. When anything else fails
  the code destroys what it has not written and crashes: \<^verbatim>\<open>NULL\<close> is never the result of a later failure.\<close>

theorem evt_pool_init_complete:
  assumes "0 < sz"
  shows "evt_pool_init_flag call pool_ok pid_ok loops_ok mk sz = Some r \<longleftrightarrow>
    (if pool_ok then pid_ok \<and> loops_ok \<and> (\<forall>i < sz. \<exists>loop. mk i = Some (loop, True)) \<and>
       r = Some \<lparr>ep_owner_tid = 0, ep_status = POOL_STATUS_INIT, ep_loops = Some (map (\<lambda>i. Loop (fst (the (mk i)))) [0..<sz]), ep_loops_num = sz, ep_freed = False\<rparr>
     else r = None)"
proof (cases "pool_ok")
  case True
  let ?p = "\<lparr>ep_owner_tid = 0, ep_status = POOL_STATUS_INIT, ep_loops = (if loops_ok then Some (replicate sz Garbage) else None), ep_loops_num = sz, ep_freed = False\<rparr>"
  have crash: "evt_pool_destroy call p = None" if "ep_status p = POOL_STATUS_INIT" "ep_loops_num p = sz" "\<exists>i < sz. pool_loop p i = None" for p
  proof -
    note st = that(1,2)
    from that(3) obtain i where "i \<in> set [0..<sz]" "pool_loop p i = None" by auto
    from pool_each_missing [OF this(1) distinct_upt this(2)] st show ?thesis
      by (simp add: evt_pool_destroy_def has_bit_def POOL_STATUS_INIT_def POOL_STATUS_RUNNING_def)
  qed
  show ?thesis
  proof (cases "loops_ok \<and> pid_ok")
    case False
    have "pool_loop ?p 0 = None" using assms by (simp add: pool_loop_def)
    then have "evt_pool_destroy call ?p = None" using assms by (intro crash) auto
    then show ?thesis using True False by (auto simp: evt_pool_init_flag_def Let_def)
  next
    case ok: True
    show ?thesis
    proof (cases "\<forall>i < sz. \<exists>loop. mk i = Some (loop, True)")
      case all: True
      let ?ls = "map (\<lambda>i. Loop (fst (the (mk i)))) [0..<sz]"
      obtain ls' where c: "pool_create_loops mk [0..<sz] ?p = Some (?p\<lparr>ep_loops := Some ls'\<rparr>, True)" "length ls' = sz"
        "\<forall>i. ls' ! i = (if i \<in> set [0..<sz] then Loop (fst (the (mk i))) else replicate sz Garbage ! i)"
        using create_loops_ok [of "[0..<sz]" "replicate sz Garbage" mk ?p] all ok by auto
      then have "ls' = ?ls" by (auto intro!: nth_equalityI)
      then show ?thesis using c(1) True ok all by (auto simp: evt_pool_init_flag_def Let_def)
    next
      case some: False
      then have bad: "\<exists>i\<in>set [0..<sz]. \<not> (\<exists>loop. mk i = Some (loop, True))" by auto
      have "evt_pool_init_flag call pool_ok pid_ok loops_ok mk sz = None"
      proof (cases "pool_create_loops mk [0..<sz] ?p")
        case None
        then show ?thesis using True ok by (simp add: evt_pool_init_flag_def Let_def)
      next
        case (Some po)
        obtain p k where po: "po = (p, k)" by (cases po)
        from create_loops_fail [OF bad Some [unfolded po]] have "\<not> k" "\<exists>i < sz. pool_loop p i = None" "ep_status p = POOL_STATUS_INIT" "ep_loops_num p = sz" by auto
        then show ?thesis using Some po True ok crash by (simp add: evt_pool_init_flag_def Let_def)
      qed
      then show ?thesis using True some by auto
    qed
  qed
qed (auto simp: evt_pool_init_flag_def)

theorem evt_pool_init_complete_witness:
  "evt_pool_init_flag call True True False mk 2 = Some r \<longleftrightarrow> False"
  using evt_pool_init_complete [of 2 call True True False mk r] by simp


text \<open>A loop whose first event makes it quit.\<close>

definition quitter :: callbacks where
  "quitter cb e loop = (if cb = 9 then Some (fst (evt_loop_quit loop)) else Some loop)"

definition some_quitting :: evt_loop where
  "some_quitting = (some_loop [10 \<mapsto> some_event\<lparr>ev_active := 1, ev_cb := 9\<rparr>])\<lparr>lp_before_evtq := 10, lp_mutex := True, lp_cond := True\<rparr>"

definition some_pool :: evt_pool where
  "some_pool = \<lparr>ep_owner_tid = 0, ep_status = POOL_STATUS_INIT, ep_loops = Some [Loop some_quitting], ep_loops_num = 1, ep_freed = False\<rparr>"

lemma some_quitting_ends: "Option.bind (evt_loop_run quitter (some_quitting\<lparr>lp_tid := 1\<rparr>)) (evt_loop_destroy quitter) \<noteq> None"
  by code_simp


end
