(* ===== verification/Mutex.thy ===== *)
theory Mutex
  imports Splst OhTime
begin

text \<open>
  The locks and condition variables of \<^verbatim>\<open>ohutil/thread.c\<close>: wrappers around those of pthreads, in a release variant and in a
  debugging variant that keeps a record behind every lock, and condition variables on top of whichever is installed. The state is
  what one thread sees: a lock that is held is not obtained again. \<open>th_mem\<close> are the allocated blocks.
\<close>

section \<open>State\<close>

definition SIZEOF_MUTEX :: nat where "SIZEOF_MUTEX = 40"

record mtxdbg_rec =
  xr_count :: int
  xr_block :: addr

record cond_obj =
  cd_cond :: addr
  cd_mutex :: addr

record threads =
  th_mem :: "addr set"
  th_mutexes :: "addr \<rightharpoonup> bool"
  th_pconds :: "addr set"
  th_conds :: "addr \<rightharpoonup> cond_obj"
  th_recs :: "addr \<rightharpoonup> mtxdbg_rec"
  th_next :: links
  th_head :: addr

definition th_alloc :: "threads \<Rightarrow> addr \<Rightarrow> threads" where
  "th_alloc th p = th\<lparr>th_mem := th_mem th \<union> {p}\<rparr>"

definition th_free :: "threads \<Rightarrow> addr \<Rightarrow> threads option" where
  "th_free th p = do { c_assert (p \<in> th_mem th); Some (th\<lparr>th_mem := th_mem th - {p}\<rparr>) }"

text \<open>The operations of pthreads: a lock is there and free or held.\<close>

definition pthread_mutex_init :: "threads \<Rightarrow> addr \<Rightarrow> threads option" where
  "pthread_mutex_init th p = do { c_assert (p \<noteq> NULL); Some (th\<lparr>th_mutexes := (th_mutexes th)(p \<mapsto> False)\<rparr>) }"

definition pthread_mutex_lock :: "threads \<Rightarrow> addr \<Rightarrow> threads option" where
  "pthread_mutex_lock th p = do { held \<leftarrow> th_mutexes th p; c_assert (\<not> held); Some (th\<lparr>th_mutexes := (th_mutexes th)(p \<mapsto> True)\<rparr>) }"

definition pthread_mutex_unlock :: "threads \<Rightarrow> addr \<Rightarrow> threads option" where
  "pthread_mutex_unlock th p = do { held \<leftarrow> th_mutexes th p; c_assert held; Some (th\<lparr>th_mutexes := (th_mutexes th)(p \<mapsto> False)\<rparr>) }"

definition pthread_mutex_destroy :: "threads \<Rightarrow> addr \<Rightarrow> threads option" where
  "pthread_mutex_destroy th p = do { held \<leftarrow> th_mutexes th p; c_assert (\<not> held); Some (th\<lparr>th_mutexes := (th_mutexes th)(p := None)\<rparr>) }"

section \<open>Locks of the release variant\<close>

text \<open>\<open>mutex\<close> is the result of the allocation, which is not checked, and \<open>ok\<close> that of \<^verbatim>\<open>pthread_mutex_init\<close>.\<close>

definition oh_mutex_init :: "threads \<Rightarrow> addr \<Rightarrow> bool \<Rightarrow> (threads \<times> addr) option" where
  "oh_mutex_init th mutex ok = do {
     c_assert (mutex \<noteq> NULL);
     if \<not> ok then Some (th, NULL)
     else do { th \<leftarrow> pthread_mutex_init (th_alloc th mutex) mutex; Some (th, mutex) } }"

definition oh_mutex_lock :: "threads \<Rightarrow> addr \<Rightarrow> threads option" where
  "oh_mutex_lock th mutex = pthread_mutex_lock th mutex"

definition oh_mutex_unlock :: "threads \<Rightarrow> addr \<Rightarrow> threads option" where
  "oh_mutex_unlock th mutex = pthread_mutex_unlock th mutex"

definition oh_mutex_destroy :: "threads \<Rightarrow> addr \<Rightarrow> threads option" where
  "oh_mutex_destroy th mutex = do { th \<leftarrow> pthread_mutex_destroy th mutex; th_free th mutex }"

section \<open>Locks of the debugging variant\<close>

definition mtxdbg_rec_of :: "addr \<Rightarrow> addr" where
  "mtxdbg_rec_of mutex = mutex + SIZEOF_MUTEX"

definition oh_mutexd_init :: "threads \<Rightarrow> addr \<Rightarrow> bool \<Rightarrow> (threads \<times> addr) option" where
  "oh_mutexd_init th block ok =
     (if block = NULL \<or> \<not> ok then Some (th, NULL)
      else do {
        let mtx = block;
        let r = mtxdbg_rec_of mtx;
        th \<leftarrow> pthread_mutex_init (th_alloc th block) mtx;
        let th = th\<lparr>th_recs := (th_recs th)(r \<mapsto> \<lparr>xr_count = 1, xr_block = block\<rparr>), th_next := (th_next th)(r \<mapsto> NULL)\<rparr>;
        (nx, head) \<leftarrow> splst_add (th_next th) (th_head th) r;
        Some (th\<lparr>th_next := nx, th_head := head\<rparr>, mtx) })"

definition mtxdbg_count :: "threads \<Rightarrow> addr \<Rightarrow> int \<Rightarrow> threads option" where
  "mtxdbg_count th mutex d = do {
     r \<leftarrow> th_recs th (mtxdbg_rec_of mutex);
     Some (th\<lparr>th_recs := (th_recs th)(mtxdbg_rec_of mutex \<mapsto> r\<lparr>xr_count := xr_count r + d\<rparr>)\<rparr>) }"

definition oh_mutexd_lock :: "threads \<Rightarrow> addr \<Rightarrow> threads option" where
  "oh_mutexd_lock th mutex = do { th \<leftarrow> mtxdbg_count th mutex 1; pthread_mutex_lock th mutex }"

definition oh_mutexd_unlock :: "threads \<Rightarrow> addr \<Rightarrow> threads option" where
  "oh_mutexd_unlock th mutex = do { th \<leftarrow> mtxdbg_count th mutex (- 1); pthread_mutex_unlock th mutex }"

definition oh_mutexd_destroy :: "threads \<Rightarrow> addr \<Rightarrow> threads option" where
  "oh_mutexd_destroy th mutex = do {
     let r = mtxdbg_rec_of mutex;
     (nx, head) \<leftarrow> splst_del (th_next th) (th_head th) r;
     th \<leftarrow> pthread_mutex_destroy (th\<lparr>th_next := nx, th_head := head\<rparr>) mutex;
     x \<leftarrow> th_recs th r;
     th_free (th\<lparr>th_recs := (th_recs th)(r := None), th_next := (th_next th)(r := None)\<rparr>) (xr_block x) }"

text \<open>What is printed: for every lock how often it is held, and a total that is counted after the loop.\<close>

definition mtxdbg_print_step :: "threads \<Rightarrow> addr \<times> (int \<times> addr) list \<Rightarrow> (addr \<times> (int \<times> addr) list) option" where
  "mtxdbg_print_step th s = (case s of (p, out) \<Rightarrow> do {
     r \<leftarrow> th_recs th p;
     q \<leftarrow> splst_next (th_next th) p;
     Some (q, out @ [(xr_count r - 1, xr_block r)]) })"

definition oh_mtxdbg_print_rec :: "threads \<Rightarrow> ((int \<times> addr) list \<times> nat) option" where
  "oh_mtxdbg_print_rec th = do {
     let tot = 0;
     (p, out) \<leftarrow> while_c (\<lambda>(p, out). Some (p \<noteq> NULL)) (mtxdbg_print_step th) (th_head th, []);
     let tot = tot + 1;
     Some (out, tot) }"

section \<open>The interface of locks\<close>

record mutex_if =
  mi_init :: "threads \<Rightarrow> addr \<Rightarrow> bool \<Rightarrow> (threads \<times> addr) option"
  mi_destroy :: "threads \<Rightarrow> addr \<Rightarrow> threads option"
  mi_lock :: "threads \<Rightarrow> addr \<Rightarrow> threads option"
  mi_unlock :: "threads \<Rightarrow> addr \<Rightarrow> threads option"

definition release_mutex_if :: mutex_if where
  "release_mutex_if = \<lparr>mi_init = oh_mutex_init, mi_destroy = oh_mutex_destroy, mi_lock = oh_mutex_lock, mi_unlock = oh_mutex_unlock\<rparr>"

definition debug_mutex_if :: mutex_if where
  "debug_mutex_if = \<lparr>mi_init = oh_mutexd_init, mi_destroy = oh_mutexd_destroy, mi_lock = oh_mutexd_lock, mi_unlock = oh_mutexd_unlock\<rparr>"

section \<open>Condition variables\<close>

text \<open>
  \<open>cm\<close>, \<open>mp\<close> and \<open>cp\<close> are the results of the three allocations, \<open>mok\<close> and \<open>cok\<close> those of the initialisations. The structure is written
  before it is checked, and stays allocated when the rest fails.
\<close>

definition oh_cond_init :: "mutex_if \<Rightarrow> threads \<Rightarrow> addr \<Rightarrow> addr \<Rightarrow> bool \<Rightarrow> addr \<Rightarrow> bool \<Rightarrow> (threads \<times> addr) option" where
  "oh_cond_init mi th cm mp mok cp cok = do {
     c_assert (cm \<noteq> NULL);
     let th = th_alloc th cm;
     (th, mutex) \<leftarrow> mi_init mi th mp mok;
     let th = (if cp \<noteq> NULL then th_alloc th cp else th);
     if mutex \<noteq> NULL \<and> cp \<noteq> NULL \<and> cok then
       Some (th\<lparr>th_pconds := th_pconds th \<union> {cp}, th_conds := (th_conds th)(cm \<mapsto> \<lparr>cd_cond = cp, cd_mutex = mutex\<rparr>)\<rparr>, cm)
     else do {
       th \<leftarrow> (if mutex \<noteq> NULL then mi_destroy mi th mutex else Some th);
       th \<leftarrow> (if cp \<noteq> NULL then th_free th cp else Some th);
       Some (th, NULL) } }"

definition oh_cond_destroy :: "mutex_if \<Rightarrow> threads \<Rightarrow> addr \<Rightarrow> threads option" where
  "oh_cond_destroy mi th cm = do {
     c \<leftarrow> th_conds th cm;
     th \<leftarrow> mi_destroy mi th (cd_mutex c);
     c_assert (cd_cond c \<in> th_pconds th);
     th \<leftarrow> th_free (th\<lparr>th_pconds := th_pconds th - {cd_cond c}\<rparr>) (cd_cond c);
     th_free (th\<lparr>th_conds := (th_conds th)(cm := None)\<rparr>) cm }"

definition cond_lock :: "mutex_if \<Rightarrow> threads \<Rightarrow> addr \<Rightarrow> threads option" where
  "cond_lock mi th cm = do { c \<leftarrow> th_conds th cm; mi_lock mi th (cd_mutex c) }"

definition cond_unlock :: "mutex_if \<Rightarrow> threads \<Rightarrow> addr \<Rightarrow> threads option" where
  "cond_unlock mi th cm = do { c \<leftarrow> th_conds th cm; mi_unlock mi th (cd_mutex c) }"

text \<open>Which of the functions of pthreads is called on the condition variable.\<close>

datatype wakeup = SignalOne | SignalAll

definition oh_cond_signal :: "threads \<Rightarrow> addr \<Rightarrow> int \<Rightarrow> wakeup option" where
  "oh_cond_signal th cm type = do {
     c \<leftarrow> th_conds th cm;
     c_assert (cd_cond c \<in> th_pconds th);
     Some (if type = 0 then SignalOne else SignalAll) }"

text \<open>The time at which waiting ends, or \<open>None\<close> inside when it is without limit; the lock is held again afterwards.\<close>

definition oh_cond_wait :: "threads \<Rightarrow> clock \<Rightarrow> addr \<Rightarrow> int \<Rightarrow> (clock \<times> timespec option) option" where
  "oh_cond_wait th ck cm timeout_us = do {
     c \<leftarrow> th_conds th cm;
     c_assert (cd_cond c \<in> th_pconds th \<and> th_mutexes th (cd_mutex c) = Some True);
     if timeout_us > 0 then do {
       (ck, now) \<leftarrow> get_time ck;
       t \<leftarrow> ohtime (timeout_us + now);
       Some (ck, Some (ohtime_to_timespec t)) }
     else Some (ck, None) }"

end
