(* ===== verification/MutexSpec.thy ===== *)
theory MutexSpec
  imports Mutex
begin

text \<open>
  The contract of the interface of locks, as the condition variables use it, with both variants as providers; and what the records
  of the debugging variant say.
\<close>

section \<open>The contract\<close>

text \<open>What locks do not touch.\<close>

definition same_conds :: "threads \<Rightarrow> threads \<Rightarrow> bool" where
  "same_conds th th' \<longleftrightarrow> th_conds th' = th_conds th \<and> th_pconds th' = th_pconds th"

locale mutex_provider =
  fixes mi :: mutex_if and ok :: "threads \<Rightarrow> addr list \<Rightarrow> bool"
  assumes ok_mem: "ok th ms \<Longrightarrow> set ms \<subseteq> th_mem th"
    and ok_frame: "ok th ms \<Longrightarrow> set ms \<subseteq> mem \<Longrightarrow> ok (th\<lparr>th_mem := mem, th_pconds := q, th_conds := c\<rparr>) ms"
    and init_ok: "ok th ms \<Longrightarrow> p \<noteq> NULL \<Longrightarrow> p \<notin> th_mem th \<Longrightarrow> \<exists>th'. mi_init mi th p True = Some (th', p) \<and> ok th' (p # ms) \<and>
      th_mem th' = th_mem th \<union> {p} \<and> th_mutexes th' = (th_mutexes th)(p \<mapsto> False) \<and> same_conds th th'"
    and lock_ok: "ok th ms \<Longrightarrow> p \<in> set ms \<Longrightarrow> th_mutexes th p = Some False \<Longrightarrow> \<exists>th'. mi_lock mi th p = Some th' \<and> ok th' ms \<and>
      th_mem th' = th_mem th \<and> th_mutexes th' = (th_mutexes th)(p \<mapsto> True) \<and> same_conds th th'"
    and unlock_ok: "ok th ms \<Longrightarrow> p \<in> set ms \<Longrightarrow> th_mutexes th p = Some True \<Longrightarrow> \<exists>th'. mi_unlock mi th p = Some th' \<and> ok th' ms \<and>
      th_mem th' = th_mem th \<and> th_mutexes th' = (th_mutexes th)(p \<mapsto> False) \<and> same_conds th th'"
    and destroy_ok: "ok th ms \<Longrightarrow> p \<in> set ms \<Longrightarrow> th_mutexes th p = Some False \<Longrightarrow> \<exists>th'. mi_destroy mi th p = Some th' \<and> ok th' (remove1 p ms) \<and>
      th_mem th' = th_mem th - {p} \<and> th_mutexes th' = (th_mutexes th)(p := None) \<and> same_conds th th'"
begin

text \<open>The memory of a condition variable that is to be created.\<close>

lemma alloc_frame: "ok th ms \<Longrightarrow> ok (th_alloc th p) ms"
  using ok_frame [where th = th and ms = ms and mem = "th_mem th \<union> {p}" and q = "th_pconds th" and c = "th_conds th"] ok_mem [of th ms] by (auto simp: th_alloc_def)

lemma cond_cycle:
  assumes "ok th ms" and "distinct [cm, mp, cp]" and "NULL \<notin> {cm, mp, cp}" and "{cm, mp, cp} \<inter> th_mem th = {}"
    and "cp \<notin> th_pconds th" and "th_conds th cm = None" and "th_mutexes th mp = None"
  shows "\<exists>th1 th2 th3 th4. oh_cond_init mi th cm mp True cp True = Some (th1, cm) \<and> cond_lock mi th1 cm = Some th2 \<and>
    cond_unlock mi th2 cm = Some th3 \<and> oh_cond_destroy mi th3 cm = Some th4 \<and> ok th4 ms \<and> th_mem th4 = th_mem th \<and>
    th_mutexes th4 = th_mutexes th \<and> same_conds th th4"
proof -
  have nm: "mp \<notin> set ms" "mp \<notin> th_mem (th_alloc th cm)" "cp \<notin> set ms" "cm \<notin> set ms"
    using ok_mem [OF assms(1)] assms(2,4) by (auto simp: th_alloc_def)
  obtain ta where A: "mi_init mi (th_alloc th cm) mp True = Some (ta, mp)" "ok ta (mp # ms)" "th_mem ta = th_mem th \<union> {cm} \<union> {mp}"
    "th_mutexes ta = (th_mutexes th)(mp \<mapsto> False)" "same_conds (th_alloc th cm) ta"
    using init_ok [OF alloc_frame [OF assms(1)], of mp cm] assms(3) nm(2) by (auto simp: th_alloc_def)
  let ?th1 = "ta\<lparr>th_mem := th_mem ta \<union> {cp}, th_pconds := th_pconds ta \<union> {cp}, th_conds := (th_conds ta)(cm \<mapsto> \<lparr>cd_cond = cp, cd_mutex = mp\<rparr>)\<rparr>"
  have i: "oh_cond_init mi th cm mp True cp True = Some (?th1, cm)" using A(1) assms(3) by (simp add: oh_cond_init_def th_alloc_def)
  have ok1: "ok ?th1 (mp # ms)" by (rule ok_frame [OF A(2)]) (use ok_mem [OF A(2)] in auto)
  have "th_mutexes ?th1 mp = Some False" using A(4) by simp
  from lock_ok [OF ok1 _ this] obtain th2 where L: "mi_lock mi ?th1 mp = Some th2" "ok th2 (mp # ms)" "th_mem th2 = th_mem ?th1"
    "th_mutexes th2 = (th_mutexes ?th1)(mp \<mapsto> True)" "same_conds ?th1 th2" by auto
  have "th_mutexes th2 mp = Some True" using L(4) by simp
  from unlock_ok [OF L(2) _ this] obtain th3 where U: "mi_unlock mi th2 mp = Some th3" "ok th3 (mp # ms)" "th_mem th3 = th_mem th2"
    "th_mutexes th3 = (th_mutexes th2)(mp \<mapsto> False)" "same_conds th2 th3" by auto
  have "th_mutexes th3 mp = Some False" using U(4) by simp
  from destroy_ok [OF U(2) _ this] obtain td where D: "mi_destroy mi th3 mp = Some td" "ok td ms" "th_mem td = th_mem th3 - {mp}"
    "th_mutexes td = (th_mutexes th3)(mp := None)" "same_conds th3 td" by auto
  let ?th4 = "td\<lparr>th_mem := th_mem td - {cp} - {cm}, th_pconds := th_pconds td - {cp}, th_conds := (th_conds td)(cm := None)\<rparr>"
  have c: "th_conds ?th1 cm = Some \<lparr>cd_cond = cp, cd_mutex = mp\<rparr>" by simp
  then have c2: "th_conds th2 cm = Some \<lparr>cd_cond = cp, cd_mutex = mp\<rparr>" "th_conds th3 cm = Some \<lparr>cd_cond = cp, cd_mutex = mp\<rparr>"
    using L(5) U(5) by (simp_all add: same_conds_def)
  have m: "th_mem td = (th_mem th \<union> {cm, cp})" using A(3) L(3) U(3) D(3) assms(2,4) by auto
  have q: "th_pconds td = th_pconds th \<union> {cp}" "th_conds td = (th_conds th)(cm \<mapsto> \<lparr>cd_cond = cp, cd_mutex = mp\<rparr>)"
    using A(5) L(5) U(5) D(5) by (simp_all add: same_conds_def th_alloc_def)
  have d: "oh_cond_destroy mi th3 cm = Some ?th4" using c2(2) D(1) m q(1) assms(2) by (simp add: oh_cond_destroy_def th_free_def)
  have "set ms \<subseteq> th_mem td - {cp} - {cm}" using ok_mem [OF D(2)] nm by auto
  from ok_frame [OF D(2) this] have "ok ?th4 ms" by blast
  moreover have "th_mem ?th4 = th_mem th" using m assms(4) by auto
  moreover have "th_mutexes ?th4 = th_mutexes th" using A(4) L(4) U(4) D(4) assms(7) by auto
  moreover have "same_conds th ?th4" using q assms(5,6) by (auto simp: same_conds_def)
  moreover have "cond_lock mi ?th1 cm = Some th2" "cond_unlock mi th2 cm = Some th3" using c c2(1) L(1) U(1) by (simp_all add: cond_lock_def cond_unlock_def)
  ultimately show ?thesis using i d by blast
qed

text \<open>A creation that fails.\<close>

lemma cond_failure:
  assumes "ok th ms" and "distinct [cm, mp, cp]" and "NULL \<notin> {cm, mp, cp}" and "{cm, mp, cp} \<inter> th_mem th = {}" and "th_mutexes th mp = None"
  shows "\<exists>th'. oh_cond_init mi th cm mp True cp False = Some (th', NULL) \<and> ok th' ms \<and> th_mem th' = th_mem th \<union> {cm} \<and> th_mutexes th' = th_mutexes th"
proof -
  have nm: "mp \<notin> set ms" "mp \<notin> th_mem (th_alloc th cm)" "cp \<notin> set ms"
    using ok_mem [OF assms(1)] assms(2,4) by (auto simp: th_alloc_def)
  obtain ta where A: "mi_init mi (th_alloc th cm) mp True = Some (ta, mp)" "ok ta (mp # ms)" "th_mem ta = th_mem th \<union> {cm} \<union> {mp}"
    "th_mutexes ta = (th_mutexes th)(mp \<mapsto> False)"
    using init_ok [OF alloc_frame [OF assms(1)], of mp cm] assms(3) nm(2) by (auto simp: th_alloc_def)
  have "th_mutexes (th_alloc ta cp) mp = Some False" using A(4) by (simp add: th_alloc_def)
  from destroy_ok [OF alloc_frame [OF A(2)] _ this] obtain td where D: "mi_destroy mi (th_alloc ta cp) mp = Some td" "ok td ms"
    "th_mem td = th_mem (th_alloc ta cp) - {mp}" "th_mutexes td = (th_mutexes (th_alloc ta cp))(mp := None)" by auto
  let ?th = "td\<lparr>th_mem := th_mem td - {cp}\<rparr>"
  have m: "th_mem td = th_mem th \<union> {cm, cp}" using A(3) D(3) assms(2,4) by (auto simp: th_alloc_def)
  have i: "oh_cond_init mi th cm mp True cp False = Some (?th, NULL)" using A(1) D(1) m assms(3) by (simp add: oh_cond_init_def th_free_def)
  have "set ms \<subseteq> th_mem td - {cp}" using ok_mem [OF D(2)] nm by auto
  from ok_frame [OF D(2) this, where q = "th_pconds td" and c = "th_conds td"] have "ok ?th ms" by simp
  moreover have "th_mem ?th = th_mem th \<union> {cm}" using m assms(2,4) by auto
  moreover have "th_mutexes ?th = th_mutexes th" using A(4) D(4) assms(5) by (auto simp: th_alloc_def)
  ultimately show ?thesis using i by blast
qed

end

section \<open>The release variant\<close>

definition locks_ok :: "threads \<Rightarrow> addr list \<Rightarrow> bool" where
  "locks_ok th ms \<longleftrightarrow> distinct ms \<and> dom (th_mutexes th) = set ms \<and> set ms \<subseteq> th_mem th"

interpretation release: mutex_provider release_mutex_if locks_ok
  by unfold_locales (auto simp: locks_ok_def same_conds_def release_mutex_if_def oh_mutex_init_def oh_mutex_lock_def oh_mutex_unlock_def oh_mutex_destroy_def
    pthread_mutex_init_def pthread_mutex_lock_def pthread_mutex_unlock_def pthread_mutex_destroy_def th_alloc_def th_free_def)

section \<open>The debugging variant\<close>

text \<open>Every lock has its record, which counts one more than it is held.\<close>

definition mtxdbg_ok :: "threads \<Rightarrow> addr list \<Rightarrow> bool" where
  "mtxdbg_ok th ms \<longleftrightarrow> locks_ok th ms \<and> lseg (th_next th) (th_head th) (map mtxdbg_rec_of ms) \<and>
     (\<forall>m\<in>set ms. th_recs th (mtxdbg_rec_of m) = Some \<lparr>xr_count = (if th_mutexes th m = Some True then 2 else 1), xr_block = m\<rparr>)"

lemma rec_of_simps [simp]: "mtxdbg_rec_of m = mtxdbg_rec_of n \<longleftrightarrow> m = n" "mtxdbg_rec_of m \<noteq> NULL" "NULL \<noteq> mtxdbg_rec_of m" "NULL < mtxdbg_rec_of m"
  by (simp_all add: mtxdbg_rec_of_def SIZEOF_MUTEX_def)

lemma distinct_recs: "distinct (map mtxdbg_rec_of ms) = distinct ms"
  by (simp add: distinct_map inj_on_def)

lemma mtxdbg_init_ok:
  assumes "mtxdbg_ok th ms" and "p \<noteq> NULL" and "p \<notin> th_mem th"
  shows "\<exists>th'. oh_mutexd_init th p True = Some (th', p) \<and> mtxdbg_ok th' (p # ms) \<and> th_mem th' = th_mem th \<union> {p} \<and>
    th_mutexes th' = (th_mutexes th)(p \<mapsto> False) \<and> same_conds th th'"
proof -
  have n: "p \<notin> set ms" using assms(1,3) by (auto simp: mtxdbg_ok_def locks_ok_def)
  let ?nx = "(th_next th)(mtxdbg_rec_of p \<mapsto> NULL)"
  have "lseg ?nx (th_head th) (map mtxdbg_rec_of ms)" using assms(1) n by (subst lseg_frame) (auto simp: mtxdbg_ok_def)
  moreover have "mtxdbg_rec_of p \<notin> set (map mtxdbg_rec_of ms)" using n by auto
  ultimately have "splst_add ?nx (th_head th) (mtxdbg_rec_of p) = Some (?nx(mtxdbg_rec_of p \<mapsto> th_head th), mtxdbg_rec_of p)"
    "lseg (?nx(mtxdbg_rec_of p \<mapsto> th_head th)) (mtxdbg_rec_of p) (mtxdbg_rec_of p # map mtxdbg_rec_of ms)" using add_ok by (metis rec_of_simps(2) dom_fun_upd insertI1 option.distinct(1))+
  moreover let ?th' = "th\<lparr>th_mem := th_mem th \<union> {p}, th_mutexes := (th_mutexes th)(p \<mapsto> False),
    th_recs := (th_recs th)(mtxdbg_rec_of p \<mapsto> \<lparr>xr_count = 1, xr_block = p\<rparr>), th_next := ?nx(mtxdbg_rec_of p \<mapsto> th_head th), th_head := mtxdbg_rec_of p\<rparr>"
  have "oh_mutexd_init th p True = Some (?th', p)"
    using calculation(1) assms(2) by (simp add: oh_mutexd_init_def pthread_mutex_init_def th_alloc_def Let_def)
  ultimately show ?thesis using assms n by (intro exI [of _ ?th']) (auto simp: mtxdbg_ok_def locks_ok_def same_conds_def)
qed

lemma mtxdbg_destroy_ok:
  assumes "mtxdbg_ok th ms" and "p \<in> set ms" and "th_mutexes th p = Some False"
  shows "\<exists>th'. oh_mutexd_destroy th p = Some th' \<and> mtxdbg_ok th' (remove1 p ms) \<and> th_mem th' = th_mem th - {p} \<and>
    th_mutexes th' = (th_mutexes th)(p := None) \<and> same_conds th th'"
proof -
  have I: "distinct ms" "dom (th_mutexes th) = set ms" "set ms \<subseteq> th_mem th" "lseg (th_next th) (th_head th) (map mtxdbg_rec_of ms)"
    "\<forall>m\<in>set ms. th_recs th (mtxdbg_rec_of m) = Some \<lparr>xr_count = (if th_mutexes th m = Some True then 2 else 1), xr_block = m\<rparr>"
    using assms(1) by (auto simp: mtxdbg_ok_def locks_ok_def)
  have "distinct (map mtxdbg_rec_of ms)" using I(1) by (simp add: distinct_recs)
  from del_ok [OF I(4) this] obtain nx head where d: "splst_del (th_next th) (th_head th) (mtxdbg_rec_of p) = Some (nx, head)"
    "lseg nx head (remove1 (mtxdbg_rec_of p) (map mtxdbg_rec_of ms))" by blast
  have r: "remove1 (mtxdbg_rec_of p) (map mtxdbg_rec_of ms) = map mtxdbg_rec_of (remove1 p ms)" by (induction ms) auto
  have s: "set (remove1 p ms) = set ms - {p}" using I(1) by simp
  have "lseg (nx(mtxdbg_rec_of p := None)) head (map mtxdbg_rec_of (remove1 p ms))"
    by (rule lseg_cong [OF _ d(2) [unfolded r]]) (auto simp: s I(1))
  moreover let ?th' = "th\<lparr>th_mem := th_mem th - {p}, th_mutexes := (th_mutexes th)(p := None), th_recs := (th_recs th)(mtxdbg_rec_of p := None),
    th_next := nx(mtxdbg_rec_of p := None), th_head := head\<rparr>"
  have "oh_mutexd_destroy th p = Some ?th'"
    using I(3,5) assms(2,3) d(1) by (auto simp: oh_mutexd_destroy_def pthread_mutex_destroy_def th_free_def Let_def)
  ultimately show ?thesis using I assms(2) by (intro exI [of _ ?th']) (auto simp: mtxdbg_ok_def locks_ok_def same_conds_def)
qed

lemma mtxdbg_change_ok:
  assumes "mtxdbg_ok th ms" and "p \<in> set ms"
  shows "th_mutexes th p = Some False \<Longrightarrow> \<exists>th'. oh_mutexd_lock th p = Some th' \<and> mtxdbg_ok th' ms \<and> th_mem th' = th_mem th \<and>
      th_mutexes th' = (th_mutexes th)(p \<mapsto> True) \<and> same_conds th th'"
    and "th_mutexes th p = Some True \<Longrightarrow> \<exists>th'. oh_mutexd_unlock th p = Some th' \<and> mtxdbg_ok th' ms \<and> th_mem th' = th_mem th \<and>
      th_mutexes th' = (th_mutexes th)(p \<mapsto> False) \<and> same_conds th th'"
  using assms by (auto simp: oh_mutexd_lock_def oh_mutexd_unlock_def mtxdbg_count_def pthread_mutex_lock_def pthread_mutex_unlock_def mtxdbg_ok_def
    locks_ok_def same_conds_def)

interpretation debug: mutex_provider debug_mutex_if mtxdbg_ok
proof unfold_locales
  show "set ms \<subseteq> th_mem th" if "mtxdbg_ok th ms" for th ms using that by (auto simp: mtxdbg_ok_def locks_ok_def)
  show "mtxdbg_ok (th\<lparr>th_mem := mem, th_pconds := q, th_conds := c\<rparr>) ms" if "mtxdbg_ok th ms" "set ms \<subseteq> mem" for th ms mem q c
    using that by (auto simp: mtxdbg_ok_def locks_ok_def)
qed (use mtxdbg_init_ok mtxdbg_destroy_ok mtxdbg_change_ok in \<open>simp_all add: debug_mutex_if_def\<close>)

section \<open>Properties\<close>

text \<open>C40: with either variant of the locks a condition variable can be created, locked, unlocked and destroyed, and then the memory,
  the locks and the condition variables are again those of before.\<close>

theorem cond_roundtrip:
  assumes "(mi, ok) = (release_mutex_if, locks_ok) \<or> (mi, ok) = (debug_mutex_if, mtxdbg_ok)"
    and "ok th ms" and "distinct [cm, mp, cp]" and "NULL \<notin> {cm, mp, cp}" and "{cm, mp, cp} \<inter> th_mem th = {}"
    and "cp \<notin> th_pconds th" and "th_conds th cm = None" and "th_mutexes th mp = None"
  shows "\<exists>th1 th2 th3 th4. oh_cond_init mi th cm mp True cp True = Some (th1, cm) \<and> cond_lock mi th1 cm = Some th2 \<and>
    cond_unlock mi th2 cm = Some th3 \<and> oh_cond_destroy mi th3 cm = Some th4 \<and> ok th4 ms \<and> th_mem th4 = th_mem th \<and>
    th_mutexes th4 = th_mutexes th \<and> th_conds th4 = th_conds th \<and> th_pconds th4 = th_pconds th"
  using assms(1)
proof
  assume "(mi, ok) = (release_mutex_if, locks_ok)"
  then show ?thesis using release.cond_cycle [of th ms cm mp cp] assms(2-8) unfolding same_conds_def by simp
next
  assume "(mi, ok) = (debug_mutex_if, mtxdbg_ok)"
  then show ?thesis using debug.cond_cycle [of th ms cm mp cp] assms(2-8) unfolding same_conds_def by simp
qed

definition no_threads :: threads where
  "no_threads = \<lparr>th_mem = {}, th_mutexes = Map.empty, th_pconds = {}, th_conds = Map.empty, th_recs = Map.empty, th_next = Map.empty, th_head = NULL\<rparr>"

lemma no_threads_ok: "mtxdbg_ok no_threads []" "locks_ok no_threads []"
  by (simp_all add: mtxdbg_ok_def locks_ok_def no_threads_def)

theorem cond_roundtrip_witness:
  "\<exists>th1 th2 th3 th4. oh_cond_init debug_mutex_if no_threads 10 20 True 30 True = Some (th1, 10) \<and> cond_lock debug_mutex_if th1 10 = Some th2 \<and>
    cond_unlock debug_mutex_if th2 10 = Some th3 \<and> oh_cond_destroy debug_mutex_if th3 10 = Some th4 \<and> th_mem th4 = {}"
  using cond_roundtrip [of debug_mutex_if mtxdbg_ok no_threads "[]" 10 20 30] no_threads_ok(1) by (auto simp: no_threads_def)

text \<open>A condition variable that pthreads refuses to initialise gives back its lock and its variable, but not its own structure.\<close>

theorem cond_init_leaks:
  assumes "mtxdbg_ok th ms" and "distinct [cm, mp, cp]" and "NULL \<notin> {cm, mp, cp}" and "{cm, mp, cp} \<inter> th_mem th = {}"
  shows "\<exists>th'. oh_cond_init debug_mutex_if th cm mp True cp False = Some (th', NULL) \<and> mtxdbg_ok th' ms \<and> th_mem th' = th_mem th \<union> {cm}"
proof -
  have "mp \<notin> dom (th_mutexes th)" using assms(1,4) by (auto simp: mtxdbg_ok_def locks_ok_def)
  then show ?thesis using debug.cond_failure [OF assms] by blast
qed

theorem cond_init_leaks_witness:
  "\<exists>th'. oh_cond_init debug_mutex_if no_threads 10 20 True 30 False = Some (th', NULL) \<and> th_mem th' = {10}"
  using cond_init_leaks [OF no_threads_ok(1), of 10 20 30] by (auto simp: no_threads_def)

text \<open>What the debugging variant prints is every lock, the youngest first, with how often it is held; but the total it prints is
  always 1, however many there are.\<close>

theorem mtxdbg_print_total:
  assumes "mtxdbg_ok th ms"
  shows "oh_mtxdbg_print_rec th = Some (map (\<lambda>m. (if th_mutexes th m = Some True then 1 else 0, m)) ms, 1)"
proof -
  have "while_c (\<lambda>(p, out). Some (p \<noteq> NULL)) (mtxdbg_print_step th) (p, out) =
      Some (NULL, out @ map (\<lambda>m. (if th_mutexes th m = Some True then 1 else 0, m)) xs)"
    if "lseg (th_next th) p (map mtxdbg_rec_of xs)" "set xs \<subseteq> set ms" for p out xs
    using that
  proof (induction xs arbitrary: p out)
    case Nil
    then show ?case by (simp add: while_c_stop)
  next
    case (Cons x xs)
    then obtain q where q: "p = mtxdbg_rec_of x" "th_next th p = Some q" "lseg (th_next th) q (map mtxdbg_rec_of xs)" by auto
    have "th_recs th p = Some \<lparr>xr_count = (if th_mutexes th x = Some True then 2 else 1), xr_block = x\<rparr>"
      using Cons.prems(2) assms q(1) by (simp add: mtxdbg_ok_def)
    then have "mtxdbg_print_step th (p, out) = Some (q, out @ [(if th_mutexes th x = Some True then 1 else 0, x)])"
      using q by (simp add: mtxdbg_print_step_def splst_next_def)
    then have "while_c (\<lambda>(p, out). Some (p \<noteq> NULL)) (mtxdbg_print_step th) (p, out) =
        while_c (\<lambda>(p, out). Some (p \<noteq> NULL)) (mtxdbg_print_step th) (q, out @ [(if th_mutexes th x = Some True then 1 else 0, x)])"
      by (intro while_c_step) (simp add: q(1))
    also have "\<dots> = Some (NULL, (out @ [(if th_mutexes th x = Some True then 1 else 0, x)]) @ map (\<lambda>m. (if th_mutexes th m = Some True then 1 else 0, m)) xs)"
      by (rule Cons.IH [OF q(3)]) (use Cons.prems(2) in simp)
    finally show ?case by simp
  qed
  from this [of "th_head th" ms "[]"] assms show ?thesis by (simp add: oh_mtxdbg_print_rec_def mtxdbg_ok_def)
qed

theorem mtxdbg_print_total_witness:
  "\<exists>th. oh_mtxdbg_print_rec th = Some ([(1, 30), (0, 20)], 1)"
proof -
  let ?r = "\<lambda>n m. \<lparr>xr_count = n, xr_block = m\<rparr>"
  let ?th = "no_threads\<lparr>th_mem := {20, 30}, th_mutexes := [20 \<mapsto> False, 30 \<mapsto> True], th_recs := [60 \<mapsto> ?r 1 20, 70 \<mapsto> ?r 2 30],
    th_next := [60 \<mapsto> NULL, 70 \<mapsto> 60], th_head := 70\<rparr>"
  have "mtxdbg_ok ?th [30, 20]" by (auto simp: mtxdbg_ok_def locks_ok_def no_threads_def mtxdbg_rec_of_def SIZEOF_MUTEX_def)
  from mtxdbg_print_total [OF this] show ?thesis by (auto simp: no_threads_def)
qed

end
